(* ===== verification/Prelude.thy ===== *)
theory Prelude
  imports Main "HOL-Library.Word" "HOL-Library.Monad_Syntax"
begin

text \<open>
  What every component of the development shares.

  C and C++ buffers are lists.  An access through a pointer is \<open>rd\<close>, \<open>wr\<close> or \<open>memcpy_at\<close>: the
  value \<open>None\<close> stands for an access outside the buffer, so a kernel whose model returns \<open>Some\<close>
  has touched no memory it does not own.  A failing run-time check (\<open>TFLITE_DCHECK\<close>, \<open>CHECK\<close>,
  \<open>DCHECK\<close>) is \<open>None\<close> as well, through \<open>check\<close>.  A counted \<open>for\<close> loop is \<open>for_range\<close>.

  The lemmas reduce nested counted loops to one fold over a list of index tuples and say what such
  a fold of single writes does to the buffer (\<open>scatter\<close>).
\<close>

unbundle bit_operations_syntax

named_theorems mem_simps \<open>memory accesses and checks of the models\<close>
named_theorems dim_simps \<open>products of dimensions\<close>

section \<open>Checked memory accesses\<close>

definition rd :: "'a list \<Rightarrow> int \<Rightarrow> 'a option" where
  "rd xs i = (if 0 \<le> i \<and> i < int (length xs) then Some (xs ! nat i) else None)"

definition wr :: "'a list \<Rightarrow> int \<Rightarrow> 'a \<Rightarrow> 'a list option" where
  "wr xs i v = (if 0 \<le> i \<and> i < int (length xs) then Some (xs[nat i := v]) else None)"

definition memcpy_at :: "'a list \<Rightarrow> int \<Rightarrow> 'a list \<Rightarrow> int \<Rightarrow> int \<Rightarrow> 'a list option" where
  "memcpy_at dst d src s n =
     (if 0 \<le> n \<and> 0 \<le> d \<and> d + n \<le> int (length dst) \<and> 0 \<le> s \<and> s + n \<le> int (length src)
      then Some (take (nat d) dst @ take (nat n) (drop (nat s) src) @ drop (nat (d + n)) dst)
      else None)"

definition memset_at :: "'a list \<Rightarrow> int \<Rightarrow> 'a \<Rightarrow> int \<Rightarrow> 'a list option" where
  "memset_at dst d v n =
     (if 0 \<le> n \<and> 0 \<le> d \<and> d + n \<le> int (length dst)
      then Some (take (nat d) dst @ replicate (nat n) v @ drop (nat (d + n)) dst)
      else None)"

definition check :: "bool \<Rightarrow> unit option" where
  "check b = (if b then Some () else None)"

lemma rd_in [mem_simps]: "0 \<le> i \<Longrightarrow> i < int (length xs) \<Longrightarrow> rd xs i = Some (xs ! nat i)"
  by (simp add: rd_def)

lemma rd_Some_iff: "rd xs i = Some v \<longleftrightarrow> 0 \<le> i \<and> i < int (length xs) \<and> v = xs ! nat i"
  by (auto simp: rd_def)

lemma wr_in [mem_simps]: "0 \<le> i \<Longrightarrow> i < int (length xs) \<Longrightarrow> wr xs i v = Some (xs[nat i := v])"
  by (simp add: wr_def)

lemma wr_Some_iff: "wr xs i v = Some ys \<longleftrightarrow> 0 \<le> i \<and> i < int (length xs) \<and> ys = xs[nat i := v]"
  by (auto simp: wr_def)

lemma check_True [simp]: "check True = Some ()"
  by (simp add: check_def)

lemma check_False [simp]: "check False = None"
  by (simp add: check_def)

lemma check_bind_Some [mem_simps]:
  "Option.bind (check b) f = Some v \<longleftrightarrow> b \<and> f () = Some v"
  by (simp add: check_def)

lemma check_Some_iff: "check b = Some u \<longleftrightarrow> b"
  by (simp add: check_def)

text \<open>Both overwrite a segment; the segment lemma is shared.\<close>

lemma length_segment:
  "d + length ys \<le> length xs \<Longrightarrow> length (take d xs @ ys @ drop (d + length ys) xs) = length xs"
  by simp

lemma nth_segment:
  assumes "d + length ys \<le> length xs" and "k < length xs"
  shows "(take d xs @ ys @ drop (d + length ys) xs) ! k =
         (if d \<le> k \<and> k < d + length ys then ys ! (k - d) else xs ! k)"
proof -
  have l: "length (take d xs) = d" using assms(1) by simp
  consider "k < d" | "d \<le> k" "k < d + length ys" | "d + length ys \<le> k" by linarith
  then show ?thesis
  proof cases
    case 1
    then show ?thesis using assms by (simp add: nth_append l del: length_take)
  next
    case 2
    then have "\<not> k < d" "k - d < length ys" by linarith+
    with 2 show ?thesis by (simp add: nth_append l del: length_take)
  next
    case 3
    then have "\<not> k < d" "\<not> k - d < length ys" "d + length ys + (k - d - length ys) = k" by linarith+
    with 3 assms show ?thesis by (simp add: nth_append l del: length_take)
  qed
qed

lemma length_memcpy_at: "memcpy_at dst d src s n = Some out \<Longrightarrow> length out = length dst"
  by (auto simp: memcpy_at_def split: if_splits)

lemma memcpy_at_segment:
  assumes "memcpy_at dst d src s n = Some out"
  shows "0 \<le> n \<and> 0 \<le> d \<and> 0 \<le> s \<and> d + n \<le> int (length dst) \<and> s + n \<le> int (length src) \<and>
         out = take (nat d) dst @ take (nat n) (drop (nat s) src) @
               drop (nat d + length (take (nat n) (drop (nat s) src))) dst \<and>
         length (take (nat n) (drop (nat s) src)) = nat n"
proof -
  from assms have r: "0 \<le> n" "0 \<le> d" "d + n \<le> int (length dst)" "0 \<le> s" "s + n \<le> int (length src)"
    by (auto simp: memcpy_at_def split: if_splits)
  then have l: "length (take (nat n) (drop (nat s) src)) = nat n"
    by (simp del: take_drop)
  have "nat (d + n) = nat d + nat n" using r by (simp add: nat_add_distrib)
  with r l assms show ?thesis by (simp add: memcpy_at_def del: take_drop length_take)
qed

lemma nth_memcpy_at:
  assumes "memcpy_at dst d src s n = Some out" and "k < length dst"
  shows "out ! k = (if d \<le> int k \<and> int k < d + n then src ! nat (s + (int k - d)) else dst ! k)"
proof -
  let ?seg = "take (nat n) (drop (nat s) src)"
  from memcpy_at_segment [OF assms(1)]
  have r: "0 \<le> n" "0 \<le> d" "0 \<le> s" "d + n \<le> int (length dst)" "s + n \<le> int (length src)"
    and l: "length ?seg = nat n" and out: "out = take (nat d) dst @ ?seg @ drop (nat d + length ?seg) dst"
    by blast+
  have "nat d + length ?seg \<le> length dst" using r l by linarith
  from nth_segment [OF this assms(2)]
  have "out ! k = (if nat d \<le> k \<and> k < nat d + nat n then ?seg ! (k - nat d) else dst ! k)"
    unfolding out l .
  moreover have "nat d \<le> k \<and> k < nat d + nat n \<longleftrightarrow> d \<le> int k \<and> int k < d + n"
    using r by linarith
  moreover have "?seg ! (k - nat d) = src ! nat (s + (int k - d))"
    if "nat d \<le> k" "k < nat d + nat n"
  proof -
    have "nat s + (k - nat d) = nat (s + (int k - d))" using r that by linarith
    moreover have "?seg ! (k - nat d) = src ! (nat s + (k - nat d))"
      using r that by (subst nth_take) (linarith, subst nth_drop, linarith, simp)
    ultimately show ?thesis by simp
  qed
  ultimately show ?thesis by auto
qed

lemma memcpy_at_total:
  "0 \<le> n \<Longrightarrow> 0 \<le> d \<Longrightarrow> d + n \<le> int (length dst) \<Longrightarrow> 0 \<le> s \<Longrightarrow> s + n \<le> int (length src) \<Longrightarrow>
   \<exists>out. memcpy_at dst d src s n = Some out"
  by (simp add: memcpy_at_def)

lemma length_memset_at: "memset_at dst d v n = Some out \<Longrightarrow> length out = length dst"
  by (auto simp: memset_at_def split: if_splits)

lemma nth_memset_at:
  assumes "memset_at dst d v n = Some out" and "k < length dst"
  shows "out ! k = (if d \<le> int k \<and> int k < d + n then v else dst ! k)"
proof -
  from assms(1) have r: "0 \<le> n" "0 \<le> d" "d + n \<le> int (length dst)"
    and out: "out = take (nat d) dst @ replicate (nat n) v @ drop (nat (d + n)) dst"
    by (auto simp: memset_at_def split: if_splits)
  have "nat (d + n) = nat d + length (replicate (nat n) v)" using r by (simp add: nat_add_distrib)
  moreover have "nat d + length (replicate (nat n) v) \<le> length dst" using r by simp
  ultimately have "out ! k = (if nat d \<le> k \<and> k < nat d + nat n then replicate (nat n) v ! (k - nat d) else dst ! k)"
    using nth_segment [of "nat d" "replicate (nat n) v" dst k] assms(2) out by simp
  moreover have "nat d \<le> k \<and> k < nat d + nat n \<longleftrightarrow> d \<le> int k \<and> int k < d + n"
    using r by linarith
  ultimately show ?thesis by auto
qed

section \<open>Errors as values\<close>

definition bnd :: "'e + 'a \<Rightarrow> ('a \<Rightarrow> 'e + 'b) \<Rightarrow> 'e + 'b" where
  "bnd r f = (case r of Inl e \<Rightarrow> Inl e | Inr x \<Rightarrow> f x)"

lemma bnd_simps [simp]: "bnd (Inl e) f = Inl e" "bnd (Inr x) f = f x"
  by (simp_all add: bnd_def)

lemma bnd_Inr_iff: "bnd r f = Inr y \<longleftrightarrow> (\<exists>x. r = Inr x \<and> f x = Inr y)"
  by (cases r) simp_all

lemma bnd_cong [fundef_cong]: "r = r' \<Longrightarrow> (\<And>x. r' = Inr x \<Longrightarrow> f x = g x) \<Longrightarrow> bnd r f = bnd r' g"
  by (cases r') simp_all

section \<open>Counted loops\<close>

lemma upto_map_int: "[0..int n - 1] = map int [0..<n]"
proof (induction n)
  case 0
  then show ?case by simp
next
  case (Suc n)
  have "[0..int n] = [0..int n - 1] @ [int n]" by (rule upto_rec2) simp
  with Suc show ?case by simp
qed

lemma upto_append: "(i :: int) \<le> j \<Longrightarrow> j \<le> k + 1 \<Longrightarrow> [i..k] = [i..j - 1] @ [j..k]"
  by (cases "j = k + 1") (simp_all add: upto_split1)

lemma upto_blocks:
  assumes "0 \<le> n" "0 \<le> (m :: int)"
  shows "concat (map (\<lambda>i. map (\<lambda>j. i * m + j) [0..m - 1]) [0..n - 1]) = [0..n * m - 1]"
  using assms(1)
proof (induction n rule: int_ge_induct)
  case base
  then show ?case by simp
next
  case (step n)
  have "[0..n + 1 - 1] = [0..n - 1] @ [n]" using step.hyps upto_rec2 [of 0 n] by simp
  moreover have "map (\<lambda>j. n * m + j) [0..m - 1] = [n * m..(n + 1) * m - 1]"
    by (intro nth_equalityI) (simp_all add: distrib_right)
  moreover have "[0..(n + 1) * m - 1] = [0..n * m - 1] @ [n * m..(n + 1) * m - 1]"
    using assms(2) step.hyps by (intro upto_append) (simp_all add: distrib_right)
  ultimately show ?case using step.IH by simp
qed

lemma upto_blocks_map:
  "0 \<le> n \<Longrightarrow> 0 \<le> (m :: int) \<Longrightarrow>
   map g [0..n * m - 1] = concat (map (\<lambda>i. map (\<lambda>j. g (i * m + j)) [0..m - 1]) [0..n - 1])"
  by (subst upto_blocks [symmetric]) (simp_all add: map_concat o_def)

lemma bind_Some_id: "Option.bind x Some = x"
  by (cases x) simp_all

fun foldM :: "('b \<Rightarrow> 's \<Rightarrow> 's option) \<Rightarrow> 'b list \<Rightarrow> 's \<Rightarrow> 's option" where
  "foldM f [] s = Some s"
| "foldM f (x # xs) s = Option.bind (f x s) (foldM f xs)"

text \<open>\<open>for (int i = lo; i < hi; ++i) body\<close>, the state threaded through.\<close>

definition for_range :: "int \<Rightarrow> int \<Rightarrow> (int \<Rightarrow> 's \<Rightarrow> 's option) \<Rightarrow> 's \<Rightarrow> 's option" where
  "for_range lo hi body = foldM body [lo..hi - 1]"

lemma foldM_Nil: "foldM f [] = Some"
  by (rule ext) simp

lemma foldM_append: "foldM f (xs @ ys) s = Option.bind (foldM f xs s) (foldM f ys)"
  by (induction xs arbitrary: s) (auto split: Option.bind_splits)

lemma foldM_cong [fundef_cong]:
  "xs = ys \<Longrightarrow> s = t \<Longrightarrow> (\<And>x s. x \<in> set ys \<Longrightarrow> f x s = g x s) \<Longrightarrow> foldM f xs s = foldM g ys t"
  by (induction xs arbitrary: s t ys) (auto split: Option.bind_splits intro!: Option.bind_cong)

lemma foldM_map: "foldM f (map g xs) s = foldM (\<lambda>x. f (g x)) xs s"
  by (induction xs arbitrary: s) (auto split: Option.bind_splits)

lemma foldM_concat: "foldM (\<lambda>x. foldM f (g x)) xs s = foldM f (concat (map g xs)) s"
  by (induction xs arbitrary: s) (auto simp: foldM_append split: Option.bind_splits)

lemma foldM_product:
  "foldM (\<lambda>i. foldM (body i) js) is s = foldM (\<lambda>(i, j). body i j) (List.product is js) s"
proof -
  have "foldM (\<lambda>i. foldM (\<lambda>(i, j). body i j) (map (Pair i) js)) is s =
        foldM (\<lambda>(i, j). body i j) (concat (map (\<lambda>i. map (Pair i) js) is)) s"
    by (rule foldM_concat)
  moreover have "concat (map (\<lambda>i. map (Pair i) js) is) = List.product is js"
    by (induction "is") auto
  moreover have "foldM (\<lambda>i. foldM (\<lambda>(i, j). body i j) (map (Pair i) js)) is s =
        foldM (\<lambda>i. foldM (body i) js) is s"
    by (rule foldM_cong) (simp_all add: foldM_map)
  ultimately show ?thesis by simp
qed

lemma foldM_product_fun:
  "foldM (\<lambda>i. foldM (body i) js) is = foldM (\<lambda>(i, j). body i j) (List.product is js)"
  by (rule ext) (rule foldM_product)

text \<open>The invariant rule for a loop: it does not fail and ends in the invariant.\<close>

lemma foldM_invar:
  assumes "P [] s"
    and "\<And>pre x post s. xs = pre @ x # post \<Longrightarrow> P pre s \<Longrightarrow> \<exists>t. f x s = Some t \<and> P (pre @ [x]) t"
  shows "\<exists>t. foldM f xs s = Some t \<and> P xs t"
proof -
  have "\<exists>t. foldM f post s = Some t \<and> P xs t" if "xs = pre @ post" "P pre s" for pre post s
    using that
  proof (induction post arbitrary: pre s)
    case Nil
    then show ?case by simp
  next
    case (Cons x post)
    then obtain t where t: "f x s = Some t" "P (pre @ [x]) t" using assms(2) by blast
    have "\<exists>u. foldM f post t = Some u \<and> P xs u"
      by (rule Cons.IH [of "pre @ [x]"]) (use Cons.prems t in auto)
    with t show ?case by simp
  qed
  from this [of "[]" xs s] assms(1) show ?thesis by simp
qed

lemma for_range_empty [simp]: "hi \<le> lo \<Longrightarrow> for_range lo hi body s = Some s"
  by (simp add: for_range_def)

lemma for_range_step:
  "lo < hi \<Longrightarrow> for_range lo hi body s = Option.bind (body lo s) (for_range (lo + 1) hi body)"
  by (simp add: for_range_def upto_rec1)

lemma for_range_snoc:
  "lo \<le> hi \<Longrightarrow> for_range lo (hi + 1) body s = Option.bind (for_range lo hi body s) (body hi)"
proof -
  assume "lo \<le> hi"
  then have "[lo..hi] = [lo..hi - 1] @ [hi]" by (rule upto_rec2)
  moreover have "foldM body [hi] = body hi" by (rule ext) (simp add: fun_eq_iff foldM_Nil bind_Some_id)
  ultimately show ?thesis by (simp add: for_range_def foldM_append)
qed

lemma for_range_cong:
  "lo = lo' \<Longrightarrow> hi = hi' \<Longrightarrow> (\<And>i s. lo' \<le> i \<Longrightarrow> i < hi' \<Longrightarrow> f i s = g i s) \<Longrightarrow> s = t \<Longrightarrow>
   for_range lo hi f s = for_range lo' hi' g t"
  unfolding for_range_def by (rule foldM_cong) auto

text \<open>Loop rule: the invariant is indexed by the loop variable, as one writes it on paper.\<close>

lemma for_range_rule:
  assumes "lo \<le> hi" "P lo s"
    and "\<And>i s. lo \<le> i \<Longrightarrow> i < hi \<Longrightarrow> P i s \<Longrightarrow> \<exists>t. body i s = Some t \<and> P (i + 1) t"
  shows "\<exists>t. for_range lo hi body s = Some t \<and> P hi t"
proof -
  have "\<exists>t. for_range lo (lo + int n) body s = Some t \<and> P (lo + int n) t" if "lo + int n \<le> hi" for n
    using that
  proof (induction n)
    case 0
    then show ?case using assms(2) by simp
  next
    case (Suc n)
    then obtain t where t: "for_range lo (lo + int n) body s = Some t" "P (lo + int n) t" by auto
    obtain u where "body (lo + int n) t = Some u" "P (lo + int n + 1) u"
      using assms(3) [of "lo + int n" t] t Suc.prems by auto
    with t have "for_range lo (lo + int n + 1) body s = Some u" "P (lo + int n + 1) u"
      by (simp_all add: for_range_snoc)
    moreover have "lo + int (Suc n) = lo + int n + 1" by simp
    ultimately show ?case by metis
  qed
  from this [of "nat (hi - lo)"] assms(1) show ?thesis by simp
qed

lemma for_range_nest:
  "for_range l1 h1 (\<lambda>i. for_range l2 h2 (body i)) s =
   foldM (\<lambda>(i, j). body i j) (List.product [l1..h1 - 1] [l2..h2 - 1]) s"
  by (simp add: for_range_def foldM_product)

lemma foldM_preserves:
  assumes "foldM f xs s = Some t" and "P s" and "\<And>x s t. f x s = Some t \<Longrightarrow> P s \<Longrightarrow> P t"
  shows "P t"
  using assms(1,2) by (induction xs arbitrary: s) (auto simp: bind_eq_Some_conv dest: assms(3))

lemma foldM_None: "x \<in> set xs \<Longrightarrow> (\<And>s. f x s = None) \<Longrightarrow> foldM f xs s = None"
  by (induction xs arbitrary: s) (auto split: Option.bind_splits)

lemma foldM_filter: "foldM (\<lambda>x s. if P x then f x s else Some s) xs s = foldM f (filter P xs) s"
  by (induction xs arbitrary: s) (auto split: Option.bind_splits)

lemma for_range_if:
  "(if c then Some s else for_range lo hi f s) = for_range lo hi (\<lambda>i s. if c then Some s else f i s) s"
proof (cases c)
  case True
  have "foldM (\<lambda>i s. Some s) xs s = Some s" for xs :: "int list" by (induction xs) auto
  with True show ?thesis by (simp add: for_range_def)
qed simp

text \<open>A loop that carries scratch data along computes what it computes without them.\<close>

lemma for_range_ghost:
  assumes "\<And>x g s s'. lo \<le> x \<Longrightarrow> x < hi \<Longrightarrow> G g \<Longrightarrow> f x s = Some s' \<Longrightarrow> \<exists>g'. G g' \<and> body x (g, s) = Some (g', s')"
    and "for_range lo hi f s = Some s'" and "G g"
  shows "\<exists>g'. G g' \<and> for_range lo hi body (g, s) = Some (g', s')"
proof -
  have "\<exists>g'. G g' \<and> foldM body xs (g, s) = Some (g', s')"
    if "set xs \<subseteq> {lo..<hi}" "foldM f xs s = Some s'" "G g" for xs s g
    using that
  proof (induction xs arbitrary: s g)
    case (Cons x xs)
    then obtain u where u: "f x s = Some u" "foldM f xs u = Some s'" by (auto simp: bind_eq_Some_conv)
    have "lo \<le> x" "x < hi" using Cons.prems(1) by auto
    from assms(1) [OF this Cons.prems(3) u(1)] obtain h where h: "G h" "body x (g, s) = Some (h, u)" by blast
    from Cons.IH [OF _ u(2) h(1)] Cons.prems(1) h(2) show ?case by auto
  qed simp
  from this [of "[lo..hi - 1]"] assms(2,3) show ?thesis by (simp add: for_range_def) (meson atLeastAtMost_iff
      atLeastLessThan_iff subsetI zle_diff1_eq)
qed

section \<open>Folds of single writes\<close>

definition scatter :: "(int \<times> 'a) list \<Rightarrow> 'a list \<Rightarrow> 'a list option" where
  "scatter = foldM (\<lambda>(i, v) s. wr s i v)"

lemma scatter_simps [simp]:
  "scatter [] s = Some s"
  "scatter ((i, v) # ps) s = Option.bind (wr s i v) (scatter ps)"
  by (simp_all add: scatter_def)

lemma scatter_total:
  assumes "\<And>i v. (i, v) \<in> set ps \<Longrightarrow> 0 \<le> i \<and> i < int (length s)"
  shows "\<exists>t. scatter ps s = Some t \<and> length t = length s"
  using assms
proof (induction ps arbitrary: s)
  case Nil
  then show ?case by simp
next
  case (Cons p ps)
  obtain i v where p: "p = (i, v)" by fastforce
  have i: "0 \<le> i \<and> i < int (length s)" using Cons.prems p by auto
  have "\<exists>t. scatter ps (s[nat i := v]) = Some t \<and> length t = length (s[nat i := v])"
    by (rule Cons.IH) (use Cons.prems in auto)
  with p i show ?case by (simp add: wr_in)
qed

lemma scatter_other:
  "scatter ps s = Some t \<Longrightarrow> int k \<notin> fst ` set ps \<Longrightarrow> t ! k = s ! k"
proof (induction ps arbitrary: s)
  case Nil
  then show ?case by simp
next
  case (Cons p ps)
  obtain i v where p: "p = (i, v)" by fastforce
  with Cons.prems have "wr s i v = Some (s[nat i := v])" "scatter ps (s[nat i := v]) = Some t" "0 \<le> i"
    by (auto simp: wr_def split: if_splits)
  moreover have "k \<noteq> nat i" using Cons.prems(2) p \<open>0 \<le> i\<close> by auto
  ultimately show ?case using Cons.IH [of "s[nat i := v]"] Cons.prems(2) p by auto
qed

lemma scatter_nth:
  assumes "scatter ps s = Some t" and "distinct (map fst ps)" and "(i, v) \<in> set ps"
  shows "0 \<le> i \<and> i < int (length s) \<and> t ! nat i = v"
  using assms
proof (induction ps arbitrary: s)
  case Nil
  then show ?case by simp
next
  case (Cons p ps)
  obtain j w where p: "p = (j, w)" by fastforce
  with Cons.prems have w: "0 \<le> j" "j < int (length s)" and sc: "scatter ps (s[nat j := w]) = Some t"
    by (auto simp: wr_def split: if_splits)
  show ?case
  proof (cases "(i, v) = (j, w)")
    case True
    have "int (nat j) \<notin> fst ` set ps" using Cons.prems(2) p w by auto
    from scatter_other [OF sc this] True w show ?thesis by simp
  next
    case False
    then have "(i, v) \<in> set ps" using Cons.prems(3) p by auto
    with Cons.IH [OF sc] Cons.prems(2) p show ?thesis by auto
  qed
qed

text \<open>
  A fold whose body reads a value that does not depend on the buffer and writes it to one index is
  a scatter.
\<close>

lemma foldM_scatter:
  assumes "\<And>x s. x \<in> set xs \<Longrightarrow> body x s = wr s (g x) (v x)"
  shows "foldM body xs s = scatter (map (\<lambda>x. (g x, v x)) xs) s"
proof -
  have "foldM body xs s = foldM (\<lambda>x s. wr s (g x) (v x)) xs s"
    by (rule foldM_cong) (use assms in auto)
  then show ?thesis by (simp add: scatter_def foldM_map)
qed

lemma foldM_writes:
  assumes body: "\<And>x s. x \<in> set xs \<Longrightarrow> body x s = wr s (g x) (v x)"
    and range: "\<And>x. x \<in> set xs \<Longrightarrow> 0 \<le> g x \<and> g x < int (length s)"
    and inj: "inj_on g (set xs)" and dist: "distinct xs"
  shows "\<exists>t. foldM body xs s = Some t \<and> length t = length s \<and> (\<forall>x\<in>set xs. t ! nat (g x) = v x) \<and>
             (\<forall>k<length s. int k \<notin> g ` set xs \<longrightarrow> t ! k = s ! k)"
proof -
  let ?ps = "map (\<lambda>x. (g x, v x)) xs"
  have eq: "foldM body xs s = scatter ?ps s" by (rule foldM_scatter [OF body])
  obtain t where t: "scatter ?ps s = Some t" "length t = length s"
    using scatter_total [of ?ps s] range by auto
  have "distinct (map fst ?ps)" using inj dist by (simp add: distinct_map o_def)
  then have "\<forall>x\<in>set xs. t ! nat (g x) = v x" using scatter_nth [OF t(1)] by force
  moreover have "\<forall>k<length s. int k \<notin> g ` set xs \<longrightarrow> t ! k = s ! k"
    using scatter_other [OF t(1)] by (auto simp: image_image)
  ultimately show ?thesis using eq t by auto
qed

section \<open>Products of dimensions\<close>

lemma foldl_times_eq [dim_simps]: "foldl (*) a xs = a * prod_list (xs :: int list)"
  by (induction xs arbitrary: a) (simp_all add: mult.assoc)

lemma prod_list_nonneg: "\<forall>x\<in>set xs. 0 \<le> x \<Longrightarrow> 0 \<le> prod_list (xs :: int list)"
  by (induction xs) auto

lemma prod_list_pos: "\<forall>x\<in>set xs. 0 < x \<Longrightarrow> 0 < prod_list (xs :: int list)"
  by (induction xs) auto

text \<open>C's \<open>/\<close> and \<open>%\<close> on signed integers truncate towards zero.\<close>

definition cdiv :: "int \<Rightarrow> int \<Rightarrow> int" where
  "cdiv a b = (if 0 \<le> a then (if 0 \<le> b then a div b else - (a div - b))
               else (if 0 \<le> b then - (- a div b) else - a div - b))"

definition cmod :: "int \<Rightarrow> int \<Rightarrow> int" where
  "cmod a b = a - cdiv a b * b"

lemma cdiv_nonneg [simp]: "0 \<le> a \<Longrightarrow> 0 \<le> b \<Longrightarrow> cdiv a b = a div b"
  by (simp add: cdiv_def)

lemma cmod_nonneg [simp]: "0 \<le> a \<Longrightarrow> 0 \<le> b \<Longrightarrow> cmod a b = a mod b"
  by (simp add: cmod_def minus_div_mult_eq_mod)

end
