(* ===== verification/Tf_Types.thy ===== *)
theory Tf_Types
  imports Prelude
begin

text \<open>
  \<open>tensorflow/core/framework/types.h\<close>: the C++ enum \<open>DataType\<close>, its \<open>_REF\<close> variants and
  \<open>DataTypeSet\<close>, the 32-bit mask that stands for a set of data types; and
  \<open>ai.doc.tensorflow.DataType\<close>, the Java enum whose constants carry the same codes.

  A \<open>DataType\<close> is an unscoped C++ enum which the code converts to and from integers, adds
  \<open>kDataTypeRefOffset\<close> to and shifts by; it is modelled by its integer code.
\<close>

section \<open>The enum of data types\<close>

type_synonym data_type = int

abbreviation (input) DT_INVALID :: data_type where "DT_INVALID \<equiv> 0"
abbreviation (input) DT_FLOAT :: data_type where "DT_FLOAT \<equiv> 1"
abbreviation (input) DT_DOUBLE :: data_type where "DT_DOUBLE \<equiv> 2"
abbreviation (input) DT_INT32 :: data_type where "DT_INT32 \<equiv> 3"
abbreviation (input) DT_UINT8 :: data_type where "DT_UINT8 \<equiv> 4"
abbreviation (input) DT_INT16 :: data_type where "DT_INT16 \<equiv> 5"
abbreviation (input) DT_INT8 :: data_type where "DT_INT8 \<equiv> 6"
abbreviation (input) DT_STRING :: data_type where "DT_STRING \<equiv> 7"
abbreviation (input) DT_COMPLEX64 :: data_type where "DT_COMPLEX64 \<equiv> 8"
abbreviation (input) DT_INT64 :: data_type where "DT_INT64 \<equiv> 9"
abbreviation (input) DT_BOOL :: data_type where "DT_BOOL \<equiv> 10"
abbreviation (input) DT_QINT8 :: data_type where "DT_QINT8 \<equiv> 11"
abbreviation (input) DT_QUINT8 :: data_type where "DT_QUINT8 \<equiv> 12"
abbreviation (input) DT_QINT32 :: data_type where "DT_QINT32 \<equiv> 13"
abbreviation (input) DT_BFLOAT16 :: data_type where "DT_BFLOAT16 \<equiv> 14"
abbreviation (input) DT_QINT16 :: data_type where "DT_QINT16 \<equiv> 15"
abbreviation (input) DT_QUINT16 :: data_type where "DT_QUINT16 \<equiv> 16"
abbreviation (input) DT_UINT16 :: data_type where "DT_UINT16 \<equiv> 17"
abbreviation (input) DT_COMPLEX128 :: data_type where "DT_COMPLEX128 \<equiv> 18"
abbreviation (input) DT_HALF :: data_type where "DT_HALF \<equiv> 19"
abbreviation (input) DT_RESOURCE :: data_type where "DT_RESOURCE \<equiv> 20"
abbreviation (input) DT_VARIANT :: data_type where "DT_VARIANT \<equiv> 21"
abbreviation (input) DT_UINT32 :: data_type where "DT_UINT32 \<equiv> 22"
abbreviation (input) DT_UINT64 :: data_type where "DT_UINT64 \<equiv> 23"

definition kDataTypeRefOffset :: int where "kDataTypeRefOffset = 100"

definition IsRefType :: "data_type \<Rightarrow> bool" where
  "IsRefType dtype \<longleftrightarrow> dtype > kDataTypeRefOffset"

definition MakeRefType :: "data_type \<Rightarrow> data_type option" where
  "MakeRefType dtype = do { check (\<not> IsRefType dtype); Some (dtype + kDataTypeRefOffset) }"

definition RemoveRefType :: "data_type \<Rightarrow> data_type option" where
  "RemoveRefType dtype = do { check (IsRefType dtype); Some (dtype - kDataTypeRefOffset) }"

definition BaseType :: "data_type \<Rightarrow> data_type option" where
  "BaseType dtype = (if IsRefType dtype then RemoveRefType dtype else Some dtype)"

definition TypesCompatible :: "data_type \<Rightarrow> data_type \<Rightarrow> bool" where
  "TypesCompatible expected actual \<longleftrightarrow> expected = actual \<or> Some expected = BaseType actual"

lemmas ref_type_defs = kDataTypeRefOffset_def IsRefType_def MakeRefType_def RemoveRefType_def
  BaseType_def TypesCompatible_def

lemma BaseType_total: "\<exists>b. BaseType d = Some b"
  by (simp add: ref_type_defs)

lemma BaseType_MakeRefType:
  "0 < d \<Longrightarrow> \<not> IsRefType d \<Longrightarrow> \<exists>r. MakeRefType d = Some r \<and> IsRefType r \<and> BaseType r = Some d"
  by (simp add: ref_type_defs)

section \<open>Data type sets\<close>

record data_type_set =
  dts_mask :: "32 word"

definition kNumBits :: nat where "kNumBits = 32"

definition Contains :: "data_type_set \<Rightarrow> data_type \<Rightarrow> bool" where
  "Contains s dt \<longleftrightarrow>
     (let u = (word_of_int dt :: 32 word)
      in unat u < kNumBits \<and> (drop_bit (unat u) (dts_mask s) AND 1) \<noteq> 0)"

function ctz_loop :: "32 word \<Rightarrow> nat \<Rightarrow> nat" where
  "ctz_loop x n = (if x \<noteq> 0 \<and> x AND 1 = 0 then ctz_loop (drop_bit 1 x) (n + 1) else n)"
  by pat_completeness auto
termination
  by (relation "measure (\<lambda>(x, n). unat x)")
     (auto simp: drop_bit_eq_div unat_div word_less_nat_alt unat_gt_0)

text \<open>The DCHECK of a zero argument is the value \<open>None\<close>; the loop would not end on it.\<close>

definition ctz_uint32 :: "32 word \<Rightarrow> nat option" where
  "ctz_uint32 x = do { check (x \<noteq> 0); Some (ctz_loop x 0) }"

function clz_loop :: "32 word \<Rightarrow> nat \<Rightarrow> nat" where
  "clz_loop x n =
     (if n < kNumBits \<and> drop_bit (kNumBits - 1) x = 0 then clz_loop (push_bit 1 x) (n + 1) else n)"
  by pat_completeness auto
termination
  by (relation "measure (\<lambda>(x, n). kNumBits - n)") auto

definition clz_uint32 :: "32 word \<Rightarrow> nat option" where
  "clz_uint32 x = do { check (x \<noteq> 0); Some (clz_loop x 0) }"

declare ctz_loop.simps [simp del] clz_loop.simps [simp del]

text \<open>An iterator is its position; the constructor and \<open>operator++\<close> check it against \<open>kNumBits\<close>.\<close>

definition iter_at :: "nat \<Rightarrow> nat option" where
  "iter_at pos = do { check (pos \<le> kNumBits); Some pos }"

definition iter_next :: "data_type_set \<Rightarrow> nat \<Rightarrow> nat option" where
  "iter_next s pos =
     (let pos1 = pos + 1 in
      do {
        check (pos1 \<le> kNumBits);
        pos1 \<leftarrow> (if pos1 < kNumBits then
                   let remaining_mask = drop_bit pos1 (dts_mask s) in
                   if remaining_mask \<noteq> 0 then map_option (\<lambda>z. pos1 + z) (ctz_uint32 remaining_mask)
                   else Some pos1
                 else Some pos1);
        check (pos1 \<le> kNumBits);
        Some pos1
      })"

definition set_begin :: "data_type_set \<Rightarrow> nat option" where
  "set_begin s = (if dts_mask s \<noteq> 0 then Option.bind (ctz_uint32 (dts_mask s)) iter_at else iter_at 0)"

definition set_end :: "data_type_set \<Rightarrow> nat option" where
  "set_end s =
     (if dts_mask s \<noteq> 0 then Option.bind (clz_uint32 (dts_mask s)) (\<lambda>z. iter_at (kNumBits - z)) else iter_at 0)"

function popcount_loop :: "32 word \<Rightarrow> nat \<Rightarrow> nat" where
  "popcount_loop x n = (if x > 0 then popcount_loop (drop_bit 1 x) (n + unat (x AND 1)) else n)"
  by pat_completeness auto
termination
  by (relation "measure (\<lambda>(x, n). unat x)")
     (auto simp: drop_bit_eq_div unat_div word_less_nat_alt unat_gt_0)

declare popcount_loop.simps [simp del]

definition set_size :: "data_type_set \<Rightarrow> nat" where
  "set_size s = popcount_loop (dts_mask s) 0"

definition set_union :: "data_type_set \<Rightarrow> data_type_set \<Rightarrow> data_type_set" where
  "set_union s t = \<lparr>dts_mask = dts_mask s OR dts_mask t\<rparr>"

definition ToSet :: "data_type \<Rightarrow> data_type_set" where
  "ToSet dt = \<lparr>dts_mask = push_bit (unat (word_of_int dt :: 32 word)) 1\<rparr>"

text \<open>The range-based \<open>for\<close> over a set: from \<open>begin()\<close>, dereference and increment until \<open>end()\<close>.\<close>

lemma iter_next_grows: "iter_next s p = Some q \<Longrightarrow> p < q \<and> q \<le> kNumBits"
  by (auto simp: iter_next_def Let_def ctz_uint32_def check_def split: if_splits Option.bind_splits)

function iterate_from :: "data_type_set \<Rightarrow> nat \<Rightarrow> nat \<Rightarrow> data_type list option" where
  "iterate_from s pos stop =
     (if pos = stop then Some []
      else do {
        nxt \<leftarrow> iter_next s pos;
        rest \<leftarrow> iterate_from s nxt stop;
        Some (int pos # rest)
      })"
  by pat_completeness auto
termination
  by (relation "measure (\<lambda>(s, p, e). kNumBits - p)") (auto dest: iter_next_grows)

declare iterate_from.simps [simp del]

definition set_elements :: "data_type_set \<Rightarrow> data_type list option" where
  "set_elements s = do { b \<leftarrow> set_begin s; e \<leftarrow> set_end s; iterate_from s b e }"

section \<open>The type classes of types.h\<close>

definition set_of_types :: "data_type list \<Rightarrow> data_type_set" where
  "set_of_types ds = foldr (\<lambda>d s. set_union (ToSet d) s) ds \<lparr>dts_mask = 0\<rparr>"

definition kAllTypes :: data_type_set where
  "kAllTypes = set_of_types
     [DT_FLOAT, DT_DOUBLE, DT_INT32, DT_UINT8, DT_INT16, DT_UINT16, DT_INT8, DT_STRING,
      DT_COMPLEX64, DT_COMPLEX128, DT_INT64, DT_BOOL, DT_QINT8, DT_QUINT8, DT_QINT16,
      DT_QUINT16, DT_QINT32, DT_HALF, DT_RESOURCE, DT_VARIANT, DT_UINT32, DT_UINT64, DT_BFLOAT16]"

text \<open>The number classes of the full build, then those of a mobile build.\<close>

definition kRealNumberTypes :: data_type_set where
  "kRealNumberTypes = set_of_types
     [DT_FLOAT, DT_DOUBLE, DT_INT32, DT_INT64, DT_UINT8, DT_INT16, DT_INT8, DT_UINT16,
      DT_HALF, DT_UINT32, DT_UINT64, DT_BFLOAT16]"

definition kNumberTypes :: data_type_set where
  "kNumberTypes = set_of_types
     [DT_FLOAT, DT_DOUBLE, DT_INT64, DT_INT32, DT_UINT8, DT_UINT16, DT_INT16, DT_INT8,
      DT_COMPLEX64, DT_COMPLEX128, DT_QINT8, DT_QUINT8, DT_QINT32, DT_HALF, DT_UINT32,
      DT_UINT64, DT_BFLOAT16]"

definition kQuantizedTypes :: data_type_set where
  "kQuantizedTypes = set_of_types [DT_QINT8, DT_QUINT8, DT_QINT16, DT_QUINT16, DT_QINT32]"

definition kRealAndQuantizedTypes :: data_type_set where
  "kRealAndQuantizedTypes = set_of_types
     [DT_FLOAT, DT_DOUBLE, DT_INT32, DT_INT64, DT_UINT8, DT_UINT16, DT_INT16, DT_INT8,
      DT_QINT8, DT_QUINT8, DT_QINT16, DT_QUINT16, DT_QINT32, DT_HALF, DT_BFLOAT16]"

definition mobile_kRealNumberTypes :: data_type_set where
  "mobile_kRealNumberTypes = set_of_types [DT_FLOAT, DT_INT32]"

definition mobile_kNumberTypes :: data_type_set where
  "mobile_kNumberTypes = set_of_types [DT_FLOAT, DT_INT32, DT_QINT8, DT_QUINT8, DT_QINT32]"

definition mobile_kRealAndQuantizedTypes :: data_type_set where
  "mobile_kRealAndQuantizedTypes = set_of_types
     [DT_FLOAT, DT_INT32, DT_QINT8, DT_QUINT8, DT_QINT16, DT_QUINT16, DT_QINT32]"

definition kDataTypesCanUseMemcpy :: data_type_set where
  "kDataTypesCanUseMemcpy = set_of_types
     [DT_FLOAT, DT_DOUBLE, DT_INT32, DT_UINT32, DT_UINT8, DT_UINT16, DT_INT16, DT_INT8,
      DT_COMPLEX64, DT_COMPLEX128, DT_INT64, DT_UINT64, DT_BOOL, DT_QINT8, DT_QUINT8,
      DT_QINT16, DT_QUINT16, DT_QINT32, DT_BFLOAT16, DT_HALF]"

definition kDataTypeIsFloating :: data_type_set where
  "kDataTypeIsFloating = set_of_types [DT_HALF, DT_BFLOAT16, DT_FLOAT, DT_DOUBLE]"

definition kDataTypeIsComplex :: data_type_set where
  "kDataTypeIsComplex = set_of_types [DT_COMPLEX64, DT_COMPLEX128]"

definition kDataTypeIsInteger :: data_type_set where
  "kDataTypeIsInteger = set_of_types
     [DT_INT8, DT_UINT8, DT_INT16, DT_UINT16, DT_INT32, DT_UINT32, DT_INT64, DT_UINT64]"

definition kDataTypeIsSigned :: data_type_set where
  "kDataTypeIsSigned = set_of_types [DT_INT8, DT_INT16, DT_INT32, DT_INT64]"

definition kDataTypeIsUnsigned :: data_type_set where
  "kDataTypeIsUnsigned = set_of_types [DT_UINT8, DT_UINT16, DT_UINT32, DT_UINT64]"

definition DataTypeCanUseMemcpy :: "data_type \<Rightarrow> bool" where
  "DataTypeCanUseMemcpy dt = Contains kDataTypesCanUseMemcpy dt"

definition DataTypeIsFloating :: "data_type \<Rightarrow> bool" where
  "DataTypeIsFloating dt = Contains kDataTypeIsFloating dt"

definition DataTypeIsComplex :: "data_type \<Rightarrow> bool" where
  "DataTypeIsComplex dt = Contains kDataTypeIsComplex dt"

definition DataTypeIsQuantized :: "data_type \<Rightarrow> bool" where
  "DataTypeIsQuantized dt = Contains kQuantizedTypes dt"

definition DataTypeIsInteger :: "data_type \<Rightarrow> bool" where
  "DataTypeIsInteger dt = Contains kDataTypeIsInteger dt"

definition DataTypeIsSigned :: "data_type \<Rightarrow> bool" where
  "DataTypeIsSigned dt = Contains kDataTypeIsSigned dt"

definition DataTypeIsUnsigned :: "data_type \<Rightarrow> bool" where
  "DataTypeIsUnsigned dt = Contains kDataTypeIsUnsigned dt"

section \<open>The Java enum\<close>

datatype jdtype = FLOAT32 | INT32 | UINT8 | INT64 | STRING

definition jdtype_values :: "jdtype list" where
  "jdtype_values = [FLOAT32, INT32, UINT8, INT64, STRING]"

fun jdtype_c :: "jdtype \<Rightarrow> int" where
  "jdtype_c FLOAT32 = 1"
| "jdtype_c INT32 = 3"
| "jdtype_c UINT8 = 4"
| "jdtype_c INT64 = 9"
| "jdtype_c STRING = 7"

fun byteSize :: "jdtype \<Rightarrow> int" where
  "byteSize FLOAT32 = 4"
| "byteSize INT32 = 4"
| "byteSize UINT8 = 1"
| "byteSize INT64 = 8"
| "byteSize STRING = -1"

text \<open>\<open>fromC\<close> scans the cached values; \<open>None\<close> is the IllegalArgumentException.\<close>

fun find_code :: "int \<Rightarrow> jdtype list \<Rightarrow> jdtype option" where
  "find_code c [] = None"
| "find_code c (t # ts) = (if jdtype_c t = c then Some t else find_code c ts)"

definition fromC :: "int \<Rightarrow> jdtype option" where
  "fromC c = find_code c jdtype_values"

fun toStringName :: "jdtype \<Rightarrow> string" where
  "toStringName FLOAT32 = ''float''"
| "toStringName INT32 = ''int''"
| "toStringName UINT8 = ''byte''"
| "toStringName INT64 = ''long''"
| "toStringName STRING = ''string''"

section \<open>Correctness of data type sets\<close>

lemma word_and_one_zero: "(x :: 32 word) AND 1 = 0 \<longleftrightarrow> \<not> bit x 0"
  by (simp add: and_one_eq bit_0 even_iff_mod_2_eq_zero)

lemma Contains_bit: "Contains s dt \<longleftrightarrow> bit (dts_mask s) (unat (word_of_int dt :: 32 word))"
  by (auto simp: Contains_def Let_def kNumBits_def word_and_one_zero bit_drop_bit_eq
      dest: bit_imp_le_length)

lemma bit_nat_lt: "bit (x :: 32 word) n \<Longrightarrow> n < 32"
  using bit_imp_le_length [of x n] by simp

lemma ex_bit: "(x :: 32 word) \<noteq> 0 \<Longrightarrow> \<exists>n<32. bit x n"
  by (metis bit_nat_lt bit_eqI bit_0_eq bot_apply bot_bool_def)

lemma bit_shr1: "bit (drop_bit 1 (x :: 32 word)) i \<longleftrightarrow> bit x (Suc i)"
  by (simp only: bit_drop_bit_eq comp_def plus_1_eq_Suc)

lemma bit_shl1: "bit (push_bit 1 (x :: 32 word)) i \<longleftrightarrow> 0 < i \<and> i < 32 \<and> bit x (i - 1)"
  by (cases i) (simp_all only: bit_push_bit_iff possible_bit_word, auto)

lemma bit_zero_word: "\<not> bit (0 :: 32 word) i"
  by simp

lemma ctz_loop_step: "x \<noteq> 0 \<Longrightarrow> x AND 1 = 0 \<Longrightarrow> ctz_loop x n = ctz_loop (drop_bit 1 x) (n + 1)"
  by (subst ctz_loop.simps) (rule if_P, blast)

lemma clz_loop_step:
  "n < kNumBits \<Longrightarrow> drop_bit (kNumBits - 1) x = 0 \<Longrightarrow> clz_loop x n = clz_loop (push_bit 1 x) (n + 1)"
  by (subst clz_loop.simps) (rule if_P, blast)

lemma popcount_loop_step: "x > 0 \<Longrightarrow> popcount_loop x n = popcount_loop (drop_bit 1 x) (n + unat (x AND 1))"
  by (subst popcount_loop.simps) (rule if_P, blast)

lemma ctz_loop_spec:
  "x \<noteq> 0 \<Longrightarrow> \<exists>c. ctz_loop x n = n + c \<and> bit x c \<and> (\<forall>i<c. \<not> bit x i)"
proof (induction x n rule: ctz_loop.induct)
  case (1 x n)
  show ?case
  proof (cases "x AND 1 = 0")
    case True
    then have b0: "\<not> bit x 0" by (simp add: word_and_one_zero)
    obtain k where "bit x k" using ex_bit 1(2) by blast
    with b0 obtain j where "bit x (Suc j)" by (cases k) auto
    then have "drop_bit 1 x \<noteq> 0" using bit_shr1 bit_zero_word by metis
    with 1 True obtain c where c: "ctz_loop (drop_bit 1 x) (n + 1) = n + 1 + c" "bit (drop_bit 1 x) c"
      "\<forall>i<c. \<not> bit (drop_bit 1 x) i" by blast
    have "\<forall>i<Suc c. \<not> bit x i"
      using b0 c(3) by (auto simp only: bit_shr1 less_Suc_eq_0_disj)
    moreover have "bit x (Suc c)" using c(2) by (simp only: bit_shr1)
    moreover have "ctz_loop x n = n + Suc c"
      using c(1) ctz_loop_step [OF 1(2) True, of n] by linarith
    ultimately show ?thesis by blast
  next
    case False
    then show ?thesis by (intro exI [of _ 0]) (simp add: ctz_loop.simps [of x n] word_and_one_zero)
  qed
qed

lemma clz_loop_spec:
  "x \<noteq> 0 \<Longrightarrow> n \<le> 31 \<Longrightarrow> (\<forall>i. bit x i \<longrightarrow> n \<le> i) \<Longrightarrow>
   \<exists>c. clz_loop x n = n + c \<and> n + c \<le> 31 \<and> bit x (31 - c) \<and> (\<forall>i>31 - c. \<not> bit x i)"
proof (induction x n rule: clz_loop.induct)
  case (1 x n)
  show ?case
  proof (cases "drop_bit (kNumBits - 1) x = 0")
    case True
    have b31: "\<not> bit x 31"
    proof
      assume "bit x 31"
      then have "bit (drop_bit (kNumBits - 1) x) 0" by (simp add: kNumBits_def bit_drop_bit_eq)
      with True show False by simp
    qed
    obtain k where k: "bit x k" "k < 32" using ex_bit 1(2) by blast
    then have "k \<noteq> 31" using b31 by auto
    with k have bk: "bit (push_bit 1 x) (Suc k)" by (simp only: bit_shl1) simp
    then have nz: "push_bit 1 x \<noteq> 0" using bit_zero_word by metis
    have "n \<le> k" using 1(4) k by blast
    have ge: "\<forall>i. bit (push_bit 1 x) i \<longrightarrow> n + 1 \<le> i"
      using 1(4) by (auto simp only: bit_shl1)
    obtain c where c: "clz_loop (push_bit 1 x) (n + 1) = n + 1 + c" "n + 1 + c \<le> 31"
      "bit (push_bit 1 x) (31 - c)" "\<forall>i>31 - c. \<not> bit (push_bit 1 x) i"
      using 1(1) True 1(3) nz ge \<open>n \<le> k\<close> k \<open>k \<noteq> 31\<close> by (auto simp: kNumBits_def)
    have "31 - c - 1 = 31 - Suc c" by linarith
    then have "bit x (31 - Suc c)" using c(3) bit_shl1 by metis
    moreover have "\<not> bit x i" if "i > 31 - Suc c" for i
    proof
      assume b: "bit x i"
      then have "i \<noteq> 31" using b31 by metis
      then have "i < 31" using bit_nat_lt [OF b] by linarith
      then have "bit (push_bit 1 x) (Suc i)" using b by (simp only: bit_shl1) simp
      moreover have "Suc i > 31 - c" using that by linarith
      ultimately show False using c(4) by blast
    qed
    ultimately show ?thesis
      using c clz_loop_step [OF _ True, of n] 1(3)
      by (intro exI [of _ "Suc c"]) (auto simp only: kNumBits_def)
  next
    case False
    then obtain j where "bit (drop_bit (kNumBits - 1) x) j" using ex_bit by blast
    then have "bit x (31 + j)" by (simp add: bit_drop_bit_eq kNumBits_def)
    then have "bit x 31" using bit_nat_lt [of x "31 + j"] by (cases j) auto
    moreover have "\<forall>i>31. \<not> bit x i" using bit_nat_lt by fastforce
    ultimately show ?thesis using False 1(3)
      by (intro exI [of _ 0]) (simp add: clz_loop.simps [of x n])
  qed
qed

lemma ctz_uint32_spec:
  "x \<noteq> 0 \<Longrightarrow> \<exists>c. ctz_uint32 x = Some c \<and> bit x c \<and> (\<forall>i<c. \<not> bit x i)"
  using ctz_loop_spec [of x 0] by (auto simp: ctz_uint32_def)

lemma clz_uint32_spec:
  "x \<noteq> 0 \<Longrightarrow> \<exists>c\<le>31. clz_uint32 x = Some c \<and> bit x (31 - c) \<and> (\<forall>i>31 - c. \<not> bit x i)"
  using clz_loop_spec [of x 0] by (auto simp: clz_uint32_def)

lemma popcount_loop_spec: "popcount_loop x n = n + card {i. bit x i}"
proof (induction x n rule: popcount_loop.induct)
  case (1 x n)
  show ?case
  proof (cases "x > 0")
    case True
    have fin: "finite {i. bit (drop_bit 1 x) i}"
      by (rule finite_subset [of _ "{..<32}"]) (auto dest: bit_nat_lt)
    have split: "{i. bit x i} = (if bit x 0 then {0} else {}) \<union> Suc ` {i. bit (drop_bit 1 x) i}"
    proof (rule set_eqI)
      fix i
      show "i \<in> {i. bit x i} \<longleftrightarrow> i \<in> (if bit x 0 then {0} else {}) \<union> Suc ` {i. bit (drop_bit 1 x) i}"
        by (cases i) (simp_all only: mem_Collect_eq Un_iff image_iff bit_shr1, auto)
    qed
    have "card {i. bit x i} = (if bit x 0 then 1 else 0) + card {i. bit (drop_bit 1 x) i}"
      by (subst split, subst card_Un_disjoint) (auto simp: fin card_image)
    moreover have "unat (x AND 1) = (if bit x 0 then 1 else 0)"
      by (auto simp: and_one_eq bit_0 mod2_eq_if)
    ultimately show ?thesis
      using 1 [OF True] popcount_loop_step [OF True, of n] by linarith
  next
    case False
    then have "x = 0" by (simp add: word_gt_0)
    then show ?thesis by (simp add: popcount_loop.simps [of 0 n])
  qed
qed


lemma iter_next_spec:
  assumes p: "p < 32"
  shows "\<exists>q. iter_next s p = Some q \<and>
    (if \<exists>i>p. bit (dts_mask s) i
     then p < q \<and> q < 32 \<and> bit (dts_mask s) q \<and> (\<forall>i. p < i \<and> i < q \<longrightarrow> \<not> bit (dts_mask s) i)
     else q = p + 1)"
proof (cases "p + 1 < 32 \<and> drop_bit (p + 1) (dts_mask s) \<noteq> 0")
  case True
  then obtain c where c: "ctz_uint32 (drop_bit (p + 1) (dts_mask s)) = Some c"
    "bit (drop_bit (p + 1) (dts_mask s)) c" "\<forall>i<c. \<not> bit (drop_bit (p + 1) (dts_mask s)) i"
    using ctz_uint32_spec by blast
  have b: "bit (dts_mask s) (p + 1 + c)" using c(2) by (simp add: bit_drop_bit_eq)
  have no: "\<not> bit (dts_mask s) i" if "p < i" "i < p + 1 + c" for i
  proof -
    have "i - (p + 1) < c" "p + 1 + (i - (p + 1)) = i" using that by linarith+
    then show ?thesis using c(3) by (metis bit_drop_bit_eq comp_apply)
  qed
  have "p + 1 + c < 32" using bit_nat_lt [OF b] .
  then have "iter_next s p = Some (p + 1 + c)"
    using True c(1) by (simp add: iter_next_def Let_def kNumBits_def)
  moreover have "\<exists>i>p. bit (dts_mask s) i" using b by (intro exI [of _ "p + 1 + c"]) simp
  ultimately show ?thesis using b no bit_nat_lt [OF b] by auto
next
  case False
  have "\<not> bit (dts_mask s) i" if "p < i" for i
  proof
    assume b: "bit (dts_mask s) i"
    then have "bit (drop_bit (p + 1) (dts_mask s)) (i - (p + 1))" using that by (simp add: bit_drop_bit_eq)
    then have "drop_bit (p + 1) (dts_mask s) \<noteq> 0" by auto
    with False bit_nat_lt [OF b] that show False by linarith
  qed
  moreover have "iter_next s p = Some (p + 1)"
    using False p by (auto simp: iter_next_def Let_def kNumBits_def)
  ultimately show ?thesis by auto
qed

lemma filter_upt_skip:
  "p < q \<Longrightarrow> q \<le> e \<Longrightarrow> \<forall>i. p < i \<and> i < q \<longrightarrow> \<not> P i \<Longrightarrow> P p \<Longrightarrow>
   filter P [p..<e] = p # filter P [q..<e]"
proof -
  assume a: "p < q" "q \<le> e" "\<forall>i. p < i \<and> i < q \<longrightarrow> \<not> P i" "P p"
  have "[p..<e] = p # [Suc p..<q] @ [q..<e]"
    using a upt_conv_Cons [of p e] upt_add_eq_append [of "Suc p" q "e - q"] by simp
  moreover have "filter P [Suc p..<q] = []" using a(3) by (auto simp: filter_empty_conv)
  ultimately show ?thesis using a(4) by simp
qed

lemma iterate_from_spec:
  assumes "\<forall>i\<ge>e. \<not> bit (dts_mask s) i" "e \<le> 32" "bit (dts_mask s) (e - 1)" "0 < e"
  shows "p \<le> e \<Longrightarrow> p = e \<or> bit (dts_mask s) p \<Longrightarrow>
    iterate_from s p e = Some (map int (filter (bit (dts_mask s)) [p..<e]))"
proof (induction "e - p" arbitrary: p rule: less_induct)
  case less
  show ?case
  proof (cases "p = e")
    case True
    then show ?thesis by (simp add: iterate_from.simps)
  next
    case False
    then have p: "p < e" "bit (dts_mask s) p" using less.prems by auto
    then obtain q where q: "iter_next s p = Some q" and q': "if \<exists>i>p. bit (dts_mask s) i
      then p < q \<and> q < 32 \<and> bit (dts_mask s) q \<and> (\<forall>i. p < i \<and> i < q \<longrightarrow> \<not> bit (dts_mask s) i)
      else q = p + 1"
      using iter_next_spec [of p s] assms(2) by auto
    have q2: "p < q \<and> q \<le> e \<and> (q = e \<or> bit (dts_mask s) q) \<and> (\<forall>i. p < i \<and> i < q \<longrightarrow> \<not> bit (dts_mask s) i)"
    proof (cases "\<exists>i>p. bit (dts_mask s) i")
      case True
      then have q3: "p < q" "bit (dts_mask s) q" "\<forall>i. p < i \<and> i < q \<longrightarrow> \<not> bit (dts_mask s) i"
        using q' by auto
      then show ?thesis using assms(1) by (meson leI less_imp_le)
    next
      case none: False
      then have "q = p + 1" using q' by simp
      moreover have "e = p + 1"
      proof (rule ccontr)
        assume "e \<noteq> p + 1"
        then have "e - 1 > p" using p by linarith
        with none assms(3) show False by blast
      qed
      ultimately show ?thesis by auto
    qed
    have "iterate_from s q e = Some (map int (filter (bit (dts_mask s)) [q..<e]))"
      by (rule less.hyps) (use q2 p in auto)
    with q False have "iterate_from s p e = Some (int p # map int (filter (bit (dts_mask s)) [q..<e]))"
      by (simp add: iterate_from.simps [of s p e])
    moreover have "filter (bit (dts_mask s)) [p..<e] = p # filter (bit (dts_mask s)) [q..<e]"
      by (rule filter_upt_skip) (use q2 p in auto)
    ultimately show ?thesis by simp
  qed
qed

lemma filter_upt_restrict:
  "b \<le> e \<Longrightarrow> e \<le> n \<Longrightarrow> \<forall>i<b. \<not> P i \<Longrightarrow> \<forall>i\<ge>e. \<not> P i \<Longrightarrow> filter P [0..<n] = filter P [b..<e]"
proof -
  assume a: "b \<le> e" "e \<le> n" "\<forall>i<b. \<not> P i" "\<forall>i\<ge>e. \<not> P i"
  have "[0..<n] = [0..<b] @ [b..<e] @ [e..<n]"
    using a(1,2) upt_add_eq_append [of 0 b "n - b"] upt_add_eq_append [of b e "n - e"] by simp
  moreover have "filter P [0..<b] = []" "filter P [e..<n] = []"
    using a(3,4) by (auto simp: filter_empty_conv)
  ultimately show ?thesis by simp
qed

lemma set_elements_spec: "set_elements s = Some (map int (filter (bit (dts_mask s)) [0..<32]))"
proof (cases "dts_mask s = 0")
  case True
  then show ?thesis
    by (simp add: set_elements_def set_begin_def set_end_def iter_at_def iterate_from.simps)
next
  case False
  obtain b where b: "ctz_uint32 (dts_mask s) = Some b" "bit (dts_mask s) b" "\<forall>i<b. \<not> bit (dts_mask s) i"
    using ctz_uint32_spec [OF False] by blast
  obtain z where z: "z \<le> 31" "clz_uint32 (dts_mask s) = Some z" "bit (dts_mask s) (31 - z)"
    "\<forall>i>31 - z. \<not> bit (dts_mask s) i"
    using clz_uint32_spec [OF False] by blast
  have "32 - z - 1 = 31 - z" by linarith
  moreover have "\<forall>i\<ge>32 - z. \<not> bit (dts_mask s) i" using z by auto
  moreover have le: "b \<le> 32 - z" 
  proof (rule ccontr)
    assume "\<not> b \<le> 32 - z"
    then have "b > 31 - z" by linarith
    with z(4) b(2) show False by blast
  qed
  ultimately have "iterate_from s b (32 - z) = Some (map int (filter (bit (dts_mask s)) [b..<32 - z]))"
    using iterate_from_spec [of "32 - z" s b] z b(2) by auto
  moreover have "filter (bit (dts_mask s)) [0..<32] = filter (bit (dts_mask s)) [b..<32 - z]"
    by (rule filter_upt_restrict) (use b z le in auto)
  moreover have "set_begin s = Some b" "set_end s = Some (32 - z)"
    using False b z bit_nat_lt [OF b(2)] by (simp_all add: set_begin_def set_end_def iter_at_def kNumBits_def)
  ultimately show ?thesis by (simp add: set_elements_def)
qed

lemma set_size_spec: "set_size s = length (filter (bit (dts_mask s)) [0..<32])"
proof -
  have "{i. bit (dts_mask s) i} = set (filter (bit (dts_mask s)) [0..<32])"
    using bit_nat_lt by auto
  then show ?thesis
    by (simp add: set_size_def popcount_loop_spec distinct_card del: set_filter)
qed

lemma unat_word_of_int_small: "i < 32 \<Longrightarrow> unat (word_of_int (int i) :: 32 word) = i"
proof -
  assume "i < 32"
  then have "int i mod 4294967296 = int i" by (intro mod_pos_pos_trivial) linarith+
  moreover have "uint (word_of_int (int i) :: 32 word) = int i mod 4294967296" by (subst uint_word_of_int) simp
  ultimately show ?thesis by (simp only: unat_eq_nat_uint nat_int)
qed

lemma Contains_union: "Contains (set_union s t) d \<longleftrightarrow> Contains s d \<or> Contains t d"
  by (simp add: Contains_bit set_union_def bit_or_iff)

lemma Contains_ToSet: "0 \<le> d \<Longrightarrow> d < 32 \<Longrightarrow> 0 \<le> e \<Longrightarrow> e < 2 ^ 32 \<Longrightarrow> Contains (ToSet d) e \<longleftrightarrow> e = d"
proof -
  assume a: "0 \<le> d" "d < 32" "0 \<le> e" "e < 2 ^ 32"
  then have "unat (word_of_int d :: 32 word) = nat d" "unat (word_of_int e :: 32 word) = nat e"
    by (simp_all add: unat_eq_nat_uint uint_word_of_int)
  moreover have "nat d < 32" "nat e = nat d \<longleftrightarrow> e = d" using a by auto
  ultimately show ?thesis by (auto simp: Contains_bit ToSet_def push_bit_of_1 bit_exp_iff)
qed

lemma Contains_set_of_types:
  "\<forall>d\<in>set ds. 0 \<le> d \<and> d < 32 \<Longrightarrow> 0 \<le> e \<Longrightarrow> e < 2 ^ 32 \<Longrightarrow> Contains (set_of_types ds) e \<longleftrightarrow> e \<in> set ds"
proof (induction ds)
  case Nil
  then show ?case by (simp add: set_of_types_def Contains_bit)
next
  case (Cons d ds)
  have "set_of_types (d # ds) = set_union (ToSet d) (set_of_types ds)" by (simp add: set_of_types_def)
  with Cons show ?case by (simp add: Contains_union Contains_ToSet)
qed

lemmas type_class_defs = kAllTypes_def kRealNumberTypes_def kNumberTypes_def kQuantizedTypes_def
  kRealAndQuantizedTypes_def mobile_kRealNumberTypes_def mobile_kNumberTypes_def
  mobile_kRealAndQuantizedTypes_def kDataTypesCanUseMemcpy_def kDataTypeIsFloating_def
  kDataTypeIsComplex_def kDataTypeIsInteger_def kDataTypeIsSigned_def kDataTypeIsUnsigned_def

lemmas type_predicate_defs = DataTypeCanUseMemcpy_def DataTypeIsFloating_def DataTypeIsComplex_def
  DataTypeIsQuantized_def DataTypeIsInteger_def DataTypeIsSigned_def DataTypeIsUnsigned_def

lemma find_code_c: "t \<in> set ts \<Longrightarrow> \<exists>u. find_code (jdtype_c t) ts = Some u \<and> jdtype_c u = jdtype_c t"
  by (induction ts) auto

lemma jdtype_c_inj: "jdtype_c t = jdtype_c u \<longleftrightarrow> t = u"
  by (cases t; cases u) auto

section \<open>Properties\<close>

text \<open>
  C10: iterating a \<open>DataTypeSet\<close> from \<open>begin()\<close> to \<open>end()\<close> runs without a failing DCHECK, visits
  exactly the types the set contains, in ascending order, and \<open>size()\<close> counts them.
\<close>

theorem data_type_set_iteration:
  "set_elements s = Some (filter (Contains s) [0..31]) \<and>
   set_size s = length (filter (Contains s) [0..31])"
proof -
  have "[0..31] = map int [0..<32]" using upto_map_int [of 32] by simp
  moreover have "filter (Contains s) (map int [0..<32]) = map int (filter (bit (dts_mask s)) [0..<32])"
    unfolding filter_map comp_def
  proof (rule arg_cong [of _ _ "map int"], rule filter_cong)
    fix i assume "i \<in> set [0..<32]"
    then have "i < 32" by (simp only: set_upt atLeastLessThan_iff)
    then have "unat (word_of_int (int i) :: 32 word) = i" by (rule unat_word_of_int_small)
    then show "Contains s (int i) = bit (dts_mask s) i" by (simp only: Contains_bit)
  qed simp
  ultimately show ?thesis by (simp only: set_elements_spec set_size_spec length_map)
qed

text \<open>
  the codes of the Java enum are read back by \<open>fromC\<close>, a code of no constant is rejected, and
  the element sizes the Java side reports are positive exactly for the types which TensorFlow may
  copy with memcpy.
\<close>

theorem java_types_agree:
  "fromC (jdtype_c t) = Some t \<and>
   (fromC c = None \<longleftrightarrow> c \<notin> jdtype_c ` set jdtype_values) \<and>
   (DataTypeCanUseMemcpy (jdtype_c t) \<longleftrightarrow> 0 < byteSize t) \<and>
   Contains kAllTypes (jdtype_c t)"
proof -
  have "fromC (jdtype_c t) = Some t" by (cases t) (simp_all add: fromC_def jdtype_values_def)
  moreover have "fromC c = None \<longleftrightarrow> c \<notin> jdtype_c ` set jdtype_values"
    by (auto simp: fromC_def jdtype_values_def)
  moreover have "Contains kDataTypesCanUseMemcpy (jdtype_c t) \<longleftrightarrow> 0 < byteSize t"
    by (cases t) (simp_all add: kDataTypesCanUseMemcpy_def Contains_set_of_types)
  moreover have "Contains kAllTypes (jdtype_c t)"
    by (cases t) (simp_all add: kAllTypes_def Contains_set_of_types)
  ultimately show ?thesis by (simp add: DataTypeCanUseMemcpy_def)
qed

end
