(* ===== verification/Jni_Vm.thy ===== *)
theory Jni_Vm
  imports Tf_Types "HOL-Library.Multiset"
begin

text \<open>
  The state the native library works on, and \<open>jni_utils.h\<close> / \<open>jni_utils.cpp\<close>.

  A state (\<open>vm\<close>) holds the Java objects of the two wrapper classes, the native heap (TensorFlow
  tensors, their reference-counted buffers, saved model bundles), the pending Java exception and
  the Android log.  Native pointers are addresses that the allocator \<open>brk\<close> hands out once and for
  all, \<open>0\<close> is \<open>nullptr\<close>, and a \<open>jlong handle\<close> is such an address: \<open>reinterpret_cast\<close> between
  the two is the identity.

  A call returns \<open>Inr\<close> with the new state, also when a Java exception is pending then, and \<open>Inl\<close>
  when the C++ code does what ends the process or is undefined: a null or dangling pointer, an
  access outside a buffer, a failing \<open>CHECK\<close> or \<open>assert\<close>, a JNI call outside its contract.

  What is not in the repository is a parameter, the record \<open>env\<close>: whether \<open>malloc\<close> succeeds,
  \<open>assert\<close> is compiled in and the VM aborts on a JNI call made with an exception pending (CheckJNI), the memory the \<open>Tensor(type, shape)\<close> constructor allocates
  (tensor.cc), \<open>LoadSavedModel\<close> (loader.cc) and the session's \<open>Run\<close> and \<open>Close\<close>.
\<close>

section \<open>Results\<close>

datatype crash = NullObject | NullDeref | DanglingPointer | OutOfBounds | CheckFailed | AssertFailed | JniMisuse

type_synonym 'a result = "crash + 'a"

section \<open>The state\<close>

type_synonym jint = "32 word"
type_synonym byte = "8 word"
type_synonym addr = nat

text \<open>The fields of \<open>ai.doc.tensorflow.Tensor\<close>.\<close>

record jtensor =
  j_dtype :: jdtype
  j_shape :: "jint list"
  j_name :: "string option"
  j_scalar :: bool
  j_isBacked :: bool
  j_handle :: addr

text \<open>A Java object: a Tensor, or a SavedModelBundle with its handle.\<close>

datatype jobject = JTensor jtensor | JBundle addr

type_synonym jref = "addr option"

text \<open>A \<open>tensorflow::Tensor\<close> (tensor.h): type and shape, and the shared buffer \<open>buf_\<close>.\<close>

record tensor =
  t_dtype :: data_type
  t_dims :: "int list"
  t_buf :: "addr option"

text \<open>A \<open>TensorBuffer\<close>: \<open>core::RefCounted\<close> (refcount.h) with a memory region.\<close>

record buffer =
  ref_count :: nat
  b_data :: "byte list"

text \<open>
  A \<open>tensorflow::SavedModelBundle\<close>: its session (a \<open>unique_ptr\<close>, null until a model is loaded)
  and the two names of the meta graph's saver definition that the code reads.
\<close>

record 's smbundle =
  session :: "'s option"
  filename_tensor_name :: string
  save_tensor_name :: string

record 's vm =
  jheap :: "addr \<rightharpoonup> jobject"
  tensors :: "addr \<rightharpoonup> tensor"
  buffers :: "addr \<rightharpoonup> buffer"
  bundles :: "addr \<rightharpoonup> 's smbundle"
  brk :: addr
  pending :: "(string \<times> string) option"
  log :: "string list"
  pinned_arrays :: nat

text \<open>\<open>tensorflow::Status\<close>: success is a null state, otherwise a code and a message.\<close>

datatype status = StatusOK | StatusError int string

definition status_ok :: "status \<Rightarrow> bool" where
  "status_ok s \<longleftrightarrow> s = StatusOK"

fun error_message :: "status \<Rightarrow> string" where
  "error_message StatusOK = ''''"
| "error_message (StatusError code msg) = msg"

text \<open>Tensors as the session sees them, and what it returns: new memory or an input's buffer.\<close>

datatype tval = TBytes data_type "int list" "byte list" | TString string

datatype tout = Fresh data_type "int list" "byte list" | Share nat

record 's env =
  malloc_ok :: bool
  asserts_on :: bool
  check_jni :: bool
  debug_build :: bool
  alloc_buffer :: "data_type \<Rightarrow> int \<Rightarrow> byte list option option"
  load_model :: "string \<Rightarrow> string list \<Rightarrow> status \<times> 's smbundle"
  session_run :: "'s \<Rightarrow> (string \<times> tval) list \<Rightarrow> string list \<Rightarrow> string list \<Rightarrow> status \<times> tout list \<times> 's"
  session_close :: "'s \<Rightarrow> status \<times> 's"

section \<open>jni_utils\<close>

text \<open>
  A JNI function other than the few that release resources must not be called while an exception
  is pending; a VM that checks this aborts, another one goes on.
\<close>

definition jni_call :: "'s env \<Rightarrow> 's vm \<Rightarrow> unit result" where
  "jni_call env vm = (if check_jni env \<and> pending vm \<noteq> None then Inl JniMisuse else Inr ())"

lemma jni_call_quiet [simp]: "pending vm = None \<Longrightarrow> jni_call env vm = Inr ()"
  by (simp add: jni_call_def)

text \<open>
  \<open>GetLongField\<close> and \<open>SetLongField\<close> on the field "handle" of type "J", which both classes have.
\<close>

fun handle_of :: "jobject \<Rightarrow> addr" where
  "handle_of (JTensor t) = j_handle t"
| "handle_of (JBundle h) = h"

fun with_handle :: "jobject \<Rightarrow> addr \<Rightarrow> jobject" where
  "with_handle (JTensor t) h = JTensor (t\<lparr>j_handle := h\<rparr>)"
| "with_handle (JBundle _) h = JBundle h"

definition getHandleField :: "'s env \<Rightarrow> 's vm \<Rightarrow> jref \<Rightarrow> (addr \<times> jobject) result" where
  "getHandleField env vm obj =
     bnd (jni_call env vm) (\<lambda>_.
       case obj of None \<Rightarrow> Inl NullObject
       | Some a \<Rightarrow> (case jheap vm a of None \<Rightarrow> Inl NullObject | Some ob \<Rightarrow> Inr (a, ob)))"

definition getHandle :: "'s env \<Rightarrow> 's vm \<Rightarrow> jref \<Rightarrow> addr result" where
  "getHandle env vm obj = bnd (getHandleField env vm obj) (\<lambda>(a, ob). Inr (handle_of ob))"

definition setHandle :: "'s env \<Rightarrow> 's vm \<Rightarrow> jref \<Rightarrow> addr \<Rightarrow> 's vm result" where
  "setHandle env vm obj t =
     bnd (getHandleField env vm obj)
       (\<lambda>(a, ob). Inr (vm\<lparr>jheap := (jheap vm)(a \<mapsto> with_handle ob t)\<rparr>))"

text \<open>
  \<open>GetStringUTFChars\<close> requires a non-null string; \<open>std::string(chars)\<close> stops at the first NUL.
\<close>

definition jstring2string :: "'s env \<Rightarrow> 's vm \<Rightarrow> string option \<Rightarrow> string result" where
  "jstring2string env vm javaString =
     bnd (jni_call env vm) (\<lambda>_.
       case javaString of None \<Rightarrow> Inl NullObject
       | Some chars \<Rightarrow> Inr (takeWhile (\<lambda>c. c \<noteq> CHR 0x00) chars))"

definition kIllegalArgumentException :: string where
  "kIllegalArgumentException = ''java/lang/IllegalArgumentException''"

text \<open>
  \<open>vsnprintf\<close> into 512 bytes keeps 511 characters; every format the code passes is a constant
  string without conversion specifications.
\<close>

definition max_msg_len :: nat where "max_msg_len = 512"

definition ThrowException :: "'s env \<Rightarrow> string \<Rightarrow> string \<Rightarrow> 's vm \<Rightarrow> 's vm result" where
  "ThrowException env clazz fmt vm =
     bnd (jni_call env vm) (\<lambda>_.
       Inr (vm\<lparr>pending := Some (clazz, if malloc_ok env then take (max_msg_len - 1) fmt else '''')\<rparr>))"

definition log_print :: "string \<Rightarrow> 's vm \<Rightarrow> 's vm" where
  "log_print msg vm = vm\<lparr>log := log vm @ [msg]\<rparr>"

section \<open>Reference counts (refcount.h) and tensors (tensor.h)\<close>

definition Ref :: "addr \<Rightarrow> 's vm \<Rightarrow> 's vm result" where
  "Ref b vm =
     (case buffers vm b of None \<Rightarrow> Inl DanglingPointer
      | Some buf \<Rightarrow>
          if ref_count buf < 1 then Inl CheckFailed
          else Inr (vm\<lparr>buffers := (buffers vm)(b \<mapsto> buf\<lparr>ref_count := ref_count buf + 1\<rparr>)\<rparr>))"

definition RefCountIsOne :: "buffer \<Rightarrow> bool" where
  "RefCountIsOne buf \<longleftrightarrow> ref_count buf = 1"

definition Unref :: "addr \<Rightarrow> 's vm \<Rightarrow> (bool \<times> 's vm) result" where
  "Unref b vm =
     (case buffers vm b of None \<Rightarrow> Inl DanglingPointer
      | Some buf \<Rightarrow>
          if ref_count buf = 0 then Inl CheckFailed
          else if RefCountIsOne buf
          then Inr (True, vm\<lparr>buffers := (buffers vm)(b := None)\<rparr>)
          else Inr (False, vm\<lparr>buffers := (buffers vm)(b \<mapsto> buf\<lparr>ref_count := ref_count buf - 1\<rparr>)\<rparr>))"

text \<open>\<open>new\<close>: a fresh address.\<close>

definition alloc :: "'s vm \<Rightarrow> addr \<times> 's vm" where
  "alloc vm = (brk vm, vm\<lparr>brk := brk vm + 1\<rparr>)"

definition new_tensor_object :: "tensor \<Rightarrow> 's vm \<Rightarrow> addr \<times> 's vm" where
  "new_tensor_object t vm =
     (let (p, vm) = alloc vm in (p, vm\<lparr>tensors := (tensors vm)(p \<mapsto> t)\<rparr>))"

definition new_buffer :: "byte list \<Rightarrow> 's vm \<Rightarrow> addr \<times> 's vm" where
  "new_buffer bytes vm =
     (let (b, vm) = alloc vm in (b, vm\<lparr>buffers := (buffers vm)(b \<mapsto> \<lparr>ref_count = 1, b_data = bytes\<rparr>)\<rparr>))"

text \<open>
  \<open>new tensorflow::Tensor(type, TensorShape(dims))\<close>: the shape requires non-negative sizes
  (tensor_shape.h) and fails a CHECK otherwise; the buffer's memory comes from \<open>alloc_buffer\<close>
  (\<open>None\<close>: the constructor aborts; \<open>Some None\<close>: no buffer).
\<close>

definition num_elements :: "int list \<Rightarrow> int" where
  "num_elements dims = prod_list dims"

definition new_tensor :: "'s env \<Rightarrow> data_type \<Rightarrow> int list \<Rightarrow> 's vm \<Rightarrow> (addr \<times> 's vm) result" where
  "new_tensor env type dims vm =
     (if \<exists>d\<in>set dims. d < 0 then Inl CheckFailed
      else case alloc_buffer env type (num_elements dims) of
        None \<Rightarrow> Inl CheckFailed
      | Some None \<Rightarrow> Inr (new_tensor_object \<lparr>t_dtype = type, t_dims = dims, t_buf = None\<rparr> vm)
      | Some (Some bytes) \<Rightarrow>
          (let (b, vm) = new_buffer bytes vm
           in Inr (new_tensor_object \<lparr>t_dtype = type, t_dims = dims, t_buf = Some b\<rparr> vm)))"

definition deref_tensor :: "'s vm \<Rightarrow> addr \<Rightarrow> tensor result" where
  "deref_tensor vm p =
     (if p = 0 then Inl NullDeref
      else case tensors vm p of None \<Rightarrow> Inl DanglingPointer | Some t \<Rightarrow> Inr t)"

text \<open>The copy constructor shares the buffer and takes a reference.\<close>

definition copy_tensor :: "tensor \<Rightarrow> 's vm \<Rightarrow> (addr \<times> 's vm) result" where
  "copy_tensor t vm =
     (case t_buf t of None \<Rightarrow> Inr (new_tensor_object t vm)
      | Some b \<Rightarrow> bnd (Ref b vm) (\<lambda>vm. Inr (new_tensor_object t vm)))"

text \<open>\<open>delete tensor\<close>: nothing on \<open>nullptr\<close>, otherwise the destructor drops its reference.\<close>

definition delete_tensor :: "addr \<Rightarrow> 's vm \<Rightarrow> 's vm result" where
  "delete_tensor p vm =
     (if p = 0 then Inr vm
      else bnd (deref_tensor vm p) (\<lambda>t.
        let vm = vm\<lparr>tensors := (tensors vm)(p := None)\<rparr> in
        case t_buf t of None \<Rightarrow> Inr vm | Some b \<Rightarrow> bnd (Unref b vm) (\<lambda>(_, vm). Inr vm)))"

text \<open>
  \<open>shaped<T, 1>\<close> with the single size \<open>NumElements()\<close>, which is what \<open>flat<T>()\<close> is: the type of
  the elements must be the tensor's and the sizes must multiply to its number of elements; then
  the result points to the buffer's memory.
\<close>

definition FillDimsAndValidateCompatibleShape :: "nat \<Rightarrow> int list \<Rightarrow> tensor \<Rightarrow> int list result" where
  "FillDimsAndValidateCompatibleShape ndims new_sizes t =
     (if ndims \<noteq> length new_sizes then Inl CheckFailed
      else if foldl (*) 1 new_sizes \<noteq> num_elements (t_dims t) then Inl CheckFailed
      else Inr new_sizes)"

definition base :: "tensor \<Rightarrow> addr option" where
  "base t = t_buf t"

definition shaped :: "data_type \<Rightarrow> nat \<Rightarrow> int list \<Rightarrow> tensor \<Rightarrow> (addr option \<times> int list) result" where
  "shaped type ndims new_sizes t =
     (if t_dtype t \<noteq> type then Inl CheckFailed
      else bnd (FillDimsAndValidateCompatibleShape ndims new_sizes t) (\<lambda>dims. Inr (base t, dims)))"

definition flat_data :: "data_type \<Rightarrow> 's vm \<Rightarrow> addr \<Rightarrow> addr option result" where
  "flat_data type vm p =
     bnd (deref_tensor vm p) (\<lambda>t.
       bnd (shaped type 1 [num_elements (t_dims t)] t) (\<lambda>(buffer, _). Inr buffer))"

lemma flat_data_eq:
  "flat_data type vm p =
     bnd (deref_tensor vm p) (\<lambda>t. if t_dtype t \<noteq> type then Inl CheckFailed else Inr (t_buf t))"
  by (cases "deref_tensor vm p")
     (auto simp: flat_data_def shaped_def FillDimsAndValidateCompatibleShape_def base_def)

section \<open>Byte buffers\<close>

text \<open>
  A Java ByteBuffer is backed by a Java array (not direct), by direct memory of its own, or by the
  memory of a tensor's buffer, which is what \<open>NewDirectByteBuffer\<close> makes of a native address.
\<close>

datatype memory = HeapArray "byte list" | Direct "byte list" | TensorMem addr int

record byte_buffer =
  bb_mem :: memory
  bb_native_order :: bool

fun GetDirectBufferAddress :: "memory \<Rightarrow> memory option" where
  "GetDirectBufferAddress (HeapArray _) = None"
| "GetDirectBufferAddress m = Some m"

definition isDirect :: "byte_buffer \<Rightarrow> bool" where
  "isDirect bb \<longleftrightarrow> GetDirectBufferAddress (bb_mem bb) \<noteq> None"

fun memory_bytes :: "'s vm \<Rightarrow> memory \<Rightarrow> byte list result" where
  "memory_bytes vm (HeapArray bs) = Inr bs"
| "memory_bytes vm (Direct bs) = Inr bs"
| "memory_bytes vm (TensorMem b cap) =
     (case buffers vm b of None \<Rightarrow> Inl DanglingPointer | Some buf \<Rightarrow> Inr (b_data buf))"

text \<open>
  \<open>memcpy(buffer, src, size)\<close>; a negative \<open>jlong\<close> becomes a \<open>size_t\<close> larger than any buffer.
\<close>

definition native_memcpy :: "'s vm \<Rightarrow> addr option \<Rightarrow> memory \<Rightarrow> int \<Rightarrow> 's vm result" where
  "native_memcpy vm buffer src sz =
     (if sz = 0 then Inr vm
      else case buffer of None \<Rightarrow> Inl NullDeref
      | Some b \<Rightarrow> (case buffers vm b of None \<Rightarrow> Inl DanglingPointer
          | Some buf \<Rightarrow> bnd (memory_bytes vm src) (\<lambda>bytes.
              if sz < 0 \<or> int (length bytes) < sz \<or> int (length (b_data buf)) < sz then Inl OutOfBounds
              else Inr (vm\<lparr>buffers := (buffers vm)(b \<mapsto>
                     buf\<lparr>b_data := take (nat sz) bytes @ drop (nat sz) (b_data buf)\<rparr>)\<rparr>))))"

text \<open>\<open>NewDirectByteBuffer\<close>: a capacity that is not negative, and an address unless it is 0.\<close>

definition NewDirectByteBuffer :: "'s env \<Rightarrow> 's vm \<Rightarrow> addr option \<Rightarrow> int \<Rightarrow> memory result" where
  "NewDirectByteBuffer env vm buffer capacity =
     bnd (jni_call env vm) (\<lambda>_.
      if capacity < 0 \<or> 2 ^ 31 \<le> capacity then Inl JniMisuse
      else case buffer of None \<Rightarrow> (if capacity = 0 then Inr (Direct []) else Inl JniMisuse)
           | Some b \<Rightarrow> Inr (TensorMem b capacity))"

section \<open>The native heap's invariant\<close>

text \<open>
  The reference count of a buffer is the number of its holders: the native tensors that point to it
  and the references that local variables of a running native method own, the multiset \<open>H\<close>.
  Between two calls \<open>H\<close> is empty.
\<close>

definition holders :: "'s vm \<Rightarrow> addr \<Rightarrow> addr set" where
  "holders vm b = {p. \<exists>t. tensors vm p = Some t \<and> t_buf t = Some b}"

definition bounded :: "(addr \<rightharpoonup> 'a) \<Rightarrow> addr \<Rightarrow> bool" where
  "bounded m n \<longleftrightarrow> (\<forall>a\<in>dom m. 0 < a \<and> a < n)"

definition counted :: "addr multiset \<Rightarrow> 's vm \<Rightarrow> bool" where
  "counted H vm \<longleftrightarrow>
     (\<forall>b buf. buffers vm b = Some buf \<longrightarrow> ref_count buf = card (holders vm b) + count H b)"

definition in_use :: "'s vm \<Rightarrow> bool" where
  "in_use vm \<longleftrightarrow> (\<forall>b buf. buffers vm b = Some buf \<longrightarrow> 0 < ref_count buf)"

definition no_dangling :: "addr multiset \<Rightarrow> 's vm \<Rightarrow> bool" where
  "no_dangling H vm \<longleftrightarrow> (\<forall>b. b \<in># H \<or> holders vm b \<noteq> {} \<longrightarrow> b \<in> dom (buffers vm))"

definition wf_heap :: "addr multiset \<Rightarrow> 's vm \<Rightarrow> bool" where
  "wf_heap H vm \<longleftrightarrow>
     0 < brk vm \<and> bounded (jheap vm) (brk vm) \<and> bounded (tensors vm) (brk vm) \<and>
     bounded (buffers vm) (brk vm) \<and> bounded (bundles vm) (brk vm) \<and>
     counted H vm \<and> no_dangling H vm \<and> in_use vm"

lemma bounded_simps [simp]:
  "bounded m n \<Longrightarrow> bounded (m(a := None)) n"
  "bounded m n \<Longrightarrow> 0 < a \<Longrightarrow> a < n \<Longrightarrow> bounded (m(a \<mapsto> x)) n"
  "bounded m n \<Longrightarrow> bounded m (Suc n)"
  "0 < n \<Longrightarrow> bounded m n \<Longrightarrow> bounded (m(n \<mapsto> x)) (Suc n)"
  by (fastforce simp: bounded_def less_Suc_eq)+

lemma boundedD: "bounded m n \<Longrightarrow> m a = Some x \<Longrightarrow> 0 < a \<and> a < n"
  by (auto simp: bounded_def)

lemma bounded_mono: "bounded m n \<Longrightarrow> n \<le> k \<Longrightarrow> bounded m k"
  unfolding bounded_def by (meson order_less_le_trans)

lemma bounded_fresh: "bounded m n \<Longrightarrow> m n = None"
  by (cases "m n") (auto dest: boundedD)

lemma wf_heapD:
  assumes "wf_heap H vm"
  shows "0 < brk vm" "bounded (jheap vm) (brk vm)" "bounded (tensors vm) (brk vm)"
    "bounded (buffers vm) (brk vm)" "bounded (bundles vm) (brk vm)" "counted H vm" "no_dangling H vm"
    "in_use vm"
  using assms by (simp_all add: wf_heap_def)

lemma wf_count:
  assumes "wf_heap H vm" and "buffers vm b = Some buf"
  shows "0 < ref_count buf" "ref_count buf = card (holders vm b) + count H b"
  using wf_heapD(6,8) [OF assms(1)] assms(2) unfolding counted_def in_use_def by blast+

lemma wf_held: "wf_heap H vm \<Longrightarrow> b \<in># H \<Longrightarrow> \<exists>buf. buffers vm b = Some buf"
  by (auto simp: wf_heap_def no_dangling_def)

lemma wf_live: "wf_heap H vm \<Longrightarrow> tensors vm p = Some t \<Longrightarrow> t_buf t = Some b \<Longrightarrow> \<exists>buf. buffers vm b = Some buf"
  unfolding wf_heap_def no_dangling_def holders_def by blast

lemma finite_holders: "wf_heap H vm \<Longrightarrow> finite (holders vm b)"
  by (rule finite_subset [of _ "{..<brk vm}"]) (auto simp: holders_def dest!: wf_heapD(3) boundedD)

lemma wf_fresh:
  assumes "wf_heap H vm"
  shows "tensors vm (brk vm) = None" "buffers vm (brk vm) = None" "bundles vm (brk vm) = None"
    "jheap vm (brk vm) = None" "brk vm \<notin># H" "holders vm (brk vm) = {}"
  using wf_heapD [OF assms] by (auto simp: bounded_fresh no_dangling_def)

text \<open>What only touches Java objects, the exception or the log keeps the invariant.\<close>

lemma holders_simps [simp]:
  "holders (vm\<lparr>jheap := J\<rparr>) b = holders vm b" "holders (vm\<lparr>pending := e\<rparr>) b = holders vm b"
  "holders (vm\<lparr>log := l\<rparr>) b = holders vm b" "holders (vm\<lparr>pinned_arrays := k\<rparr>) b = holders vm b"
  "holders (vm\<lparr>brk := n\<rparr>) b = holders vm b" "holders (vm\<lparr>buffers := B\<rparr>) b = holders vm b"
  "holders (vm\<lparr>bundles := S\<rparr>) b = holders vm b"
  "holders (vm\<lparr>tensors := (tensors vm)(p := None)\<rparr>) b = holders vm b - {p}"
  by (auto simp: holders_def)

lemmas heap_defs = counted_def no_dangling_def in_use_def

lemma pieces_quiet [simp]:
  "counted H (vm\<lparr>jheap := J\<rparr>) \<longleftrightarrow> counted H vm"
  "counted H (vm\<lparr>pending := e\<rparr>) \<longleftrightarrow> counted H vm"
  "counted H (vm\<lparr>log := l\<rparr>) \<longleftrightarrow> counted H vm"
  "counted H (vm\<lparr>pinned_arrays := k\<rparr>) \<longleftrightarrow> counted H vm"
  "counted H (vm\<lparr>brk := n\<rparr>) \<longleftrightarrow> counted H vm"
  "no_dangling H (vm\<lparr>jheap := J\<rparr>) \<longleftrightarrow> no_dangling H vm"
  "no_dangling H (vm\<lparr>pending := e\<rparr>) \<longleftrightarrow> no_dangling H vm"
  "no_dangling H (vm\<lparr>log := l\<rparr>) \<longleftrightarrow> no_dangling H vm"
  "no_dangling H (vm\<lparr>pinned_arrays := k\<rparr>) \<longleftrightarrow> no_dangling H vm"
  "no_dangling H (vm\<lparr>brk := n\<rparr>) \<longleftrightarrow> no_dangling H vm"
  "in_use (vm\<lparr>jheap := J\<rparr>) \<longleftrightarrow> in_use vm"
  "in_use (vm\<lparr>pending := e\<rparr>) \<longleftrightarrow> in_use vm"
  "in_use (vm\<lparr>log := l\<rparr>) \<longleftrightarrow> in_use vm"
  "in_use (vm\<lparr>pinned_arrays := k\<rparr>) \<longleftrightarrow> in_use vm"
  "in_use (vm\<lparr>brk := n\<rparr>) \<longleftrightarrow> in_use vm"
  "counted H (vm\<lparr>bundles := S\<rparr>) \<longleftrightarrow> counted H vm"
  "no_dangling H (vm\<lparr>bundles := S\<rparr>) \<longleftrightarrow> no_dangling H vm"
  "in_use (vm\<lparr>bundles := S\<rparr>) \<longleftrightarrow> in_use vm"
  by (simp_all add: heap_defs)

lemma wf_heap_java [simp]:
  "wf_heap H vm \<Longrightarrow> bounded J (brk vm) \<Longrightarrow> wf_heap H (vm\<lparr>jheap := J\<rparr>)"
  by (simp add: wf_heap_def)

lemma wf_heap_quiet [simp]:
  "wf_heap H (vm\<lparr>pending := e\<rparr>) \<longleftrightarrow> wf_heap H vm" "wf_heap H (vm\<lparr>log := l\<rparr>) \<longleftrightarrow> wf_heap H vm"
  "wf_heap H (vm\<lparr>pinned_arrays := k\<rparr>) \<longleftrightarrow> wf_heap H vm"
  by (simp_all add: wf_heap_def)

lemma wf_new_buffer:
  assumes "wf_heap H vm" and "new_buffer bytes vm = (b, vm')"
  shows "wf_heap (add_mset b H) vm'"
proof -
  have b: "b = brk vm" and vm': "vm' = vm\<lparr>brk := brk vm + 1, buffers := (buffers vm)(b \<mapsto> \<lparr>ref_count = 1, b_data = bytes\<rparr>)\<rparr>"
    using assms(2) by (auto simp: new_buffer_def alloc_def)
  have "holders vm b = {}" "count H b = 0"
    using wf_fresh(5,6) [OF assms(1)] b by (simp_all add: count_eq_zero_iff)
  then have "counted (add_mset b H) vm'" "no_dangling (add_mset b H) vm'" "in_use vm'"
    using wf_heapD(6,7,8) [OF assms(1)] by (auto simp: heap_defs vm')
  with wf_heapD(1-5) [OF assms(1)] show ?thesis by (simp add: wf_heap_def vm' b)
qed

lemma holders_insert:
  "tensors vm p = None \<Longrightarrow>
   holders (vm\<lparr>tensors := (tensors vm)(p \<mapsto> t)\<rparr>) b = (if t_buf t = Some b then insert p (holders vm b) else holders vm b)"
  by (auto simp: holders_def)

lemma wf_new_tensor_object:
  assumes "wf_heap H vm" and "new_tensor_object t vm = (p, vm')"
    and "case t_buf t of None \<Rightarrow> H' = H | Some b \<Rightarrow> H = add_mset b H'"
  shows "wf_heap H' vm'"
proof -
  have p: "p = brk vm" and vm': "vm' = vm\<lparr>tensors := (tensors vm)(p \<mapsto> t), brk := brk vm + 1\<rparr>"
    using assms(2) by (auto simp: new_tensor_object_def alloc_def)
  have fresh: "tensors vm p = None" using wf_fresh(1) [OF assms(1)] p by simp
  have h: "holders vm' c = (if t_buf t = Some c then insert p (holders vm c) else holders vm c)" for c
    using holders_insert [OF fresh] by (simp add: vm')
  have "p \<notin> holders vm c" for c using fresh by (simp add: holders_def)
  then have cnt: "card (holders vm' c) + count H' c = card (holders vm c) + count H c" for c
    using assms(3) finite_holders [OF assms(1), of c] h [of c] by (cases "t_buf t") auto
  have "buffers vm' = buffers vm" by (simp add: vm')
  then have "counted H' vm'" using wf_heapD(6) [OF assms(1)] cnt by (simp add: counted_def)
  moreover have "no_dangling H' vm'"
    using wf_heapD(7) [OF assms(1)] assms(3) h \<open>buffers vm' = buffers vm\<close>
    by (auto simp: no_dangling_def split: option.splits if_splits)
  ultimately show ?thesis using wf_heapD(1-5,8) [OF assms(1)] by (simp add: wf_heap_def vm' p in_use_def)
qed

definition set_count :: "addr \<Rightarrow> buffer option \<Rightarrow> 's vm \<Rightarrow> 's vm" where
  "set_count b x vm = vm\<lparr>buffers := (buffers vm)(b := x)\<rparr>"

lemma wf_set_count:
  assumes "wf_heap H vm" and "buffers vm b = Some buf"
    and "\<And>c. c \<noteq> b \<Longrightarrow> count H' c = count H c"
    and "case x of None \<Rightarrow> holders vm b = {} \<and> b \<notin># H'
         | Some buf' \<Rightarrow> 0 < ref_count buf' \<and> ref_count buf' = card (holders vm b) + count H' b"
  shows "wf_heap H' (set_count b x vm)"
proof -
  have h: "holders (set_count b x vm) c = holders vm c" for c by (simp add: set_count_def)
  have "counted H' (set_count b x vm)"
    using wf_count(2) [OF assms(1)] assms(3,4) h
    by (auto simp: counted_def set_count_def split: option.splits)
  moreover have "in_use (set_count b x vm)"
    using wf_heapD(8) [OF assms(1)] assms(4) by (auto simp: in_use_def set_count_def)
  moreover have "no_dangling H' (set_count b x vm)"
    unfolding no_dangling_def
  proof (intro allI impI)
    fix c
    assume c: "c \<in># H' \<or> holders (set_count b x vm) c \<noteq> {}"
    show "c \<in> dom (buffers (set_count b x vm))"
    proof (cases "c = b")
      case True
      with c h assms(4) show ?thesis by (cases x) (auto simp: set_count_def)
    next
      case False
      then have "c \<in># H' \<longleftrightarrow> c \<in># H" using assms(3) by (simp flip: count_greater_zero_iff)
      with c h False wf_heapD(7) [OF assms(1)] show ?thesis
        unfolding no_dangling_def by (simp add: set_count_def) blast
    qed
  qed
  moreover have "bounded (buffers (set_count b x vm)) (brk vm)"
    using wf_heapD(4) [OF assms(1)] boundedD [OF wf_heapD(4) [OF assms(1)] assms(2)]
    by (cases x) (simp_all add: set_count_def)
  ultimately show ?thesis
    using wf_heapD(1,2,3,5) [OF assms(1)] by (simp add: wf_heap_def) (simp add: set_count_def)
qed

definition ref_vm :: "addr \<Rightarrow> buffer \<Rightarrow> 's vm \<Rightarrow> 's vm" where
  "ref_vm b buf = set_count b (Some (buf\<lparr>ref_count := ref_count buf + 1\<rparr>))"

definition unref_vm :: "addr \<Rightarrow> buffer \<Rightarrow> 's vm \<Rightarrow> 's vm" where
  "unref_vm b buf =
     set_count b (if ref_count buf = 1 then None else Some (buf\<lparr>ref_count := ref_count buf - 1\<rparr>))"

lemma wf_Ref:
  assumes "wf_heap H vm" and "buffers vm b = Some buf"
  shows "Ref b vm = Inr (ref_vm b buf vm)" "wf_heap (add_mset b H) (ref_vm b buf vm)"
  using wf_count [OF assms] wf_set_count [OF assms] assms(2)
  by (simp_all add: Ref_def ref_vm_def set_count_def)

lemma ref_count_set:
  "0 < n \<Longrightarrow> n = m \<Longrightarrow> 0 < ref_count (buf\<lparr>ref_count := n\<rparr>) \<and> ref_count (buf\<lparr>ref_count := n\<rparr>) = m"
  by simp

lemma wf_Unref:
  assumes "wf_heap (add_mset b H) vm" and "buffers vm b = Some buf"
  shows "Unref b vm = Inr (ref_count buf = 1, unref_vm b buf vm)" "wf_heap H (unref_vm b buf vm)"
proof -
  have rc: "0 < ref_count buf" "ref_count buf = card (holders vm b) + count H b + 1"
    using wf_count [OF assms] by auto
  have unheld: "holders vm b = {} \<and> b \<notin># H" if "ref_count buf = 1"
    using that rc(2) finite_holders [OF assms(1)] by (simp add: count_eq_zero_iff)
  show "wf_heap H (unref_vm b buf vm)"
    unfolding unref_vm_def
  proof (rule wf_set_count [OF assms])
    show "count H c = count (add_mset b H) c" if "c \<noteq> b" for c using that by simp
    show "case if ref_count buf = 1 then None else Some (buf\<lparr>ref_count := ref_count buf - 1\<rparr>) of
        None \<Rightarrow> holders vm b = {} \<and> b \<notin># H
      | Some buf' \<Rightarrow> 0 < ref_count buf' \<and> ref_count buf' = card (holders vm b) + count H b"
    proof (cases "ref_count buf = 1")
      case True
      with unheld show ?thesis by simp
    next
      case False
      have "0 < ref_count buf - 1" "ref_count buf - 1 = card (holders vm b) + count H b"
        using rc False by linarith+
      then have "0 < ref_count (buf\<lparr>ref_count := ref_count buf - 1\<rparr>) \<and>
          ref_count (buf\<lparr>ref_count := ref_count buf - 1\<rparr>) = card (holders vm b) + count H b"
        by (rule ref_count_set)
      then show ?thesis unfolding if_not_P [OF False] option.case .
    qed
  qed
  show "Unref b vm = Inr (ref_count buf = 1, unref_vm b buf vm)"
    using assms(2) rc(1) by (simp add: Unref_def RefCountIsOne_def unref_vm_def set_count_def)
qed

lemma wf_forget_tensor:
  assumes "wf_heap H vm" and "tensors vm p = Some t"
  shows "wf_heap (case t_buf t of None \<Rightarrow> H | Some b \<Rightarrow> add_mset b H) (vm\<lparr>tensors := (tensors vm)(p := None)\<rparr>)"
    (is "wf_heap ?H ?vm")
proof -
  have inp: "p \<in> holders vm c \<longleftrightarrow> t_buf t = Some c" for c using assms(2) by (simp add: holders_def)
  have "card (holders vm c - {p}) + count ?H c = card (holders vm c) + count H c" for c
  proof (cases "t_buf t = Some c")
    case True
    then have "p \<in> holders vm c" using inp by simp
    with finite_holders [OF assms(1)] have "Suc (card (holders vm c - {p})) = card (holders vm c)"
      by (intro card_Suc_Diff1)
    with True show ?thesis by simp
  next
    case False
    then show ?thesis using inp [of c] by (auto split: option.splits)
  qed
  then have "counted ?H ?vm" using wf_heapD(6) [OF assms(1)] by (simp add: counted_def)
  moreover have "no_dangling ?H ?vm"
    unfolding no_dangling_def
  proof (intro allI impI)
    fix c
    assume "c \<in># ?H \<or> holders ?vm c \<noteq> {}"
    then have "t_buf t = Some c \<or> c \<in># H \<or> holders vm c \<noteq> {}"
      by (cases "t_buf t") auto
    then have "c \<in> dom (buffers vm)"
      using wf_heapD(7) [OF assms(1)] wf_live [OF assms, of c] unfolding no_dangling_def by blast
    then show "c \<in> dom (buffers ?vm)" by simp
  qed
  ultimately show ?thesis using wf_heapD(1-5,8) [OF assms(1)] by (simp add: wf_heap_def in_use_def)
qed

text \<open>
  What the compound operations do.  \<open>native_frame\<close>: nothing outside the native heap changes, and
  the memory of the buffers that exist before and after keeps its contents.
\<close>

definition native_frame :: "'s vm \<Rightarrow> 's vm \<Rightarrow> bool" where
  "native_frame vm vm' \<longleftrightarrow>
     jheap vm' = jheap vm \<and> pending vm' = pending vm \<and> log vm' = log vm \<and>
     pinned_arrays vm' = pinned_arrays vm \<and> bundles vm' = bundles vm \<and> brk vm \<le> brk vm' \<and>
     (\<forall>b buf buf'. buffers vm b = Some buf \<longrightarrow> buffers vm' b = Some buf' \<longrightarrow> b_data buf' = b_data buf)"

lemma native_frame_refl [simp]: "native_frame vm vm"
  by (simp add: native_frame_def)

lemma native_frameD:
  assumes "native_frame vm vm'"
  shows "jheap vm' = jheap vm" "pending vm' = pending vm" "log vm' = log vm"
    "pinned_arrays vm' = pinned_arrays vm" "bundles vm' = bundles vm" "brk vm \<le> brk vm'"
    "\<And>b buf buf'. buffers vm b = Some buf \<Longrightarrow> buffers vm' b = Some buf' \<Longrightarrow> b_data buf' = b_data buf"
  using assms by (auto simp: native_frame_def)

lemma copy_tensor_spec:
  assumes "wf_heap H vm" and "\<And>b. t_buf t = Some b \<Longrightarrow> b \<in> dom (buffers vm)"
  shows "\<exists>vm'. copy_tensor t vm = Inr (brk vm, vm') \<and> wf_heap H vm' \<and> native_frame vm vm' \<and>
     tensors vm' = (tensors vm)(brk vm \<mapsto> t) \<and> dom (buffers vm') = dom (buffers vm)"
proof (cases "t_buf t")
  case None
  obtain vm' where n: "new_tensor_object t vm = (brk vm, vm')"
    by (simp add: new_tensor_object_def alloc_def)
  have "wf_heap H vm'" using wf_new_tensor_object [OF assms(1) n] None by simp
  moreover have "copy_tensor t vm = Inr (brk vm, vm')" using None n by (simp add: copy_tensor_def)
  ultimately show ?thesis
    using n by (auto simp: new_tensor_object_def alloc_def native_frame_def)
next
  case (Some b)
  then obtain buf where buf: "buffers vm b = Some buf" using assms(2) by blast
  note R = wf_Ref [OF assms(1) buf]
  have brk: "brk (ref_vm b buf vm) = brk vm" by (simp add: ref_vm_def set_count_def)
  obtain vm' where n: "new_tensor_object t (ref_vm b buf vm) = (brk vm, vm')"
    by (simp add: new_tensor_object_def alloc_def brk)
  have "wf_heap H vm'" using wf_new_tensor_object [OF R(2) n] Some by simp
  moreover have "copy_tensor t vm = Inr (brk vm, vm')" using Some n R(1) by (simp add: copy_tensor_def)
  ultimately show ?thesis
    using n buf
    by (auto simp: new_tensor_object_def alloc_def native_frame_def ref_vm_def set_count_def split: if_splits)
qed

lemma delete_tensor_spec:
  assumes "wf_heap H vm" and "tensors vm p = Some t"
  shows "\<exists>vm'. delete_tensor p vm = Inr vm' \<and> wf_heap H vm' \<and> native_frame vm vm' \<and>
     tensors vm' = (tensors vm)(p := None)"
proof -
  let ?vm = "vm\<lparr>tensors := (tensors vm)(p := None)\<rparr>"
  note F = wf_forget_tensor [OF assms]
  have "0 < p" using boundedD [OF wf_heapD(3) [OF assms(1)] assms(2)] by simp
  then have deref: "p \<noteq> 0" "deref_tensor vm p = Inr t" using assms(2) by (simp_all add: deref_tensor_def)
  show ?thesis
  proof (cases "t_buf t")
    case None
    with F deref show ?thesis by (auto simp: delete_tensor_def native_frame_def Let_def)
  next
    case (Some b)
    then have w: "wf_heap (add_mset b H) ?vm" using F by simp
    obtain buf where buf: "buffers ?vm b = Some buf" using wf_held [OF w, of b] by auto
    have "delete_tensor p vm = Inr (unref_vm b buf ?vm)"
      using deref Some wf_Unref(1) [OF w buf] by (simp add: delete_tensor_def Let_def)
    moreover have "native_frame vm (unref_vm b buf ?vm)"
      using buf by (auto simp: native_frame_def unref_vm_def set_count_def split: if_splits)
    moreover have "tensors (unref_vm b buf ?vm) = (tensors vm)(p := None)"
      by (simp add: unref_vm_def set_count_def)
    ultimately show ?thesis using wf_Unref(2) [OF w buf] by blast
  qed
qed

lemma new_tensor_spec:
  assumes "wf_heap H vm" and "new_tensor env type dims vm = Inr (p, vm')"
  shows "wf_heap H vm' \<and> native_frame vm vm' \<and>
     (\<exists>t. t_dtype t = type \<and> t_dims t = dims \<and> tensors vm' = (tensors vm)(p \<mapsto> t) \<and> p = (if t_buf t = None then brk vm else brk vm + 1) \<and>
       (case t_buf t of None \<Rightarrow> alloc_buffer env type (num_elements dims) = Some None
        | Some b \<Rightarrow> b = brk vm \<and> (\<exists>bytes buf. alloc_buffer env type (num_elements dims) = Some (Some bytes) \<and>
                     buffers vm' b = Some buf \<and> b_data buf = bytes)))"
proof -
  have nn: "\<not> (\<exists>d\<in>set dims. d < 0)"
  proof
    assume "\<exists>d\<in>set dims. d < 0"
    then have "new_tensor env type dims vm = Inl CheckFailed" by (simp add: new_tensor_def)
    with assms(2) show False by simp
  qed
  from assms(2) nn obtain mem where mem: "alloc_buffer env type (num_elements dims) = Some mem"
    by (auto simp: new_tensor_def split: option.splits)
  show ?thesis
  proof (cases mem)
    case None
    let ?t = "\<lparr>t_dtype = type, t_dims = dims, t_buf = None\<rparr>"
    have n: "new_tensor_object ?t vm = (p, vm')" using assms(2) nn mem None by (simp add: new_tensor_def)
    have "wf_heap H vm'" using wf_new_tensor_object [OF assms(1) n] by simp
    with n None mem show ?thesis
      by (auto simp: new_tensor_object_def alloc_def native_frame_def intro!: exI [of _ ?t])
  next
    case (Some bytes)
    obtain b vm1 where b: "new_buffer bytes vm = (b, vm1)" by fastforce
    let ?t = "\<lparr>t_dtype = type, t_dims = dims, t_buf = Some b\<rparr>"
    have n: "new_tensor_object ?t vm1 = (p, vm')" using assms(2) nn mem Some b by (simp add: new_tensor_def)
    have "wf_heap H vm'" using wf_new_tensor_object [OF wf_new_buffer [OF assms(1) b] n] by simp
    moreover have "b = brk vm" "buffers vm b = None"
      using b wf_fresh(2) [OF assms(1)] by (auto simp: new_buffer_def alloc_def)
    ultimately show ?thesis using n b Some mem
      by (auto simp: new_tensor_object_def new_buffer_def alloc_def native_frame_def
          split: if_splits intro!: exI [of _ ?t])
  qed
qed

lemma native_memcpy_spec:
  assumes "wf_heap H vm" and "native_memcpy vm buffer src sz = Inr vm'"
  shows "wf_heap H vm' \<and> jheap vm' = jheap vm \<and> tensors vm' = tensors vm \<and> brk vm' = brk vm \<and>
         bundles vm' = bundles vm \<and> pending vm' = pending vm \<and> dom (buffers vm') = dom (buffers vm)"
proof (cases "sz = 0")
  case True
  with assms show ?thesis by (auto simp: native_memcpy_def)
next
  case False
  then obtain b buf bytes where b: "buffer = Some b" "buffers vm b = Some buf"
    and vm': "vm' = set_count b (Some (buf\<lparr>b_data := take (nat sz) bytes @ drop (nat sz) (b_data buf)\<rparr>)) vm"
    using assms(2)
    by (auto simp: native_memcpy_def set_count_def bnd_Inr_iff split: option.splits if_splits)
  have "wf_heap H vm'"
    unfolding vm' by (rule wf_set_count [OF assms(1) b(2)]) (use wf_count [OF assms(1) b(2)] in simp_all)
  then show ?thesis using b by (auto simp: vm' set_count_def)
qed

end
