(* ===== verification/Tensor_Jni.thy ===== *)
theory Tensor_Jni
  imports Jni_Vm
begin

text \<open>
  \<open>tensor_jni.cpp\<close> and \<open>Tensor.java\<close>: a Java Tensor that owns a native one.

  The native methods come first, then the Java methods that call them.  A Java method stops at the
  native call that leaves an exception pending, which is then the exception it throws.
\<close>

section \<open>The native methods\<close>

text \<open>\<open>GetObjectField\<close> on the field "name", which only a Tensor has.\<close>

definition GetTensorName :: "'s env \<Rightarrow> 's vm \<Rightarrow> jref \<Rightarrow> string option result" where
  "GetTensorName env vm obj =
     bnd (jni_call env vm) (\<lambda>_.
       case obj of None \<Rightarrow> Inl NullObject
       | Some a \<Rightarrow> (case jheap vm a of
             Some (JTensor t) \<Rightarrow> Inr (j_name t)
           | Some (JBundle _) \<Rightarrow> Inl JniMisuse
           | None \<Rightarrow> Inl NullObject))"

definition tensor_dims :: "bool \<Rightarrow> jint list \<Rightarrow> int list result" where
  "tensor_dims scalar shape =
     (if scalar then (case shape of [] \<Rightarrow> Inl OutOfBounds | d # _ \<Rightarrow> Inr [sint d])
      else Inr (map sint shape))"

definition Tensor_create :: "'s env \<Rightarrow> jref \<Rightarrow> int \<Rightarrow> bool \<Rightarrow> jint list \<Rightarrow> 's vm \<Rightarrow> 's vm result" where
  "Tensor_create env thiz dtype scalar shape vm =
     bnd (jni_call env vm) (\<lambda>_.
     let vm = vm\<lparr>pinned_arrays := pinned_arrays vm + 1\<rparr> in
     bnd (tensor_dims scalar shape) (\<lambda>dims.
     bnd (new_tensor env dtype dims vm) (\<lambda>(tensor, vm).
     setHandle env vm thiz tensor)))"

definition Tensor_delete :: "'s env \<Rightarrow> jref \<Rightarrow> 's vm \<Rightarrow> 's vm result" where
  "Tensor_delete env thiz vm = bnd (getHandle env vm thiz) (\<lambda>tensor. delete_tensor tensor vm)"

definition illegal_type_log :: string where
  "illegal_type_log = ''Illegal tensor type requested, must be one of float, uint8, int32, or int64''"

text \<open>
  The switch of both methods on the type; \<open>long long\<close> is the C++ type of \<open>DT_INT64\<close>.  The default
  branch throws and leaves \<open>buffer\<close> null.
\<close>

definition typed_data :: "'s env \<Rightarrow> string \<Rightarrow> int \<Rightarrow> addr \<Rightarrow> 's vm \<Rightarrow> (addr option \<times> 's vm) result" where
  "typed_data env message tensorType tensor vm =
     (if tensorType \<in> {DT_FLOAT, DT_UINT8, DT_INT32, DT_INT64}
      then bnd (flat_data tensorType vm tensor) (\<lambda>buffer. Inr (buffer, vm))
      else bnd (ThrowException env kIllegalArgumentException message (log_print illegal_type_log vm))
             (\<lambda>vm. Inr (None, vm)))"

definition Tensor_writeBytes ::
    "'s env \<Rightarrow> jref \<Rightarrow> byte_buffer option \<Rightarrow> int \<Rightarrow> int \<Rightarrow> 's vm \<Rightarrow> 's vm result" where
  "Tensor_writeBytes env thiz src sz dtype vm =
     bnd (getHandle env vm thiz) (\<lambda>tensor.
     case Option.bind src (\<lambda>s. GetDirectBufferAddress (bb_mem s)) of
       None \<Rightarrow> ThrowException env kIllegalArgumentException ''Input ByteBuffer is not a direct buffer'' vm
     | Some src_data_raw \<Rightarrow>
         bnd (typed_data env ''Internal Error: Tensor:.writeBytes: Illegal tensor type requested'' dtype tensor vm)
           (\<lambda>(buffer, vm). native_memcpy vm buffer src_data_raw sz))"

definition Tensor_readBytes ::
    "'s env \<Rightarrow> jref \<Rightarrow> int \<Rightarrow> int \<Rightarrow> 's vm \<Rightarrow> (memory \<times> 's vm) result" where
  "Tensor_readBytes env thiz sz dtype vm =
     bnd (getHandle env vm thiz) (\<lambda>tensor.
     bnd (typed_data env ''Internal Error: Tensor.readBytes: Illegal tensor type requested'' dtype tensor vm)
       (\<lambda>(buffer, vm). bnd (NewDirectByteBuffer env vm buffer sz) (\<lambda>m. Inr (m, vm))))"

section \<open>The Java class\<close>

definition new_Tensor :: "jdtype \<Rightarrow> jint list \<Rightarrow> bool \<Rightarrow> string option \<Rightarrow> 's vm \<Rightarrow> addr \<times> 's vm" where
  "new_Tensor dtype shape scalar name vm =
     (let (a, vm) = alloc vm in
      (a, vm\<lparr>jheap := (jheap vm)(a \<mapsto> JTensor \<lparr>j_dtype = dtype, j_shape = shape, j_name = name,
             j_scalar = scalar, j_isBacked = False, j_handle = 0\<rparr>)\<rparr>))"

text \<open>\<open>count\<close> multiplies in a Java \<open>int\<close>, which wraps around; \<open>size\<close> multiplies in a \<open>long\<close>.\<close>

definition jcount :: "jtensor \<Rightarrow> int" where
  "jcount t = sint (foldl (*) 1 (j_shape t))"

definition jsize :: "jtensor \<Rightarrow> int" where
  "jsize t = jcount t * byteSize (j_dtype t)"

definition the_tensor :: "'s vm \<Rightarrow> addr \<Rightarrow> jtensor result" where
  "the_tensor vm a =
     (case jheap vm a of Some (JTensor t) \<Rightarrow> Inr t | Some (JBundle _) \<Rightarrow> Inl JniMisuse | None \<Rightarrow> Inl NullObject)"

definition put_tensor :: "addr \<Rightarrow> jtensor \<Rightarrow> 's vm \<Rightarrow> 's vm" where
  "put_tensor a t vm = vm\<lparr>jheap := (jheap vm)(a \<mapsto> JTensor t)\<rparr>"

definition throw_java :: "string \<Rightarrow> string \<Rightarrow> 's vm \<Rightarrow> 's vm" where
  "throw_java clazz message vm = vm\<lparr>pending := Some (clazz, message)\<rparr>"

text \<open>Continue with the next statement unless an exception was thrown.\<close>

definition and_then :: "'s vm result \<Rightarrow> ('s vm \<Rightarrow> 's vm result) \<Rightarrow> 's vm result" where
  "and_then r f = bnd r (\<lambda>vm. if pending vm \<noteq> None then Inr vm else f vm)"

definition createBackingTensor :: "'s env \<Rightarrow> addr \<Rightarrow> 's vm \<Rightarrow> 's vm result" where
  "createBackingTensor env a vm =
     bnd (the_tensor vm a) (\<lambda>t.
       if j_isBacked t then Inr vm
       else and_then (Tensor_create env (Some a) (jdtype_c (j_dtype t)) (j_scalar t) (j_shape t) vm)
              (\<lambda>vm. bnd (the_tensor vm a) (\<lambda>t. Inr (put_tensor a (t\<lparr>j_isBacked := True\<rparr>) vm))))"

definition setBytes :: "'s env \<Rightarrow> addr \<Rightarrow> byte_buffer option \<Rightarrow> 's vm \<Rightarrow> 's vm result" where
  "setBytes env a buffer vm =
     bnd (the_tensor vm a) (\<lambda>t.
       if debug_build env \<and> buffer = None then Inr (throw_java ''java/lang/NullPointerException'' '''' vm)
       else if debug_build env \<and> \<not> (isDirect (the buffer) \<and> bb_native_order (the buffer))
       then Inr (throw_java ''java/lang/AssertionError'' ''Assertion failed'' vm)
       else and_then (createBackingTensor env a vm)
              (Tensor_writeBytes env (Some a) buffer (jsize t) (jdtype_c (j_dtype t))))"

definition new_Tensor_bytes ::
    "'s env \<Rightarrow> jdtype \<Rightarrow> jint list \<Rightarrow> bool \<Rightarrow> string option \<Rightarrow> byte_buffer option \<Rightarrow> 's vm \<Rightarrow> (addr \<times> 's vm) result" where
  "new_Tensor_bytes env dtype shape scalar name bytes vm =
     (let (a, vm) = new_Tensor dtype shape scalar name vm
      in bnd (setBytes env a bytes vm) (\<lambda>vm. Inr (a, vm)))"

definition getBytes :: "'s env \<Rightarrow> addr \<Rightarrow> 's vm \<Rightarrow> (byte_buffer option \<times> 's vm) result" where
  "getBytes env a vm =
     bnd (the_tensor vm a) (\<lambda>t.
     bnd (Tensor_readBytes env (Some a) (jsize t) (jdtype_c (j_dtype t)) vm) (\<lambda>(m, vm).
       if pending vm \<noteq> None then Inr (None, vm)
       else Inr (Some \<lparr>bb_mem = m, bb_native_order = True\<rparr>, vm)))"

definition tensor_close :: "'s env \<Rightarrow> addr \<Rightarrow> 's vm \<Rightarrow> 's vm result" where
  "tensor_close env a vm = Tensor_delete env (Some a) vm"

text \<open>The bytes that a ByteBuffer of capacity \<open>n\<close> shows its reader.\<close>

definition view :: "'s vm \<Rightarrow> byte_buffer \<Rightarrow> byte list result" where
  "view vm bb =
     (case bb_mem bb of
        TensorMem b n \<Rightarrow> bnd (memory_bytes vm (TensorMem b n))
          (\<lambda>bs. if int (length bs) < n then Inl OutOfBounds else Inr (take (nat n) bs))
      | m \<Rightarrow> memory_bytes vm m)"

section \<open>A tensor that is backed\<close>

text \<open>
  A Java Tensor is regular when its type has a size, its dimensions are not negative and their
  product fits in a Java \<open>int\<close>; the dimensions of a scalar after the first are 1, as the comment in
  \<open>Tensor_create\<close> says.  It is backed when its handle points to a native tensor of its type whose
  buffer has \<open>size()\<close> bytes.
\<close>

definition regular :: "jtensor \<Rightarrow> bool" where
  "regular t \<longleftrightarrow> j_dtype t \<noteq> STRING \<and> (\<forall>d\<in>set (j_shape t). 0 \<le> sint d) \<and>
     prod_list (map sint (j_shape t)) < 2 ^ 31 \<and>
     (j_scalar t \<longrightarrow> j_shape t \<noteq> [] \<and> (\<forall>d\<in>set (tl (j_shape t)). d = 1)) \<and>
     prod_list (map sint (j_shape t)) * byteSize (j_dtype t) < 2 ^ 31"

definition backed :: "'s vm \<Rightarrow> jtensor \<Rightarrow> addr \<Rightarrow> buffer \<Rightarrow> bool" where
  "backed vm t b buf \<longleftrightarrow>
     (\<exists>nt. tensors vm (j_handle t) = Some nt \<and> t_dtype nt = jdtype_c (j_dtype t) \<and> t_buf nt = Some b) \<and>
     buffers vm b = Some buf \<and> int (length (b_data buf)) = jsize t"

text \<open>What the tensor constructor allocates for a type that has a size.\<close>

definition allocates :: "'s env \<Rightarrow> bool" where
  "allocates env \<longleftrightarrow>
     (\<forall>d n. d \<noteq> STRING \<longrightarrow> 0 \<le> n \<longrightarrow>
        (case alloc_buffer env (jdtype_c d) n of
           Some (Some bytes) \<Rightarrow> int (length bytes) = n * byteSize d | _ \<Rightarrow> False))"

lemma allocatesE:
  assumes "allocates env" "d \<noteq> STRING" "0 \<le> n"
  obtains bytes where "alloc_buffer env (jdtype_c d) n = Some (Some bytes)" "int (length bytes) = n * byteSize d"
proof -
  from assms have "case alloc_buffer env (jdtype_c d) n of
           Some (Some bytes) \<Rightarrow> int (length bytes) = n * byteSize d | _ \<Rightarrow> False"
    unfolding allocates_def by blast
  then show ?thesis using that by (auto split: option.splits)
qed

lemma foldl_jint: "foldl (*) w ws = w * word_of_int (prod_list (map sint (ws :: jint list)))"
  by (induction ws arbitrary: w) (simp_all add: mult.assoc)

lemma sint_word_of_int_small: "- (2 ^ 31) \<le> n \<Longrightarrow> n < 2 ^ 31 \<Longrightarrow> sint (word_of_int n :: jint) = n"
  by (simp add: sint_sbintrunc' signed_take_bit_int_eq_self)

lemma jcount_regular: "regular t \<Longrightarrow> jcount t = prod_list (map sint (j_shape t)) \<and> 0 \<le> jcount t"
proof -
  assume r: "regular t"
  have nn: "0 \<le> prod_list (map sint (j_shape t))"
    by (rule prod_list_nonneg) (use r in \<open>auto simp: regular_def\<close>)
  have "foldl (*) 1 (j_shape t) = word_of_int (prod_list (map sint (j_shape t)))"
    by (simp add: foldl_jint)
  then have "jcount t = prod_list (map sint (j_shape t))"
    unfolding jcount_def using nn r sint_word_of_int_small by (simp add: regular_def)
  with nn show ?thesis by simp
qed

lemma byteSize_pos: "d \<noteq> STRING \<Longrightarrow> 0 < byteSize d"
  by (cases d) simp_all

lemma jsize_regular:
  assumes "regular t"
  shows "0 \<le> jsize t" "jsize t < 2 ^ 31" "jsize t = prod_list (map sint (j_shape t)) * byteSize (j_dtype t)"
  using jcount_regular [OF assms] byteSize_pos [of "j_dtype t"] assms
  by (auto simp: jsize_def regular_def)

lemma prod_list_ones: "\<forall>d\<in>set ds. d = 1 \<Longrightarrow> prod_list (map sint (ds :: jint list)) = 1"
  by (induction ds) simp_all

lemma tensor_dims_regular:
  assumes "regular t"
  shows "\<exists>dims. tensor_dims (j_scalar t) (j_shape t) = Inr dims \<and> \<not> (\<exists>d\<in>set dims. d < 0) \<and>
                num_elements dims = jcount t"
proof (cases "j_scalar t")
  case True
  with assms obtain d ds where s: "j_shape t = d # ds" "\<forall>d\<in>set ds. d = 1"
    by (cases "j_shape t") (auto simp: regular_def)
  moreover have "0 \<le> sint d" using assms s by (simp add: regular_def)
  ultimately show ?thesis
    using True jcount_regular [OF assms] prod_list_ones [of ds]
    by (simp add: tensor_dims_def num_elements_def)
next
  case False
  with assms jcount_regular [OF assms] show ?thesis
    by (auto simp: tensor_dims_def num_elements_def regular_def not_less)
qed

lemma jdtype_c_typed: "d \<noteq> STRING \<Longrightarrow> jdtype_c d \<in> {DT_FLOAT, DT_UINT8, DT_INT32, DT_INT64}"
  by (cases d) simp_all

lemma the_tensor_simps [simp]:
  "jheap vm a = Some (JTensor t) \<Longrightarrow> the_tensor vm a = Inr t"
  by (simp add: the_tensor_def)

lemma getHandle_tensor [simp]:
  "pending vm = None \<Longrightarrow> jheap vm a = Some (JTensor t) \<Longrightarrow> getHandle env vm (Some a) = Inr (j_handle t)"
  by (simp add: getHandle_def getHandleField_def)

lemma setHandle_tensor [simp]:
  "pending vm = None \<Longrightarrow> jheap vm a = Some (JTensor t) \<Longrightarrow>
   setHandle env vm (Some a) h = Inr (put_tensor a (t\<lparr>j_handle := h\<rparr>) vm)"
  by (simp add: setHandle_def getHandleField_def put_tensor_def)

lemma put_tensor_simps [simp]:
  "jheap (put_tensor a t vm) = (jheap vm)(a \<mapsto> JTensor t)" "tensors (put_tensor a t vm) = tensors vm"
  "buffers (put_tensor a t vm) = buffers vm" "bundles (put_tensor a t vm) = bundles vm"
  "brk (put_tensor a t vm) = brk vm" "pending (put_tensor a t vm) = pending vm"
  "log (put_tensor a t vm) = log vm" "pinned_arrays (put_tensor a t vm) = pinned_arrays vm"
  by (simp_all add: put_tensor_def)

lemma wf_put_tensor [simp]:
  "wf_heap H vm \<Longrightarrow> jheap vm a = Some ob \<Longrightarrow> wf_heap H (put_tensor a t vm)"
  using boundedD [OF wf_heapD(2), of H vm a ob] wf_heapD(2) [of H vm]
  by (auto simp: put_tensor_def intro!: wf_heap_java)

lemma backed_put [simp]: "backed (put_tensor a u vm) t b buf = backed vm t b buf"
  by (simp add: backed_def)

text \<open>The native allocation of a regular tensor succeeds and backs it.\<close>

lemma createBackingTensor_spec:
  assumes wf: "wf_heap {#} vm" and quiet: "pending vm = None" and t: "jheap vm a = Some (JTensor t)"
    and r: "regular t" and env: "allocates env" and nb: "\<not> j_isBacked t"
  shows "\<exists>vm' t' b buf. createBackingTensor env a vm = Inr vm' \<and> t' = t\<lparr>j_handle := j_handle t', j_isBacked := True\<rparr> \<and>
     jheap vm' = (jheap vm)(a \<mapsto> JTensor t') \<and> wf_heap {#} vm' \<and> pending vm' = None \<and> backed vm' t' b buf \<and>
     bundles vm' = bundles vm \<and> log vm' = log vm \<and> pinned_arrays vm' = pinned_arrays vm + 1 \<and>
     tensors vm (j_handle t') = None \<and> (\<forall>p. p \<noteq> j_handle t' \<longrightarrow> tensors vm' p = tensors vm p)"
proof -
  let ?vm = "vm\<lparr>pinned_arrays := pinned_arrays vm + 1\<rparr>"
  obtain dims where dims: "tensor_dims (j_scalar t) (j_shape t) = Inr dims" "\<not> (\<exists>d\<in>set dims. d < 0)"
    "num_elements dims = jcount t" using tensor_dims_regular [OF r] by blast
  have str: "j_dtype t \<noteq> STRING" using r by (simp add: regular_def)
  obtain bytes where bytes: "alloc_buffer env (jdtype_c (j_dtype t)) (jcount t) = Some (Some bytes)"
    "int (length bytes) = jsize t"
    using allocatesE [OF env str conjunct2 [OF jcount_regular [OF r]]] by (auto simp: jsize_def)
  obtain p vm1 where n: "new_tensor env (jdtype_c (j_dtype t)) dims ?vm = Inr (p, vm1)"
    using dims bytes by (simp add: new_tensor_def new_buffer_def new_tensor_object_def alloc_def)
  have wf1: "wf_heap {#} ?vm" using wf by simp
  from new_tensor_spec [OF wf1 n] bytes dims obtain nt buf where
    nt: "t_dtype nt = jdtype_c (j_dtype t)" "tensors vm1 = (tensors vm)(p \<mapsto> nt)" "t_buf nt = Some (brk vm)"
      "p = brk vm + 1" "buffers vm1 (brk vm) = Some buf" "b_data buf = bytes"
      "wf_heap {#} vm1" and fr: "native_frame ?vm vm1"
    by (auto split: option.splits)
  note F = native_frameD [OF fr, simplified]
  have fresh: "tensors vm p = None" using boundedD [OF wf_heapD(3) [OF wf], of p] nt(4) by (cases "tensors vm p") auto
  have create: "Tensor_create env (Some a) (jdtype_c (j_dtype t)) (j_scalar t) (j_shape t) vm =
      Inr (put_tensor a (t\<lparr>j_handle := p\<rparr>) vm1)"
    using quiet dims(1) n F t by (simp add: Tensor_create_def Let_def)
  let ?t = "t\<lparr>j_handle := p, j_isBacked := True\<rparr>"
  have "createBackingTensor env a vm = Inr (put_tensor a ?t (put_tensor a (t\<lparr>j_handle := p\<rparr>) vm1))"
    using t nb quiet F by (simp add: createBackingTensor_def create and_then_def)
  moreover have "backed vm1 ?t (brk vm) buf"
    using nt bytes by (simp add: backed_def jsize_def jcount_def)
  ultimately show ?thesis
    using nt F quiet t fresh by (intro exI [of _ "put_tensor a ?t (put_tensor a (t\<lparr>j_handle := p\<rparr>) vm1)"]
        exI [of _ ?t] exI [of _ "brk vm"] exI [of _ buf]) simp
qed

text \<open>Writing to and reading from a backed tensor.\<close>

lemma flat_data_backed:
  assumes wf: "wf_heap H vm" and b: "backed vm t b buf" and str: "j_dtype t \<noteq> STRING"
  shows "flat_data (jdtype_c (j_dtype t)) vm (j_handle t) = Inr (Some b)"
proof -
  obtain nt where nt: "tensors vm (j_handle t) = Some nt" "t_dtype nt = jdtype_c (j_dtype t)" "t_buf nt = Some b"
    using b by (auto simp: backed_def)
  then have "j_handle t \<noteq> 0" using boundedD [OF wf_heapD(3) [OF wf]] by force
  with nt show ?thesis by (simp add: flat_data_eq deref_tensor_def)
qed

lemma typed_data_backed:
  assumes wf: "wf_heap H vm" and b: "backed vm t b buf" and str: "j_dtype t \<noteq> STRING"
  shows "typed_data env message (jdtype_c (j_dtype t)) (j_handle t) vm = Inr (Some b, vm)"
  using flat_data_backed [OF wf b str] jdtype_c_typed [OF str] by (simp add: typed_data_def)

lemma writeBytes_backed:
  assumes wf: "wf_heap H vm" and quiet: "pending vm = None" and t: "jheap vm a = Some (JTensor t)"
    and b: "backed vm t b buf" and r: "regular t"
    and src: "bb_mem bb = Direct bs" and len: "jsize t \<le> int (length bs)"
  shows "Tensor_writeBytes env (Some a) (Some bb) (jsize t) (jdtype_c (j_dtype t)) vm =
         Inr (set_count b (Some (buf\<lparr>b_data := take (nat (jsize t)) bs\<rparr>)) vm)"
proof -
  have str: "j_dtype t \<noteq> STRING" and buf: "buffers vm b = Some buf" "int (length (b_data buf)) = jsize t"
    using r b by (auto simp: regular_def backed_def)
  have len0: "length (b_data buf) = nat (jsize t)" using buf(2) by simp
  have same: "vm = set_count b (Some buf) vm" using buf(1) by (simp add: set_count_def fun_upd_idem)
  have "native_memcpy vm (Some b) (Direct bs) (jsize t) =
      Inr (set_count b (Some (buf\<lparr>b_data := take (nat (jsize t)) bs\<rparr>)) vm)"
  proof (cases "jsize t = 0")
    case True
    then have "buf\<lparr>b_data := take (nat (jsize t)) bs\<rparr> = buf" using len0 by simp
    with True same show ?thesis by (simp add: native_memcpy_def)
  next
    case False
    then show ?thesis using jsize_regular(1) [OF r] buf(1) len len0
      by (simp add: native_memcpy_def set_count_def not_less)
  qed
  then show ?thesis
    using quiet t src typed_data_backed [OF wf b str] by (simp add: Tensor_writeBytes_def)
qed

lemma getBytes_backed:
  assumes wf: "wf_heap H vm" and quiet: "pending vm = None" and t: "jheap vm a = Some (JTensor t)"
    and b: "backed vm t b buf" and r: "regular t"
  shows "getBytes env a vm = Inr (Some \<lparr>bb_mem = TensorMem b (jsize t), bb_native_order = True\<rparr>, vm)"
    "view vm \<lparr>bb_mem = TensorMem b (jsize t), bb_native_order = True\<rparr> = Inr (b_data buf)"
proof -
  have str: "j_dtype t \<noteq> STRING" using r by (simp add: regular_def)
  show "getBytes env a vm = Inr (Some \<lparr>bb_mem = TensorMem b (jsize t), bb_native_order = True\<rparr>, vm)"
    using quiet t typed_data_backed [OF wf b str] jsize_regular(1,2) [OF r]
    by (simp add: getBytes_def Tensor_readBytes_def NewDirectByteBuffer_def)
  show "view vm \<lparr>bb_mem = TensorMem b (jsize t), bb_native_order = True\<rparr> = Inr (b_data buf)"
    using b by (auto simp: view_def backed_def intro: take_all)
qed

text \<open>What \<open>setBytes\<close> does on a regular tensor, backed or not: the tensor is backed by the bytes.\<close>

lemma setBytes_spec:
  assumes wf: "wf_heap {#} vm" and quiet: "pending vm = None" and t: "jheap vm a = Some (JTensor t)"
    and r: "regular t" and env: "allocates env"
    and b: "j_isBacked t \<Longrightarrow> \<exists>b buf. backed vm t b buf"
    and src: "bb_mem bb = Direct bs" "bb_native_order bb" and len: "jsize t \<le> int (length bs)"
  shows "\<exists>vm' t' b buf. setBytes env a (Some bb) vm = Inr vm' \<and>
     t' = t\<lparr>j_handle := j_handle t', j_isBacked := True\<rparr> \<and> jheap vm' = (jheap vm)(a \<mapsto> JTensor t') \<and>
     wf_heap {#} vm' \<and> pending vm' = None \<and> backed vm' t' b buf \<and> b_data buf = take (nat (jsize t)) bs \<and>
     bundles vm' = bundles vm \<and> log vm' = log vm \<and>
     (j_isBacked t \<longrightarrow> t' = t \<and> tensors vm' = tensors vm \<and> pinned_arrays vm' = pinned_arrays vm)"
proof -
  have "\<exists>vm1 t' b buf. createBackingTensor env a vm = Inr vm1 \<and>
     t' = t\<lparr>j_handle := j_handle t', j_isBacked := True\<rparr> \<and> jheap vm1 = (jheap vm)(a \<mapsto> JTensor t') \<and>
     wf_heap {#} vm1 \<and> pending vm1 = None \<and> backed vm1 t' b buf \<and> bundles vm1 = bundles vm \<and> log vm1 = log vm \<and>
     (j_isBacked t \<longrightarrow> t' = t \<and> tensors vm1 = tensors vm \<and> pinned_arrays vm1 = pinned_arrays vm)"
  proof (cases "j_isBacked t")
    case True
    with b obtain b buf where "backed vm t b buf" by blast
    moreover have "createBackingTensor env a vm = Inr vm" using t True by (simp add: createBackingTensor_def)
    moreover have "t = t\<lparr>j_handle := j_handle t, j_isBacked := True\<rparr>" using True by simp
    moreover have "jheap vm = (jheap vm)(a \<mapsto> JTensor t)" using t by (simp add: fun_upd_idem)
    ultimately show ?thesis using wf quiet by blast
  next
    case False
    from createBackingTensor_spec [OF wf quiet t r env False] show ?thesis using False by meson
  qed
  then obtain vm1 t' b buf where 1: "createBackingTensor env a vm = Inr vm1"
    "t' = t\<lparr>j_handle := j_handle t', j_isBacked := True\<rparr>" "jheap vm1 = (jheap vm)(a \<mapsto> JTensor t')"
    "wf_heap {#} vm1" "pending vm1 = None" "backed vm1 t' b buf" "bundles vm1 = bundles vm" "log vm1 = log vm"
    "j_isBacked t \<longrightarrow> t' = t \<and> tensors vm1 = tensors vm \<and> pinned_arrays vm1 = pinned_arrays vm" by blast
  have same: "j_dtype t' = j_dtype t" "j_shape t' = j_shape t" "j_scalar t' = j_scalar t"
    by (subst 1(2), simp)+
  then have js: "jsize t' = jsize t" and r': "regular t'"
    using r by (simp_all add: jsize_def jcount_def regular_def)
  let ?buf = "buf\<lparr>b_data := take (nat (jsize t)) bs\<rparr>"
  let ?vm = "set_count b (Some ?buf) vm1"
  have t1: "jheap vm1 a = Some (JTensor t')" using 1(3) by simp
  have "Tensor_writeBytes env (Some a) (Some bb) (jsize t) (jdtype_c (j_dtype t)) vm1 = Inr ?vm"
    using writeBytes_backed [OF 1(4,5) t1 1(6) r' src(1)] len js same by simp
  then have "setBytes env a (Some bb) vm = Inr ?vm"
    using t 1(1,5) src by (simp add: setBytes_def and_then_def isDirect_def)
  moreover have buf: "buffers vm1 b = Some buf" using 1(6) by (simp add: backed_def)
  moreover have "wf_heap {#} ?vm"
    by (rule wf_set_count [OF 1(4) buf]) (use wf_count [OF 1(4) buf] in simp_all)
  moreover have "backed ?vm t' b ?buf"
    using 1(6) js len jsize_regular(1) [OF r] by (simp add: backed_def set_count_def)
  ultimately show ?thesis
    using 1 by (intro exI [of _ ?vm] exI [of _ t'] exI [of _ b] exI [of _ ?buf]) (simp add: set_count_def)
qed

section \<open>A concrete environment\<close>

text \<open>
  The state of a process in which nothing was allocated yet, and an environment whose allocator and
  session do the least that the hypotheses of the properties ask for.
\<close>

definition empty_vm :: "'s vm" where
  "empty_vm = \<lparr>jheap = Map.empty, tensors = Map.empty, buffers = Map.empty, bundles = Map.empty,
     brk = 1, pending = None, log = [], pinned_arrays = 0\<rparr>"

lemma wf_empty_vm: "wf_heap {#} empty_vm"
  by (simp add: wf_heap_def heap_defs bounded_def empty_vm_def holders_def)

definition demo_alloc :: "data_type \<Rightarrow> int \<Rightarrow> byte list option option" where
  "demo_alloc type n =
     (case fromC type of
        Some d \<Rightarrow> if d = STRING then Some (Some []) else Some (Some (replicate (nat (n * byteSize d)) 0))
      | None \<Rightarrow> None)"

definition demo_env :: "nat env" where
  "demo_env = \<lparr>malloc_ok = True, asserts_on = False, check_jni = True, debug_build = False,
     alloc_buffer = demo_alloc,
     load_model = (\<lambda>dir tags. if dir = ''model''
       then (StatusOK, \<lparr>session = Some 0, filename_tensor_name = ''save/Const:0'', save_tensor_name = ''save/control''\<rparr>)
       else (StatusError 5 ''not found'', \<lparr>session = None, filename_tensor_name = '''', save_tensor_name = ''''\<rparr>)),
     session_run = (\<lambda>s inputs outputs targets.
       if ''bad'' \<in> set targets then (StatusError 3 ''no such op'', [], s)
       else (StatusOK, map (\<lambda>_. Fresh DT_FLOAT [1] [1, 2, 3, 4]) outputs, s + 1)),
     session_close = (\<lambda>s. (StatusOK, s))\<rparr>"

lemma fromC_c: "fromC (jdtype_c d) = Some d"
  by (cases d) (simp_all add: fromC_def jdtype_values_def)

lemma demo_env_allocates: "allocates demo_env"
proof -
  have "0 \<le> n * byteSize d" if "d \<noteq> STRING" "0 \<le> n" for d n
    using that byteSize_pos [of d] by simp
  then show ?thesis by (auto simp: allocates_def demo_env_def demo_alloc_def fromC_c)
qed

lemma new_Tensor_simps [simp]:
  "fst (new_Tensor dtype shape scalar name vm) = brk vm"
  "jheap (snd (new_Tensor dtype shape scalar name vm)) =
     (jheap vm)(brk vm \<mapsto> JTensor \<lparr>j_dtype = dtype, j_shape = shape, j_name = name, j_scalar = scalar,
       j_isBacked = False, j_handle = 0\<rparr>)"
  "tensors (snd (new_Tensor dtype shape scalar name vm)) = tensors vm"
  "buffers (snd (new_Tensor dtype shape scalar name vm)) = buffers vm"
  "bundles (snd (new_Tensor dtype shape scalar name vm)) = bundles vm"
  "pending (snd (new_Tensor dtype shape scalar name vm)) = pending vm"
  by (simp_all add: new_Tensor_def alloc_def)

lemma wf_new_Tensor:
  "wf_heap H vm \<Longrightarrow> wf_heap H (snd (new_Tensor dtype shape scalar name vm))"
  by (simp add: new_Tensor_def alloc_def wf_heap_def)

definition demo_tensor_vm :: "nat vm" where
  "demo_tensor_vm = snd (new_Tensor FLOAT32 [2] False (Some ''x'') empty_vm)"

lemma demo_tensor_vm:
  "wf_heap {#} demo_tensor_vm" "pending demo_tensor_vm = None"
  "jheap demo_tensor_vm 1 = Some (JTensor \<lparr>j_dtype = FLOAT32, j_shape = [2], j_name = Some ''x'',
     j_scalar = False, j_isBacked = False, j_handle = 0\<rparr>)"
  unfolding demo_tensor_vm_def by (simp_all add: wf_new_Tensor wf_empty_vm) (simp_all add: empty_vm_def)

section \<open>The properties\<close>

text \<open>
  C3: bytes set on a tensor are the bytes read back.  For a regular tensor, fresh or backed, and a
  direct buffer in native order with at least \<open>size()\<close> bytes, \<open>setBytes\<close> returns without an
  exception and without touching memory it does not own, keeps the heap well formed, and the
  ByteBuffer that \<open>getBytes\<close> then returns shows exactly the first \<open>size()\<close> bytes that were set.  A
  tensor that was backed before keeps its native tensor.
\<close>

theorem set_get_bytes_roundtrip:
  assumes "wf_heap {#} vm" and "pending vm = None" and "jheap vm a = Some (JTensor t)"
    and "regular t" and "allocates env"
    and "j_isBacked t \<Longrightarrow> \<exists>b buf. backed vm t b buf"
    and "bb_mem bb = Direct bs" and "bb_native_order bb" and "jsize t \<le> int (length bs)"
  shows "\<exists>vm' out. setBytes env a (Some bb) vm = Inr vm' \<and> pending vm' = None \<and> wf_heap {#} vm' \<and>
     getBytes env a vm' = Inr (Some out, vm') \<and> bb_native_order out \<and>
     view vm' out = Inr (take (nat (jsize t)) bs) \<and>
     (j_isBacked t \<longrightarrow> tensors vm' = tensors vm)"
proof -
  from setBytes_spec [OF assms] obtain vm' t' b buf where 1: "setBytes env a (Some bb) vm = Inr vm'"
    "t' = t\<lparr>j_handle := j_handle t', j_isBacked := True\<rparr>" "jheap vm' = (jheap vm)(a \<mapsto> JTensor t')"
    "wf_heap {#} vm'" "pending vm' = None" "backed vm' t' b buf" "b_data buf = take (nat (jsize t)) bs"
    "j_isBacked t \<longrightarrow> tensors vm' = tensors vm" by blast
  have "j_dtype t' = j_dtype t" "j_shape t' = j_shape t" "j_scalar t' = j_scalar t"
    by (subst 1(2), simp)+
  then have "regular t'" using assms(4) by (simp add: jsize_def jcount_def regular_def)
  moreover have "jheap vm' a = Some (JTensor t')" using 1(3) by simp
  ultimately show ?thesis using getBytes_backed(1) [OF 1(4,5) _ 1(6), where env = env and a = a]
      getBytes_backed(2) [OF 1(4,5) _ 1(6), where a = a] 1 by auto
qed

lemma set_get_bytes_roundtrip_witness:
  "\<exists>vm' out. setBytes demo_env 1 (Some \<lparr>bb_mem = Direct [1,2,3,4,5,6,7,8], bb_native_order = True\<rparr>) demo_tensor_vm = Inr vm' \<and>
     getBytes demo_env 1 vm' = Inr (Some out, vm') \<and> view vm' out = Inr [1,2,3,4,5,6,7,8]"
  using set_get_bytes_roundtrip [OF demo_tensor_vm _ demo_env_allocates,
      where bb = "\<lparr>bb_mem = Direct [1,2,3,4,5,6,7,8], bb_native_order = True\<rparr>" and bs = "[1,2,3,4,5,6,7,8]"]
  by (simp add: regular_def jsize_def jcount_def) blast

text \<open>
  \<open>setBytes\<close> refuses a buffer that is not direct.  A debug build throws AssertionError before
  anything happens.  A release build backs the tensor first and then throws
  IllegalArgumentException; the bytes of every native buffer stay what they were.
\<close>

theorem setBytes_not_direct:
  assumes "wf_heap {#} vm" and "pending vm = None" and "jheap vm a = Some (JTensor t)"
    and "regular t" and "allocates env" and "bb_mem bb = HeapArray bs" and "malloc_ok env"
  shows "(if debug_build env
          then setBytes env a (Some bb) vm = Inr (throw_java ''java/lang/AssertionError'' ''Assertion failed'' vm)
          else \<exists>vm'. setBytes env a (Some bb) vm = Inr vm' \<and> wf_heap {#} vm' \<and>
                 pending vm' = Some (kIllegalArgumentException, ''Input ByteBuffer is not a direct buffer'') \<and>
                 (\<exists>vm1. createBackingTensor env a vm = Inr vm1 \<and> buffers vm' = buffers vm1 \<and> tensors vm' = tensors vm1))"
proof (cases "debug_build env")
  case True
  then show ?thesis using assms(3,6) by (simp add: setBytes_def isDirect_def)
next
  case False
  have "\<exists>vm1 t1. createBackingTensor env a vm = Inr vm1 \<and> wf_heap {#} vm1 \<and> pending vm1 = None \<and>
          jheap vm1 a = Some (JTensor t1)"
  proof (cases "j_isBacked t")
    case True
    then have "createBackingTensor env a vm = Inr vm" using assms(3) by (simp add: createBackingTensor_def)
    with assms show ?thesis by blast
  next
    case False
    from createBackingTensor_spec [OF assms(1-5) this] show ?thesis by fastforce
  qed
  then obtain vm1 t1 where 1: "createBackingTensor env a vm = Inr vm1" "wf_heap {#} vm1" "pending vm1 = None"
      "jheap vm1 a = Some (JTensor t1)" by blast
  then have "setBytes env a (Some bb) vm =
      Inr (vm1\<lparr>pending := Some (kIllegalArgumentException, ''Input ByteBuffer is not a direct buffer'')\<rparr>)"
    using assms(3,6,7) False
    by (simp add: setBytes_def and_then_def Tensor_writeBytes_def ThrowException_def max_msg_len_def)
  with 1 False show ?thesis by (intro if_not_P [THEN iffD2]) auto
qed

lemma setBytes_not_direct_witness:
  "\<exists>vm'. setBytes demo_env 1 (Some \<lparr>bb_mem = HeapArray [1,2,3,4,5,6,7,8], bb_native_order = True\<rparr>) demo_tensor_vm = Inr vm' \<and>
     pending vm' = Some (kIllegalArgumentException, ''Input ByteBuffer is not a direct buffer'')"
proof -
  have "\<not> debug_build demo_env" "malloc_ok demo_env" by (simp_all add: demo_env_def)
  then show ?thesis
    using setBytes_not_direct [OF demo_tensor_vm _ demo_env_allocates,
        where bb = "\<lparr>bb_mem = HeapArray [1,2,3,4,5,6,7,8], bb_native_order = True\<rparr>"]
    by (simp add: regular_def) blast
qed

text \<open>
  The life of a tensor.  Before its first \<open>setBytes\<close> (handle 0) \<open>close\<close> does nothing and
  \<open>getBytes\<close> dereferences a null pointer; \<open>close\<close> on a backed tensor frees exactly its native tensor
  and keeps the heap well formed, but leaves the handle, so that a second \<open>close\<close> and a later
  \<open>getBytes\<close> use a dangling pointer.
\<close>

theorem tensor_lifecycle:
  assumes "wf_heap {#} vm" and "pending vm = None" and "jheap vm a = Some (JTensor t)"
    and "regular t" and "j_handle t \<noteq> 0 \<Longrightarrow> tensors vm (j_handle t) = Some nt"
  shows "if j_handle t = 0
         then tensor_close env a vm = Inr vm \<and> getBytes env a vm = Inl NullDeref
         else \<exists>vm'. tensor_close env a vm = Inr vm' \<and> wf_heap {#} vm' \<and>
                tensors vm' = (tensors vm)(j_handle t := None) \<and> jheap vm' = jheap vm \<and>
                tensor_close env a vm' = Inl DanglingPointer \<and> getBytes env a vm' = Inl DanglingPointer"
proof (cases "j_handle t = 0")
  case True
  have "jdtype_c (j_dtype t) \<in> {DT_FLOAT, DT_UINT8, DT_INT32, DT_INT64}"
    using assms(4) jdtype_c_typed by (simp add: regular_def)
  then have "getBytes env a vm = Inl NullDeref"
    using assms(2,3) True
    by (simp add: getBytes_def Tensor_readBytes_def typed_data_def flat_data_eq deref_tensor_def)
  moreover have "tensor_close env a vm = Inr vm"
    using assms(2,3) True by (simp add: tensor_close_def Tensor_delete_def delete_tensor_def)
  ultimately show ?thesis using True by simp
next
  case False
  with assms(5) have nt: "tensors vm (j_handle t) = Some nt" by auto
  from delete_tensor_spec [OF assms(1) nt] obtain vm' where d: "delete_tensor (j_handle t) vm = Inr vm'"
    "wf_heap {#} vm'" "native_frame vm vm'" "tensors vm' = (tensors vm)(j_handle t := None)" by blast
  note F = native_frameD [OF d(3)]
  have "jdtype_c (j_dtype t) \<in> {DT_FLOAT, DT_UINT8, DT_INT32, DT_INT64}"
    using assms(4) jdtype_c_typed by (simp add: regular_def)
  then have "getBytes env a vm' = Inl DanglingPointer"
    using assms(2,3) False F d
    by (simp add: getBytes_def Tensor_readBytes_def typed_data_def flat_data_eq deref_tensor_def)
  moreover have "tensor_close env a vm = Inr vm'"
    using assms(2,3) d(1) by (simp add: tensor_close_def Tensor_delete_def)
  moreover have "tensor_close env a vm' = Inl DanglingPointer"
    using assms(2,3) F d False by (simp add: tensor_close_def Tensor_delete_def delete_tensor_def deref_tensor_def)
  ultimately show ?thesis using False d F by (intro if_not_P [THEN iffD2]) auto
qed

lemma tensor_lifecycle_witness:
  "tensor_close demo_env 1 demo_tensor_vm = Inr demo_tensor_vm \<and> getBytes demo_env 1 demo_tensor_vm = Inl NullDeref"
  using tensor_lifecycle [OF demo_tensor_vm, where env = demo_env] by (simp add: regular_def)

text \<open>A string tensor that is not backed yet gets a native tensor: the constructor knows the type.\<close>

lemma createBackingTensor_string:
  assumes "pending vm = None" and "jheap vm a = Some (JTensor t)" and "j_dtype t = STRING"
    and "\<forall>d\<in>set (j_shape t). 0 \<le> sint d" and "j_scalar t \<Longrightarrow> j_shape t \<noteq> []" and "\<forall>n. alloc_buffer env DT_STRING n \<noteq> None"
  shows "\<exists>vm' t'. createBackingTensor env a vm = Inr vm' \<and> jheap vm' a = Some (JTensor t') \<and> pending vm' = None"
proof (cases "j_isBacked t")
  case True
  with assms(1,2) show ?thesis by (simp add: createBackingTensor_def)
next
  case False
  let ?vm = "vm\<lparr>pinned_arrays := pinned_arrays vm + 1\<rparr>"
  obtain dims where dims: "tensor_dims (j_scalar t) (j_shape t) = Inr dims" "\<not> (\<exists>d\<in>set dims. d < 0)"
  proof (cases "j_scalar t")
    case True
    with assms(5) obtain d ds where "j_shape t = d # ds" by (cases "j_shape t") auto
    with True assms(4) that [of "[sint d]"] show thesis by (simp add: tensor_dims_def)
  next
    case False
    with assms(4) that [of "map sint (j_shape t)"] show thesis by (auto simp: tensor_dims_def not_less)
  qed
  obtain mem where "alloc_buffer env DT_STRING (num_elements dims) = Some mem" using assms(6) by blast
  then obtain p vm1 where "new_tensor env DT_STRING dims ?vm = Inr (p, vm1)" "jheap vm1 = jheap vm" "pending vm1 = pending vm"
    using dims(2) by (cases mem) (simp_all add: new_tensor_def new_buffer_def new_tensor_object_def alloc_def)
  then have "Tensor_create env (Some a) (jdtype_c (j_dtype t)) (j_scalar t) (j_shape t) vm =
      Inr (put_tensor a (t\<lparr>j_handle := p\<rparr>) vm1)" "pending vm1 = None"
    using assms(1-3) dims(1) by (simp_all add: Tensor_create_def Let_def)
  with assms(1,2) False show ?thesis by (simp add: createBackingTensor_def and_then_def)
qed

text \<open>
  C9: a string tensor cannot be written or read.  \<open>byteSize\<close> of a string is -1 and the switch of the
  native methods has no case for it: both log and throw, and then go on with a null buffer and a
  negative size.  Unless the tensor has no elements, \<open>writeBytes\<close> copies to the null pointer and
  \<open>readBytes\<close> calls \<open>NewDirectByteBuffer\<close> outside its contract; the exception never reaches Java.
  This is so for a tensor the client has just made as for one that a session has filled.
\<close>

theorem string_tensor_crashes:
  assumes "pending vm = None" and "jheap vm a = Some (JTensor t)" and "j_dtype t = STRING" and "0 < jcount t"
    and "\<forall>d\<in>set (j_shape t). 0 \<le> sint d" and "j_scalar t \<Longrightarrow> j_shape t \<noteq> []"
    and "\<forall>n. alloc_buffer env DT_STRING n \<noteq> None" and "bb_mem bb = Direct bs" and "bb_native_order bb"
  shows "setBytes env a (Some bb) vm = Inl NullDeref \<and> getBytes env a vm = Inl JniMisuse"
proof
  have neg: "jsize t < 0" using assms(3,4) by (simp add: jsize_def)
  obtain vm' t' where "createBackingTensor env a vm = Inr vm'" "jheap vm' a = Some (JTensor t')" "pending vm' = None"
    using createBackingTensor_string [OF assms(1-3,5-7)] by blast
  with neg assms(1-3,8,9) show "setBytes env a (Some bb) vm = Inl NullDeref"
    by (simp add: setBytes_def isDirect_def and_then_def Tensor_writeBytes_def
        typed_data_def ThrowException_def log_print_def native_memcpy_def jni_call_def)
  show "getBytes env a vm = Inl JniMisuse"
    using assms neg
    by (simp add: getBytes_def Tensor_readBytes_def typed_data_def ThrowException_def log_print_def
        NewDirectByteBuffer_def jni_call_def)
qed

definition demo_string_vm :: "nat vm" where
  "demo_string_vm = snd (new_Tensor STRING [1] False (Some ''s'') empty_vm)"

lemma string_tensor_crashes_witness:
  "setBytes demo_env 1 (Some \<lparr>bb_mem = Direct [1], bb_native_order = True\<rparr>) demo_string_vm = Inl NullDeref \<and>
   getBytes demo_env 1 demo_string_vm = Inl JniMisuse"
proof (rule string_tensor_crashes)
  show "jheap demo_string_vm 1 = Some (JTensor \<lparr>j_dtype = STRING, j_shape = [1], j_name = Some ''s'',
      j_scalar = False, j_isBacked = False, j_handle = 0\<rparr>)" "pending demo_string_vm = None"
    unfolding demo_string_vm_def by (simp_all add: empty_vm_def)
  show "\<forall>n. alloc_buffer demo_env DT_STRING n \<noteq> None"
    using fromC_c [of STRING] by (simp add: demo_env_def demo_alloc_def)
qed (simp_all add: jcount_def)

end
