(* ===== verification/Bundle_Jni.thy ===== *)
theory Bundle_Jni
  imports Tensor_Jni
begin

text \<open>
  \<open>saved_model_bundle_jni.cpp\<close> and \<open>SavedModelBundle.java\<close>: loading a model, running and training
  it, exporting a checkpoint, unloading it.

  The copies of the input tensors and the tensors of the output vector are local variables of the
  native methods: \<open>hold\<close> takes their reference on the buffer and \<open>release\<close> is the destruction of the
  vectors when the method returns.  The arrays are Java arrays that are not null; their elements
  may be null.
\<close>

section \<open>Local tensors\<close>

definition hold :: "tensor \<Rightarrow> 's vm \<Rightarrow> 's vm result" where
  "hold t vm = (case t_buf t of None \<Rightarrow> Inr vm | Some b \<Rightarrow> Ref b vm)"

fun release :: "tensor list \<Rightarrow> 's vm \<Rightarrow> 's vm result" where
  "release [] vm = Inr vm"
| "release (t # ts) vm =
     bnd (case t_buf t of None \<Rightarrow> Inr vm | Some b \<Rightarrow> bnd (Unref b vm) (\<lambda>(_, vm). Inr vm)) (release ts)"

definition tensor_bytes :: "'s vm \<Rightarrow> tensor \<Rightarrow> byte list" where
  "tensor_bytes vm t =
     (case t_buf t of None \<Rightarrow> []
      | Some b \<Rightarrow> (case buffers vm b of None \<Rightarrow> [] | Some buf \<Rightarrow> b_data buf))"

definition tensor_val :: "'s vm \<Rightarrow> tensor \<Rightarrow> tval" where
  "tensor_val vm t = TBytes (t_dtype t) (t_dims t) (tensor_bytes vm t)"

section \<open>The session\<close>

definition deref_bundle :: "'s vm \<Rightarrow> addr \<Rightarrow> 's smbundle result" where
  "deref_bundle vm p =
     (if p = 0 then Inl NullDeref
      else case bundles vm p of None \<Rightarrow> Inl DanglingPointer | Some sb \<Rightarrow> Inr sb)"

definition session_Run ::
    "'s env \<Rightarrow> addr \<Rightarrow> (string \<times> tval) list \<Rightarrow> string list \<Rightarrow> string list \<Rightarrow> 's vm \<Rightarrow>
     (status \<times> tout list \<times> 's vm) result" where
  "session_Run env p inputs output_names targets vm =
     bnd (deref_bundle vm p) (\<lambda>sb.
       case session sb of None \<Rightarrow> Inl NullDeref
       | Some s \<Rightarrow>
           (case session_run env s inputs output_names targets of (status, outs, s') \<Rightarrow>
              Inr (status, outs, vm\<lparr>bundles := (bundles vm)(p \<mapsto> sb\<lparr>session := Some s'\<rparr>)\<rparr>)))"

text \<open>The tensors that \<open>Run\<close> puts in the output vector: each holds a reference on its buffer.\<close>

fun realise :: "tensor list \<Rightarrow> tout list \<Rightarrow> 's vm \<Rightarrow> (tensor list \<times> 's vm) result" where
  "realise inputs [] vm = Inr ([], vm)"
| "realise inputs (Fresh dtype dims bytes # outs) vm =
     (case new_buffer bytes vm of (b, vm) \<Rightarrow>
        bnd (realise inputs outs vm) (\<lambda>(ts, vm).
          Inr (\<lparr>t_dtype = dtype, t_dims = dims, t_buf = Some b\<rparr> # ts, vm)))"
| "realise inputs (Share i # outs) vm =
     (if i < length inputs
      then bnd (hold (inputs ! i) vm) (\<lambda>vm.
             bnd (realise inputs outs vm) (\<lambda>(ts, vm). Inr (inputs ! i # ts, vm)))
      else Inl CheckFailed)"

section \<open>The native methods\<close>

definition kSavedModelTagServe :: string where "kSavedModelTagServe = ''serve''"
definition kSavedModelTagTrain :: string where "kSavedModelTagTrain = ''train''"

definition new_bundle :: "'s vm \<Rightarrow> addr \<times> 's vm" where
  "new_bundle vm =
     (let (p, vm) = alloc vm in
      (p, vm\<lparr>bundles := (bundles vm)(p \<mapsto>
             \<lparr>session = None, filename_tensor_name = '''', save_tensor_name = ''''\<rparr>)\<rparr>))"

definition Bundle_create :: "'s env \<Rightarrow> jref \<Rightarrow> string option \<Rightarrow> string option \<Rightarrow> 's vm \<Rightarrow> 's vm result" where
  "Bundle_create env thiz dir mode vm =
     (let (saved_model_bundle, vm) = new_bundle vm in
      bnd (jstring2string env vm dir) (\<lambda>sDir.
      bnd (jstring2string env vm mode) (\<lambda>modeString.
        if modeString = ''serve'' \<or> modeString = ''train''
        then let tags = (if modeString = ''serve'' then [kSavedModelTagServe] else [kSavedModelTagTrain]);
                 (status, loaded) = load_model env sDir tags;
                 vm = vm\<lparr>bundles := (bundles vm)(saved_model_bundle \<mapsto> loaded)\<rparr>
             in if \<not> status_ok status
                then ThrowException env kIllegalArgumentException
                       ''Internal error: SavedModelBundle.create: Unable to load model.''
                       (log_print ''LoadSavedModel Status not OK'' vm)
                else setHandle env vm thiz saved_model_bundle
        else ThrowException env kIllegalArgumentException
               ''Internal error: SavedModelBundle.create: Bad mode provided.''
               (log_print (''Mode must be one of 'serve' or 'train'' @ [CHR 0x27]) vm))))"

definition Bundle_delete :: "'s env \<Rightarrow> jref \<Rightarrow> 's vm \<Rightarrow> 's vm result" where
  "Bundle_delete env thiz vm =
     bnd (getHandle env vm thiz) (\<lambda>p.
     bnd (deref_bundle vm p) (\<lambda>sb.
       case session sb of None \<Rightarrow> Inl NullDeref
       | Some s \<Rightarrow> (case session_close env s of (status, s') \<Rightarrow>
           Inr (vm\<lparr>bundles := (bundles vm)(p := None)\<rparr>))))"

fun prepare_inputs :: "'s env \<Rightarrow> jref list \<Rightarrow> 's vm \<Rightarrow> ((string \<times> tensor) list \<times> 's vm) result" where
  "prepare_inputs env [] vm = Inr ([], vm)"
| "prepare_inputs env (inputTensor # rest) vm =
     bnd (getHandle env vm inputTensor) (\<lambda>p.
     bnd (deref_tensor vm p) (\<lambda>input_tensor.
     bnd (hold input_tensor vm) (\<lambda>vm.
     bnd (GetTensorName env vm inputTensor) (\<lambda>name.
     bnd (jstring2string env vm name) (\<lambda>input_name.
     bnd (prepare_inputs env rest vm) (\<lambda>(inputs, vm).
       Inr ((input_name, input_tensor) # inputs, vm)))))))"

fun get_output_names :: "'s env \<Rightarrow> 's vm \<Rightarrow> jref list \<Rightarrow> string list result" where
  "get_output_names env vm [] = Inr []"
| "get_output_names env vm (outputTensor # rest) =
     bnd (GetTensorName env vm outputTensor) (\<lambda>name.
     bnd (jstring2string env vm name) (\<lambda>output_name.
     bnd (get_output_names env vm rest) (\<lambda>names. Inr (output_name # names))))"

fun get_training_names :: "'s env \<Rightarrow> 's vm \<Rightarrow> string option list \<Rightarrow> string list result" where
  "get_training_names env vm [] = Inr []"
| "get_training_names env vm (opName # rest) =
     bnd (jstring2string env vm opName) (\<lambda>training_name.
     bnd (get_training_names env vm rest) (\<lambda>names. Inr (training_name # names)))"

text \<open>
  The loop over \<open>outputs\<close>; an index outside the Java array gives a null element.  A handle that the
  output object had before is overwritten.
\<close>

fun set_outputs :: "'s env \<Rightarrow> jref list \<Rightarrow> tensor list \<Rightarrow> 's vm \<Rightarrow> 's vm result" where
  "set_outputs env objs [] vm = Inr vm"
| "set_outputs env [] (output # outputs) vm = Inl NullObject"
| "set_outputs env (outputTensor # objs) (output # outputs) vm =
     bnd (copy_tensor output vm) (\<lambda>(outputPtr, vm).
     bnd (setHandle env vm outputTensor outputPtr) (set_outputs env objs outputs))"

definition input_vals :: "'s vm \<Rightarrow> (string \<times> tensor) list \<Rightarrow> (string \<times> tval) list" where
  "input_vals vm = map (\<lambda>(name, t). (name, tensor_val vm t))"

definition get_outputs ::
    "'s env \<Rightarrow> jref list \<Rightarrow> tensor list \<Rightarrow> 's vm \<Rightarrow> 's vm result" where
  "get_outputs env outputTensors outputs vm =
     (if asserts_on env \<and> length outputTensors \<noteq> length outputs then Inl AssertFailed
      else set_outputs env outputTensors outputs vm)"

definition Bundle_run :: "'s env \<Rightarrow> jref \<Rightarrow> jref list \<Rightarrow> jref list \<Rightarrow> 's vm \<Rightarrow> 's vm result" where
  "Bundle_run env thiz inputTensors outputTensors vm =
     bnd (getHandle env vm thiz) (\<lambda>p.
     bnd (prepare_inputs env inputTensors vm) (\<lambda>(inputs, vm).
     bnd (get_output_names env vm outputTensors) (\<lambda>output_names.
     bnd (session_Run env p (input_vals vm inputs) output_names [] vm) (\<lambda>(status, outs, vm).
     bnd (realise (map snd inputs) outs vm) (\<lambda>(outputs, vm).
     bnd (if \<not> status_ok status
          then ThrowException env kIllegalArgumentException
                 ''Internal error: SavedModelBundle.run: Unable to run model.''
                 (log_print (error_message status) vm)
          else get_outputs env outputTensors outputs vm)
       (release (outputs @ map snd inputs)))))))"

text \<open>\<open>train\<close> goes on after a failing training step and after a failing output step.\<close>

definition report :: "'s env \<Rightarrow> status \<Rightarrow> string \<Rightarrow> 's vm \<Rightarrow> 's vm result" where
  "report env status message vm =
     (if status_ok status then Inr vm
      else ThrowException env kIllegalArgumentException message (log_print (error_message status) vm))"

definition Bundle_train ::
    "'s env \<Rightarrow> jref \<Rightarrow> jref list \<Rightarrow> jref list \<Rightarrow> string option list \<Rightarrow> 's vm \<Rightarrow> 's vm result" where
  "Bundle_train env thiz inputTensors outputTensors trainingOpNames vm =
     bnd (getHandle env vm thiz) (\<lambda>p.
     bnd (prepare_inputs env inputTensors vm) (\<lambda>(inputs, vm).
     bnd (get_output_names env vm outputTensors) (\<lambda>output_names.
     bnd (get_training_names env vm trainingOpNames) (\<lambda>training_names.
     bnd (session_Run env p (input_vals vm inputs) [] training_names vm) (\<lambda>(status, _, vm).
     bnd (report env status ''Internal error: SavedModelBundle.train: Unable to run training step.'' vm) (\<lambda>vm.
     bnd (session_Run env p (input_vals vm inputs) output_names [] vm) (\<lambda>(status, outs, vm).
     bnd (realise (map snd inputs) outs vm) (\<lambda>(outputs, vm).
     bnd (report env status ''Internal error: SavedModelBundle.train: Unable to run output step.'' vm) (\<lambda>vm.
     bnd (get_outputs env outputTensors outputs vm)
       (release (outputs @ map snd inputs)))))))))))"

definition Bundle_export :: "'s env \<Rightarrow> jref \<Rightarrow> string option \<Rightarrow> 's vm \<Rightarrow> 's vm result" where
  "Bundle_export env thiz path vm =
     bnd (getHandle env vm thiz) (\<lambda>p.
     bnd (deref_bundle vm p) (\<lambda>meta_graph_def.
     bnd (jstring2string env vm path) (\<lambda>sPath.
     bnd (session_Run env p [(filename_tensor_name meta_graph_def, TString (sPath @ ''/checkpoint''))] []
            [save_tensor_name meta_graph_def] vm) (\<lambda>(status, _, vm).
       report env status ''Internal error: SavedModelBundle.export: Unable to export model checkpoint.'' vm))))"

section \<open>The Java class\<close>

datatype mode = Serve | Train

fun mode_c :: "mode \<Rightarrow> string" where
  "mode_c Serve = ''serve''"
| "mode_c Train = ''train''"

text \<open>The constructor: an object with handle 0, then \<open>create\<close>.\<close>

definition new_SavedModelBundle :: "'s env \<Rightarrow> string \<Rightarrow> mode \<Rightarrow> 's vm \<Rightarrow> (addr \<times> 's vm) result" where
  "new_SavedModelBundle env path m vm =
     (let (a, vm) = alloc vm;
          vm = vm\<lparr>jheap := (jheap vm)(a \<mapsto> JBundle 0)\<rparr>
      in bnd (Bundle_create env (Some a) (Some path) (Some (mode_c m)) vm) (\<lambda>vm. Inr (a, vm)))"

definition bundle_close :: "'s env \<Rightarrow> addr \<Rightarrow> 's vm \<Rightarrow> 's vm result" where
  "bundle_close env a vm = Bundle_delete env (Some a) vm"

definition bundle_export :: "'s env \<Rightarrow> addr \<Rightarrow> string \<Rightarrow> 's vm \<Rightarrow> 's vm result" where
  "bundle_export env a path vm = Bundle_export env (Some a) (Some path) vm"

section \<open>What the steps keep\<close>

text \<open>
  \<open>keeps\<close>: no buffer disappears and the bytes of those that were there are the same; \<open>shrinks\<close>: no
  buffer appears and the bytes of those that are left are the same.
\<close>

definition keeps :: "'s vm \<Rightarrow> 's vm \<Rightarrow> bool" where
  "keeps vm vm' \<longleftrightarrow>
     pending vm' = pending vm \<and> log vm' = log vm \<and> bundles vm' = bundles vm \<and> brk vm \<le> brk vm' \<and>
     (\<forall>b buf. buffers vm b = Some buf \<longrightarrow> (\<exists>buf'. buffers vm' b = Some buf' \<and> b_data buf' = b_data buf))"

definition shrinks :: "'s vm \<Rightarrow> 's vm \<Rightarrow> bool" where
  "shrinks vm vm' \<longleftrightarrow>
     pending vm' = pending vm \<and> log vm' = log vm \<and> bundles vm' = bundles vm \<and> brk vm' = brk vm \<and>
     jheap vm' = jheap vm \<and> tensors vm' = tensors vm \<and>
     (\<forall>b buf'. buffers vm' b = Some buf' \<longrightarrow> (\<exists>buf. buffers vm b = Some buf \<and> b_data buf' = b_data buf))"

lemma keeps_refl [simp]: "keeps vm vm"
  by (simp add: keeps_def)

lemma keeps_trans [trans]: "keeps vm vm' \<Longrightarrow> keeps vm' vm'' \<Longrightarrow> keeps vm vm''"
  unfolding keeps_def by (metis order_trans)

lemma shrinks_refl [simp]: "shrinks vm vm"
  by (simp add: shrinks_def)

lemma shrinks_trans [trans]: "shrinks vm vm' \<Longrightarrow> shrinks vm' vm'' \<Longrightarrow> shrinks vm vm''"
  unfolding shrinks_def by metis

definition buffer_live :: "'s vm \<Rightarrow> tensor \<Rightarrow> bool" where
  "buffer_live vm t \<longleftrightarrow> (\<forall>b. t_buf t = Some b \<longrightarrow> b \<in> dom (buffers vm))"

lemma keeps_live: "keeps vm vm' \<Longrightarrow> buffer_live vm t \<Longrightarrow> buffer_live vm' t"
  unfolding keeps_def buffer_live_def by blast

lemma keeps_val: "keeps vm vm' \<Longrightarrow> buffer_live vm t \<Longrightarrow> tensor_val vm' t = tensor_val vm t"
  unfolding keeps_def buffer_live_def tensor_val_def tensor_bytes_def
  by (cases "t_buf t") (force split: option.splits)+

lemma shrinks_val: "shrinks vm vm' \<Longrightarrow> buffer_live vm' t \<Longrightarrow> tensor_val vm' t = tensor_val vm t"
  unfolding shrinks_def buffer_live_def tensor_val_def tensor_bytes_def
  by (cases "t_buf t") (force split: option.splits)+

lemma wf_buffer_live: "wf_heap H vm \<Longrightarrow> tensors vm p = Some t \<Longrightarrow> buffer_live vm t"
  using wf_live unfolding buffer_live_def by blast

text \<open>The references of a list of local tensors.\<close>

definition refs :: "tensor \<Rightarrow> addr multiset" where
  "refs t = (case t_buf t of None \<Rightarrow> {#} | Some b \<Rightarrow> {#b#})"

definition refs_list :: "tensor list \<Rightarrow> addr multiset" where
  "refs_list ts = sum_list (map refs ts)"

lemma refs_list_simps [simp]:
  "refs_list [] = {#}" "refs_list (t # ts) = refs t + refs_list ts"
  "refs_list (ts @ us) = refs_list ts + refs_list us"
  by (simp_all add: refs_list_def)

lemma wf_refs_live: "wf_heap (refs_list ts + H) vm \<Longrightarrow> t \<in> set ts \<Longrightarrow> buffer_live vm t"
proof -
  assume w: "wf_heap (refs_list ts + H) vm" and t: "t \<in> set ts"
  have "b \<in># refs_list ts" if "t_buf t = Some b" for b
    using t that by (induction ts) (auto simp: refs_def)
  then show "buffer_live vm t" using wf_held [OF w] unfolding buffer_live_def by (metis domI union_iff)
qed

lemma hold_spec:
  assumes "wf_heap H vm" and "buffer_live vm t"
  shows "\<exists>vm'. hold t vm = Inr vm' \<and> wf_heap (refs t + H) vm' \<and> keeps vm vm' \<and>
               jheap vm' = jheap vm \<and> tensors vm' = tensors vm"
proof (cases "t_buf t")
  case None
  with assms(1) show ?thesis by (simp add: hold_def refs_def)
next
  case (Some b)
  then obtain buf where buf: "buffers vm b = Some buf" using assms(2) by (auto simp: buffer_live_def)
  have "keeps vm (ref_vm b buf vm)" using buf by (auto simp: keeps_def ref_vm_def set_count_def)
  with wf_Ref [OF assms(1) buf] Some show ?thesis
    by (simp add: hold_def refs_def) (simp add: ref_vm_def set_count_def)
qed

lemma hold_live: "hold t vm = Inr vm' \<Longrightarrow> buffer_live vm t"
  by (auto simp: hold_def Ref_def buffer_live_def split: option.splits)

text \<open>Releasing what is held never fails.\<close>

lemma release_spec:
  "wf_heap (refs_list ts + H) vm \<Longrightarrow>
   \<exists>vm'. release ts vm = Inr vm' \<and> wf_heap H vm' \<and> shrinks vm vm'"
proof (induction ts arbitrary: vm)
  case Nil
  then show ?case by simp
next
  case (Cons t ts)
  show ?case
  proof (cases "t_buf t")
    case None
    with Cons show ?thesis by (simp add: refs_def)
  next
    case (Some b)
    then have w: "wf_heap (add_mset b (refs_list ts + H)) vm" using Cons.prems by (simp add: refs_def)
    obtain buf where buf: "buffers vm b = Some buf" using wf_held [OF w] by auto
    note U = wf_Unref [OF w buf]
    have "shrinks vm (unref_vm b buf vm)"
      using buf by (auto simp: shrinks_def unref_vm_def set_count_def split: if_splits)
    with Cons.IH [OF U(2)] U(1) Some show ?thesis by (auto intro: shrinks_trans)
  qed
qed

lemma new_buffer_keeps:
  "wf_heap H vm \<Longrightarrow> new_buffer bytes vm = (b, vm') \<Longrightarrow>
   keeps vm vm' \<and> jheap vm' = jheap vm \<and> tensors vm' = tensors vm \<and>
   (\<exists>buf. buffers vm' b = Some buf \<and> b_data buf = bytes)"
  using wf_fresh(2) [of H vm] by (auto simp: new_buffer_def alloc_def keeps_def)

fun out_val :: "'s vm \<Rightarrow> tensor list \<Rightarrow> tout \<Rightarrow> tval" where
  "out_val vm inputs (Fresh dtype dims bytes) = TBytes dtype dims bytes"
| "out_val vm inputs (Share i) = tensor_val vm (inputs ! i)"

fun share_ok :: "nat \<Rightarrow> tout \<Rightarrow> bool" where
  "share_ok n (Share i) \<longleftrightarrow> i < n"
| "share_ok n (Fresh _ _ _) \<longleftrightarrow> True"

lemma out_val_same:
  "\<forall>t\<in>set inputs. tensor_val vm1 t = tensor_val vm t \<Longrightarrow> share_ok (length inputs) out \<Longrightarrow>
   out_val vm1 inputs out = out_val vm inputs out"
  by (cases out) simp_all

lemma out_val_keeps:
  "keeps vm vm1 \<Longrightarrow> \<forall>t\<in>set inputs. buffer_live vm t \<Longrightarrow> share_ok (length inputs) out \<Longrightarrow>
   out_val vm1 inputs out = out_val vm inputs out"
  by (cases out) (simp_all add: keeps_val)

lemma realise_spec:
  "wf_heap H vm \<Longrightarrow> \<forall>t\<in>set inputs. buffer_live vm t \<Longrightarrow> \<forall>out\<in>set outs. share_ok (length inputs) out \<Longrightarrow>
   \<exists>ts vm'. realise inputs outs vm = Inr (ts, vm') \<and> wf_heap (refs_list ts + H) vm' \<and> keeps vm vm' \<and>
     jheap vm' = jheap vm \<and> tensors vm' = tensors vm \<and> map (tensor_val vm') ts = map (out_val vm inputs) outs"
proof (induction inputs outs vm arbitrary: H rule: realise.induct)
  case (1 inputs vm)
  then show ?case by simp
next
  case (2 inputs dtype dims bytes outs vm)
  obtain b vm1 where b: "new_buffer bytes vm = (b, vm1)" by fastforce
  note w1 = wf_new_buffer [OF 2(2) b]
  from new_buffer_keeps [OF 2(2) b] have k1: "keeps vm vm1" "jheap vm1 = jheap vm" "tensors vm1 = tensors vm"
    and data: "\<exists>buf. buffers vm1 b = Some buf \<and> b_data buf = bytes" by auto
  have "\<forall>t\<in>set inputs. buffer_live vm1 t" using 2(3) keeps_live [OF k1(1)] by blast
  with 2(1) [OF b [symmetric] w1] 2(4) obtain ts vm' where
    ts: "realise inputs outs vm1 = Inr (ts, vm')" "wf_heap (refs_list ts + add_mset b H) vm'" "keeps vm1 vm'"
      "jheap vm' = jheap vm1" "tensors vm' = tensors vm1"
      "map (tensor_val vm') ts = map (out_val vm1 inputs) outs" by auto
  let ?t = "\<lparr>t_dtype = dtype, t_dims = dims, t_buf = Some b\<rparr>"
  have "out_val vm1 inputs out = out_val vm inputs out" if "out \<in> set outs" for out
    using that 2(4) by (intro out_val_keeps [OF k1(1) 2(3)]) simp
  moreover have "tensor_val vm' ?t = TBytes dtype dims bytes"
    using data ts(3) unfolding keeps_def tensor_val_def tensor_bytes_def by fastforce
  ultimately show ?case
    using b ts k1 keeps_trans [OF k1(1) ts(3)] by (auto simp: refs_def)
next
  case (3 inputs i outs vm)
  then have i: "i < length inputs" by simp
  then have "buffer_live vm (inputs ! i)" using 3(3) by simp
  from hold_spec [OF 3(2) this] obtain vm1 where h: "hold (inputs ! i) vm = Inr vm1"
    "wf_heap (refs (inputs ! i) + H) vm1" "keeps vm vm1" "jheap vm1 = jheap vm" "tensors vm1 = tensors vm" by blast
  have live1: "\<forall>t\<in>set inputs. buffer_live vm1 t" using 3(3) keeps_live [OF h(3)] by blast
  with 3(1) [OF i h(1,2)] 3(4) obtain ts vm' where
    ts: "realise inputs outs vm1 = Inr (ts, vm')" "wf_heap (refs_list ts + (refs (inputs ! i) + H)) vm'" "keeps vm1 vm'"
      "jheap vm' = jheap vm1" "tensors vm' = tensors vm1"
      "map (tensor_val vm') ts = map (out_val vm1 inputs) outs" by auto
  have "out_val vm1 inputs out = out_val vm inputs out" if "out \<in> set outs" for out
    using that 3(4) by (intro out_val_keeps [OF h(3) 3(3)]) simp
  moreover have "tensor_val vm' (inputs ! i) = tensor_val vm (inputs ! i)"
    using keeps_val [OF keeps_trans [OF h(3) ts(3)]] 3(3) i by simp
  ultimately show ?case
    using i h(1,4,5) ts(1,2,4,5,6) keeps_trans [OF h(3) ts(3)]
    by (intro exI [of _ "inputs ! i # ts"] exI [of _ vm']) (simp add: ac_simps)
qed

section \<open>Inputs and outputs of a disciplined client\<close>

text \<open>
  An input is usable when it is a named Tensor whose handle points to a live native tensor; an
  output has to be a named Tensor, backed or not.
\<close>

definition cstring :: "string \<Rightarrow> string" where
  "cstring chars = takeWhile (\<lambda>c. c \<noteq> CHR 0x00) chars"

definition named_tensor :: "'s vm \<Rightarrow> jref \<Rightarrow> (string \<times> jtensor) option" where
  "named_tensor vm obj =
     Option.bind obj (\<lambda>a. case jheap vm a of
         Some (JTensor t) \<Rightarrow> map_option (\<lambda>n. (cstring n, t)) (j_name t) | _ \<Rightarrow> None)"

definition usable_input :: "'s vm \<Rightarrow> jref \<Rightarrow> (string \<times> tensor) option" where
  "usable_input vm obj =
     Option.bind (named_tensor vm obj) (\<lambda>(n, t). map_option (Pair n) (tensors vm (j_handle t)))"

lemma named_tensor_Some:
  "named_tensor vm obj = Some (n, t) \<longleftrightarrow>
   (\<exists>a name. obj = Some a \<and> jheap vm a = Some (JTensor t) \<and> j_name t = Some name \<and> n = cstring name)"
  by (auto simp: named_tensor_def split: option.splits jobject.splits Option.bind_splits)

lemma usable_input_Some:
  "usable_input vm obj = Some (n, nt) \<longleftrightarrow>
   (\<exists>t. named_tensor vm obj = Some (n, t) \<and> tensors vm (j_handle t) = Some nt)"
  by (auto simp: usable_input_def split: Option.bind_splits)

lemma named_tensor_cong: "jheap vm' = jheap vm \<Longrightarrow> named_tensor vm' = named_tensor vm"
  by (simp add: named_tensor_def fun_eq_iff)

lemma usable_input_cong:
  "jheap vm' = jheap vm \<Longrightarrow> tensors vm' = tensors vm \<Longrightarrow> usable_input vm' = usable_input vm"
  by (simp add: usable_input_def named_tensor_cong [of vm' vm] fun_eq_iff)

lemma jni_name:
  assumes "pending vm = None" and "named_tensor vm obj = Some (n, t)"
  shows "\<exists>name. GetTensorName env vm obj = Inr (Some name) \<and> jstring2string env vm' (Some name) =
           bnd (jni_call env vm') (\<lambda>_. Inr n)" "getHandle env vm obj = Inr (j_handle t)"
  using assms
  by (auto simp: named_tensor_Some GetTensorName_def jstring2string_def cstring_def getHandle_def getHandleField_def)

lemma prepare_inputs_spec:
  "wf_heap H vm \<Longrightarrow> pending vm = None \<Longrightarrow> map (usable_input vm) objs = map Some ins \<Longrightarrow>
   \<exists>vm'. prepare_inputs env objs vm = Inr (ins, vm') \<and> wf_heap (refs_list (map snd ins) + H) vm' \<and> keeps vm vm' \<and>
         jheap vm' = jheap vm \<and> tensors vm' = tensors vm"
proof (induction objs arbitrary: vm H ins)
  case Nil
  then show ?case by simp
next
  case (Cons obj objs)
  then obtain n nt ins' where ins: "ins = (n, nt) # ins'" "usable_input vm obj = Some (n, nt)"
    "map (usable_input vm) objs = map Some ins'" by (cases ins) auto
  then obtain t where t: "named_tensor vm obj = Some (n, t)" "tensors vm (j_handle t) = Some nt"
    by (auto simp: usable_input_Some)
  have deref: "deref_tensor vm (j_handle t) = Inr nt"
    using boundedD [OF wf_heapD(3) [OF Cons.prems(1)] t(2)] t(2) by (simp add: deref_tensor_def)
  obtain vm1 where h: "hold nt vm = Inr vm1" "wf_heap (refs nt + H) vm1" "keeps vm vm1"
    "jheap vm1 = jheap vm" "tensors vm1 = tensors vm"
    using hold_spec [OF Cons.prems(1) wf_buffer_live [OF Cons.prems(1) t(2)]] by blast
  have p1: "pending vm1 = None" using h(3) Cons.prems(2) by (simp add: keeps_def)
  have "named_tensor vm1 obj = Some (n, t)" using t(1) named_tensor_cong [OF h(4)] by simp
  then obtain name where name: "GetTensorName env vm1 obj = Inr (Some name)" "jstring2string env vm1 (Some name) = Inr n"
    using jni_name(1) [OF p1, of obj n t env vm1] p1 by auto
  have "map (usable_input vm1) objs = map Some ins'" using ins(3) usable_input_cong [OF h(4,5)] by simp
  from Cons.IH [OF h(2) p1 this] obtain vm' where
    "prepare_inputs env objs vm1 = Inr (ins', vm')" "wf_heap (refs_list (map snd ins') + (refs nt + H)) vm'"
    "keeps vm1 vm'" "jheap vm' = jheap vm1" "tensors vm' = tensors vm1" by blast
  moreover from this have "prepare_inputs env (obj # objs) vm = Inr (ins, vm')"
    using jni_name(2) [OF Cons.prems(2) t(1)] deref h(1) name ins(1) by simp
  ultimately show ?case
    using h(4,5) ins(1) keeps_trans [OF h(3)] by (intro exI [of _ vm']) (simp add: ac_simps)
qed

lemma get_output_names_spec:
  "pending vm = None \<Longrightarrow> map (named_tensor vm) objs = map Some outs \<Longrightarrow>
   get_output_names env vm objs = Inr (map fst outs)"
proof (induction objs arbitrary: outs)
  case Nil
  then show ?case by simp
next
  case (Cons obj objs)
  then obtain n t outs' where o: "outs = (n, t) # outs'" "named_tensor vm obj = Some (n, t)"
    "map (named_tensor vm) objs = map Some outs'" by (cases outs) auto
  obtain name where "GetTensorName env vm obj = Inr (Some name)" "jstring2string env vm (Some name) = Inr n"
    using jni_name(1) [OF Cons.prems(1) o(2), of env vm] Cons.prems(1) by auto
  with Cons.IH [OF Cons.prems(1) o(3)] o(1) show ?case by simp
qed

lemma get_training_names_spec:
  "pending vm = None \<Longrightarrow> get_training_names env vm (map Some ops) = Inr (map cstring ops)"
  by (induction ops) (simp_all add: jstring2string_def cstring_def)

text \<open>\<open>stored vm vm' a nt\<close>: the object at \<open>a\<close> got a new handle, a fresh native tensor with value \<open>nt\<close>.\<close>

definition stored :: "'s vm \<Rightarrow> 's vm \<Rightarrow> addr \<Rightarrow> tensor \<Rightarrow> bool" where
  "stored vm vm' a nt \<longleftrightarrow>
     (\<exists>t h. jheap vm a = Some (JTensor t) \<and> jheap vm' a = Some (JTensor (t\<lparr>j_handle := h\<rparr>)) \<and>
            tensors vm h = None \<and> tensors vm' h = Some nt)"

lemma set_outputs_spec:
  "wf_heap H vm \<Longrightarrow> pending vm = None \<Longrightarrow> distinct oas \<Longrightarrow> length oas = length ts \<Longrightarrow>
   \<forall>a\<in>set oas. \<exists>t. jheap vm a = Some (JTensor t) \<Longrightarrow> \<forall>t\<in>set ts. buffer_live vm t \<Longrightarrow>
   \<exists>vm'. set_outputs env (map Some oas) ts vm = Inr vm' \<and> wf_heap H vm' \<and> keeps vm vm' \<and>
     (\<forall>p. tensors vm p \<noteq> None \<longrightarrow> tensors vm' p = tensors vm p) \<and>
     (\<forall>a. a \<notin> set oas \<longrightarrow> jheap vm' a = jheap vm a) \<and> list_all2 (stored vm vm') oas ts"
proof (induction ts arbitrary: vm oas)
  case Nil
  then show ?case by simp
next
  case (Cons nt ts)
  then obtain a as where as: "oas = a # as" "length as = length ts" by (cases oas) auto
  obtain t where t: "jheap vm a = Some (JTensor t)" using Cons.prems(5) as by auto
  have "buffer_live vm nt" using Cons.prems(6) by simp
  then obtain vm1 where c: "copy_tensor nt vm = Inr (brk vm, vm1)" "wf_heap H vm1" "native_frame vm vm1"
    "tensors vm1 = (tensors vm)(brk vm \<mapsto> nt)" "dom (buffers vm1) = dom (buffers vm)"
    using copy_tensor_spec [OF Cons.prems(1), of nt] unfolding buffer_live_def by blast
  note F = native_frameD [OF c(3)]
  let ?t = "t\<lparr>j_handle := brk vm\<rparr>"
  let ?vm = "put_tensor a ?t vm1"
  have fresh: "tensors vm (brk vm) = None" using wf_fresh(1) [OF Cons.prems(1)] .
  have k: "keeps vm ?vm"
    unfolding keeps_def
  proof (intro conjI allI impI)
    fix b buf
    assume b: "buffers vm b = Some buf"
    then obtain buf' where "buffers vm1 b = Some buf'" using c(5) by blast
    with F(7) [OF b this] show "\<exists>buf'. buffers ?vm b = Some buf' \<and> b_data buf' = b_data buf" by simp
  qed (use F in simp_all)
  have "\<exists>vm'. set_outputs env (map Some as) ts ?vm = Inr vm' \<and> wf_heap H vm' \<and> keeps ?vm vm' \<and>
     (\<forall>p. tensors ?vm p \<noteq> None \<longrightarrow> tensors vm' p = tensors ?vm p) \<and>
     (\<forall>a. a \<notin> set as \<longrightarrow> jheap vm' a = jheap ?vm a) \<and> list_all2 (stored ?vm vm') as ts"
  proof (rule Cons.IH)
    show "wf_heap H ?vm" by (rule wf_put_tensor [OF c(2)]) (use F t in simp)
    show "\<forall>a\<in>set as. \<exists>t. jheap ?vm a = Some (JTensor t)" using Cons.prems(5) F(1) as by auto
    show "\<forall>t\<in>set ts. buffer_live ?vm t" using Cons.prems(6) keeps_live [OF k] by auto
  qed (use Cons.prems as F in auto)
  then obtain vm' where vm': "set_outputs env (map Some as) ts ?vm = Inr vm'" "wf_heap H vm'" "keeps ?vm vm'"
     "\<And>p. tensors ?vm p \<noteq> None \<Longrightarrow> tensors vm' p = tensors ?vm p"
     "\<And>a. a \<notin> set as \<Longrightarrow> jheap vm' a = jheap ?vm a" "list_all2 (stored ?vm vm') as ts" by blast
  have anotin: "a \<notin> set as" using Cons.prems(3) as by simp
  have "jheap vm' a = Some (JTensor ?t)" using vm'(5) anotin by simp
  moreover have "tensors vm' (brk vm) = Some nt" using vm'(4) [of "brk vm"] c(4) by simp
  ultimately have "stored vm vm' a nt" using t fresh unfolding stored_def by blast
  moreover have "stored vm vm' c u" if "stored ?vm vm' c u" "c \<in> set as" for c u
    using that anotin F(1) c(4) unfolding stored_def by (cases "c = a") (auto split: if_splits)
  then have "list_all2 (stored vm vm') as ts"
    using vm'(6) unfolding list_all2_conv_all_nth by simp
  ultimately have "list_all2 (stored vm vm') oas (nt # ts)" using as by simp
  moreover have "tensors vm' p = tensors vm p" if "tensors vm p \<noteq> None" for p
    using that vm'(4) [of p] c(4) fresh by (cases "p = brk vm") auto
  moreover have "jheap vm' b = jheap vm b" if "b \<notin> set oas" for b
    using that vm'(5) [of b] F(1) as by auto
  moreover have "set_outputs env (map Some oas) (nt # ts) vm = Inr vm'"
    using vm'(1) c(1) as t F Cons.prems(2) by simp
  ultimately show ?case using vm'(2) keeps_trans [OF k vm'(3)] by blast
qed

section \<open>Steps of the session\<close>

definition put_bundle :: "addr \<Rightarrow> 's smbundle \<Rightarrow> 's vm \<Rightarrow> 's vm" where
  "put_bundle p sb vm = vm\<lparr>bundles := (bundles vm)(p \<mapsto> sb)\<rparr>"

lemma put_bundle_simps [simp]:
  "jheap (put_bundle p sb vm) = jheap vm" "tensors (put_bundle p sb vm) = tensors vm"
  "buffers (put_bundle p sb vm) = buffers vm" "bundles (put_bundle p sb vm) = (bundles vm)(p \<mapsto> sb)"
  "brk (put_bundle p sb vm) = brk vm" "pending (put_bundle p sb vm) = pending vm" "log (put_bundle p sb vm) = log vm"
  by (simp_all add: put_bundle_def)

lemma tensor_val_cong: "buffers vm' = buffers vm \<Longrightarrow> tensor_val vm' t = tensor_val vm t"
  by (cases "t_buf t") (simp_all add: tensor_val_def tensor_bytes_def)

lemma out_val_cong: "buffers vm' = buffers vm \<Longrightarrow> out_val vm' ins out = out_val vm ins out"
  by (cases out) (auto intro: tensor_val_cong)

lemma wf_put_bundle:
  "wf_heap H vm \<Longrightarrow> 0 < p \<Longrightarrow> p < brk vm \<Longrightarrow> wf_heap H (put_bundle p sb vm)"
  by (simp add: wf_heap_def put_bundle_def)

lemma session_Run_spec:
  assumes "wf_heap H vm" and "bundles vm p = Some sb" and "session sb = Some s"
    and "session_run env s inputs names targets = (status, outs, s')"
  shows "session_Run env p inputs names targets vm = Inr (status, outs, put_bundle p (sb\<lparr>session := Some s'\<rparr>) vm)"
    "wf_heap H (put_bundle p (sb\<lparr>session := Some s'\<rparr>) vm)"
proof -
  have "0 < p" "p < brk vm" using boundedD [OF wf_heapD(5) [OF assms(1)] assms(2)] by auto
  then show "session_Run env p inputs names targets vm = Inr (status, outs, put_bundle p (sb\<lparr>session := Some s'\<rparr>) vm)"
    and "wf_heap H (put_bundle p (sb\<lparr>session := Some s'\<rparr>) vm)"
    using assms by (simp_all add: session_Run_def deref_bundle_def put_bundle_def [symmetric] wf_put_bundle)
qed

lemma input_vals_keeps:
  assumes "wf_heap H vm" and "keeps vm vm'" and "map (usable_input vm) objs = map Some ins"
  shows "input_vals vm' ins = input_vals vm ins" "\<forall>t\<in>set (map snd ins). buffer_live vm t"
proof -
  have live: "buffer_live vm nt" if "(n, nt) \<in> set ins" for n nt
  proof -
    have "Some (n, nt) \<in> set (map (usable_input vm) objs)" using that assms(3) by simp
    then obtain obj where "usable_input vm obj = Some (n, nt)" by auto
    then show ?thesis using wf_buffer_live [OF assms(1)] by (auto simp: usable_input_Some)
  qed
  then show "\<forall>t\<in>set (map snd ins). buffer_live vm t" by auto
  show "input_vals vm' ins = input_vals vm ins"
    using live keeps_val [OF assms(2)] by (auto simp: input_vals_def)
qed

text \<open>Handing over the outputs and returning.\<close>

lemma deliver_outputs:
  assumes wf: "wf_heap (refs_list (ts @ ins)) vm" and "pending vm = None" and "distinct oas"
    and len: "length oas = length ts" and "\<forall>a\<in>set oas. \<exists>t. jheap vm a = Some (JTensor t)"
  shows "\<exists>vm'. bnd (get_outputs env (map Some oas) ts vm) (release (ts @ ins)) = Inr vm' \<and>
     wf_heap {#} vm' \<and> pending vm' = None \<and> log vm' = log vm \<and> bundles vm' = bundles vm \<and>
     list_all2 (stored vm vm') oas ts \<and> map (tensor_val vm') ts = map (tensor_val vm) ts \<and>
     (\<forall>p t. tensors vm p = Some t \<longrightarrow> tensors vm' p = Some t \<and> tensor_val vm' t = tensor_val vm t) \<and>
     (\<forall>a. a \<notin> set oas \<longrightarrow> jheap vm' a = jheap vm a)"
proof -
  have wf0: "wf_heap (refs_list (ts @ ins) + {#}) vm" using wf by simp
  have live: "\<forall>t\<in>set ts. buffer_live vm t" using wf_refs_live [OF wf0] by simp
  from set_outputs_spec [OF wf0 assms(2,3) len assms(5) live] obtain vm1 where
    1: "set_outputs env (map Some oas) ts vm = Inr vm1" "wf_heap (refs_list (ts @ ins) + {#}) vm1" "keeps vm vm1"
     "\<forall>p. tensors vm p \<noteq> None \<longrightarrow> tensors vm1 p = tensors vm p" "\<forall>a. a \<notin> set oas \<longrightarrow> jheap vm1 a = jheap vm a"
     "list_all2 (stored vm vm1) oas ts" by blast
  from release_spec [OF 1(2)] obtain vm2 where
    2: "release (ts @ ins) vm1 = Inr vm2" "wf_heap {#} vm2" "shrinks vm1 vm2" by blast
  then have same: "tensors vm2 = tensors vm1" "jheap vm2 = jheap vm1" by (simp_all add: shrinks_def)
  then have "stored vm vm2 = stored vm vm1" by (simp add: stored_def fun_eq_iff)
  then have st: "list_all2 (stored vm vm2) oas ts" using 1(6) by simp
  have "tensor_val vm2 t = tensor_val vm t" if "t \<in> set ts" for t
  proof -
    obtain i where "i < length ts" "ts ! i = t" using \<open>t \<in> set ts\<close> by (auto simp: in_set_conv_nth)
    then have "stored vm vm2 (oas ! i) t" using st by (auto simp: list_all2_conv_all_nth)
    then have "buffer_live vm2 t" using wf_buffer_live [OF 2(2)] unfolding stored_def by blast
    then show ?thesis using shrinks_val [OF 2(3)] keeps_val [OF 1(3)] live that by simp
  qed
  moreover have "tensors vm2 p = Some t \<and> tensor_val vm2 t = tensor_val vm t" if "tensors vm p = Some t" for p t
  proof -
    have "tensors vm2 p = Some t" using that 1(4) same by simp
    moreover from this have "buffer_live vm2 t" by (rule wf_buffer_live [OF 2(2)])
    ultimately show ?thesis
      using shrinks_val [OF 2(3)] keeps_val [OF 1(3) wf_buffer_live [OF wf that]] by simp
  qed
  moreover have "get_outputs env (map Some oas) ts vm = Inr vm1" using 1(1) len by (simp add: get_outputs_def)
  ultimately show ?thesis using 1 2 st same assms(2) by (auto simp: keeps_def shrinks_def)
qed

text \<open>
  What a disciplined client has when it calls \<open>run\<close> or \<open>train\<close>: no exception pending, a loaded bundle,
  usable inputs (\<open>ins\<close> lists their names and native tensors) and distinct named output objects.
\<close>

definition ready ::
    "'s vm \<Rightarrow> addr \<Rightarrow> addr \<Rightarrow> 's smbundle \<Rightarrow> 's \<Rightarrow> jref list \<Rightarrow> (string \<times> tensor) list \<Rightarrow> addr list \<Rightarrow>
     (string \<times> jtensor) list \<Rightarrow> bool" where
  "ready vm a p sb s inputs ins oas onames \<longleftrightarrow>
     wf_heap {#} vm \<and> pending vm = None \<and> jheap vm a = Some (JBundle p) \<and> bundles vm p = Some sb \<and>
     session sb = Some s \<and> map (usable_input vm) inputs = map Some ins \<and>
     map (\<lambda>a. named_tensor vm (Some a)) oas = map Some onames \<and> distinct oas"

lemma readyD:
  assumes "ready vm a p sb s inputs ins oas onames"
  shows "wf_heap {#} vm" "pending vm = None" "jheap vm a = Some (JBundle p)" "bundles vm p = Some sb"
    "session sb = Some s" "map (usable_input vm) inputs = map Some ins"
    "map (named_tensor vm) (map Some oas) = map Some onames" "distinct oas"
  using assms by (simp_all add: ready_def o_def)

lemma ready_outputs:
  assumes "ready vm a p sb s inputs ins oas onames"
  shows "\<forall>a\<in>set oas. \<exists>t. jheap vm a = Some (JTensor t)"
proof
  fix b
  assume "b \<in> set oas"
  then have "named_tensor vm (Some b) \<in> set (map (named_tensor vm) (map Some oas))" by simp
  then have "named_tensor vm (Some b) \<in> Some ` set onames" unfolding readyD(7) [OF assms] by simp
  then obtain n t where "named_tensor vm (Some b) = Some (n, t)" by auto
  then show "\<exists>t. jheap vm b = Some (JTensor t)" by (auto simp: named_tensor_Some)
qed

lemma getHandle_bundle [simp]:
  "pending vm = None \<Longrightarrow> jheap vm a = Some (JBundle p) \<Longrightarrow> getHandle env vm (Some a) = Inr p"
  by (simp add: getHandle_def getHandleField_def)

text \<open>The part before the first run, shared by \<open>run\<close> and \<open>train\<close>.\<close>

lemma ready_prepare:
  assumes "ready vm a p sb s inputs ins oas onames"
  shows "\<exists>vm1. getHandle env vm (Some a) = Inr p \<and> prepare_inputs env inputs vm = Inr (ins, vm1) \<and>
     get_output_names env vm1 (map Some oas) = Inr (map fst onames) \<and> input_vals vm1 ins = input_vals vm ins \<and>
     wf_heap (refs_list (map snd ins)) vm1 \<and> keeps vm vm1 \<and> jheap vm1 = jheap vm \<and> tensors vm1 = tensors vm \<and>
     (\<forall>t\<in>set (map snd ins). buffer_live vm t)"
proof -
  note R = readyD [OF assms]
  from prepare_inputs_spec [OF R(1,2,6)] obtain vm1 where
    1: "prepare_inputs env inputs vm = Inr (ins, vm1)" "wf_heap (refs_list (map snd ins) + {#}) vm1" "keeps vm vm1"
      "jheap vm1 = jheap vm" "tensors vm1 = tensors vm" by blast
  have "pending vm1 = None" using 1(3) R(2) by (simp add: keeps_def)
  then have "get_output_names env vm1 (map Some oas) = Inr (map fst onames)"
    using get_output_names_spec [of vm1 "map Some oas" onames env] R(7) named_tensor_cong [OF 1(4)] by simp
  then show ?thesis using 1 R(2,3) input_vals_keeps [OF R(1) 1(3) R(6)] by auto
qed

text \<open>What a run makes of the outputs: they are realised, and the session has its new state.\<close>

lemma session_outputs:
  assumes wf: "wf_heap (refs_list ins) vm" and b: "bundles vm p = Some sb" "session sb = Some s"
    and run: "session_run env s vals names targets = (status, outs, s')"
    and share: "\<forall>out\<in>set outs. share_ok (length ins) out"
  shows "\<exists>ts vm'. session_Run env p vals names targets vm = Inr (status, outs, put_bundle p (sb\<lparr>session := Some s'\<rparr>) vm) \<and>
     realise ins outs (put_bundle p (sb\<lparr>session := Some s'\<rparr>) vm) = Inr (ts, vm') \<and>
     wf_heap (refs_list (ts @ ins)) vm' \<and> pending vm' = pending vm \<and> log vm' = log vm \<and>
     bundles vm' = (bundles vm)(p \<mapsto> sb\<lparr>session := Some s'\<rparr>) \<and> jheap vm' = jheap vm \<and> tensors vm' = tensors vm \<and>
     map (tensor_val vm') ts = map (out_val vm ins) outs \<and> length ts = length outs \<and>
     (\<forall>t. buffer_live vm t \<longrightarrow> tensor_val vm' t = tensor_val vm t)"
proof -
  let ?vm = "put_bundle p (sb\<lparr>session := Some s'\<rparr>) vm"
  note S = session_Run_spec [OF wf b run]
  have wf0: "wf_heap (refs_list ins + {#}) ?vm" using S(2) by simp
  have live: "\<forall>t\<in>set ins. buffer_live ?vm t" using wf_refs_live [OF wf0] by blast
  obtain ts vm' where r: "realise ins outs ?vm = Inr (ts, vm')" "wf_heap (refs_list ts + refs_list ins) vm'"
    "keeps ?vm vm'" "jheap vm' = jheap ?vm" "tensors vm' = tensors ?vm"
    "map (tensor_val vm') ts = map (out_val ?vm ins) outs"
    using realise_spec [OF S(2) live share] by blast
  have "map (out_val ?vm ins) outs = map (out_val vm ins) outs" using out_val_cong [of ?vm vm] by simp
  moreover have "length ts = length outs" using r(6) by (metis length_map)
  moreover have "tensor_val vm' t = tensor_val vm t" if "buffer_live vm t" for t
    using keeps_val [OF r(3), of t] that tensor_val_cong [of ?vm vm t] by (simp add: buffer_live_def)
  ultimately show ?thesis using S r by (auto simp: keeps_def)
qed

text \<open>The output step, in a state that still shows the client's objects and values.\<close>

definition same_view :: "'s vm \<Rightarrow> 's vm \<Rightarrow> bool" where
  "same_view vm vm1 \<longleftrightarrow>
     pending vm1 = pending vm \<and> log vm1 = log vm \<and> jheap vm1 = jheap vm \<and> tensors vm1 = tensors vm \<and>
     (\<forall>t. buffer_live vm t \<longrightarrow> buffer_live vm1 t \<and> tensor_val vm1 t = tensor_val vm t)"

lemma keeps_same_view: "keeps vm vm1 \<Longrightarrow> jheap vm1 = jheap vm \<Longrightarrow> tensors vm1 = tensors vm \<Longrightarrow> same_view vm vm1"
  by (auto simp: same_view_def keeps_val keeps_live) (simp_all add: keeps_def)

lemma same_view_put_bundle: "same_view vm vm1 \<Longrightarrow> same_view vm (put_bundle p sb vm1)"
  using tensor_val_cong [of "put_bundle p sb vm1" vm1] by (auto simp: same_view_def buffer_live_def)

lemma output_step:
  assumes ready: "ready vm a p sb0 s0 inputs ins oas onames" and sh: "same_view vm vm1"
    and wf: "wf_heap (refs_list (map snd ins)) vm1" and live: "\<forall>t\<in>set (map snd ins). buffer_live vm t"
    and b: "bundles vm1 p = Some sb" "session sb = Some s"
    and run: "session_run env s vals names targets = (status, outs, s')"
    and len: "length outs = length oas" and share: "\<forall>out\<in>set outs. share_ok (length ins) out"
  shows "\<exists>ts vm2 vm'. session_Run env p vals names targets vm1 = Inr (status, outs, put_bundle p (sb\<lparr>session := Some s'\<rparr>) vm1) \<and>
     realise (map snd ins) outs (put_bundle p (sb\<lparr>session := Some s'\<rparr>) vm1) = Inr (ts, vm2) \<and>
     bnd (get_outputs env (map Some oas) ts vm2) (release (ts @ map snd ins)) = Inr vm' \<and> wf_heap {#} vm' \<and>
     pending vm' = None \<and> log vm' = log vm \<and> bundles vm' = (bundles vm1)(p \<mapsto> sb\<lparr>session := Some s'\<rparr>) \<and>
     list_all2 (stored vm vm') oas ts \<and> map (tensor_val vm') ts = map (out_val vm (map snd ins)) outs \<and>
     (\<forall>q t. tensors vm q = Some t \<longrightarrow> tensors vm' q = Some t \<and> tensor_val vm' t = tensor_val vm t) \<and>
     (\<forall>b. b \<notin> set oas \<longrightarrow> jheap vm' b = jheap vm b)"
proof -
  note R = readyD [OF ready]
  have S: "pending vm1 = None" "log vm1 = log vm" "jheap vm1 = jheap vm" "tensors vm1 = tensors vm"
    "\<And>t. buffer_live vm t \<Longrightarrow> buffer_live vm1 t \<and> tensor_val vm1 t = tensor_val vm t"
    using sh R(2) by (simp_all add: same_view_def)
  have share': "\<forall>out\<in>set outs. share_ok (length (map snd ins)) out" using share by simp
  from session_outputs [OF wf b run share', unfolded S(1-4)] obtain ts vm2 where
    2: "session_Run env p vals names targets vm1 = Inr (status, outs, put_bundle p (sb\<lparr>session := Some s'\<rparr>) vm1)"
     "realise (map snd ins) outs (put_bundle p (sb\<lparr>session := Some s'\<rparr>) vm1) = Inr (ts, vm2)"
     "wf_heap (refs_list (ts @ map snd ins)) vm2" "pending vm2 = None" "log vm2 = log vm"
     "bundles vm2 = (bundles vm1)(p \<mapsto> sb\<lparr>session := Some s'\<rparr>)" "jheap vm2 = jheap vm" "tensors vm2 = tensors vm"
     "map (tensor_val vm2) ts = map (out_val vm1 (map snd ins)) outs" "length ts = length outs"
     "\<forall>t. buffer_live vm1 t \<longrightarrow> tensor_val vm2 t = tensor_val vm1 t" by blast
  have obj: "\<forall>a\<in>set oas. \<exists>t. jheap vm2 a = Some (JTensor t)" using ready_outputs [OF ready] 2(7) by simp
  have "length oas = length ts" using len 2(10) by simp
  from deliver_outputs [OF 2(3,4) R(8) this obj, of env] obtain vm3 where
    3: "bnd (get_outputs env (map Some oas) ts vm2) (release (ts @ map snd ins)) = Inr vm3"
     "wf_heap {#} vm3" "pending vm3 = None" "log vm3 = log vm2" "bundles vm3 = bundles vm2"
     "list_all2 (stored vm2 vm3) oas ts" "map (tensor_val vm3) ts = map (tensor_val vm2) ts"
     "\<forall>p t. tensors vm2 p = Some t \<longrightarrow> tensors vm3 p = Some t \<and> tensor_val vm3 t = tensor_val vm2 t"
     "\<forall>a. a \<notin> set oas \<longrightarrow> jheap vm3 a = jheap vm2 a" by blast
  have "\<forall>t\<in>set (map snd ins). tensor_val vm1 t = tensor_val vm t" using live S(5) by blast
  then have "out_val vm1 (map snd ins) out = out_val vm (map snd ins) out" if "out \<in> set outs" for out
    using that share' by (intro out_val_same) blast+
  then have vals: "map (tensor_val vm3) ts = map (out_val vm (map snd ins)) outs"
    unfolding 3(7) 2(9) by simp
  have "tensor_val vm3 t = tensor_val vm t" if "tensors vm q = Some t" for q t
    using that 3(8) 2(8,11) S(5) wf_buffer_live [OF R(1) that] by metis
  moreover have "stored vm2 vm3 = stored vm vm3" using 2(7,8) by (simp add: stored_def fun_eq_iff)
  moreover have "\<forall>q t. tensors vm q = Some t \<longrightarrow> tensors vm3 q = Some t" using 3(8) 2(8) by metis
  ultimately show ?thesis
    using 2(1,2,5,6,7) 3(1-6,9) vals by (intro exI [of _ ts] exI [of _ vm2] exI [of _ vm3]) simp
qed

section \<open>What a run leaves behind\<close>

text \<open>
  \<open>delivered\<close>: the outputs have been handed over and nothing else has changed; \<open>rejected\<close>: an error has
  been reported and nothing else has changed.
\<close>

definition delivered :: "'s vm \<Rightarrow> 's vm \<Rightarrow> tensor list \<Rightarrow> addr list \<Rightarrow> tout list \<Rightarrow> bool" where
  "delivered vm vm' ts oas outs \<longleftrightarrow> wf_heap {#} vm' \<and> pending vm' = None \<and> log vm' = log vm \<and>
     (\<exists>nts. list_all2 (stored vm vm') oas nts \<and> map (tensor_val vm') nts = map (out_val vm ts) outs) \<and>
     (\<forall>q t. tensors vm q = Some t \<longrightarrow> tensors vm' q = Some t \<and> tensor_val vm' t = tensor_val vm t) \<and>
     (\<forall>b. b \<notin> set oas \<longrightarrow> jheap vm' b = jheap vm b)"

definition rejected :: "'s vm \<Rightarrow> 's vm \<Rightarrow> string \<Rightarrow> bool" where
  "rejected vm vm' msg \<longleftrightarrow> wf_heap {#} vm' \<and>
     pending vm' = Some (kIllegalArgumentException, ''Internal error: SavedModelBundle.run: Unable to run model.'') \<and>
     log vm' = log vm @ [msg] \<and> jheap vm' = jheap vm \<and> tensors vm' = tensors vm \<and>
     (\<forall>q t. tensors vm q = Some t \<longrightarrow> tensor_val vm' t = tensor_val vm t)"

lemma run_delivers:
  assumes "ready vm a p sb s inputs ins oas onames"
    and "session_run env s (input_vals vm ins) (map fst onames) [] = (StatusOK, outs, s')"
    and "length outs = length oas" and "\<forall>out\<in>set outs. share_ok (length ins) out"
  shows "\<exists>vm'. Bundle_run env (Some a) inputs (map Some oas) vm = Inr vm' \<and>
     bundles vm' = (bundles vm)(p \<mapsto> sb\<lparr>session := Some s'\<rparr>) \<and> delivered vm vm' (map snd ins) oas outs"
proof -
  note R = readyD [OF assms(1)]
  from ready_prepare [OF assms(1)] obtain vm1 where
    1: "getHandle env vm (Some a) = Inr p" "prepare_inputs env inputs vm = Inr (ins, vm1)"
     "get_output_names env vm1 (map Some oas) = Inr (map fst onames)" "input_vals vm1 ins = input_vals vm ins"
     "wf_heap (refs_list (map snd ins)) vm1" "keeps vm vm1" "jheap vm1 = jheap vm" "tensors vm1 = tensors vm"
     "\<forall>t\<in>set (map snd ins). buffer_live vm t" by blast
  have b1: "bundles vm1 = bundles vm" using 1(6) by (simp add: keeps_def)
  then have sb1: "bundles vm1 p = Some sb" using R(4) by simp
  from output_step [OF assms(1) keeps_same_view [OF 1(6-8)] 1(5,9) sb1 R(5) assms(2-4)] obtain ts vm2 vm' where
    2: "session_Run env p (input_vals vm ins) (map fst onames) [] vm1 =
          Inr (StatusOK, outs, put_bundle p (sb\<lparr>session := Some s'\<rparr>) vm1)"
     "realise (map snd ins) outs (put_bundle p (sb\<lparr>session := Some s'\<rparr>) vm1) = Inr (ts, vm2)"
     "bnd (get_outputs env (map Some oas) ts vm2) (release (ts @ map snd ins)) = Inr vm'" "wf_heap {#} vm'"
     "pending vm' = None" "log vm' = log vm" "bundles vm' = (bundles vm1)(p \<mapsto> sb\<lparr>session := Some s'\<rparr>)"
     "list_all2 (stored vm vm') oas ts" "map (tensor_val vm') ts = map (out_val vm (map snd ins)) outs"
     "\<forall>q t. tensors vm q = Some t \<longrightarrow> tensors vm' q = Some t \<and> tensor_val vm' t = tensor_val vm t"
     "\<forall>b. b \<notin> set oas \<longrightarrow> jheap vm' b = jheap vm b" by blast
  have "Bundle_run env (Some a) inputs (map Some oas) vm = Inr vm'"
    using 1(1-4) 2(1-3) by (simp add: Bundle_run_def status_ok_def)
  then show ?thesis
    using 2(4-11) b1 unfolding delivered_def by (intro exI [of _ vm'] conjI exI [of _ ts]) simp_all
qed

lemma run_rejects:
  assumes "ready vm a p sb s inputs ins oas onames"
    and "session_run env s (input_vals vm ins) (map fst onames) [] = (StatusError code msg, outs, s')"
    and "\<forall>out\<in>set outs. share_ok (length ins) out" and "malloc_ok env"
  shows "\<exists>vm'. Bundle_run env (Some a) inputs (map Some oas) vm = Inr vm' \<and> rejected vm vm' msg"
proof -
  note R = readyD [OF assms(1)]
  from ready_prepare [OF assms(1)] obtain vm1 where
    1: "getHandle env vm (Some a) = Inr p" "prepare_inputs env inputs vm = Inr (ins, vm1)"
     "get_output_names env vm1 (map Some oas) = Inr (map fst onames)" "input_vals vm1 ins = input_vals vm ins"
     "wf_heap (refs_list (map snd ins)) vm1" "keeps vm vm1" "jheap vm1 = jheap vm" "tensors vm1 = tensors vm"
     "\<forall>t\<in>set (map snd ins). buffer_live vm t" by blast
  have b1: "bundles vm1 = bundles vm" "pending vm1 = None" "log vm1 = log vm" using 1(6) R(2) by (simp_all add: keeps_def)
  then have sb1: "bundles vm1 p = Some sb" using R(4) by simp
  have share: "\<forall>out\<in>set outs. share_ok (length (map snd ins)) out" using assms(3) by simp
  from session_outputs [OF 1(5) sb1 R(5) assms(2) share, unfolded b1 1(7,8)] obtain ts vm2 where
    2: "session_Run env p (input_vals vm ins) (map fst onames) [] vm1 =
          Inr (StatusError code msg, outs, put_bundle p (sb\<lparr>session := Some s'\<rparr>) vm1)"
     "realise (map snd ins) outs (put_bundle p (sb\<lparr>session := Some s'\<rparr>) vm1) = Inr (ts, vm2)"
     "wf_heap (refs_list (ts @ map snd ins)) vm2" "pending vm2 = None" "log vm2 = log vm"
     "jheap vm2 = jheap vm" "tensors vm2 = tensors vm"
     "\<forall>t. buffer_live vm1 t \<longrightarrow> tensor_val vm2 t = tensor_val vm1 t" by blast
  let ?vm = "vm2\<lparr>log := log vm2 @ [msg],
    pending := Some (kIllegalArgumentException, ''Internal error: SavedModelBundle.run: Unable to run model.'')\<rparr>"
  have "wf_heap (refs_list (ts @ map snd ins) + {#}) ?vm" using 2(3) by simp
  from release_spec [OF this] obtain vm' where
    3: "release (ts @ map snd ins) ?vm = Inr vm'" "wf_heap {#} vm'" "shrinks ?vm vm'" by blast
  have "Bundle_run env (Some a) inputs (map Some oas) vm = Inr vm'"
    using 1(1-4) 2(1,2,4) 3(1) assms(4)
    by (simp add: Bundle_run_def status_ok_def ThrowException_def log_print_def max_msg_len_def)
  moreover have "tensor_val vm' t = tensor_val vm t" if t: "tensors vm q = Some t" for q t
  proof -
    have "tensors vm' q = Some t" using t 2(7) 3(3) by (simp add: shrinks_def)
    then have "tensor_val vm' t = tensor_val ?vm t" using shrinks_val [OF 3(3)] wf_buffer_live [OF 3(2)] by blast
    also have "\<dots> = tensor_val vm2 t" by (rule tensor_val_cong) simp
    also have "\<dots> = tensor_val vm t"
      using 2(8) keeps_val [OF 1(6)] keeps_live [OF 1(6)] wf_buffer_live [OF R(1) t] by metis
    finally show ?thesis .
  qed
  moreover have "pending vm' = pending ?vm" "log vm' = log ?vm" "jheap vm' = jheap ?vm" "tensors vm' = tensors ?vm"
    using 3(3) unfolding shrinks_def by blast+
  ultimately show ?thesis using 3(2) 2(5-7) unfolding rejected_def by (intro exI [of _ vm']) simp
qed

lemma train_delivers:
  assumes "ready vm a p sb s inputs ins oas onames"
    and "session_run env s (input_vals vm ins) [] (map cstring ops) = (StatusOK, outs0, s1)"
    and "session_run env s1 (input_vals vm ins) (map fst onames) [] = (StatusOK, outs, s2)"
    and "length outs = length oas" and "\<forall>out\<in>set outs. share_ok (length ins) out"
  shows "\<exists>vm'. Bundle_train env (Some a) inputs (map Some oas) (map Some ops) vm = Inr vm' \<and>
     bundles vm' = (bundles vm)(p \<mapsto> sb\<lparr>session := Some s2\<rparr>) \<and> delivered vm vm' (map snd ins) oas outs"
proof -
  note R = readyD [OF assms(1)]
  from ready_prepare [OF assms(1)] obtain vm1 where
    1: "getHandle env vm (Some a) = Inr p" "prepare_inputs env inputs vm = Inr (ins, vm1)"
     "get_output_names env vm1 (map Some oas) = Inr (map fst onames)" "input_vals vm1 ins = input_vals vm ins"
     "wf_heap (refs_list (map snd ins)) vm1" "keeps vm vm1" "jheap vm1 = jheap vm" "tensors vm1 = tensors vm"
     "\<forall>t\<in>set (map snd ins). buffer_live vm t" by blast
  have b1: "bundles vm1 = bundles vm" "pending vm1 = None" using 1(6) R(2) by (simp_all add: keeps_def)
  then have sb1: "bundles vm1 p = Some sb" using R(4) by simp
  let ?sb = "sb\<lparr>session := Some s1\<rparr>"
  let ?vm = "put_bundle p ?sb vm1"
  note S = session_Run_spec [OF 1(5) sb1 R(5) assms(2)]
  have vals: "input_vals ?vm ins = input_vals vm ins"
    using 1(4) tensor_val_cong [of ?vm vm1] by (simp add: input_vals_def)
  have "bundles ?vm p = Some ?sb" "session ?sb = Some s1" by simp_all
  from output_step [OF assms(1) same_view_put_bundle [OF keeps_same_view [OF 1(6-8)]] S(2) 1(9) this assms(3-5)]
  obtain ts vm2 vm' where
    2: "session_Run env p (input_vals vm ins) (map fst onames) [] ?vm =
          Inr (StatusOK, outs, put_bundle p (?sb\<lparr>session := Some s2\<rparr>) ?vm)"
     "realise (map snd ins) outs (put_bundle p (?sb\<lparr>session := Some s2\<rparr>) ?vm) = Inr (ts, vm2)"
     "bnd (get_outputs env (map Some oas) ts vm2) (release (ts @ map snd ins)) = Inr vm'" "wf_heap {#} vm'"
     "pending vm' = None" "log vm' = log vm" "bundles vm' = (bundles ?vm)(p \<mapsto> ?sb\<lparr>session := Some s2\<rparr>)"
     "list_all2 (stored vm vm') oas ts" "map (tensor_val vm') ts = map (out_val vm (map snd ins)) outs"
     "\<forall>q t. tensors vm q = Some t \<longrightarrow> tensors vm' q = Some t \<and> tensor_val vm' t = tensor_val vm t"
     "\<forall>b. b \<notin> set oas \<longrightarrow> jheap vm' b = jheap vm b" by blast
  have "Bundle_train env (Some a) inputs (map Some oas) (map Some ops) vm = Inr vm'"
    using 1(1-4) b1(2) get_training_names_spec [OF b1(2), of env ops] S(1) vals 2(1-3)
    by (simp add: Bundle_train_def status_ok_def report_def)
  then show ?thesis
    using 2(4-11) b1 unfolding delivered_def by (intro exI [of _ vm'] conjI exI [of _ ts]) simp_all
qed

lemma bundle_export_eq:
  assumes "wf_heap {#} vm" and "pending vm = None" and "jheap vm a = Some (JBundle p)" and "malloc_ok env"
    and "bundles vm p = Some sb" and "session sb = Some s"
    and "session_run env s [(filename_tensor_name sb, TString (cstring path @ ''/checkpoint''))] []
           [save_tensor_name sb] = (status, outs, s')"
  shows "bundle_export env a path vm = report env status
      ''Internal error: SavedModelBundle.export: Unable to export model checkpoint.''
      (put_bundle p (sb\<lparr>session := Some s'\<rparr>) vm) \<and> wf_heap {#} (put_bundle p (sb\<lparr>session := Some s'\<rparr>) vm)"
proof -
  have "p \<noteq> 0" using boundedD [OF wf_heapD(5) [OF assms(1)] assms(5)] by simp
  with assms session_Run_spec [OF assms(1,5,6,7)] show ?thesis
    by (simp add: bundle_export_def Bundle_export_def deref_bundle_def jstring2string_def cstring_def [symmetric])
qed

section \<open>The properties\<close>

text \<open>
  C4: a successful \<open>run\<close>.  The session gets the names and the current values of the inputs and the
  names of the outputs and nothing else; afterwards every output object owns a fresh native tensor
  with the value the session returned, in the order of the outputs, all other objects and native
  tensors and their bytes are as before, no reference count is off, and nothing is thrown.
\<close>

theorem run_success:
  assumes "ready vm a p sb s inputs ins oas onames"
    and "session_run env s (input_vals vm ins) (map fst onames) [] = (StatusOK, outs, s')"
    and "length outs = length oas" and "\<forall>out\<in>set outs. share_ok (length ins) out"
  shows "\<exists>vm' nts. Bundle_run env (Some a) inputs (map Some oas) vm = Inr vm' \<and> wf_heap {#} vm' \<and>
     pending vm' = None \<and> log vm' = log vm \<and> bundles vm' = (bundles vm)(p \<mapsto> sb\<lparr>session := Some s'\<rparr>) \<and>
     list_all2 (stored vm vm') oas nts \<and> map (tensor_val vm') nts = map (out_val vm (map snd ins)) outs \<and>
     (\<forall>q t. tensors vm q = Some t \<longrightarrow> tensors vm' q = Some t \<and> tensor_val vm' t = tensor_val vm t) \<and>
     (\<forall>b. b \<notin> set oas \<longrightarrow> jheap vm' b = jheap vm b)"
  using run_delivers [OF assms] unfolding delivered_def by blast

text \<open>
  C5: a failing \<open>run\<close>.  If the session reports an error, the message of the status goes to the log,
  IllegalArgumentException is pending when \<open>run\<close> returns, and no Java object and no native tensor
  has changed; the references the method took are given back.
\<close>

theorem run_failure:
  assumes "ready vm a p sb s inputs ins oas onames"
    and "session_run env s (input_vals vm ins) (map fst onames) [] = (StatusError code msg, outs, s')"
    and "\<forall>out\<in>set outs. share_ok (length ins) out" and "malloc_ok env"
  shows "\<exists>vm'. Bundle_run env (Some a) inputs (map Some oas) vm = Inr vm' \<and> wf_heap {#} vm' \<and>
     pending vm' = Some (kIllegalArgumentException, ''Internal error: SavedModelBundle.run: Unable to run model.'') \<and>
     log vm' = log vm @ [msg] \<and> jheap vm' = jheap vm \<and> tensors vm' = tensors vm \<and>
     (\<forall>q t. tensors vm q = Some t \<longrightarrow> tensor_val vm' t = tensor_val vm t)"
  using run_rejects [OF assms] unfolding rejected_def by blast

text \<open>
  C6: a successful \<open>train\<close> is two runs of the session with the same inputs: first the training ops as
  targets and no outputs, then the outputs and no targets, on the state the first one left.  The
  outputs are handed over as by \<open>run\<close>.
\<close>

theorem train_success:
  assumes "ready vm a p sb s inputs ins oas onames"
    and "session_run env s (input_vals vm ins) [] (map cstring ops) = (StatusOK, outs0, s1)"
    and "session_run env s1 (input_vals vm ins) (map fst onames) [] = (StatusOK, outs, s2)"
    and "length outs = length oas" and "\<forall>out\<in>set outs. share_ok (length ins) out"
  shows "\<exists>vm' nts. Bundle_train env (Some a) inputs (map Some oas) (map Some ops) vm = Inr vm' \<and> wf_heap {#} vm' \<and>
     pending vm' = None \<and> log vm' = log vm \<and> bundles vm' = (bundles vm)(p \<mapsto> sb\<lparr>session := Some s2\<rparr>) \<and>
     list_all2 (stored vm vm') oas nts \<and> map (tensor_val vm') nts = map (out_val vm (map snd ins)) outs \<and>
     (\<forall>q t. tensors vm q = Some t \<longrightarrow> tensors vm' q = Some t \<and> tensor_val vm' t = tensor_val vm t) \<and>
     (\<forall>b. b \<notin> set oas \<longrightarrow> jheap vm' b = jheap vm b)"
  using train_delivers [OF assms] unfolding delivered_def by blast

text \<open>
  C7: a failing training step does not stop \<open>train\<close>.  The exception is pending but the output step
  runs all the same, on the state the failed step left; with at least one output, handing the first
  one over is then a JNI call with an exception pending, on which a checking VM aborts.
\<close>

theorem train_failed_step_continues:
  assumes "ready vm a p sb s inputs ins oas onames"
    and "session_run env s (input_vals vm ins) [] (map cstring ops) = (StatusError code msg, outs0, s1)"
    and "session_run env s1 (input_vals vm ins) (map fst onames) [] = (StatusOK, outs, s2)"
    and "length outs = length oas" and "\<forall>out\<in>set outs. share_ok (length ins) out" and "oas \<noteq> []"
    and "check_jni env"
  shows "Bundle_train env (Some a) inputs (map Some oas) (map Some ops) vm = Inl JniMisuse"
proof -
  note R = readyD [OF assms(1)]
  from ready_prepare [OF assms(1)] obtain vm1 where
    1: "getHandle env vm (Some a) = Inr p" "prepare_inputs env inputs vm = Inr (ins, vm1)"
     "get_output_names env vm1 (map Some oas) = Inr (map fst onames)" "input_vals vm1 ins = input_vals vm ins"
     "wf_heap (refs_list (map snd ins)) vm1" "keeps vm vm1" "jheap vm1 = jheap vm" "tensors vm1 = tensors vm" by blast
  have b1: "bundles vm1 = bundles vm" "pending vm1 = None" using 1(6) R(2) by (simp_all add: keeps_def)
  then have sb1: "bundles vm1 p = Some sb" using R(4) by simp
  let ?sb = "sb\<lparr>session := Some s1\<rparr>"
  let ?err = "(kIllegalArgumentException, if malloc_ok env then take (max_msg_len - 1)
    ''Internal error: SavedModelBundle.train: Unable to run training step.'' else '''')"
  let ?vm = "(put_bundle p ?sb vm1)\<lparr>log := log vm1 @ [msg], pending := Some ?err\<rparr>"
  note S = session_Run_spec [OF 1(5) sb1 R(5) assms(2)]
  have wf: "wf_heap (refs_list (map snd ins)) ?vm" using S(2) by simp
  have vals: "input_vals ?vm ins = input_vals vm ins"
    using 1(4) tensor_val_cong [of ?vm vm1] by (simp add: input_vals_def)
  have sb: "bundles ?vm p = Some ?sb" "session ?sb = Some s1" by simp_all
  have share: "\<forall>out\<in>set outs. share_ok (length (map snd ins)) out" using assms(5) by simp
  obtain ts vm2 where
    2: "session_Run env p (input_vals vm ins) (map fst onames) [] ?vm =
          Inr (StatusOK, outs, put_bundle p (?sb\<lparr>session := Some s2\<rparr>) ?vm)"
     "realise (map snd ins) outs (put_bundle p (?sb\<lparr>session := Some s2\<rparr>) ?vm) = Inr (ts, vm2)"
     "wf_heap (refs_list (ts @ map snd ins)) vm2" "pending vm2 = pending ?vm" "jheap vm2 = jheap ?vm" "length ts = length outs"
    using session_outputs [OF wf sb assms(3) share] by blast
  obtain oa oas' t ts' where o: "oas = oa # oas'" "ts = t # ts'"
    using assms(4,6) 2(6) by (cases oas; cases ts) auto
  have "wf_heap (refs_list (ts @ map snd ins) + {#}) vm2" using 2(3) by simp
  from wf_refs_live [OF this, of t] have "buffer_live vm2 t" using o by simp
  then obtain vm3 where 3: "copy_tensor t vm2 = Inr (brk vm2, vm3)" "native_frame vm2 vm3"
    using copy_tensor_spec [OF 2(3), of t] unfolding buffer_live_def by blast
  have "pending vm3 \<noteq> None" using native_frameD(2) [OF 3(2)] 2(4) by simp
  then have "setHandle env vm3 (Some oa) (brk vm2) = Inl JniMisuse"
    using assms(7) by (simp add: setHandle_def getHandleField_def jni_call_def)
  then have "get_outputs env (map Some oas) ts vm2 = Inl JniMisuse"
    using o 3(1) assms(4) 2(6) by (simp add: get_outputs_def)
  then show ?thesis
    using 1(1-4) b1(2) get_training_names_spec [OF b1(2), of env ops] S(1) vals 2(1,2)
    by (simp add: Bundle_train_def status_ok_def report_def ThrowException_def log_print_def max_msg_len_def)
qed

text \<open>
  C8: opening a model.  The constructor asks the loader for the path and the single tag of its
  mode.  If that succeeds the new object owns the loaded bundle; if it fails,
  IllegalArgumentException is pending, the object has no handle, and the native bundle that was
  allocated first stays allocated although no object refers to it.
\<close>

lemma new_SavedModelBundle_eq:
  assumes "pending vm = None"
  shows "new_SavedModelBundle env path m vm =
     (let (status, loaded) = load_model env (cstring path) [mode_c m];
          vm' = vm\<lparr>brk := brk vm + 2, jheap := (jheap vm)(brk vm \<mapsto> JBundle 0),
                  bundles := (bundles vm)(brk vm + 1 \<mapsto> loaded)\<rparr>
      in if status_ok status
         then Inr (brk vm, vm'\<lparr>jheap := (jheap vm)(brk vm \<mapsto> JBundle (brk vm + 1))\<rparr>)
         else Inr (brk vm, vm'\<lparr>log := log vm @ [''LoadSavedModel Status not OK''],
                pending := Some (kIllegalArgumentException, if malloc_ok env then
                  ''Internal error: SavedModelBundle.create: Unable to load model.'' else '''')\<rparr>))"
  using assms
  by (cases m; cases "load_model env (cstring path) [mode_c m]")
    (simp_all add: new_SavedModelBundle_def alloc_def Bundle_create_def new_bundle_def Let_def jstring2string_def
      cstring_def kSavedModelTagServe_def kSavedModelTagTrain_def ThrowException_def log_print_def max_msg_len_def
      setHandle_def getHandleField_def)

theorem open_model:
  assumes "wf_heap {#} vm" and "pending vm = None" and "malloc_ok env"
    and "load_model env (cstring path) [mode_c m] = (status, loaded)"
  shows "\<exists>vm' p. new_SavedModelBundle env path m vm = Inr (brk vm, vm') \<and> wf_heap {#} vm' \<and>
     bundles vm p = None \<and> bundles vm' = (bundles vm)(p \<mapsto> loaded) \<and> tensors vm' = tensors vm \<and>
     (if status_ok status then pending vm' = None \<and> jheap vm' = (jheap vm)(brk vm \<mapsto> JBundle p)
      else pending vm' = Some (kIllegalArgumentException,
             ''Internal error: SavedModelBundle.create: Unable to load model.'') \<and>
           jheap vm' = (jheap vm)(brk vm \<mapsto> JBundle 0))"
proof -
  have fresh: "bundles vm (brk vm + 1) = None"
    using boundedD [OF wf_heapD(5) [OF assms(1)], of "brk vm + 1"] by (cases "bundles vm (brk vm + 1)") auto
  have "bounded (jheap vm) (brk vm + 2)" "bounded (tensors vm) (brk vm + 2)" "bounded (buffers vm) (brk vm + 2)"
    "bounded (bundles vm) (brk vm + 2)" "0 < brk vm"
    using wf_heapD(1-5) [OF assms(1)] by (auto intro: bounded_mono)
  then have "wf_heap {#} (vm\<lparr>brk := brk vm + 2, jheap := (jheap vm)(brk vm \<mapsto> JBundle h),
      bundles := (bundles vm)(brk vm + 1 \<mapsto> loaded)\<rparr>)" for h
    using wf_heapD(6-8) [OF assms(1)] by (simp add: wf_heap_def)
  note w = this [of 0] this [of "brk vm + 1"]
  show ?thesis
  proof (cases "status_ok status")
    case True
    with w fresh assms(2,4) show ?thesis
      by (intro exI [of _ "vm\<lparr>brk := brk vm + 2, jheap := (jheap vm)(brk vm \<mapsto> JBundle (brk vm + 1)),
          bundles := (bundles vm)(brk vm + 1 \<mapsto> loaded)\<rparr>"] exI [of _ "brk vm + 1"])
        (simp add: new_SavedModelBundle_eq Let_def)
  next
    case False
    with w fresh assms show ?thesis
      by (intro exI [of _ "vm\<lparr>brk := brk vm + 2, jheap := (jheap vm)(brk vm \<mapsto> JBundle 0),
          bundles := (bundles vm)(brk vm + 1 \<mapsto> loaded), log := log vm @ [''LoadSavedModel Status not OK''],
          pending := Some (kIllegalArgumentException, ''Internal error: SavedModelBundle.create: Unable to load model.'')\<rparr>"]
          exI [of _ "brk vm + 1"])
        (simp add: new_SavedModelBundle_eq Let_def)
  qed
qed

text \<open>
  \<open>export\<close> runs the saver once: it feeds the file name tensor of the saver with the path and
  \<open>/checkpoint\<close> and requests the save op, on the bundle's session, and reports an error status as an
  exception.
\<close>

theorem export_checkpoint:
  assumes "wf_heap {#} vm" and "pending vm = None" and "jheap vm a = Some (JBundle p)" and "malloc_ok env"
    and "bundles vm p = Some sb" and "session sb = Some s"
    and "session_run env s [(filename_tensor_name sb, TString (cstring path @ ''/checkpoint''))] []
           [save_tensor_name sb] = (status, outs, s')"
  shows "\<exists>vm'. bundle_export env a path vm = Inr vm' \<and> wf_heap {#} vm' \<and> jheap vm' = jheap vm \<and>
     tensors vm' = tensors vm \<and> bundles vm' = (bundles vm)(p \<mapsto> sb\<lparr>session := Some s'\<rparr>) \<and>
     pending vm' = (if status_ok status then None else Some (kIllegalArgumentException,
       ''Internal error: SavedModelBundle.export: Unable to export model checkpoint.'')) \<and>
     log vm' = (if status_ok status then log vm else log vm @ [error_message status])"
  using bundle_export_eq [OF assms] assms(2,4)
  by (auto simp: report_def ThrowException_def log_print_def max_msg_len_def)

text \<open>
  Closing a bundle closes its session and frees it, and leaves the handle: a second \<open>close\<close>, an
  \<open>export\<close> and a \<open>run\<close> use a dangling pointer.  On an object whose constructor failed (handle 0)
  \<open>close\<close> dereferences a null pointer.
\<close>

theorem bundle_lifecycle:
  assumes "wf_heap {#} vm" and "pending vm = None" and "jheap vm a = Some (JBundle p)"
    and "p \<noteq> 0 \<Longrightarrow> bundles vm p = Some sb \<and> session sb = Some s"
  shows "if p = 0 then bundle_close env a vm = Inl NullDeref
         else \<exists>vm'. bundle_close env a vm = Inr vm' \<and> wf_heap {#} vm' \<and> jheap vm' = jheap vm \<and>
                tensors vm' = tensors vm \<and> bundles vm' = (bundles vm)(p := None) \<and>
                bundle_close env a vm' = Inl DanglingPointer \<and> bundle_export env a path vm' = Inl DanglingPointer \<and>
                Bundle_run env (Some a) [] [] vm' = Inl DanglingPointer"
proof (cases "p = 0")
  case True
  with assms(2,3) show ?thesis by (simp add: bundle_close_def Bundle_delete_def deref_bundle_def)
next
  case False
  then have b: "bundles vm p = Some sb" "session sb = Some s" using assms(4) by auto
  have "wf_heap {#} (vm\<lparr>bundles := (bundles vm)(p := None)\<rparr>)"
    using wf_heapD [OF assms(1)] by (simp add: wf_heap_def)
  with False b assms(2,3) show ?thesis
    by (simp add: bundle_close_def Bundle_delete_def deref_bundle_def bundle_export_def Bundle_export_def
        Bundle_run_def session_Run_def split: prod.split)
qed

section \<open>Concrete inputs\<close>

text \<open>
  A process with a loaded bundle (object 1), an input \<open>x\<close> that is backed (object 3) and an output \<open>y\<close>
  (object 6); and the environment in which every training step fails.
\<close>

definition demo_x :: jtensor where
  "demo_x = \<lparr>j_dtype = FLOAT32, j_shape = [1], j_name = Some ''x'', j_scalar = False, j_isBacked = True, j_handle = 5\<rparr>"

definition demo_y :: jtensor where
  "demo_y = \<lparr>j_dtype = FLOAT32, j_shape = [1], j_name = Some ''y'', j_scalar = False, j_isBacked = False, j_handle = 0\<rparr>"

definition demo_sb :: "nat smbundle" where
  "demo_sb = \<lparr>session = Some 0, filename_tensor_name = ''save/Const:0'', save_tensor_name = ''save/control''\<rparr>"

definition demo_nt :: tensor where
  "demo_nt = \<lparr>t_dtype = DT_FLOAT, t_dims = [1], t_buf = Some 4\<rparr>"

definition demo_vm :: "nat vm" where
  "demo_vm = \<lparr>jheap = [1 \<mapsto> JBundle 2, 3 \<mapsto> JTensor demo_x, 6 \<mapsto> JTensor demo_y], tensors = [5 \<mapsto> demo_nt],
     buffers = [4 \<mapsto> \<lparr>ref_count = 1, b_data = [9, 8, 7, 6]\<rparr>], bundles = [2 \<mapsto> demo_sb],
     brk = 7, pending = None, log = [], pinned_arrays = 0\<rparr>"

lemma demo_vm_simps [simp]:
  "jheap demo_vm = [1 \<mapsto> JBundle 2, 3 \<mapsto> JTensor demo_x, 6 \<mapsto> JTensor demo_y]" "tensors demo_vm = [5 \<mapsto> demo_nt]"
  "bundles demo_vm = [2 \<mapsto> demo_sb]" "buffers demo_vm = [4 \<mapsto> \<lparr>ref_count = 1, b_data = [9, 8, 7, 6]\<rparr>]"
  "pending demo_vm = None" "brk demo_vm = 7" "log demo_vm = []" "session demo_sb = Some 0"
  by (simp_all add: demo_vm_def demo_sb_def)

lemma wf_demo_vm: "wf_heap {#} demo_vm"
proof -
  have h: "holders demo_vm b = (if b = 4 then {5} else {})" for b by (auto simp: holders_def demo_nt_def)
  have "counted {#} demo_vm" "no_dangling {#} demo_vm" "in_use demo_vm"
    by (auto simp: heap_defs h)
  then show ?thesis by (simp add: wf_heap_def bounded_def)
qed

lemma demo_ready: "ready demo_vm 1 2 demo_sb 0 [Some 3] [(''x'', demo_nt)] [6] [(''y'', demo_y)]"
proof -
  have "named_tensor demo_vm (Some 3) = Some (''x'', demo_x)" "named_tensor demo_vm (Some 6) = Some (''y'', demo_y)"
    by (simp_all add: named_tensor_def demo_x_def demo_y_def cstring_def)
  then show ?thesis using wf_demo_vm by (simp add: ready_def usable_input_def demo_x_def)
qed

lemma demo_run:
  "session_run demo_env s ins outs [] = (StatusOK, map (\<lambda>_. Fresh DT_FLOAT [1] [1, 2, 3, 4]) outs, s + 1)"
  "session_run demo_env s ins outs [''step''] = (StatusOK, map (\<lambda>_. Fresh DT_FLOAT [1] [1, 2, 3, 4]) outs, s + 1)"
  "session_run demo_env s ins outs [''bad''] = (StatusError 3 ''no such op'', [], s)"
  by (simp_all add: demo_env_def)

definition failing_env :: "nat env" where
  "failing_env = demo_env\<lparr>session_run := \<lambda>s inputs outputs targets. (StatusError 9 ''closed'', [], s)\<rparr>"

lemma run_success_witness:
  "\<exists>vm' nts. Bundle_run demo_env (Some 1) [Some 3] [Some 6] demo_vm = Inr vm' \<and>
     list_all2 (stored demo_vm vm') [6] nts \<and> map (tensor_val vm') nts = [TBytes DT_FLOAT [1] [1, 2, 3, 4]]"
proof -
  let ?outs = "[Fresh DT_FLOAT [1] [1, 2, 3, 4]]"
  have r: "session_run demo_env 0 (input_vals demo_vm [(''x'', demo_nt)]) (map fst [(''y'', demo_y)]) [] = (StatusOK, ?outs, 1)"
    by (simp add: demo_run)
  have "length ?outs = length [6]" "\<forall>out\<in>set ?outs. share_ok (length [(''x'', demo_nt)]) out" by simp_all
  from run_success [OF demo_ready r this] obtain vm' nts where
    "Bundle_run demo_env (Some 1) [Some 3] (map Some [6]) demo_vm = Inr vm'" "list_all2 (stored demo_vm vm') [6] nts"
    "map (tensor_val vm') nts = map (out_val demo_vm (map snd [(''x'', demo_nt)])) ?outs" by blast
  then show ?thesis by (intro exI [of _ vm'] exI [of _ nts]) simp
qed

lemma run_failure_witness:
  "\<exists>vm'. Bundle_run failing_env (Some 1) [Some 3] [Some 6] demo_vm = Inr vm' \<and> wf_heap {#} vm' \<and>
     pending vm' = Some (kIllegalArgumentException, ''Internal error: SavedModelBundle.run: Unable to run model.'')"
proof -
  have "session_run failing_env 0 (input_vals demo_vm [(''x'', demo_nt)]) (map fst [(''y'', demo_y)]) [] =
      (StatusError 9 ''closed'', [], 0)" "malloc_ok failing_env"
    by (simp_all add: failing_env_def demo_env_def)
  from run_failure [OF demo_ready this(1) _ this(2)] show ?thesis by (simp only: list.map list.set) blast
qed

lemma train_success_witness:
  "\<exists>vm' nts. Bundle_train demo_env (Some 1) [Some 3] [Some 6] [Some ''step''] demo_vm = Inr vm' \<and>
     list_all2 (stored demo_vm vm') [6] nts \<and> map (tensor_val vm') nts = [TBytes DT_FLOAT [1] [1, 2, 3, 4]]"
proof -
  let ?outs = "[Fresh DT_FLOAT [1] [1, 2, 3, 4]]"
  have r: "session_run demo_env 0 (input_vals demo_vm [(''x'', demo_nt)]) [] (map cstring [''step'']) = (StatusOK, [], 1)"
    "session_run demo_env 1 (input_vals demo_vm [(''x'', demo_nt)]) (map fst [(''y'', demo_y)]) [] = (StatusOK, ?outs, 2)"
    by (simp_all add: demo_run cstring_def)
  have "length ?outs = length [6]" "\<forall>out\<in>set ?outs. share_ok (length [(''x'', demo_nt)]) out" by simp_all
  from train_success [OF demo_ready r this] obtain vm' nts where
    "Bundle_train demo_env (Some 1) [Some 3] (map Some [6]) (map Some [''step'']) demo_vm = Inr vm'"
    "list_all2 (stored demo_vm vm') [6] nts"
    "map (tensor_val vm') nts = map (out_val demo_vm (map snd [(''x'', demo_nt)])) ?outs" by blast
  then show ?thesis by (intro exI [of _ vm'] exI [of _ nts]) simp
qed

lemma train_failed_step_continues_witness:
  "Bundle_train demo_env (Some 1) [Some 3] [Some 6] [Some ''bad''] demo_vm = Inl JniMisuse"
proof -
  have "check_jni demo_env" "cstring ''bad'' = ''bad''" by (simp_all add: demo_env_def cstring_def)
  then show ?thesis
    using train_failed_step_continues [OF demo_ready, of demo_env "[''bad'']" 3 "''no such op''" "[]" 0
        "[Fresh DT_FLOAT [1] [1, 2, 3, 4]]" 1]
    by (simp add: demo_run)
qed

lemma demo_load: "load_model demo_env ''model'' tags = (StatusOK, demo_sb)"
  by (simp add: demo_env_def demo_sb_def)

lemma demo_malloc: "malloc_ok demo_env"
  by (simp add: demo_env_def)

lemma open_model_witness:
  "\<exists>vm'. new_SavedModelBundle demo_env ''model'' Serve demo_vm = Inr (7, vm') \<and> wf_heap {#} vm' \<and> pending vm' = None"
proof -
  have "load_model demo_env (cstring ''model'') [mode_c Serve] = (StatusOK, demo_sb)" "status_ok StatusOK"
    by (simp_all add: demo_load cstring_def status_ok_def)
  with open_model [OF wf_demo_vm _ demo_malloc this(1)] show ?thesis by simp blast
qed

lemma export_checkpoint_witness:
  "\<exists>vm'. bundle_export demo_env 1 ''out'' demo_vm = Inr vm' \<and> pending vm' = None"
proof -
  have "session_run demo_env 0 [(filename_tensor_name demo_sb, TString (cstring ''out'' @ ''/checkpoint''))] []
      [save_tensor_name demo_sb] = (StatusOK, [], 1)" "status_ok StatusOK"
    by (simp_all add: demo_env_def demo_sb_def status_ok_def)
  with export_checkpoint [OF wf_demo_vm _ _ demo_malloc _ _ this(1), of 1 2] show ?thesis by simp blast
qed

lemma bundle_lifecycle_witness:
  "\<exists>vm'. bundle_close demo_env 1 demo_vm = Inr vm' \<and> bundle_close demo_env 1 vm' = Inl DanglingPointer"
  using bundle_lifecycle [OF wf_demo_vm, of 1 2 demo_sb 0 demo_env "''out''"] by simp blast

end
