(* ===== verification/Client.thy ===== *)
theory Client
  imports Bundle_Jni
begin

text \<open>
  The library as its client sees it: a state machine whose steps are the calls of the public Java
  methods, in any order and with any arguments, and the client's handling of an exception.

  A step is a call that returns.  The invariant of the native heap is kept by every call, whatever
  the client does; the only thing that can go wrong is that a call does not return but crashes.
\<close>

section \<open>Every operation keeps the heap well formed\<close>

named_theorems keeps_wf \<open>an operation that returns keeps the native heap's invariant\<close>

lemma bnd_wf:
  "bnd r f = Inr y \<Longrightarrow> (\<And>x. r = Inr x \<Longrightarrow> P x) \<Longrightarrow> (\<And>x. P x \<Longrightarrow> f x = Inr y \<Longrightarrow> Q y) \<Longrightarrow> Q y"
  by (cases r) simp_all

lemma getHandleField_live:
  "getHandleField env vm obj = Inr (a, ob) \<Longrightarrow> obj = Some a \<and> jheap vm a = Some ob"
  by (auto simp: getHandleField_def bnd_Inr_iff split: option.splits)

lemma setHandle_wf [keeps_wf]: "setHandle env vm obj h = Inr vm' \<Longrightarrow> wf_heap H vm \<Longrightarrow> wf_heap H vm'"
  by (auto simp: setHandle_def bnd_Inr_iff dest!: getHandleField_live
      dest: boundedD [OF wf_heapD(2)] intro!: wf_heap_java bounded_simps wf_heapD(2))

lemma ThrowException_wf [keeps_wf]:
  "ThrowException env c m vm = Inr vm' \<Longrightarrow> wf_heap H vm \<Longrightarrow> wf_heap H vm'"
  by (auto simp: ThrowException_def bnd_Inr_iff)

lemma log_print_wf [simp]: "wf_heap H (log_print m vm) \<longleftrightarrow> wf_heap H vm"
  by (simp add: log_print_def)

lemma new_tensor_wf [keeps_wf]: "new_tensor env ty dims vm = Inr (p, vm') \<Longrightarrow> wf_heap H vm \<Longrightarrow> wf_heap H vm'"
  using new_tensor_spec by blast

lemma copy_tensor_wf [keeps_wf]: "copy_tensor t vm = Inr (p, vm') \<Longrightarrow> wf_heap H vm \<Longrightarrow> wf_heap H vm'"
proof -
  assume c: "copy_tensor t vm = Inr (p, vm')" and w: "wf_heap H vm"
  have "b \<in> dom (buffers vm)" if "t_buf t = Some b" for b
    using that c by (auto simp: copy_tensor_def Ref_def bnd_Inr_iff split: option.splits)
  from copy_tensor_spec [OF w this, of t] c show "wf_heap H vm'" by auto
qed

lemma deref_tensor_live: "deref_tensor vm p = Inr t \<Longrightarrow> tensors vm p = Some t"
  by (auto simp: deref_tensor_def split: option.splits if_splits)

lemma delete_tensor_wf [keeps_wf]: "delete_tensor p vm = Inr vm' \<Longrightarrow> wf_heap H vm \<Longrightarrow> wf_heap H vm'"
proof (cases "p = 0")
  case False
  assume d: "delete_tensor p vm = Inr vm'" and w: "wf_heap H vm"
  from d False obtain t where "deref_tensor vm p = Inr t" by (auto simp: delete_tensor_def bnd_Inr_iff)
  from delete_tensor_spec [OF w deref_tensor_live [OF this]] d show "wf_heap H vm'" by auto
qed (simp add: delete_tensor_def)

lemma native_memcpy_wf [keeps_wf]: "native_memcpy vm b m sz = Inr vm' \<Longrightarrow> wf_heap H vm \<Longrightarrow> wf_heap H vm'"
  using native_memcpy_spec by blast

lemma hold_wf [keeps_wf]: "hold t vm = Inr vm' \<Longrightarrow> wf_heap H vm \<Longrightarrow> wf_heap (refs t + H) vm'"
  using hold_spec hold_live by fastforce

lemma release_wf [keeps_wf]: "release ts vm = Inr vm' \<Longrightarrow> wf_heap (refs_list ts) vm \<Longrightarrow> wf_heap {#} vm'"
  using release_spec [of ts "{#}" vm] by auto

lemma typed_data_wf [keeps_wf]: "typed_data env m ty p vm = Inr (b, vm') \<Longrightarrow> wf_heap H vm \<Longrightarrow> wf_heap H vm'"
  by (auto simp: typed_data_def bnd_Inr_iff split: if_splits; ((drule keeps_wf, (simp; fail))+)?; simp?)

lemma Tensor_create_wf [keeps_wf]:
  "Tensor_create env thiz dtype scalar shape vm = Inr vm' \<Longrightarrow> wf_heap H vm \<Longrightarrow> wf_heap H vm'"
  by (auto simp: Tensor_create_def Let_def bnd_Inr_iff split: prod.splits; ((drule keeps_wf, (simp; fail))+)?; simp?)

lemma Tensor_delete_wf [keeps_wf]: "Tensor_delete env thiz vm = Inr vm' \<Longrightarrow> wf_heap H vm \<Longrightarrow> wf_heap H vm'"
  by (auto simp: Tensor_delete_def bnd_Inr_iff; ((drule keeps_wf, (simp; fail))+)?; simp?)

lemma Tensor_writeBytes_wf [keeps_wf]:
  "Tensor_writeBytes env thiz src sz dtype vm = Inr vm' \<Longrightarrow> wf_heap H vm \<Longrightarrow> wf_heap H vm'"
  by (auto simp: Tensor_writeBytes_def bnd_Inr_iff split: option.splits prod.splits; ((drule keeps_wf, (simp; fail))+)?; simp?)

lemma Tensor_readBytes_wf [keeps_wf]:
  "Tensor_readBytes env thiz sz dtype vm = Inr (m, vm') \<Longrightarrow> wf_heap H vm \<Longrightarrow> wf_heap H vm'"
  by (auto simp: Tensor_readBytes_def bnd_Inr_iff split: prod.splits; ((drule keeps_wf, (simp; fail))+)?; simp?)

lemma the_tensor_live: "the_tensor vm a = Inr t \<Longrightarrow> jheap vm a = Some (JTensor t)"
  by (auto simp: the_tensor_def split: option.splits jobject.splits)

lemma put_tensor_wf [keeps_wf]: "the_tensor vm a = Inr t \<Longrightarrow> wf_heap H vm \<Longrightarrow> wf_heap H (put_tensor a u vm)"
  by (auto dest: the_tensor_live)

lemma createBackingTensor_wf [keeps_wf]:
  "createBackingTensor env a vm = Inr vm' \<Longrightarrow> wf_heap H vm \<Longrightarrow> wf_heap H vm'"
  by (auto simp: createBackingTensor_def and_then_def bnd_Inr_iff split: if_splits; ((drule keeps_wf, (simp; fail))+)?; simp?)

lemma setBytes_wf [keeps_wf]: "setBytes env a bb vm = Inr vm' \<Longrightarrow> wf_heap H vm \<Longrightarrow> wf_heap H vm'"
  by (auto simp: setBytes_def and_then_def throw_java_def bnd_Inr_iff split: if_splits; ((drule keeps_wf, (simp; fail))+)?; simp?)

lemma getBytes_wf [keeps_wf]: "getBytes env a vm = Inr (out, vm') \<Longrightarrow> wf_heap H vm \<Longrightarrow> wf_heap H vm'"
  by (auto simp: getBytes_def bnd_Inr_iff split: if_splits prod.splits; ((drule keeps_wf, (simp; fail))+)?; simp?)

lemma deref_bundle_live: "deref_bundle vm p = Inr sb \<Longrightarrow> bundles vm p = Some sb"
  by (auto simp: deref_bundle_def split: option.splits if_splits)

lemma session_Run_wf [keeps_wf]:
  "session_Run env p ins names targets vm = Inr (status, outs, vm') \<Longrightarrow> wf_heap H vm \<Longrightarrow> wf_heap H vm'"
proof -
  assume r: "session_Run env p ins names targets vm = Inr (status, outs, vm')" and w: "wf_heap H vm"
  then obtain sb s where b: "deref_bundle vm p = Inr sb" "session sb = Some s"
    by (auto simp: session_Run_def bnd_Inr_iff split: option.splits)
  obtain st os s' where "session_run env s ins names targets = (st, os, s')" using prod_cases3 by blast
  with r b have "vm' = put_bundle p (sb\<lparr>session := Some s'\<rparr>) vm"
    by (simp add: session_Run_def put_bundle_def)
  with w show "wf_heap H vm'"
    using boundedD [OF wf_heapD(5) [OF w] deref_bundle_live [OF b(1)]] by (simp add: wf_put_bundle)
qed

lemma realise_wf [keeps_wf]:
  "realise inputs outs vm = Inr (ts, vm') \<Longrightarrow> wf_heap H vm \<Longrightarrow> wf_heap (refs_list ts + H) vm'"
proof (induction inputs outs vm arbitrary: H ts rule: realise.induct)
  case (1 inputs vm)
  then show ?case by simp
next
  case (2 inputs dtype dims bytes outs vm)
  obtain b vm1 where b: "new_buffer bytes vm = (b, vm1)" by fastforce
  with 2(2) obtain us where us: "realise inputs outs vm1 = Inr (us, vm')"
    "ts = \<lparr>t_dtype = dtype, t_dims = dims, t_buf = Some b\<rparr> # us" by (auto simp: bnd_Inr_iff)
  from 2(1) [OF b [symmetric] us(1) wf_new_buffer [OF 2(3) b]] us(2) show ?case by (simp add: refs_def)
next
  case (3 inputs i outs vm)
  then obtain vm1 us where i: "i < length inputs" and h: "hold (inputs ! i) vm = Inr vm1"
    and us: "realise inputs outs vm1 = Inr (us, vm')" "ts = inputs ! i # us"
    by (auto simp: bnd_Inr_iff split: if_splits)
  from 3(1) [OF i h us(1) hold_wf [OF h 3(3)]] us(2) show ?case by (simp add: ac_simps)
qed

lemma prepare_inputs_wf [keeps_wf]:
  "prepare_inputs env objs vm = Inr (ins, vm') \<Longrightarrow> wf_heap H vm \<Longrightarrow> wf_heap (refs_list (map snd ins) + H) vm'"
proof (induction objs arbitrary: vm H ins)
  case Nil
  then show ?case by simp
next
  case (Cons obj objs)
  from Cons.prems(1) obtain t vm1 n ins' where 1: "hold t vm = Inr vm1"
    "prepare_inputs env objs vm1 = Inr (ins', vm')" "ins = (n, t) # ins'"
    by (auto simp: bnd_Inr_iff)
  from Cons.IH [OF 1(2) hold_wf [OF 1(1) Cons.prems(2)]] 1(3) show ?case by (simp add: ac_simps)
qed

lemma set_outputs_wf [keeps_wf]:
  "set_outputs env objs ts vm = Inr vm' \<Longrightarrow> wf_heap H vm \<Longrightarrow> wf_heap H vm'"
proof (induction env objs ts vm rule: set_outputs.induct)
  case (3 env obj objs t ts vm)
  then obtain p vm1 vm2 where 1: "copy_tensor t vm = Inr (p, vm1)" "setHandle env vm1 obj p = Inr vm2"
    "set_outputs env objs ts vm2 = Inr vm'" by (auto simp: bnd_Inr_iff)
  from 3(1) [OF 1(1) refl 1(2,3)] 1(1,2) 3(3) show ?case by (blast intro: setHandle_wf copy_tensor_wf)
qed simp_all

lemma get_outputs_wf [keeps_wf]:
  "get_outputs env objs ts vm = Inr vm' \<Longrightarrow> wf_heap H vm \<Longrightarrow> wf_heap H vm'"
  by (auto simp: get_outputs_def split: if_splits; ((drule keeps_wf, (simp; fail))+)?; simp?)

lemma report_wf [keeps_wf]: "report env st m vm = Inr vm' \<Longrightarrow> wf_heap H vm \<Longrightarrow> wf_heap H vm'"
  by (auto simp: report_def split: if_splits; ((drule keeps_wf, (simp; fail))+)?; simp?)

lemma Bundle_run_wf [keeps_wf]:
  assumes "Bundle_run env thiz inputs outputs vm = Inr vm'" and "wf_heap {#} vm"
  shows "wf_heap {#} vm'"
proof -
  from assms(1) obtain p ins vm1 names status outs vm2 ts vm3 vm4 where
    1: "prepare_inputs env inputs vm = Inr (ins, vm1)"
      "session_Run env p (input_vals vm1 ins) names [] vm1 = Inr (status, outs, vm2)"
      "realise (map snd ins) outs vm2 = Inr (ts, vm3)" "release (ts @ map snd ins) vm4 = Inr vm'"
      "(if \<not> status_ok status then ThrowException env kIllegalArgumentException
          ''Internal error: SavedModelBundle.run: Unable to run model.'' (log_print (error_message status) vm3)
        else get_outputs env outputs ts vm3) = Inr vm4"
    by (auto simp: Bundle_run_def bnd_Inr_iff)
  have "wf_heap (refs_list (map snd ins)) vm2"
    using session_Run_wf [OF 1(2) prepare_inputs_wf [OF 1(1) assms(2)]] by simp
  from realise_wf [OF 1(3) this] have w3: "wf_heap (refs_list (ts @ map snd ins)) vm3" by simp
  have "wf_heap (refs_list (ts @ map snd ins)) vm4"
  proof (cases "status_ok status")
    case True
    then have "get_outputs env outputs ts vm3 = Inr vm4" using 1(5) by simp
    from get_outputs_wf [OF this w3] show ?thesis .
  next
    case False
    then have "ThrowException env kIllegalArgumentException
        ''Internal error: SavedModelBundle.run: Unable to run model.'' (log_print (error_message status) vm3) = Inr vm4"
      using 1(5) by simp
    from ThrowException_wf [OF this] w3 show ?thesis by simp
  qed
  from release_wf [OF 1(4) this] show ?thesis .
qed

lemma Bundle_train_wf [keeps_wf]:
  assumes "Bundle_train env thiz inputs outputs ops vm = Inr vm'" and "wf_heap {#} vm"
  shows "wf_heap {#} vm'"
proof -
  from assms(1) [unfolded Bundle_train_def bnd_Inr_iff split_paired_Ex prod.case]
  obtain p ins vm1 names tnames st1 outs1 vm2 vm3 st2 outs vm4 ts vm5 vm6 vm7 m1 m2 where
    1: "prepare_inputs env inputs vm = Inr (ins, vm1)"
      "session_Run env p (input_vals vm1 ins) [] tnames vm1 = Inr (st1, outs1, vm2)"
      "report env st1 m1 vm2 = Inr vm3"
      "session_Run env p (input_vals vm3 ins) names [] vm3 = Inr (st2, outs, vm4)"
      "realise (map snd ins) outs vm4 = Inr (ts, vm5)" "report env st2 m2 vm5 = Inr vm6"
      "get_outputs env outputs ts vm6 = Inr vm7" "release (ts @ map snd ins) vm7 = Inr vm'"
    by (elim exE conjE) (rule that; assumption)
  have "wf_heap (refs_list (map snd ins)) vm4"
    using session_Run_wf [OF 1(4) report_wf [OF 1(3) session_Run_wf [OF 1(2) prepare_inputs_wf [OF 1(1) assms(2)]]]]
    by simp
  from realise_wf [OF 1(5) this] have "wf_heap (refs_list (ts @ map snd ins)) vm5" by simp
  from release_wf [OF 1(8) get_outputs_wf [OF 1(7) report_wf [OF 1(6) this]]] show ?thesis .
qed

lemma Bundle_export_wf [keeps_wf]: "Bundle_export env thiz path vm = Inr vm' \<Longrightarrow> wf_heap H vm \<Longrightarrow> wf_heap H vm'"
  by (auto simp: Bundle_export_def bnd_Inr_iff; ((drule keeps_wf, (simp; fail))+)?; simp?)

lemma Bundle_delete_wf [keeps_wf]: "Bundle_delete env thiz vm = Inr vm' \<Longrightarrow> wf_heap H vm \<Longrightarrow> wf_heap H vm'"
proof -
  assume d: "Bundle_delete env thiz vm = Inr vm'" and w: "wf_heap H vm"
  then obtain p where "vm' = vm\<lparr>bundles := (bundles vm)(p := None)\<rparr>"
    by (auto simp: Bundle_delete_def bnd_Inr_iff split: option.splits prod.splits)
  then show "wf_heap H vm'" using wf_heapD [OF w] by (simp add: wf_heap_def)
qed

lemma new_bundle_wf: "new_bundle vm = (p, vm') \<Longrightarrow> wf_heap H vm \<Longrightarrow> wf_heap H vm' \<and> 0 < p \<and> p < brk vm'"
  by (auto simp: new_bundle_def alloc_def wf_heap_def)

lemma Bundle_create_wf [keeps_wf]: "Bundle_create env thiz dir mode vm = Inr vm' \<Longrightarrow> wf_heap H vm \<Longrightarrow> wf_heap H vm'"
proof -
  assume c: "Bundle_create env thiz dir mode vm = Inr vm'" and w: "wf_heap H vm"
  obtain p vm1 where n: "new_bundle vm = (p, vm1)" by fastforce
  note w1 = new_bundle_wf [OF n w]
  then have "wf_heap H (put_bundle p loaded vm1)" for loaded by (simp add: wf_put_bundle)
  note w2 = this [unfolded put_bundle_def]
  from c n w1 show "wf_heap H vm'"
    by (auto simp: Bundle_create_def Let_def bnd_Inr_iff split: prod.splits if_splits
        dest!: setHandle_wf [OF _ w2] ThrowException_wf [of env _ _ "log_print _ _" vm' H] simp: w2)
qed

lemma new_SavedModelBundle_wf [keeps_wf]:
  "new_SavedModelBundle env path m vm = Inr (a, vm') \<Longrightarrow> wf_heap H vm \<Longrightarrow> wf_heap H vm'"
proof -
  assume c: "new_SavedModelBundle env path m vm = Inr (a, vm')" and w: "wf_heap H vm"
  have "wf_heap H (vm\<lparr>brk := brk vm + 1, jheap := (jheap vm)(brk vm \<mapsto> JBundle 0)\<rparr>)"
    using wf_heapD [OF w] by (simp add: wf_heap_def)
  with c show "wf_heap H vm'"
    by (auto simp: new_SavedModelBundle_def alloc_def bnd_Inr_iff dest: Bundle_create_wf)
qed

lemma new_Tensor_bytes_wf [keeps_wf]:
  "new_Tensor_bytes env d sh sc n bb vm = Inr (a, vm') \<Longrightarrow> wf_heap H vm \<Longrightarrow> wf_heap H vm'"
  using wf_new_Tensor [of H vm d sh sc n]
  by (auto simp: new_Tensor_bytes_def bnd_Inr_iff split: prod.splits dest: setBytes_wf)

section \<open>The client's calls\<close>

datatype call =
    NewTensor jdtype "jint list" bool "string option"
  | NewTensorBytes jdtype "jint list" bool "string option" "byte_buffer option"
  | SetBytes addr "byte_buffer option"
  | GetBytes addr
  | CloseTensor addr
  | OpenModel string mode
  | Run addr "jref list" "jref list"
  | TrainStep addr "jref list" "jref list" "string option list"
  | Export addr string
  | CloseModel addr

fun perform :: "'s env \<Rightarrow> call \<Rightarrow> 's vm \<Rightarrow> 's vm result" where
  "perform env (NewTensor d sh sc n) vm = Inr (snd (new_Tensor d sh sc n vm))"
| "perform env (NewTensorBytes d sh sc n bb) vm = bnd (new_Tensor_bytes env d sh sc n bb vm) (\<lambda>(_, vm). Inr vm)"
| "perform env (SetBytes a bb) vm = setBytes env a bb vm"
| "perform env (GetBytes a) vm = bnd (getBytes env a vm) (\<lambda>(_, vm). Inr vm)"
| "perform env (CloseTensor a) vm = tensor_close env a vm"
| "perform env (OpenModel path m) vm = bnd (new_SavedModelBundle env path m vm) (\<lambda>(_, vm). Inr vm)"
| "perform env (Run a ins outs) vm = Bundle_run env (Some a) ins outs vm"
| "perform env (TrainStep a ins outs ops) vm = Bundle_train env (Some a) ins outs ops vm"
| "perform env (Export a path) vm = bundle_export env a path vm"
| "perform env (CloseModel a) vm = bundle_close env a vm"

inductive step :: "'s env \<Rightarrow> 's vm \<Rightarrow> 's vm \<Rightarrow> bool" for env where
  Call: "pending vm = None \<Longrightarrow> perform env c vm = Inr vm' \<Longrightarrow> step env vm vm'"
| Catch: "step env vm (vm\<lparr>pending := None\<rparr>)"

inductive reachable :: "'s env \<Rightarrow> 's vm \<Rightarrow> bool" for env where
  Start: "reachable env empty_vm"
| Step: "reachable env vm \<Longrightarrow> step env vm vm' \<Longrightarrow> reachable env vm'"

inductive_cases stepE: "step env vm vm'"

lemma perform_wf: "perform env c vm = Inr vm' \<Longrightarrow> wf_heap {#} vm \<Longrightarrow> wf_heap {#} vm'"
  by (cases c)
    (auto simp: bnd_Inr_iff tensor_close_def bundle_close_def bundle_export_def intro: wf_new_Tensor dest: keeps_wf)

lemma step_wf: "step env vm vm' \<Longrightarrow> wf_heap {#} vm \<Longrightarrow> wf_heap {#} vm'"
  by (erule stepE) (auto dest: perform_wf)

text \<open>
  C2: no client can break the native heap.  In every state that calls and caught exceptions can
  reach, whatever their order and arguments, every native tensor points to a live buffer, the count
  of a buffer is the number of native tensors that share it, no buffer without owner is left, and
  no address has been handed out twice.
\<close>

theorem reachable_heap_wf:
  assumes "reachable env vm"
  shows "wf_heap {#} vm"
  using assms by induction (auto simp: wf_empty_vm dest: step_wf)

lemma reachable_heap_wf_witness: "reachable demo_env demo_tensor_vm \<and> wf_heap {#} demo_tensor_vm"
proof -
  have "step demo_env empty_vm demo_tensor_vm"
    by (rule step.Call [where c = "NewTensor FLOAT32 [2] False (Some ''x'')"])
      (simp_all add: demo_tensor_vm_def empty_vm_def)
  then have "reachable demo_env demo_tensor_vm" by (rule reachable.Step [OF reachable.Start])
  with reachable_heap_wf show ?thesis by blast
qed

section \<open>A client that keeps to the rules\<close>

text \<open>
  What the documentation of the classes asks of a client: bytes come in direct buffers in native
  order that are large enough, they are read from tensors that have some, inputs are set and named,
  outputs are distinct, training ops have names, and bundles and tensors are used while they are
  open.  Whether a run succeeds is not in the client's hands: the loader and the session may report
  any error, they only return what they promise (\<open>session_contract\<close>).
\<close>

definition session_contract :: "'s env \<Rightarrow> bool" where
  "session_contract env \<longleftrightarrow>
     (\<forall>s ins names targets. case session_run env s ins names targets of (status, outs, s') \<Rightarrow>
        (\<forall>out\<in>set outs. share_ok (length ins) out) \<and> (status_ok status \<longrightarrow> length outs = length names))"

definition open_session :: "'s vm \<Rightarrow> addr \<Rightarrow> ('s smbundle \<times> 's) option" where
  "open_session vm a =
     (case jheap vm a of
        Some (JBundle p) \<Rightarrow> Option.bind (bundles vm p) (\<lambda>sb. map_option (Pair sb) (session sb))
      | _ \<Rightarrow> None)"

definition usable :: "'s vm \<Rightarrow> jref list \<Rightarrow> jref list \<Rightarrow> bool" where
  "usable vm ins outs \<longleftrightarrow>
     (\<forall>i\<in>set ins. usable_input vm i \<noteq> None) \<and> (\<forall>out\<in>set outs. named_tensor vm out \<noteq> None) \<and> distinct outs"

definition has_bytes :: "'s vm \<Rightarrow> jtensor \<Rightarrow> bool" where
  "has_bytes vm t \<longleftrightarrow>
     (case tensors vm (j_handle t) of None \<Rightarrow> False
      | Some nt \<Rightarrow> (case t_buf nt of None \<Rightarrow> False
          | Some b \<Rightarrow> (case buffers vm b of None \<Rightarrow> False
              | Some buf \<Rightarrow> t_dtype nt = jdtype_c (j_dtype t) \<and> int (length (b_data buf)) = jsize t)))"

fun ins_of :: "'s vm \<Rightarrow> jref list \<Rightarrow> (string \<times> tensor) list" where
  "ins_of vm ins = map (\<lambda>i. the (usable_input vm i)) ins"

definition can_set_bytes :: "'s vm \<Rightarrow> jtensor \<Rightarrow> byte_buffer option \<Rightarrow> bool" where
  "can_set_bytes vm t bb \<longleftrightarrow>
     (case bb of None \<Rightarrow> False
      | Some b \<Rightarrow> regular t \<and> (j_isBacked t \<longrightarrow> has_bytes vm t) \<and> bb_native_order b \<and>
          (case bb_mem b of Direct bs \<Rightarrow> jsize t \<le> int (length bs) | _ \<Rightarrow> False))"

fun allowed :: "'s env \<Rightarrow> 's vm \<Rightarrow> call \<Rightarrow> bool" where
  "allowed env vm (NewTensor d sh sc n) \<longleftrightarrow> True"
| "allowed env vm (NewTensorBytes d sh sc n bb) \<longleftrightarrow>
     can_set_bytes vm \<lparr>j_dtype = d, j_shape = sh, j_name = n, j_scalar = sc, j_isBacked = False, j_handle = 0\<rparr> bb"
| "allowed env vm (SetBytes a bb) \<longleftrightarrow>
     (case jheap vm a of Some (JTensor t) \<Rightarrow> can_set_bytes vm t bb | _ \<Rightarrow> False)"
| "allowed env vm (GetBytes a) \<longleftrightarrow>
     (case jheap vm a of Some (JTensor t) \<Rightarrow> regular t \<and> has_bytes vm t | _ \<Rightarrow> False)"
| "allowed env vm (CloseTensor a) \<longleftrightarrow>
     (case jheap vm a of Some (JTensor t) \<Rightarrow> j_handle t = 0 \<or> tensors vm (j_handle t) \<noteq> None | _ \<Rightarrow> False)"
| "allowed env vm (OpenModel path m) \<longleftrightarrow> True"
| "allowed env vm (Run a ins outs) \<longleftrightarrow> open_session vm a \<noteq> None \<and> usable vm ins outs"
| "allowed env vm (TrainStep a ins outs ops) \<longleftrightarrow>
     open_session vm a \<noteq> None \<and> usable vm ins outs \<and> None \<notin> set ops"
| "allowed env vm (Export a path) \<longleftrightarrow> open_session vm a \<noteq> None"
| "allowed env vm (CloseModel a) \<longleftrightarrow> open_session vm a \<noteq> None"

text \<open>A training step one of whose two session runs reports an error.\<close>

fun step_fails :: "'s env \<Rightarrow> 's vm \<Rightarrow> call \<Rightarrow> bool" where
  "step_fails env vm (TrainStep a ins outs ops) \<longleftrightarrow>
     (case open_session vm a of None \<Rightarrow> False
      | Some (sb, s) \<Rightarrow>
          (case session_run env s (input_vals vm (ins_of vm ins)) [] (map (cstring \<circ> the) ops) of
             (st1, _, s1) \<Rightarrow> \<not> status_ok st1 \<or>
               \<not> status_ok (fst (session_run env s1 (input_vals vm (ins_of vm ins))
                 (map (\<lambda>out. fst (the (named_tensor vm out))) outs) []))))"
| "step_fails env vm _ \<longleftrightarrow> False"

lemma has_bytes_backed: "has_bytes vm t \<longleftrightarrow> (\<exists>b buf. backed vm t b buf)"
  by (auto simp: has_bytes_def backed_def split: option.splits)

lemma open_session_Some:
  "open_session vm a = Some (sb, s) \<longleftrightarrow>
   (\<exists>p. jheap vm a = Some (JBundle p) \<and> bundles vm p = Some sb \<and> session sb = Some s)"
  by (auto simp: open_session_def split: option.splits jobject.splits Option.bind_splits)

lemma usable_ready:
  assumes "wf_heap {#} vm" and "pending vm = None" and "open_session vm a = Some (sb, s)" and "usable vm ins outs"
  shows "\<exists>p oas. outs = map Some oas \<and>
     ready vm a p sb s ins (ins_of vm ins) oas (map (\<lambda>out. the (named_tensor vm out)) outs)"
proof -
  from assms(3) obtain p where p: "jheap vm a = Some (JBundle p)" "bundles vm p = Some sb" "session sb = Some s"
    by (auto simp: open_session_Some)
  have outs: "outs = map Some (map the outs)"
    using assms(4) by (auto simp: usable_def map_idI named_tensor_def split: Option.bind_splits)
  have "map (usable_input vm) ins = map Some (ins_of vm ins)" using assms(4) by (auto simp: usable_def)
  moreover have "map (\<lambda>a. named_tensor vm (Some a)) (map the outs) = map (named_tensor vm) outs"
    by (subst (2) outs) (simp add: o_def)
  moreover have "map (named_tensor vm) outs = map Some (map (\<lambda>out. the (named_tensor vm out)) outs)"
    using assms(4) by (auto simp: usable_def)
  moreover have "distinct (map the outs)"
    using assms(4) outs by (metis distinct_map usable_def)
  ultimately have "ready vm a p sb s ins (ins_of vm ins) (map the outs) (map (\<lambda>out. the (named_tensor vm out)) outs)"
    using p assms(1,2) unfolding ready_def by metis
  with outs show ?thesis by blast
qed

section \<open>Allowed calls return\<close>

named_theorems call_returns \<open>an allowed call of one kind returns\<close>

lemma session_contractD:
  assumes "session_contract env" and "session_run env s (input_vals vm ins) names targets = (status, outs, s')"
  shows "\<forall>out\<in>set outs. share_ok (length ins) out" and "status_ok status \<Longrightarrow> length outs = length names"
proof -
  note C = assms(1) [unfolded session_contract_def, THEN spec [of _ s],
      THEN spec [of _ "input_vals vm ins"], THEN spec [of _ names], THEN spec [of _ targets]]
  from C assms(2) show "\<forall>out\<in>set outs. share_ok (length ins) out" by (simp add: input_vals_def)
  from C assms(2) show "status_ok status \<Longrightarrow> length outs = length names" by simp
qed

lemma can_set_bytesE:
  assumes "can_set_bytes vm t bb"
  obtains b bs where "bb = Some b" "bb_mem b = Direct bs" "bb_native_order b" "jsize t \<le> int (length bs)" "regular t"
    "j_isBacked t \<Longrightarrow> \<exists>c buf. backed vm t c buf"
proof -
  obtain b where b: "bb = Some b" using assms by (cases bb) (simp_all add: can_set_bytes_def)
  with assms obtain bs where "bb_mem b = Direct bs" by (cases "bb_mem b") (simp_all add: can_set_bytes_def)
  with that b assms show thesis by (auto simp: can_set_bytes_def has_bytes_backed)
qed

lemma set_bytes_returns [call_returns]:
  assumes "wf_heap {#} vm" and "pending vm = None" and "allowed env vm (SetBytes a bb)" and "allocates env"
  shows "\<exists>vm'. perform env (SetBytes a bb) vm = Inr vm'"
proof -
  obtain t where t: "jheap vm a = Some (JTensor t)" "can_set_bytes vm t bb"
    using assms(3) by (auto split: option.splits jobject.splits)
  from t(2) obtain b bs where b: "bb = Some b" "bb_mem b = Direct bs" "bb_native_order b" "jsize t \<le> int (length bs)"
    "regular t" "j_isBacked t \<Longrightarrow> \<exists>c buf. backed vm t c buf" by (rule can_set_bytesE) blast
  from setBytes_spec [OF assms(1,2) t(1) b(5) assms(4) b(6,2,3,4)] show ?thesis using b(1) by auto
qed

lemma new_tensor_bytes_returns [call_returns]:
  assumes "wf_heap {#} vm" and "pending vm = None" and "allowed env vm (NewTensorBytes d sh sc n bb)" and "allocates env"
  shows "\<exists>vm'. perform env (NewTensorBytes d sh sc n bb) vm = Inr vm'"
proof -
  let ?vm = "snd (new_Tensor d sh sc n vm)"
  let ?t = "\<lparr>j_dtype = d, j_shape = sh, j_name = n, j_scalar = sc, j_isBacked = False, j_handle = 0\<rparr>"
  have vm: "wf_heap {#} ?vm" "pending ?vm = None" "jheap ?vm (brk vm) = Some (JTensor ?t)"
    using assms(1,2) by (simp_all add: wf_new_Tensor)
  from assms(3) have "can_set_bytes vm ?t bb" by simp
  then obtain b bs where b: "bb = Some b" "bb_mem b = Direct bs" "bb_native_order b" "jsize ?t \<le> int (length bs)"
    "regular ?t" by (rule can_set_bytesE) blast
  have "j_isBacked ?t \<Longrightarrow> \<exists>c buf. backed ?vm ?t c buf" by simp
  from setBytes_spec [OF vm b(5) assms(4) this b(2-4)] obtain vm' where "setBytes env (brk vm) (Some b) ?vm = Inr vm'" by blast
  then show ?thesis using b(1) by (simp add: new_Tensor_bytes_def case_prod_unfold)
qed

lemma get_bytes_returns [call_returns]:
  assumes "wf_heap {#} vm" and "pending vm = None" and "allowed env vm (GetBytes a)"
  shows "\<exists>vm'. perform env (GetBytes a) vm = Inr vm'"
proof -
  from assms(3) obtain t b buf where t: "jheap vm a = Some (JTensor t)" "regular t" "backed vm t b buf"
    by (auto simp: has_bytes_backed split: option.splits jobject.splits)
  from getBytes_backed(1) [OF assms(1,2) t(1,3,2), of env] show ?thesis by simp
qed

lemma close_tensor_returns [call_returns]:
  assumes "wf_heap {#} vm" and "pending vm = None" and "allowed env vm (CloseTensor a)"
  shows "\<exists>vm'. perform env (CloseTensor a) vm = Inr vm'"
proof -
  from assms(3) obtain t where t: "jheap vm a = Some (JTensor t)"
    "j_handle t = 0 \<or> tensors vm (j_handle t) \<noteq> None"
    by (auto split: option.splits jobject.splits)
  have "\<exists>vm'. delete_tensor (j_handle t) vm = Inr vm'"
  proof (cases "tensors vm (j_handle t)")
    case None
    with t(2) show ?thesis by (simp add: delete_tensor_def)
  next
    case (Some nt)
    from delete_tensor_spec [OF assms(1) this] show ?thesis by blast
  qed
  with t(1) assms(2) show ?thesis by (simp add: tensor_close_def Tensor_delete_def)
qed

lemma open_model_returns [call_returns]:
  "pending vm = None \<Longrightarrow> \<exists>vm'. perform env (OpenModel path m) vm = Inr vm'"
  by (simp add: new_SavedModelBundle_eq Let_def split: prod.split)

lemma run_returns [call_returns]:
  assumes "wf_heap {#} vm" and "pending vm = None" and "allowed env vm (Run a ins outs)"
    and "session_contract env" and "malloc_ok env"
  shows "\<exists>vm'. perform env (Run a ins outs) vm = Inr vm'"
proof -
  from assms(3) obtain sb s where o: "open_session vm a = Some (sb, s)" "usable vm ins outs" by auto
  from usable_ready [OF assms(1,2) o] obtain p oas onames where
    r: "outs = map Some oas" "ready vm a p sb s ins (ins_of vm ins) oas onames" by blast
  obtain status os s' where run: "session_run env s (input_vals vm (ins_of vm ins)) (map fst onames) [] = (status, os, s')"
    using prod_cases3 by blast
  note contract = session_contractD [OF assms(4) run]
  have len: "length onames = length oas" using readyD(7) [OF r(2)] by (metis length_map)
  show ?thesis
  proof (cases status)
    case StatusOK
    with run_delivers [OF r(2) run [unfolded StatusOK]] contract len show ?thesis
      using r(1) by (auto simp: status_ok_def)
  next
    case (StatusError code msg)
    from run_rejects [OF r(2) run [unfolded StatusError] contract(1) assms(5)] show ?thesis
      using r(1) by auto
  qed
qed

lemma train_returns [call_returns]:
  assumes "wf_heap {#} vm" and "pending vm = None" and "allowed env vm (TrainStep a ins outs ops)"
    and "\<not> step_fails env vm (TrainStep a ins outs ops)" and "session_contract env"
  shows "\<exists>vm'. perform env (TrainStep a ins outs ops) vm = Inr vm'"
proof -
  from assms(3) obtain sb s where o: "open_session vm a = Some (sb, s)" "usable vm ins outs" "None \<notin> set ops"
    by auto
  let ?vals = "input_vals vm (ins_of vm ins)"
  let ?on = "map (\<lambda>out. the (named_tensor vm out)) outs"
  from usable_ready [OF assms(1,2) o(1,2)] obtain p oas where
    r: "outs = map Some oas" "ready vm a p sb s ins (ins_of vm ins) oas ?on" by blast
  have "map (Some \<circ> the) ops = ops" using o(3) by (intro map_idI) (metis comp_apply option.collapse)
  then have ops: "ops = map Some (map the ops)" by simp
  obtain st1 os1 s1 where run1: "session_run env s ?vals [] (map cstring (map the ops)) = (st1, os1, s1)"
    using prod_cases3 by blast
  obtain st2 os2 s2 where run2: "session_run env s1 ?vals (map fst ?on) [] = (st2, os2, s2)"
    using prod_cases3 by blast
  have "st1 = StatusOK" "st2 = StatusOK"
    using assms(4) o(1) run1 run2 by (auto simp: status_ok_def o_def)
  note run = run1 [unfolded this] run2 [unfolded this]
  note contract = session_contractD [OF assms(5) run(2)]
  have "length os2 = length oas" using contract(2) r(1) by (simp add: status_ok_def)
  with train_delivers [OF r(2) run] contract(1) show ?thesis
    using r(1) ops by (metis perform.simps(8))
qed

lemma export_returns [call_returns]:
  assumes "wf_heap {#} vm" and "pending vm = None" and "allowed env vm (Export a path)" and "malloc_ok env"
  shows "\<exists>vm'. perform env (Export a path) vm = Inr vm'"
proof -
  from assms(3) obtain sb s p where o: "jheap vm a = Some (JBundle p)" "bundles vm p = Some sb" "session sb = Some s"
    by (auto simp: open_session_Some)
  obtain st os s' where "session_run env s [(filename_tensor_name sb, TString (cstring path @ ''/checkpoint''))] []
         [save_tensor_name sb] = (st, os, s')" using prod_cases3 by blast
  from bundle_export_eq [OF assms(1,2) o(1) assms(4) o(2,3) this] assms(2) show ?thesis
    by (simp add: report_def ThrowException_def log_print_def)
qed

lemma close_model_returns [call_returns]:
  assumes "wf_heap {#} vm" and "pending vm = None" and "allowed env vm (CloseModel a)"
  shows "\<exists>vm'. perform env (CloseModel a) vm = Inr vm'"
proof -
  from assms(3) obtain sb s p where o: "jheap vm a = Some (JBundle p)" "bundles vm p = Some sb" "session sb = Some s"
    by (auto simp: open_session_Some)
  have "p \<noteq> 0" using boundedD [OF wf_heapD(5) [OF assms(1)] o(2)] by simp
  with o assms(2) show ?thesis
    by (simp add: bundle_close_def Bundle_delete_def deref_bundle_def split: prod.split)
qed



end
