(* ===== verification/Faults.thy ===== *)
theory Faults
  imports Prelude "HOL-Library.While_Combinator" "HOL-Library.Word"
begin

unbundle bit_operations_syntax

text \<open>
  Shared by the models of the containers in \<open>core/\<close>: machine integers, results, checked accesses to
  arrays and loops.  \<open>size_t\<close> is a 64-bit word and \<open>uint32\<close> a 32-bit word.  An operation returns \<open>Inr\<close>,
  or \<open>Inl\<close> of the fault it ends with; one of the faults is that a loop never ends (\<open>NoReturn\<close>).
\<close>

section \<open>Faults and loops\<close>

datatype fault =
    OutsideArray | DcheckFailed | NoObject | NullBucket | ShiftTooFar | SignedOverflow | DivisionByZero
  | NoReturn

type_synonym 'a out = "fault + 'a"

type_synonym size_t = "64 word"
type_synonym uint32 = "32 word"
type_synonym uint8 = "8 word"

definition dcheck :: "bool \<Rightarrow> unit out" where
  "dcheck b = (if b then Inr () else Inl DcheckFailed)"

definition get :: "'a list \<Rightarrow> nat \<Rightarrow> 'a out" where
  "get xs i = (if i < length xs then Inr (xs ! i) else Inl OutsideArray)"

definition put :: "'a list \<Rightarrow> nat \<Rightarrow> 'a \<Rightarrow> 'a list out" where
  "put xs i x = (if i < length xs then Inr (xs[i := x]) else Inl OutsideArray)"

definition object :: "'a option \<Rightarrow> 'a out" where
  "object x = (case x of None \<Rightarrow> Inl NoObject | Some y \<Rightarrow> Inr y)"

text \<open>\<open>while (true)\<close>: the body goes on with a new state or leaves the loop with a result.\<close>

definition forever :: "('s \<Rightarrow> ('s + 'a) out) \<Rightarrow> 's \<Rightarrow> 'a out" where
  "forever body s =
     (case while_option (\<lambda>x. case x of Inr (Inl _) \<Rightarrow> True | _ \<Rightarrow> False)
             (\<lambda>x. case x of Inr (Inl s) \<Rightarrow> body s | _ \<Rightarrow> x) (Inr (Inl s)) of
        None \<Rightarrow> Inl NoReturn
      | Some (Inl e) \<Rightarrow> Inl e
      | Some (Inr (Inl _)) \<Rightarrow> Inl NoReturn
      | Some (Inr (Inr a)) \<Rightarrow> Inr a)"

primrec for_each :: "'i list \<Rightarrow> ('i \<Rightarrow> 's \<Rightarrow> 's out) \<Rightarrow> 's \<Rightarrow> 's out" where
  "for_each [] f s = Inr s"
| "for_each (i # is) f s = bnd (f i s) (for_each is f)"

section \<open>Accesses\<close>

lemma get_in [simp]: "i < length xs \<Longrightarrow> get xs i = Inr (xs ! i)"
  by (simp add: get_def)

lemma put_in [simp]: "i < length xs \<Longrightarrow> put xs i x = Inr (xs[i := x])"
  by (simp add: put_def)

lemma object_Some [simp]: "object (Some x) = Inr x" and object_None [simp]: "object None = Inl NoObject"
  by (simp_all add: object_def)

lemma dcheck_True [simp]: "dcheck True = Inr ()" and dcheck_False [simp]: "dcheck False = Inl DcheckFailed"
  by (simp_all add: dcheck_def)

section \<open>Words\<close>

lemma unat_take_bit_mod: "unat (take_bit m (w :: 'a :: len word)) = unat w mod 2 ^ m"
proof -
  have "unat (take_bit m w) = take_bit m (unat w)" by (rule unsigned_take_bit_eq)
  then show ?thesis by (simp only: take_bit_eq_mod [of m "unat w"])
qed

lemma unat_drop_bit_div: "unat (drop_bit m (w :: 'a :: len word)) = unat w div 2 ^ m"
  using unat_drop_bit_eq [of m w] by (simp only: drop_bit_eq_div [of m "unat w"])

lemma unat_and_mask: "unat (w AND of_nat (2 ^ m - 1) :: size_t) = unat w mod 2 ^ m"
proof -
  have "(of_nat (2 ^ m - 1) :: size_t) = mask m" by (simp add: mask_eq_exp_minus_1 of_nat_diff)
  then show ?thesis by (simp only: unat_take_bit_mod flip: take_bit_eq_mask)
qed

lemma unat_of_nat_small [simp]: "n < 2 ^ 64 \<Longrightarrow> unat (of_nat n :: size_t) = n"
  by (simp add: unat_of_nat take_bit_nat_eq_self)

lemma word64_less: "unat (x :: 64 word) < 2 ^ 64"
  using unsigned_less [of x, where 'a = nat] by simp

section \<open>Loops that leave, loops that stay\<close>

lemma forever_unfold:
  fixes body :: "'s \<Rightarrow> ('s + 'a) out"
  shows "forever body s =
     (case body s of Inl e \<Rightarrow> Inl e | Inr (Inl s') \<Rightarrow> forever body s' | Inr (Inr a) \<Rightarrow> Inr a)"
proof -
  let ?run = "\<lambda>x :: ('s + 'a) out. case x of Inr (Inl _) \<Rightarrow> True | _ \<Rightarrow> False"
  let ?step = "\<lambda>x :: ('s + 'a) out. case x of Inr (Inl s) \<Rightarrow> body s | _ \<Rightarrow> x"
  have "while_option ?run ?step (Inr (Inl s)) = while_option ?run ?step (body s)"
    by (subst while_option_unfold) simp
  moreover have "while_option ?run ?step (Inl e) = Some (Inl e)" for e
    by (subst while_option_unfold) simp
  moreover have "while_option ?run ?step (Inr (Inr a)) = Some (Inr (Inr a))" for a
    by (subst while_option_unfold) simp
  ultimately show ?thesis by (simp add: forever_def split: sum.split)
qed

lemma forever_steps:
  "(\<And>t. t < n \<Longrightarrow> body (st t) = Inr (Inl (st (Suc t)))) \<Longrightarrow> forever body (st 0) = forever body (st n)"
proof (induction n)
  case 0
  then show ?case by simp
next
  case (Suc n)
  have "forever body (st n) = forever body (st (Suc n))"
    by (subst forever_unfold) (simp add: Suc.prems)
  with Suc.IH Suc.prems show ?case by simp
qed

lemma forever_leaves:
  assumes "\<And>t. t < n \<Longrightarrow> body (st t) = Inr (Inl (st (Suc t)))" "body (st n) = Inr (Inr a)"
  shows "forever body (st 0) = Inr a"
proof -
  have "forever body (st 0) = forever body (st n)" by (rule forever_steps) (rule assms(1))
  also have "\<dots> = Inr a" by (subst forever_unfold) (simp add: assms(2))
  finally show ?thesis .
qed

lemma forever_stays:
  fixes body :: "'s \<Rightarrow> ('s + 'a) out"
  assumes "P s" "\<And>s. P s \<Longrightarrow> \<exists>s'. body s = Inr (Inl s') \<and> P s'"
  shows "forever body s = Inl NoReturn"
proof -
  let ?run = "\<lambda>x :: ('s + 'a) out. case x of Inr (Inl _) \<Rightarrow> True | _ \<Rightarrow> False"
  let ?step = "\<lambda>x :: ('s + 'a) out. case x of Inr (Inl s) \<Rightarrow> body s | _ \<Rightarrow> x"
  let ?I = "\<lambda>x. \<exists>s. x = Inr (Inl s) \<and> P s"
  have "while_option ?run ?step (Inr (Inl s)) = None"
  proof (rule ccontr)
    assume "while_option ?run ?step (Inr (Inl s)) \<noteq> None"
    then obtain t where t: "while_option ?run ?step (Inr (Inl s)) = Some t" by auto
    have "?I t" by (rule while_option_rule [where P = ?I, OF _ t]) (use assms in auto)
    moreover have "\<not> ?run t" by (rule while_option_stop [OF t])
    ultimately show False by auto
  qed
  then show ?thesis by (simp add: forever_def)
qed

text \<open>A loop with a ghost count that falls leaves with a result its invariant promises.\<close>

lemma forever_rule:
  fixes n :: nat
  assumes "I n s"
    and "\<And>n s. I n s \<Longrightarrow> (\<exists>a. body s = Inr (Inr a) \<and> R a) \<or> (\<exists>s' n'. body s = Inr (Inl s') \<and> n' < n \<and> I n' s')"
  shows "\<exists>a. forever body s = Inr a \<and> R a"
  using assms(1)
proof (induction n arbitrary: s rule: less_induct)
  case (less n)
  from assms(2) [OF less.prems] show ?case
  proof (elim disjE exE conjE)
    fix a assume "body s = Inr (Inr a)" "R a"
    then show ?thesis by (subst forever_unfold) simp
  next
    fix s' n' assume "body s = Inr (Inl s')" "n' < n" "I n' s'"
    with less.IH [of n' s'] show ?thesis by (subst forever_unfold) simp
  qed
qed

lemma for_each_append: "for_each (xs @ ys) f s = bnd (for_each xs f s) (for_each ys f)"
proof (induction xs arbitrary: s)
  case Nil
  then show ?case by simp
next
  case (Cons x xs)
  then show ?case by (cases "f x s") simp_all
qed

lemma for_each_concat: "for_each xs (\<lambda>x. for_each (g x) (f x)) s = for_each (concat (map (\<lambda>x. map (Pair x) (g x)) xs)) (\<lambda>(x, y). f x y) s"
proof (induction xs arbitrary: s)
  case Nil
  then show ?case by simp
next
  case (Cons x xs)
  have "for_each (map (Pair x) ys) (\<lambda>(x, y). f x y) s = for_each ys (f x) s" for ys
  proof (induction ys arbitrary: s)
    case (Cons y ys)
    show ?case by (simp add: bnd_def Cons split: sum.split)
  qed simp
  with Cons show ?case by (simp add: for_each_append bnd_def split: sum.split)
qed

lemma for_each_map: "for_each (map h xs) f s = for_each xs (\<lambda>x. f (h x)) s"
proof (induction xs arbitrary: s)
  case (Cons x xs)
  show ?case by (simp add: bnd_def Cons split: sum.split)
qed simp

lemma for_each_rule:
  assumes "P 0 s" "\<And>i s. i < n \<Longrightarrow> P i s \<Longrightarrow> \<exists>s'. f i s = Inr s' \<and> P (Suc i) s'"
  shows "\<exists>s'. for_each [0..<n] f s = Inr s' \<and> P n s'"
  using assms(2)
proof (induction n)
  case 0
  then show ?case using assms(1) by simp
next
  case (Suc n)
  then obtain s' where "for_each [0..<n] f s = Inr s'" "P n s'" by (meson less_SucI)
  with Suc.prems [of n s'] show ?case by (auto simp: for_each_append)
qed

end
