(* ===== verification/Flat_Rep.thy ===== *)
theory Flat_Rep
  imports Faults
begin

unbundle bit_operations_syntax

text \<open>
  \<open>core/lib/gtl/flatrep.h\<close>: the open-addressed hash table behind \<open>FlatMap\<close> and \<open>FlatSet\<close>, and
  \<open>core/lib/hash/hash.h\<close>, the hash functions for it.

  The table is an array of buckets of eight slots.  A slot's marker says whether it is empty, was
  deleted or holds a key, and then it is the key's hash modulo 256 (but at least 2).  A \<open>Bucket*\<close> is the index of the bucket
  in the table's array, \<open>nullptr\<close> is \<open>None\<close>, \<open>end\<close> is the length of the array.  Storage
  in which no object has been constructed, or whose object has been destroyed, is \<open>None\<close>; the value
  storage of a \<open>FlatSet\<close>, which has none, is \<open>Some ()\<close> as soon as the key is there.
  The allocations succeed.
\<close>


section \<open>Hash functions\<close>

definition Hash64Combine :: "64 word \<Rightarrow> 64 word \<Rightarrow> 64 word" where
  "Hash64Combine a b = a XOR (b + 0x9e3779b97f4a7800 + push_bit 10 a + drop_bit 4 a)"

definition Hash64CombineUnordered :: "64 word \<Rightarrow> 64 word \<Rightarrow> 64 word" where
  "Hash64CombineUnordered a b = a + b"

definition hash_pointer :: "64 word \<Rightarrow> size_t" where
  "hash_pointer t = t + drop_bit 6 t"

definition hash_pair :: "('a \<Rightarrow> size_t) \<Rightarrow> ('b \<Rightarrow> size_t) \<Rightarrow> 'a \<times> 'b \<Rightarrow> size_t" where
  "hash_pair hash_T hash_U p = Hash64Combine (hash_T (fst p)) (hash_U (snd p))"

section \<open>Buckets\<close>

record ('k, 'v) bucket =
  b_marker :: "uint8 list"
  b_key :: "'k option list"
  b_val :: "'v option list"

definition kWidth :: nat where "kWidth = 8"

abbreviation (input) kBase :: nat where "kBase \<equiv> 3"
abbreviation (input) kEmpty :: "'w :: len word" where "kEmpty \<equiv> 0"
abbreviation (input) kDeleted :: "'w :: len word" where "kDeleted \<equiv> 1"

definition bucket_key :: "('k, 'v) bucket \<Rightarrow> nat \<Rightarrow> 'k out" where
  "bucket_key b i =
     bnd (get (b_marker b) i) (\<lambda>m. bnd (dcheck (2 \<le> m)) (\<lambda>_. bnd (get (b_key b) i) object))"

definition bucket_val :: "('k, 'v) bucket \<Rightarrow> nat \<Rightarrow> 'v out" where
  "bucket_val b i =
     bnd (get (b_marker b) i) (\<lambda>m. bnd (dcheck (2 \<le> m)) (\<lambda>_. bnd (get (b_val b) i) object))"

definition bucket_Destroy :: "nat \<Rightarrow> ('k, 'v) bucket \<Rightarrow> ('k, 'v) bucket out" where
  "bucket_Destroy i b =
     bnd (get (b_key b) i) (\<lambda>k. bnd (object k) (\<lambda>_.
     bnd (get (b_val b) i) (\<lambda>v. bnd (object v) (\<lambda>_.
     bnd (put (b_key b) i None) (\<lambda>ks. bnd (put (b_val b) i None) (\<lambda>vs.
     Inr (b\<lparr>b_key := ks, b_val := vs\<rparr>)))))))"

definition set_marker :: "nat \<Rightarrow> uint8 \<Rightarrow> ('k, 'v) bucket \<Rightarrow> ('k, 'v) bucket out" where
  "set_marker i m b = bnd (put (b_marker b) i m) (\<lambda>ms. Inr (b\<lparr>b_marker := ms\<rparr>))"

text \<open>\<open>Bucket::CopyFrom\<close> and \<open>Bucket::MoveFrom\<close>; an object that was moved from is still there to be destroyed.\<close>

definition bucket_CopyFrom :: "nat \<Rightarrow> ('k, 'v) bucket \<Rightarrow> nat \<Rightarrow> ('k, 'v) bucket \<Rightarrow> ('k, 'v) bucket out" where
  "bucket_CopyFrom i src src_index b =
     bnd (get (b_key src) src_index) (\<lambda>k. bnd (object k) (\<lambda>k.
     bnd (get (b_val src) src_index) (\<lambda>v. bnd (object v) (\<lambda>v.
     bnd (put (b_key b) i (Some k)) (\<lambda>ks. bnd (put (b_val b) i (Some v)) (\<lambda>vs.
     Inr (b\<lparr>b_key := ks, b_val := vs\<rparr>)))))))"

definition bucket_MoveFrom :: "nat \<Rightarrow> ('k, 'v) bucket \<Rightarrow> nat \<Rightarrow> ('k, 'v) bucket \<Rightarrow> ('k, 'v) bucket out" where
  "bucket_MoveFrom = bucket_CopyFrom"

section \<open>The table\<close>

record ('k, 'v) rep =
  hash_fn :: "'k \<Rightarrow> size_t"
  equal_fn :: "'k \<Rightarrow> 'k \<Rightarrow> bool"
  lglen :: uint8
  table :: "('k, 'v) bucket list"
  index_mask :: size_t
  not_empty :: size_t
  deleted :: size_t
  grow :: size_t
  shrink :: size_t

record search_result =
  found :: bool
  sr_b :: "nat option"
  sr_index :: nat

definition rep_size :: "('k, 'v) rep \<Rightarrow> size_t" where
  "rep_size r = not_empty r - deleted r"

definition bucket_count :: "('k, 'v) rep \<Rightarrow> size_t" where
  "bucket_count r = index_mask r + 1"

definition Marker :: "uint32 \<Rightarrow> uint32" where
  "Marker hb = hb + (if hb < 2 then 2 else 0)"

definition rep_NextIndex :: "('k, 'v) rep \<Rightarrow> size_t \<Rightarrow> uint32 \<Rightarrow> size_t" where
  "rep_NextIndex r i num_probes = (i + ucast num_probes) AND index_mask r"

definition start_index :: "('k, 'v) rep \<Rightarrow> size_t \<Rightarrow> size_t" where
  "start_index r h = drop_bit 8 h AND index_mask r"

definition hash_marker :: "size_t \<Rightarrow> uint32" where
  "hash_marker h = Marker (ucast (h AND 0xff))"

text \<open>The slot of an index: bucket number, index in the bucket, and the marker there.\<close>

definition slot_of :: "size_t \<Rightarrow> nat \<times> nat" where
  "slot_of index = (unat (drop_bit kBase index), unat (index AND (of_nat kWidth - 1)))"

definition marker_at :: "('k, 'v) rep \<Rightarrow> nat \<Rightarrow> nat \<Rightarrow> uint32 out" where
  "marker_at r b bi = bnd (get (table r) b) (\<lambda>bu. bnd (get (b_marker bu) bi) (\<lambda>m. Inr (ucast m)))"

definition key_at :: "('k, 'v) rep \<Rightarrow> nat \<Rightarrow> nat \<Rightarrow> 'k out" where
  "key_at r b bi = bnd (get (table r) b) (\<lambda>bu. bucket_key bu bi)"

definition val_at :: "('k, 'v) rep \<Rightarrow> nat \<Rightarrow> nat \<Rightarrow> 'v out" where
  "val_at r b bi = bnd (get (table r) b) (\<lambda>bu. bucket_val bu bi)"

definition on_bucket ::
    "nat \<Rightarrow> (('k, 'v) bucket \<Rightarrow> ('k, 'v) bucket out) \<Rightarrow> ('k, 'v) rep \<Rightarrow> ('k, 'v) rep out" where
  "on_bucket b f r =
     bnd (get (table r) b) (\<lambda>bu. bnd (f bu) (\<lambda>bu. Inr (r\<lparr>table := (table r)[b := bu]\<rparr>)))"

text \<open>\<open>x == marker && equal_(b->key(bi), k)\<close>\<close>

definition hit :: "('k, 'v) rep \<Rightarrow> 'k \<Rightarrow> uint32 \<Rightarrow> uint32 \<Rightarrow> nat \<Rightarrow> nat \<Rightarrow> bool out" where
  "hit r k marker x b bi =
     (if x = marker then bnd (key_at r b bi) (\<lambda>k'. Inr (equal_fn r k' k)) else Inr False)"

definition Find :: "('k, 'v) rep \<Rightarrow> 'k \<Rightarrow> search_result out" where
  "Find r k =
     (let h = hash_fn r k; marker = hash_marker h in
      forever (\<lambda>(index, num_probes).
        let (b, bi) = slot_of index in
        bnd (marker_at r b bi) (\<lambda>x.
        bnd (hit r k marker x b bi) (\<lambda>eq.
        if eq then Inr (Inr \<lparr>found = True, sr_b = Some b, sr_index = bi\<rparr>)
        else if x = kEmpty then Inr (Inr \<lparr>found = False, sr_b = None, sr_index = 0\<rparr>)
        else Inr (Inl (rep_NextIndex r index num_probes, num_probes + 1)))))
      (start_index r h, 1))"

text \<open>
  The slot of a new key: the first deleted slot on the way, or else the empty slot the search ended
  at.  \<open>v\<close> is the value storage next to a new key.
\<close>

definition insert_key :: "nat \<Rightarrow> uint32 \<Rightarrow> 'k \<Rightarrow> 'v option \<Rightarrow> ('k, 'v) bucket \<Rightarrow> ('k, 'v) bucket out" where
  "insert_key bi marker k v bu =
     bnd (set_marker bi (ucast marker) bu) (\<lambda>bu.
     bnd (get (b_marker bu) bi) (\<lambda>m. bnd (dcheck (2 \<le> m)) (\<lambda>_.
     bnd (put (b_key bu) bi (Some k)) (\<lambda>ks. bnd (put (b_val bu) bi v) (\<lambda>vs.
     Inr (bu\<lparr>b_key := ks, b_val := vs\<rparr>))))))"

definition FindOrInsert ::
    "'v option \<Rightarrow> ('k, 'v) rep \<Rightarrow> 'k \<Rightarrow> (('k, 'v) rep \<times> search_result) out" where
  "FindOrInsert v r k =
     (let h = hash_fn r k; marker = hash_marker h in
      forever (\<lambda>(index, num_probes, del, di).
        let (b, bi) = slot_of index in
        bnd (marker_at r b bi) (\<lambda>x.
        bnd (hit r k marker x b bi) (\<lambda>eq.
        if eq then Inr (Inr (r, \<lparr>found = True, sr_b = Some b, sr_index = bi\<rparr>))
        else if del = None \<and> x = kDeleted then Inr (Inl (rep_NextIndex r index num_probes, num_probes + 1, Some b, bi))
        else if x = kEmpty then
          (let (b, bi, r) = (case del of Some d \<Rightarrow> (d, di, r\<lparr>deleted := deleted r - 1\<rparr>)
                             | None \<Rightarrow> (b, bi, r\<lparr>not_empty := not_empty r + 1\<rparr>)) in
           bnd (on_bucket b (insert_key bi marker k v) r) (\<lambda>r.
           Inr (Inr (r, \<lparr>found = False, sr_b = Some b, sr_index = bi\<rparr>))))
        else Inr (Inl (rep_NextIndex r index num_probes, num_probes + 1, del, di)))))
      (start_index r h, 1, None, 0))"

definition Erase :: "nat \<Rightarrow> nat \<Rightarrow> ('k, 'v) rep \<Rightarrow> ('k, 'v) rep out" where
  "Erase b i r =
     bnd (on_bucket b (\<lambda>bu. bnd (bucket_Destroy i bu) (set_marker i kDeleted)) r) (\<lambda>r.
     Inr (r\<lparr>deleted := deleted r + 1, grow := 0\<rparr>))"

text \<open>
  \<open>Init\<close>.  \<open>(1 << lg) * kWidth\<close> is a \<open>uint32\<close>; a shift by 32 is undefined.  The products with
  0.8 and 0.4 are exact enough in double precision: the comparison is \<open>5 N \<ge> 4 c\<close> and the casts cut off
  \<open>4 c / 5\<close> and \<open>2 g / 5\<close>, as \<open>c\<close> is a power of two below \<open>2 ^ 32\<close>.
\<close>

definition capacity_lg :: "nat \<Rightarrow> uint32" where
  "capacity_lg lg = push_bit lg 1 * of_nat kWidth"

definition Init_lg :: "size_t \<Rightarrow> nat out" where
  "Init_lg N = forever (\<lambda>lg.
     if 32 \<le> lg then Inl ShiftTooFar
     else if 4 * unat (capacity_lg lg) \<le> 5 * unat N then Inr (Inl (lg + 1))
     else Inr (Inr lg)) 0"

definition new_bucket :: "uint8 \<Rightarrow> ('k, 'v) bucket" where
  "new_bucket m = \<lparr>b_marker = replicate kWidth m, b_key = replicate kWidth None, b_val = replicate kWidth None\<rparr>"

definition Init :: "size_t \<Rightarrow> ('k, 'v) rep \<Rightarrow> ('k, 'v) rep out" where
  "Init N r =
     bnd (Init_lg N) (\<lambda>lg.
     let capacity = ucast (capacity_lg lg) :: size_t; g = of_nat (4 * unat capacity div 5) in
     Inr (r\<lparr>lglen := of_nat lg, index_mask := capacity - 1, table := replicate (2 ^ lg) (new_bucket kEmpty),
            not_empty := 0, deleted := 0, grow := g,
            shrink := (if lg = 0 then 0 else of_nat (2 * unat g div 5))\<rparr>))"

text \<open>
  A copier moves or copies one entry of another table into a slot: bucket and index there, bucket
  and index of the source; it returns both buckets.
\<close>

type_synonym ('k, 'v) copier =
  "('k, 'v) bucket \<Rightarrow> nat \<Rightarrow> ('k, 'v) bucket \<Rightarrow> nat \<Rightarrow> (('k, 'v) bucket \<times> ('k, 'v) bucket) out"

definition CopyEntry :: "('k, 'v) copier" where
  "CopyEntry dst dsti src srci = bnd (bucket_CopyFrom dsti src srci dst) (\<lambda>dst. Inr (dst, src))"

definition MoveEntry :: "('k, 'v) copier" where
  "MoveEntry dst dsti src srci =
     bnd (bucket_MoveFrom dsti src srci dst) (\<lambda>dst.
     bnd (bucket_Destroy srci src) (\<lambda>src. bnd (set_marker srci kDeleted src) (\<lambda>src. Inr (dst, src))))"

definition FreshInsert ::
    "('k, 'v) copier \<Rightarrow> nat \<Rightarrow> ('k, 'v) bucket list \<times> ('k, 'v) rep \<Rightarrow> nat \<Rightarrow> (('k, 'v) bucket list \<times> ('k, 'v) rep) out" where
  "FreshInsert copier sb st src_index =
     (case st of (srcs, r) \<Rightarrow>
      bnd (get srcs sb) (\<lambda>src. bnd (bucket_key src src_index) (\<lambda>k.
      let h = hash_fn r k; marker = hash_marker h in
      forever (\<lambda>(index, num_probes).
        let (b, bi) = slot_of index in
        bnd (marker_at r b bi) (\<lambda>x.
        if x = 0 then
          bnd (on_bucket b (set_marker bi (ucast marker)) r) (\<lambda>r.
          bnd (get (table r) b) (\<lambda>dst. bnd (copier dst bi src src_index) (\<lambda>(dst, src).
          Inr (Inr (srcs[sb := src], r\<lparr>not_empty := not_empty r + 1, table := (table r)[b := dst]\<rparr>)))))
        else Inr (Inl (rep_NextIndex r index num_probes, num_probes + 1))))
      (start_index r h, 1))))"

definition CopyEntries ::
    "('k, 'v) copier \<Rightarrow> ('k, 'v) bucket list \<Rightarrow> ('k, 'v) rep \<Rightarrow> (('k, 'v) bucket list \<times> ('k, 'v) rep) out" where
  "CopyEntries copier srcs r =
     for_each [0..<length srcs] (\<lambda>b.
       for_each [0..<kWidth] (\<lambda>i (srcs, r).
         bnd (get srcs b) (\<lambda>bu. bnd (get (b_marker bu) i) (\<lambda>m.
         if 2 \<le> m then FreshInsert copier b (srcs, r) i else Inr (srcs, r)))))
     (srcs, r)"

definition rep_Resize :: "size_t \<Rightarrow> ('k, 'v) rep \<Rightarrow> ('k, 'v) rep out" where
  "rep_Resize N r = bnd (Init N r) (\<lambda>r'. bnd (CopyEntries MoveEntry (table r) r') (\<lambda>(old, r'). Inr r'))"

definition MaybeResize :: "('k, 'v) rep \<Rightarrow> ('k, 'v) rep out" where
  "MaybeResize r =
     (if not_empty r < grow r then Inr r
      else if grow r = 0 \<and> shrink r \<le> rep_size r then
        (let r = r\<lparr>grow := of_nat (4 * unat (bucket_count r) div 5)\<rparr> in
         if not_empty r < grow r then Inr r else rep_Resize (rep_size r + 1) r)
      else rep_Resize (rep_size r + 1) r)"

definition rep_clear_no_resize :: "('k, 'v) rep \<Rightarrow> ('k, 'v) rep out" where
  "rep_clear_no_resize r =
     bnd (for_each [0..<length (table r)] (\<lambda>b.
            for_each [0..<kWidth] (\<lambda>i r.
              bnd (get (table r) b) (\<lambda>bu. bnd (get (b_marker bu) i) (\<lambda>m.
              if 2 \<le> m then on_bucket b (\<lambda>bu. bnd (bucket_Destroy i bu) (set_marker i kEmpty)) r
              else Inr r)))) r)
       (\<lambda>r. Inr (r\<lparr>not_empty := 0, deleted := 0\<rparr>))"

definition rep_clear :: "('k, 'v) rep \<Rightarrow> ('k, 'v) rep out" where
  "rep_clear r = bnd (rep_clear_no_resize r) (\<lambda>r. MaybeResize (r\<lparr>grow := 0\<rparr>))"

text \<open>The constructors, the destructor, assignment and \<open>swap\<close>.\<close>

definition blank :: "('k \<Rightarrow> size_t) \<Rightarrow> ('k \<Rightarrow> 'k \<Rightarrow> bool) \<Rightarrow> ('k, 'v) rep" where
  "blank hf eq = \<lparr>hash_fn = hf, equal_fn = eq, lglen = 0, table = [], index_mask = 0, not_empty = 0,
                  deleted = 0, grow = 0, shrink = 0\<rparr>"

definition FlatRep :: "size_t \<Rightarrow> ('k \<Rightarrow> size_t) \<Rightarrow> ('k \<Rightarrow> 'k \<Rightarrow> bool) \<Rightarrow> ('k, 'v) rep out" where
  "FlatRep N hf eq = Init N (blank hf eq)"

definition FlatRep_copy :: "('k, 'v) rep \<Rightarrow> ('k, 'v) rep out" where
  "FlatRep_copy src =
     bnd (Init (rep_size src) (blank (hash_fn src) (equal_fn src))) (\<lambda>r.
     bnd (CopyEntries CopyEntry (table src) r) (\<lambda>(_, r). Inr r))"

definition swap_with :: "('k, 'v) rep \<Rightarrow> ('k, 'v) rep \<Rightarrow> ('k, 'v) rep \<times> ('k, 'v) rep" where
  "swap_with r x =
     (x\<lparr>hash_fn := hash_fn r, equal_fn := equal_fn r\<rparr>, r\<lparr>hash_fn := hash_fn x, equal_fn := equal_fn x\<rparr>)"

definition FlatRep_move :: "('k, 'v) rep \<Rightarrow> (('k, 'v) rep \<times> ('k, 'v) rep) out" where
  "FlatRep_move src = bnd (Init 1 (blank (hash_fn src) (equal_fn src))) (\<lambda>r. Inr (swap_with r src))"

definition FlatRep_destroy :: "('k, 'v) rep \<Rightarrow> unit out" where
  "FlatRep_destroy r = bnd (rep_clear_no_resize r) (\<lambda>_. Inr ())"

text \<open>\<open>CopyFrom\<close> and \<open>MoveFrom\<close> of another table; of the table itself they do nothing.\<close>

definition rep_CopyFrom :: "('k, 'v) rep \<Rightarrow> ('k, 'v) rep \<Rightarrow> ('k, 'v) rep out" where
  "rep_CopyFrom src r =
     bnd (rep_clear_no_resize r) (\<lambda>r. bnd (Init (rep_size src) r) (\<lambda>r.
     bnd (CopyEntries CopyEntry (table src) r) (\<lambda>(_, r). Inr r)))"

definition rep_MoveFrom :: "('k, 'v) rep \<Rightarrow> ('k, 'v) rep \<Rightarrow> ('k, 'v) rep \<times> ('k, 'v) rep" where
  "rep_MoveFrom src r = swap_with r src"

section \<open>Loops over all slots\<close>

text \<open>A loop over all slots, bucket by bucket, goes through the global slot numbers.\<close>

lemma slots_upt: "concat (map (\<lambda>b. map (Pair b) [0..<m]) [0..<n]) = map (\<lambda>g. (g div m, g mod m)) [0..<n * m]"
proof (induction n)
  case 0
  then show ?case by simp
next
  case (Suc n)
  have "[0..<Suc n * m] = [0..<n * m] @ map (\<lambda>i. n * m + i) [0..<m]"
    using map_add_upt [of "n * m" m] upt_add_eq_append [of 0 "n * m" m] by (simp add: add.commute)
  moreover have "map (Pair n) [0..<m] = map (\<lambda>i. ((n * m + i) div m, (n * m + i) mod m)) [0..<m]"
    by (intro map_cong) auto
  ultimately show ?case using Suc by simp
qed

lemma for_each_slots:
  "for_each [0..<n] (\<lambda>b. for_each [0..<m] (f b)) s = for_each [0..<n * m] (\<lambda>g. f (g div m) (g mod m)) s"
  using for_each_concat [of "[0..<n]" "\<lambda>_. [0..<m]" f s] unfolding slots_upt for_each_map by simp

section \<open>The slots of a table\<close>

lemma concat_slot:
  assumes "\<forall>x\<in>set xs. length x = n" "g < length xs * n"
  shows "concat xs ! g = xs ! (g div n) ! (g mod n)"
  using assms
proof (induction xs arbitrary: g)
  case Nil
  then show ?case by simp
next
  case (Cons x xs)
  then have n: "0 < n" by (cases n) simp_all
  show ?case
  proof (cases "g < n")
    case True
    with Cons.prems show ?thesis by (simp add: nth_append)
  next
    case False
    then have "g = n + (g - n)" by simp
    moreover have "concat xs ! (g - n) = xs ! ((g - n) div n) ! ((g - n) mod n)"
      using Cons.prems False by (intro Cons.IH) auto
    ultimately show ?thesis using False Cons.prems n
      by (simp add: nth_append le_div_geq le_mod_geq)
  qed
qed

lemma length_concat_slots: "\<forall>x\<in>set xs. length x = n \<Longrightarrow> length (concat xs) = length xs * n"
  by (induction xs) auto

lemma concat_slot_update:
  assumes "\<forall>x\<in>set xs. length x = n" "g < length xs * n"
  shows "concat (xs[g div n := (xs ! (g div n))[g mod n := v]]) = (concat xs)[g := v]"
  using assms
proof (induction xs arbitrary: g)
  case Nil
  then show ?case by simp
next
  case (Cons x xs)
  then have n: "0 < n" by (cases n) simp_all
  show ?case
  proof (cases "g < n")
    case True
    with Cons.prems show ?thesis by (simp add: list_update_append)
  next
    case False
    moreover have "concat (xs[(g - n) div n := (xs ! ((g - n) div n))[(g - n) mod n := v]]) = (concat xs)[g - n := v]"
      using Cons.prems False by (intro Cons.IH) auto
    ultimately show ?thesis using Cons.prems n
      by (simp add: list_update_append le_div_geq le_mod_geq)
  qed
qed

definition markers :: "('k, 'v) bucket list \<Rightarrow> uint8 list" where
  "markers T = concat (map b_marker T)"

definition keys :: "('k, 'v) bucket list \<Rightarrow> 'k option list" where
  "keys T = concat (map b_key T)"

definition vals :: "('k, 'v) bucket list \<Rightarrow> 'v option list" where
  "vals T = concat (map b_val T)"

definition bucket_ok :: "('k, 'v) bucket \<Rightarrow> bool" where
  "bucket_ok b \<longleftrightarrow> length (b_marker b) = kWidth \<and> length (b_key b) = kWidth \<and> length (b_val b) = kWidth"

abbreviation slots_ok :: "('k, 'v) bucket list \<Rightarrow> bool" where
  "slots_ok T \<equiv> \<forall>b\<in>set T. bucket_ok b"

lemma shaped_length [simp]:
  assumes "slots_ok T"
  shows "length (markers T) = length T * kWidth" "length (keys T) = length T * kWidth"
    "length (vals T) = length T * kWidth"
  using assms unfolding markers_def keys_def vals_def
  by (subst length_concat_slots [where n = kWidth]; auto simp: bucket_ok_def)+

lemma slot_in: "g < n * kWidth \<Longrightarrow> g div kWidth < n \<and> g mod kWidth < kWidth"
  by (simp add: kWidth_def)

lemma shaped_nth:
  assumes "slots_ok T" "g < length T * kWidth"
  shows "b_marker (T ! (g div kWidth)) ! (g mod kWidth) = markers T ! g"
    "b_key (T ! (g div kWidth)) ! (g mod kWidth) = keys T ! g"
    "b_val (T ! (g div kWidth)) ! (g mod kWidth) = vals T ! g"
  using assms slot_in [OF assms(2)] unfolding markers_def keys_def vals_def
  by (subst concat_slot [where n = kWidth]; auto simp: bucket_ok_def)+

lemma shaped_bucket:
  "slots_ok T \<Longrightarrow> g < length T * kWidth \<Longrightarrow>
   length (b_marker (T ! (g div kWidth))) = kWidth \<and> length (b_key (T ! (g div kWidth))) = kWidth \<and>
   length (b_val (T ! (g div kWidth))) = kWidth"
  using slot_in [of g "length T"] by (auto simp: bucket_ok_def)

text \<open>The update of one slot, by any of the bucket operations.\<close>

definition with_slot ::
    "nat \<Rightarrow> uint8 \<Rightarrow> 'k option \<Rightarrow> 'v option \<Rightarrow> ('k, 'v) bucket list \<Rightarrow> ('k, 'v) bucket list" where
  "with_slot g m k v T = T[g div kWidth := (let b = T ! (g div kWidth); i = g mod kWidth in
     b\<lparr>b_marker := (b_marker b)[i := m], b_key := (b_key b)[i := k], b_val := (b_val b)[i := v]\<rparr>)]"

lemma with_slot_simps [simp]:
  assumes "slots_ok T" "g < length T * kWidth"
  shows "markers (with_slot g m k v T) = (markers T)[g := m]"
    "keys (with_slot g m k v T) = (keys T)[g := k]" "vals (with_slot g m k v T) = (vals T)[g := v]"
  using assms slot_in [OF assms(2)]
    concat_slot_update [where n = kWidth and g = g and xs = "map b_marker T" and v = m]
    concat_slot_update [where n = kWidth and g = g and xs = "map b_key T" and v = k]
    concat_slot_update [where n = kWidth and g = g and xs = "map b_val T" and v = v]
  unfolding markers_def keys_def vals_def with_slot_def
  by (auto simp: map_update Let_def bucket_ok_def)

lemma length_with_slot [simp]: "length (with_slot g m k v T) = length T"
  by (simp add: with_slot_def)

lemma shaped_with_slot [simp]:
  assumes "slots_ok T" "g < length T * kWidth"
  shows "slots_ok (with_slot g m k v T)"
proof -
  have "T ! (g div kWidth) \<in> set T" using slot_in [OF assms(2)] by simp
  with assms(1) have "bucket_ok (T ! (g div kWidth))" by blast
  then show ?thesis using assms(1) unfolding with_slot_def
    by (auto simp: bucket_ok_def Let_def dest!: subsetD [OF set_update_subset_insert])
qed

end
