(* ===== verification/Flat_Probe.thy ===== *)
theory Flat_Probe
  imports Flat_Rep
begin

unbundle bit_operations_syntax

text \<open>
  Searching the hash table of \<open>Flat_Rep\<close>: the probe sequence visits every slot, so that every search ends as
  long as one slot is empty; the invariant of the table (\<open>rep_ok\<close>) and the partial map it stands for
  (\<open>map_of_rep\<close>); where \<open>Find\<close> and \<open>FindOrInsert\<close> end.  The contract of the hash function and the
  comparison is the locale \<open>hashing\<close>.
\<close>


section \<open>Accessing a slot\<close>

lemma kWidth_pos [simp]: "0 < kWidth"
  by (simp add: kWidth_def)

lemma at_slot:
  assumes "slots_ok (table r)" "g < length (table r) * kWidth"
  shows "get (table r) (g div kWidth) = Inr (table r ! (g div kWidth))"
    "length (b_marker (table r ! (g div kWidth))) = kWidth"
    "length (b_key (table r ! (g div kWidth))) = kWidth"
    "length (b_val (table r ! (g div kWidth))) = kWidth"
    "b_marker (table r ! (g div kWidth)) ! (g mod kWidth) = markers (table r) ! g"
    "b_key (table r ! (g div kWidth)) ! (g mod kWidth) = keys (table r) ! g"
    "b_val (table r ! (g div kWidth)) ! (g mod kWidth) = vals (table r) ! g"
  using slot_in [OF assms(2)] shaped_bucket [OF assms] shaped_nth [OF assms] by simp_all

lemma marker_at_slot:
  "slots_ok (table r) \<Longrightarrow> g < length (table r) * kWidth \<Longrightarrow>
   marker_at r (g div kWidth) (g mod kWidth) = Inr (ucast (markers (table r) ! g))"
  by (simp add: marker_at_def at_slot)

lemma key_at_slot:
  "slots_ok (table r) \<Longrightarrow> g < length (table r) * kWidth \<Longrightarrow> 2 \<le> markers (table r) ! g \<Longrightarrow>
   key_at r (g div kWidth) (g mod kWidth) = object (keys (table r) ! g)"
  by (simp add: key_at_def bucket_key_def at_slot)

lemma val_at_slot:
  "slots_ok (table r) \<Longrightarrow> g < length (table r) * kWidth \<Longrightarrow> 2 \<le> markers (table r) ! g \<Longrightarrow>
   val_at r (g div kWidth) (g mod kWidth) = object (vals (table r) ! g)"
  by (simp add: val_at_def bucket_val_def at_slot)

lemma on_bucket_slot:
  assumes "slots_ok (table r)" "g < length (table r) * kWidth"
    and "f (table r ! (g div kWidth)) = Inr bu"
    and "bu = (let b = table r ! (g div kWidth); i = g mod kWidth in
      b\<lparr>b_marker := (b_marker b)[i := m], b_key := (b_key b)[i := k], b_val := (b_val b)[i := v]\<rparr>)"
  shows "on_bucket (g div kWidth) f r = Inr (r\<lparr>table := with_slot g m k v (table r)\<rparr>)"
  using assms by (simp add: on_bucket_def at_slot with_slot_def)

lemma insert_key_slot:
  "slots_ok (table r) \<Longrightarrow> g < length (table r) * kWidth \<Longrightarrow> 2 \<le> (ucast m :: uint8) \<Longrightarrow>
   on_bucket (g div kWidth) (insert_key (g mod kWidth) m k v) r =
   Inr (r\<lparr>table := with_slot g (ucast m) (Some k) v (table r)\<rparr>)"
  by (rule on_bucket_slot) (auto simp: insert_key_def set_marker_def at_slot Let_def)

lemma destroy_slot:
  "slots_ok (table r) \<Longrightarrow> g < length (table r) * kWidth \<Longrightarrow>
   keys (table r) ! g = Some k \<Longrightarrow> vals (table r) ! g = Some v \<Longrightarrow>
   on_bucket (g div kWidth) (\<lambda>bu. bnd (bucket_Destroy (g mod kWidth) bu) (set_marker (g mod kWidth) m)) r =
   Inr (r\<lparr>table := with_slot g m None None (table r)\<rparr>)"
  by (rule on_bucket_slot) (auto simp: bucket_Destroy_def set_marker_def at_slot Let_def intro!: bucket.equality)

section \<open>Probing\<close>

text \<open>
  The probe sequence of the code adds 1, 2, 3 and so on: after \<open>t\<close> steps it is \<open>t (t + 1) / 2\<close> slots
  from its start.  In a table whose size is a power of two these are all the slots.
\<close>

definition probe :: "nat \<Rightarrow> size_t \<Rightarrow> nat \<Rightarrow> nat" where
  "probe cap h t = (unat h div 256 + t * (t + 1) div 2) mod cap"

lemma triangular_inj:
  assumes "s < t" "t < 2 ^ m" "2 ^ m dvd t * (t + 1) div 2 - s * (s + 1) div (2 :: nat)"
  shows False
proof -
  have "2 * 2 ^ m dvd 2 * (t * (t + 1) div 2 - s * (s + 1) div 2)" by (rule mult_dvd_mono [OF dvd_refl assms(3)])
  also have "2 * (t * (t + 1) div 2 - s * (s + 1) div 2) = t * (t + 1) - s * (s + 1)"
    by (simp only: diff_mult_distrib2 dvd_mult_div_cancel even_mult_iff even_add even_iff_mod_2_eq_zero [symmetric])
      (simp add: even_iff_mod_2_eq_zero [symmetric])
  also have "t * (t + 1) - s * (s + 1) = (t - s) * (t + s + 1)"
    using less_imp_add_positive [OF assms(1)] by (auto simp: algebra_simps)
  finally have dvd: "2 ^ Suc m dvd (t - s) * (t + s + 1)" by simp
  show False
  proof (cases "even (t - s)")
    case True
    then have "odd (t + s + 1)" using assms(1) by presburger
    then have "coprime (2 ^ Suc m) (t + s + 1)" by (simp add: coprime_commute)
    with dvd have "2 ^ Suc m dvd t - s" by (metis coprime_dvd_mult_left_iff)
    then have "2 ^ Suc m \<le> t - s" using assms(1) by (intro dvd_imp_le) simp_all
    then show False using assms(2) by simp
  next
    case False
    then have "coprime (2 ^ Suc m) (t - s)" by (simp add: coprime_commute)
    with dvd have "2 ^ Suc m dvd t + s + 1" by (metis coprime_dvd_mult_right_iff)
    then have "2 ^ Suc m \<le> t + s + 1" by (intro dvd_imp_le) simp_all
    then show False using assms(1,2) by simp
  qed
qed

lemma probe_inj:
  assumes "s < t" "t < 2 ^ m"
  shows "probe (2 ^ m) h s \<noteq> probe (2 ^ m) h t"
proof
  assume "probe (2 ^ m) h s = probe (2 ^ m) h t"
  moreover have "s * (s + 1) div 2 \<le> t * (t + 1) div 2"
    using assms(1) by (intro div_le_mono mult_le_mono) simp_all
  ultimately have "2 ^ m dvd t * (t + 1) div 2 - s * (s + 1) div 2"
    using mod_eq_dvd_iff_nat [of "unat h div 256 + s * (s + 1) div 2" "unat h div 256 + t * (t + 1) div 2" "2 ^ m"]
    unfolding probe_def by simp
  with assms show False by (rule triangular_inj)
qed

lemma probe_hits_every_slot:
  assumes "e < 2 ^ m"
  shows "\<exists>t < 2 ^ m. probe (2 ^ m) h t = e"
proof -
  have "inj_on (probe (2 ^ m) h) {..<2 ^ m}" by (intro linorder_inj_onI) (auto dest: probe_inj)
  moreover have "probe (2 ^ m) h ` {..<2 ^ m} \<subseteq> {..<2 ^ m}" by (auto simp: probe_def)
  ultimately have "probe (2 ^ m) h ` {..<2 ^ m} = {..<2 ^ m}" by (simp add: endo_inj_surj)
  with assms show ?thesis by (metis imageE lessThan_iff)
qed

lemma probe_less [simp]: "probe (2 ^ m) h t < 2 ^ m"
  by (simp add: probe_def)

lemma slot_of_nat:
  assumes "g < 2 ^ 64"
  shows "slot_of (of_nat g) = (g div kWidth, g mod kWidth)"
proof -
  have "unat (of_nat g AND of_nat (2 ^ 3 - 1) :: size_t) = g mod 2 ^ 3"
    using assms by (simp only: unat_and_mask unat_of_nat_small)
  moreover have "unat (drop_bit 3 (of_nat g :: size_t)) = g div 8"
    using unat_drop_bit_div [of 3 "of_nat g :: size_t"] assms by (simp only: unat_of_nat_small) simp
  ultimately show ?thesis by (simp add: slot_of_def kWidth_def)
qed

lemma start_probe:
  assumes "index_mask r = of_nat (2 ^ m - 1)" "m \<le> 31"
  shows "start_index r h = of_nat (probe (2 ^ m) h 0)"
proof (rule word_unat_eq_iff [THEN iffD2])
  have "unat (start_index r h) = probe (2 ^ m) h 0"
    unfolding start_index_def assms(1) unat_and_mask unat_drop_bit_div by (simp add: probe_def)
  moreover have "probe (2 ^ m) h 0 < 2 ^ 64"
    using assms(2) by (intro less_le_trans [OF probe_less] power_increasing) simp_all
  ultimately show "unat (start_index r h) = unat (of_nat (probe (2 ^ m) h 0) :: size_t)" by simp
qed

lemma triangular_Suc: "Suc t * (Suc t + 1) div 2 = t * (t + 1) div 2 + Suc t"
proof -
  have "Suc t * (Suc t + 1) = t * (t + 1) + Suc t * 2" by simp
  then show ?thesis by (simp only: div_mult_self1 [of 2] zero_neq_numeral not_False_eq_True)
qed

lemma next_probe:
  assumes "index_mask r = of_nat (2 ^ m - 1)" "m \<le> 31" "t < 2 ^ m"
  shows "rep_NextIndex r (of_nat (probe (2 ^ m) h t)) (of_nat (Suc t)) = of_nat (probe (2 ^ m) h (Suc t))"
proof (rule word_unat_eq_iff [THEN iffD2])
  have m: "(2 :: nat) ^ m \<le> 2 ^ 31" using assms(2) by (intro power_increasing) simp_all
  then have "Suc t < 2 ^ 32" using assms(3) by simp
  then have "unat (ucast (of_nat (Suc t) :: uint32) :: size_t) = Suc t"
    by (simp add: unsigned_ucast_eq unat_of_nat take_bit_nat_eq_self del: of_nat_Suc)
  moreover have p: "probe (2 ^ m) h t < 2 ^ 31" by (rule less_le_trans [OF probe_less m])
  moreover have "Suc t \<le> 2 ^ 31" using m assms(3) by simp
  ultimately have "unat (of_nat (probe (2 ^ m) h t) + ucast (of_nat (Suc t) :: uint32) :: size_t) = probe (2 ^ m) h t + Suc t"
    by (subst unat_add_lem [THEN iffD1]) (simp_all del: of_nat_Suc)
  moreover have "(probe (2 ^ m) h t + Suc t) mod 2 ^ m = probe (2 ^ m) h (Suc t)"
    unfolding probe_def triangular_Suc by (metis mod_add_left_eq add.assoc)
  ultimately have "unat (rep_NextIndex r (of_nat (probe (2 ^ m) h t)) (of_nat (Suc t))) = probe (2 ^ m) h (Suc t)"
    unfolding rep_NextIndex_def assms(1) unat_and_mask by simp
  moreover have "probe (2 ^ m) h (Suc t) < 2 ^ 64" using less_le_trans [OF probe_less m, of h "Suc t"] by simp
  ultimately show "unat (rep_NextIndex r (of_nat (probe (2 ^ m) h t)) (of_nat (Suc t))) =
      unat (of_nat (probe (2 ^ m) h (Suc t)) :: size_t)" by simp
qed

section \<open>The invariant\<close>

definition mark :: "size_t \<Rightarrow> uint8" where
  "mark h = ucast (hash_marker h)"

text \<open>
  Where a key is: its marker is that of its hash, no slot on the way from the start of its probe sequence is
  empty, and no two keys are equal.
\<close>

definition reached :: "uint8 list \<Rightarrow> size_t \<Rightarrow> nat \<Rightarrow> bool" where
  "reached ms h g \<longleftrightarrow>
     (\<exists>t < length ms. probe (length ms) h t = g \<and> (\<forall>t' < t. ms ! probe (length ms) h t' \<noteq> 0))"

definition key_table :: "('k \<Rightarrow> size_t) \<Rightarrow> ('k \<Rightarrow> 'k \<Rightarrow> bool) \<Rightarrow> uint8 list \<Rightarrow> 'k option list \<Rightarrow> bool" where
  "key_table hash equal ms ks \<longleftrightarrow>
     length ks = length ms \<and>
     (\<forall>g < length ms. 2 \<le> ms ! g \<longleftrightarrow> ks ! g \<noteq> None) \<and>
     (\<forall>g < length ms. \<forall>k. ks ! g = Some k \<longrightarrow> ms ! g = mark (hash k) \<and> reached ms (hash k) g) \<and>
     (\<forall>g < length ms. \<forall>g' < length ms. \<forall>k k'.
        ks ! g = Some k \<longrightarrow> ks ! g' = Some k' \<longrightarrow> equal k k' \<longrightarrow> g = g')"

definition used :: "uint8 list \<Rightarrow> nat" where
  "used ms = length (filter (\<lambda>m. m \<noteq> 0) ms)"

definition tombs :: "uint8 list \<Rightarrow> nat" where
  "tombs ms = length (filter (\<lambda>m. m = 1) ms)"

definition sized :: "nat \<Rightarrow> ('k, 'v) rep \<Rightarrow> bool" where
  "sized lg r \<longleftrightarrow> lg \<le> 28 \<and> length (table r) = 2 ^ lg \<and> index_mask r = of_nat (kWidth * 2 ^ lg - 1) \<and>
     used (markers (table r)) \<le> 4 * (kWidth * 2 ^ lg) div 5 \<and>
     (grow r = 0 \<or> grow r = of_nat (4 * (kWidth * 2 ^ lg) div 5)) \<and>
     shrink r = (if lg = 0 then 0 else of_nat (2 * (4 * (kWidth * 2 ^ lg) div 5) div 5))"

definition rep_ok :: "('k \<Rightarrow> size_t) \<Rightarrow> ('k \<Rightarrow> 'k \<Rightarrow> bool) \<Rightarrow> ('k, 'v) rep \<Rightarrow> bool" where
  "rep_ok hash equal r \<longleftrightarrow>
     hash_fn r = hash \<and> equal_fn r = equal \<and> slots_ok (table r) \<and>
     key_table hash equal (markers (table r)) (keys (table r)) \<and>
     not_empty r = of_nat (used (markers (table r))) \<and> deleted r = of_nat (tombs (markers (table r))) \<and>
     (\<exists>lg. sized lg r)"

definition vals_ok :: "('k, 'v) rep \<Rightarrow> bool" where
  "vals_ok r \<longleftrightarrow>
     (\<forall>g < length (keys (table r)). keys (table r) ! g \<noteq> None \<longrightarrow> vals (table r) ! g \<noteq> None)"

text \<open>The partial map of a table: the value next to a key that compares equal.\<close>

definition map_of_rep :: "('k, 'v) rep \<Rightarrow> 'k \<Rightarrow> 'v option" where
  "map_of_rep r k =
     (case List.find (\<lambda>(k', v). case k' of None \<Rightarrow> False | Some k' \<Rightarrow> equal_fn r k' k)
             (zip (keys (table r)) (vals (table r))) of
        None \<Rightarrow> None | Some (_, v) \<Rightarrow> v)"

lemma length_filter_update:
  "g < length xs \<Longrightarrow> length (filter P (xs[g := x])) + (if P (xs ! g) then 1 else 0) =
   length (filter P xs) + (if P x then 1 else 0)"
proof (induction xs arbitrary: g)
  case (Cons y ys)
  then show ?case by (cases g) auto
qed simp

lemmas used_update = length_filter_update [where P = "\<lambda>m :: uint8. m \<noteq> 0", folded used_def]
lemmas tombs_update = length_filter_update [where P = "\<lambda>m :: uint8. m = 1", folded tombs_def]

lemma tombs_le_used: "tombs ms \<le> used ms"
  unfolding tombs_def used_def by (induction ms) auto

lemma used_le: "used ms \<le> length ms"
  by (simp add: used_def)

lemma free_slot: "used ms < length ms \<Longrightarrow> \<exists>g < length ms. ms ! g = 0"
  unfolding used_def by (metis (mono_tags, lifting) filter_True in_set_conv_nth less_irrefl)

lemma small_marker: "\<not> 2 \<le> (m :: uint8) \<longleftrightarrow> m = 0 \<or> m = 1"
  by (simp add: word_le_nat_alt word_unat_eq_iff) linarith

lemma hash_marker_range: "2 \<le> unat (hash_marker h) \<and> unat (hash_marker h) < 256"
proof -
  have "unat (h AND of_nat (2 ^ 8 - 1)) = unat h mod 2 ^ 8" by (rule unat_and_mask)
  then have lt: "unat (h AND 0xff) < 256" by simp
  then have u: "unat (ucast (h AND 0xff) :: uint32) = unat (h AND 0xff)"
    by (simp add: unsigned_ucast_eq take_bit_nat_eq_self)
  show ?thesis
  proof (cases "(ucast (h AND 0xff) :: uint32) < 2")
    case True
    then have "unat (ucast (h AND 0xff) :: uint32) < 2" by (simp add: word_less_nat_alt)
    then have "unat ((ucast (h AND 0xff) :: uint32) + 2) = unat (ucast (h AND 0xff) :: uint32) + 2"
      by (subst unat_add_lem [THEN iffD1]) simp_all
    with True \<open>unat (ucast (h AND 0xff) :: uint32) < 2\<close> show ?thesis
      by (simp add: hash_marker_def Marker_def)
  next
    case False
    with lt u show ?thesis by (simp add: hash_marker_def Marker_def word_less_nat_alt)
  qed
qed

lemma ucast_mark [simp]: "ucast (mark h) = hash_marker h"
proof (rule word_unat_eq_iff [THEN iffD2])
  have "unat (mark h) = unat (hash_marker h)"
    using hash_marker_range [of h] by (simp add: mark_def unsigned_ucast_eq take_bit_nat_eq_self)
  then show "unat (ucast (mark h) :: uint32) = unat (hash_marker h)"
    using hash_marker_range [of h] by (simp add: unsigned_ucast_eq take_bit_nat_eq_self)
qed

lemma two_le_mark [simp]: "2 \<le> mark h"
  using hash_marker_range [of h] by (simp add: mark_def word_le_nat_alt unsigned_ucast_eq take_bit_nat_eq_self)

lemma mark_neq [simp]: "mark h \<noteq> 0" "mark h \<noteq> 1"
  using two_le_mark [of h] small_marker [of "mark h"] by auto

lemma unat_ucast_marker: "unat (ucast (m :: uint8) :: uint32) = unat m"
proof -
  have "unat m < 2 ^ LENGTH(8)" by (rule unsigned_less)
  then show ?thesis by (simp add: unsigned_ucast_eq take_bit_nat_eq_self)
qed

lemma ucast_marker_eq_iff [simp]: "(ucast (m :: uint8) :: uint32) = ucast m' \<longleftrightarrow> m = m'"
  by (simp add: word_unat_eq_iff unat_ucast_marker)

lemma ucast_marker_0: "(ucast (m :: uint8) :: uint32) = 0 \<longleftrightarrow> m = 0" "(ucast m :: uint32) = 1 \<longleftrightarrow> m = 1"
  using ucast_marker_eq_iff [of m 0] ucast_marker_eq_iff [of m 1] by simp_all

lemma key_tableD:
  assumes "key_table hash equal ms ks" "g < length ms"
  shows "length ks = length ms" "2 \<le> ms ! g \<longleftrightarrow> ks ! g \<noteq> None"
    "ks ! g = Some k \<Longrightarrow> ms ! g = mark (hash k)" "ks ! g = Some k \<Longrightarrow> reached ms (hash k) g"
    "g' < length ms \<Longrightarrow> ks ! g = Some k \<Longrightarrow> ks ! g' = Some k' \<Longrightarrow> equal k k' \<Longrightarrow> g = g'"
  using assms by (auto simp: key_table_def)

lemma no_key_at: "key_table hash equal ms ks \<Longrightarrow> g < length ms \<Longrightarrow> ms ! g = 0 \<or> ms ! g = 1 \<Longrightarrow> ks ! g = None"
  using small_marker [of "ms ! g"] key_tableD(2) [of hash equal ms ks g] by blast

lemma reached_mono:
  assumes "reached ms h g" "length ms' = length ms" "\<And>i. i < length ms \<Longrightarrow> ms ! i \<noteq> 0 \<Longrightarrow> ms' ! i \<noteq> 0" "length ms = 2 ^ m"
  shows "reached ms' h g"
  using assms by (auto simp: reached_def)

lemma key_table_insert:
  assumes kt: "key_table hash equal ms ks" and m: "length ms = 2 ^ m"
    and g: "reached ms (hash k) g" "g < length ms" "ks ! g = None"
    and new: "\<And>g' k'. g' < length ms \<Longrightarrow> ks ! g' = Some k' \<Longrightarrow> \<not> equal k' k \<and> \<not> equal k k'"
  shows "key_table hash equal (ms[g := mark (hash k)]) (ks[g := Some k])"
proof -
  have re: "reached ms h i \<Longrightarrow> reached (ms[g := mark (hash k)]) h i" for h i
    by (rule reached_mono [OF _ _ _ m]) (auto simp: nth_list_update g)
  show ?thesis using kt g(2,3) new re [OF g(1)] re
    unfolding key_table_def by (auto simp: nth_list_update)
qed

lemma key_table_erase:
  assumes "key_table hash equal ms ks" "length ms = 2 ^ m" "g < length ms" 
  shows "key_table hash equal (ms[g := 1]) (ks[g := None])"
proof -
  have re: "reached ms h i \<Longrightarrow> reached (ms[g := 1]) h i" for h i
    by (rule reached_mono [OF _ _ _ assms(2)]) (auto simp: nth_list_update assms(3))
  show ?thesis using assms re unfolding key_table_def by (auto simp: nth_list_update small_marker)
qed

lemma rep_okD:
  assumes "rep_ok hash equal r"
  shows "hash_fn r = hash" "equal_fn r = equal" "slots_ok (table r)"
    "key_table hash equal (markers (table r)) (keys (table r))"
    "not_empty r = of_nat (used (markers (table r)))" "deleted r = of_nat (tombs (markers (table r)))"
  using assms by (simp_all add: rep_ok_def)

lemma rep_ok_cap:
  assumes "rep_ok hash equal r"
  obtains m where "m \<le> 31" "length (markers (table r)) = 2 ^ m" "index_mask r = of_nat (2 ^ m - 1)"
    "used (markers (table r)) < 2 ^ m"
proof -
  from assms obtain lg where lg: "lg \<le> 28" "length (table r) = 2 ^ lg"
    "index_mask r = of_nat (kWidth * 2 ^ lg - 1)" "used (markers (table r)) \<le> 4 * (kWidth * 2 ^ lg) div 5"
    by (auto simp: rep_ok_def sized_def)
  have p: "kWidth * 2 ^ lg = 2 ^ (lg + 3)" by (simp add: kWidth_def power_add)
  have "4 * (2 ^ (lg + 3) :: nat) div 5 < 2 ^ (lg + 3)" by (simp add: less_mult_imp_div_less)
  then have "used (markers (table r)) < 2 ^ (lg + 3)" using lg(4) unfolding p by linarith
  then show ?thesis using lg that [of "lg + 3"] rep_okD(3) [OF assms] p by (simp add: mult.commute)
qed

section \<open>Searching\<close>

text \<open>
  What the table asks of its hash function and its comparison: equality is an equivalence, and equal keys
  have equal hashes.
\<close>

locale hashing =
  fixes hash :: "'k \<Rightarrow> size_t" and equal :: "'k \<Rightarrow> 'k \<Rightarrow> bool"
  assumes equal_refl: "equal k k"
    and equal_sym: "equal k k' \<Longrightarrow> equal k' k"
    and equal_trans: "equal k k' \<Longrightarrow> equal k' k'' \<Longrightarrow> equal k k''"
    and hash_equal: "equal k k' \<Longrightarrow> hash k = hash k'"

interpretation pointers: hashing hash_pointer "(=)"
  by unfold_locales auto

lemma hashing_pair:
  assumes T: "hashing hash_T eq_T" and U: "hashing hash_U eq_U"
  shows "hashing (hash_pair hash_T hash_U) (\<lambda>p q. eq_T (fst p) (fst q) \<and> eq_U (snd p) (snd q))"
proof (unfold_locales, goal_cases)
  case (1 k)
  show ?case using hashing.equal_refl [OF T] hashing.equal_refl [OF U] by simp
next
  case (2 k k')
  then show ?case using hashing.equal_sym [OF T] hashing.equal_sym [OF U] by blast
next
  case (3 k k' k'')
  then show ?case using hashing.equal_trans [OF T] hashing.equal_trans [OF U] by blast
next
  case (4 k k')
  then show ?case using hashing.hash_equal [OF T, of "fst k" "fst k'"] hashing.hash_equal [OF U, of "snd k" "snd k'"]
    by (simp add: hash_pair_def)
qed

interpretation pointer_pairs: hashing "hash_pair hash_pointer hash_pointer" "(\<lambda>p q. fst p = fst q \<and> snd p = snd q)"
  by (rule hashing_pair) (rule pointers.hashing_axioms)+

text \<open>Slot \<open>g\<close> holds a key equal to \<open>k\<close>.\<close>

definition holds :: "('k \<Rightarrow> 'k \<Rightarrow> bool) \<Rightarrow> 'k option list \<Rightarrow> 'k \<Rightarrow> nat \<Rightarrow> bool" where
  "holds equal ks k g \<longleftrightarrow> g < length ks \<and> (\<exists>k'. ks ! g = Some k' \<and> equal k' k)"

context hashing
begin

lemma holds_unique:
  assumes "key_table hash equal ms ks" "holds equal ks k g" "holds equal ks k g'"
  shows "g = g'"
proof -
  from assms(2,3) obtain k1 k2 where "g < length ks" "g' < length ks" "ks ! g = Some k1" "ks ! g' = Some k2"
    "equal k1 k" "equal k2 k" by (auto simp: holds_def)
  moreover from this have "equal k1 k2" using equal_sym equal_trans by blast
  ultimately show ?thesis using assms(1) unfolding key_table_def by auto
qed

lemma holds_marker:
  assumes "key_table hash equal ms ks" "holds equal ks k g"
  shows "ms ! g = mark (hash k)" "reached ms (hash k) g" "2 \<le> ms ! g"
proof -
  from assms(2) obtain k' where k': "g < length ks" "ks ! g = Some k'" "equal k' k" by (auto simp: holds_def)
  have l: "length ks = length ms" using assms(1) by (simp add: key_table_def)
  from key_tableD(3,4) [OF assms(1), of g k'] k' l hash_equal [OF k'(3)]
  show "ms ! g = mark (hash k)" "reached ms (hash k) g" by simp_all
  then show "2 \<le> ms ! g" by simp
qed

text \<open>
  How far a search goes: past slots that are not empty and hold other keys, to the slot of the key
  or, if the key is not in the table, to an empty one.
\<close>

lemma search_ends:
  assumes kt: "key_table hash equal ms ks" and m: "length ms = 2 ^ m" and free: "used ms < 2 ^ m"
  shows "\<exists>n < 2 ^ m.
    (\<forall>t < n. ms ! probe (2 ^ m) (hash k) t \<noteq> 0 \<and> \<not> holds equal ks k (probe (2 ^ m) (hash k) t)) \<and>
    (holds equal ks k (probe (2 ^ m) (hash k) n) \<or>
     ms ! probe (2 ^ m) (hash k) n = 0 \<and> (\<forall>g. \<not> holds equal ks k g))"
proof -
  let ?p = "probe (2 ^ m) (hash k)"
  let ?stop = "\<lambda>t. ms ! ?p t = 0 \<or> holds equal ks k (?p t)"
  define n where "n = (LEAST t. ?stop t)"
  obtain e where e: "e < 2 ^ m" "ms ! e = 0" using free_slot [of ms] free m by auto
  obtain t where t: "t < 2 ^ m" "?p t = e" using probe_hits_every_slot [OF e(1)] by blast
  then have "?stop t" using e by simp
  then have n: "?stop n" "n \<le> t" unfolding n_def by (rule LeastI, rule Least_le)
  have before: "\<not> ?stop t" if "t < n" for t using that unfolding n_def by (rule not_less_Least)
  have "holds equal ks k (?p n) \<or> ms ! ?p n = 0 \<and> (\<forall>g. \<not> holds equal ks k g)"
  proof (cases "holds equal ks k (?p n)")
    case False
    then have z: "ms ! ?p n = 0" using n(1) by simp
    have "\<not> holds equal ks k g" for g
    proof
      assume g: "holds equal ks k g"
      from holds_marker(2) [OF kt g] obtain t where t: "?p t = g" "\<forall>t' < t. ms ! ?p t' \<noteq> 0"
        unfolding reached_def m by blast
      have "t \<le> n" using t(2) z by (metis not_less)
      moreover have "\<not> t < n" using before g t(1) by blast
      ultimately show False using False g t(1) by simp
    qed
    with z show ?thesis by blast
  qed simp
  moreover have "n < 2 ^ m" using n(2) t(1) by simp
  ultimately show ?thesis using before by blast
qed

lemma hit_slot:
  assumes ok: "rep_ok hash equal r" and g: "g < length (markers (table r))"
  shows "hit r k (hash_marker (hash k)) (ucast (markers (table r) ! g)) (g div kWidth) (g mod kWidth) =
         Inr (holds equal (keys (table r)) k g)"
proof -
  note D = rep_okD [OF ok]
  have l: "g < length (table r) * kWidth" "length (keys (table r)) = length (markers (table r))" using g D(3) by simp_all
  show ?thesis
  proof (cases "markers (table r) ! g = mark (hash k)")
    case True
    then have "2 \<le> markers (table r) ! g" by simp
    with key_tableD(2) [OF D(4) g] obtain k' where k': "keys (table r) ! g = Some k'" by auto
    then show ?thesis using True g l D(2) by (simp add: hit_def key_at_slot [OF D(3)] holds_def)
  next
    case False
    then have "ucast (markers (table r) ! g) \<noteq> hash_marker (hash k)"
      by (simp flip: ucast_mark)
    then show ?thesis using False holds_marker(1) [OF D(4), of k g] by (auto simp: hit_def)
  qed
qed

lemma probe_slot:
  assumes ok: "rep_ok hash equal r" and m: "m \<le> 31" "length (markers (table r)) = 2 ^ m"
  shows "slot_of (of_nat (probe (2 ^ m) h t)) = (probe (2 ^ m) h t div kWidth, probe (2 ^ m) h t mod kWidth)"
    "marker_at r (probe (2 ^ m) h t div kWidth) (probe (2 ^ m) h t mod kWidth) = Inr (ucast (markers (table r) ! probe (2 ^ m) h t))"
    "hit r k (hash_marker (hash k)) (ucast (markers (table r) ! probe (2 ^ m) h t)) (probe (2 ^ m) h t div kWidth) (probe (2 ^ m) h t mod kWidth) =
     Inr (holds equal (keys (table r)) k (probe (2 ^ m) h t))"
proof -
  have "probe (2 ^ m) h t < 2 ^ 64"
    using m(1) by (intro less_le_trans [OF probe_less] power_increasing) simp_all
  then show "slot_of (of_nat (probe (2 ^ m) h t)) = (probe (2 ^ m) h t div kWidth, probe (2 ^ m) h t mod kWidth)"
    by (rule slot_of_nat)
  have g: "probe (2 ^ m) h t < length (markers (table r))" by (simp add: m(2))
  then show "hit r k (hash_marker (hash k)) (ucast (markers (table r) ! probe (2 ^ m) h t)) (probe (2 ^ m) h t div kWidth) (probe (2 ^ m) h t mod kWidth) =
     Inr (holds equal (keys (table r)) k (probe (2 ^ m) h t))"
    by (rule hit_slot [OF ok])
  show "marker_at r (probe (2 ^ m) h t div kWidth) (probe (2 ^ m) h t mod kWidth) = Inr (ucast (markers (table r) ! probe (2 ^ m) h t))"
    using g rep_okD(3) [OF ok] by (intro marker_at_slot) simp_all
qed

lemma Find_ends:
  assumes ok: "rep_ok hash equal r"
  shows "\<exists>g. (holds equal (keys (table r)) k g \<or> (\<forall>g. \<not> holds equal (keys (table r)) k g)) \<and>
    Find r k = Inr (if holds equal (keys (table r)) k g
      then \<lparr>found = True, sr_b = Some (g div kWidth), sr_index = g mod kWidth\<rparr>
      else \<lparr>found = False, sr_b = None, sr_index = 0\<rparr>)"
proof -
  note D = rep_okD [OF ok]
  obtain m where m: "m \<le> 31" "length (markers (table r)) = 2 ^ m" "index_mask r = of_nat (2 ^ m - 1)"
    "used (markers (table r)) < 2 ^ m" by (rule rep_ok_cap [OF ok])
  obtain n where n: "n < 2 ^ m"
    "\<And>t. t < n \<Longrightarrow> markers (table r) ! probe (2 ^ m) (hash k) t \<noteq> 0 \<and>
       \<not> holds equal (keys (table r)) k (probe (2 ^ m) (hash k) t)"
    "holds equal (keys (table r)) k (probe (2 ^ m) (hash k) n) \<or>
     markers (table r) ! probe (2 ^ m) (hash k) n = 0 \<and> (\<forall>g. \<not> holds equal (keys (table r)) k g)"
    using search_ends [OF D(4) m(2,4), of k] by blast
  let ?p = "probe (2 ^ m) (hash k)"
  let ?st = "\<lambda>t. (of_nat (?p t) :: size_t, of_nat (Suc t) :: uint32)"
  let ?a = "if holds equal (keys (table r)) k (?p n)
            then \<lparr>found = True, sr_b = Some (?p n div kWidth), sr_index = ?p n mod kWidth\<rparr>
            else \<lparr>found = False, sr_b = None, sr_index = 0\<rparr>"
  have start: "(start_index r (hash k), 1) = ?st 0" by (simp add: start_probe [OF m(3,1)])
  have "Find r k = Inr ?a"
    unfolding Find_def D(1) Let_def start
  proof (rule forever_leaves [where n = n and st = ?st], goal_cases)
    case (1 t)
    have "t < 2 ^ m" using 1 n(1) by simp
    with n(2) [OF 1] show ?case
      by (simp add: probe_slot [OF ok m(1,2)] next_probe [OF m(3,1)] ucast_marker_0 del: of_nat_Suc) simp
  next
    case 2
    then show ?case using n(3) by (auto simp: probe_slot [OF ok m(1,2)])
  qed
  with n(3) show ?thesis by blast
qed

lemma Find_hits:
  assumes "rep_ok hash equal r" "holds equal (keys (table r)) k g"
  shows "Find r k = Inr \<lparr>found = True, sr_b = Some (g div kWidth), sr_index = g mod kWidth\<rparr>"
  using Find_ends [OF assms(1), of k] holds_unique [OF rep_okD(4) [OF assms(1)] assms(2)] assms(2) by metis

lemma Find_misses:
  assumes "rep_ok hash equal r" "\<forall>g. \<not> holds equal (keys (table r)) k g"
  shows "Find r k = Inr \<lparr>found = False, sr_b = None, sr_index = 0\<rparr>"
  using Find_ends [OF assms(1), of k] assms(2) by simp

text \<open>The first deleted slot on the way, which is what the search for a place to insert remembers.\<close>

lemma find_snoc:
  "List.find P (xs @ [x]) = (case List.find P xs of Some y \<Rightarrow> Some y | None \<Rightarrow> if P x then Some x else None)"
  by (induction xs) auto

lemma find_upt_SomeD: "List.find P [0..<n] = Some t \<Longrightarrow> t < n \<and> P t"
  by (auto simp: find_Some_iff)

lemma find_upt_NoneD: "List.find P [0..<n] = None \<Longrightarrow> t < n \<Longrightarrow> \<not> P t"
  by (auto simp: find_None_iff)

lemma FindOrInsert_hits:
  assumes ok: "rep_ok hash equal r" and h: "holds equal (keys (table r)) k g"
  shows "FindOrInsert v r k = Inr (r, \<lparr>found = True, sr_b = Some (g div kWidth), sr_index = g mod kWidth\<rparr>)"
proof -
  note D = rep_okD [OF ok]
  obtain m where m: "m \<le> 31" "length (markers (table r)) = 2 ^ m" "index_mask r = of_nat (2 ^ m - 1)"
    "used (markers (table r)) < 2 ^ m" by (rule rep_ok_cap [OF ok])
  let ?p = "probe (2 ^ m) (hash k)" and ?ms = "markers (table r)"
  obtain n where n: "n < 2 ^ m" "\<And>t. t < n \<Longrightarrow> ?ms ! ?p t \<noteq> 0 \<and> \<not> holds equal (keys (table r)) k (?p t)"
    "holds equal (keys (table r)) k (?p n)"
    using search_ends [OF D(4) m(2,4), of k] h by blast
  have g: "?p n = g" by (rule holds_unique [OF D(4) n(3) h])
  let ?del = "\<lambda>t. List.find (\<lambda>t. ?ms ! ?p t = 1) [0..<t]"
  let ?st = "\<lambda>t. (of_nat (?p t) :: size_t, of_nat (Suc t) :: uint32,
    map_option (\<lambda>t. ?p t div kWidth) (?del t), case ?del t of None \<Rightarrow> 0 | Some t \<Rightarrow> ?p t mod kWidth)"
  have start: "(start_index r (hash k), 1, None, 0) = ?st 0" by (simp add: start_probe [OF m(3,1)])
  show ?thesis
    unfolding FindOrInsert_def D(1) Let_def start
  proof (rule forever_leaves [where n = n and st = ?st], goal_cases)
    case (1 t)
    have "t < 2 ^ m" using 1 n(1) by simp
    with n(2) [OF 1] show ?case
      by (simp add: probe_slot [OF ok m(1,2)] next_probe [OF m(3,1)] ucast_marker_0 find_snoc del: of_nat_Suc
            split: option.split) simp
  next
    case 2
    then show ?case unfolding g [symmetric] using n(3) by (simp add: probe_slot [OF ok m(1,2)])
  qed
qed

lemma FindOrInsert_misses:
  assumes ok: "rep_ok hash equal r" and miss: "\<forall>g. \<not> holds equal (keys (table r)) k g"
  shows "\<exists>g < length (markers (table r)).
    (markers (table r) ! g = 0 \<or> markers (table r) ! g = 1) \<and> reached (markers (table r)) (hash k) g \<and>
    FindOrInsert v r k =
      Inr (r\<lparr>table := with_slot g (mark (hash k)) (Some k) v (table r),
             not_empty := not_empty r + (if markers (table r) ! g = 0 then 1 else 0),
             deleted := deleted r - (if markers (table r) ! g = 0 then 0 else 1)\<rparr>,
           \<lparr>found = False, sr_b = Some (g div kWidth), sr_index = g mod kWidth\<rparr>)"
proof -
  note D = rep_okD [OF ok]
  obtain m where m: "m \<le> 31" "length (markers (table r)) = 2 ^ m" "index_mask r = of_nat (2 ^ m - 1)"
    "used (markers (table r)) < 2 ^ m" by (rule rep_ok_cap [OF ok])
  let ?p = "probe (2 ^ m) (hash k)" and ?ms = "markers (table r)"
  obtain n where n: "n < 2 ^ m" "\<And>t. t < n \<Longrightarrow> ?ms ! ?p t \<noteq> 0" "?ms ! ?p n = 0"
    using search_ends [OF D(4) m(2,4), of k] miss by blast
  let ?del = "\<lambda>t. List.find (\<lambda>t. ?ms ! ?p t = 1) [0..<t]"
  let ?st = "\<lambda>t. (of_nat (?p t) :: size_t, of_nat (Suc t) :: uint32,
    map_option (\<lambda>t. ?p t div kWidth) (?del t), case ?del t of None \<Rightarrow> 0 | Some t \<Rightarrow> ?p t mod kWidth)"
  define t where "t = (case ?del n of None \<Rightarrow> n | Some t \<Rightarrow> t)"
  define g where "g = ?p t"
  have t: "t \<le> n" "?ms ! g = (if ?del n = None then 0 else 1)"
    using n(3) by (auto simp: t_def g_def dest!: find_upt_SomeD split: option.split)
  have g: "g < length ?ms" "g < length (table r) * kWidth"
    using m(2) shaped_length(1) [OF D(3)] by (simp_all add: g_def)
  have start: "(start_index r (hash k), 1, None, 0) = ?st 0" by (simp add: start_probe [OF m(3,1)])
  have "FindOrInsert v r k =
      Inr (r\<lparr>table := with_slot g (mark (hash k)) (Some k) v (table r),
             not_empty := not_empty r + (if ?ms ! g = 0 then 1 else 0), deleted := deleted r - (if ?ms ! g = 0 then 0 else 1)\<rparr>,
           \<lparr>found = False, sr_b = Some (g div kWidth), sr_index = g mod kWidth\<rparr>)"
    unfolding FindOrInsert_def D(1) Let_def start
  proof (rule forever_leaves [where n = n and st = ?st], goal_cases)
    case (1 t)
    have "t < 2 ^ m" using 1 n(1) by simp
    with n(2) [OF 1] miss show ?case
      by (simp add: probe_slot [OF ok m(1,2)] next_probe [OF m(3,1)] ucast_marker_0 find_snoc del: of_nat_Suc
            split: option.split) simp
  next
    case 2
    have ins: "on_bucket (g div kWidth) (insert_key (g mod kWidth) (hash_marker (hash k)) k v) r' =
        Inr (r'\<lparr>table := with_slot g (mark (hash k)) (Some k) v (table r')\<rparr>)" if "table r' = table r" for r'
      using insert_key_slot [of r' g "hash_marker (hash k)" k v] that D(3) g(2) by (simp flip: mark_def)
    have hit0: "hit r k (hash_marker (hash k)) 0 (?p n div kWidth) (?p n mod kWidth) = Inr False"
      using probe_slot(3) [OF ok m(1,2), of k "hash k" n] n(3) miss by simp
    show ?case
    proof (cases "?del n")
      case None
      then have "t = n" by (simp add: t_def)
      then have "g = ?p n" by (simp add: g_def)
      with None show ?thesis using n(3) t(2) hit0 ins by (simp add: probe_slot [OF ok m(1,2)])
    next
      case (Some t')
      then have "t = t'" by (simp add: t_def)
      then have "?p t' = g" by (simp add: g_def)
      with Some show ?thesis using n(3) t(2) hit0 ins by (simp add: probe_slot [OF ok m(1,2)])
    qed
  qed
  moreover have "reached ?ms (hash k) g"
    unfolding reached_def m(2) g_def using t(1) n(1,2) by (intro exI [of _ t]) auto
  ultimately show ?thesis using g(1) t(2) by (intro exI [of _ g]) (auto split: if_splits)
qed

end

end
