(* ===== verification/Flat_Table.thy ===== *)
theory Flat_Table
  imports Flat_Probe
begin

unbundle bit_operations_syntax

text \<open>
  What the operations of the hash table of \<open>Flat_Rep\<close> do to its invariant and to the partial map it stands
  for: inserting, erasing, making a new table, copying or moving the entries of another, resizing,
  clearing.
\<close>


text \<open>The largest number of entries a table can be resized to: the size doubles up to \<open>2 ^ 31\<close> slots.\<close>

abbreviation fits :: "nat \<Rightarrow> bool" where
  "fits n \<equiv> 5 * n < 2 ^ 33"

context hashing
begin

section \<open>What inserting and erasing do\<close>

lemma holds_update:
  "g < length ks \<Longrightarrow> holds equal (ks[g := x]) k g' \<longleftrightarrow>
   (if g' = g then (\<exists>k'. x = Some k' \<and> equal k' k) else holds equal ks k g')"
  by (auto simp: holds_def nth_list_update)

lemma map_of_rep_hits:
  fixes r :: "('k, 'v) rep"
  assumes ok: "rep_ok hash equal r" and h: "holds equal (keys (table r)) k g"
  shows "map_of_rep r k = vals (table r) ! g"
proof -
  note D = rep_okD [OF ok]
  let ?P = "\<lambda>(k', v :: 'v option). case k' of None \<Rightarrow> False | Some k' \<Rightarrow> equal k' k"
  let ?z = "zip (keys (table r)) (vals (table r))"
  have l: "length (vals (table r)) = length (keys (table r))" using D(3) by simp
  have P: "i < length ?z \<Longrightarrow> ?P (?z ! i) \<longleftrightarrow> holds equal (keys (table r)) k i" for i
    by (auto simp: holds_def split: option.split)
  have "g < length ?z" using h l by (simp add: holds_def)
  moreover have "\<not> ?P (?z ! j)" if "j < g" for j
    using P [of j] holds_unique [OF D(4) h, of j] that calculation by auto
  ultimately have "List.find ?P ?z = Some (?z ! g)"
    unfolding find_Some_iff using P [of g] h by (intro exI [of _ g] conjI refl allI impI) simp_all
  then show ?thesis using \<open>g < length ?z\<close> l unfolding map_of_rep_def D(2) by simp
qed

lemma map_of_rep_misses:
  fixes r :: "('k, 'v) rep"
  assumes "rep_ok hash equal r" "\<forall>g. \<not> holds equal (keys (table r)) k g"
  shows "map_of_rep r k = None"
proof -
  have "List.find (\<lambda>(k', v :: 'v option). case k' of None \<Rightarrow> False | Some k' \<Rightarrow> equal k' k)
      (zip (keys (table r)) (vals (table r))) = None"
    using assms(2) by (auto simp: find_None_iff holds_def in_set_zip split: option.split)
  then show ?thesis unfolding map_of_rep_def rep_okD(2) [OF assms(1)] by simp
qed

lemma map_of_rep_cases:
  assumes "rep_ok hash equal r"
  obtains g where "holds equal (keys (table r)) k g" "map_of_rep r k = vals (table r) ! g"
  | "\<forall>g. \<not> holds equal (keys (table r)) k g" "map_of_rep r k = None"
proof (cases "\<exists>g. holds equal (keys (table r)) k g")
  case True
  then obtain g where "holds equal (keys (table r)) k g" ..
  from that(1) [OF this map_of_rep_hits [OF assms this]] show ?thesis .
next
  case False
  then have "\<forall>g. \<not> holds equal (keys (table r)) k g" by simp
  from that(2) [OF this map_of_rep_misses [OF assms this]] show ?thesis .
qed

lemma map_of_rep_None_iff:
  assumes "rep_ok hash equal r" "vals_ok r"
  shows "map_of_rep r k = None \<longleftrightarrow> (\<forall>g. \<not> holds equal (keys (table r)) k g)"
proof (cases rule: map_of_rep_cases [OF assms(1), of k])
  case (1 g)
  then have "vals (table r) ! g \<noteq> None" using assms(2) by (auto simp: holds_def vals_ok_def)
  with 1 show ?thesis by metis
next
  case 2
  then show ?thesis by blast
qed

definition with_key :: "nat \<Rightarrow> 'k \<Rightarrow> 'v option \<Rightarrow> ('k, 'v) rep \<Rightarrow> ('k, 'v) rep" where
  "with_key g k v r = r\<lparr>table := with_slot g (mark (hash k)) (Some k) v (table r),
     not_empty := not_empty r + (if markers (table r) ! g = 0 then 1 else 0),
     deleted := deleted r - (if markers (table r) ! g = 0 then 0 else 1)\<rparr>"

definition without_key :: "nat \<Rightarrow> ('k, 'v) rep \<Rightarrow> ('k, 'v) rep" where
  "without_key g r = r\<lparr>table := with_slot g 1 None None (table r), deleted := deleted r + 1, grow := 0\<rparr>"

lemma not_empty_less_grow:
  assumes "rep_ok hash equal r" "sized lg r" "not_empty r < grow r"
  shows "used (markers (table r)) < 4 * (kWidth * 2 ^ lg) div 5"
proof -
  have lg: "lg \<le> 28" "length (table r) = 2 ^ lg" and g: "grow r = of_nat (4 * (kWidth * 2 ^ lg) div 5)"
    using assms(2,3) by (auto simp: sized_def)
  have "(2 :: nat) ^ lg \<le> 2 ^ 28" using lg(1) by (intro power_increasing) simp_all
  then have b: "4 * (kWidth * 2 ^ lg) div 5 < 2 ^ 64" by (simp add: kWidth_def)
  moreover have "used (markers (table r)) < 2 ^ 64"
    using used_le [of "markers (table r)"] rep_okD(3) [OF assms(1)] lg(2) \<open>2 ^ lg \<le> 2 ^ 28\<close> by (simp add: kWidth_def)
  ultimately show ?thesis
    using assms(3) unfolding g rep_okD(5) [OF assms(1)] by (simp add: word_less_nat_alt)
qed

lemma rep_ok_with_key:
  assumes ok: "rep_ok hash equal r"
    and room: "\<And>lg. sized lg r \<Longrightarrow> used (markers (table r)) < 4 * (kWidth * 2 ^ lg) div 5"
    and g: "g < length (markers (table r))" "markers (table r) ! g = 0 \<or> markers (table r) ! g = 1"
      "reached (markers (table r)) (hash k) g"
    and miss: "\<forall>g. \<not> holds equal (keys (table r)) k g"
  shows "rep_ok hash equal (with_key g k v r)"
proof -
  note D = rep_okD [OF ok]
  let ?ms = "markers (table r)" and ?ks = "keys (table r)"
  obtain m where m: "length ?ms = 2 ^ m" by (rule rep_ok_cap [OF ok])
  have gl: "g < length (table r) * kWidth" using g(1) D(3) by simp
  have "?ks ! g = None" by (rule no_key_at [OF D(4) g(1,2)])
  moreover have "\<not> equal k' k \<and> \<not> equal k k'" if "g' < length ?ms" "?ks ! g' = Some k'" for g' k'
    using miss that equal_sym key_tableD(1) [OF D(4) g(1)] by (auto simp: holds_def)
  ultimately have kt: "key_table hash equal (?ms[g := mark (hash k)]) (?ks[g := Some k])"
    using key_table_insert [OF D(4) m g(3,1)] by blast
  have u: "used (?ms[g := mark (hash k)]) = used ?ms + (if ?ms ! g = 0 then 1 else 0)"
    using used_update [OF g(1), of "mark (hash k)"] by (auto split: if_splits)
  have t: "tombs ?ms = tombs (?ms[g := mark (hash k)]) + (if ?ms ! g = 0 then 0 else 1)"
    using tombs_update [OF g(1), of "mark (hash k)"] g(2) by (auto split: if_splits)
  from ok obtain lg where lg: "sized lg r" by (auto simp: rep_ok_def)
  have "used (?ms[g := mark (hash k)]) \<le> 4 * (kWidth * 2 ^ lg) div 5"
    using room [OF lg] u by simp
  then have "sized lg (with_key g k v r)" using lg D(3) gl by (simp add: sized_def with_key_def)
  then show ?thesis using D kt u t gl unfolding rep_ok_def by (auto simp: with_key_def)
qed

lemma map_of_rep_with_key:
  assumes ok: "rep_ok hash equal r" and ok': "rep_ok hash equal (with_key g k v r)"
    and g: "g < length (markers (table r))" "markers (table r) ! g = 0 \<or> markers (table r) ! g = 1"
  shows "map_of_rep (with_key g k v r) = (\<lambda>k'. if equal k k' then v else map_of_rep r k')"
proof
  fix k'
  note D = rep_okD [OF ok]
  have gl: "g < length (table r) * kWidth" using g(1) D(3) by simp
  then have tab: "keys (table (with_key g k v r)) = (keys (table r))[g := Some k]"
    "vals (table (with_key g k v r)) = (vals (table r))[g := v]" using D(3) by (simp_all add: with_key_def)
  have l: "g < length (keys (table r))" "g < length (vals (table r))" using gl D(3) by simp_all
  have gN: "keys (table r) ! g = None" by (rule no_key_at [OF D(4) g])
  show "map_of_rep (with_key g k v r) k' = (if equal k k' then v else map_of_rep r k')"
  proof (cases "equal k k'")
    case True
    then have "holds equal (keys (table (with_key g k v r))) k' g" using l by (simp add: tab holds_update)
    from map_of_rep_hits [OF ok' this] True l show ?thesis by (simp add: tab)
  next
    case False
    show ?thesis
    proof (cases rule: map_of_rep_cases [OF ok, of k'])
      case (1 i)
      then have "i \<noteq> g" using gN by (auto simp: holds_def)
      with 1(1) l have "holds equal (keys (table (with_key g k v r))) k' i" by (simp add: tab holds_update)
      from map_of_rep_hits [OF ok' this] False 1(2) \<open>i \<noteq> g\<close> show ?thesis by (simp add: tab)
    next
      case 2
      then have "\<forall>i. \<not> holds equal (keys (table (with_key g k v r))) k' i"
        using False l by (auto simp: tab holds_update)
      from map_of_rep_misses [OF ok' this] False 2(2) show ?thesis by simp
    qed
  qed
qed

lemma Erase_slot:
  assumes ok: "rep_ok hash equal r" and g: "g < length (markers (table r))"
    and kv: "keys (table r) ! g = Some k" "vals (table r) ! g = Some v"
  shows "Erase (g div kWidth) (g mod kWidth) r = Inr (without_key g r)" "rep_ok hash equal (without_key g r)"
    "map_of_rep (without_key g r) = (\<lambda>k'. if equal k k' then None else map_of_rep r k')"
proof -
  note D = rep_okD [OF ok]
  let ?ms = "markers (table r)" and ?ks = "keys (table r)"
  have gl: "g < length (table r) * kWidth" using g D(3) by simp
  show "Erase (g div kWidth) (g mod kWidth) r = Inr (without_key g r)"
    by (simp add: Erase_def destroy_slot [OF D(3) gl kv] without_key_def)
  obtain m where m: "length ?ms = 2 ^ m" by (rule rep_ok_cap [OF ok])
  have mk: "?ms ! g = mark (hash k)" using key_tableD(3) [OF D(4) g kv(1)] .
  have u: "used (?ms[g := 1]) = used ?ms" using used_update [OF g, of 1] mk by simp
  have t: "tombs (?ms[g := 1]) = tombs ?ms + 1" using tombs_update [OF g, of 1] mk by simp
  show ok': "rep_ok hash equal (without_key g r)"
  proof -
    from ok obtain lg where "sized lg r" by (auto simp: rep_ok_def)
    then have "sized lg (without_key g r)" using u D(3) gl by (simp add: sized_def without_key_def)
    then show ?thesis using D key_table_erase [OF D(4) m g] u t gl unfolding rep_ok_def
      by (auto simp: without_key_def)
  qed
  have tab: "keys (table (without_key g r)) = ?ks[g := None]"
    "vals (table (without_key g r)) = (vals (table r))[g := None]" using D(3) gl by (simp_all add: without_key_def)
  have l: "g < length ?ks" using gl D(3) by simp
  show "map_of_rep (without_key g r) = (\<lambda>k'. if equal k k' then None else map_of_rep r k')"
  proof
    fix k'
    have kg: "holds equal ?ks k' g \<longleftrightarrow> equal k k'" using l kv(1) by (simp add: holds_def)
    show "map_of_rep (without_key g r) k' = (if equal k k' then None else map_of_rep r k')"
    proof (cases rule: map_of_rep_cases [OF ok, of k'])
      case (1 i)
      show ?thesis
      proof (cases "i = g")
        case True
        have "\<not> holds equal (keys (table (without_key g r))) k' j" for j
          using holds_unique [OF D(4) 1(1), of j] True by (cases "j = g") (auto simp: tab holds_update [OF l])
        then have "\<forall>j. \<not> holds equal (keys (table (without_key g r))) k' j" ..
        from map_of_rep_misses [OF ok' this] 1(1) kg True show ?thesis by simp
      next
        case False
        then have "holds equal (keys (table (without_key g r))) k' i" using 1(1) l by (simp add: tab holds_update)
        from map_of_rep_hits [OF ok' this] False 1 kg holds_unique [OF D(4) 1(1), of g] show ?thesis
          by (auto simp: tab)
      qed
    next
      case 2
      then have "\<forall>j. \<not> holds equal (keys (table (without_key g r))) k' j" using l by (auto simp: tab holds_update)
      from map_of_rep_misses [OF ok' this] 2 show ?thesis by simp
    qed
  qed
qed

end

section \<open>New tables\<close>

lemma capacity: "lg \<le> 28 \<Longrightarrow> unat (capacity_lg lg) = kWidth * 2 ^ lg"
proof -
  assume "lg \<le> 28"
  then have "(2 :: nat) ^ lg \<le> 2 ^ 28" by (intro power_increasing) simp_all
  moreover have "capacity_lg lg = of_nat (kWidth * 2 ^ lg)"
    by (simp add: capacity_lg_def push_bit_eq_mult mult.commute)
  moreover have "unat (of_nat n :: uint32) = n" if "n < 2 ^ 32" for n
    using that by (simp add: unat_of_nat take_bit_nat_eq_self)
  moreover have "kWidth * 2 ^ lg < 2 ^ 32" using calculation(1) by (simp add: kWidth_def)
  ultimately show ?thesis by (simp only:)
qed

lemma Init_lg_ends:
  assumes "5 * unat N < 2 ^ 33"
  shows "\<exists>lg \<le> 28. Init_lg N = Inr lg \<and> 5 * unat N < 4 * (kWidth * 2 ^ lg)"
proof -
  let ?fits = "\<lambda>lg. 5 * unat N < 4 * (kWidth * 2 ^ lg)"
  define lg where "lg = (LEAST lg. ?fits lg)"
  have "?fits 28" using assms by (simp add: kWidth_def)
  then have lg: "?fits lg" "lg \<le> 28" unfolding lg_def by (rule LeastI, rule Least_le)
  have before: "\<not> ?fits l" if "l < lg" for l using that unfolding lg_def by (rule not_less_Least)
  have "Init_lg N = Inr lg"
    unfolding Init_lg_def
  proof (rule forever_leaves [where n = lg and st = "\<lambda>l. l"], goal_cases)
    case (1 l)
    then show ?case using lg(2) before [OF 1] by (simp add: capacity)
  next
    case 2
    then show ?case using lg by (simp add: capacity)
  qed
  with lg show ?thesis by blast
qed

lemma new_bucket_ok [simp]: "bucket_ok (new_bucket m)"
  by (simp add: bucket_ok_def new_bucket_def)

lemma concat_replicate_replicate: "concat (replicate n (replicate m x)) = replicate (n * m) x"
  by (induction n) (simp_all add: replicate_add)

lemma new_table [simp]:
  "markers (replicate n (new_bucket m)) = replicate (n * kWidth) m"
  "keys (replicate n (new_bucket m)) = replicate (n * kWidth) None"
  "vals (replicate n (new_bucket m)) = replicate (n * kWidth) None"
  by (simp_all add: markers_def keys_def vals_def new_bucket_def concat_replicate_replicate)

text \<open>What is in a table: the number of keys, and the pairs of keys and values, in the first slots or in all.\<close>

definition keycount :: "'k option list \<Rightarrow> nat" where
  "keycount ks = length (filter (\<lambda>k. k \<noteq> None) ks)"

definition entries_below :: "nat \<Rightarrow> ('k, 'v) bucket list \<Rightarrow> ('k \<times> 'v) set" where
  "entries_below n T = {(k, v). \<exists>g < n. keys T ! g = Some k \<and> vals T ! g = Some v}"

definition entries :: "('k, 'v) bucket list \<Rightarrow> ('k \<times> 'v) set" where
  "entries T = entries_below (length (keys T)) T"

lemma keycount_replicate [simp]: "keycount (replicate n None) = 0"
  by (simp add: keycount_def)

lemma used_replicate [simp]: "used (replicate n 0) = 0" "tombs (replicate n 0) = 0"
  by (simp_all add: used_def tombs_def)

lemma Init_spec:
  assumes "5 * unat N < 2 ^ 33"
  obtains r' lg where "Init N r = Inr r'" "rep_ok (hash_fn r) (equal_fn r) r'" "sized lg r'"
    "5 * unat N < 4 * (kWidth * 2 ^ lg)" "grow r' = of_nat (4 * (kWidth * 2 ^ lg) div 5)"
    "used (markers (table r')) = 0" "entries (table r') = {}" "vals_ok r'"
proof -
  obtain lg where lg: "lg \<le> 28" "Init_lg N = Inr lg" "5 * unat N < 4 * (kWidth * 2 ^ lg)"
    using Init_lg_ends [OF assms] by blast
  have b: "(2 :: nat) ^ lg \<le> 2 ^ 28" using lg(1) by (intro power_increasing) simp_all
  have u32: "unat (capacity_lg lg) = kWidth * 2 ^ lg" using lg(1) by (rule capacity)
  have cap: "(ucast (capacity_lg lg) :: size_t) = of_nat (kWidth * 2 ^ lg)"
  proof -
    have "(of_nat (unat (capacity_lg lg)) :: size_t) = ucast (capacity_lg lg)" by (rule of_nat_unat)
    then show ?thesis unfolding u32 ..
  qed
  have g64: "unat (of_nat (4 * (kWidth * 2 ^ lg) div 5) :: size_t) = 4 * (kWidth * 2 ^ lg) div 5"
    using b by (intro unat_of_nat_small) (simp add: kWidth_def)
  have c64: "unat (of_nat (kWidth * 2 ^ lg) :: size_t) = kWidth * 2 ^ lg"
    using b by (intro unat_of_nat_small) (simp add: kWidth_def)
  have m: "(of_nat (kWidth * 2 ^ lg) :: size_t) - 1 = of_nat (kWidth * 2 ^ lg - 1)"
    by (simp add: of_nat_diff kWidth_def)
  let ?T = "replicate (2 ^ lg) (new_bucket 0) :: ('a, 'b) bucket list"
  let ?r = "r\<lparr>lglen := of_nat lg, index_mask := of_nat (kWidth * 2 ^ lg - 1), table := ?T,
     not_empty := 0, deleted := 0, grow := of_nat (4 * (kWidth * 2 ^ lg) div 5),
     shrink := (if lg = 0 then 0 else of_nat (2 * (4 * (kWidth * 2 ^ lg) div 5) div 5))\<rparr>"
  have init: "Init N r = Inr ?r"
    unfolding Init_def lg(2) bnd_simps Let_def cap c64 g64 m ..
  have sz: "sized lg ?r" using lg(1) by (simp add: sized_def)
  moreover have "key_table (hash_fn r) (equal_fn r) (markers ?T) (keys ?T)"
    by (simp add: key_table_def)
  ultimately have ok: "rep_ok (hash_fn r) (equal_fn r) ?r" unfolding rep_ok_def by auto
  show ?thesis
    by (rule that [OF init ok sz lg(3)]) (auto simp: entries_def entries_below_def vals_ok_def)
qed

section \<open>Copying and moving entries\<close>

text \<open>What a copier does to the destination, and \<open>leave\<close>, what it does to the slot it reads.\<close>

definition copies :: "('k, 'v) copier \<Rightarrow> (nat \<Rightarrow> ('k, 'v) bucket \<Rightarrow> ('k, 'v) bucket) \<Rightarrow> bool" where
  "copies copier leave \<longleftrightarrow>
     (\<forall>dst i src j k v. bucket_ok dst \<longrightarrow> bucket_ok src \<longrightarrow> i < kWidth \<longrightarrow> j < kWidth \<longrightarrow>
        b_key src ! j = Some k \<longrightarrow> b_val src ! j = Some v \<longrightarrow>
        copier dst i src j = Inr (dst\<lparr>b_key := (b_key dst)[i := Some k], b_val := (b_val dst)[i := Some v]\<rparr>, leave j src))"

definition moved :: "nat \<Rightarrow> ('k, 'v) bucket \<Rightarrow> ('k, 'v) bucket" where
  "moved j b = b\<lparr>b_marker := (b_marker b)[j := 1], b_key := (b_key b)[j := None], b_val := (b_val b)[j := None]\<rparr>"

lemma CopyEntry_copies: "copies CopyEntry (\<lambda>_ b. b)"
  by (simp add: copies_def CopyEntry_def bucket_CopyFrom_def bucket_ok_def)

lemma MoveEntry_copies: "copies MoveEntry moved"
  by (auto simp: copies_def MoveEntry_def bucket_MoveFrom_def bucket_CopyFrom_def bucket_ok_def
      bucket_Destroy_def set_marker_def moved_def intro!: bucket.equality)

text \<open>Only the slots still to be read matter in the source.\<close>

definition same_from :: "nat \<Rightarrow> ('k, 'v) bucket list \<Rightarrow> ('k, 'v) bucket list \<Rightarrow> bool" where
  "same_from n T T' \<longleftrightarrow> slots_ok T' \<and> length T' = length T \<and>
     (\<forall>g. n \<le> g \<longrightarrow> g < length T * kWidth \<longrightarrow>
        markers T' ! g = markers T ! g \<and> keys T' ! g = keys T ! g \<and> vals T' ! g = vals T ! g)"

definition leaves_rest :: "(nat \<Rightarrow> ('k, 'v) bucket \<Rightarrow> ('k, 'v) bucket) \<Rightarrow> bool" where
  "leaves_rest leave \<longleftrightarrow>
     (\<forall>T n g. g < length T * kWidth \<longrightarrow> same_from n T T \<longrightarrow> n \<le> g \<longrightarrow>
        same_from (Suc g) T (T[g div kWidth := leave (g mod kWidth) (T ! (g div kWidth))]))"

lemma moved_with_slot:
  "T[g div kWidth := moved (g mod kWidth) (T ! (g div kWidth))] = with_slot g 1 None None T"
  by (simp add: moved_def with_slot_def Let_def)

lemma leaves_rest_moved: "leaves_rest moved"
  unfolding leaves_rest_def moved_with_slot same_from_def by auto

lemma leaves_rest_same: "leaves_rest (\<lambda>_ b. b)"
  unfolding leaves_rest_def by (auto simp: same_from_def)

lemma same_from_step:
  "same_from n T T1 \<Longrightarrow> same_from (Suc g) T1 T2 \<Longrightarrow> n \<le> Suc g \<Longrightarrow> same_from (Suc g) T T2"
  unfolding same_from_def by auto

context hashing
begin

lemma FreshInsert_spec:
  assumes ok: "rep_ok hash equal r" and miss: "\<forall>g. \<not> holds equal (keys (table r)) k g"
    and cp: "copies copier leave"
    and src: "slots_ok srcs" "s < length srcs * kWidth" "2 \<le> markers srcs ! s" "keys srcs ! s = Some k" "vals srcs ! s = Some v"
  shows "\<exists>g < length (markers (table r)). markers (table r) ! g = 0 \<and> reached (markers (table r)) (hash k) g \<and>
    FreshInsert copier (s div kWidth) (srcs, r) (s mod kWidth) =
      Inr (srcs[s div kWidth := leave (s mod kWidth) (srcs ! (s div kWidth))], with_key g k (Some v) r)"
proof -
  note D = rep_okD [OF ok]
  obtain m where m: "m \<le> 31" "length (markers (table r)) = 2 ^ m" "index_mask r = of_nat (2 ^ m - 1)"
    "used (markers (table r)) < 2 ^ m" by (rule rep_ok_cap [OF ok])
  let ?p = "probe (2 ^ m) (hash k)" and ?ms = "markers (table r)"
  obtain n where n: "n < 2 ^ m" "\<And>t. t < n \<Longrightarrow> ?ms ! ?p t \<noteq> 0" "?ms ! ?p n = 0"
    using search_ends [OF D(4) m(2,4), of k] miss by blast
  define g where "g = ?p n"
  have g: "g < length ?ms" "g < length (table r) * kWidth"
    using m(2) shaped_length(1) [OF D(3)] by (simp_all add: g_def)
  let ?st = "\<lambda>t. (of_nat (?p t) :: size_t, of_nat (Suc t) :: uint32)"
  have start: "(start_index r (hash k), 1) = ?st 0" by (simp add: start_probe [OF m(3,1)])
  define sb where "sb = srcs ! (s div kWidth)"
  have sb: "get srcs (s div kWidth) = Inr sb" "bucket_ok sb" "bucket_key sb (s mod kWidth) = Inr k"
    "b_key sb ! (s mod kWidth) = Some k" "b_val sb ! (s mod kWidth) = Some v"
    using slot_in [OF src(2)] shaped_bucket [OF src(1,2)] shaped_nth [OF src(1,2)] src
    by (simp_all add: sb_def bucket_key_def)
  define tb where "tb = table r ! (g div kWidth)"
  have tb: "get (table r) (g div kWidth) = Inr tb" "g div kWidth < length (table r)" "bucket_ok tb"
    using slot_in [OF g(2)] D(3) by (simp_all add: tb_def)
  let ?tb = "tb\<lparr>b_marker := (b_marker tb)[g mod kWidth := mark (hash k)]\<rparr>"
  have sm: "on_bucket (g div kWidth) (set_marker (g mod kWidth) (mark (hash k))) r =
      Inr (r\<lparr>table := (table r)[g div kWidth := ?tb]\<rparr>)"
    using tb by (simp add: on_bucket_def set_marker_def bucket_ok_def)
  have cop: "copier ?tb (g mod kWidth) sb (s mod kWidth) =
      Inr (?tb\<lparr>b_key := (b_key tb)[g mod kWidth := Some k], b_val := (b_val tb)[g mod kWidth := Some v]\<rparr>,
           leave (s mod kWidth) sb)"
    using cp [unfolded copies_def, rule_format, of ?tb sb "g mod kWidth" "s mod kWidth" k v] tb(3) sb by (simp add: bucket_ok_def)
  have "forever (\<lambda>(index, num_probes).
        let (b, bi) = slot_of index in
        bnd (marker_at r b bi) (\<lambda>x.
        if x = 0 then
          bnd (on_bucket b (set_marker bi (ucast (hash_marker (hash k)))) r) (\<lambda>r.
          bnd (get (table r) b) (\<lambda>dst. bnd (copier dst bi sb (s mod kWidth)) (\<lambda>(dst, src).
          Inr (Inr (srcs[s div kWidth := src], r\<lparr>not_empty := not_empty r + 1, table := (table r)[b := dst]\<rparr>)))))
        else Inr (Inl (rep_NextIndex r index num_probes, num_probes + 1)))) (?st 0) =
      Inr (srcs[s div kWidth := leave (s mod kWidth) sb], with_key g k (Some v) r)"
  proof (rule forever_leaves [where n = n and st = ?st], goal_cases)
    case (1 t)
    have "t < 2 ^ m" using 1 n(1) by simp
    with n(2) [OF 1] show ?case
      by (simp add: probe_slot [OF ok m(1,2)] next_probe [OF m(3,1)] ucast_marker_0 del: of_nat_Suc) simp
  next
    case 2
    have "marker_at r (g div kWidth) (g mod kWidth) = Inr 0"
      using probe_slot(2) [OF ok m(1,2), of "hash k" n] n(3) by (simp flip: g_def)
    then show ?case
      using n(3) tb sm cop unfolding g_def [symmetric] mark_def [symmetric]
      by (simp add: probe_slot(1) [OF ok m(1,2), of "hash k" n, folded g_def] with_key_def with_slot_def Let_def)
  qed
  then have "FreshInsert copier (s div kWidth) (srcs, r) (s mod kWidth) =
      Inr (srcs[s div kWidth := leave (s mod kWidth) sb], with_key g k (Some v) r)"
    by (simp only: FreshInsert_def prod.case sb bnd_simps D(1) Let_def start)
  moreover have "reached ?ms (hash k) g"
    unfolding reached_def m(2) g_def using n(1,2) by (intro exI [of _ n]) auto
  ultimately show ?thesis using g(1) n(3) unfolding sb_def g_def [symmetric] by blast
qed

lemma sized_unique: "sized lg r \<Longrightarrow> sized lg' r \<Longrightarrow> lg = lg'"
  by (auto simp: sized_def power_inject_exp)

lemma entries_below_Suc:
  "entries_below (Suc g) T = (case keys T ! g of None \<Rightarrow> {} | Some k \<Rightarrow>
     (case vals T ! g of None \<Rightarrow> {} | Some v \<Rightarrow> {(k, v)})) \<union> entries_below g T"
  by (auto simp: entries_below_def less_Suc_eq split: option.splits)

lemma keycount_take_Suc:
  "g < length ks \<Longrightarrow> keycount (take (Suc g) ks) = keycount (take g ks) + (if ks ! g = None then 0 else 1)"
  by (simp add: keycount_def take_Suc_conv_app_nth)

lemma keycount_take_le: "keycount (take g ks) \<le> keycount ks"
  unfolding keycount_def by (metis append_take_drop_id filter_append length_append le_add1)

text \<open>What the table holds after a key has gone into an unused slot.\<close>

lemma with_key_facts:
  assumes ok: "rep_ok hash equal r" and g: "g < length (markers (table r))" "markers (table r) ! g = 0 \<or> markers (table r) ! g = 1"
  shows "entries (table (with_key g k (Some v) r)) = insert (k, v) (entries (table r))"
    "vals_ok r \<Longrightarrow> vals_ok (with_key g k (Some v) r)"
    "used (markers (table (with_key g k v' r))) = used (markers (table r)) + (if markers (table r) ! g = 0 then 1 else 0)"
    "tombs (markers (table (with_key g k v' r))) + (if markers (table r) ! g = 0 then 0 else 1) = tombs (markers (table r))"
    "grow (with_key g k v' r) = grow r" "length (table (with_key g k v' r)) = length (table r)"
    "sized lg r \<Longrightarrow> used (markers (table (with_key g k v' r))) \<le> 4 * (kWidth * 2 ^ lg) div 5 \<Longrightarrow> sized lg (with_key g k v' r)"
proof -
  note D = rep_okD [OF ok]
  have gl: "g < length (table r) * kWidth" using g(1) D(3) by simp
  have l: "g < length (keys (table r))" "length (vals (table r)) = length (keys (table r))" using gl D(3) by simp_all
  have gN: "keys (table r) ! g = None" by (rule no_key_at [OF D(4) g])
  have tab: "markers (table (with_key g k v r)) = (markers (table r))[g := mark (hash k)]"
    "keys (table (with_key g k v r)) = (keys (table r))[g := Some k]"
    "vals (table (with_key g k v r)) = (vals (table r))[g := v]" for v
    using D(3) gl by (simp_all add: with_key_def)
  show "entries (table (with_key g k (Some v) r)) = insert (k, v) (entries (table r))"
    using l gN by (auto simp: entries_def entries_below_def tab nth_list_update split: if_splits)
      (metis option.distinct(1))
  show "vals_ok r \<Longrightarrow> vals_ok (with_key g k (Some v) r)"
    using l by (simp add: vals_ok_def tab nth_list_update)
  show u: "used (markers (table (with_key g k v' r))) = used (markers (table r)) + (if markers (table r) ! g = 0 then 1 else 0)"
    using used_update [OF g(1), of "mark (hash k)"] by (simp add: tab split: if_splits)
  show "tombs (markers (table (with_key g k v' r))) + (if markers (table r) ! g = 0 then 0 else 1) = tombs (markers (table r))"
    using tombs_update [OF g(1), of "mark (hash k)"] g(2) by (auto simp: tab split: if_splits)
  show "grow (with_key g k v' r) = grow r" "length (table (with_key g k v' r)) = length (table r)"
    by (simp_all add: with_key_def)
  show "sized lg r \<Longrightarrow> used (markers (table (with_key g k v' r))) \<le> 4 * (kWidth * 2 ^ lg) div 5 \<Longrightarrow> sized lg (with_key g k v' r)"
    by (simp add: sized_def with_key_def)
qed

lemma CopyEntries_spec:
  assumes cp: "copies copier leave" "leaves_rest leave"
    and src: "slots_ok srcs" "key_table hash equal (markers srcs) (keys srcs)"
      "\<And>g. g < length (keys srcs) \<Longrightarrow> keys srcs ! g \<noteq> None \<Longrightarrow> vals srcs ! g \<noteq> None"
    and ok: "rep_ok hash equal r" "vals_ok r" "sized lg r" "used (markers (table r)) = 0"
    and room: "keycount (keys srcs) \<le> 4 * (kWidth * 2 ^ lg) div 5"
  shows "\<exists>srcs' r'. CopyEntries copier srcs r = Inr (srcs', r') \<and> rep_ok hash equal r' \<and> vals_ok r' \<and>
    sized lg r' \<and> grow r' = grow r \<and> entries (table r') = entries srcs \<and>
    used (markers (table r')) = keycount (keys srcs) \<and> tombs (markers (table r')) = 0"
proof -
  define P where "P g st \<longleftrightarrow> (case st of (srcs', r') \<Rightarrow> same_from g srcs srcs' \<and> rep_ok hash equal r' \<and> vals_ok r' \<and>
    sized lg r' \<and> grow r' = grow r \<and> entries (table r') = entries_below g srcs \<and>
    used (markers (table r')) = keycount (take g (keys srcs)) \<and> tombs (markers (table r')) = 0)" for g st
  let ?body = "\<lambda>g (srcs, r). bnd (get srcs (g div kWidth)) (\<lambda>bu. bnd (get (b_marker bu) (g mod kWidth)) (\<lambda>m.
         if 2 \<le> m then FreshInsert copier (g div kWidth) (srcs, r) (g mod kWidth) else Inr (srcs, r)))"
  have "\<exists>st. for_each [0..<length srcs * kWidth] ?body (srcs, r) = Inr st \<and> P (length srcs * kWidth) st"
  proof (rule for_each_rule [where P = P])
    have "\<forall>g < length (markers (table r)). keys (table r) ! g = None"
    proof (intro allI impI)
      fix g assume g: "g < length (markers (table r))"
      have "markers (table r) ! g = 0" using ok(4) g unfolding used_def by (auto simp: filter_empty_conv)
      then show "keys (table r) ! g = None" using no_key_at [OF rep_okD(4) [OF ok(1)] g] by simp
    qed
    then have "entries (table r) = {}"
      using rep_okD(3) [OF ok(1)] by (auto simp: entries_def entries_below_def)
    then show "P 0 (srcs, r)" using ok src(1) tombs_le_used [of "markers (table r)"]
      by (simp add: P_def same_from_def entries_below_def keycount_def)
  next
    fix g st
    assume g: "g < length srcs * kWidth" and st: "P g st"
    obtain srcs' r' where [simp]: "st = (srcs', r')" by (cases st)
    from st have same: "same_from g srcs srcs'" and r': "rep_ok hash equal r'" "vals_ok r'" "sized lg r'" "grow r' = grow r"
      and en: "entries (table r') = entries_below g srcs"
      and us: "used (markers (table r')) = keycount (take g (keys srcs))" "tombs (markers (table r')) = 0"
      by (simp_all add: P_def)
    have gl: "g < length srcs' * kWidth" "slots_ok srcs'" and eq: "markers srcs' ! g = markers srcs ! g"
      "keys srcs' ! g = keys srcs ! g" "vals srcs' ! g = vals srcs ! g"
      using same g by (auto simp: same_from_def)
    have gs: "g < length (markers srcs)" "g < length (keys srcs)" using g src(1) by simp_all
    note at = slot_in [OF gl(1)] shaped_bucket [OF gl(2,1)] shaped_nth [OF gl(2,1)]
    show "\<exists>st'. ?body g st = Inr st' \<and> P (Suc g) st'"
    proof (cases "keys srcs ! g")
      case None
      then have "\<not> 2 \<le> markers srcs ! g" using key_tableD(2) [OF src(2) gs(1)] by simp
      moreover have "same_from (Suc g) srcs srcs'" using same by (simp add: same_from_def)
      ultimately show ?thesis using at eq r' en us None gs(2)
        by (simp add: P_def entries_below_Suc keycount_take_Suc)
    next
      case (Some k)
      obtain v where v: "vals srcs ! g = Some v" using src(3) [OF gs(2)] Some by auto
      have m: "2 \<le> markers srcs' ! g" using key_tableD(2) [OF src(2) gs(1)] Some eq by simp
      have miss: "\<forall>i. \<not> holds equal (keys (table r')) k i"
      proof (intro allI notI)
        fix i assume "holds equal (keys (table r')) k i"
        then obtain k' where k': "i < length (keys (table r'))" "keys (table r') ! i = Some k'" "equal k' k"
          by (auto simp: holds_def)
        then obtain w where "vals (table r') ! i = Some w" using r'(2) by (auto simp: vals_ok_def)
        then have "(k', w) \<in> entries_below g srcs" using k' unfolding en [symmetric] by (auto simp: entries_def entries_below_def)
        then obtain j where "j < g" "keys srcs ! j = Some k'" by (auto simp: entries_below_def)
        then show False using key_tableD(5) [OF src(2), of j g k' k] k'(3) Some gs(1) by simp
      qed
      from FreshInsert_spec [OF r'(1) miss cp(1) gl(2,1) m] Some v eq obtain i where i:
        "i < length (markers (table r'))" "markers (table r') ! i = 0" "reached (markers (table r')) (hash k) i"
        "FreshInsert copier (g div kWidth) (srcs', r') (g mod kWidth) =
          Inr (srcs'[g div kWidth := leave (g mod kWidth) (srcs' ! (g div kWidth))], with_key i k (Some v) r')"
        by auto
      let ?srcs = "srcs'[g div kWidth := leave (g mod kWidth) (srcs' ! (g div kWidth))]"
      have "same_from g srcs' srcs'" using gl(2) by (simp add: same_from_def)
      then have "same_from (Suc g) srcs' ?srcs" using cp(2) gl(1) unfolding leaves_rest_def by blast
      then have same': "same_from (Suc g) srcs ?srcs" using same_from_step [OF same] by simp
      have cnt: "keycount (take (Suc g) (keys srcs)) = Suc (keycount (take g (keys srcs)))"
        using keycount_take_Suc [OF gs(2)] Some by simp
      then have lt: "used (markers (table r')) < 4 * (kWidth * 2 ^ lg) div 5"
        using keycount_take_le [of "Suc g" "keys srcs"] room us(1) by simp
      have i01: "markers (table r') ! i = 0 \<or> markers (table r') ! i = 1" using i(2) by simp
      note F = with_key_facts [OF r'(1) i(1) i01]
      have ok': "rep_ok hash equal (with_key i k (Some v) r')"
        using lt sized_unique [OF r'(3)] by (intro rep_ok_with_key [OF r'(1) _ i(1) i01 i(3) miss]) auto
      have "P (Suc g) (?srcs, with_key i k (Some v) r')"
        using same' ok' F(1,2,3,4,5) F(7) [OF r'(3)] r' en us i(2) cnt lt Some v
        by (simp add: P_def entries_below_Suc)
      then show ?thesis using at m i(4) by auto
    qed
  qed
  then obtain srcs' r' where "for_each [0..<length srcs * kWidth] ?body (srcs, r) = Inr (srcs', r')"
    and fin: "P (length srcs * kWidth) (srcs', r')" by auto
  then have "CopyEntries copier srcs r = Inr (srcs', r')"
    unfolding CopyEntries_def for_each_slots by (simp add: case_prod_unfold)
  with fin src(1) show ?thesis by (auto simp: P_def entries_def)
qed

section \<open>Resizing, copying and clearing\<close>

definition good :: "('k, 'v) rep \<Rightarrow> bool" where
  "good r \<longleftrightarrow> rep_ok hash equal r \<and> vals_ok r"

lemma map_of_rep_entries:
  assumes "good r"
  shows "map_of_rep r k = Some v \<longleftrightarrow> (\<exists>k'. (k', v) \<in> entries (table r) \<and> equal k' k)"
proof -
  have ok: "rep_ok hash equal r" using assms by (simp add: good_def)
  show ?thesis
  proof (cases rule: map_of_rep_cases [OF ok, of k])
    case (1 g)
    then obtain k0 where k0: "g < length (keys (table r))" "keys (table r) ! g = Some k0" "equal k0 k" by (auto simp: holds_def)
    show ?thesis
    proof
      assume "map_of_rep r k = Some v"
      then show "\<exists>k'. (k', v) \<in> entries (table r) \<and> equal k' k"
        using k0 1(2) by (auto simp: entries_def entries_below_def)
    next
      assume "\<exists>k'. (k', v) \<in> entries (table r) \<and> equal k' k"
      then obtain k' i where "holds equal (keys (table r)) k i" "vals (table r) ! i = Some v"
        by (auto simp: entries_def entries_below_def holds_def)
      then show "map_of_rep r k = Some v" using map_of_rep_hits [OF ok] by simp
    qed
  next
    case 2
    then show ?thesis by (auto simp: entries_def entries_below_def holds_def)
  qed
qed

lemma same_entries_same_map:
  assumes "good r" "good r'" "entries (table r') = entries (table r)"
  shows "map_of_rep r' = map_of_rep r"
proof
  fix k
  have "map_of_rep r' k = Some v \<longleftrightarrow> map_of_rep r k = Some v" for v
    using map_of_rep_entries [OF assms(1)] map_of_rep_entries [OF assms(2)] assms(3) by simp
  then show "map_of_rep r' k = map_of_rep r k" by (cases "map_of_rep r k") (metis not_Some_eq)+
qed

lemma used_keycount:
  assumes "key_table hash equal ms ks"
  shows "used ms = tombs ms + keycount ks"
proof -
  have "used ms = card {i. i < length ms \<and> ms ! i \<noteq> 0}" "tombs ms = card {i. i < length ms \<and> ms ! i = 1}"
    "keycount ks = card {i. i < length ms \<and> ks ! i \<noteq> None}"
    using assms by (simp_all add: used_def tombs_def keycount_def length_filter_conv_card key_table_def)
  moreover have "{i. i < length ms \<and> ms ! i \<noteq> 0} =
      {i. i < length ms \<and> ms ! i = 1} \<union> {i. i < length ms \<and> ks ! i \<noteq> None}"
    using key_tableD(2) [OF assms] small_marker by fastforce
  moreover have "{i. i < length ms \<and> ms ! i = 1} \<inter> {i. i < length ms \<and> ks ! i \<noteq> None} = {}"
    using no_key_at [OF assms] by auto
  ultimately show ?thesis by (simp add: card_Un_disjoint)
qed

lemma rep_size_keycount:
  assumes "rep_ok hash equal r"
  shows "rep_size r = of_nat (keycount (keys (table r)))"
  using used_keycount [OF rep_okD(4) [OF assms]] by (simp add: rep_size_def rep_okD(5,6) [OF assms])

lemma cap_bounds:
  assumes "sized lg r" "rep_ok hash equal r"
  shows "4 * (kWidth * 2 ^ lg) div 5 < 2 ^ 33" "keycount (keys (table r)) \<le> 4 * (kWidth * 2 ^ lg) div 5"
    "keycount (keys (table r)) \<le> used (markers (table r))" "used (markers (table r)) < 2 ^ 33" "kWidth * 2 ^ lg < 2 ^ 64"
proof -
  have "lg \<le> 28" using assms(1) by (simp add: sized_def)
  then have "(2 :: nat) ^ lg \<le> 2 ^ 28" by (intro power_increasing) simp_all
  then show "4 * (kWidth * 2 ^ lg) div 5 < 2 ^ 33" "kWidth * 2 ^ lg < 2 ^ 64" by (simp_all add: kWidth_def)
  moreover have "used (markers (table r)) \<le> 4 * (kWidth * 2 ^ lg) div 5" using assms(1) by (simp add: sized_def)
  moreover show "keycount (keys (table r)) \<le> used (markers (table r))"
    using used_keycount [OF rep_okD(4) [OF assms(2)]] by simp
  ultimately show "keycount (keys (table r)) \<le> 4 * (kWidth * 2 ^ lg) div 5" "used (markers (table r)) < 2 ^ 33" by auto
qed

lemma fill_new_table:
  assumes cp: "copies copier leave" "leaves_rest leave"
    and src: "slots_ok srcs" "key_table hash equal (markers srcs) (keys srcs)"
      "\<And>g. g < length (keys srcs) \<Longrightarrow> keys srcs ! g \<noteq> None \<Longrightarrow> vals srcs ! g \<noteq> None"
    and N: "keycount (keys srcs) \<le> unat N" "fits (unat N)"
    and r: "hash_fn r = hash" "equal_fn r = equal"
  shows "\<exists>r0 srcs' r'. Init N r = Inr r0 \<and> CopyEntries copier srcs r0 = Inr (srcs', r') \<and> good r' \<and>
    entries (table r') = entries srcs \<and> keycount (keys (table r')) = keycount (keys srcs) \<and>
    tombs (markers (table r')) = 0 \<and> (keycount (keys srcs) < unat N \<longrightarrow> not_empty r' < grow r')"
proof -
  obtain r0 lg where r0: "Init N r = Inr r0" "rep_ok hash equal r0" "sized lg r0"
    "5 * unat N < 4 * (kWidth * 2 ^ lg)" "grow r0 = of_nat (4 * (kWidth * 2 ^ lg) div 5)"
    "used (markers (table r0)) = 0" "vals_ok r0"
    using Init_spec [OF N(2), of r] unfolding r by blast
  have le: "unat N \<le> 4 * (kWidth * 2 ^ lg) div 5" using r0(4) by linarith
  then have room: "keycount (keys srcs) \<le> 4 * (kWidth * 2 ^ lg) div 5" using N(1) by simp
  obtain srcs' r' where r': "CopyEntries copier srcs r0 = Inr (srcs', r')" "rep_ok hash equal r'" "vals_ok r'"
    "sized lg r'" "grow r' = grow r0" "entries (table r') = entries srcs"
    "used (markers (table r')) = keycount (keys srcs)" "tombs (markers (table r')) = 0"
    using CopyEntries_spec [OF cp src r0(2,7,3,6) room] by blast
  have kc: "keycount (keys (table r')) = keycount (keys srcs)"
    using used_keycount [OF rep_okD(4) [OF r'(2)]] r'(7,8) by simp
  have "not_empty r' < grow r'" if "keycount (keys srcs) < unat N"
    using that le cap_bounds [OF r'(4,2)] unfolding r'(5) r0(5) rep_okD(5) [OF r'(2)] r'(7)
    by (simp add: word_less_nat_alt)
  with r0(1) r' kc show ?thesis by (auto simp: good_def)
qed

lemma Resize_spec:
  assumes "good r" "keycount (keys (table r)) \<le> unat N" "fits (unat N)"
  shows "\<exists>r'. rep_Resize N r = Inr r' \<and> good r' \<and> entries (table r') = entries (table r) \<and>
    keycount (keys (table r')) = keycount (keys (table r)) \<and> tombs (markers (table r')) = 0 \<and>
    (keycount (keys (table r)) < unat N \<longrightarrow> not_empty r' < grow r')"
proof -
  have ok: "rep_ok hash equal r" "vals_ok r" using assms(1) by (simp_all add: good_def)
  have v: "g < length (keys (table r)) \<Longrightarrow> keys (table r) ! g \<noteq> None \<Longrightarrow> vals (table r) ! g \<noteq> None" for g
    using ok(2) by (simp add: vals_ok_def)
  from fill_new_table [OF MoveEntry_copies leaves_rest_moved rep_okD(3,4) [OF ok(1)] v assms(2,3) rep_okD(1,2) [OF ok(1)]]
  show ?thesis by (auto simp: rep_Resize_def)
qed

lemma MaybeResize_spec:
  assumes g: "good r" and N: "fits (keycount (keys (table r)) + 1)"
  shows "\<exists>r'. MaybeResize r = Inr r' \<and> good r' \<and> entries (table r') = entries (table r) \<and>
    keycount (keys (table r')) = keycount (keys (table r)) \<and> not_empty r' < grow r' \<and>
    tombs (markers (table r')) \<le> tombs (markers (table r))"
proof (cases "not_empty r < grow r")
  case True
  then show ?thesis using g by (simp add: MaybeResize_def)
next
  case False
  have ok: "rep_ok hash equal r" "vals_ok r" using g by (simp_all add: good_def)
  obtain lg where lg: "sized lg r" using ok(1) by (auto simp: rep_ok_def)
  have sz: "unat (rep_size r + 1) = keycount (keys (table r)) + 1"
  proof -
    have "rep_size r + 1 = of_nat (keycount (keys (table r)) + 1)" by (simp add: rep_size_keycount [OF ok(1)])
    moreover have "keycount (keys (table r)) + 1 < 2 ^ 64" using N by simp
    ultimately show ?thesis by (simp only: unat_of_nat_small)
  qed
  have res: "\<exists>r''. rep_Resize (rep_size r + 1) r' = Inr r'' \<and> good r'' \<and> entries (table r'') = entries (table r) \<and>
    keycount (keys (table r'')) = keycount (keys (table r)) \<and> not_empty r'' < grow r'' \<and> tombs (markers (table r'')) \<le> tombs (markers (table r))"
    if "good r'" "table r' = table r" for r'
    using Resize_spec [OF that(1), of "rep_size r + 1"] N that(2) unfolding sz by auto
  have bc: "bucket_count r = of_nat (kWidth * 2 ^ lg)"
    using lg by (simp add: bucket_count_def sized_def of_nat_diff kWidth_def)
  have "unat (of_nat (kWidth * 2 ^ lg) :: size_t) = kWidth * 2 ^ lg"
    by (rule unat_of_nat_small [OF cap_bounds(5) [OF lg ok(1)]])
  then have gr: "of_nat (4 * unat (bucket_count r) div 5) = (of_nat (4 * (kWidth * 2 ^ lg) div 5) :: size_t)"
    unfolding bc by simp
  let ?r = "r\<lparr>grow := of_nat (4 * (kWidth * 2 ^ lg) div 5)\<rparr>"
  have "sized lg ?r" using lg by (simp add: sized_def)
  then have g': "good ?r" using ok unfolding good_def rep_ok_def by (auto simp: vals_ok_def)
  have "rep_size ?r = rep_size r" by (simp add: rep_size_def)
  then show ?thesis using False res [OF g] res [OF g'] g' unfolding MaybeResize_def gr Let_def by simp
qed

lemma FlatRep_copy_spec:
  assumes g: "good r" and N: "fits (keycount (keys (table r)))"
  shows "\<exists>r'. FlatRep_copy r = Inr r' \<and> good r' \<and> entries (table r') = entries (table r) \<and>
    keycount (keys (table r')) = keycount (keys (table r))"
proof -
  have ok: "rep_ok hash equal r" "vals_ok r" using g by (simp_all add: good_def)
  have v: "g < length (keys (table r)) \<Longrightarrow> keys (table r) ! g \<noteq> None \<Longrightarrow> vals (table r) ! g \<noteq> None" for g
    using ok(2) by (simp add: vals_ok_def)
  have sz: "unat (rep_size r) = keycount (keys (table r))"
    using N by (simp add: rep_size_keycount [OF ok(1)])
  have "hash_fn (blank (hash_fn r) (equal_fn r)) = hash" "equal_fn (blank (hash_fn r) (equal_fn r)) = equal"
    using rep_okD(1,2) [OF ok(1)] by (simp_all add: blank_def)
  from fill_new_table [OF CopyEntry_copies leaves_rest_same rep_okD(3,4) [OF ok(1)] v _ _ this, of "rep_size r"] N
  show ?thesis unfolding sz by (auto simp: FlatRep_copy_def)
qed

text \<open>
  \<open>clear_no_resize\<close> empties the slots that hold keys.  It leaves the markers of deleted slots as they are and sets both
  counts to 0.
\<close>

definition cleared :: "uint8 \<Rightarrow> uint8" where
  "cleared m = (if 2 \<le> m then 0 else m)"

lemma clear_no_resize_table:
  assumes "good r"
  shows "\<exists>T. rep_clear_no_resize r = Inr (r\<lparr>table := T, not_empty := 0, deleted := 0\<rparr>) \<and> slots_ok T \<and>
    length T = length (table r) \<and> markers T = map cleared (markers (table r)) \<and>
    keys T = replicate (length (markers (table r))) None"
proof -
  have ok: "rep_ok hash equal r" "vals_ok r" using assms by (simp_all add: good_def)
  note D = rep_okD [OF ok(1)]
  let ?T = "table r"
  define P where "P n r' \<longleftrightarrow> (\<exists>T. r' = r\<lparr>table := T\<rparr> \<and> same_from n ?T T \<and>
      (\<forall>g < n. markers T ! g = cleared (markers ?T ! g) \<and> keys T ! g = None))" for n r'
  let ?body = "\<lambda>g r. bnd (get (table r) (g div kWidth)) (\<lambda>bu. bnd (get (b_marker bu) (g mod kWidth)) (\<lambda>m.
     if 2 \<le> m then on_bucket (g div kWidth) (\<lambda>bu. bnd (bucket_Destroy (g mod kWidth) bu) (set_marker (g mod kWidth) kEmpty)) r
     else Inr r))"
  have "\<exists>r'. for_each [0..<length ?T * kWidth] ?body r = Inr r' \<and> P (length ?T * kWidth) r'"
  proof (rule for_each_rule [where P = P])
    show "P 0 r" using D(3) by (auto simp: P_def same_from_def intro!: exI [of _ ?T])
  next
    fix g r'
    assume g: "g < length ?T * kWidth" and "P g r'"
    then obtain T where T: "r' = r\<lparr>table := T\<rparr>" "same_from g ?T T"
      "\<And>i. i < g \<Longrightarrow> markers T ! i = cleared (markers ?T ! i) \<and> keys T ! i = None" by (auto simp: P_def)
    then have gl: "g < length (table r') * kWidth" "slots_ok (table r')" "table r' = T" "length T = length ?T"
      and eq: "markers T ! g = markers ?T ! g" "keys T ! g = keys ?T ! g" "vals T ! g = vals ?T ! g"
      using g by (auto simp: same_from_def)
    note at = slot_in [OF gl(1)] at_slot [OF gl(2,1)]
    have gs: "g < length (markers ?T)" "g < length (keys ?T)" using g D(3) by simp_all
    show "\<exists>r''. ?body g r' = Inr r'' \<and> P (Suc g) r''"
    proof (cases "keys ?T ! g")
      case None
      then have m: "\<not> 2 \<le> markers ?T ! g" using key_tableD(2) [OF D(4) gs(1)] by simp
      have "P (Suc g) r'" unfolding P_def using T None m eq
        by (intro exI [of _ T]) (auto simp: same_from_def less_Suc_eq cleared_def)
      with at m eq gl(3) show ?thesis by simp
    next
      case (Some k)
      obtain v where v: "vals ?T ! g = Some v" using ok(2) Some gs(2) by (auto simp: vals_ok_def)
      have m: "2 \<le> markers ?T ! g" using key_tableD(2) [OF D(4) gs(1)] Some by simp
      have "on_bucket (g div kWidth) (\<lambda>bu. bnd (bucket_Destroy (g mod kWidth) bu) (set_marker (g mod kWidth) kEmpty)) r' =
          Inr (r'\<lparr>table := with_slot g 0 None None (table r')\<rparr>)"
        using Some v eq gl(3) by (intro destroy_slot [OF gl(2,1)]) simp_all
      moreover have "P (Suc g) (r'\<lparr>table := with_slot g 0 None None (table r')\<rparr>)"
        unfolding P_def using T m eq gl
        by (intro exI [of _ "with_slot g 0 None None T"]) (auto simp: same_from_def less_Suc_eq cleared_def)
      ultimately show ?thesis using at m eq gl(3) by simp
    qed
  qed
  then obtain T where T: "for_each [0..<length ?T * kWidth] ?body r = Inr (r\<lparr>table := T\<rparr>)"
    "slots_ok T" "length T = length ?T"
    "\<And>g. g < length ?T * kWidth \<Longrightarrow> markers T ! g = cleared (markers ?T ! g) \<and> keys T ! g = None"
    by (auto simp: P_def same_from_def)
  have "rep_clear_no_resize r = Inr (r\<lparr>table := T, not_empty := 0, deleted := 0\<rparr>)"
    unfolding rep_clear_no_resize_def for_each_slots T(1) by simp
  moreover have "markers T = map cleared (markers ?T)" "keys T = replicate (length (markers ?T)) None"
    using T(2,3,4) D(3) by (auto intro!: nth_equalityI)
  ultimately show ?thesis using T(2,3) by blast
qed

lemma clear_no_resize_spec:
  assumes "good r" "tombs (markers (table r)) = 0"
  shows "\<exists>r'. rep_clear_no_resize r = Inr r' \<and> good r' \<and> entries (table r') = {} \<and> keycount (keys (table r')) = 0 \<and>
    tombs (markers (table r')) = 0"
proof -
  have ok: "rep_ok hash equal r" "vals_ok r" using assms by (simp_all add: good_def)
  obtain T where T: "rep_clear_no_resize r = Inr (r\<lparr>table := T, not_empty := 0, deleted := 0\<rparr>)" "slots_ok T"
    "length T = length (table r)" "markers T = map cleared (markers (table r))"
    "keys T = replicate (length (markers (table r))) None"
    using clear_no_resize_table [OF assms(1)] by blast
  have "cleared m = 0" if "m \<in> set (markers (table r))" for m
    using that assms(2) small_marker [of m] by (auto simp: cleared_def tombs_def filter_empty_conv)
  then have m: "markers T = replicate (length (markers (table r))) 0"
    unfolding T(4) by (simp add: map_replicate_const [symmetric] cong: map_cong)
  let ?r = "r\<lparr>table := T, not_empty := 0, deleted := 0\<rparr>"
  obtain lg where "sized lg r" using ok(1) by (auto simp: rep_ok_def)
  then have "sized lg ?r" using T(3) m by (simp add: sized_def)
  then have "rep_ok hash equal ?r"
    using rep_okD(1,2) [OF ok(1)] T(2,5) m unfolding rep_ok_def by (auto simp: key_table_def)
  then show ?thesis using T(1,5) m
    by (auto simp: good_def vals_ok_def entries_def entries_below_def)
qed

lemma clear_spec:
  assumes "good r" "tombs (markers (table r)) = 0 \<or> 1 < length (table r)"
  shows "\<exists>r'. rep_clear r = Inr r' \<and> good r' \<and> entries (table r') = {} \<and> keycount (keys (table r')) = 0 \<and>
    tombs (markers (table r')) = 0"
proof (cases "tombs (markers (table r)) = 0")
  case True
  obtain r1 where r1: "rep_clear_no_resize r = Inr r1" "good r1" "entries (table r1) = {}" "keycount (keys (table r1)) = 0"
    "tombs (markers (table r1)) = 0"
    using clear_no_resize_spec [OF assms(1) True] by blast
  let ?r = "r1\<lparr>grow := 0\<rparr>"
  have g: "good ?r"
  proof -
    obtain lg where "sized lg r1" using r1(2) by (auto simp: good_def rep_ok_def)
    then have "sized lg ?r" by (simp add: sized_def)
    then show ?thesis using r1(2) by (auto simp: good_def rep_ok_def vals_ok_def)
  qed
  have "fits (keycount (keys (table ?r)) + 1)" using r1(4) by simp
  from MaybeResize_spec [OF g this] r1 show ?thesis by (auto simp: rep_clear_def)
next
  case False
  have ok: "rep_ok hash equal r" "vals_ok r" using assms by (simp_all add: good_def)
  obtain lg where lg: "sized lg r" using ok(1) by (auto simp: rep_ok_def)
  obtain T where T: "rep_clear_no_resize r = Inr (r\<lparr>table := T, not_empty := 0, deleted := 0\<rparr>)" "slots_ok T"
    "length T = length (table r)" "markers T = map cleared (markers (table r))"
    "keys T = replicate (length (markers (table r))) None"
    using clear_no_resize_table [OF assms(1)] by blast
  let ?r = "r\<lparr>table := T, not_empty := 0, deleted := 0, grow := 0\<rparr>"
  have "lg \<noteq> 0" using False assms(2) lg by (cases lg) (auto simp: sized_def)
  then have "shrink r = of_nat (2 * (4 * (kWidth * 2 ^ lg) div 5) div 5)" using lg by (simp add: sized_def)
  moreover have "0 < 2 * (4 * (kWidth * 2 ^ lg) div 5) div (5 :: nat)"
  proof -
    have "(2 :: nat) ^ 1 \<le> 2 ^ lg" using \<open>lg \<noteq> 0\<close> by (intro power_increasing) simp_all
    then have "12 \<le> 4 * (kWidth * 2 ^ lg) div 5" by (simp add: kWidth_def)
    then show ?thesis by simp
  qed
  ultimately have "shrink r = of_nat (2 * (4 * (kWidth * 2 ^ lg) div 5) div 5) \<and>
      0 < 2 * (4 * (kWidth * 2 ^ lg) div 5) div (5 :: nat)" by blast
  then have "shrink r \<noteq> 0"
  proof -
    assume sh: "shrink r = of_nat (2 * (4 * (kWidth * 2 ^ lg) div 5) div 5) \<and>
      0 < 2 * (4 * (kWidth * 2 ^ lg) div 5) div (5 :: nat)"
    have "2 * (4 * (kWidth * 2 ^ lg) div 5) div 5 \<le> 2 * (4 * (kWidth * 2 ^ lg) div (5 :: nat))" by (rule div_le_dividend)
    also have "\<dots> < 2 ^ 64"
    proof -
      have "x < 2 ^ 33 \<Longrightarrow> 2 * x < 2 ^ 64" for x :: nat by simp
      then show ?thesis using cap_bounds(1) [OF lg ok(1)] .
    qed
    finally have "unat (shrink r) = 2 * (4 * (kWidth * 2 ^ lg) div 5) div 5" using sh by simp
    then show ?thesis using sh by auto
  qed
  then have "rep_clear r = rep_Resize 1 ?r"
    unfolding rep_clear_def T(1) MaybeResize_def by (simp add: rep_size_def)
  have notwo: "\<not> 2 \<le> cleared m" for m by (simp add: cleared_def)
  then have kt: "key_table hash equal (markers T) (keys T)"
    unfolding key_table_def T(4,5) by simp
  have vs: "g < length (keys T) \<Longrightarrow> keys T ! g \<noteq> None \<Longrightarrow> vals T ! g \<noteq> None" for g by (simp add: T(5))
  have h: "hash_fn ?r = hash" "equal_fn ?r = equal" using rep_okD(1,2) [OF ok(1)] by simp_all
  have e: "entries T = {}" by (auto simp: entries_def entries_below_def T(5))
  have "keycount (keys T) = 0" by (simp add: T(5))
  with fill_new_table [OF MoveEntry_copies leaves_rest_moved T(2) kt vs _ _ h, of 1] e
  show ?thesis unfolding \<open>rep_clear r = rep_Resize 1 ?r\<close> by (auto simp: rep_Resize_def)
qed

section \<open>The contract of the table\<close>

text \<open>What the maps and sets on top of the table use: finding a key, and finding or inserting it.\<close>

lemma good_empty:
  assumes "fits (unat N)"
  shows "\<exists>r :: ('k, 'v) rep. FlatRep N hash equal = Inr r \<and> good r \<and> map_of_rep r = (\<lambda>_. None) \<and> entries (table r) = {} \<and>
    keycount (keys (table r)) = 0 \<and> tombs (markers (table r)) = 0"
proof -
  let ?b = "blank hash equal :: ('k, 'v) rep"
  have b: "hash_fn ?b = hash" "equal_fn ?b = equal" by (simp_all add: blank_def)
  obtain r lg where r: "Init N ?b = Inr r" "rep_ok hash equal r" "used (markers (table r)) = 0"
    "entries (table r) = {}" "vals_ok r"
    using Init_spec [OF assms, of ?b] unfolding b by blast
  then have g: "good r" by (simp add: good_def)
  have "map_of_rep r k = None" for k
    using map_of_rep_entries [OF g, of k] r(4) by (cases "map_of_rep r k") auto
  then have "map_of_rep r = (\<lambda>_. None)" by blast
  moreover have "tombs (markers (table r)) = 0" "keycount (keys (table r)) = 0"
    using used_keycount [OF rep_okD(4) [OF r(2)]] r(3) by simp_all
  ultimately show ?thesis using r(1,4) g by (auto simp: FlatRep_def)
qed

lemma find_cases:
  assumes "good r"
  obtains g k0 v where "g < length (markers (table r))" "keys (table r) ! g = Some k0" "vals (table r) ! g = Some v" "equal k0 k"
    "map_of_rep r k = Some v" "2 \<le> markers (table r) ! g"
    "Find r k = Inr \<lparr>found = True, sr_b = Some (g div kWidth), sr_index = g mod kWidth\<rparr>"
    "\<And>v0. FindOrInsert v0 r k = Inr (r, \<lparr>found = True, sr_b = Some (g div kWidth), sr_index = g mod kWidth\<rparr>)"
  | "\<forall>g. \<not> holds equal (keys (table r)) k g" "map_of_rep r k = None"
    "Find r k = Inr \<lparr>found = False, sr_b = None, sr_index = 0\<rparr>"
proof -
  have ok: "rep_ok hash equal r" "vals_ok r" using assms by (simp_all add: good_def)
  show ?thesis
  proof (cases rule: map_of_rep_cases [OF ok(1), of k])
    case (1 g)
    then obtain k0 v where "g < length (keys (table r))" "keys (table r) ! g = Some k0" "equal k0 k" "vals (table r) ! g = Some v"
      using ok(2) by (auto simp: holds_def vals_ok_def)
    then show ?thesis
      using that(1) [of g k0 v] 1 Find_hits [OF ok(1) 1(1)] FindOrInsert_hits [OF ok(1) 1(1)]
        holds_marker(3) [OF rep_okD(4) [OF ok(1)] 1(1)] rep_okD(3) [OF ok(1)] by simp
  next
    case 2
    then show ?thesis using that(2) Find_misses [OF ok(1) 2(1)] by simp
  qed
qed

text \<open>The table after a key that was missing has been inserted, once its value is there.\<close>

lemma insert_missing:
  assumes g: "good r" and room: "not_empty r < grow r" and miss: "\<forall>g. \<not> holds equal (keys (table r)) k g"
  shows "\<exists>g < length (markers (table r)).
    FindOrInsert v0 r k =
      Inr (with_key g k v0 r, \<lparr>found = False, sr_b = Some (g div kWidth), sr_index = g mod kWidth\<rparr>) \<and>
    (\<forall>v. good (with_key g k (Some v) r) \<and>
      map_of_rep (with_key g k (Some v) r) = (\<lambda>k'. if equal k k' then Some v else map_of_rep r k') \<and>
      keycount (keys (table (with_key g k (Some v) r))) = keycount (keys (table r)) + 1 \<and>
      tombs (markers (table (with_key g k (Some v) r))) \<le> tombs (markers (table r)))"
proof -
  have ok: "rep_ok hash equal r" "vals_ok r" using g by (simp_all add: good_def)
  obtain g where g: "g < length (markers (table r))" "markers (table r) ! g = 0 \<or> markers (table r) ! g = 1"
    "reached (markers (table r)) (hash k) g"
    "FindOrInsert v0 r k =
      Inr (with_key g k v0 r, \<lparr>found = False, sr_b = Some (g div kWidth), sr_index = g mod kWidth\<rparr>)"
    using FindOrInsert_misses [OF ok(1) miss, of v0] unfolding with_key_def by blast
  have "rep_ok hash equal (with_key g k v r)" for v
    using not_empty_less_grow [OF ok(1) _ room] by (intro rep_ok_with_key [OF ok(1) _ g(1,2,3) miss])
  moreover note F = with_key_facts [OF ok(1) g(1,2)]
  moreover have "keycount (keys (table (with_key g k (Some v) r))) = keycount (keys (table r)) + 1" for v
    using used_keycount [OF rep_okD(4) [OF calculation(1)], of "Some v"] used_keycount [OF rep_okD(4) [OF ok(1)]]
      F(3,4) [of k "Some v"] by (auto split: if_splits)
  ultimately show ?thesis
    using g(1,4) ok(2) map_of_rep_with_key [OF ok(1) _ g(1,2)] F(2) F(4)
    by (intro exI [of _ g]) (auto simp: good_def, metis le_add1)
qed

end

end
