(* ===== verification/Flat_Map.thy ===== *)
theory Flat_Map
  imports Flat_Table
begin

unbundle bit_operations_syntax

text \<open>
  \<open>core/lib/gtl/flatmap.h\<close> and \<open>core/lib/gtl/flatset.h\<close>: the map and the set on the hash table of
  \<open>Flat_Rep\<close>.

  An iterator is the index of a bucket, the end and an index in the bucket.  A reference to a key or
  a value is the slot it is in; a slot is valid until the table is resized.  A \<open>FlatSet\<close> is a table
  whose values are of type \<open>unit\<close>.
\<close>


section \<open>Iterators\<close>

record iter =
  it_b :: nat
  it_end :: nat
  it_i :: nat

text \<open>\<open>SkipUnused\<close>; \<open>FillValue\<close> takes references to key and value, which the accessors check.\<close>

definition FillValue :: "('k, 'v) rep \<Rightarrow> iter \<Rightarrow> unit out" where
  "FillValue r it =
     bnd (get (table r) (it_b it)) (\<lambda>bu. bnd (get (b_marker bu) (it_i it)) (\<lambda>m. dcheck (2 \<le> m)))"

definition SkipUnused :: "('k, 'v) rep \<Rightarrow> iter \<Rightarrow> iter out" where
  "SkipUnused r = forever (\<lambda>it.
     if it_b it < it_end it then
       if kWidth \<le> it_i it then Inr (Inl (it\<lparr>it_i := 0, it_b := it_b it + 1\<rparr>))
       else bnd (get (table r) (it_b it)) (\<lambda>bu. bnd (get (b_marker bu) (it_i it)) (\<lambda>m.
         if m < 2 then Inr (Inl (it\<lparr>it_i := it_i it + 1\<rparr>))
         else bnd (FillValue r it) (\<lambda>_. Inr (Inr it))))
     else Inr (Inr it))"

definition iterator_from :: "('k, 'v) rep \<Rightarrow> nat \<Rightarrow> iter out" where
  "iterator_from r b = SkipUnused r \<lparr>it_b = b, it_end = length (table r), it_i = 0\<rparr>"

definition iterator_at :: "('k, 'v) rep \<Rightarrow> nat \<Rightarrow> nat \<Rightarrow> iter out" where
  "iterator_at r b i =
     (let it = \<lparr>it_b = b, it_end = length (table r), it_i = i\<rparr> in bnd (FillValue r it) (\<lambda>_. Inr it))"

definition iter_eq :: "iter \<Rightarrow> iter \<Rightarrow> bool" where
  "iter_eq it x \<longleftrightarrow> it_b it = it_b x \<and> it_i it = it_i x"

definition iter_incr :: "('k, 'v) rep \<Rightarrow> iter \<Rightarrow> iter out" where
  "iter_incr r it =
     bnd (dcheck (it_b it \<noteq> it_end it)) (\<lambda>_. SkipUnused r (it\<lparr>it_i := it_i it + 1\<rparr>))"

text \<open>\<open>*it\<close>: the key and the value it refers to.\<close>

definition deref :: "('k, 'v) rep \<Rightarrow> iter \<Rightarrow> ('k \<times> 'v) out" where
  "deref r it =
     bnd (key_at r (it_b it) (it_i it)) (\<lambda>k. bnd (val_at r (it_b it) (it_i it)) (\<lambda>v. Inr (k, v)))"

definition map_begin :: "('k, 'v) rep \<Rightarrow> iter out" where
  "map_begin r = iterator_from r 0"

definition map_end :: "('k, 'v) rep \<Rightarrow> iter out" where
  "map_end r = iterator_from r (length (table r))"

section \<open>FlatMap\<close>

definition FlatMap_new :: "size_t \<Rightarrow> ('k \<Rightarrow> size_t) \<Rightarrow> ('k \<Rightarrow> 'k \<Rightarrow> bool) \<Rightarrow> ('k, 'v) rep out" where
  "FlatMap_new N hf eq = FlatRep N hf eq"

text \<open>\<open>Insert\<close>, the constructor over a range, and \<open>operator[]\<close>, whose new value is \<open>Val()\<close>.\<close>

definition InitVal :: "nat \<Rightarrow> 'v \<Rightarrow> ('k, 'v) bucket \<Rightarrow> ('k, 'v) bucket out" where
  "InitVal i v b = bnd (put (b_val b) i (Some v)) (\<lambda>vs. Inr (b\<lparr>b_val := vs\<rparr>))"

definition at_bucket :: "nat option \<Rightarrow> (nat \<Rightarrow> 'a out) \<Rightarrow> 'a out" where
  "at_bucket b f = (case b of None \<Rightarrow> Inl NullBucket | Some b \<Rightarrow> f b)"

definition map_Insert :: "'k \<Rightarrow> 'v \<Rightarrow> ('k, 'v) rep \<Rightarrow> (('k, 'v) rep \<times> iter \<times> bool) out" where
  "map_Insert k v r =
     bnd (MaybeResize r) (\<lambda>r. bnd (FindOrInsert None r k) (\<lambda>(r, s).
     at_bucket (sr_b s) (\<lambda>b.
     let inserted = \<not> found s in
     bnd (if inserted then on_bucket b (InitVal (sr_index s) v) r else Inr r) (\<lambda>r.
     bnd (iterator_at r b (sr_index s)) (\<lambda>it. Inr (r, it, inserted))))))"

definition map_insert_range :: "('k \<times> 'v) list \<Rightarrow> ('k, 'v) rep \<Rightarrow> ('k, 'v) rep out" where
  "map_insert_range kvs = for_each kvs (\<lambda>(k, v) r. bnd (map_Insert k v r) (\<lambda>(r, _). Inr r))"

definition FlatMap_range ::
    "('k \<times> 'v) list \<Rightarrow> size_t \<Rightarrow> ('k \<Rightarrow> size_t) \<Rightarrow> ('k \<Rightarrow> 'k \<Rightarrow> bool) \<Rightarrow> ('k, 'v) rep out" where
  "FlatMap_range kvs N hf eq = bnd (FlatMap_new N hf eq) (map_insert_range kvs)"

definition IndexOp :: "'v \<Rightarrow> 'k \<Rightarrow> ('k, 'v) rep \<Rightarrow> (('k, 'v) rep \<times> nat \<times> nat) out" where
  "IndexOp dflt k r =
     bnd (MaybeResize r) (\<lambda>r. bnd (FindOrInsert None r k) (\<lambda>(r, s).
     at_bucket (sr_b s) (\<lambda>b.
     bnd (get (table r) b) (\<lambda>bu. bnd (get (b_marker bu) (sr_index s)) (\<lambda>m. bnd (dcheck (2 \<le> m)) (\<lambda>_.
     bnd (if \<not> found s then on_bucket b (InitVal (sr_index s) dflt) r else Inr r) (\<lambda>r.
     Inr (r, b, sr_index s))))))))"

text \<open>An assignment through the reference that \<open>operator[]\<close> returns.\<close>

definition assign_index :: "'v \<Rightarrow> 'k \<Rightarrow> 'v \<Rightarrow> ('k, 'v) rep \<Rightarrow> ('k, 'v) rep out" where
  "assign_index dflt k v r =
     bnd (IndexOp dflt k r) (\<lambda>(r, b, i). bnd (val_at r b i) (\<lambda>_. on_bucket b (InitVal i v) r))"

definition map_find :: "'k \<Rightarrow> ('k, 'v) rep \<Rightarrow> iter out" where
  "map_find k r =
     bnd (Find r k) (\<lambda>s. if found s then at_bucket (sr_b s) (\<lambda>b. iterator_at r b (sr_index s)) else map_end r)"

definition map_count :: "'k \<Rightarrow> ('k, 'v) rep \<Rightarrow> nat out" where
  "map_count k r = bnd (Find r k) (\<lambda>s. Inr (if found s then 1 else 0))"

definition map_at :: "'k \<Rightarrow> ('k, 'v) rep \<Rightarrow> 'v out" where
  "map_at k r =
     bnd (Find r k) (\<lambda>s. bnd (dcheck (found s)) (\<lambda>_. at_bucket (sr_b s) (\<lambda>b. val_at r b (sr_index s))))"

definition map_erase :: "'k \<Rightarrow> ('k, 'v) rep \<Rightarrow> (('k, 'v) rep \<times> nat) out" where
  "map_erase k r =
     bnd (Find r k) (\<lambda>s.
     if \<not> found s then Inr (r, 0)
     else at_bucket (sr_b s) (\<lambda>b. bnd (Erase b (sr_index s) r) (\<lambda>r. Inr (r, 1))))"

definition map_erase_iter :: "iter \<Rightarrow> ('k, 'v) rep \<Rightarrow> (('k, 'v) rep \<times> iter) out" where
  "map_erase_iter pos r =
     bnd (Erase (it_b pos) (it_i pos) r) (\<lambda>r. bnd (iter_incr r pos) (\<lambda>pos. Inr (r, pos)))"

definition map_erase_range :: "iter \<Rightarrow> iter \<Rightarrow> ('k, 'v) rep \<Rightarrow> (('k, 'v) rep \<times> iter) out" where
  "map_erase_range pos stop r =
     forever (\<lambda>(r, pos).
       if iter_eq pos stop then Inr (Inr (r, pos))
       else bnd (Erase (it_b pos) (it_i pos) r) (\<lambda>r. bnd (iter_incr r pos) (\<lambda>pos. Inr (Inl (r, pos)))))
     (r, pos)"

definition map_reserve :: "size_t \<Rightarrow> ('k, 'v) rep \<Rightarrow> ('k, 'v) rep out" where
  "map_reserve N r = rep_Resize (max N (rep_size r)) r"

definition equal_range :: "'k \<Rightarrow> ('k, 'v) rep \<Rightarrow> (iter \<times> iter) out" where
  "equal_range k r =
     bnd (map_find k r) (\<lambda>pos. bnd (map_end r) (\<lambda>e.
     if iter_eq pos e then Inr (pos, pos)
     else bnd (iter_incr r pos) (\<lambda>next. Inr (pos, next))))"

text \<open>\<open>for (auto& p : x)\<close>: the body leaves the function with a result or goes on.\<close>

definition range_for :: "('k, 'v) rep \<Rightarrow> ('k \<times> 'v \<Rightarrow> 's \<Rightarrow> ('s + 'a) out) \<Rightarrow> 's \<Rightarrow> ('s + 'a) out" where
  "range_for r body s =
     bnd (map_begin r) (\<lambda>it. bnd (map_end r) (\<lambda>e.
     forever (\<lambda>(it, s).
       if iter_eq it e then Inr (Inr (Inl s))
       else bnd (deref r it) (\<lambda>p. bnd (body p s) (\<lambda>t.
         case t of Inr a \<Rightarrow> Inr (Inr (Inr a))
         | Inl s \<Rightarrow> bnd (iter_incr r it) (\<lambda>it. Inr (Inl (it, s))))))
     (it, s)))"

definition map_equal :: "('v \<Rightarrow> 'v \<Rightarrow> bool) \<Rightarrow> ('k, 'v) rep \<Rightarrow> ('k, 'v) rep \<Rightarrow> bool out" where
  "map_equal eqv r x =
     (if rep_size r \<noteq> rep_size x then Inr False
      else bnd (range_for x (\<lambda>(k, v) s.
             bnd (map_find k r) (\<lambda>i. bnd (map_end r) (\<lambda>e.
             if iter_eq i e then Inr (Inr False)
             else bnd (deref r i) (\<lambda>(_, w). if \<not> eqv w v then Inr (Inr False) else Inr (Inl s))))) ())
        (\<lambda>t. case t of Inl _ \<Rightarrow> Inr True | Inr a \<Rightarrow> Inr a))"

section \<open>FlatSet\<close>

definition set_Insert :: "'k \<Rightarrow> ('k, unit) rep \<Rightarrow> (('k, unit) rep \<times> iter \<times> bool) out" where
  "set_Insert k r =
     bnd (MaybeResize r) (\<lambda>r. bnd (FindOrInsert (Some ()) r k) (\<lambda>(r, s).
     at_bucket (sr_b s) (\<lambda>b.
     Inr (r, \<lparr>it_b = b, it_end = length (table r), it_i = sr_index s\<rparr>, \<not> found s))))"

definition set_insert_range :: "'k list \<Rightarrow> ('k, unit) rep \<Rightarrow> ('k, unit) rep out" where
  "set_insert_range ks = for_each ks (\<lambda>k r. bnd (set_Insert k r) (\<lambda>(r, _). Inr r))"

definition set_equal :: "('k, unit) rep \<Rightarrow> ('k, unit) rep \<Rightarrow> bool out" where
  "set_equal r x =
     (if rep_size r \<noteq> rep_size x then Inr False
      else bnd (range_for x (\<lambda>(k, _) s.
             bnd (map_find k r) (\<lambda>i. bnd (map_end r) (\<lambda>e.
             if iter_eq i e then Inr (Inr False) else Inr (Inl s)))) ())
        (\<lambda>t. case t of Inl _ \<Rightarrow> Inr True | Inr a \<Rightarrow> Inr a))"

section \<open>The operations on a well-formed table\<close>

lemma iterator_at_slot:
  "slots_ok (table r) \<Longrightarrow> g < length (table r) * kWidth \<Longrightarrow> 2 \<le> markers (table r) ! g \<Longrightarrow>
   iterator_at r (g div kWidth) (g mod kWidth) = Inr \<lparr>it_b = g div kWidth, it_end = length (table r), it_i = g mod kWidth\<rparr>"
  by (simp add: iterator_at_def FillValue_def at_slot)

lemma deref_slot:
  "slots_ok (table r) \<Longrightarrow> g < length (table r) * kWidth \<Longrightarrow> 2 \<le> markers (table r) ! g \<Longrightarrow>
   keys (table r) ! g = Some k \<Longrightarrow> vals (table r) ! g = Some v \<Longrightarrow>
   deref r \<lparr>it_b = g div kWidth, it_end = n, it_i = g mod kWidth\<rparr> = Inr (k, v)"
  by (simp add: deref_def key_at_slot val_at_slot)

lemma init_val_slot:
  assumes "slots_ok (table r)" "g < length (table r) * kWidth"
  shows "on_bucket (g div kWidth) (InitVal (g mod kWidth) v) r =
    Inr (r\<lparr>table := with_slot g (markers (table r) ! g) (keys (table r) ! g) (Some v) (table r)\<rparr>)"
proof -
  let ?b = "table r ! (g div kWidth)" and ?i = "g mod kWidth"
  have "(b_marker ?b)[?i := markers (table r) ! g] = b_marker ?b" "(b_key ?b)[?i := keys (table r) ! g] = b_key ?b"
    by (simp_all flip: at_slot(5,6) [OF assms])
  then show ?thesis by (intro on_bucket_slot [OF assms]) (simp_all add: InitVal_def at_slot [OF assms] Let_def)
qed

lemma with_slot_twice: "with_slot g m k v (with_slot g m' k' v' T) = with_slot g m k v T"
  by (cases "g div kWidth < length T") (simp_all add: with_slot_def Let_def list_update_beyond)

lemma map_end_eq: "map_end r = Inr \<lparr>it_b = length (table r), it_end = length (table r), it_i = 0\<rparr>"
  by (simp add: map_end_def iterator_from_def SkipUnused_def forever_unfold)

text \<open>The update of a partial map at all keys equal to \<open>k\<close>.\<close>

definition upd :: "('k \<Rightarrow> 'k \<Rightarrow> bool) \<Rightarrow> 'k \<Rightarrow> 'v option \<Rightarrow> ('k \<Rightarrow> 'v option) \<Rightarrow> 'k \<Rightarrow> 'v option" where
  "upd equal k x m = (\<lambda>k'. if equal k k' then x else m k')"

context hashing
begin

lemma init_val_with_key:
  assumes "rep_ok hash equal r" "g < length (markers (table r))"
  shows "on_bucket (g div kWidth) (InitVal (g mod kWidth) v) (with_key g k v0 r) = Inr (with_key g k (Some v) r)"
proof -
  have D: "slots_ok (table r)" "g < length (table r) * kWidth" using rep_okD(3) [OF assms(1)] assms(2) by simp_all
  then have "slots_ok (table (with_key g k v0 r))" "g < length (table (with_key g k v0 r)) * kWidth"
    by (simp_all add: with_key_def)
  from init_val_slot [OF this, of v] D show ?thesis
    by (simp add: with_key_def with_slot_twice)
qed

text \<open>A new value in the slot of a key.\<close>

definition with_val :: "nat \<Rightarrow> 'v \<Rightarrow> ('k, 'v) rep \<Rightarrow> ('k, 'v) rep" where
  "with_val g v r = r\<lparr>table := with_slot g (markers (table r) ! g) (keys (table r) ! g) (Some v) (table r)\<rparr>"

lemma with_val_spec:
  assumes g: "good r" "g < length (markers (table r))" "keys (table r) ! g = Some k0" "equal k0 k"
  shows "good (with_val g v r)" "map_of_rep (with_val g v r) = (\<lambda>k'. if equal k k' then Some v else map_of_rep r k')"
    "keys (table (with_val g v r)) = keys (table r)" "markers (table (with_val g v r)) = markers (table r)"
proof -
  have ok: "rep_ok hash equal r" "vals_ok r" using g(1) by (simp_all add: good_def)
  have D: "slots_ok (table r)" "g < length (table r) * kWidth" using rep_okD(3) [OF ok(1)] g(2) by simp_all
  show tab: "keys (table (with_val g v r)) = keys (table r)" "markers (table (with_val g v r)) = markers (table r)"
    using D by (simp_all add: with_val_def)
  have v: "vals (table (with_val g v r)) = (vals (table r))[g := Some v]" using D by (simp add: with_val_def)
  obtain lg where "sized lg r" using ok(1) by (auto simp: rep_ok_def)
  then have "sized lg (with_val g v r)" unfolding sized_def tab by (simp add: with_val_def)
  then have ok': "rep_ok hash equal (with_val g v r)"
    using rep_okD [OF ok(1)] D unfolding rep_ok_def tab by (auto simp: with_val_def)
  then show "good (with_val g v r)" using ok(2) D
    by (auto simp: good_def vals_ok_def tab v nth_list_update)
  show "map_of_rep (with_val g v r) = (\<lambda>k'. if equal k k' then Some v else map_of_rep r k')"
  proof
    fix k'
    have "equal k0 k' \<longleftrightarrow> equal k k'" using g(4) equal_sym equal_trans by blast
    then have h: "holds equal (keys (table r)) k' g \<longleftrightarrow> equal k k'" using g(3) D by (simp add: holds_def)
    show "map_of_rep (with_val g v r) k' = (if equal k k' then Some v else map_of_rep r k')"
    proof (cases rule: map_of_rep_cases [OF ok(1), of k'])
      case (1 i)
      have "holds equal (keys (table (with_val g v r))) k' i" using 1(1) by (simp add: tab)
      note m = map_of_rep_hits [OF ok' this, unfolded v]
      show ?thesis
      proof (cases "i = g")
        case True
        then show ?thesis using m 1(1) h D by simp
      next
        case False
        then have "\<not> equal k k'" using holds_unique [OF rep_okD(4) [OF ok(1)] 1(1), of g] h by blast
        then show ?thesis using m 1(2) False by simp
      qed
    next
      case 2
      have "\<forall>i. \<not> holds equal (keys (table (with_val g v r))) k' i" using 2(1) by (simp add: tab)
      from map_of_rep_misses [OF ok' this] 2 h show ?thesis by auto
    qed
  qed
qed

lemma room_to_insert:
  assumes "good r" "fits (keycount (keys (table r)) + 1)"
  obtains r1 where "MaybeResize r = Inr r1" "good r1" "map_of_rep r1 = map_of_rep r" "not_empty r1 < grow r1"
    "keycount (keys (table r1)) = keycount (keys (table r))"
  using MaybeResize_spec [OF assms] same_entries_same_map [OF assms(1)] by blast

lemma map_Insert_spec:
  assumes g: "good r" and N: "fits (keycount (keys (table r)) + 1)"
  shows "\<exists>r' it k0 w. map_Insert k v r = Inr (r', it, map_of_rep r k = None) \<and> good r' \<and>
    deref r' it = Inr (k0, w) \<and> equal k0 k \<and> map_of_rep r' k = Some w \<and>
    map_of_rep r' = (if map_of_rep r k = None then upd equal k (Some v) (map_of_rep r) else map_of_rep r) \<and>
    keycount (keys (table r')) = keycount (keys (table r)) + (if map_of_rep r k = None then 1 else 0)"
proof -
  obtain r1 where r1: "MaybeResize r = Inr r1" "good r1" "map_of_rep r1 = map_of_rep r" "not_empty r1 < grow r1"
    "keycount (keys (table r1)) = keycount (keys (table r))" by (rule room_to_insert [OF g N])
  have ok: "rep_ok hash equal r1" using r1(2) by (simp add: good_def)
  show ?thesis
  proof (cases rule: find_cases [OF r1(2), of k])
    case (1 g k0 w)
    then have "g < length (table r1) * kWidth" using rep_okD(3) [OF ok] by simp
    with 1 r1 rep_okD(3) [OF ok] show ?thesis
      by (simp add: map_Insert_def at_bucket_def iterator_at_slot deref_slot)
  next
    case 2
    obtain g where i: "g < length (markers (table r1))"
      "FindOrInsert None r1 k = Inr (with_key g k None r1, \<lparr>found = False, sr_b = Some (g div kWidth), sr_index = g mod kWidth\<rparr>)"
      "good (with_key g k (Some v) r1)"
      "map_of_rep (with_key g k (Some v) r1) = (\<lambda>k'. if equal k k' then Some v else map_of_rep r1 k')"
      "keycount (keys (table (with_key g k (Some v) r1))) = keycount (keys (table r1)) + 1"
      using insert_missing [OF r1(2,4) 2(1), of None] by blast
    let ?r = "with_key g k (Some v) r1"
    have ok': "rep_ok hash equal ?r" using i(3) by (simp add: good_def)
    have gl: "g < length (table r1) * kWidth" "g < length (table ?r) * kWidth" "slots_ok (table r1)"
      using i(1) rep_okD(3) [OF ok] by (simp_all add: with_key_def)
    have "markers (table ?r) ! g = mark (hash k)" "keys (table ?r) ! g = Some k" "vals (table ?r) ! g = Some v"
      using gl i(1) by (simp_all add: with_key_def)
    with i(1,2,3,5) i(4) [unfolded r1(3)] gl r1 2(2) rep_okD(3) [OF ok'] equal_refl [of k] init_val_with_key [OF ok i(1)] show ?thesis
      by (simp add: map_Insert_def at_bucket_def iterator_at_slot deref_slot upd_def)
  qed
qed

lemma assign_index_spec:
  assumes g: "good r" and N: "fits (keycount (keys (table r)) + 1)"
  shows "\<exists>r'. assign_index dflt k v r = Inr r' \<and> good r' \<and> map_of_rep r' = upd equal k (Some v) (map_of_rep r)"
proof -
  obtain r1 where r1: "MaybeResize r = Inr r1" "good r1" "map_of_rep r1 = map_of_rep r" "not_empty r1 < grow r1"
    by (rule room_to_insert [OF g N])
  have ok: "rep_ok hash equal r1" using r1(2) by (simp add: good_def)
  show ?thesis
  proof (cases rule: find_cases [OF r1(2), of k])
    case (1 g k0 w)
    then have gl: "slots_ok (table r1)" "g < length (table r1) * kWidth" using rep_okD(3) [OF ok] by simp_all
    have "assign_index dflt k v r = Inr (with_val g v r1)"
      using 1 r1(1) gl by (simp add: assign_index_def IndexOp_def at_bucket_def at_slot val_at_slot init_val_slot with_val_def)
    with with_val_spec [OF r1(2) 1(1,2,4), of v] r1(3) show ?thesis by (auto simp: upd_def)
  next
    case 2
    obtain g where i: "g < length (markers (table r1))"
      "FindOrInsert None r1 k = Inr (with_key g k None r1, \<lparr>found = False, sr_b = Some (g div kWidth), sr_index = g mod kWidth\<rparr>)"
      "\<And>v. good (with_key g k (Some v) r1)"
      "\<And>v. map_of_rep (with_key g k (Some v) r1) = (\<lambda>k'. if equal k k' then Some v else map_of_rep r1 k')"
      using insert_missing [OF r1(2,4) 2(1), of None] by blast
    have gl: "g < length (table r1) * kWidth" "slots_ok (table r1)"
      using i(1) rep_okD(3) [OF ok] by simp_all
    have slot: "slots_ok (table (with_key g k w r1))" "g < length (table (with_key g k w r1)) * kWidth"
      "2 \<le> markers (table (with_key g k w r1)) ! g" "vals (table (with_key g k w r1)) ! g = w" for w
      using gl i(1) by (simp_all add: with_key_def)
    have "on_bucket (g div kWidth) (InitVal (g mod kWidth) v) (with_key g k (Some dflt) r1) = Inr (with_key g k (Some v) r1)"
      by (rule init_val_with_key [OF ok i(1)])
    then have "assign_index dflt k v r = Inr (with_key g k (Some v) r1)"
      using i(2) r1(1) slot init_val_with_key [OF ok i(1)]
      by (simp add: assign_index_def IndexOp_def at_bucket_def at_slot val_at_slot)
    with i(3,4) r1(3) show ?thesis by (auto simp: upd_def)
  qed
qed

lemma map_find_spec:
  assumes g: "good r"
  shows "map_of_rep r k = None \<Longrightarrow> map_find k r = map_end r"
    "map_of_rep r k = Some v \<Longrightarrow> \<exists>it k0. map_find k r = Inr it \<and> deref r it = Inr (k0, v) \<and> equal k0 k \<and> it_b it < length (table r)"
    "map_count k r = Inr (if map_of_rep r k = None then 0 else 1)"
    "map_of_rep r k = Some v \<Longrightarrow> map_at k r = Inr v"
proof -
  have ok: "rep_ok hash equal r" using g by (simp add: good_def)
  note cs = find_cases [OF g, of k]
  show "map_of_rep r k = None \<Longrightarrow> map_find k r = map_end r"
    by (cases rule: cs) (simp_all add: map_find_def)
  show "map_count k r = Inr (if map_of_rep r k = None then 0 else 1)"
    by (cases rule: cs) (simp_all add: map_count_def)
  show "map_of_rep r k = Some v \<Longrightarrow> \<exists>it k0. map_find k r = Inr it \<and> deref r it = Inr (k0, v) \<and> equal k0 k \<and> it_b it < length (table r)"
  proof (cases rule: cs)
    case (1 g k0 w)
    assume "map_of_rep r k = Some v"
    moreover have "g < length (table r) * kWidth" using 1(1) rep_okD(3) [OF ok] by simp
    ultimately show ?thesis using 1 rep_okD(3) [OF ok] slot_in [of g "length (table r)"]
      by (simp add: map_find_def at_bucket_def iterator_at_slot deref_slot)
  qed simp
  show "map_of_rep r k = Some v \<Longrightarrow> map_at k r = Inr v"
  proof (cases rule: cs)
    case (1 g k0 w)
    assume "map_of_rep r k = Some v"
    with 1 rep_okD(3) [OF ok] show ?thesis by (simp add: map_at_def at_bucket_def val_at_slot)
  qed simp
qed

lemma map_erase_spec:
  assumes g: "good r"
  shows "\<exists>r'. map_erase k r = Inr (r', if map_of_rep r k = None then 0 else 1) \<and> good r' \<and>
    map_of_rep r' = upd equal k None (map_of_rep r)"
proof (cases rule: find_cases [OF g, of k])
  case (1 g k0 w)
  have ok: "rep_ok hash equal r" "vals_ok r" using assms by (simp_all add: good_def)
  note E = Erase_slot [OF ok(1) 1(1,2,3)]
  have gl: "g < length (table r) * kWidth" "slots_ok (table r)" using 1(1) rep_okD(3) [OF ok(1)] by simp_all
  have "vals_ok (without_key g r)" using ok(2) gl by (auto simp: vals_ok_def without_key_def nth_list_update)
  moreover have "equal k0 k' \<longleftrightarrow> equal k k'" for k' using 1(4) equal_sym equal_trans by blast
  ultimately show ?thesis using 1 E by (auto simp: map_erase_def at_bucket_def good_def upd_def)
next
  case 2
  have ok: "rep_ok hash equal r" using g by (simp add: good_def)
  have "map_of_rep r k' = None" if "equal k k'" for k'
  proof -
    have "\<forall>g. \<not> holds equal (keys (table r)) k' g"
      using 2(1) that equal_sym equal_trans unfolding holds_def by blast
    then show ?thesis by (rule map_of_rep_misses [OF ok])
  qed
  then have "upd equal k None (map_of_rep r) = map_of_rep r" by (auto simp: upd_def)
  with 2 g show ?thesis by (simp add: map_erase_def)
qed

text \<open>The other operations of the map.\<close>

lemma max_unat: "unat (max a b) = max (unat a) (unat b)"
  by (simp add: max_def word_le_nat_alt)

lemma unat_rep_size: "good r \<Longrightarrow> unat (rep_size r) = keycount (keys (table r))"
proof -
  assume "good r"
  then have ok: "rep_ok hash equal r" by (simp add: good_def)
  then obtain lg where "sized lg r" by (auto simp: rep_ok_def)
  from cap_bounds(3,4) [OF this ok] show ?thesis by (simp add: rep_size_keycount [OF ok])
qed

lemma deleted_tombs: "good r \<Longrightarrow> deleted r = 0 \<longleftrightarrow> tombs (markers (table r)) = 0"
proof -
  assume "good r"
  then have ok: "rep_ok hash equal r" by (simp add: good_def)
  then obtain lg where "sized lg r" by (auto simp: rep_ok_def)
  then have "tombs (markers (table r)) < 2 ^ 64"
    using cap_bounds(4) [OF _ ok] tombs_le_used [of "markers (table r)"] by fastforce
  then have "unat (deleted r) = tombs (markers (table r))" unfolding rep_okD(6) [OF ok] by simp
  then show ?thesis by (metis unat_0 unat_eq_zero)
qed

lemma map_reserve_spec:
  assumes g: "good r" and N: "fits (max (unat N) (unat (rep_size r)))"
  shows "\<exists>r'. map_reserve N r = Inr r' \<and> good r' \<and> map_of_rep r' = map_of_rep r"
  using Resize_spec [OF g, of "max N (rep_size r)"] N same_entries_same_map [OF g]
  unfolding max_unat unat_rep_size [OF g] map_reserve_def by fastforce

lemma empty_entries: "good r \<Longrightarrow> entries (table r) = {} \<Longrightarrow> map_of_rep r = (\<lambda>_. None)"
proof
  fix k assume "good r" "entries (table r) = {}"
  then show "map_of_rep r k = None" using map_of_rep_entries [of r k] by (cases "map_of_rep r k") auto
qed

end

section \<open>The map as its client sees it\<close>

text \<open>
  The operations of the map and their replies.  \<open>Found\<close> is the reply of \<open>count\<close> and \<open>erase\<close>, \<open>Entry\<close> that of \<open>insert\<close>
  (the value its iterator points to, and whether it is new), \<open>Value\<close> what \<open>find\<close> or \<open>at\<close> give.
\<close>

datatype ('k, 'v) map_op =
  OpInsert 'k 'v | OpAssign 'k 'v | OpFind 'k | OpCount 'k | OpAt 'k | OpErase 'k
  | OpReserve size_t | OpCopy | OpClear | OpClearNoResize

datatype 'v reply = Done | Found bool | Value "'v option" | Entry 'v bool

fun exec :: "'v \<Rightarrow> ('k, 'v) map_op \<Rightarrow> ('k, 'v) rep \<Rightarrow> (('k, 'v) rep \<times> 'v reply) out" where
  "exec dflt (OpInsert k v) r =
     bnd (map_Insert k v r) (\<lambda>(r, it, inserted). bnd (deref r it) (\<lambda>(_, w). Inr (r, Entry w inserted)))"
| "exec dflt (OpAssign k v) r = bnd (assign_index dflt k v r) (\<lambda>r. Inr (r, Done))"
| "exec dflt (OpFind k) r =
     bnd (map_find k r) (\<lambda>i. bnd (map_end r) (\<lambda>e.
     if iter_eq i e then Inr (r, Value None) else bnd (deref r i) (\<lambda>(_, w). Inr (r, Value (Some w)))))"
| "exec dflt (OpCount k) r = bnd (map_count k r) (\<lambda>n. Inr (r, Found (n = 1)))"
| "exec dflt (OpAt k) r = bnd (map_at k r) (\<lambda>w. Inr (r, Value (Some w)))"
| "exec dflt (OpErase k) r = bnd (map_erase k r) (\<lambda>(r, n). Inr (r, Found (n = 1)))"
| "exec dflt (OpReserve N) r = bnd (map_reserve N r) (\<lambda>r. Inr (r, Done))"
| "exec dflt OpCopy r = bnd (FlatRep_copy r) (\<lambda>r. Inr (r, Done))"
| "exec dflt OpClear r = bnd (rep_clear r) (\<lambda>r. Inr (r, Done))"
| "exec dflt OpClearNoResize r = bnd (rep_clear_no_resize r) (\<lambda>r. Inr (r, Done))"

text \<open>What a map promises: the same operations on a partial map.\<close>

fun spec :: "('k \<Rightarrow> 'k \<Rightarrow> bool) \<Rightarrow> ('k, 'v) map_op \<Rightarrow> ('k \<Rightarrow> 'v option) \<Rightarrow> ('k \<Rightarrow> 'v option) \<times> 'v reply" where
  "spec equal (OpInsert k v) m =
     (case m k of None \<Rightarrow> (upd equal k (Some v) m, Entry v True) | Some w \<Rightarrow> (m, Entry w False))"
| "spec equal (OpAssign k v) m = (upd equal k (Some v) m, Done)"
| "spec equal (OpFind k) m = (m, Value (m k))"
| "spec equal (OpCount k) m = (m, Found (m k \<noteq> None))"
| "spec equal (OpAt k) m = (m, Value (m k))"
| "spec equal (OpErase k) m = (upd equal k None m, Found (m k \<noteq> None))"
| "spec equal (OpReserve N) m = (m, Done)"
| "spec equal OpCopy m = (m, Done)"
| "spec equal OpClear m = ((\<lambda>_. None), Done)"
| "spec equal OpClearNoResize m = ((\<lambda>_. None), Done)"

text \<open>
  What a client has to see to: the table does not outgrow 1.7 thousand million entries, \<open>at\<close> is for keys that
  are there, and no table is cleared while it has deleted slots (unless \<open>clear\<close> makes a new one, as it does
  when there is more than one bucket).
\<close>

fun admissible :: "('k, 'v) map_op \<Rightarrow> ('k, 'v) rep \<Rightarrow> bool" where
  "admissible (OpInsert k v) r \<longleftrightarrow> fits (unat (rep_size r) + 1)"
| "admissible (OpAssign k v) r \<longleftrightarrow> fits (unat (rep_size r) + 1)"
| "admissible (OpAt k) r \<longleftrightarrow> map_of_rep r k \<noteq> None"
| "admissible (OpReserve N) r \<longleftrightarrow> fits (max (unat N) (unat (rep_size r)))"
| "admissible OpCopy r \<longleftrightarrow> fits (unat (rep_size r))"
| "admissible OpClear r \<longleftrightarrow> deleted r = 0 \<or> 1 < length (table r)"
| "admissible OpClearNoResize r \<longleftrightarrow> deleted r = 0"
| "admissible _ r \<longleftrightarrow> True"

inductive flat_reachable :: "'v \<Rightarrow> ('k \<Rightarrow> size_t) \<Rightarrow> ('k \<Rightarrow> 'k \<Rightarrow> bool) \<Rightarrow> ('k, 'v) rep \<Rightarrow> bool"
  for dflt hash equal where
  New: "fits (unat N) \<Longrightarrow> FlatMap_new N hash equal = Inr r \<Longrightarrow> flat_reachable dflt hash equal r"
| Op: "flat_reachable dflt hash equal r \<Longrightarrow> admissible op r \<Longrightarrow> exec dflt op r = Inr (r', reply) \<Longrightarrow>
    flat_reachable dflt hash equal r'"

context hashing
begin

lemma exec_refines:
  assumes g: "good r" and a: "admissible op r"
  shows "\<exists>r' reply. exec dflt op r = Inr (r', reply) \<and> good r' \<and> spec equal op (map_of_rep r) = (map_of_rep r', reply)"
proof (cases op)
  case (OpInsert k v)
  have N: "fits (keycount (keys (table r)) + 1)" using a OpInsert by (simp add: unat_rep_size [OF g])
  show ?thesis using map_Insert_spec [OF g N, of k v] OpInsert equal_refl [of k]
    by (cases "map_of_rep r k") (auto simp: upd_def)
next
  case (OpAssign k v)
  have N: "fits (keycount (keys (table r)) + 1)" using a OpAssign by (simp add: unat_rep_size [OF g])
  show ?thesis using assign_index_spec [OF g N, of dflt k v] OpAssign by auto
next
  case (OpFind k)
  show ?thesis
  proof (cases "map_of_rep r k")
    case None
    then show ?thesis using g OpFind map_find_spec(1) [OF g None] by (simp add: map_end_eq iter_eq_def)
  next
    case (Some v)
    then show ?thesis using g OpFind map_find_spec(2) [OF g Some] by (auto simp: map_end_eq iter_eq_def)
  qed
next
  case (OpCount k)
  then show ?thesis using g map_find_spec(3) [OF g, of k] by (auto split: if_splits)
next
  case (OpAt k)
  then obtain v where "map_of_rep r k = Some v" using a by auto
  then show ?thesis using g OpAt map_find_spec(4) [OF g] by simp
next
  case (OpErase k)
  then show ?thesis using map_erase_spec [OF g, of k] by (auto split: if_splits)
next
  case (OpReserve N)
  then show ?thesis using map_reserve_spec [OF g, of N] a by auto
next
  case OpCopy
  then show ?thesis using FlatRep_copy_spec [OF g] a same_entries_same_map [OF g] by (auto simp: unat_rep_size [OF g])
next
  case OpClear
  then have "tombs (markers (table r)) = 0 \<or> 1 < length (table r)" using a by (simp add: deleted_tombs [OF g])
  from clear_spec [OF g this] show ?thesis using OpClear by (auto simp: empty_entries)
next
  case OpClearNoResize
  then have "tombs (markers (table r)) = 0" using a by (simp add: deleted_tombs [OF g])
  from clear_no_resize_spec [OF g this] show ?thesis using OpClearNoResize by (auto simp: empty_entries)
qed

lemma new_good:
  assumes "fits (unat N)" "FlatRep N hash equal = Inr (r :: ('k, 'v) rep)"
  shows "good r"
proof -
  obtain r0 :: "('k, 'v) rep" where "FlatRep N hash equal = Inr r0" "good r0"
    using good_empty [OF assms(1)] by blast
  with assms(2) show ?thesis by simp
qed

lemma reachable_good: "flat_reachable dflt hash equal r \<Longrightarrow> good r"
proof (induction rule: flat_reachable.induct)
  case (New N r)
  then show ?case using new_good by (auto simp: FlatMap_new_def)
next
  case (Op r op r' reply)
  from exec_refines [OF Op.IH Op.hyps(2), of dflt] Op.hyps(3) show ?case by auto
qed

end

text \<open>
  C17: \<open>FlatMap\<close> implements a partial map.  A new map is empty.  In every state that the operations can lead to, every
  admissible operation returns (no probe loop runs for ever, no check fails, no slot outside the array or
  without an object is read, through every insertion, deletion, growing and shrinking of the table), and its reply and the new map are those that the same
  operation on the partial map has.  The hypothesis is the contract of the hash function and the comparison.
\<close>

theorem flat_map_refines_map:
  assumes "hashing hash equal"
  shows "(fits (unat N) \<longrightarrow> (\<exists>r :: ('k, 'v) rep. FlatMap_new N hash equal = Inr r \<and> map_of_rep r = (\<lambda>_. None))) \<and>
    (\<forall>(r :: ('k, 'v) rep) op. flat_reachable dflt hash equal r \<longrightarrow> admissible op r \<longrightarrow>
       (\<exists>r' reply. exec dflt op r = Inr (r', reply) \<and> flat_reachable dflt hash equal r' \<and>
          spec equal op (map_of_rep r) = (map_of_rep r', reply)))"
proof (intro conjI allI impI)
  assume "fits (unat N)"
  then show "\<exists>r :: ('k, 'v) rep. FlatMap_new N hash equal = Inr r \<and> map_of_rep r = (\<lambda>_. None)"
    using hashing.good_empty [OF assms] unfolding FlatMap_new_def by blast
next
  fix r :: "('k, 'v) rep" and op
  assume r: "flat_reachable dflt hash equal r" and a: "admissible op r"
  from hashing.exec_refines [OF assms hashing.reachable_good [OF assms r] a]
  obtain r' reply where "exec dflt op r = Inr (r', reply)" "spec equal op (map_of_rep r) = (map_of_rep r', reply)"
    by blast
  with flat_reachable.Op [OF r a this(1)]
  show "\<exists>r' reply. exec dflt op r = Inr (r', reply) \<and> flat_reachable dflt hash equal r' \<and>
      spec equal op (map_of_rep r) = (map_of_rep r', reply)" by blast
qed

lemma flat_map_refines_map_witness:
  "\<exists>(r :: (64 word, int) rep) r' w. FlatMap_new 1 hash_pointer (=) = Inr r \<and>
     exec 0 (OpInsert 0x100 7) r = Inr (r', Entry w True) \<and> map_of_rep r' 0x100 = Some w \<and> w = 7"
proof -
  note R = flat_map_refines_map [OF pointers.hashing_axioms, of 1 0]
  obtain r :: "(64 word, int) rep" where r: "FlatMap_new 1 hash_pointer (=) = Inr r" "map_of_rep r = (\<lambda>_. None)"
    using conjunct1 [OF R] by auto
  have "bnd (FlatMap_new 1 hash_pointer (=)) (\<lambda>r :: (64 word, int) rep. Inr (rep_size r)) = Inr 0" by code_simp
  then have "admissible (OpInsert 0x100 7) r" using r(1) by simp
  moreover have "flat_reachable 0 hash_pointer (=) r" by (rule flat_reachable.New [OF _ r(1)]) simp
  ultimately obtain r' reply where "exec 0 (OpInsert 0x100 7) r = Inr (r', reply)"
    "spec (=) (OpInsert 0x100 7) (map_of_rep r) = (map_of_rep r', reply)"
    using conjunct2 [OF R] by blast
  then have "exec 0 (OpInsert 0x100 7) r = Inr (r', Entry 7 True)" "map_of_rep r' = upd (=) 0x100 (Some 7) (\<lambda>_. None)"
    using r(2) by auto
  moreover from this(2) have "map_of_rep r' 0x100 = Some 7" by (simp add: upd_def)
  ultimately show ?thesis using r(1) by blast
qed

end
