(* ===== verification/Flat_Iter.thy ===== *)
theory Flat_Iter
  imports Flat_Map
begin

unbundle bit_operations_syntax

text \<open>
  Iterating over the maps and sets of \<open>Flat_Map\<close>: a range loop visits the entries in the order of the
  slots, each once, and comparison by \<open>operator==\<close> decides whether two maps are the same partial map.
  \<open>FlatSet\<close> inserts as \<open>FlatMap\<close> does, and what happens to a table that is cleared while it has deleted slots.
\<close>


section \<open>Where an iterator goes\<close>

definition it_at :: "nat \<Rightarrow> nat \<Rightarrow> iter" where
  "it_at n g = \<lparr>it_b = g div kWidth, it_end = n, it_i = g mod kWidth\<rparr>"

definition next_used :: "uint8 list \<Rightarrow> nat \<Rightarrow> nat" where
  "next_used ms g = (case List.find (\<lambda>i. 2 \<le> ms ! i) [g..<length ms] of None \<Rightarrow> length ms | Some i \<Rightarrow> i)"

lemma next_used_step:
  "g < length ms \<Longrightarrow> next_used ms g = (if 2 \<le> ms ! g then g else next_used ms (Suc g))"
  by (simp add: next_used_def upt_conv_Cons)

lemma next_used_end: "length ms \<le> g \<Longrightarrow> next_used ms g = length ms"
  by (simp add: next_used_def)

lemma SkipUnused_slot:
  assumes "slots_ok (table r)" "g \<le> length (table r) * kWidth"
  shows "SkipUnused r (it_at (length (table r)) g) = Inr (it_at (length (table r)) (next_used (markers (table r)) g))"
  using assms(2)
proof (induction g rule: inc_induct)
  case base
  then show ?case using assms(1)
    by (simp add: SkipUnused_def forever_unfold next_used_end it_at_def)
next
  case (step g)
  let ?n = "length (table r)" and ?ms = "markers (table r)"
  have g: "g < ?n * kWidth" "g < length ?ms" using step.hyps assms(1) by simp_all
  note at = slot_in [OF g(1)] at_slot [OF assms(1) g(1)]
  let ?body = "\<lambda>it. if it_b it < it_end it then
       if kWidth \<le> it_i it then Inr (Inl (it\<lparr>it_i := 0, it_b := it_b it + 1\<rparr>))
       else bnd (get (table r) (it_b it)) (\<lambda>bu. bnd (get (b_marker bu) (it_i it)) (\<lambda>m.
         if m < 2 then Inr (Inl (it\<lparr>it_i := it_i it + 1\<rparr>))
         else bnd (FillValue r it) (\<lambda>_. Inr (Inr it))))
     else Inr (Inr it)"
  show ?case
  proof (cases "2 \<le> ?ms ! g")
    case True
    then have "?body (it_at ?n g) = Inr (Inr (it_at ?n g))"
      using at by (simp add: it_at_def FillValue_def not_le [symmetric])
    then show ?thesis using True g(2)
      unfolding SkipUnused_def by (subst forever_unfold) (simp add: next_used_step)
  next
    case False
    then have b: "?body (it_at ?n g) = Inr (Inl ((it_at ?n g)\<lparr>it_i := g mod kWidth + 1\<rparr>))"
      using at by (simp add: it_at_def not_le)
    have "forever ?body (it_at ?n g) = forever ?body ((it_at ?n g)\<lparr>it_i := g mod kWidth + 1\<rparr>)"
      by (subst forever_unfold) (simp add: b)
    also have "\<dots> = forever ?body (it_at ?n (Suc g))"
    proof (cases "g mod kWidth + 1 = kWidth")
      case True
      then have "Suc g mod kWidth = 0" "Suc g div kWidth = Suc (g div kWidth)"
        by (simp_all add: mod_Suc div_Suc)
      then have "?body ((it_at ?n g)\<lparr>it_i := g mod kWidth + 1\<rparr>) = Inr (Inl (it_at ?n (Suc g)))"
        using at(1) True by (simp add: it_at_def)
      then show ?thesis by (subst forever_unfold) simp
    next
      case False
      then have "Suc g mod kWidth = g mod kWidth + 1" "Suc g div kWidth = g div kWidth"
        by (simp_all add: mod_Suc div_Suc)
      then show ?thesis by (simp add: it_at_def)
    qed
    also have "\<dots> = Inr (it_at ?n (next_used ?ms (Suc g)))"
      using step.IH by (simp add: SkipUnused_def)
    finally show ?thesis using False g(2) by (simp add: SkipUnused_def next_used_step)
  qed
qed

lemma iter_next_slot:
  assumes "slots_ok (table r)" "g < length (table r) * kWidth"
  shows "iter_incr r (it_at (length (table r)) g) = Inr (it_at (length (table r)) (next_used (markers (table r)) (Suc g)))"
proof -
  let ?n = "length (table r)" and ?it = "it_at (length (table r)) g"
  have b: "g div kWidth < ?n" using slot_in [OF assms(2)] by simp
  have "SkipUnused r (?it\<lparr>it_i := g mod kWidth + 1\<rparr>) = SkipUnused r (it_at ?n (Suc g))"
  proof (cases "g mod kWidth + 1 = kWidth")
    case True
    then have "Suc g mod kWidth = 0" "Suc g div kWidth = Suc (g div kWidth)"
      by (simp_all add: mod_Suc div_Suc)
    then show ?thesis unfolding SkipUnused_def using True b by (subst forever_unfold) (simp add: it_at_def)
  next
    case False
    then have "Suc g mod kWidth = g mod kWidth + 1" "Suc g div kWidth = g div kWidth"
      by (simp_all add: mod_Suc div_Suc)
    then show ?thesis by (simp add: it_at_def)
  qed
  moreover have "Suc g \<le> ?n * kWidth" using assms(2) by simp
  ultimately show ?thesis using b SkipUnused_slot [OF assms(1)]
    by (simp add: iter_incr_def) (simp add: it_at_def)
qed

lemma map_begin_slot:
  "slots_ok (table r) \<Longrightarrow> map_begin r = Inr (it_at (length (table r)) (next_used (markers (table r)) 0))"
  using SkipUnused_slot [of r 0] by (simp add: map_begin_def iterator_from_def it_at_def)

lemma map_end_slot: "map_end r = Inr (it_at (length (table r)) (length (table r) * kWidth))"
  by (simp add: map_end_eq it_at_def)

lemma iter_eq_slot: "iter_eq (it_at n g) (it_at n g') \<longleftrightarrow> g = g'"
  unfolding iter_eq_def it_at_def by (simp, metis div_mult_mod_eq)

section \<open>Range loops\<close>

text \<open>The entries from slot \<open>g\<close> on, in the order of the slots, and a loop over a list that may leave.\<close>

definition entries_from :: "nat \<Rightarrow> ('k, 'v) bucket list \<Rightarrow> ('k \<times> 'v) list" where
  "entries_from g T = concat (map (\<lambda>i. case (keys T ! i, vals T ! i) of (Some k, Some v) \<Rightarrow> [(k, v)] | _ \<Rightarrow> []) [g..<length (keys T)])"

primrec fold_out :: "('p \<Rightarrow> 's \<Rightarrow> ('s + 'a) out) \<Rightarrow> 'p list \<Rightarrow> 's \<Rightarrow> ('s + 'a) out" where
  "fold_out body [] s = Inr (Inl s)"
| "fold_out body (p # ps) s = bnd (body p s) (\<lambda>t. case t of Inr a \<Rightarrow> Inr (Inr a) | Inl s \<Rightarrow> fold_out body ps s)"

lemma entries_from_step:
  "g < length (keys T) \<Longrightarrow> entries_from g T =
   (case (keys T ! g, vals T ! g) of (Some k, Some v) \<Rightarrow> [(k, v)] | _ \<Rightarrow> []) @ entries_from (Suc g) T"
  by (simp add: entries_from_def upt_conv_Cons)

lemma concat_cells:
  assumes "\<forall>i \<in> set is. ks ! i \<noteq> None \<longrightarrow> vs ! i \<noteq> None"
  shows "concat (map (\<lambda>i. case (ks ! i, vs ! i) of (Some k, Some v) \<Rightarrow> [(k, v)] | _ \<Rightarrow> []) is) =
    map (\<lambda>i. (the (ks ! i), the (vs ! i))) (filter (\<lambda>i. ks ! i \<noteq> None) is)"
  using assms by (induction "is") auto

lemma set_entries_from: "set (entries_from 0 T) = entries T"
  by (auto simp: entries_from_def entries_def entries_below_def split: option.splits)

context hashing
begin

lemma range_for_entries:
  assumes "good r"
  shows "range_for r body s = fold_out body (entries_from 0 (table r)) s"
proof -
  have ok: "rep_ok hash equal r" "vals_ok r" using assms by (simp_all add: good_def)
  note D = rep_okD [OF ok(1)]
  let ?n = "length (table r)" and ?ms = "markers (table r)"
  let ?loop = "\<lambda>(it, s). if iter_eq it (it_at ?n (?n * kWidth)) then Inr (Inr (Inl s))
       else bnd (deref r it) (\<lambda>p. bnd (body p s) (\<lambda>t.
         case t of Inr a \<Rightarrow> Inr (Inr (Inr a))
         | Inl s \<Rightarrow> bnd (iter_incr r it) (\<lambda>it. Inr (Inl (it, s)))))"
  have "forever ?loop (it_at ?n (next_used ?ms g), s) = fold_out body (entries_from g (table r)) s"
    if "g \<le> ?n * kWidth" for g s
    using that
  proof (induction g arbitrary: s rule: inc_induct)
    case base
    show ?case using D(3) by (subst forever_unfold) (simp add: next_used_end iter_eq_slot entries_from_def)
  next
    case (step g)
    have g: "g < ?n * kWidth" "g < length ?ms" "g < length (keys (table r))" using step.hyps D(3) by simp_all
    show ?case
    proof (cases "keys (table r) ! g")
      case None
      then have "\<not> 2 \<le> ?ms ! g" using key_tableD(2) [OF D(4) g(2)] by simp
      then show ?thesis using None step.IH g by (simp add: next_used_step entries_from_step)
    next
      case (Some k)
      obtain v where v: "vals (table r) ! g = Some v" using ok(2) Some g(3) by (auto simp: vals_ok_def)
      have m: "2 \<le> ?ms ! g" using key_tableD(2) [OF D(4) g(2)] Some by simp
      have d: "deref r (it_at ?n g) = Inr (k, v)"
        unfolding it_at_def by (rule deref_slot [OF D(3) g(1) m Some v])
      have "?loop (it_at ?n g, s) = bnd (body (k, v) s) (\<lambda>t.
         case t of Inr a \<Rightarrow> Inr (Inr (Inr a)) | Inl s \<Rightarrow> Inr (Inl (it_at ?n (next_used ?ms (Suc g)), s)))"
        using g(1) d iter_next_slot [OF D(3) g(1)] by (simp add: iter_eq_slot cong: sum.case_cong)
      then show ?thesis using m g Some v step.IH
        by (subst forever_unfold) (auto simp: next_used_step entries_from_step bnd_def split: sum.split)
    qed
  qed
  from this [of 0 s] show ?thesis
    by (simp add: range_for_def map_begin_slot [OF D(3)] map_end_slot)
qed

lemma entries_distinct:
  assumes "good r"
  shows "distinct (entries_from 0 (table r))" "length (entries_from 0 (table r)) = keycount (keys (table r))"
    "(k, v) \<in> entries (table r) \<Longrightarrow> (k', v') \<in> entries (table r) \<Longrightarrow> equal k k' \<Longrightarrow> (k, v) = (k', v')"
proof -
  have ok: "rep_ok hash equal r" "vals_ok r" using assms by (simp_all add: good_def)
  note D = rep_okD [OF ok(1)]
  show u: "(k, v) \<in> entries (table r) \<Longrightarrow> (k', v') \<in> entries (table r) \<Longrightarrow> equal k k' \<Longrightarrow> (k, v) = (k', v')" for k v k' v'
    using key_tableD(5) [OF D(4)] D(3) by (fastforce simp: entries_def entries_below_def)
  let ?ks = "keys (table r)" and ?f = "\<lambda>i. (the (keys (table r) ! i), the (vals (table r) ! i))"
  have v: "\<forall>i \<in> set [0..<length ?ks]. ?ks ! i \<noteq> None \<longrightarrow> vals (table r) ! i \<noteq> None"
    using ok(2) by (simp add: vals_ok_def)
  have e: "entries_from 0 (table r) = map ?f (filter (\<lambda>i. ?ks ! i \<noteq> None) [0..<length ?ks])"
    unfolding entries_from_def by (rule concat_cells [OF v])
  have "inj_on ?f (set (filter (\<lambda>i. ?ks ! i \<noteq> None) [0..<length ?ks]))"
  proof (rule inj_onI)
    fix i j
    assume "i \<in> set (filter (\<lambda>i. ?ks ! i \<noteq> None) [0..<length ?ks])"
      "j \<in> set (filter (\<lambda>i. ?ks ! i \<noteq> None) [0..<length ?ks])" "?f i = ?f j"
    then obtain k where "i < length ?ks" "?ks ! i = Some k" "j < length ?ks" "?ks ! j = Some k" by auto
    then show "i = j" using key_tableD(5) [OF D(4), of i j k k] D(3) equal_refl by simp
  qed
  then show "distinct (entries_from 0 (table r))" unfolding e by (simp add: distinct_map)
  have "filter (\<lambda>k. k \<noteq> None) ?ks = filter (\<lambda>k. k \<noteq> None) (map ((!) ?ks) [0..<length ?ks])" by (simp only: map_nth)
  also have "\<dots> = map ((!) ?ks) (filter (\<lambda>i. ?ks ! i \<noteq> None) [0..<length ?ks])" by (simp add: filter_map comp_def)
  finally show "length (entries_from 0 (table r)) = keycount ?ks" unfolding e keycount_def by simp
qed

section \<open>Comparing maps\<close>

lemma entries_found:
  assumes g: "good r" "good x" and all: "\<forall>(k, v) \<in> entries (table x). map_of_rep r k = Some v"
    and kc: "keycount (keys (table r)) = keycount (keys (table x))"
  shows "map_of_rep r = map_of_rep x"
proof -
  have fin: "finite (entries (table r))" "card (entries (table r)) = card (entries (table x))"
    using kc entries_distinct(1,2) [OF g(1)] entries_distinct(1,2) [OF g(2)]
    by (simp_all add: distinct_card [symmetric] flip: set_entries_from)
  have "\<forall>p \<in> entries (table x). \<exists>q. q \<in> entries (table r) \<and> equal (fst q) (fst p) \<and> snd q = snd p"
    using all map_of_rep_entries [OF g(1)] by fastforce
  then obtain f where f: "\<And>p. p \<in> entries (table x) \<Longrightarrow> f p \<in> entries (table r) \<and> equal (fst (f p)) (fst p) \<and> snd (f p) = snd p"
    by (metis (no_types, lifting))
  have "inj_on f (entries (table x))"
  proof (rule inj_onI)
    fix p q assume pq: "p \<in> entries (table x)" "q \<in> entries (table x)" "f p = f q"
    then have "equal (fst p) (fst q)" using f [of p] f [of q] equal_sym equal_trans by metis
    then show "p = q" using entries_distinct(3) [OF g(2), of "fst p" "snd p" "fst q" "snd q"] pq by simp
  qed
  then have "card (f ` entries (table x)) = card (entries (table r))" using fin(2) by (simp add: card_image)
  then have im: "f ` entries (table x) = entries (table r)"
    using f fin(1) by (intro card_subset_eq) auto
  have "map_of_rep r k = Some v \<longleftrightarrow> map_of_rep x k = Some v" for k v
  proof
    assume "map_of_rep r k = Some v"
    then obtain k' where k': "(k', v) \<in> entries (table r)" "equal k' k" using map_of_rep_entries [OF g(1)] by blast
    then obtain q where q: "q \<in> entries (table x)" "f q = (k', v)" using im by (metis imageE)
    then have "snd q = v" "equal k' (fst q)" using f [of q] by auto
    then have "(fst q, v) \<in> entries (table x) \<and> equal (fst q) k" using q(1) k'(2) equal_sym equal_trans
      by (metis prod.collapse)
    then show "map_of_rep x k = Some v" using map_of_rep_entries [OF g(2)] by blast
  next
    assume "map_of_rep x k = Some v"
    then obtain k' where k': "(k', v) \<in> entries (table x)" "equal k' k" using map_of_rep_entries [OF g(2)] by blast
    then have "f (k', v) \<in> entries (table r)" "equal (fst (f (k', v))) k" "snd (f (k', v)) = v"
      using f [of "(k', v)"] equal_trans by auto
    then show "map_of_rep r k = Some v" using map_of_rep_entries [OF g(1)] by (metis prod.collapse)
  qed
  then show ?thesis by (metis ext not_Some_eq)
qed

lemma same_map_keycount:
  assumes g: "good r" "good x" and m: "map_of_rep r = map_of_rep x"
  shows "keycount (keys (table r)) \<le> keycount (keys (table x))"
proof -
  have fin: "finite (entries (table x))" "card (entries (table r)) = keycount (keys (table r))"
    "card (entries (table x)) = keycount (keys (table x))"
    using entries_distinct(1,2) [OF g(1)] entries_distinct(1,2) [OF g(2)]
    by (simp_all add: distinct_card [symmetric] flip: set_entries_from)
  have "\<exists>q. q \<in> entries (table x) \<and> equal (fst q) (fst p)" if "p \<in> entries (table r)" for p
  proof -
    obtain k v where p: "p = (k, v)" by (cases p)
    then have "map_of_rep r k = Some v" using that map_of_rep_entries [OF g(1), of k v] equal_refl by blast
    then show ?thesis using map_of_rep_entries [OF g(2), of k v] p m by auto
  qed
  then obtain f where f: "\<And>p. p \<in> entries (table r) \<Longrightarrow> f p \<in> entries (table x) \<and> equal (fst (f p)) (fst p)"
    by (metis (no_types, lifting))
  have "inj_on f (entries (table r))"
  proof (rule inj_onI)
    fix p q assume pq: "p \<in> entries (table r)" "q \<in> entries (table r)" "f p = f q"
    then have "equal (fst p) (fst q)" using f [of p] f [of q] equal_sym equal_trans by metis
    then show "p = q" using entries_distinct(3) [OF g(1), of "fst p" "snd p" "fst q" "snd q"] pq by simp
  qed
  then have "card (entries (table r)) \<le> card (entries (table x))"
    using f fin(1) by (intro card_inj_on_le [of f]) auto
  with fin show ?thesis by simp
qed

lemma map_equal_spec:
  assumes g: "good r" "good x"
  shows "map_equal (=) r x = Inr (map_of_rep r = map_of_rep x)"
proof (cases "keycount (keys (table r)) = keycount (keys (table x))")
  case False
  then have "rep_size r \<noteq> rep_size x" using unat_rep_size [OF g(1)] unat_rep_size [OF g(2)] by metis
  moreover have "map_of_rep r \<noteq> map_of_rep x"
    using False same_map_keycount [OF g] same_map_keycount [OF g(2,1)] by (metis le_antisym)
  ultimately show ?thesis by (simp add: map_equal_def)
next
  case True
  then have sz: "rep_size r = rep_size x"
    using g by (simp add: good_def rep_size_keycount)
  let ?body = "\<lambda>(k, v) s. bnd (map_find k r) (\<lambda>i. bnd (map_end r) (\<lambda>e.
             if iter_eq i e then Inr (Inr False)
             else bnd (deref r i) (\<lambda>(_, w). if \<not> w = v then Inr (Inr False) else Inr (Inl s))))"
  have body: "?body (k, v) () = Inr (if map_of_rep r k = Some v then Inl () else Inr False)" for k v
  proof (cases "map_of_rep r k")
    case None
    then show ?thesis using map_find_spec(1) [OF g(1) None] by (simp add: map_end_eq iter_eq_def)
  next
    case (Some w)
    then show ?thesis using map_find_spec(2) [OF g(1) Some] by (auto simp: map_end_eq iter_eq_def)
  qed
  have "fold_out ?body ps () = Inr (if \<forall>(k, v) \<in> set ps. map_of_rep r k = Some v then Inl () else Inr False)" for ps
  proof (induction ps)
    case (Cons p ps)
    obtain k v where p: "p = (k, v)" by (cases p)
    show ?case unfolding fold_out.simps p body by (simp add: Cons)
  qed simp
  then have "map_equal (=) r x = Inr (\<forall>(k, v) \<in> entries (table x). map_of_rep r k = Some v)"
    using sz unfolding map_equal_def range_for_entries [OF g(2)] by (simp add: set_entries_from)
  moreover have "(\<forall>(k, v) \<in> entries (table x). map_of_rep r k = Some v) \<longleftrightarrow> map_of_rep r = map_of_rep x"
    using entries_found [OF g _ True] map_of_rep_entries [OF g(2)] equal_refl by fastforce
  ultimately show ?thesis by simp
qed

text \<open>\<open>FlatSet\<close> inserts like \<open>FlatMap\<close>, with a value that is there at once.\<close>

lemma set_Insert_spec:
  fixes r :: "('k, unit) rep"
  assumes g: "good r" and N: "fits (keycount (keys (table r)) + 1)"
  shows "\<exists>r' it. set_Insert k r = Inr (r', it, map_of_rep r k = None) \<and> good r' \<and>
    map_of_rep r' = upd equal k (Some ()) (map_of_rep r)"
proof -
  obtain r1 where r1: "MaybeResize r = Inr r1" "good r1" "map_of_rep r1 = map_of_rep r" "not_empty r1 < grow r1"
    by (rule room_to_insert [OF g N])
  have ok: "rep_ok hash equal r1" using r1(2) by (simp add: good_def)
  show ?thesis
  proof (cases rule: find_cases [OF r1(2), of k])
    case (1 g k0 w)
    have "map_of_rep r k' = Some ()" if "equal k k'" for k'
    proof -
      have "holds equal (keys (table r1)) k' g"
        using 1(1,2,4) equal_trans [OF 1(4) that] rep_okD(3) [OF ok] by (auto simp: holds_def)
      from map_of_rep_hits [OF ok this] r1(3) 1(3) show ?thesis by simp
    qed
    then have "map_of_rep r = upd equal k (Some ()) (map_of_rep r)" by (auto simp: upd_def)
    then show ?thesis using 1 r1 by (auto simp: set_Insert_def at_bucket_def)
  next
    case 2
    obtain g where i: "g < length (markers (table r1))"
      "FindOrInsert (Some ()) r1 k = Inr (with_key g k (Some ()) r1, \<lparr>found = False, sr_b = Some (g div kWidth), sr_index = g mod kWidth\<rparr>)"
      "good (with_key g k (Some ()) r1)"
      "map_of_rep (with_key g k (Some ()) r1) = (\<lambda>k'. if equal k k' then Some () else map_of_rep r1 k')"
      using insert_missing [OF r1(2,4) 2(1), of "Some ()"] by blast
    show ?thesis using i(2,3) i(4) [unfolded r1(3)] r1 2(2)
      by (auto simp: set_Insert_def at_bucket_def upd_def)
  qed
qed

end

section \<open>The properties\<close>

text \<open>
  C18: iterating over a \<open>FlatMap\<close> and comparing two.  In every state that the operations lead to, a range loop
  ends and visits each entry of the map once: the list of the pairs it sees has the length \<open>size()\<close>, no
  two of its keys are equal, and the map has exactly its pairs.  \<open>operator==\<close> returns, and tells whether the two maps
  are the same, whatever the order of their slots and the sizes of their tables.
\<close>

theorem flat_map_iteration:
  fixes r x :: "('k, 'v) rep"
  assumes "hashing hash equal" "flat_reachable dflt hash equal r" "flat_reachable dflt hash equal x"
  shows "(\<exists>ps. range_for r (\<lambda>p ps. Inr (Inl (ps @ [p]))) [] = (Inr (Inl ps) :: (('k \<times> 'v) list + unit) out) \<and>
      length ps = unat (rep_size r) \<and>
      (\<forall>i < length ps. \<forall>j < length ps. equal (fst (ps ! i)) (fst (ps ! j)) \<longrightarrow> i = j) \<and>
      (\<forall>k v. map_of_rep r k = Some v \<longleftrightarrow> (\<exists>k'. (k', v) \<in> set ps \<and> equal k' k))) \<and>
    map_equal (=) r x = Inr (map_of_rep r = map_of_rep x)"
proof
  note H = assms(1)
  have g: "hashing.good hash equal r" "hashing.good hash equal x"
    by (rule hashing.reachable_good [OF H assms(2)], rule hashing.reachable_good [OF H assms(3)])
  let ?ps = "entries_from 0 (table r)"
  have "fold_out (\<lambda>p ps. Inr (Inl (ps @ [p]))) qs acc = (Inr (Inl (acc @ qs)) :: (('k \<times> 'v) list + unit) out)" for qs acc
    by (induction qs arbitrary: acc) simp_all
  then have "range_for r (\<lambda>p ps. Inr (Inl (ps @ [p]))) [] = (Inr (Inl ?ps) :: (('k \<times> 'v) list + unit) out)"
    unfolding hashing.range_for_entries [OF H g(1)] by simp
  moreover note D = hashing.entries_distinct [OF H g(1)]
  moreover have "i = j" if "i < length ?ps" "j < length ?ps" "equal (fst (?ps ! i)) (fst (?ps ! j))" for i j
  proof -
    have "?ps ! i \<in> entries (table r)" "?ps ! j \<in> entries (table r)"
      using that(1,2) by (simp_all flip: set_entries_from)
    then have "?ps ! i = ?ps ! j"
      using D(3) [of "fst (?ps ! i)" "snd (?ps ! i)" "fst (?ps ! j)" "snd (?ps ! j)"] that(3) by simp
    then show ?thesis using D(1) that(1,2) by (simp add: nth_eq_iff_index_eq)
  qed
  moreover have "map_of_rep r k = Some v \<longleftrightarrow> (\<exists>k'. (k', v) \<in> set ?ps \<and> equal k' k)" for k v
    unfolding set_entries_from by (rule hashing.map_of_rep_entries [OF H g(1)])
  moreover have "length ?ps = unat (rep_size r)" using D(2) hashing.unat_rep_size [OF H g(1)] by simp
  ultimately show "\<exists>ps. range_for r (\<lambda>p ps. Inr (Inl (ps @ [p]))) [] = (Inr (Inl ps) :: (('k \<times> 'v) list + unit) out) \<and>
      length ps = unat (rep_size r) \<and>
      (\<forall>i < length ps. \<forall>j < length ps. equal (fst (ps ! i)) (fst (ps ! j)) \<longrightarrow> i = j) \<and>
      (\<forall>k v. map_of_rep r k = Some v \<longleftrightarrow> (\<exists>k'. (k', v) \<in> set ps \<and> equal k' k))"
    by blast
  show "map_equal (=) r x = Inr (map_of_rep r = map_of_rep x)" by (rule hashing.map_equal_spec [OF H g])
qed

lemma flat_map_iteration_witness:
  "\<exists>(r :: (64 word, int) rep) (x :: (64 word, int) rep).
     FlatMap_new 1 hash_pointer (=) = Inr r \<and> FlatMap_new 100 hash_pointer (=) = Inr x \<and>
     rep_size r = 0 \<and> table r \<noteq> table x \<and> map_equal (=) r x = Inr True"
proof -
  have "bnd (FlatMap_new 1 hash_pointer (=)) (\<lambda>r :: (64 word, int) rep. Inr (length (table r), rep_size r)) = Inr (1, 0)"
    "bnd (FlatMap_new 100 hash_pointer (=)) (\<lambda>x :: (64 word, int) rep. Inr (length (table x), rep_size x)) = Inr (16, 0)"
    by code_simp+
  then obtain r x :: "(64 word, int) rep" where
    rx: "FlatMap_new 1 hash_pointer (=) = Inr r" "FlatMap_new 100 hash_pointer (=) = Inr x"
      "length (table r) = 1" "length (table x) = 16" "rep_size r = 0" "rep_size x = 0"
    unfolding bnd_Inr_iff by auto
  have reach: "flat_reachable 0 hash_pointer (=) r" "flat_reachable 0 hash_pointer (=) x"
    by (rule flat_reachable.New [OF _ rx(1)] flat_reachable.New [OF _ rx(2)]; simp)+
  have "map_of_rep r k \<noteq> Some v" "map_of_rep x k \<noteq> Some v" for k v
    using flat_map_iteration [OF pointers.hashing_axioms reach] flat_map_iteration [OF pointers.hashing_axioms reach(2,1)] rx(5,6)
    by auto
  then have "map_of_rep r = map_of_rep x" by (metis ext not_Some_eq)
  then have "map_equal (=) r x = Inr True"
    using flat_map_iteration [OF pointers.hashing_axioms reach] by simp
  with rx show ?thesis by force
qed

section \<open>Clearing a table with deleted slots\<close>

text \<open>In a table without an empty slot a search for a key that is not there never ends.\<close>

lemma full_table_diverges:
  assumes sh: "slots_ok (table r)" and m: "m \<le> 31" "length (markers (table r)) = 2 ^ m" "index_mask r = of_nat (2 ^ m - 1)"
    and full: "\<And>g. g < 2 ^ m \<Longrightarrow> markers (table r) ! g \<noteq> 0"
    and other: "\<And>g. g < 2 ^ m \<Longrightarrow> 2 \<le> markers (table r) ! g \<Longrightarrow>
      \<exists>k'. keys (table r) ! g = Some k' \<and> \<not> equal_fn r k' k"
  shows "Find r k = Inl NoReturn"
proof -
  let ?P = "\<lambda>(index :: size_t, num_probes :: uint32). unat index < 2 ^ m"
  have lt: "(2 :: nat) ^ m < 2 ^ 64" using m(1) by (intro power_strict_increasing) simp_all
  have step: "unat (rep_NextIndex r i p) < 2 ^ m" "unat (start_index r h) < 2 ^ m" for i p h
    unfolding rep_NextIndex_def start_index_def m(3) unat_and_mask by simp_all
  show ?thesis
    unfolding Find_def Let_def
  proof (rule forever_stays [where P = ?P], goal_cases)
    case 1
    show ?case using step(2) by simp
  next
    case (2 s)
    obtain index np where s: "s = (index, np)" by (cases s)
    define g where "g = unat index"
    have g: "g < 2 ^ m" "index = of_nat g" using 2 by (simp_all add: s g_def)
    have gl: "g < length (table r) * kWidth" using g(1) m(2) shaped_length(1) [OF sh] by simp
    have sl: "slot_of index = (g div kWidth, g mod kWidth)" unfolding g(2) using g(1) lt by (intro slot_of_nat) simp
    have mk: "marker_at r (g div kWidth) (g mod kWidth) = Inr (ucast (markers (table r) ! g))"
      by (rule marker_at_slot [OF sh gl])
    have "hit r k (hash_marker (hash_fn r k)) (ucast (markers (table r) ! g)) (g div kWidth) (g mod kWidth) = Inr False"
    proof (cases "ucast (markers (table r) ! g) = hash_marker (hash_fn r k)")
      case True
      then have "markers (table r) ! g = mark (hash_fn r k)" using ucast_mark [of "hash_fn r k"] by (metis ucast_marker_eq_iff)
      then have "2 \<le> markers (table r) ! g" by simp
      with other [OF g(1)] True show ?thesis by (auto simp: hit_def key_at_slot [OF sh gl])
    qed (simp add: hit_def)
    then show ?case using full [OF g(1)] step(1)
      by (simp add: s sl mk ucast_marker_0)
  qed
qed

text \<open>
  C19: a table that is cleared while it has deleted slots.  \<open>clear\<close> keeps the markers of deleted slots but sets
  the counts to 0, and does not resize a table of one bucket.  After five insertions, five deletions,
  \<open>clear\<close> and three insertions of pointers, a \<open>FlatSet\<close> counts three entries of the six it may have
  before it grows, but none of its eight slots is empty: looking up any other pointer never returns.
\<close>

definition cleared_set :: "(64 word, unit) rep out" where
  "cleared_set =
     bnd (FlatMap_new 1 hash_pointer (=)) (\<lambda>r.
     bnd (set_insert_range [0x100, 0x200, 0x300, 0x400, 0x500] r) (\<lambda>r.
     bnd (for_each [0x100, 0x200, 0x300, 0x400, 0x500] (\<lambda>k r. bnd (map_erase k r) (\<lambda>(r, _). Inr r)) r) (\<lambda>r.
     bnd (rep_clear r) (set_insert_range [0x600, 0x700, 0x800]))))"

theorem cleared_set_never_returns:
  "\<exists>r. cleared_set = Inr r \<and> rep_size r = 3 \<and> not_empty r < grow r \<and>
    (\<forall>k. k \<in> {0x600, 0x700, 0x800} \<or> map_count k r = Inl NoReturn)"
proof -
  let ?b = "\<lparr>b_marker = [32, 1, 1, 1, 1, 1, 24, 28],
    b_key = [Some 0x800, None, None, None, None, None, Some 0x600, Some 0x700],
    b_val = [Some (), None, None, None, None, None, Some (), Some ()]\<rparr>"
  let ?r = "\<lparr>hash_fn = hash_pointer, equal_fn = (=), lglen = 0, table = [?b], index_mask = 7,
    not_empty = 3, deleted = 0, grow = 6, shrink = 0\<rparr>"
  have run: "cleared_set = Inr ?r" by code_simp
  have all: "(\<forall>g < 2 ^ 3. P g) \<longleftrightarrow> P 0 \<and> P 1 \<and> P 2 \<and> P 3 \<and> P 4 \<and> P 5 \<and> P 6 \<and> P (7 :: nat)" for P
    by (simp add: numeral_eq_Suc All_less_Suc) blast
  have "map_count k ?r = Inl NoReturn" if "k \<notin> {0x600, 0x700, 0x800}" for k
  proof -
    have "Find ?r k = Inl NoReturn"
    proof (rule full_table_diverges [where m = 3])
      show "slots_ok (table ?r)" by (simp add: bucket_ok_def kWidth_def)
      show "index_mask ?r = of_nat (2 ^ 3 - 1)" "length (markers (table ?r)) = 2 ^ 3" by (simp_all add: markers_def)
      have "\<forall>g < 2 ^ 3. markers (table ?r) ! g \<noteq> 0" unfolding all by (simp add: markers_def)
      then show "markers (table ?r) ! g \<noteq> 0" if "g < 2 ^ 3" for g using that by blast
      have "\<forall>g < 2 ^ 3. 2 \<le> markers (table ?r) ! g \<longrightarrow> (\<exists>k'. keys (table ?r) ! g = Some k' \<and> \<not> equal_fn ?r k' k)"
        unfolding all using that small_marker [of 1] by (simp add: markers_def keys_def)
      then show "\<exists>k'. keys (table ?r) ! g = Some k' \<and> \<not> equal_fn ?r k' k"
        if "g < 2 ^ 3" "2 \<le> markers (table ?r) ! g" for g using that by blast
    qed simp
    then show ?thesis by (simp add: map_count_def)
  qed
  then show ?thesis using run by (intro exI [of _ ?r]) (auto simp: rep_size_def)
qed

text \<open>
  \<open>swap\<close>, and with it move assignment, leaves the hash functions where they are: a table that was built with
  one hash function is then searched with another.
\<close>

lemma swap_keeps_hash_functions:
  "bnd (FlatMap_new 1 (\<lambda>_. 0) (=)) (\<lambda>r.
   bnd (FlatMap_new 1 hash_pointer (=)) (\<lambda>src. bnd (set_insert_range [0x100] src) (\<lambda>src.
   bnd (map_count 0x100 src) (\<lambda>before. bnd (map_count 0x100 (fst (rep_MoveFrom src r))) (\<lambda>after.
   Inr (before, after)))))) = Inr (1, 0)"
  by code_simp

end
