(* ===== verification/Cuckoo_Map.thy ===== *)
theory Cuckoo_Map
  imports Faults
begin

unbundle bit_operations_syntax

text \<open>
  \<open>core/util/presized_cuckoo_map.h\<close>: a cuckoo hash table of fixed size.  A bucket has four slots, a
  key lives in one of two buckets, and an insertion that finds both full looks breadth first for a
  chain of entries that can each move to their other bucket.

  The state of the object: the buckets, the queue of the search and the list of visited buckets,
  which keep their contents from one insertion to the next.  Array elements that were never written
  are \<open>None\<close>; so is the value of a slot that never had a key, which the code leaves uninitialised for
  plain types.  \<open>int\<close> indices, which are never negative here, are natural numbers.  The quotient of two
  doubles in \<open>Clear\<close> is its parameter; \<open>kNoSpace\<close> is \<open>None\<close>.
\<close>

section \<open>Constants and types\<close>

type_synonym key_type = "64 word"

definition kSlotsPerBucket :: nat where "kSlotsPerBucket = 4"
definition kMaxBFSPathLen :: nat where "kMaxBFSPathLen = 5"
definition kMaxQueueSize :: nat where "kMaxQueueSize = 682"
definition kVisitedListSize :: nat where "kVisitedListSize = 170"
definition kUnusedSlot :: key_type where "kUnusedSlot = NOT 0"

lemmas cuckoo_constants = kSlotsPerBucket_def kMaxBFSPathLen_def kMaxQueueSize_def kVisitedListSize_def

record 'v cuckoo_bucket =
  cb_keys :: "key_type list"
  cb_values :: "'v option list"

record path_entry =
  pe_bucket :: key_type
  pe_depth :: nat
  pe_parent :: nat
  pe_parent_slot :: nat

record path_queue =
  q_items :: "path_entry option list"
  q_head :: nat
  q_tail :: nat

record 'v cuckoo =
  ck_num_buckets :: key_type
  ck_buckets :: "'v cuckoo_bucket list"
  ck_cpq :: path_queue
  ck_visited :: "path_entry option list"

section \<open>The queue\<close>

definition CuckooPathQueue :: path_queue where
  "CuckooPathQueue = \<lparr>q_items = replicate kMaxQueueSize None, q_head = 0, q_tail = 0\<rparr>"

definition queue_push_back :: "path_entry \<Rightarrow> path_queue \<Rightarrow> path_queue out" where
  "queue_push_back e q =
     bnd (put (q_items q) (q_tail q) (Some e)) (\<lambda>items.
     Inr (q\<lparr>q_items := items, q_tail := (q_tail q + 1) mod kMaxQueueSize\<rparr>))"

definition queue_pop_front :: "path_queue \<Rightarrow> (path_entry \<times> path_queue) out" where
  "queue_pop_front q =
     bnd (get (q_items q) (q_head q)) (\<lambda>e. bnd (object e) (\<lambda>e.
     Inr (e, q\<lparr>q_head := (q_head q + 1) mod kMaxQueueSize\<rparr>)))"

definition queue_empty :: "path_queue \<Rightarrow> bool" where
  "queue_empty q \<longleftrightarrow> q_head q = q_tail q"

definition queue_full :: "path_queue \<Rightarrow> bool" where
  "queue_full q \<longleftrightarrow> (q_tail q + 1) mod kMaxQueueSize = q_head q"

definition queue_reset :: "path_queue \<Rightarrow> path_queue" where
  "queue_reset q = q\<lparr>q_head := 0, q_tail := 0\<rparr>"

section \<open>Hashing to buckets\<close>

text \<open>The high half of a product, with and without 128-bit integers.\<close>

definition multiply_high_u64 :: "64 word \<Rightarrow> 64 word \<Rightarrow> 64 word" where
  "multiply_high_u64 x y = ucast (drop_bit 64 ((ucast x :: 128 word) * ucast y))"

definition multiply_high_u64_portable :: "64 word \<Rightarrow> 64 word \<Rightarrow> 64 word" where
  "multiply_high_u64_portable x y =
     (let x_lo = x AND 0xffffffff; x_hi = drop_bit 32 x;
          buckets_lo = y AND 0xffffffff; buckets_hi = drop_bit 32 y;
          prod_hi = x_hi * buckets_hi;
          prod_lo = x_lo * buckets_lo;
          prod_mid1 = x_hi * buckets_lo;
          prod_mid2 = x_lo * buckets_hi;
          carry = drop_bit 32 ((prod_mid1 AND 0xffffffff) + (prod_mid2 AND 0xffffffff) + drop_bit 32 prod_lo)
      in prod_hi + drop_bit 32 prod_mid1 + drop_bit 32 prod_mid2 + carry)"

definition fast_map_to_buckets :: "'v cuckoo \<Rightarrow> 64 word \<Rightarrow> 64 word" where
  "fast_map_to_buckets m x = multiply_high_u64 x (ck_num_buckets m)"

definition key_transform :: "key_type \<Rightarrow> 64 word" where
  "key_transform k = k + (if k = kUnusedSlot then 1 else 0)"

definition h2 :: "64 word \<Rightarrow> 64 word" where
  "h2 h = 0xc6a4a7935bd1e995 * (drop_bit 32 h OR push_bit 32 h)"

definition alt_bucket :: "'v cuckoo \<Rightarrow> key_type \<Rightarrow> 64 word \<Rightarrow> 64 word" where
  "alt_bucket m k b =
     (if fast_map_to_buckets m k \<noteq> b then fast_map_to_buckets m k else fast_map_to_buckets m (h2 k))"

section \<open>Slots\<close>

definition key_in :: "'v cuckoo \<Rightarrow> 64 word \<Rightarrow> nat \<Rightarrow> key_type out" where
  "key_in m b slot = bnd (get (ck_buckets m) (unat b)) (\<lambda>bref. get (cb_keys bref) slot)"

definition value_in :: "'v cuckoo \<Rightarrow> 64 word \<Rightarrow> nat \<Rightarrow> 'v option out" where
  "value_in m b slot = bnd (get (ck_buckets m) (unat b)) (\<lambda>bref. get (cb_values bref) slot)"

definition write_slot :: "64 word \<Rightarrow> nat \<Rightarrow> key_type \<Rightarrow> 'v option \<Rightarrow> 'v cuckoo \<Rightarrow> 'v cuckoo out" where
  "write_slot b slot k v m =
     bnd (get (ck_buckets m) (unat b)) (\<lambda>bptr.
     bnd (put (cb_keys bptr) slot k) (\<lambda>ks. bnd (put (cb_values bptr) slot v) (\<lambda>vs.
     bnd (put (ck_buckets m) (unat b) (bptr\<lparr>cb_keys := ks, cb_values := vs\<rparr>)) (\<lambda>bs.
     Inr (m\<lparr>ck_buckets := bs\<rparr>)))))"

definition InsertInternal :: "key_type \<Rightarrow> 'v \<Rightarrow> 64 word \<Rightarrow> nat \<Rightarrow> 'v cuckoo \<Rightarrow> 'v cuckoo out" where
  "InsertInternal k v b slot = write_slot b slot k (Some v)"

definition CopyItem :: "64 word \<Rightarrow> nat \<Rightarrow> 64 word \<Rightarrow> nat \<Rightarrow> 'v cuckoo \<Rightarrow> 'v cuckoo out" where
  "CopyItem src_bucket src_slot dst_bucket dst_slot m =
     bnd (key_in m src_bucket src_slot) (\<lambda>k. bnd (value_in m src_bucket src_slot) (\<lambda>v.
     write_slot dst_bucket dst_slot k v m))"

text \<open>The slots of a bucket in turn: the first that holds the key, with what it copies to \<open>*out\<close>.\<close>

fun find_in_slots :: "'v cuckoo \<Rightarrow> key_type \<Rightarrow> 64 word \<Rightarrow> nat list \<Rightarrow> nat option out" where
  "find_in_slots m k b [] = Inr None"
| "find_in_slots m k b (i # is) =
     bnd (key_in m b i) (\<lambda>k'. if k' = k then Inr (Some i) else find_in_slots m k b is)"

definition FindInBucket :: "'v cuckoo \<Rightarrow> key_type \<Rightarrow> 64 word \<Rightarrow> 'v option option out" where
  "FindInBucket m k b =
     bnd (find_in_slots m k b [0..<kSlotsPerBucket]) (\<lambda>i.
       case i of None \<Rightarrow> Inr None | Some i \<Rightarrow> bnd (value_in m b i) (\<lambda>v. Inr (Some v)))"

definition SpaceAvailable :: "'v cuckoo \<Rightarrow> 64 word \<Rightarrow> nat option out" where
  "SpaceAvailable m b = find_in_slots m kUnusedSlot b [0..<kSlotsPerBucket]"

section \<open>The interface\<close>

text \<open>\<open>entries_per_load\<close> is the double \<open>num_entries / kLoadFactor\<close> as a \<open>uint64\<close>.\<close>

definition cuckoo_Clear :: "64 word \<Rightarrow> 'v cuckoo \<Rightarrow> 'v cuckoo" where
  "cuckoo_Clear entries_per_load m =
     (let n = entries_per_load div of_nat kSlotsPerBucket + 32;
          empty_bucket = \<lparr>cb_keys = replicate kSlotsPerBucket kUnusedSlot, cb_values = replicate kSlotsPerBucket None\<rparr>
      in m\<lparr>ck_cpq := CuckooPathQueue, ck_num_buckets := n, ck_buckets := replicate (unat n) empty_bucket\<rparr>)"

definition PresizedCuckooMap :: "64 word \<Rightarrow> 'v cuckoo" where
  "PresizedCuckooMap entries_per_load =
     cuckoo_Clear entries_per_load \<lparr>ck_num_buckets = 0, ck_buckets = [], ck_cpq = CuckooPathQueue,
       ck_visited = replicate kVisitedListSize None\<rparr>"

definition cuckoo_Find :: "'v cuckoo \<Rightarrow> key_type \<Rightarrow> 'v option option out" where
  "cuckoo_Find m k =
     (let tk = key_transform k in
      bnd (FindInBucket m k (fast_map_to_buckets m tk)) (\<lambda>r.
        case r of Some out \<Rightarrow> Inr (Some out) | None \<Rightarrow> FindInBucket m k (fast_map_to_buckets m (h2 tk))))"

text \<open>
  The search.  \<open>move_path\<close> walks from the bucket with the free slot back to a root and copies each
  entry one step on; \<open>push_child\<close> is the body of the loop over the slots of a full bucket.
\<close>

definition parent_of :: "'v cuckoo \<Rightarrow> path_entry \<Rightarrow> path_entry out" where
  "parent_of m e = bnd (get (ck_visited m) (pe_parent e)) object"

definition move_path :: "'v cuckoo \<times> path_entry \<times> nat \<Rightarrow> ('v cuckoo \<times> path_entry \<times> nat) out" where
  "move_path = forever (\<lambda>(m, e, free_slot).
     if 1 < pe_depth e then
       bnd (parent_of m e) (\<lambda>parent.
       bnd (CopyItem (pe_bucket parent) (pe_parent_slot e) (pe_bucket e) free_slot m) (\<lambda>m.
       Inr (Inl (m, parent, pe_parent_slot e))))
     else Inr (Inr (m, e, free_slot)))"

definition push_child :: "key_type \<Rightarrow> path_entry \<Rightarrow> nat \<Rightarrow> nat \<Rightarrow> 'v cuckoo \<Rightarrow> 'v cuckoo out" where
  "push_child k e parent_index i m =
     (let start_slot = unat ((k + pe_bucket e) mod of_nat kSlotsPerBucket);
          slot = (start_slot + i) mod kSlotsPerBucket in
      bnd (key_in m (pe_bucket e) slot) (\<lambda>key.
      let next_bucket = alt_bucket m key (pe_bucket e) in
      bnd (parent_of m e) (\<lambda>parent.
      if next_bucket \<noteq> pe_bucket parent then
        bnd (queue_push_back \<lparr>pe_bucket = next_bucket, pe_depth = pe_depth e + 1,
               pe_parent = parent_index, pe_parent_slot = slot\<rparr> (ck_cpq m)) (\<lambda>q.
        Inr (m\<lparr>ck_cpq := q\<rparr>))
      else Inr m)))"

definition search_step ::
    "key_type \<Rightarrow> 'v \<Rightarrow> 'v cuckoo \<times> nat \<Rightarrow> ('v cuckoo \<times> nat + 'v cuckoo \<times> bool) out" where
  "search_step k v s =
     (case s of (m, visited_end) \<Rightarrow>
      if queue_empty (ck_cpq m) then Inr (Inr (m, False))
      else
        bnd (queue_pop_front (ck_cpq m)) (\<lambda>(e, q).
        let m = m\<lparr>ck_cpq := q\<rparr> in
        bnd (SpaceAvailable m (pe_bucket e)) (\<lambda>free_slot.
        case free_slot of
          Some free_slot \<Rightarrow>
            bnd (move_path (m, e, free_slot)) (\<lambda>(m, e, free_slot).
            bnd (InsertInternal k v (pe_bucket e) free_slot m) (\<lambda>m. Inr (Inr (m, True))))
        | None \<Rightarrow>
            if pe_depth e < kMaxBFSPathLen then
              bnd (put (ck_visited m) visited_end (Some e)) (\<lambda>vs.
              bnd (for_each [0..<kSlotsPerBucket] (push_child k e visited_end) (m\<lparr>ck_visited := vs\<rparr>)) (\<lambda>m.
              Inr (Inl (m, visited_end + 1))))
            else Inr (Inl (m, visited_end)))))"

definition CuckooInsert :: "key_type \<Rightarrow> 'v \<Rightarrow> 64 word \<Rightarrow> 64 word \<Rightarrow> 'v cuckoo \<Rightarrow> ('v cuckoo \<times> bool) out" where
  "CuckooInsert k v b1 b2 m =
     bnd (queue_push_back \<lparr>pe_bucket = b1, pe_depth = 1, pe_parent = 0, pe_parent_slot = 0\<rparr> (queue_reset (ck_cpq m))) (\<lambda>q.
     bnd (queue_push_back \<lparr>pe_bucket = b2, pe_depth = 1, pe_parent = 0, pe_parent_slot = 0\<rparr> q) (\<lambda>q.
     forever (search_step k v) (m\<lparr>ck_cpq := q\<rparr>, 0)))"

text \<open>
  The merged search for a duplicate and for space: \<open>None\<close> is the early return for a duplicate,
  otherwise the first unused slot, if there is one.
\<close>

fun find_space ::
    "'v cuckoo \<Rightarrow> key_type \<Rightarrow> (64 word \<times> nat) list \<Rightarrow> (64 word \<times> nat) option \<Rightarrow> (64 word \<times> nat) option option out" where
  "find_space m k [] target = Inr (Some target)"
| "find_space m k ((bucket, slot) # slots) target =
     bnd (key_in m bucket slot) (\<lambda>key.
       if key = k then Inr None
       else if target = None \<and> key = kUnusedSlot then find_space m k slots (Some (bucket, slot))
       else find_space m k slots target)"

definition InsertUnique :: "key_type \<Rightarrow> 'v \<Rightarrow> 'v cuckoo \<Rightarrow> ('v cuckoo \<times> bool) out" where
  "InsertUnique k v m =
     (let tk = key_transform k;
          b1 = fast_map_to_buckets m tk;
          b2 = fast_map_to_buckets m (h2 tk) in
      bnd (find_space m k (List.product [b1, b2] [0..<kSlotsPerBucket]) None) (\<lambda>r.
        case r of
          None \<Rightarrow> Inr (m, False)
        | Some (Some (target_bucket, target_slot)) \<Rightarrow>
            bnd (InsertInternal tk v target_bucket target_slot m) (\<lambda>m. Inr (m, True))
        | Some None \<Rightarrow> CuckooInsert tk v b1 b2 m))"

section \<open>Multiplication\<close>

lemma high_half:
  fixes a b c d B :: nat
  assumes "0 < B"
  shows "((a + B * b) * (c + B * d)) div (B * B) =
    b * d + b * c div B + a * d div B + (b * c mod B + a * d mod B + a * c div B) div B"
proof -
  have "(a + B * b) * (c + B * d) = a * c + B * ((b * c + a * d) + B * (b * d))" by (simp add: algebra_simps)
  then have "(a + B * b) * (c + B * d) div B = (b * c + a * d + a * c div B) + B * (b * d)" using assms by simp
  then have "((a + B * b) * (c + B * d)) div (B * B) = (b * c + a * d + a * c div B) div B + b * d"
    using assms by (simp add: div_mult2_eq)
  also have "b * c + a * d + a * c div B =
      (b * c mod B + a * d mod B + a * c div B) + B * (b * c div B + a * d div B)" by (simp add: distrib_left)
  also have "\<dots> div B = (b * c mod B + a * d mod B + a * c div B) div B + (b * c div B + a * d div B)"
    using assms by simp
  finally show ?thesis by simp
qed

lemma unat_multiply_high: "unat (multiply_high_u64 x y) = unat x * unat y div 2 ^ 64"
proof -
  have "unat x * unat y < 2 ^ 64 * 2 ^ 64"
    using word64_less [of x] word64_less [of y] by (intro mult_strict_mono) simp_all
  moreover have "unat (ucast w :: 128 word) = unat w" for w :: "64 word"
    using word64_less [of w] by (simp add: unsigned_ucast_eq take_bit_nat_eq_self)
  ultimately have "unat ((ucast x :: 128 word) * ucast y) = unat x * unat y" and "unat x * unat y div 2 ^ 64 < 2 ^ 64"
    by (simp_all add: unat_word_ariths less_mult_imp_div_less)
  then show ?thesis
    unfolding multiply_high_u64_def unsigned_ucast_eq unat_drop_bit_div by (simp add: take_bit_nat_eq_self)
qed

lemma unat_low_half: "unat ((x :: 64 word) AND 0xffffffff) = unat x mod 2 ^ 32"
  using unat_and_mask [of x 32] by simp

lemma unat_high_half: "unat (drop_bit 32 (x :: 64 word)) = unat x div 2 ^ 32"
  by (rule unat_drop_bit_div)

lemma half_small: "unat (x :: 64 word) div 2 ^ 32 < 2 ^ 32"
  using word64_less [of x] by (simp add: less_mult_imp_div_less)

lemma unat_sum64: "unat (x :: 64 word) + unat y < 2 ^ 64 \<Longrightarrow> unat (x + y) = unat x + unat y"
  by (simp add: unat_word_ariths)

lemma unat_product64: "unat (x :: 64 word) < 2 ^ 32 \<Longrightarrow> unat y < 2 ^ 32 \<Longrightarrow> unat (x * y) = unat x * unat y"
proof -
  assume "unat x < 2 ^ 32" "unat y < 2 ^ 32"
  then have "unat x * unat y < 2 ^ 32 * 2 ^ 32" by (intro mult_strict_mono) simp_all
  then show "unat (x * y) = unat x * unat y" by (simp add: unat_word_ariths)
qed

lemma multiply_high_portable: "unat (multiply_high_u64_portable x y) = unat x * unat y div 2 ^ 64"
proof -
  let ?B = "2 ^ 32 :: nat"
  define a b c d where "a = x AND 0xffffffff" "b = drop_bit 32 x" "c = y AND 0xffffffff" "d = drop_bit 32 y"
  note D = this
  have small: "unat a < ?B" "unat b < ?B" "unat c < ?B" "unat d < ?B"
    unfolding D unat_low_half unat_high_half by (simp_all only: half_small mod_less_divisor zero_less_power zero_less_numeral)
  note prods = unat_product64 [OF small(2,4)] unat_product64 [OF small(1,3)]
    unat_product64 [OF small(2,3)] unat_product64 [OF small(1,4)]
  define carry where "carry = drop_bit 32 ((b * c AND 0xffffffff) + (a * d AND 0xffffffff) + drop_bit 32 (a * c))"
  have low: "unat (b * c AND 0xffffffff) < ?B" "unat (a * d AND 0xffffffff) < ?B" "unat (drop_bit 32 (a * c)) < ?B"
    unfolding unat_low_half unat_high_half by (simp_all only: half_small mod_less_divisor zero_less_power zero_less_numeral)
  then have "unat ((b * c AND 0xffffffff) + (a * d AND 0xffffffff) + drop_bit 32 (a * c)) =
      unat b * unat c mod ?B + unat a * unat d mod ?B + unat a * unat c div ?B"
    by (simp add: unat_sum64 unat_low_half unat_high_half prods)
  then have carry: "unat carry = (unat b * unat c mod ?B + unat a * unat d mod ?B + unat a * unat c div ?B) div ?B"
    by (simp add: carry_def unat_high_half)
  have "unat x = unat a + ?B * unat b" "unat y = unat c + ?B * unat d"
    by (simp_all add: D unat_low_half unat_high_half)
  then have total: "unat x * unat y div 2 ^ 64 =
      unat b * unat d + unat b * unat c div ?B + unat a * unat d div ?B + unat carry"
    using high_half [of ?B "unat a" "unat b" "unat c" "unat d"] carry by simp
  have "unat x * unat y div 2 ^ 64 < 2 ^ 64" using word64_less [of "multiply_high_u64 x y"] by (simp only: unat_multiply_high)
  with total have "unat (b * d + drop_bit 32 (b * c) + drop_bit 32 (a * d) + carry) = unat x * unat y div 2 ^ 64"
    by (simp add: unat_sum64 unat_high_half prods)
  then show ?thesis by (simp add: multiply_high_u64_portable_def Let_def D carry_def)
qed

lemma fast_map_in_range: "0 < ck_num_buckets m \<Longrightarrow> unat (fast_map_to_buckets m x) < unat (ck_num_buckets m)"
proof -
  assume "0 < ck_num_buckets m"
  then have "unat x * unat (ck_num_buckets m) < 2 ^ 64 * unat (ck_num_buckets m)"
    using word64_less [of x] by (intro mult_strict_right_mono) (auto simp: word_less_nat_alt)
  then show ?thesis by (simp add: fast_map_to_buckets_def unat_multiply_high less_mult_imp_div_less mult.commute)
qed

end
