(* ===== verification/Cuckoo_Table.thy ===== *)
theory Cuckoo_Table
  imports Cuckoo_Map
begin

text \<open>
  The table of \<open>Cuckoo_Map\<close> as cells: what each access does to the cell of a bucket and a slot, the
  invariant \<open>table_ok\<close> (every key in one of its two buckets, no key twice), the partial map
  \<open>cuckoo_map\<close> the table stands for, and \<open>shift\<close>, the chain of moves that makes room for a new entry.
\<close>

section \<open>Cells\<close>

type_synonym loc = "nat \<times> nat"

declare split_paired_All [simp del] split_paired_Ex [simp del]

definition buckets_sized :: "'v cuckoo \<Rightarrow> bool" where
  "buckets_sized m \<longleftrightarrow> 0 < ck_num_buckets m \<and> length (ck_buckets m) = unat (ck_num_buckets m) \<and>
     (\<forall>b\<in>set (ck_buckets m). length (cb_keys b) = kSlotsPerBucket \<and> length (cb_values b) = kSlotsPerBucket)"

definition in_table :: "'v cuckoo \<Rightarrow> loc \<Rightarrow> bool" where
  "in_table m l \<longleftrightarrow> fst l < unat (ck_num_buckets m) \<and> snd l < kSlotsPerBucket"

definition cell :: "'v cuckoo \<Rightarrow> loc \<Rightarrow> key_type \<times> 'v option" where
  "cell m l = (cb_keys (ck_buckets m ! fst l) ! snd l, cb_values (ck_buckets m ! fst l) ! snd l)"

definition set_cell :: "loc \<Rightarrow> key_type \<times> 'v option \<Rightarrow> 'v cuckoo \<Rightarrow> 'v cuckoo" where
  "set_cell l c m = m\<lparr>ck_buckets := (ck_buckets m)[fst l := (let b = ck_buckets m ! fst l in
     b\<lparr>cb_keys := (cb_keys b)[snd l := fst c], cb_values := (cb_values b)[snd l := snd c]\<rparr>)]\<rparr>"

lemma set_cell_simps [simp]:
  "ck_num_buckets (set_cell l c m) = ck_num_buckets m" "ck_cpq (set_cell l c m) = ck_cpq m"
  "ck_visited (set_cell l c m) = ck_visited m" "length (ck_buckets (set_cell l c m)) = length (ck_buckets m)"
  "in_table (set_cell l c m) = in_table m"
  by (simp_all add: set_cell_def in_table_def fun_eq_iff)

lemma buckets_sized_bucket_at:
  assumes "buckets_sized m" and "b < unat (ck_num_buckets m)"
  shows "length (cb_keys (ck_buckets m ! b)) = kSlotsPerBucket \<and> length (cb_values (ck_buckets m ! b)) = kSlotsPerBucket \<and>
    b < length (ck_buckets m)"
  using assms by (auto simp: buckets_sized_def)

lemma buckets_sized_set_cell [simp]: "buckets_sized m \<Longrightarrow> in_table m l \<Longrightarrow> buckets_sized (set_cell l c m)"
  using buckets_sized_bucket_at [of m "fst l"]
  by (auto simp: buckets_sized_def set_cell_def Let_def in_table_def dest!: subsetD [OF set_update_subset_insert])

lemma cell_set_cell:
  "buckets_sized m \<Longrightarrow> in_table m l \<Longrightarrow> cell (set_cell l c m) l' = (if l' = l then c else cell m l')"
  using buckets_sized_bucket_at [of m "fst l"]
  by (cases l; cases l') (auto simp: cell_def set_cell_def in_table_def Let_def nth_list_update)

lemma key_in_cell: "buckets_sized m \<Longrightarrow> in_table m (unat b, i) \<Longrightarrow> key_in m b i = Inr (fst (cell m (unat b, i)))"
  using buckets_sized_bucket_at [of m "unat b"] by (simp add: key_in_def cell_def in_table_def)

lemma value_in_cell: "buckets_sized m \<Longrightarrow> in_table m (unat b, i) \<Longrightarrow> value_in m b i = Inr (snd (cell m (unat b, i)))"
  using buckets_sized_bucket_at [of m "unat b"] by (simp add: value_in_def cell_def in_table_def)

lemma write_slot_cell:
  "buckets_sized m \<Longrightarrow> in_table m (unat b, i) \<Longrightarrow> write_slot b i k v m = Inr (set_cell (unat b, i) (k, v) m)"
  using buckets_sized_bucket_at [of m "unat b"] by (simp add: write_slot_def set_cell_def in_table_def Let_def)

lemma CopyItem_cell:
  "buckets_sized m \<Longrightarrow> in_table m (unat b, i) \<Longrightarrow> in_table m (unat b', i') \<Longrightarrow>
   CopyItem b i b' i' m = Inr (set_cell (unat b', i') (cell m (unat b, i)) m)"
  by (simp add: CopyItem_def key_in_cell value_in_cell write_slot_cell)

lemma InsertInternal_cell:
  "buckets_sized m \<Longrightarrow> in_table m (unat b, i) \<Longrightarrow> InsertInternal k v b i m = Inr (set_cell (unat b, i) (k, Some v) m)"
  by (simp add: InsertInternal_def write_slot_cell)

text \<open>Everything the table says is in its buckets.\<close>

definition same_table :: "'v cuckoo \<Rightarrow> 'v cuckoo \<Rightarrow> bool" where
  "same_table m m' \<longleftrightarrow> ck_num_buckets m' = ck_num_buckets m \<and> ck_buckets m' = ck_buckets m"

lemma same_table_simps:
  assumes "same_table m m'"
  shows "buckets_sized m' = buckets_sized m" "in_table m' = in_table m" "cell m' = cell m"
    "fast_map_to_buckets m' = fast_map_to_buckets m" "alt_bucket m' = alt_bucket m"
    "key_in m' = key_in m" "value_in m' = value_in m"
  using assms by (simp_all add: same_table_def buckets_sized_def in_table_def cell_def fast_map_to_buckets_def
      alt_bucket_def key_in_def value_in_def fun_eq_iff)

section \<open>Searching a bucket\<close>

lemma find_in_slots_same: "same_table m m' \<Longrightarrow> find_in_slots m' k b is = find_in_slots m k b is"
  by (induction "is") (simp_all add: same_table_simps cong: if_cong)

lemma find_in_slots_spec:
  assumes "buckets_sized m" and "\<forall>i\<in>set is. in_table m (unat b, i)"
  shows "find_in_slots m k b is = Inr (find (\<lambda>i. fst (cell m (unat b, i)) = k) is)"
  using assms(2) by (induction "is") (simp_all add: key_in_cell assms(1))

lemma FindInBucket_spec:
  assumes "buckets_sized m" and "unat b < unat (ck_num_buckets m)"
  shows "FindInBucket m k b =
    Inr (map_option (\<lambda>i. snd (cell m (unat b, i))) (find (\<lambda>i. fst (cell m (unat b, i)) = k) [0..<kSlotsPerBucket]))"
proof -
  let ?r = "find (\<lambda>i. fst (cell m (unat b, i)) = k) [0..<kSlotsPerBucket]"
  have "\<forall>i\<in>set [0..<kSlotsPerBucket]. in_table m (unat b, i)" using assms(2) by (simp add: in_table_def)
  note slots = find_in_slots_spec [OF assms(1) this]
  show ?thesis
  proof (cases ?r)
    case None
    then show ?thesis by (simp add: FindInBucket_def slots)
  next
    case (Some i)
    then have "i < kSlotsPerBucket" by (auto simp: find_Some_iff)
    with assms have "value_in m b i = Inr (snd (cell m (unat b, i)))" by (simp add: value_in_cell in_table_def)
    with Some show ?thesis by (simp add: FindInBucket_def slots)
  qed
qed

lemma SpaceAvailable_spec:
  assumes "buckets_sized m" and "unat b < unat (ck_num_buckets m)"
  shows "SpaceAvailable m b = Inr (find (\<lambda>i. fst (cell m (unat b, i)) = kUnusedSlot) [0..<kSlotsPerBucket])"
  using assms unfolding SpaceAvailable_def by (intro find_in_slots_spec) (simp_all add: in_table_def)

section \<open>The invariant and the map\<close>

definition occupied :: "'v cuckoo \<Rightarrow> loc \<Rightarrow> bool" where
  "occupied m l \<longleftrightarrow> in_table m l \<and> fst (cell m l) \<noteq> kUnusedSlot"

definition homes :: "'v cuckoo \<Rightarrow> key_type \<Rightarrow> nat set" where
  "homes m k = {unat (fast_map_to_buckets m k), unat (fast_map_to_buckets m (h2 k))}"

definition ok_but_for :: "loc set \<Rightarrow> 'v cuckoo \<Rightarrow> bool" where
  "ok_but_for H m \<longleftrightarrow>
     (\<forall>l. occupied m l \<and> l \<notin> H \<longrightarrow> snd (cell m l) \<noteq> None \<and> fst l \<in> homes m (fst (cell m l))) \<and>
     (\<forall>l l'. occupied m l \<and> occupied m l' \<and> l \<notin> H \<and> l' \<notin> H \<and> fst (cell m l) = fst (cell m l') \<longrightarrow> l = l')"

definition table_ok :: "'v cuckoo \<Rightarrow> bool" where
  "table_ok m \<longleftrightarrow> buckets_sized m \<and> ok_but_for {} m"

definition holds_but_for :: "loc set \<Rightarrow> 'v cuckoo \<Rightarrow> key_type \<Rightarrow> 'v \<Rightarrow> bool" where
  "holds_but_for H m k v \<longleftrightarrow> (\<exists>l. occupied m l \<and> l \<notin> H \<and> cell m l = (k, Some v))"

definition all_locs :: "'v cuckoo \<Rightarrow> loc list" where
  "all_locs m = List.product [0..<unat (ck_num_buckets m)] [0..<kSlotsPerBucket]"

definition cuckoo_map :: "'v cuckoo \<Rightarrow> key_type \<Rightarrow> 'v option" where
  "cuckoo_map m k =
     (if k = kUnusedSlot then None
      else Option.bind (find (\<lambda>l. fst (cell m l) = k) (all_locs m)) (\<lambda>l. snd (cell m l)))"

lemma set_all_locs: "set (all_locs m) = {l. in_table m l}"
  by (auto simp: all_locs_def in_table_def)

lemma homes_set_cell [simp]: "homes (set_cell l c m) = homes m"
  by (simp add: homes_def fun_eq_iff fast_map_to_buckets_def)

lemma homes_in_range: "buckets_sized m \<Longrightarrow> b \<in> homes m k \<Longrightarrow> b < unat (ck_num_buckets m)"
  using fast_map_in_range [of m] by (auto simp: homes_def buckets_sized_def)

lemma same_table_views:
  assumes "same_table m m'"
  shows "table_ok m' = table_ok m" "cuckoo_map m' = cuckoo_map m"
  using same_table_simps [OF assms] assms
  by (simp_all add: table_ok_def ok_but_for_def occupied_def homes_def cuckoo_map_def all_locs_def same_table_def fun_eq_iff)

lemma table_okD:
  assumes "table_ok m" and "occupied m l"
  shows "\<exists>v. snd (cell m l) = Some v" "fst l \<in> homes m (fst (cell m l))"
    "occupied m l' \<Longrightarrow> fst (cell m l) = fst (cell m l') \<Longrightarrow> l = l'"
  using assms unfolding table_ok_def ok_but_for_def by blast+

lemma cuckoo_map_at:
  assumes "table_ok m" and "occupied m l"
  shows "cuckoo_map m (fst (cell m l)) = snd (cell m l)"
proof -
  have "l \<in> set (all_locs m)" using assms(2) by (simp add: occupied_def set_all_locs)
  then obtain l' where l': "find (\<lambda>l'. fst (cell m l') = fst (cell m l)) (all_locs m) = Some l'"
    by (cases "find (\<lambda>l'. fst (cell m l') = fst (cell m l)) (all_locs m)") (auto simp: find_None_iff)
  then have "l' \<in> set (all_locs m)" "fst (cell m l') = fst (cell m l)" by (auto simp: find_Some_iff)
  then have "occupied m l'" using assms(2) by (simp add: occupied_def set_all_locs)
  from table_okD(3) [OF assms(1,2) this] \<open>fst (cell m l') = fst (cell m l)\<close> have "l' = l" by simp
  with l' assms(2) show ?thesis by (simp add: cuckoo_map_def occupied_def)
qed

lemma cuckoo_map_None:
  assumes "table_ok m"
  shows "cuckoo_map m k = None \<longleftrightarrow> (\<forall>l. occupied m l \<longrightarrow> fst (cell m l) \<noteq> k)"
proof (cases "\<exists>l. occupied m l \<and> fst (cell m l) = k")
  case True
  then obtain l where "occupied m l" "fst (cell m l) = k" by blast
  with cuckoo_map_at [OF assms, of l] table_okD(1) [OF assms, of l] show ?thesis by auto
next
  case False
  then have "k = kUnusedSlot \<or> find (\<lambda>l. fst (cell m l) = k) (all_locs m) = None"
    by (auto simp: find_None_iff set_all_locs occupied_def)
  with False show ?thesis by (auto simp: cuckoo_map_def)
qed

lemma cuckoo_map_occupied: "table_ok m \<Longrightarrow> occupied m l \<Longrightarrow> cuckoo_map m (fst (cell m l)) \<noteq> None"
  using cuckoo_map_at table_okD(1) by fastforce

lemma cuckoo_map_home:
  assumes "table_ok m" and "cuckoo_map m k \<noteq> None"
  shows "\<exists>b i. b \<in> {fast_map_to_buckets m k, fast_map_to_buckets m (h2 k)} \<and> i < kSlotsPerBucket \<and>
    fst (cell m (unat b, i)) = k"
proof -
  obtain b i where l: "occupied m (b, i)" "fst (cell m (b, i)) = k"
    using assms(2) cuckoo_map_None [OF assms(1), of k] by (metis surj_pair)
  with table_okD(2) [OF assms(1) l(1)] have "b \<in> homes m k" "i < kSlotsPerBucket"
    by (simp_all add: occupied_def in_table_def)
  then obtain w where "w \<in> {fast_map_to_buckets m k, fast_map_to_buckets m (h2 k)}" "b = unat w"
    unfolding homes_def by blast
  with l(2) \<open>i < kSlotsPerBucket\<close> show ?thesis by (intro exI [of _ w] exI [of _ i]) simp
qed

lemma holds_cuckoo_map: "table_ok m \<Longrightarrow> holds_but_for {} m k v \<longleftrightarrow> cuckoo_map m k = Some v"
proof
  assume ok: "table_ok m" and "holds_but_for {} m k v"
  then obtain l where "occupied m l" "cell m l = (k, Some v)" by (auto simp: holds_but_for_def)
  with cuckoo_map_at [OF ok, of l] show "cuckoo_map m k = Some v" by simp
next
  assume ok: "table_ok m" and k: "cuckoo_map m k = Some v"
  with cuckoo_map_None [OF ok, of k] obtain l where "occupied m l" "fst (cell m l) = k" by auto
  with cuckoo_map_at [OF ok, of l] k show "holds_but_for {} m k v"
    by (auto simp: holds_but_for_def intro!: exI [of _ l] prod_eqI)
qed

section \<open>Moving entries along a chain\<close>

text \<open>
  The first location of the chain is free; every entry moves one location up and the new one goes to
  the last.  In between, one location (\<open>H\<close> of \<open>ok_but_for H\<close>) holds an entry that is also elsewhere.
\<close>

fun shift :: "loc list \<Rightarrow> key_type \<times> 'v option \<Rightarrow> 'v cuckoo \<Rightarrow> 'v cuckoo" where
  "shift [] c m = m"
| "shift [p] c m = set_cell p c m"
| "shift (p # q # ps) c m = shift (q # ps) c (set_cell p (cell m q) m)"

fun linked :: "'v cuckoo \<Rightarrow> loc list \<Rightarrow> bool" where
  "linked m (p # q # ps) \<longleftrightarrow> fst p \<in> homes m (fst (cell m q)) \<and> linked m (q # ps)"
| "linked m _ \<longleftrightarrow> True"

lemma occupied_set_cell:
  "buckets_sized m \<Longrightarrow> in_table m p \<Longrightarrow> occupied (set_cell p c m) l \<longleftrightarrow> (if l = p then fst c \<noteq> kUnusedSlot else occupied m l)"
  by (auto simp: occupied_def cell_set_cell)

lemma linked_set_cell:
  "buckets_sized m \<Longrightarrow> in_table m p \<Longrightarrow> p \<notin> set (tl ps) \<Longrightarrow> linked (set_cell p c m) ps = linked m ps"
  by (induction m ps rule: linked.induct) (auto simp: cell_set_cell)

lemma shift_table:
  assumes "buckets_sized m" and "P \<noteq> []" and "\<forall>l\<in>set P. in_table m l"
  shows "buckets_sized (shift P c m) \<and> in_table (shift P c m) = in_table m \<and>
    ck_cpq (shift P c m) = ck_cpq m \<and> ck_visited (shift P c m) = ck_visited m \<and>
    ck_num_buckets (shift P c m) = ck_num_buckets m"
  using assms by (induction P c m rule: shift.induct) auto

lemma shift_cells:
  assumes "buckets_sized m" and "P \<noteq> []" and "distinct P" and "\<forall>l\<in>set P. in_table m l"
    and "\<forall>l\<in>set (tl P). occupied m l" and "fst c \<noteq> kUnusedSlot"
  shows "cell (shift P c m) (last P) = c" and "l \<notin> set P \<Longrightarrow> cell (shift P c m) l = cell m l"
    and "l \<in> set P \<Longrightarrow> fst (cell (shift P c m) l) \<noteq> kUnusedSlot"
proof -
  have "cell (shift P c m) (last P) = c \<and> (\<forall>l. l \<notin> set P \<longrightarrow> cell (shift P c m) l = cell m l) \<and>
      (\<forall>l\<in>set P. fst (cell (shift P c m) l) \<noteq> kUnusedSlot)"
    using assms
  proof (induction P c m rule: shift.induct)
    case (2 p c m)
    then show ?case by (simp add: cell_set_cell)
  next
    case (3 p q ps c m)
    let ?m = "set_cell p (cell m q) m"
    have p: "in_table m p" "p \<noteq> q" "p \<notin> set ps" "fst (cell m q) \<noteq> kUnusedSlot"
      using "3.prems"(3-5) by (auto simp: occupied_def)
    note 1 = cell_set_cell [OF "3.prems"(1) p(1)] and 2 = occupied_set_cell [OF "3.prems"(1) p(1)]
    have IH: "cell (shift (q # ps) c ?m) (last (q # ps)) = c \<and>
        (\<forall>l. l \<notin> set (q # ps) \<longrightarrow> cell (shift (q # ps) c ?m) l = cell ?m l) \<and>
        (\<forall>l\<in>set (q # ps). fst (cell (shift (q # ps) c ?m) l) \<noteq> kUnusedSlot)"
      using "3.prems" p 2 by (intro "3.IH") auto
    then show ?case using p 1 by auto
  qed simp
  then show "cell (shift P c m) (last P) = c" "l \<notin> set P \<Longrightarrow> cell (shift P c m) l = cell m l"
    "l \<in> set P \<Longrightarrow> fst (cell (shift P c m) l) \<noteq> kUnusedSlot" by auto
qed

lemma shift_holds:
  assumes "buckets_sized m" and "P \<noteq> []" and "distinct P" and "\<forall>l\<in>set P. in_table m l" and "k \<noteq> kUnusedSlot"
  shows "holds_but_for {} (shift P (k, Some v) m) k' v' \<longleftrightarrow> k' = k \<and> v' = v \<or> holds_but_for {hd P} m k' v'"
  using assms
proof (induction P "(k, Some v)" m rule: shift.induct)
  case (2 p m)
  then show ?case by (auto simp: holds_but_for_def occupied_set_cell cell_set_cell)
next
  case (3 p q ps m)
  let ?m = "set_cell p (cell m q) m"
  have "holds_but_for {} (shift (q # ps) (k, Some v) ?m) k' v' \<longleftrightarrow> k' = k \<and> v' = v \<or> holds_but_for {hd (q # ps)} ?m k' v'"
    using 3 by (intro 3(1)) simp_all
  moreover have "holds_but_for {q} ?m k' v' = holds_but_for {p} m k' v'"
  proof
    assume "holds_but_for {q} ?m k' v'"
    then obtain l where "occupied ?m l" "l \<noteq> q" "cell ?m l = (k', Some v')" by (auto simp: holds_but_for_def)
    then show "holds_but_for {p} m k' v'" using 3(2,4,5) unfolding holds_but_for_def
      by (intro exI [of _ "if l = p then q else l"]) (auto simp: occupied_set_cell cell_set_cell occupied_def split: if_splits)
  next
    assume "holds_but_for {p} m k' v'"
    then obtain l where "occupied m l" "l \<noteq> p" "cell m l = (k', Some v')" by (auto simp: holds_but_for_def)
    then show "holds_but_for {q} ?m k' v'" using 3(2,4,5) unfolding holds_but_for_def
      by (intro exI [of _ "if l = q then p else l"]) (auto simp: occupied_set_cell cell_set_cell occupied_def)
  qed
  ultimately show ?case by simp
qed simp

lemma ok_but_for_move:
  assumes "buckets_sized m" and "in_table m p" and "in_table m q" and "p \<noteq> q" and "fst p \<in> homes m (fst (cell m q))"
    and "ok_but_for {p} m"
  shows "ok_but_for {q} (set_cell p (cell m q) m)"
proof -
  let ?m = "set_cell p (cell m q) m"
  note ok = assms(6) [unfolded ok_but_for_def]
  note s = occupied_set_cell [OF assms(1,2)] cell_set_cell [OF assms(1,2)]
  have q: "occupied m q" if "occupied ?m p" using that assms(3) by (simp add: s) (simp add: occupied_def)
  have "snd (cell ?m l) \<noteq> None \<and> fst l \<in> homes ?m (fst (cell ?m l))" if "occupied ?m l" "l \<noteq> q" for l
    using that q ok assms(1-5) by (cases "l = p") (auto simp: occupied_set_cell cell_set_cell)
  moreover have "l = l'"
    if u: "occupied ?m l" "occupied ?m l'" "l \<noteq> q" "l' \<noteq> q" "fst (cell ?m l) = fst (cell ?m l')" for l l'
  proof (cases "l = p"; cases "l' = p")
    assume "l \<noteq> p" "l' \<noteq> p"
    with u have "occupied m l" "occupied m l'" "fst (cell m l) = fst (cell m l')" by (simp_all add: s)
    with ok \<open>l \<noteq> p\<close> \<open>l' \<noteq> p\<close> show ?thesis by blast
  next
    assume "l = p" "l' \<noteq> p"
    with u have "occupied m l'" "fst (cell m l') = fst (cell m q)" by (simp_all add: s)
    with ok q u(1,4) \<open>l = p\<close> \<open>l' \<noteq> p\<close> assms(4) show ?thesis by blast
  next
    assume "l \<noteq> p" "l' = p"
    with u have "occupied m l" "fst (cell m l) = fst (cell m q)" by (simp_all add: s)
    with ok q u(2,3) \<open>l' = p\<close> \<open>l \<noteq> p\<close> assms(4) show ?thesis by blast
  qed simp
  ultimately show ?thesis unfolding ok_but_for_def by blast
qed

lemma ok_but_for_insert:
  assumes "buckets_sized m" and "in_table m p" and "fst p \<in> homes m k" and "ok_but_for {p} m"
    and "\<forall>l. occupied m l \<and> l \<noteq> p \<longrightarrow> fst (cell m l) \<noteq> k"
  shows "ok_but_for {} (set_cell p (k, Some v) m)"
proof -
  let ?m = "set_cell p (k, Some v) m"
  note ok = assms(4) [unfolded ok_but_for_def]
  note s = occupied_set_cell [OF assms(1,2)] cell_set_cell [OF assms(1,2)]
  have "snd (cell ?m l) \<noteq> None \<and> fst l \<in> homes ?m (fst (cell ?m l))" if "occupied ?m l" for l
    using that ok assms(3) by (cases "l = p") (simp_all add: s)
  moreover have "l = l'" if u: "occupied ?m l" "occupied ?m l'" "fst (cell ?m l) = fst (cell ?m l')" for l l'
  proof (cases "l = p"; cases "l' = p")
    assume "l \<noteq> p" "l' \<noteq> p"
    with u have "occupied m l" "occupied m l'" "fst (cell m l) = fst (cell m l')" by (simp_all add: s)
    with ok \<open>l \<noteq> p\<close> \<open>l' \<noteq> p\<close> show ?thesis by blast
  qed (use u assms(5) [THEN spec, of l] assms(5) [THEN spec, of l'] in \<open>simp_all add: s split: if_splits\<close>)
  ultimately show ?thesis unfolding ok_but_for_def by blast
qed

lemma shift_ok:
  assumes "buckets_sized m" and "P \<noteq> []" and "distinct P" and "\<forall>l\<in>set P. in_table m l" and "linked m P"
    and "fst (last P) \<in> homes m k" and "ok_but_for {hd P} m" and "\<forall>l. occupied m l \<and> l \<noteq> hd P \<longrightarrow> fst (cell m l) \<noteq> k"
  shows "ok_but_for {} (shift P (k, Some v) m)"
  using assms
proof (induction P "(k, Some v)" m rule: shift.induct)
  case (2 p m)
  then show ?case unfolding shift.simps by (intro ok_but_for_insert) simp_all
next
  case (3 p q ps m)
  let ?m = "set_cell p (cell m q) m"
  have m: "buckets_sized m" "in_table m p" "in_table m q" "p \<noteq> q" using 3 by simp_all
  have "fst (cell ?m l) \<noteq> k" if "occupied ?m l" "l \<noteq> q" for l
    using that m 3(9) by (auto simp: occupied_set_cell cell_set_cell occupied_def split: if_splits)
  moreover have "linked ?m (q # ps)" using 3 linked_set_cell [of m p "q # ps"] by simp
  ultimately show ?case
    unfolding shift.simps using 3 m ok_but_for_move [of m p q] by (intro 3(1)) simp_all
qed simp

section \<open>Homes\<close>

lemma alt_bucket_home: "unat (alt_bucket m k b) \<in> homes m k"
  by (simp add: alt_bucket_def homes_def)

lemma alt_bucket_in_range: "buckets_sized m \<Longrightarrow> unat (alt_bucket m k b) < unat (ck_num_buckets m)"
  using homes_in_range alt_bucket_home by blast

definition full_bucket :: "'v cuckoo \<Rightarrow> key_type \<Rightarrow> bool" where
  "full_bucket m b \<longleftrightarrow> (\<forall>i<kSlotsPerBucket. fst (cell m (unat b, i)) \<noteq> kUnusedSlot)"

lemma SpaceAvailable_cases:
  assumes "buckets_sized m" and "unat b < unat (ck_num_buckets m)"
  shows "SpaceAvailable m b = Inr None \<and> full_bucket m b \<or>
    (\<exists>i. SpaceAvailable m b = Inr (Some i) \<and> in_table m (unat b, i) \<and> \<not> occupied m (unat b, i) \<and> \<not> full_bucket m b)"
  using assms SpaceAvailable_spec [OF assms]
  by (cases "find (\<lambda>i. fst (cell m (unat b, i)) = kUnusedSlot) [0..<kSlotsPerBucket]")
    (auto simp: find_None_iff find_Some_iff full_bucket_def in_table_def occupied_def)

end
