(* ===== verification/Cuckoo_Search.thy ===== *)
theory Cuckoo_Search
  imports Cuckoo_Table
begin

unbundle bit_operations_syntax

text \<open>
  The breadth-first search of \<open>Cuckoo_Map\<close>: the circular buffer is a queue (locale \<open>work_queue\<close>), the search
  never leaves its two arrays and ends, and the path it finds never passes a slot twice, so that
  moving the entries along it loses none.
\<close>

section \<open>Queues\<close>

text \<open>
  What the search asks of its queue: \<open>contents q xs\<close> says that \<open>q\<close> holds \<open>xs\<close>, and at most \<open>capacity\<close>
  elements fit.
\<close>

locale work_queue =
  fixes push :: "'e \<Rightarrow> 'q \<Rightarrow> 'q out"
    and pop :: "'q \<Rightarrow> ('e \<times> 'q) out"
    and is_empty :: "'q \<Rightarrow> bool"
    and contents :: "'q \<Rightarrow> 'e list \<Rightarrow> bool"
    and capacity :: nat
  assumes push_back: "contents q xs \<Longrightarrow> length xs < capacity \<Longrightarrow> \<exists>q'. push e q = Inr q' \<and> contents q' (xs @ [e])"
    and pop_front: "contents q (e # xs) \<Longrightarrow> \<exists>q'. pop q = Inr (e, q') \<and> contents q' xs"
    and empty_iff: "contents q xs \<Longrightarrow> is_empty q \<longleftrightarrow> xs = []"
begin

lemma push_selected:
  "contents q xs \<Longrightarrow> length xs + length is \<le> capacity \<Longrightarrow>
   \<exists>q'. for_each is (\<lambda>i q. if c i then push (f i) q else Inr q) q = Inr q' \<and> contents q' (xs @ map f (filter c is))"
proof (induction "is" arbitrary: q xs)
  case Nil
  then show ?case by simp
next
  case (Cons i "is")
  show ?case
  proof (cases "c i")
    case True
    from push_back [OF Cons.prems(1), of "f i"] Cons.prems(2) obtain q1 where
      q1: "push (f i) q = Inr q1" "contents q1 (xs @ [f i])" by auto
    from Cons.IH [OF q1(2)] Cons.prems(2) q1(1) True show ?thesis by simp
  next
    case False
    with Cons.IH [OF Cons.prems(1)] Cons.prems(2) show ?thesis by simp
  qed
qed

lemma push_two:
  assumes "contents q []" and "2 \<le> capacity"
  shows "\<exists>q1 q2. push a q = Inr q1 \<and> push b q1 = Inr q2 \<and> contents q2 [a, b]"
proof -
  from push_back [OF assms(1), of a] assms(2) obtain q1 where q1: "push a q = Inr q1" "contents q1 [a]" by auto
  from push_back [OF q1(2), of b] assms(2) q1(1) show ?thesis by auto
qed

end

definition queue_holds :: "path_queue \<Rightarrow> path_entry list \<Rightarrow> bool" where
  "queue_holds q xs \<longleftrightarrow> length (q_items q) = kMaxQueueSize \<and> q_head q < kMaxQueueSize \<and> length xs < kMaxQueueSize \<and>
     q_tail q = (q_head q + length xs) mod kMaxQueueSize \<and>
     (\<forall>i<length xs. q_items q ! ((q_head q + i) mod kMaxQueueSize) = Some (xs ! i))"

lemma queue_reset_empty: "length (q_items q) = kMaxQueueSize \<Longrightarrow> queue_holds (queue_reset q) []"
  by (simp add: queue_holds_def queue_reset_def kMaxQueueSize_def)

lemma ring_distinct: "i < j \<Longrightarrow> j < n \<Longrightarrow> (h + i) mod n \<noteq> (h + j) mod (n :: nat)"
proof
  assume "i < j" "j < n" "(h + i) mod n = (h + j) mod n"
  then have "n dvd (h + j) - (h + i)" by (intro mod_eq_dvd_iff_nat [THEN iffD1]) simp_all
  then have "n dvd j - i" by simp
  with \<open>i < j\<close> have "n \<le> j - i" by (intro dvd_imp_le) simp_all
  with \<open>i < j\<close> \<open>j < n\<close> show False by simp
qed

lemma queue_push_holds:
  assumes "queue_holds q xs" and "length xs < kMaxQueueSize - 1"
  shows "\<exists>q'. queue_push_back e q = Inr q' \<and> queue_holds q' (xs @ [e])"
proof -
  note Q = assms(1) [unfolded queue_holds_def]
  have t: "q_tail q < length (q_items q)" using Q by simp
  have "((q_items q)[q_tail q := Some e]) ! ((q_head q + i) mod kMaxQueueSize) = Some ((xs @ [e]) ! i)"
    if "i < length (xs @ [e])" for i
  proof (cases "i = length xs")
    case True
    then show ?thesis using t Q by simp
  next
    case False
    with that have "i < length xs" by simp
    with ring_distinct [of i "length xs" kMaxQueueSize "q_head q"] Q show ?thesis by (simp add: nth_append)
  qed
  moreover have "(q_tail q + 1) mod kMaxQueueSize = (q_head q + length (xs @ [e])) mod kMaxQueueSize"
    using Q by (simp add: mod_Suc_eq)
  ultimately show ?thesis using Q t assms(2) by (simp add: queue_push_back_def queue_holds_def)
qed

lemma queue_pop_holds:
  assumes "queue_holds q (e # xs)"
  shows "\<exists>q'. queue_pop_front q = Inr (e, q') \<and> queue_holds q' xs"
proof -
  note Q = assms [unfolded queue_holds_def]
  then have "q_items q ! ((q_head q + 0) mod kMaxQueueSize) = Some ((e # xs) ! 0)" by blast
  with Q have h: "q_items q ! q_head q = Some e" by simp
  have "q_items q ! (((q_head q + 1) mod kMaxQueueSize + i) mod kMaxQueueSize) = Some (xs ! i)" if "i < length xs" for i
  proof -
    have "q_items q ! ((q_head q + Suc i) mod kMaxQueueSize) = Some ((e # xs) ! Suc i)"
      using Q that by (intro Q [THEN conjunct2, THEN conjunct2, THEN conjunct2, THEN conjunct2, rule_format]) simp
    then show ?thesis by (simp add: mod_add_left_eq)
  qed
  moreover have "q_tail q = ((q_head q + 1) mod kMaxQueueSize + length xs) mod kMaxQueueSize"
    using Q by (simp add: mod_add_left_eq)
  ultimately show ?thesis using Q h by (simp add: queue_pop_front_def queue_holds_def)
qed

lemma queue_empty_holds: "queue_holds q xs \<Longrightarrow> queue_empty q \<longleftrightarrow> xs = []"
  using ring_distinct [of 0 "length xs" kMaxQueueSize "q_head q"]
  by (cases "xs = []") (auto simp: queue_holds_def queue_empty_def)

interpretation path_queue: work_queue queue_push_back queue_pop_front queue_empty queue_holds "kMaxQueueSize - 1"
  by unfold_locales (rule queue_push_holds queue_pop_holds queue_empty_holds; assumption)+

section \<open>The tree of the search\<close>

text \<open>
  An entry the search has pushed: a root, or the bucket to which the entry in slot \<open>pe_parent_slot\<close> of
  its parent's bucket can move, and that is not the bucket the parent came from.  \<open>V\<close> is the list of visited entries.
\<close>

definition succ_bucket :: "'v cuckoo \<Rightarrow> key_type \<Rightarrow> nat \<Rightarrow> key_type" where
  "succ_bucket m b i = alt_bucket m (fst (cell m (unat b, i))) b"

abbreviation parent :: "path_entry list \<Rightarrow> path_entry \<Rightarrow> path_entry" where
  "parent V e \<equiv> V ! pe_parent e"

definition entry_ok :: "'v cuckoo \<Rightarrow> key_type set \<Rightarrow> path_entry list \<Rightarrow> path_entry \<Rightarrow> bool" where
  "entry_ok m roots V e \<longleftrightarrow> 1 \<le> pe_depth e \<and> pe_depth e \<le> kMaxBFSPathLen \<and>
     unat (pe_bucket e) < unat (ck_num_buckets m) \<and>
     (if pe_depth e = 1 then pe_bucket e \<in> roots \<and> pe_parent e = 0
      else pe_parent e < length V \<and> pe_depth e = Suc (pe_depth (parent V e)) \<and> pe_parent_slot e < kSlotsPerBucket \<and>
           pe_bucket e = succ_bucket m (pe_bucket (parent V e)) (pe_parent_slot e) \<and>
           pe_bucket e \<noteq> pe_bucket (parent V (parent V e)))"

definition visited_ok :: "'v cuckoo \<Rightarrow> key_type set \<Rightarrow> path_entry list \<Rightarrow> bool" where
  "visited_ok m roots V \<longleftrightarrow> (\<forall>e\<in>set V. entry_ok m roots V e \<and> full_bucket m (pe_bucket e))"

lemma entryD:
  assumes "entry_ok m roots V e"
  shows "1 \<le> pe_depth e" "pe_depth e \<le> kMaxBFSPathLen" "unat (pe_bucket e) < unat (ck_num_buckets m)"
    "pe_depth e = 1 \<Longrightarrow> pe_bucket e \<in> roots" "pe_depth e = 1 \<Longrightarrow> pe_parent e = 0"
  using assms by (simp_all add: entry_ok_def)

lemma childD:
  assumes "entry_ok m roots V e" and "pe_depth e \<noteq> 1"
  shows "parent V e \<in> set V" "pe_parent e < length V" "pe_depth (parent V e) = pe_depth e - 1"
    "pe_parent_slot e < kSlotsPerBucket" "pe_bucket e = succ_bucket m (pe_bucket (parent V e)) (pe_parent_slot e)"
    "pe_bucket e \<noteq> pe_bucket (parent V (parent V e))"
  using assms unfolding entry_ok_def by auto

lemma visitedD:
  "visited_ok m roots V \<Longrightarrow> e \<in> set V \<Longrightarrow> entry_ok m roots V e"
  "visited_ok m roots V \<Longrightarrow> e \<in> set V \<Longrightarrow> full_bucket m (pe_bucket e)"
  by (simp_all add: visited_ok_def)

lemma entry_ok_append:
  assumes "entry_ok m roots V e" and "visited_ok m roots V"
  shows "entry_ok m roots (V @ [x]) e"
proof (cases "pe_depth e = 1")
  case True
  with assms(1) show ?thesis by (simp add: entry_ok_def)
next
  case False
  note C = childD [OF assms(1) False]
  have "entry_ok m roots V (parent V e)" using visitedD(1) [OF assms(2) C(1)] .
  then have "pe_parent (parent V e) < length V"
    using C(2) childD(2) entryD(5) by (metis gr_implies_not0 neq0_conv)
  then have "parent (V @ [x]) e = parent V e" "parent (V @ [x]) (parent V e) = parent V (parent V e)"
    using C(2) by (simp_all add: nth_append)
  with assms(1) C(2) show ?thesis unfolding entry_ok_def by (simp only: length_append) auto
qed

text \<open>The slots on the way from an entry to its root.\<close>

fun trace :: "path_entry list \<Rightarrow> nat \<Rightarrow> path_entry \<Rightarrow> loc list" where
  "trace V 0 e = []"
| "trace V (Suc d) e = (unat (pe_bucket (parent V e)), pe_parent_slot e) # trace V d (parent V e)"

abbreviation ancestor :: "path_entry list \<Rightarrow> path_entry \<Rightarrow> nat \<Rightarrow> path_entry" where
  "ancestor V e n \<equiv> ((\<lambda>e. parent V e) ^^ n) e"

lemma trace_ancestors:
  "trace V d e = map (\<lambda>n. (unat (pe_bucket (ancestor V e (Suc n))), pe_parent_slot (ancestor V e n))) [0..<d]"
proof (induction d arbitrary: e)
  case (Suc d)
  have "[0..<Suc d] = 0 # map Suc [0..<d]" by (simp add: upt_conv_Cons map_Suc_upt del: upt_Suc)
  with Suc [of "parent V e"] show ?case by (simp add: funpow_Suc_right del: upt_Suc funpow.simps)
qed simp

lemma ancestors:
  assumes "entry_ok m roots V e" and "visited_ok m roots V" and "n < pe_depth e"
  shows "entry_ok m roots V (ancestor V e n) \<and> pe_depth (ancestor V e n) = pe_depth e - n \<and>
    (0 < n \<longrightarrow> ancestor V e n \<in> set V)"
  using assms(3)
proof (induction n)
  case 0
  with assms(1) show ?case by simp
next
  case (Suc n)
  then have IH: "entry_ok m roots V (ancestor V e n)" "pe_depth (ancestor V e n) = pe_depth e - n" by simp_all
  with Suc.prems have "pe_depth (ancestor V e n) \<noteq> 1" by simp
  note C = childD(1,3) [OF IH(1) this]
  from C IH(2) visitedD(1) [OF assms(2) C(1)] show ?case by simp
qed

lemma trace_in_table:
  assumes "entry_ok m roots V e" and "visited_ok m roots V" and "pe_depth e = Suc d"
  shows "\<forall>l\<in>set (trace V d e). in_table m l"
  using assms
proof (induction d arbitrary: e)
  case (Suc d)
  then have "pe_depth e \<noteq> 1" by simp
  note C = childD [OF Suc.prems(1) this] and P = visitedD(1) [OF Suc.prems(2)]
  from Suc.IH [OF P [OF C(1)] Suc.prems(2)] C(3,4) Suc.prems(3) entryD(3) [OF P [OF C(1)]]
  show ?case by (simp add: in_table_def)
qed simp

lemma trace_occupied:
  assumes "entry_ok m roots V e" and "visited_ok m roots V" and "pe_depth e = Suc d"
  shows "\<forall>l\<in>set (trace V d e). occupied m l"
  using assms
proof (induction d arbitrary: e)
  case (Suc d)
  then have "pe_depth e \<noteq> 1" by simp
  note C = childD [OF Suc.prems(1) this] and P = visitedD [OF Suc.prems(2)]
  have "occupied m (unat (pe_bucket (parent V e)), pe_parent_slot e)"
    using P(2) [OF C(1)] C(4) entryD(3) [OF P(1) [OF C(1)]] by (simp add: occupied_def in_table_def full_bucket_def)
  with Suc.IH [OF P(1) [OF C(1)] Suc.prems(2)] C(3) Suc.prems(3) show ?case by simp
qed simp

lemma trace_linked:
  assumes "entry_ok m roots V e" and "visited_ok m roots V" and "pe_depth e = Suc d"
  shows "linked m ((unat (pe_bucket e), i) # trace V d e) \<and>
    fst (last ((unat (pe_bucket e), i) # trace V d e)) \<in> unat ` roots"
  using assms
proof (induction d arbitrary: e i)
  case 0
  then show ?case using entryD(4) [OF 0(1)] by simp
next
  case (Suc d)
  then have "pe_depth e \<noteq> 1" by simp
  note C = childD [OF Suc.prems(1) this]
  have "unat (pe_bucket e) \<in> homes m (fst (cell m (unat (pe_bucket (parent V e)), pe_parent_slot e)))"
    unfolding C(5) succ_bucket_def by (rule alt_bucket_home)
  with Suc.IH [OF visitedD(1) [OF Suc.prems(2) C(1)] Suc.prems(2), of "pe_parent_slot e"] C(3) Suc.prems(3)
  show ?case by simp
qed

text \<open>
  The path has at most four moves and never goes straight back, and all its buckets but the first
  are full.  So it does not use a slot twice.
\<close>

lemma trace_distinct:
  assumes "entry_ok m roots V e" and "visited_ok m roots V" and "pe_depth e = Suc d" and "\<not> full_bucket m (pe_bucket e)"
  shows "distinct ((unat (pe_bucket e), i) # trace V d e)"
proof -
  let ?B = "\<lambda>n. pe_bucket (ancestor V e n)" and ?s = "\<lambda>n. pe_parent_slot (ancestor V e n)"
  note A = ancestors [OF assms(1,2)]
  have d: "d \<le> 4" using entryD(2) [OF assms(1)] assms(3) by (simp add: kMaxBFSPathLen_def)
  have full: "full_bucket m (?B n)" if "0 < n" "n \<le> d" for n
    using A [of n] that assms(2,3) by (auto simp: visited_ok_def)
  then have head: "?B n \<noteq> ?B 0" if "0 < n" "n \<le> d" for n using full [OF that] assms(4) by auto
  have up: "?B n = succ_bucket m (?B (Suc n)) (?s n)" if "n < d" for n
    using A [of n] that assms(3) childD(5) [of m roots V "ancestor V e n"] by simp
  have turn: "?B n \<noteq> ?B (Suc (Suc n))" if "Suc n < d" for n
    using A [of n] that assms(3) childD(6) [of m roots V "ancestor V e n"] by simp
  have pairs: "?B (Suc i) \<noteq> ?B (Suc j) \<or> ?s i \<noteq> ?s j" if ij: "i < j" "j < d" for i j
  proof (rule ccontr)
    assume "\<not> ?thesis"
    then have same: "?B (Suc i) = ?B (Suc j)" "?s i = ?s j" by simp_all
    with up [of i] up [of j] ij have prev: "?B i = ?B j" by simp
    with head [of j] ij have "0 < i" by (cases i) auto
    then have "j = Suc i \<or> j = Suc (Suc i)" using ij d by linarith
    then show False
    proof
      assume "j = Suc i"
      with same prev turn [of i] ij show False by simp
    next
      assume "j = Suc (Suc i)"
      with same turn [of "Suc i"] ij show False by simp
    qed
  qed
  have "inj_on (\<lambda>n. (unat (?B (Suc n)), ?s n)) {0..<d}"
  proof (rule linorder_inj_onI)
    fix i j assume "i < j" "i \<in> {0..<d}" "j \<in> {0..<d}"
    with pairs [of i j] show "(unat (?B (Suc i)), ?s i) \<noteq> (unat (?B (Suc j)), ?s j)"
      by (simp only: prod.inject unsigned_word_eqI word_unat_eq_iff [symmetric]) auto
  qed auto
  then have "distinct (trace V d e)" unfolding trace_ancestors by (simp only: distinct_map distinct_upt set_upt)
  moreover have "(unat (pe_bucket e), i) \<notin> set (trace V d e)"
  proof
    assume "(unat (pe_bucket e), i) \<in> set (trace V d e)"
    then obtain n where "n < d" "unat (?B 0) = unat (?B (Suc n))" by (auto simp: trace_ancestors)
    with head [of "Suc n"] show False by (metis Suc_leI unsigned_word_eqI zero_less_Suc)
  qed
  ultimately show ?thesis by simp
qed

section \<open>Moving along the path\<close>

definition remembers :: "'v cuckoo \<Rightarrow> path_entry list \<Rightarrow> bool" where
  "remembers m V \<longleftrightarrow> length V \<le> length (ck_visited m) \<and> (\<forall>j<length V. ck_visited m ! j = Some (V ! j))"

lemma parent_of_visited: "remembers m V \<Longrightarrow> pe_parent e < length V \<Longrightarrow> parent_of m e = Inr (parent V e)"
  by (simp add: remembers_def parent_of_def)

lemma move_path_unfold:
  "move_path (m, e, i) =
   (if 1 < pe_depth e then
      bnd (parent_of m e) (\<lambda>p.
      bnd (CopyItem (pe_bucket p) (pe_parent_slot e) (pe_bucket e) i m) (\<lambda>m. move_path (m, p, pe_parent_slot e)))
    else Inr (m, e, i))"
  unfolding move_path_def by (subst forever_unfold) (simp add: bnd_def split: sum.split)

lemma move_path_shift:
  assumes "entry_ok m0 roots V e" and "visited_ok m0 roots V" and "pe_depth e = Suc d"
    and "buckets_sized m" and "in_table m = in_table m0" and "in_table m (unat (pe_bucket e), i)" and "remembers m V"
  shows "bnd (move_path (m, e, i)) (\<lambda>(m, e, i). InsertInternal k v (pe_bucket e) i m) =
    Inr (shift ((unat (pe_bucket e), i) # trace V d e) (k, Some v) m)"
  using assms
proof (induction d arbitrary: e i m)
  case 0
  then show ?case by (simp add: move_path_unfold InsertInternal_cell)
next
  case (Suc d)
  then have "pe_depth e \<noteq> 1" by simp
  note C = childD [OF Suc.prems(1) this]
  let ?p = "parent V e"
  let ?m = "set_cell (unat (pe_bucket e), i) (cell m (unat (pe_bucket ?p), pe_parent_slot e)) m"
  have src: "in_table m (unat (pe_bucket ?p), pe_parent_slot e)"
    using C(4) entryD(3) [OF visitedD(1) [OF Suc.prems(2) C(1)]] unfolding Suc.prems(5) by (simp add: in_table_def)
  have "move_path (m, e, i) = move_path (?m, ?p, pe_parent_slot e)"
    using Suc.prems(3-7) src C(2)
    by (subst move_path_unfold) (simp add: parent_of_visited CopyItem_cell)
  moreover have "remembers ?m V" using Suc.prems(7) by (simp add: remembers_def)
  ultimately show ?case
    using Suc.IH [OF visitedD(1) [OF Suc.prems(2) C(1)] Suc.prems(2), of ?m "pe_parent_slot e"] Suc.prems(3-6) C(3) src
    by simp
qed

lemma same_table_set_cell:
  "same_table m m' \<Longrightarrow> same_table (set_cell l c m) (set_cell l c m')"
  by (simp add: same_table_def set_cell_def)

lemma same_table_shift: "same_table m m' \<Longrightarrow> same_table (shift P c m) (shift P c m')"
proof (induction P c m arbitrary: m' rule: shift.induct)
  case (3 p q ps c m)
  then show ?case by (simp add: same_table_set_cell same_table_simps(3))
qed (simp_all add: same_table_set_cell)

section \<open>The invariant of the search\<close>

text \<open>
  \<open>nodes d\<close> is the size of a full search tree whose root has depth \<open>d\<close>.  What the queue can still grow
  to and what has left it (\<open>X\<close>) fit the 682 places, what can still be expanded and what has been
  (\<open>V\<close>) fit the 170.
\<close>

definition nodes :: "nat \<Rightarrow> nat" where
  "nodes d = (4 ^ (kMaxBFSPathLen + 1 - d) - 1) div 3"

lemma nodes_step: "1 \<le> d \<Longrightarrow> d \<le> kMaxBFSPathLen \<Longrightarrow> nodes d = 1 + 4 * nodes (Suc d)"
proof -
  assume "1 \<le> d" "d \<le> kMaxBFSPathLen"
  then have "d = 1 \<or> d = 2 \<or> d = 3 \<or> d = 4 \<or> d = 5" by (auto simp: kMaxBFSPathLen_def)
  then show ?thesis by (elim disjE) (simp_all add: nodes_def kMaxBFSPathLen_def)
qed

definition searching ::
    "'v cuckoo \<Rightarrow> key_type set \<Rightarrow> 'v cuckoo \<Rightarrow> path_entry list \<Rightarrow> path_entry list \<Rightarrow> path_entry list \<Rightarrow> bool" where
  "searching m0 roots m V Q X \<longleftrightarrow> same_table m0 m \<and> length (ck_visited m) = kVisitedListSize \<and> remembers m V \<and>
     queue_holds (ck_cpq m) Q \<and> visited_ok m0 roots V \<and> (\<forall>e\<in>set Q. entry_ok m0 roots V e) \<and>
     (\<Sum>e\<leftarrow>Q. nodes (pe_depth e)) + length X \<le> kMaxQueueSize \<and>
     (\<Sum>e\<leftarrow>Q. nodes (Suc (pe_depth e))) + length V \<le> kVisitedListSize"

lemma searchingD:
  assumes "searching m0 roots m V Q X"
  shows "same_table m0 m" "length (ck_visited m) = kVisitedListSize" "remembers m V" "queue_holds (ck_cpq m) Q"
    "visited_ok m0 roots V" "e \<in> set Q \<Longrightarrow> entry_ok m0 roots V e"
    "(\<Sum>e\<leftarrow>Q. nodes (pe_depth e)) + length X \<le> kMaxQueueSize"
    "(\<Sum>e\<leftarrow>Q. nodes (Suc (pe_depth e))) + length V \<le> kVisitedListSize"
  using assms by (simp_all add: searching_def)

text \<open>
  The buckets within a number of moves of the roots; everything the search has left behind is full and
  its successors are in the search.
\<close>

inductive within :: "'v cuckoo \<Rightarrow> key_type set \<Rightarrow> nat \<Rightarrow> key_type \<Rightarrow> bool" for m roots where
  Root: "b \<in> roots \<Longrightarrow> within m roots 1 b"
| Move: "within m roots d b \<Longrightarrow> d < kMaxBFSPathLen \<Longrightarrow> i < kSlotsPerBucket \<Longrightarrow>
    within m roots (Suc d) (succ_bucket m b i)"

definition covered :: "path_entry set \<Rightarrow> nat \<Rightarrow> key_type \<Rightarrow> bool" where
  "covered E d b \<longleftrightarrow> (\<exists>e\<in>E. pe_bucket e = b \<and> pe_depth e \<le> d)"

definition covers :: "'v cuckoo \<Rightarrow> key_type set \<Rightarrow> path_entry list \<Rightarrow> path_entry list \<Rightarrow> path_entry list \<Rightarrow> bool" where
  "covers m roots V Q X \<longleftrightarrow> set V \<subseteq> set X \<and> (V = [] \<or> pe_depth (V ! 0) = 1) \<and>
     (\<forall>e\<in>set X. full_bucket m (pe_bucket e)) \<and>
     (\<forall>b\<in>roots. covered (set X \<union> set Q) 1 b) \<and>
     (\<forall>e\<in>set X. pe_depth e < kMaxBFSPathLen \<longrightarrow> (\<forall>i<kSlotsPerBucket.
        covered (set X \<union> set Q) (Suc (pe_depth e)) (succ_bucket m (pe_bucket e) i)))"

lemma covered_mono: "covered E d b \<Longrightarrow> E \<subseteq> E' \<Longrightarrow> d \<le> d' \<Longrightarrow> covered E' d' b"
  unfolding covered_def by (meson le_trans subsetD)

lemma covers_all:
  assumes "covers m roots V [] X" and "within m roots d b"
  shows "full_bucket m b"
proof -
  from assms(2) have "covered (set X) d b"
  proof induction
    case (Root b)
    with assms(1) show ?case by (simp add: covers_def)
  next
    case (Move d b i)
    then obtain e where e: "e \<in> set X" "pe_bucket e = b" "pe_depth e \<le> d" by (auto simp: covered_def)
    with Move(2,3) assms(1) have "covered (set X) (Suc (pe_depth e)) (succ_bucket m b i)" by (auto simp: covers_def)
    with e(3) show ?case by (auto elim: covered_mono)
  qed
  with assms(1) show ?thesis by (auto simp: covered_def covers_def)
qed

section \<open>One step\<close>

text \<open>The children of an entry that is visited number \<open>n\<close>.\<close>

definition child :: "'v cuckoo \<Rightarrow> key_type \<Rightarrow> path_entry \<Rightarrow> nat \<Rightarrow> nat \<Rightarrow> path_entry" where
  "child m k e n i =
     (let slot = (unat ((k + pe_bucket e) mod of_nat kSlotsPerBucket) + i) mod kSlotsPerBucket in
      \<lparr>pe_bucket = succ_bucket m (pe_bucket e) slot, pe_depth = Suc (pe_depth e), pe_parent = n, pe_parent_slot = slot\<rparr>)"

definition children :: "'v cuckoo \<Rightarrow> key_type \<Rightarrow> path_entry list \<Rightarrow> path_entry \<Rightarrow> nat \<Rightarrow> path_entry list" where
  "children m k V e n =
     map (child m k e n) (filter (\<lambda>i. pe_bucket (child m k e n i) \<noteq> pe_bucket (parent V e)) [0..<kSlotsPerBucket])"

lemma push_child_eq:
  assumes "buckets_sized m0" and "same_table m0 m" and "remembers m V" and "pe_parent e < length V"
    and "unat (pe_bucket e) < unat (ck_num_buckets m0)"
  shows "push_child k e n i (m\<lparr>ck_cpq := q\<rparr>) =
     (if pe_bucket (child m0 k e n i) \<noteq> pe_bucket (parent V e)
      then bnd (queue_push_back (child m0 k e n i) q) (\<lambda>q. Inr (m\<lparr>ck_cpq := q\<rparr>)) else Inr (m\<lparr>ck_cpq := q\<rparr>))"
proof -
  have "same_table m0 (m\<lparr>ck_cpq := q\<rparr>)" using assms(2) by (simp add: same_table_def)
  note T = same_table_simps [OF this]
  have "remembers (m\<lparr>ck_cpq := q\<rparr>) V" using assms(3) by (simp add: remembers_def)
  note P = parent_of_visited [OF this assms(4)]
  have "in_table m0 (unat (pe_bucket e), s mod kSlotsPerBucket)" for s
    using assms(5) by (simp add: in_table_def kSlotsPerBucket_def)
  with assms(1) show ?thesis
    by (simp add: push_child_def Let_def T P key_in_cell child_def succ_bucket_def)
qed

lemma push_children:
  assumes "buckets_sized m0" and "same_table m0 m" and "remembers m V" and "pe_parent e < length V"
    and "unat (pe_bucket e) < unat (ck_num_buckets m0)"
    and "queue_holds (ck_cpq m) Q" and "length Q + kSlotsPerBucket < kMaxQueueSize"
  shows "\<exists>q. for_each [0..<kSlotsPerBucket] (push_child k e n) m = Inr (m\<lparr>ck_cpq := q\<rparr>) \<and>
    queue_holds q (Q @ children m0 k V e n)"
proof -
  let ?c = "\<lambda>i. pe_bucket (child m0 k e n i) \<noteq> pe_bucket (parent V e)"
  have each: "for_each is (push_child k e n) (m\<lparr>ck_cpq := q\<rparr>) =
      bnd (for_each is (\<lambda>i q. if ?c i then queue_push_back (child m0 k e n i) q else Inr q) q)
        (\<lambda>q. Inr (m\<lparr>ck_cpq := q\<rparr>))" for q "is"
    by (induction "is" arbitrary: q) (simp_all add: push_child_eq [OF assms(1-5)] bnd_def split: sum.split)
  have "length Q + length [0..<kSlotsPerBucket] \<le> kMaxQueueSize - 1" using assms(7) by simp
  from path_queue.push_selected [OF assms(6) this, of ?c "child m0 k e n"] obtain q where
    "for_each [0..<kSlotsPerBucket] (\<lambda>i q. if ?c i then queue_push_back (child m0 k e n i) q else Inr q) (ck_cpq m) = Inr q"
    "queue_holds q (Q @ children m0 k V e n)" unfolding children_def by blast
  with each [of "[0..<kSlotsPerBucket]" "ck_cpq m"] show ?thesis by (intro exI [of _ q]) simp
qed

lemma children_ok:
  assumes "entry_ok m roots (V @ [e]) e" and "pe_depth e < kMaxBFSPathLen" and "buckets_sized m" and "x \<in> set (children m k (V @ [e]) e (length V))"
  shows "entry_ok m roots (V @ [e]) x \<and> pe_depth x = Suc (pe_depth e)"
proof -
  from assms(4) obtain i where x: "x = child m k e (length V) i" and
    ne: "pe_bucket x \<noteq> pe_bucket (parent (V @ [e]) e)" by (auto simp: children_def)
  have "pe_parent x = length V" "pe_depth x = Suc (pe_depth e)" "pe_parent_slot x < kSlotsPerBucket"
    "pe_bucket x = succ_bucket m (pe_bucket e) (pe_parent_slot x)"
    by (simp_all add: x child_def Let_def kSlotsPerBucket_def)
  note X = this
  have "unat (pe_bucket x) < unat (ck_num_buckets m)"
    unfolding X(4) succ_bucket_def by (rule alt_bucket_in_range [OF assms(3)])
  with X ne assms(2) entryD(1) [OF assms(1)] show ?thesis unfolding entry_ok_def by simp
qed

lemma every_slot: "i < 4 \<Longrightarrow> \<exists>j<4. (s + j) mod 4 = (i :: nat)"
  by presburger

lemma children_cover:
  assumes "i < kSlotsPerBucket"
  shows "succ_bucket m (pe_bucket e) i = pe_bucket (parent V e) \<or>
    (\<exists>x\<in>set (children m k V e n). pe_bucket x = succ_bucket m (pe_bucket e) i \<and> pe_depth x = Suc (pe_depth e))"
proof -
  let ?start = "unat ((k + pe_bucket e) mod of_nat kSlotsPerBucket)"
  have "\<exists>j<kSlotsPerBucket. (?start + j) mod kSlotsPerBucket = i"
    using assms unfolding kSlotsPerBucket_def by (rule every_slot)
  then obtain j where "j < kSlotsPerBucket" "(?start + j) mod kSlotsPerBucket = i" by blast
  then show ?thesis by (auto simp: children_def child_def Let_def)
qed

lemma children_nodes:
  assumes "\<forall>x\<in>set (children m k V e n). pe_depth x = Suc (pe_depth e)"
  shows "(\<Sum>x\<leftarrow>children m k V e n. nodes (j + pe_depth x)) \<le> 4 * nodes (j + Suc (pe_depth e))"
proof -
  let ?xs = "children m k V e n"
  have "map (\<lambda>x. nodes (j + pe_depth x)) ?xs = map (\<lambda>x. nodes (j + Suc (pe_depth e))) ?xs"
    using assms by (intro map_cong) simp_all
  then have "(\<Sum>x\<leftarrow>?xs. nodes (j + pe_depth x)) = length ?xs * nodes (j + Suc (pe_depth e))"
    by (simp only: sum_list_triv of_nat_id)
  moreover have "length ?xs \<le> 4"
    using length_filter_le [of _ "[0..<kSlotsPerBucket]"] by (simp add: children_def kSlotsPerBucket_def)
  ultimately show ?thesis by simp
qed

lemma length_le_nodes:
  assumes "\<forall>e\<in>set Q. entry_ok m roots V e"
  shows "length Q \<le> (\<Sum>e\<leftarrow>Q. nodes (pe_depth e))"
  using assms
proof (induction Q)
  case (Cons e Q)
  then have "1 \<le> nodes (pe_depth e)" using nodes_step [of "pe_depth e"] entryD(1,2) by fastforce
  with Cons show ?case by simp
qed simp

text \<open>What the search ends with.\<close>

definition path_ok :: "'v cuckoo \<Rightarrow> key_type set \<Rightarrow> loc list \<Rightarrow> bool" where
  "path_ok m roots P \<longleftrightarrow> P \<noteq> [] \<and> distinct P \<and> (\<forall>l\<in>set P. in_table m l) \<and> linked m P \<and>
     fst (last P) \<in> unat ` roots \<and> \<not> occupied m (hd P) \<and> (\<forall>l\<in>set (tl P). occupied m l)"

definition buffers_ok :: "'v cuckoo \<Rightarrow> bool" where
  "buffers_ok m \<longleftrightarrow> length (q_items (ck_cpq m)) = kMaxQueueSize \<and> length (ck_visited m) = kVisitedListSize"

definition insert_ends :: "'v cuckoo \<Rightarrow> key_type set \<Rightarrow> key_type \<Rightarrow> 'v \<Rightarrow> 'v cuckoo \<times> bool \<Rightarrow> bool" where
  "insert_ends m0 roots k v res \<longleftrightarrow> buffers_ok (fst res) \<and>
     (if snd res then \<exists>P. path_ok m0 roots P \<and> same_table (shift P (k, Some v) m0) (fst res)
      else same_table m0 (fst res) \<and> (\<forall>d b. within m0 roots d b \<longrightarrow> full_bucket m0 b))"

lemma found_space:
  assumes "buckets_sized m0" and "same_table m0 m" and "remembers m V" and "visited_ok m0 roots V" and "entry_ok m0 roots V e"
    and "buffers_ok m" and "in_table m0 (unat (pe_bucket e), i)" and "\<not> occupied m0 (unat (pe_bucket e), i)"
    and "\<not> full_bucket m0 (pe_bucket e)"
  shows "\<exists>m'. bnd (move_path (m, e, i)) (\<lambda>(m, e, i). InsertInternal k v (pe_bucket e) i m) = Inr m' \<and>
    insert_ends m0 roots k v (m', True)"
proof -
  obtain d where d: "pe_depth e = Suc d" using entryD(1) [OF assms(5)] by (cases "pe_depth e") auto
  let ?P = "(unat (pe_bucket e), i) # trace V d e"
  note T = same_table_simps [OF assms(2)]
  have inP: "\<forall>l\<in>set ?P. in_table m0 l" using trace_in_table [OF assms(5,4) d] assms(7) by simp
  have P: "path_ok m0 roots ?P"
    using trace_distinct [OF assms(5,4) d assms(9)] trace_occupied [OF assms(5,4) d] trace_linked [OF assms(5,4) d, of i] inP assms(8)
    unfolding path_ok_def by simp
  have "bnd (move_path (m, e, i)) (\<lambda>(m, e, i). InsertInternal k v (pe_bucket e) i m) =
      Inr (shift ?P (k, Some v) m)"
    using assms(1,3,7) T by (intro move_path_shift [OF assms(5,4) d]) simp_all
  moreover have "buffers_ok (shift ?P (k, Some v) m)"
    using shift_table [of m ?P "(k, Some v)"] inP assms(1,6) T by (simp add: buffers_ok_def)
  ultimately show ?thesis
    using P same_table_shift [OF assms(2)] unfolding insert_ends_def by auto
qed

lemma expanded:
  assumes "buckets_sized m0" and "searching m0 roots m V (e # Q) X" and "queue_holds (ck_cpq m1) Q"
    and "m1 = m\<lparr>ck_cpq := ck_cpq m1\<rparr>" and "pe_depth e < kMaxBFSPathLen" and "full_bucket m0 (pe_bucket e)"
  shows "\<exists>vs m2. put (ck_visited m1) (length V) (Some e) = Inr vs \<and>
    for_each [0..<kSlotsPerBucket] (push_child k e (length V)) (m1\<lparr>ck_visited := vs\<rparr>) = Inr m2 \<and>
    searching m0 roots m2 (V @ [e]) (Q @ children m0 k (V @ [e]) e (length V)) (X @ [e])"
proof -
  note S = searchingD [OF assms(2)]
  let ?V = "V @ [e]" and ?C = "children m0 k (V @ [e]) e (length V)"
  have e: "entry_ok m0 roots V e" using S(6) by simp
  have eV: "entry_ok m0 roots ?V e" by (rule entry_ok_append [OF e S(5)])
  have visited: "visited_ok m0 roots ?V"
    using eV assms(6) visitedD [OF S(5)] entry_ok_append [OF _ S(5)] by (auto simp: visited_ok_def)
  have d: "1 \<le> pe_depth e" "pe_depth e \<le> kMaxBFSPathLen" by (rule entryD [OF e])+
  note N = nodes_step [OF d] nodes_step [of "Suc (pe_depth e)"]
  have room: "length V < kVisitedListSize" using S(8) N(2) assms(5) by simp
  have same: "ck_num_buckets m1 = ck_num_buckets m" "ck_buckets m1 = ck_buckets m" "ck_visited m1 = ck_visited m"
    by (subst assms(4); simp)+
  let ?vs = "(ck_visited m)[length V := Some e]"
  let ?m1 = "m1\<lparr>ck_visited := ?vs\<rparr>"
  have put: "put (ck_visited m1) (length V) (Some e) = Inr ?vs" using room S(2) same by simp
  have m1: "same_table m0 ?m1" "queue_holds (ck_cpq ?m1) Q" "remembers ?m1 ?V" "length (ck_visited ?m1) = kVisitedListSize"
    using S(1-3) same assms(3) room by (auto simp: same_table_def remembers_def nth_append nth_list_update)
  have Q: "\<forall>x\<in>set Q. entry_ok m0 roots ?V x" using S(6) entry_ok_append [OF _ S(5)] by simp
  have par: "pe_parent e < length ?V"
    using childD(2) [OF e] entryD(5) [OF e] by (cases "pe_depth e = 1") auto
  have "length Q + 5 \<le> kMaxQueueSize"
    using length_le_nodes [of Q m0 roots V] S(6,7) N assms(5) by simp
  then have "length Q + kSlotsPerBucket < kMaxQueueSize" by (simp add: kSlotsPerBucket_def)
  from push_children [OF assms(1) m1(1,3) par entryD(3) [OF e] m1(2) this, of k "length V"] obtain q where
    q: "for_each [0..<kSlotsPerBucket] (push_child k e (length V)) ?m1 = Inr (?m1\<lparr>ck_cpq := q\<rparr>)"
      "queue_holds q (Q @ ?C)" by blast
  have C: "\<forall>x\<in>set ?C. entry_ok m0 roots ?V x \<and> pe_depth x = Suc (pe_depth e)"
    using children_ok [OF eV assms(5,1)] by blast
  then have "(\<Sum>x\<leftarrow>?C. nodes (j + pe_depth x)) \<le> 4 * nodes (j + Suc (pe_depth e))" for j
    by (intro children_nodes) blast
  from this [of 0] this [of 1] have pot: "(\<Sum>x\<leftarrow>Q @ ?C. nodes (pe_depth x)) + length (X @ [e]) \<le> kMaxQueueSize"
    "(\<Sum>x\<leftarrow>Q @ ?C. nodes (Suc (pe_depth x))) + length ?V \<le> kVisitedListSize"
    using S(7,8) N assms(5) by simp_all
  have "searching m0 roots (?m1\<lparr>ck_cpq := q\<rparr>) ?V (Q @ ?C) (X @ [e])"
    using m1 q(2) visited Q C pot unfolding searching_def by (auto simp: same_table_def remembers_def)
  with put q(1) show ?thesis by blast
qed

lemma expanded_covers:
  assumes "searching m0 roots m V (e # Q) X" and "covers m0 roots V (e # Q) X" and "full_bucket m0 (pe_bucket e)"
  shows "covers m0 roots (V @ [e]) (Q @ children m0 k (V @ [e]) e (length V)) (X @ [e])"
proof -
  let ?V = "V @ [e]"
  let ?E = "set (X @ [e]) \<union> set (Q @ children m0 k ?V e (length V))"
  have e: "entry_ok m0 roots V e" using searchingD(6) [OF assms(1)] by simp
  note cov = assms(2) [unfolded covers_def]
  have sub: "set X \<union> set (e # Q) \<subseteq> ?E" by auto
  have first: "pe_depth (?V ! 0) = 1"
    using cov childD(2) [OF e] by (cases "V = []") (auto simp: nth_append)
  have parent: "covered ?E (Suc (pe_depth e)) (pe_bucket (parent ?V e))"
  proof -
    have "parent ?V e \<in> set ?V \<and> pe_depth (parent ?V e) \<le> Suc (pe_depth e)"
    proof (cases "pe_depth e = 1")
      case True
      with entryD(5) [OF e True] first show ?thesis by (metis nth_mem length_append_singleton zero_less_Suc le_SucI order_refl)
    next
      case False
      from childD(1-3) [OF e False] show ?thesis by (simp add: nth_append)
    qed
    moreover have "set ?V \<subseteq> ?E" using cov by auto
    ultimately show ?thesis unfolding covered_def by blast
  qed
  have "covered ?E (Suc (pe_depth e)) (succ_bucket m0 (pe_bucket e) i)" if "i < kSlotsPerBucket" for i
    using children_cover [OF that, of m0 e ?V k "length V"] parent
    by (elim disjE bexE conjE) (auto simp: covered_def)
  moreover have "\<forall>b\<in>roots. covered ?E 1 b" using cov sub covered_mono by blast
  moreover have "\<forall>x\<in>set X. pe_depth x < kMaxBFSPathLen \<longrightarrow> (\<forall>i<kSlotsPerBucket.
        covered ?E (Suc (pe_depth x)) (succ_bucket m0 (pe_bucket x) i))"
    using cov sub covered_mono [OF _ sub order_refl] by blast
  ultimately show ?thesis using cov first assms(3) unfolding covers_def by auto
qed

lemma leaf_left:
  assumes "searching m0 roots m V (e # Q) X" and "queue_holds (ck_cpq m1) Q" and "m1 = m\<lparr>ck_cpq := ck_cpq m1\<rparr>"
  shows "searching m0 roots m1 V Q (X @ [e])"
proof -
  note S = searchingD [OF assms(1)]
  have e: "entry_ok m0 roots V e" using S(6) by simp
  have same: "ck_num_buckets m1 = ck_num_buckets m" "ck_buckets m1 = ck_buckets m" "ck_visited m1 = ck_visited m"
    by (subst assms(3); simp)+
  show ?thesis
    using S assms(2) same nodes_step [OF entryD(1,2) [OF e]]
    unfolding searching_def by (auto simp: same_table_def remembers_def)
qed

lemma leaf_covers:
  assumes "covers m0 roots V (e # Q) X" and "full_bucket m0 (pe_bucket e)" and "\<not> pe_depth e < kMaxBFSPathLen"
  shows "covers m0 roots V Q (X @ [e])"
proof -
  have "set (X @ [e]) \<union> set Q = set X \<union> set (e # Q)" by auto
  then show ?thesis using assms unfolding covers_def by auto
qed

lemma search_step_spec:
  assumes "buckets_sized m0" and "searching m0 roots m V Q X" and "covers m0 roots V Q X"
  shows "(\<exists>r. search_step k v (m, length V) = Inr (Inr r) \<and> insert_ends m0 roots k v r) \<or>
    (\<exists>m' V' Q' X'. search_step k v (m, length V) = Inr (Inl (m', length V')) \<and>
       length X' = Suc (length X) \<and> searching m0 roots m' V' Q' X' \<and> covers m0 roots V' Q' X')"
proof (cases Q)
  note S = searchingD [OF assms(2)]
  case Nil
  then have "search_step k v (m, length V) = Inr (Inr (m, False))"
    using path_queue.empty_iff [OF S(4)] by (simp add: search_step_def)
  moreover have "insert_ends m0 roots k v (m, False)"
    using S(1,2,4) covers_all assms(3) Nil by (auto simp: insert_ends_def buffers_ok_def queue_holds_def)
  ultimately show ?thesis by blast
next
  note S = searchingD [OF assms(2)]
  case (Cons e Q')
  have e: "entry_ok m0 roots V e" using S(6) Cons by simp
  note sch = assms(2) [unfolded Cons] and cov = assms(3) [unfolded Cons]
  obtain q where q: "queue_pop_front (ck_cpq m) = Inr (e, q)" "queue_holds q Q'"
    using path_queue.pop_front S(4) Cons by blast
  let ?m = "m\<lparr>ck_cpq := q\<rparr>"
  have T: "same_table m0 ?m" using S(1) by (simp add: same_table_def)
  note [simp] = same_table_simps [OF T]
  have "SpaceAvailable ?m = SpaceAvailable m0" using T
    by (simp add: fun_eq_iff SpaceAvailable_def find_in_slots_same [OF T])
  then consider
      (full) "SpaceAvailable ?m (pe_bucket e) = Inr None" "full_bucket m0 (pe_bucket e)"
    | (space) i where "SpaceAvailable ?m (pe_bucket e) = Inr (Some i)" "in_table m0 (unat (pe_bucket e), i)"
        "\<not> occupied m0 (unat (pe_bucket e), i)" "\<not> full_bucket m0 (pe_bucket e)"
    using SpaceAvailable_cases [OF assms(1) entryD(3) [OF e]] by auto
  then show ?thesis
  proof cases
    case (space i)
    have "remembers ?m V" "buffers_ok ?m"
      using S(2,3) q(2) by (simp_all add: remembers_def buffers_ok_def queue_holds_def)
    from found_space [OF assms(1) T this(1) S(5) e this(2) space(2-4), of k v] obtain m' where
      "bnd (move_path (?m, e, i)) (\<lambda>(m, e, i). InsertInternal k v (pe_bucket e) i m) = Inr m'"
      "insert_ends m0 roots k v (m', True)" by blast
    then obtain m2 e2 i2 where "move_path (?m, e, i) = Inr (m2, e2, i2)"
      "InsertInternal k v (pe_bucket e2) i2 m2 = Inr m'" by (auto simp: bnd_Inr_iff)
    then have "search_step k v (m, length V) = Inr (Inr (m', True))"
      using path_queue.empty_iff [OF S(4)] Cons q(1) space(1) by (simp add: search_step_def)
    with \<open>insert_ends m0 roots k v (m', True)\<close> show ?thesis by blast
  next
    case full
    show ?thesis
    proof (cases "pe_depth e < kMaxBFSPathLen")
      case True
      have "queue_holds (ck_cpq ?m) Q'" "?m = m\<lparr>ck_cpq := ck_cpq ?m\<rparr>" using q(2) by simp_all
      from expanded [OF assms(1) sch this True full(2), of k] obtain vs m2 where
        2: "put (ck_visited ?m) (length V) (Some e) = Inr vs"
          "for_each [0..<kSlotsPerBucket] (push_child k e (length V)) (?m\<lparr>ck_visited := vs\<rparr>) = Inr m2"
          "searching m0 roots m2 (V @ [e]) (Q' @ children m0 k (V @ [e]) e (length V)) (X @ [e])" by blast
      have "search_step k v (m, length V) = Inr (Inl (m2, length (V @ [e])))"
        using path_queue.empty_iff [OF S(4)] Cons q(1) full(1) True 2(1,2) by (simp add: search_step_def)
      with 2(3) expanded_covers [OF sch cov full(2), of k] show ?thesis
        by (intro disjI2 exI [of _ m2] exI [of _ "V @ [e]"] exI conjI) auto
    next
      case False
      have "search_step k v (m, length V) = Inr (Inl (?m, length V))"
        using path_queue.empty_iff [OF S(4)] Cons q(1) full(1) False by (simp add: search_step_def)
      moreover have "searching m0 roots ?m V Q' (X @ [e])" using q(2) by (intro leaf_left [OF sch]) simp_all
      ultimately show ?thesis using leaf_covers [OF cov full(2) False]
        by (intro disjI2 exI [of _ ?m] exI [of _ V] exI [of _ Q'] exI [of _ "X @ [e]"]) simp
    qed
  qed
qed

section \<open>The search as a whole\<close>

text \<open>
  The search returns, without leaving an array, either with the entry in the table or with all the
  buckets within reach full.
\<close>

lemma CuckooInsert_ends:
  assumes "buckets_sized m" and "buffers_ok m" and "unat b1 < unat (ck_num_buckets m)" and "unat b2 < unat (ck_num_buckets m)"
  shows "\<exists>r. CuckooInsert k v b1 b2 m = Inr r \<and> insert_ends m {b1, b2} k v r"
proof -
  let ?root = "\<lambda>b. \<lparr>pe_bucket = b, pe_depth = 1, pe_parent = 0, pe_parent_slot = 0\<rparr>"
  let ?I = "\<lambda>n (m', ve). \<exists>V Q X. searching m {b1, b2} m' V Q X \<and> covers m {b1, b2} V Q X \<and> ve = length V \<and>
      n = kMaxQueueSize - length X"
  have "queue_holds (queue_reset (ck_cpq m)) []" using assms(2) by (intro queue_reset_empty) (simp add: buffers_ok_def)
  moreover have "2 \<le> kMaxQueueSize - 1" by (simp add: kMaxQueueSize_def)
  ultimately obtain q1 q2 where q: "queue_push_back (?root b1) (queue_reset (ck_cpq m)) = Inr q1"
      "queue_push_back (?root b2) q1 = Inr q2" "queue_holds q2 [?root b1, ?root b2]"
    using path_queue.push_two by blast
  let ?m = "m\<lparr>ck_cpq := q2\<rparr>"
  have "searching m {b1, b2} ?m [] [?root b1, ?root b2] []"
    using assms q(3) by (simp add: searching_def same_table_def remembers_def buffers_ok_def visited_ok_def entry_ok_def
        nodes_def cuckoo_constants)
  moreover have "covers m {b1, b2} [] [?root b1, ?root b2] []" by (simp add: covers_def covered_def)
  ultimately have start: "?I kMaxQueueSize (?m, 0)" by force
  have "\<exists>r. forever (search_step k v) (?m, 0) = Inr r \<and> insert_ends m {b1, b2} k v r"
  proof (rule forever_rule [where I = ?I, OF start])
    fix n s
    assume "?I n s"
    then obtain m' V Q X where s: "s = (m', length V)" "n = kMaxQueueSize - length X"
      and I: "searching m {b1, b2} m' V Q X" "covers m {b1, b2} V Q X" by (cases s) auto
    from search_step_spec [OF assms(1) I, of k v] show "(\<exists>a. search_step k v s = Inr (Inr a) \<and> insert_ends m {b1, b2} k v a) \<or>
      (\<exists>s' n'. search_step k v s = Inr (Inl s') \<and> n' < n \<and> ?I n' s')"
    proof (elim disjE exE conjE)
      fix m'' V' Q' X'
      assume 1: "search_step k v (m', length V) = Inr (Inl (m'', length V'))" "length X' = Suc (length X)"
        and 2: "searching m {b1, b2} m'' V' Q' X'" "covers m {b1, b2} V' Q' X'"
      have "length X' \<le> kMaxQueueSize" using searchingD(7) [OF 2(1)] by simp
      with 1(2) s(2) have "kMaxQueueSize - length X' < n" by simp
      moreover have "?I (kMaxQueueSize - length X') (m'', length V')" using 2 by auto
      ultimately show ?thesis using 1(1) s(1) by blast
    qed (use s in auto)
  qed
  with q(1,2) show ?thesis by (simp add: CuckooInsert_def)
qed

end
