(* ===== verification/Cuckoo_Spec.thy ===== *)
theory Cuckoo_Spec
  imports Cuckoo_Search
begin

unbundle bit_operations_syntax

text \<open>
  What \<open>PresizedCuckooMap\<close> promises its clients: a partial map from keys to values in which keys are
  inserted once.
\<close>

section \<open>Objects\<close>

definition cuckoo_ok :: "'v cuckoo \<Rightarrow> bool" where
  "cuckoo_ok m \<longleftrightarrow> table_ok m \<and> buffers_ok m"

lemma bucket_number:
  "unat (n div of_nat kSlotsPerBucket + 32 :: 64 word) = unat n div 4 + 32"
proof -
  have "unat (n div 4) = unat n div 4" by (simp add: unat_div)
  moreover have "unat n div 4 + 32 < 2 ^ 64" using word64_less [of n] by simp
  ultimately show ?thesis by (simp add: kSlotsPerBucket_def unat_sum64)
qed

lemma cuckoo_cleared:
  "buckets_sized (cuckoo_Clear n m) \<and> (\<forall>l. in_table (cuckoo_Clear n m) l \<longrightarrow> cell (cuckoo_Clear n m) l = (kUnusedSlot, None))"
  using bucket_number [of n]
  by (auto simp: buckets_sized_def cuckoo_Clear_def Let_def in_table_def cell_def word_greater_zero_iff
      intro!: notI dest: arg_cong [where f = unat])

lemma Clear_ok: "length (ck_visited m) = kVisitedListSize \<Longrightarrow> cuckoo_ok (cuckoo_Clear n m)"
proof -
  assume v: "length (ck_visited m) = kVisitedListSize"
  have "\<not> occupied (cuckoo_Clear n m) l" for l using cuckoo_cleared [of n m] by (simp add: occupied_def)
  then have "ok_but_for {} (cuckoo_Clear n m)" by (simp add: ok_but_for_def)
  moreover have "buffers_ok (cuckoo_Clear n m)"
    using v by (simp add: buffers_ok_def cuckoo_Clear_def Let_def CuckooPathQueue_def)
  ultimately show ?thesis using cuckoo_cleared [of n m] by (simp add: cuckoo_ok_def table_ok_def)
qed

lemma Clear_empty: "length (ck_visited m) = kVisitedListSize \<Longrightarrow> cuckoo_map (cuckoo_Clear n m) k = None"
  using cuckoo_map_None [of "cuckoo_Clear n m" k] Clear_ok [of m n] cuckoo_cleared [of n m]
  by (auto simp: cuckoo_ok_def occupied_def)

section \<open>Find\<close>

lemma find_bucket:
  assumes "table_ok m" and "k \<noteq> kUnusedSlot" and "unat b < unat (ck_num_buckets m)"
  shows "FindInBucket m k b =
    Inr (if \<exists>i<kSlotsPerBucket. fst (cell m (unat b, i)) = k then Some (cuckoo_map m k) else None)"
proof (cases "find (\<lambda>i. fst (cell m (unat b, i)) = k) [0..<kSlotsPerBucket]")
  case None
  then show ?thesis using assms by (auto simp: FindInBucket_spec table_ok_def find_None_iff)
next
  case (Some i)
  then have i: "i < kSlotsPerBucket" "fst (cell m (unat b, i)) = k" by (auto simp: find_Some_iff)
  then have "occupied m (unat b, i)" using assms(2,3) by (simp add: occupied_def in_table_def)
  from cuckoo_map_at [OF assms(1) this] i Some show ?thesis using assms by (auto simp: FindInBucket_spec table_ok_def)
qed

lemma home_buckets:
  assumes "buckets_sized m"
  shows "unat (fast_map_to_buckets m x) < unat (ck_num_buckets m)"
  using assms by (intro fast_map_in_range) (simp add: buckets_sized_def)

lemma Find_spec:
  assumes "cuckoo_ok m" and "k \<noteq> kUnusedSlot"
  shows "cuckoo_Find m k = Inr (map_option Some (cuckoo_map m k))"
proof -
  have ok: "table_ok m" "buckets_sized m" using assms(1) by (simp_all add: cuckoo_ok_def table_ok_def)
  let ?in = "\<lambda>b. \<exists>i<kSlotsPerBucket. fst (cell m (unat b, i)) = k"
  let ?b1 = "fast_map_to_buckets m k" and ?b2 = "fast_map_to_buckets m (h2 k)"
  have in_dom: "cuckoo_map m k \<noteq> None" if "?in b" "unat b < unat (ck_num_buckets m)" for b
  proof -
    from that(1) obtain i where i: "i < kSlotsPerBucket" "fst (cell m (unat b, i)) = k" by blast
    with assms(2) that(2) have "occupied m (unat b, i)" by (simp add: occupied_def in_table_def)
    from cuckoo_map_occupied [OF ok(1) this] i(2) show ?thesis by simp
  qed
  have "?in ?b1 \<or> ?in ?b2" if "cuckoo_map m k \<noteq> None" using cuckoo_map_home [OF ok(1) that] by blast
  with in_dom [of ?b1] in_dom [of ?b2] show ?thesis
    using home_buckets [OF ok(2)] assms(2)
    by (cases "cuckoo_map m k") (auto simp: cuckoo_Find_def key_transform_def find_bucket [OF ok(1)])
qed

section \<open>InsertUnique\<close>

lemma find_space_spec:
  assumes "buckets_sized m" and "\<forall>l\<in>set ls. in_table m (unat (fst l), snd l)"
  shows "find_space m k ls target =
    Inr (if \<exists>l\<in>set ls. fst (cell m (unat (fst l), snd l)) = k then None
         else Some (if target = None then find (\<lambda>l. fst (cell m (unat (fst l), snd l)) = kUnusedSlot) ls else target))"
  using assms(2)
proof (induction ls arbitrary: target)
  case (Cons l ls)
  then show ?case using assms(1) by (cases l) (auto simp: key_in_cell)
qed simp

lemma inserted_ok:
  assumes "table_ok m" and "k \<noteq> kUnusedSlot" and "cuckoo_map m k = None" and "path_ok m roots P"
    and "unat ` roots = homes m k" and "same_table (shift P (k, Some v) m) m'"
  shows "table_ok m' \<and> cuckoo_map m' = (cuckoo_map m)(k \<mapsto> v)"
proof -
  note P = assms(4) [unfolded path_ok_def]
  have buckets_sized: "buckets_sized m" using assms(1) by (simp add: table_ok_def)
  have but_hd: "ok_but_for {hd P} m" using assms(1) by (auto simp: table_ok_def ok_but_for_def)
  have new: "\<forall>l. occupied m l \<and> l \<noteq> hd P \<longrightarrow> fst (cell m l) \<noteq> k" using assms(3) cuckoo_map_None [OF assms(1)] by blast
  have ok: "table_ok (shift P (k, Some v) m)"
    using shift_ok [OF buckets_sized _ _ _ _ _ but_hd new] shift_table [OF buckets_sized] P assms(5) by (simp add: table_ok_def)
  have free: "holds_but_for {hd P} m k' v' = holds_but_for {} m k' v'" for k' v'
    using P unfolding holds_but_for_def by blast
  have "cuckoo_map (shift P (k, Some v) m) k' = Some v' \<longleftrightarrow> ((cuckoo_map m)(k \<mapsto> v)) k' = Some v'" for k' v'
    using shift_holds [OF buckets_sized, of P k v k' v'] P assms(2,3)
    by (auto simp: holds_cuckoo_map [OF ok, symmetric] holds_cuckoo_map [OF assms(1), symmetric] free)
      (simp_all add: holds_cuckoo_map [OF assms(1)])
  then have "cuckoo_map (shift P (k, Some v) m) = (cuckoo_map m)(k \<mapsto> v)" by (intro ext) (metis option.exhaust)
  moreover have "table_ok m' = table_ok (shift P (k, Some v) m)" "cuckoo_map m' = cuckoo_map (shift P (k, Some v) m)"
    using same_table_views [OF assms(6)] by simp_all
  ultimately show ?thesis using ok by simp
qed

lemma InsertUnique_spec:
  assumes "cuckoo_ok m" and "k \<noteq> kUnusedSlot"
  shows "\<exists>m' r. InsertUnique k v m = Inr (m', r) \<and> cuckoo_ok m' \<and>
    (if r then cuckoo_map m k = None \<and> cuckoo_map m' = (cuckoo_map m)(k \<mapsto> v)
     else cuckoo_map m' = cuckoo_map m \<and> (cuckoo_map m k \<noteq> None \<or>
       (\<forall>d b. within m {fast_map_to_buckets m k, fast_map_to_buckets m (h2 k)} d b \<longrightarrow> full_bucket m b)))"
proof -
  have ok: "table_ok m" "buckets_sized m" "buffers_ok m" using assms(1) by (simp_all add: cuckoo_ok_def table_ok_def)
  let ?b1 = "fast_map_to_buckets m k" and ?b2 = "fast_map_to_buckets m (h2 k)"
  let ?ls = "List.product [?b1, ?b2] [0..<kSlotsPerBucket]"
  let ?key = "\<lambda>l. fst (cell m (unat (fst l), snd l))"
  have homes: "unat ` {?b1, ?b2} = homes m k" by (simp add: homes_def)
  have inls: "\<forall>l\<in>set ?ls. in_table m (unat (fst l), snd l)"
    using home_buckets [OF ok(2)] by (auto simp: in_table_def)
  have tk: "key_transform k = k" using assms(2) by (simp add: key_transform_def)
  have dup: "(\<exists>l\<in>set ?ls. ?key l = k) \<longleftrightarrow> cuckoo_map m k \<noteq> None" (is "?dup \<longleftrightarrow> _")
  proof
    assume ?dup
    then obtain l where l: "l \<in> set ?ls" "?key l = k" by blast
    with inls assms(2) have "occupied m (unat (fst l), snd l)" by (simp only: occupied_def) blast
    from cuckoo_map_occupied [OF ok(1) this] l(2) show "cuckoo_map m k \<noteq> None" by simp
  next
    assume "cuckoo_map m k \<noteq> None"
    from cuckoo_map_home [OF ok(1) this] obtain b i where
      "b \<in> {?b1, ?b2}" "i < kSlotsPerBucket" "fst (cell m (unat b, i)) = k" by blast
    then show ?dup by (intro bexI [of _ "(b, i)"]) auto
  qed
  note F = find_space_spec [OF ok(2) inls, of k None]
  show ?thesis
  proof (cases "cuckoo_map m k = None")
    case False
    with dup F have "InsertUnique k v m = Inr (m, False)" by (simp add: InsertUnique_def tk)
    with False assms(1) show ?thesis by auto
  next
    case new: True
    show ?thesis
    proof (cases "find (\<lambda>l. ?key l = kUnusedSlot) ?ls")
      case None
      with dup new F have "InsertUnique k v m = CuckooInsert k v ?b1 ?b2 m" by (simp add: InsertUnique_def tk)
      moreover obtain m' r where r: "CuckooInsert k v ?b1 ?b2 m = Inr (m', r)" "insert_ends m {?b1, ?b2} k v (m', r)"
        using CuckooInsert_ends [OF ok(2,3) home_buckets [OF ok(2)] home_buckets [OF ok(2)]] by (metis surj_pair)
      moreover have "if r then table_ok m' \<and> cuckoo_map m' = (cuckoo_map m)(k \<mapsto> v)
        else same_table m m' \<and> (\<forall>d b. within m {?b1, ?b2} d b \<longrightarrow> full_bucket m b)"
        using r(2) inserted_ok [OF ok(1) assms(2) new _ homes] by (auto simp: insert_ends_def)
      ultimately show ?thesis
        using same_table_views [of m m'] new ok(1)
        by (cases r) (auto simp: cuckoo_ok_def insert_ends_def)
    next
      case (Some l)
      then obtain j where "j < length ?ls" "?key (?ls ! j) = kUnusedSlot" "l = ?ls ! j"
        unfolding find_Some_iff by blast
      then have "l \<in> set ?ls" "?key l = kUnusedSlot" by (simp_all only: nth_mem)
      moreover obtain b i where l: "l = (b, i)" by fastforce
      ultimately have l: "l = (b, i)" "(b, i) \<in> set ?ls" "fst (cell m (unat b, i)) = kUnusedSlot" by simp_all
      let ?m = "set_cell (unat b, i) (k, Some v) m"
      have it: "in_table m (unat b, i)" using bspec [OF inls l(2)] by simp
      have "InsertUnique k v m = Inr (?m, True)"
        using dup new F Some l(1) it by (simp add: InsertUnique_def tk InsertInternal_cell ok(2))
      moreover have "path_ok m {?b1, ?b2} [(unat b, i)]"
        using l it by (auto simp: path_ok_def occupied_def)
      note inserted_ok [OF ok(1) assms(2) new this homes, of v ?m]
      moreover have "buffers_ok ?m" using ok(3) by (simp add: buffers_ok_def)
      ultimately show ?thesis using new by (auto simp: cuckoo_ok_def same_table_def)
    qed
  qed
qed

section \<open>Histories\<close>

inductive cuckoo_reachable :: "'v cuckoo \<Rightarrow> bool" where
  New: "cuckoo_reachable (PresizedCuckooMap n)"
| Clear: "cuckoo_reachable m \<Longrightarrow> cuckoo_reachable (cuckoo_Clear n m)"
| Insert: "cuckoo_reachable m \<Longrightarrow> k \<noteq> kUnusedSlot \<Longrightarrow> InsertUnique k v m = Inr (m', r) \<Longrightarrow> cuckoo_reachable m'"

lemma reachable_cuckoo_ok: "cuckoo_reachable m \<Longrightarrow> cuckoo_ok m"
proof (induction rule: cuckoo_reachable.induct)
  case (New n)
  show ?case unfolding PresizedCuckooMap_def by (rule Clear_ok) simp
next
  case (Clear m n)
  then show ?case by (intro Clear_ok) (simp add: cuckoo_ok_def buffers_ok_def)
next
  case (Insert m k v m' r)
  with InsertUnique_spec [of m k v] show ?case by auto
qed

fun insert_all :: "(key_type \<times> 'v) list \<Rightarrow> 'v cuckoo \<Rightarrow> ('v cuckoo \<times> bool list) out" where
  "insert_all [] m = Inr (m, [])"
| "insert_all ((k, v) # kvs) m =
     bnd (InsertUnique k v m) (\<lambda>(m, r). bnd (insert_all kvs m) (\<lambda>(m, rs). Inr (m, r # rs)))"

definition accepted :: "(key_type \<times> 'v) list \<Rightarrow> bool list \<Rightarrow> (key_type \<times> 'v) list" where
  "accepted kvs rs = map fst (filter snd (zip kvs rs))"

lemma insert_all_spec:
  assumes "cuckoo_ok m" and "\<forall>k\<in>fst ` set kvs. k \<noteq> kUnusedSlot"
  shows "\<exists>m' rs. insert_all kvs m = Inr (m', rs) \<and> length rs = length kvs \<and> cuckoo_ok m' \<and>
    cuckoo_map m' = cuckoo_map m ++ map_of (accepted kvs rs) \<and> distinct (map fst (accepted kvs rs)) \<and>
    fst ` set (accepted kvs rs) \<inter> dom (cuckoo_map m) = {}"
  using assms
proof (induction kvs arbitrary: m)
  case Nil
  then show ?case by (simp add: accepted_def)
next
  case (Cons kv kvs)
  obtain k v where kv: "kv = (k, v)" by fastforce
  from InsertUnique_spec [OF Cons.prems(1), of k v] Cons.prems(2) kv obtain m1 r where
    1: "InsertUnique k v m = Inr (m1, r)" "cuckoo_ok m1"
      "if r then cuckoo_map m k = None \<and> cuckoo_map m1 = (cuckoo_map m)(k \<mapsto> v) else cuckoo_map m1 = cuckoo_map m"
    by (auto split: if_splits)
  from Cons.IH [OF 1(2)] Cons.prems(2) obtain m' rs where
    2: "insert_all kvs m1 = Inr (m', rs)" "length rs = length kvs" "cuckoo_ok m'"
      "cuckoo_map m' = cuckoo_map m1 ++ map_of (accepted kvs rs)" "distinct (map fst (accepted kvs rs))"
      "fst ` set (accepted kvs rs) \<inter> dom (cuckoo_map m1) = {}" by auto
  have acc: "accepted (kv # kvs) (r # rs) = (if r then [kv] else []) @ accepted kvs rs" by (simp add: accepted_def)
  have new: "k \<notin> fst ` set (accepted kvs rs)" if r using 1(3) 2(6) that by auto
  have "(cuckoo_map m)(k \<mapsto> v) ++ map_of (accepted kvs rs) = cuckoo_map m ++ (map_of (accepted kvs rs))(k \<mapsto> v)" if r
  proof -
    have "map_of (accepted kvs rs) k = None" using new [OF that] by (simp add: map_of_eq_None_iff)
    then show ?thesis by (intro ext) (simp add: map_add_def split: option.split)
  qed
  with 1(3) 2 new kv acc show ?case
    by (intro exI [of _ m'] exI [of _ "r # rs"]) (auto simp: 1(1) split: if_splits)
qed

section \<open>The properties\<close>

text \<open>
  C20: the table implements a partial map.  Whatever the keys and their hashes, a sequence of
  insertions runs without a fault: no bucket, queue or list is accessed outside its bounds and every
  search for a path ends.  The accepted entries have different keys, and afterwards \<open>Find\<close> returns exactly
  them, wherever they have been moved.
\<close>

theorem cuckoo_refines_map:
  assumes "\<forall>k\<in>fst ` set kvs. k \<noteq> kUnusedSlot"
  shows "\<exists>m rs. insert_all kvs (PresizedCuckooMap n) = Inr (m, rs) \<and> length rs = length kvs \<and>
    distinct (map fst (accepted kvs rs)) \<and>
    (\<forall>k. k \<noteq> kUnusedSlot \<longrightarrow> cuckoo_Find m k = Inr (map_option Some (map_of (accepted kvs rs) k)))"
proof -
  let ?m = "PresizedCuckooMap n :: 'a cuckoo"
  have "cuckoo_ok ?m" by (rule reachable_cuckoo_ok [OF cuckoo_reachable.New])
  from insert_all_spec [OF this assms] obtain m rs where
    1: "insert_all kvs ?m = Inr (m, rs)" "length rs = length kvs" "cuckoo_ok m"
      "cuckoo_map m = cuckoo_map ?m ++ map_of (accepted kvs rs)" "distinct (map fst (accepted kvs rs))" by blast
  have "cuckoo_map ?m = Map.empty" unfolding PresizedCuckooMap_def by (intro ext Clear_empty) simp
  with 1(4) have "cuckoo_map m = map_of (accepted kvs rs)" by simp
  with 1(1-3,5) Find_spec [OF 1(3)] show ?thesis by (intro exI [of _ m] exI [of _ rs]) simp
qed

lemma cuckoo_refines_map_witness:
  "\<exists>m. insert_all [(5, True), (5, False), (9, False)] (PresizedCuckooMap 0) = Inr (m, [True, False, True]) \<and>
     cuckoo_Find m 5 = Inr (Some (Some True)) \<and> cuckoo_Find m 6 = Inr None"
proof -
  let ?kvs = "[(5, True), (5, False), (9, False)] :: (key_type \<times> bool) list"
  have "\<forall>k\<in>fst ` set ?kvs. k \<noteq> kUnusedSlot" by (simp add: kUnusedSlot_def)
  from cuckoo_refines_map [OF this, of 0] obtain m rs where
    1: "insert_all ?kvs (PresizedCuckooMap 0) = Inr (m, rs)"
      "cuckoo_Find m 5 = Inr (map_option Some (map_of (accepted ?kvs rs) 5))"
      "cuckoo_Find m 6 = Inr (map_option Some (map_of (accepted ?kvs rs) 6))"
    unfolding kUnusedSlot_def by auto
  have "map_sum id snd (insert_all ?kvs (PresizedCuckooMap 0)) = Inr [True, False, True]" by code_simp
  with 1 show ?thesis by (auto simp: accepted_def)
qed

text \<open>
  C21: an insertion succeeds whenever it can within the search's depth.  If the key is new and some
  bucket that is at most four moves away from the key's two buckets has an unused slot, \<open>InsertUnique\<close>
  returns true and adds the entry.
\<close>

theorem insertion_finds_space:
  assumes "cuckoo_reachable m" and "k \<noteq> kUnusedSlot" and "cuckoo_map m k = None"
    and "within m {fast_map_to_buckets m k, fast_map_to_buckets m (h2 k)} d b" and "\<not> full_bucket m b"
  shows "\<exists>m'. InsertUnique k v m = Inr (m', True) \<and> cuckoo_reachable m' \<and> cuckoo_map m' = (cuckoo_map m)(k \<mapsto> v)"
proof -
  from InsertUnique_spec [OF reachable_cuckoo_ok [OF assms(1)] assms(2), of v] assms(3-5) obtain m' where
    "InsertUnique k v m = Inr (m', True)" "cuckoo_map m' = (cuckoo_map m)(k \<mapsto> v)"
    by (auto split: if_splits)
  with cuckoo_reachable.Insert [OF assms(1,2)] show ?thesis by blast
qed

text \<open>Four entries fill bucket 0, which is both buckets of key 14; the entry of key 1 has to move to bucket 11.\<close>

definition crowded :: "nat cuckoo" where
  "crowded = fst (projr (insert_all [(1, 10), (2, 20), (3, 30), (4, 40)] (PresizedCuckooMap 0)))"

definition crowd :: "(nat cuckoo \<times> bool list) out \<Rightarrow> bool" where
  "crowd res \<longleftrightarrow> (case res of Inl _ \<Rightarrow> False | Inr (m, rs) \<Rightarrow> rs = [True, True, True, True] \<and>
     fast_map_to_buckets m 14 = 0 \<and> fast_map_to_buckets m (h2 14) = 0 \<and> full_bucket m 0 \<and>
     succ_bucket m 0 0 = 11 \<and> \<not> full_bucket m 11 \<and> cuckoo_map m 14 = None \<and> cuckoo_map m 1 = Some 10 \<and>
     occupied m (0, 0) \<and> fst (cell m (0, 0)) = 1)"

lemma crowded_state:
  "insert_all [(1, 10), (2, 20), (3, 30), (4, 40)] (PresizedCuckooMap 0) = Inr (crowded, [True, True, True, True])"
  "fast_map_to_buckets crowded 14 = 0" "fast_map_to_buckets crowded (h2 14) = 0" "full_bucket crowded 0"
  "succ_bucket crowded 0 0 = 11" "\<not> full_bucket crowded 11" "cuckoo_map crowded 14 = None"
  "cuckoo_map crowded 1 = Some 10" "occupied crowded (0, 0)" "fst (cell crowded (0, 0)) = 1"
proof -
  have "crowd (insert_all [(1, 10), (2, 20), (3, 30), (4, 40)] (PresizedCuckooMap 0))" by code_simp
  then show "insert_all [(1, 10), (2, 20), (3, 30), (4, 40)] (PresizedCuckooMap 0) = Inr (crowded, [True, True, True, True])"
    "fast_map_to_buckets crowded 14 = 0" "fast_map_to_buckets crowded (h2 14) = 0" "full_bucket crowded 0"
    "succ_bucket crowded 0 0 = 11" "\<not> full_bucket crowded 11" "cuckoo_map crowded 14 = None"
    "cuckoo_map crowded 1 = Some 10" "occupied crowded (0, 0)" "fst (cell crowded (0, 0)) = 1"
    unfolding crowd_def crowded_def by (simp_all only: split: sum.splits prod.splits) simp_all
qed

lemma insert_all_reachable:
  "insert_all kvs m = Inr (m', rs) \<Longrightarrow> cuckoo_reachable m \<Longrightarrow> \<forall>k\<in>fst ` set kvs. k \<noteq> kUnusedSlot \<Longrightarrow> cuckoo_reachable m'"
proof (induction kvs arbitrary: m rs)
  case (Cons kv kvs)
  then show ?case
    by (cases kv) (auto simp: bnd_Inr_iff, blast intro: cuckoo_reachable.Insert)
qed simp

lemma crowded_reachable: "cuckoo_reachable crowded"
  by (rule insert_all_reachable [OF crowded_state(1) cuckoo_reachable.New]) (simp add: kUnusedSlot_def)

lemma insertion_finds_space_witness:
  "fast_map_to_buckets crowded 14 = 0 \<and> fast_map_to_buckets crowded (h2 14) = 0 \<and> full_bucket crowded 0 \<and>
   (\<exists>m'. InsertUnique 14 140 crowded = Inr (m', True) \<and> cuckoo_map m' 14 = Some 140 \<and> cuckoo_map m' 1 = Some 10)"
proof -
  note c = crowded_state(2-8)
  have "within crowded {0} (Suc 1) (succ_bucket crowded 0 0)"
    by (rule within.Move [OF within.Root]) (simp_all add: cuckoo_constants)
  then have "within crowded {fast_map_to_buckets crowded 14, fast_map_to_buckets crowded (h2 14)} (Suc 1) 11"
    by (simp only: c insert_absorb2)
  moreover have "(14 :: key_type) \<noteq> kUnusedSlot" "(1 :: key_type) \<noteq> 14" by code_simp+
  ultimately obtain m' where "InsertUnique 14 140 crowded = Inr (m', True)"
    "cuckoo_map m' = (cuckoo_map crowded)(14 \<mapsto> 140)"
    using insertion_finds_space [OF crowded_reachable _ c(6) _ c(5), of "Suc 1" 140] by blast
  with c \<open>1 \<noteq> 14\<close> show ?thesis by (intro conjI exI [of _ m']) simp_all
qed

text \<open>
  C22: the state of the table is well formed in every history: every key lies in one of its two
  buckets, with a value, no key lies in two slots, and the arrays keep their sizes.
\<close>

theorem cuckoo_well_formed:
  assumes "cuckoo_reachable m"
  shows "buckets_sized m \<and> buffers_ok m \<and>
    (\<forall>l. occupied m l \<longrightarrow> snd (cell m l) \<noteq> None \<and> fst l \<in> homes m (fst (cell m l))) \<and>
    (\<forall>l l'. occupied m l \<and> occupied m l' \<and> fst (cell m l) = fst (cell m l') \<longrightarrow> l = l')"
  using reachable_cuckoo_ok [OF assms] unfolding cuckoo_ok_def table_ok_def ok_but_for_def by blast

lemma cuckoo_well_formed_witness:
  "occupied crowded (0, 0) \<and> fst (cell crowded (0, 0)) = 1 \<and> 0 \<in> homes crowded 1"
  using cuckoo_well_formed [OF crowded_reachable] crowded_state(9,10) by fastforce

text \<open>
  Multiplying by hand.  The variant of \<open>multiply_high_u64\<close> for compilers without 128-bit integers
  computes the same as the other one, the high half of the exact product.
\<close>

theorem multiply_high_variants_agree:
  "multiply_high_u64_portable x y = multiply_high_u64 x y \<and>
   unat (multiply_high_u64 x y) = unat x * unat y div 2 ^ 64"
  using multiply_high_portable [of x y] unat_multiply_high [of x y] by (simp add: word_unat_eq_iff)

section \<open>The key of unused slots\<close>

text \<open>An insertion of any key, \<open>2 ^ 64 - 1\<close> included, either leaves the table alone or moves entries along a path.\<close>

lemma InsertUnique_path:
  fixes k defines "b1 m \<equiv> fast_map_to_buckets m (key_transform k)" and "b2 m \<equiv> fast_map_to_buckets m (h2 (key_transform k))"
  assumes "buckets_sized m" and "buffers_ok m"
  shows "\<exists>m' r. InsertUnique k v m = Inr (m', r) \<and> (if r
     then \<exists>P. path_ok m {b1 m, b2 m} P \<and> same_table (shift P (key_transform k, Some v) m) m' else same_table m m')"
proof -
  let ?ls = "List.product [b1 m, b2 m] [0..<kSlotsPerBucket]"
  let ?key = "\<lambda>l. fst (cell m (unat (fst l), snd l))"
  note b = home_buckets [OF assms(3)]
  have inls: "\<forall>l\<in>set ?ls. in_table m (unat (fst l), snd l)"
    using b by (auto simp: in_table_def b1_def b2_def)
  note F = find_space_spec [OF assms(3) inls, of k None]
  have same: "same_table m m" by (simp add: same_table_def)
  show ?thesis
  proof (cases "\<exists>l\<in>set ?ls. ?key l = k")
    case True
    then have "find_space m k ?ls None = Inr None" by (simp only: F) simp
    then have "InsertUnique k v m = Inr (m, False)"
      unfolding InsertUnique_def Let_def b1_def b2_def by simp
    with same show ?thesis by (intro exI conjI) (assumption, simp)
  next
    case new: False
    show ?thesis
    proof (cases "find (\<lambda>l. ?key l = kUnusedSlot) ?ls")
      case None
      with new have "find_space m k ?ls None = Inr (Some None)" by (simp only: F) simp
      then have "InsertUnique k v m = CuckooInsert (key_transform k) v (b1 m) (b2 m) m"
        unfolding InsertUnique_def Let_def b1_def b2_def by simp
      moreover have "unat (b1 m) < unat (ck_num_buckets m)" "unat (b2 m) < unat (ck_num_buckets m)"
        using b by (simp_all add: b1_def b2_def)
      from CuckooInsert_ends [OF assms(3,4) this, of "key_transform k" v] obtain r' where
        "CuckooInsert (key_transform k) v (b1 m) (b2 m) m = Inr r'" "insert_ends m {b1 m, b2 m} (key_transform k) v r'" by blast
      ultimately show ?thesis by (cases r') (auto simp: insert_ends_def split: if_splits)
    next
      case (Some l)
      then obtain j where "j < length ?ls" "?key (?ls ! j) = kUnusedSlot" "l = ?ls ! j"
        unfolding find_Some_iff by blast
      then have l: "l \<in> set ?ls" "?key l = kUnusedSlot" by (simp_all only: nth_mem)
      obtain c i where ci: "l = (c, i)" by fastforce
      have it: "in_table m (unat c, i)" using bspec [OF inls l(1)] ci by simp
      from new Some ci have "find_space m k ?ls None = Inr (Some (Some (c, i)))" by (simp only: F) simp
      then have "InsertUnique k v m = Inr (set_cell (unat c, i) (key_transform k, Some v) m, True)"
        unfolding InsertUnique_def Let_def b1_def b2_def using it by (simp add: InsertInternal_cell assms(3))
      moreover have "path_ok m {b1 m, b2 m} [(unat c, i)]"
        using l ci it by (auto simp: path_ok_def occupied_def)
      moreover have "same_table (shift [(unat c, i)] (key_transform k, Some v) m) (set_cell (unat c, i) (key_transform k, Some v) m)"
        by (simp add: same_table_def)
      ultimately show ?thesis by (intro exI conjI) (assumption, simp only: if_True, blast)
    qed
  qed
qed

lemma transformed_key: "key_transform k \<noteq> kUnusedSlot"
  by (simp add: key_transform_def kUnusedSlot_def)

lemma path_cells:
  assumes "buckets_sized m" and "path_ok m roots P" and "same_table (shift P (k, Some v) m) m'" and "k \<noteq> kUnusedSlot"
  shows "cell m' (last P) = (k, Some v)" and "l \<notin> set P \<Longrightarrow> cell m' l = cell m l"
    and "l \<in> set P \<Longrightarrow> fst (cell m' l) \<noteq> kUnusedSlot"
  using assms(2,4) shift_cells(1) [OF assms(1), of P "(k, Some v)"] shift_cells(2,3) [OF assms(1), of P "(k, Some v)" l]
    same_table_simps [OF assms(3)]
  unfolding path_ok_def by simp_all

text \<open>A slot without a key never had a value.\<close>

lemma unused_slot_no_value:
  assumes "cuckoo_reachable m"
  shows "in_table m l \<Longrightarrow> fst (cell m l) = kUnusedSlot \<Longrightarrow> snd (cell m l) = None"
  using assms
proof (induction arbitrary: l rule: cuckoo_reachable.induct)
  case (New n)
  then show ?case using cuckoo_cleared unfolding PresizedCuckooMap_def by fastforce
next
  case (Clear m n)
  then show ?case using cuckoo_cleared by fastforce
next
  case (Insert m k v m' r)
  from reachable_cuckoo_ok [OF Insert.hyps(1)] have ok: "buckets_sized m" "buffers_ok m"
    by (simp_all add: cuckoo_ok_def table_ok_def)
  from InsertUnique_path [OF ok, of k v] Insert.hyps(3) have path: "if r then \<exists>P. path_ok m
      {fast_map_to_buckets m (key_transform k), fast_map_to_buckets m (h2 (key_transform k))} P \<and>
      same_table (shift P (key_transform k, Some v) m) m' else same_table m m'" by auto
  show ?case
  proof (cases r)
    case True
    with path obtain P where P: "path_ok m {fast_map_to_buckets m (key_transform k), fast_map_to_buckets m (h2 (key_transform k))} P"
      "same_table (shift P (key_transform k, Some v) m) m'" by auto
    note cells = path_cells [OF ok(1) P transformed_key]
    have "in_table m l"
      using Insert.prems(1) P shift_table [OF ok(1), of P] same_table_simps [OF P(2)] by (simp add: path_ok_def)
    moreover have "l \<notin> set P" using cells(3) [of l] Insert.prems(2) by blast
    ultimately show ?thesis using cells(2) [of l] Insert.IH [of l] Insert.prems(2) by simp
  next
    case False
    with path have "same_table m m'" by simp
    from same_table_simps [OF this] Insert.IH [of l] Insert.prems show ?thesis by simp
  qed
qed

lemma unused_key_homes:
  "key_transform kUnusedSlot = 0" "fast_map_to_buckets m 0 = 0" "h2 0 = 0"
  by (simp_all add: key_transform_def kUnusedSlot_def fast_map_to_buckets_def word_unat_eq_iff unat_multiply_high h2_def)

lemma Find_unused:
  assumes "buckets_sized m"
  shows "cuckoo_Find m kUnusedSlot =
     Inr (map_option (\<lambda>i. snd (cell m (0, i))) (find (\<lambda>i. fst (cell m (0, i)) = kUnusedSlot) [0..<kSlotsPerBucket]))"
proof -
  have "unat (0 :: 64 word) < unat (ck_num_buckets m)" using home_buckets [OF assms, of 0] by (simp add: unused_key_homes)
  from FindInBucket_spec [OF assms this, of kUnusedSlot] show ?thesis
    by (cases "find (\<lambda>i. fst (cell m (0, i)) = kUnusedSlot) [0..<kSlotsPerBucket]")
      (simp_all add: cuckoo_Find_def Let_def unused_key_homes)
qed

lemma Find_unused_full: "buckets_sized m \<Longrightarrow> full_bucket m 0 \<Longrightarrow> cuckoo_Find m kUnusedSlot = Inr None"
  by (simp add: Find_unused find_None_iff full_bucket_def)

lemma insert_unused_full:
  assumes ok: "buckets_sized m" "buffers_ok m" and full: "full_bucket m 0"
  shows "\<exists>m' r. InsertUnique kUnusedSlot v m = Inr (m', r) \<and> full_bucket m' 0 \<and> buckets_sized m' \<and>
     (if r then \<exists>i<kSlotsPerBucket. cell m' (0, i) = (0, Some v) else cuckoo_map m' = cuckoo_map m)"
proof -
  from InsertUnique_path [OF ok, of kUnusedSlot v, unfolded unused_key_homes insert_absorb2]
  obtain m' r where ins: "InsertUnique kUnusedSlot v m = Inr (m', r)"
    "if r then \<exists>P. path_ok m {0} P \<and> same_table (shift P (0, Some v) m) m' else same_table m m'"
    by blast
  have "full_bucket m' 0 \<and> buckets_sized m' \<and>
      (if r then \<exists>i<kSlotsPerBucket. cell m' (0, i) = (0, Some v) else cuckoo_map m' = cuckoo_map m)"
  proof (cases r)
    case True
    with ins(2) obtain P where P: "path_ok m {0} P" "same_table (shift P (0, Some v) m) m'" by auto
    have "0 \<noteq> kUnusedSlot" using transformed_key [of kUnusedSlot] by (simp add: unused_key_homes)
    note cells = path_cells [OF ok(1) P this]
    have "in_table m (last P)" "fst (last P) = 0" using P(1) by (auto simp: path_ok_def)
    then obtain i where "last P = (0, i)" "i < kSlotsPerBucket" by (cases "last P") (simp add: in_table_def)
    with cells(1) have "\<exists>i<kSlotsPerBucket. cell m' (0, i) = (0, Some v)" by auto
    moreover have "full_bucket m' 0"
      unfolding full_bucket_def using full cells(2,3) by (auto simp: full_bucket_def) (metis)
    moreover have "buckets_sized m'"
      using shift_table [OF ok(1), of P] P same_table_simps [OF P(2)] by (simp add: path_ok_def)
    ultimately show ?thesis using True by simp
  next
    case False
    with ins(2) have "same_table m m'" by simp
    with same_table_simps [OF this] same_table_views [OF this] full ok(1) False show ?thesis
      by (simp add: full_bucket_def)
  qed
  with ins(1) show ?thesis by blast
qed

text \<open>
  C23: the key \<open>2 ^ 64 - 1\<close>.  \<open>key_transform\<close> maps it to 0, a key that can be stored, but \<open>InsertUnique\<close>
  and \<open>Find\<close> compare the slots with the key itself, which marks unused slots.  In every table the
  entry is lost.  While bucket 0 has an unused slot, the insertion is refused as a duplicate of a key
  that was never inserted, and the lookup reports the key as found, with the value of a slot that was
  never written.  When bucket 0 is full the lookup fails, before the insertion and after it; the
  insertion, if it succeeds, stores the value under the key 0.
\<close>

theorem unused_key_never_retrieved:
  assumes "cuckoo_reachable m"
  shows "if full_bucket m 0 then
       cuckoo_Find m kUnusedSlot = Inr None \<and>
       (\<exists>m' r. InsertUnique kUnusedSlot v m = Inr (m', r) \<and> cuckoo_Find m' kUnusedSlot = Inr None \<and>
          (if r then \<exists>i<kSlotsPerBucket. cell m' (0, i) = (0, Some v) else cuckoo_map m' = cuckoo_map m))
     else InsertUnique kUnusedSlot v m = Inr (m, False) \<and> cuckoo_Find m kUnusedSlot = Inr (Some None)"
proof (cases "full_bucket m 0")
  case full: True
  from reachable_cuckoo_ok [OF assms] have ok: "buckets_sized m" "buffers_ok m"
    by (simp_all add: cuckoo_ok_def table_ok_def)
  from insert_unused_full [OF ok full] obtain m' r where "InsertUnique kUnusedSlot v m = Inr (m', r)" "full_bucket m' 0"
    "buckets_sized m'" "if r then \<exists>i<kSlotsPerBucket. cell m' (0, i) = (0, Some v) else cuckoo_map m' = cuckoo_map m" by blast
  with Find_unused_full [OF ok(1) full] Find_unused_full [of m'] show ?thesis
    by (simp only: full if_True) blast
next
  case False
  from reachable_cuckoo_ok [OF assms] have ok: "buckets_sized m" by (simp add: cuckoo_ok_def table_ok_def)
  have in0: "in_table m (0, i)" if "i < kSlotsPerBucket" for i
    using that home_buckets [OF ok, of 0] by (simp add: in_table_def unused_key_homes)
  obtain i where i: "find (\<lambda>i. fst (cell m (0, i)) = kUnusedSlot) [0..<kSlotsPerBucket] = Some i"
    using False by (cases "find (\<lambda>i. fst (cell m (0, i)) = kUnusedSlot) [0..<kSlotsPerBucket]")
      (auto simp: find_None_iff full_bucket_def)
  then have 1: "i < kSlotsPerBucket" "fst (cell m (0, i)) = kUnusedSlot" by (auto simp: find_Some_iff)
  from unused_slot_no_value [OF assms in0 [OF 1(1)] 1(2)] i have "cuckoo_Find m kUnusedSlot = Inr (Some None)"
    by (simp add: Find_unused [OF ok])
  moreover have "find_space m kUnusedSlot (List.product [0, 0] [0..<kSlotsPerBucket]) None = Inr None"
    using 1 in0 by (subst find_space_spec [OF ok]) (auto intro!: bexI [of _ "(0, i)"])
  then have "InsertUnique kUnusedSlot v m = Inr (m, False)"
    unfolding InsertUnique_def Let_def unused_key_homes by simp
  ultimately show ?thesis using False by simp
qed

lemma unused_key_never_retrieved_witness:
  "InsertUnique kUnusedSlot (7 :: nat) (PresizedCuckooMap 0) = Inr (PresizedCuckooMap 0, False) \<and>
   cuckoo_Find (PresizedCuckooMap 0 :: nat cuckoo) kUnusedSlot = Inr (Some None) \<and>
   cuckoo_Find crowded kUnusedSlot = Inr None \<and>
   (\<exists>m' r. InsertUnique kUnusedSlot 7 crowded = Inr (m', r) \<and> cuckoo_Find m' kUnusedSlot = Inr None)"
proof -
  have "\<not> full_bucket (PresizedCuckooMap 0 :: nat cuckoo) 0" by code_simp
  with unused_key_never_retrieved [OF cuckoo_reachable.New [of 0], where v = "7 :: nat"]
    unused_key_never_retrieved [OF crowded_reachable, where v = 7] crowded_state(4) show ?thesis by auto
qed

end
