(* ===== verification/Edit_Distance.thy ===== *)
theory Edit_Distance
  imports Faults
begin

text \<open>
  \<open>core/lib/gtl/edit_distance.h\<close>: the Levenshtein distance of two sequences, computed row by row in one
  work vector.  \<open>operator==\<close> and the comparison \<open>cmp\<close> are parameters.  \<open>to_int\<close> is the conversion to
  \<open>int\<close>; the work vector holds \<open>int64\<close> and starts with zeros, as \<open>InlinedVector\<close> constructs it.
\<close>

section \<open>The code\<close>

definition to_int :: "int \<Rightarrow> int" where
  "to_int x = (x + 2 ^ 31) mod 2 ^ 32 - 2 ^ 31"

definition distance_cell ::
    "('a \<Rightarrow> 'a \<Rightarrow> bool) \<Rightarrow> 'a \<Rightarrow> 'a list \<Rightarrow> nat \<Rightarrow> int list \<times> int \<times> int \<Rightarrow> (int list \<times> int \<times> int) out" where
  "distance_cell cmp x t j st =
     (case st of (scratch, substitution_base_cost, insertion_cost) \<Rightarrow>
        bnd (get t (j - 1)) (\<lambda>y. bnd (get scratch (j - 1)) (\<lambda>above.
        let replacement_cost = (if cmp x y then 0 else 1);
            substitution_cost = to_int (substitution_base_cost + replacement_cost);
            deletion_cost = to_int (above + 1);
            cheapest = min deletion_cost (min insertion_cost substitution_cost) in
        bnd (put scratch (j - 1) cheapest) (\<lambda>scratch.
        Inr (scratch, to_int above, to_int (cheapest + 1))))))"

definition distance_row :: "('a \<Rightarrow> 'a \<Rightarrow> bool) \<Rightarrow> 'a list \<Rightarrow> 'a list \<Rightarrow> nat \<Rightarrow> int list \<Rightarrow> int list out" where
  "distance_row cmp s t i scratch =
     bnd (get s (i - 1)) (\<lambda>x.
     bnd (for_each [1..<length t + 1] (distance_cell cmp x t) (scratch, to_int (int i - 1), to_int (int i + 1)))
       (\<lambda>(scratch, _). Inr scratch))"

definition distance_ordered ::
    "('a \<Rightarrow> 'a \<Rightarrow> bool) \<Rightarrow> ('a \<Rightarrow> 'a \<Rightarrow> bool) \<Rightarrow> 'a list \<Rightarrow> 'a list \<Rightarrow> int out" where
  "distance_ordered eq cmp s t =
     (if length t = 0 then Inr (int (length s))
      else if list_all2 eq s t then Inr 0
      else
        bnd (for_each [1..<length t] (\<lambda>j scratch. put scratch (j - 1) (int j)) (replicate (length t) 0)) (\<lambda>scratch.
        bnd (for_each [1..<length s + 1] (distance_row cmp s t) scratch) (\<lambda>scratch.
        get scratch (length t - 1))))"

definition LevenshteinDistance ::
    "('a \<Rightarrow> 'a \<Rightarrow> bool) \<Rightarrow> ('a \<Rightarrow> 'a \<Rightarrow> bool) \<Rightarrow> 'a list \<Rightarrow> 'a list \<Rightarrow> int out" where
  "LevenshteinDistance eq cmp s t =
     (if length s < length t then distance_ordered eq cmp t s else distance_ordered eq cmp s t)"

section \<open>Edits\<close>

text \<open>
  \<open>edits cmp s t n\<close>: \<open>n\<close> insertions, deletions and substitutions turn \<open>s\<close> into \<open>t\<close>, where an element may
  stay if \<open>cmp\<close> takes it for the one it becomes.
\<close>

inductive edits :: "('a \<Rightarrow> 'a \<Rightarrow> bool) \<Rightarrow> 'a list \<Rightarrow> 'a list \<Rightarrow> nat \<Rightarrow> bool" for cmp where
  Done: "edits cmp [] [] 0"
| Insertion: "edits cmp s t n \<Longrightarrow> edits cmp s (y # t) (Suc n)"
| Deletion: "edits cmp s t n \<Longrightarrow> edits cmp (x # s) t (Suc n)"
| Substitution: "edits cmp s t n \<Longrightarrow> edits cmp (x # s) (y # t) (Suc n)"
| Keep: "cmp x y \<Longrightarrow> edits cmp s t n \<Longrightarrow> edits cmp (x # s) (y # t) n"

inductive_cases edits_NilE: "edits cmp [] t n"
inductive_cases edits_Nil2E: "edits cmp s [] n"
inductive_cases edits_ConsE: "edits cmp (x # s) (y # t) n"

lemma edits_flip: "edits cmp s t n \<Longrightarrow> edits (\<lambda>x y. cmp y x) t s n"
  by (induction rule: edits.induct) (auto intro: edits.intros)

lemma edits_snoc:
  "edits cmp s t n \<Longrightarrow> edits cmp s (t @ [y]) (Suc n)"
  "edits cmp s t n \<Longrightarrow> edits cmp (s @ [x]) t (Suc n)"
  "edits cmp s t n \<Longrightarrow> edits cmp (s @ [x]) (t @ [y]) (Suc n)"
  "edits cmp s t n \<Longrightarrow> cmp x y \<Longrightarrow> edits cmp (s @ [x]) (t @ [y]) n"
  by (induction rule: edits.induct) (auto intro: edits.intros)

lemma edits_rev: "edits cmp s t n \<Longrightarrow> edits cmp (rev s) (rev t) n"
  by (induction rule: edits.induct) (auto intro: edits.Done edits_snoc)

text \<open>The recursion for the least number of edits, on prefixes of lengths \<open>i\<close> and \<open>j\<close>.\<close>

fun cost :: "('a \<Rightarrow> 'a \<Rightarrow> bool) \<Rightarrow> 'a list \<Rightarrow> 'a list \<Rightarrow> nat \<Rightarrow> nat \<Rightarrow> nat" where
  "cost cmp s t 0 j = j"
| "cost cmp s t (Suc i) 0 = Suc i"
| "cost cmp s t (Suc i) (Suc j) =
     min (cost cmp s t i (Suc j) + 1)
       (min (cost cmp s t (Suc i) j + 1) (cost cmp s t i j + (if cmp (s ! i) (t ! j) then 0 else 1)))"

lemma cost_0: "cost cmp s t i 0 = i"
  by (cases i) simp_all

lemma cost_le: "cost cmp s t i j \<le> max i j"
  by (induction cmp s t i j rule: cost.induct) auto

lemma edits_replicate: "edits cmp [] t (length t)" "edits cmp s [] (length s)"
  by (induction t, auto intro: edits.intros) (induction s, auto intro: edits.intros)

lemma cost_edits:
  "i \<le> length s \<Longrightarrow> j \<le> length t \<Longrightarrow> edits cmp (take i s) (take j t) (cost cmp s t i j)"
proof (induction cmp s t i j rule: cost.induct)
  case (1 cmp s t j)
  then show ?case using edits_replicate(1) [of cmp "take j t"] by simp
next
  case (2 cmp s t i)
  then show ?case using edits_replicate(2) [of cmp "take (Suc i) s"] by simp
next
  case (3 cmp s t i j)
  let ?s = "take i s" and ?t = "take j t"
  have st: "take (Suc i) s = ?s @ [s ! i]" "take (Suc j) t = ?t @ [t ! j]"
    using 3 by (simp_all add: take_Suc_conv_app_nth)
  have "edits cmp (?s @ [s ! i]) (?t @ [t ! j]) (cost cmp s t i (Suc j) + 1)"
    using edits_snoc(2) [OF 3(1)] 3(4,5) st by simp
  moreover have "edits cmp (?s @ [s ! i]) (?t @ [t ! j]) (cost cmp s t (Suc i) j + 1)"
    using edits_snoc(1) [OF 3(2)] 3(4,5) st by simp
  moreover have "edits cmp (?s @ [s ! i]) (?t @ [t ! j]) (cost cmp s t i j + (if cmp (s ! i) (t ! j) then 0 else 1))"
    using edits_snoc(3,4) [OF 3(3)] 3(4,5) by simp
  ultimately show ?case unfolding st cost.simps min_def by presburger
qed

lemma edits_length: "edits cmp s t n \<Longrightarrow> length t \<le> length s + n \<and> length s \<le> length t + n"
  by (induction rule: edits.induct) auto

lemma cost_least:
  "edits cmp (rev (take i s)) (rev (take j t)) n \<Longrightarrow> i \<le> length s \<Longrightarrow> j \<le> length t \<Longrightarrow> cost cmp s t i j \<le> n"
proof (induction cmp s t i j arbitrary: n rule: cost.induct)
  case (1 cmp s t j)
  then show ?case using edits_length by fastforce
next
  case (2 cmp s t i)
  then show ?case using edits_length by fastforce
next
  case (3 cmp s t i j)
  have st: "rev (take (Suc i) s) = s ! i # rev (take i s)" "rev (take (Suc j) t) = t ! j # rev (take j t)"
    using 3 by (simp_all add: take_Suc_conv_app_nth)
  note IH = 3(1,2,3) [unfolded st]
  from 3(4) [unfolded st] show ?case
    by (rule edits_ConsE) (use IH 3(5,6) in \<open>fastforce simp: min_le_iff_disj\<close>)+
qed

lemma cost_is_least:
  "edits cmp s t (cost cmp s t (length s) (length t)) \<and> (\<forall>n. edits cmp s t n \<longrightarrow> cost cmp s t (length s) (length t) \<le> n)"
  using cost_edits [of "length s" s "length t" t cmp] cost_least [of cmp "length s" s "length t" t] edits_rev [of cmp s t]
  by simp

section \<open>What the work vector holds\<close>

text \<open>
  The comments in the code say that row \<open>i\<close> of the work vector is \<open>cost i j\<close> for \<open>0 < j \<le> n\<close>.  That is not so
  for the last column: the initialisation leaves out its last element, which stays zero.  The last
  column holds \<open>row_cost\<close> instead, and in the last row that is the cost, because \<open>s\<close> is not
  shorter than \<open>t\<close>.
\<close>

definition row_cost :: "('a \<Rightarrow> 'a \<Rightarrow> bool) \<Rightarrow> 'a list \<Rightarrow> 'a list \<Rightarrow> nat \<Rightarrow> nat \<Rightarrow> nat" where
  "row_cost cmp s t i j = (if j = length t then min (cost cmp s t i j) i else cost cmp s t i j)"

lemma row_cost_0: "t \<noteq> [] \<Longrightarrow> row_cost cmp s t i 0 = i"
  by (simp add: row_cost_def cost_0)

lemma row_cost_step:
  "j < length t \<Longrightarrow> row_cost cmp s t (Suc i) (Suc j) =
     min (row_cost cmp s t i (Suc j) + 1)
       (min (row_cost cmp s t (Suc i) j + 1) (row_cost cmp s t i j + (if cmp (s ! i) (t ! j) then 0 else 1)))"
proof (cases "Suc j = length t")
  case True
  then have "cost cmp s t (Suc i) (length t) = min (cost cmp s t i (length t) + 1)
      (min (cost cmp s t (Suc i) j + 1) (cost cmp s t i j + (if cmp (s ! i) (t ! j) then 0 else 1)))"
    using cost.simps(3) [of cmp s t i j] by simp
  with True show ?thesis unfolding row_cost_def by (simp add: min_def)
qed (simp add: row_cost_def)

lemma row_cost_le: "length t \<le> length s \<Longrightarrow> i \<le> length s \<Longrightarrow> j \<le> length t \<Longrightarrow> row_cost cmp s t i j \<le> length s"
  using cost_le [of cmp s t i j] by (auto simp: row_cost_def)

lemma row_cost_last: "length t \<le> length s \<Longrightarrow> row_cost cmp s t (length s) (length t) = cost cmp s t (length s) (length t)"
  using cost_le [of cmp s t "length s" "length t"] by (simp add: row_cost_def)

lemma to_int_small: "0 \<le> x \<Longrightarrow> x < 2 ^ 31 \<Longrightarrow> to_int x = x"
  by (simp add: to_int_def)

lemma for_each_from_1: "for_each [1..<n + 1] f = for_each [0..<n] (\<lambda>i. f (Suc i))"
  using for_each_map [of Suc "[0..<n]" f] by (simp add: map_Suc_upt fun_eq_iff)

definition row_ok :: "('a \<Rightarrow> 'a \<Rightarrow> bool) \<Rightarrow> 'a list \<Rightarrow> 'a list \<Rightarrow> nat \<Rightarrow> int list \<Rightarrow> bool" where
  "row_ok cmp s t i scratch \<longleftrightarrow>
     length scratch = length t \<and> (\<forall>j<length t. scratch ! j = int (row_cost cmp s t i (Suc j)))"

lemma distance_row_spec:
  assumes "length t \<le> length s" and "t \<noteq> []" and "length s + 2 < 2 ^ 31" and "i < length s" and "row_ok cmp s t i scratch"
  shows "\<exists>scratch'. distance_row cmp s t (Suc i) scratch = Inr scratch' \<and> row_ok cmp s t (Suc i) scratch'"
proof -
  let ?C = "\<lambda>i j. int (row_cost cmp s t i j)"
  have small: "?C k j + 1 < 2 ^ 31" if "k \<le> length s" "j \<le> length t" for k j
    using row_cost_le [OF assms(1) that, of cmp] assms(3) by simp
  let ?P = "\<lambda>q (scr, base, ins). length scr = length t \<and> (\<forall>j<q. scr ! j = ?C (Suc i) (Suc j)) \<and>
      (\<forall>j. q \<le> j \<and> j < length t \<longrightarrow> scr ! j = ?C i (Suc j)) \<and> base = ?C i q \<and> ins = ?C (Suc i) q + 1"
  have "to_int (int (Suc i) - 1) = int i" "to_int (int (Suc i) + 1) = int i + 2"
    using assms(3,4) by (simp_all add: to_int_small)
  then have start: "?P 0 (scratch, to_int (int (Suc i) - 1), to_int (int (Suc i) + 1))"
    using assms(2,5) by (simp add: row_ok_def row_cost_0)
  have "\<exists>r. for_each [0..<length t] (\<lambda>j. distance_cell cmp (s ! i) t (Suc j))
        (scratch, to_int (int (Suc i) - 1), to_int (int (Suc i) + 1)) = Inr r \<and> ?P (length t) r"
  proof (rule for_each_rule [where P = ?P, OF start])
    fix q st
    assume q: "q < length t" and P: "?P q st"
    obtain scr base ins where st: "st = (scr, base, ins)" by (cases st)
    have "distance_cell cmp (s ! i) t (Suc q) st =
        Inr (scr[q := ?C (Suc i) (Suc q)], ?C i (Suc q), ?C (Suc i) (Suc q) + 1)"
    proof -
      let ?d = "if cmp (s ! i) (t ! q) then 0 else 1"
      have facts: "scr ! q = ?C i (Suc q)" "base = ?C i q" "ins = ?C (Suc i) q + 1" "q < length scr"
        using q P st by simp_all
      have "?C i q + ?d < 2 ^ 31" using small [of i q] q assms(4) by simp
      moreover have "?C i (Suc q) + 1 < 2 ^ 31" "?C (Suc i) (Suc q) + 1 < 2 ^ 31" using small q assms(4) by simp_all
      moreover have "?C (Suc i) (Suc q) = min (?C i (Suc q) + 1) (min (?C (Suc i) q + 1) (?C i q + ?d))"
        unfolding row_cost_step [OF q] min_def by auto
      ultimately show ?thesis using q facts
        by (simp add: distance_cell_def st to_int_small Let_def del: of_nat_Suc)
    qed
    moreover have "?P (Suc q) (scr[q := ?C (Suc i) (Suc q)], ?C i (Suc q), ?C (Suc i) (Suc q) + 1)"
      using q P st by (auto simp: nth_list_update less_Suc_eq)
    ultimately show "\<exists>s'. distance_cell cmp (s ! i) t (Suc q) st = Inr s' \<and> ?P (Suc q) s'" by blast
  qed
  then obtain scr base ins where "for_each [0..<length t] (\<lambda>j. distance_cell cmp (s ! i) t (Suc j))
        (scratch, to_int (int (Suc i) - 1), to_int (int (Suc i) + 1)) = Inr (scr, base, ins)"
      "?P (length t) (scr, base, ins)" by auto
  with assms(4) show ?thesis
    unfolding distance_row_def for_each_from_1 by (intro exI [of _ scr]) (simp add: row_ok_def)
qed

lemma distance_ordered_spec:
  assumes "length t \<le> length s" and "length s + 2 < 2 ^ 31" and "\<And>x y. eq x y \<Longrightarrow> cmp x y"
  shows "distance_ordered eq cmp s t = Inr (int (cost cmp s t (length s) (length t)))"
proof (cases "t = []")
  case True
  then show ?thesis by (simp add: distance_ordered_def cost_0)
next
  case False
  let ?P = "\<lambda>q scr. length scr = length t \<and> (\<forall>j<q. scr ! j = int (Suc j)) \<and>
      (\<forall>j. q \<le> j \<and> j < length t \<longrightarrow> scr ! j = 0)"
  obtain n where n: "length t = Suc n" using False by (cases t) auto
  have "?P 0 (replicate (length t) 0)" by simp
  then have "\<exists>scr. for_each [0..<n] (\<lambda>j scratch. put scratch (Suc j - 1) (int (Suc j))) (replicate (length t) 0) = Inr scr \<and> ?P n scr"
    by (rule for_each_rule [where P = ?P]) (use n in \<open>auto simp: nth_list_update less_Suc_eq\<close>)
  then obtain scr where scr: "for_each [1..<length t] (\<lambda>j scratch. put scratch (j - 1) (int j)) (replicate (length t) 0) = Inr scr"
    "?P n scr" using for_each_from_1 [of n "\<lambda>j scratch. put scratch (j - 1) (int j)"] n by auto
  then have "row_ok cmp s t 0 scr" using n by (auto simp: row_ok_def row_cost_def less_Suc_eq)
  then have "\<exists>scr'. for_each [0..<length s] (\<lambda>i. distance_row cmp s t (Suc i)) scr = Inr scr' \<and> row_ok cmp s t (length s) scr'"
    by (rule for_each_rule [where P = "row_ok cmp s t"]) (rule distance_row_spec [OF assms(1) False assms(2)])
  then obtain scr' where scr': "for_each [1..<length s + 1] (distance_row cmp s t) scr = Inr scr'" "row_ok cmp s t (length s) scr'"
    unfolding for_each_from_1 by blast
  have last: "get scr' (length t - 1) = Inr (int (cost cmp s t (length s) (length t)))"
    using scr'(2) n row_cost_last [OF assms(1), of cmp] by (simp add: row_ok_def)
  show ?thesis
  proof (cases "list_all2 eq s t")
    case True
    then have "list_all2 cmp s t" by (rule list_all2_mono) (rule assms(3))
    then have "edits cmp s t 0" by (induction rule: list_all2_induct) (auto intro: edits.intros)
    then have "cost cmp s t (length s) (length t) = 0" using cost_is_least by force
    with True False show ?thesis by (simp add: distance_ordered_def)
  next
    case different: False
    with False scr(1) scr'(1) last show ?thesis by (simp add: distance_ordered_def)
  qed
qed

section \<open>The property\<close>

text \<open>
  C39: the distance.  If \<open>cmp\<close> is symmetric and holds of equal elements, and the sequences are short enough
  for \<open>int\<close>, the function returns the least number of insertions, deletions and substitutions that turn
  one sequence into the other.
\<close>

theorem levenshtein_distance_least:
  assumes "\<And>x y. eq x y \<Longrightarrow> cmp x y" and "\<And>x y. cmp x y = cmp y x"
    and "length s + 2 < 2 ^ 31" and "length t + 2 < 2 ^ 31"
  shows "\<exists>n. LevenshteinDistance eq cmp s t = Inr (int n) \<and> edits cmp s t n \<and> (\<forall>m. edits cmp s t m \<longrightarrow> n \<le> m)"
proof (cases "length s < length t")
  case True
  have flip: "edits cmp t s n \<longleftrightarrow> edits cmp s t n" for n
    using edits_flip [of cmp s t n] edits_flip [of cmp t s n] assms(2) by auto
  from True distance_ordered_spec [of s t eq cmp] assms(1,4) cost_is_least [of cmp t s] flip
  show ?thesis by (auto simp: LevenshteinDistance_def)
next
  case False
  with distance_ordered_spec [of t s eq cmp] assms(1,3) cost_is_least [of cmp s t]
  show ?thesis by (auto simp: LevenshteinDistance_def)
qed

lemma levenshtein_distance_least_witness:
  "LevenshteinDistance (=) (=) ''hi'' ''bye'' = Inr 3 \<and> edits (=) ''hi'' ''bye'' 3 \<and> \<not> edits (=) ''hi'' ''bye'' 2"
proof -
  have d: "LevenshteinDistance (=) (=) ''hi'' ''bye'' = Inr 3" by code_simp
  obtain n where n: "LevenshteinDistance (=) (=) ''hi'' ''bye'' = Inr (int n)" "edits (=) ''hi'' ''bye'' n"
    and least: "\<And>m. edits (=) ''hi'' ''bye'' m \<Longrightarrow> n \<le> m"
    using levenshtein_distance_least [of "(=)" "(=)" "''hi''" "''bye''"] by auto
  from d n(1) have "n = 3" by simp
  with d n(2) least [of 2] show ?thesis by auto
qed

text \<open>The order of the arguments matters for a comparison that is not symmetric, in spite of the comment.\<close>

lemma asymmetric_comparison:
  "LevenshteinDistance (=) (\<le>) [1 :: nat] [2] = Inr 0" "LevenshteinDistance (=) (\<le>) [2 :: nat] [1] = Inr 1"
  by code_simp+

text \<open>The last column: after one row it holds 1 where the comments promise the cost 2.\<close>

lemma work_vector_not_cost:
  "distance_row (=) ''abc'' ''xy'' 1 [1, 0] = Inr [1, 1] \<and> cost (=) ''abc'' ''xy'' 1 2 = 2"
  by code_simp

end
