(* ===== verification/Tensor_Format.thy ===== *)
theory Tensor_Format
  imports Prelude
begin

text \<open>
  \<open>core/util/tensor_format.h\<close>: where the batch, the channels and the spatial dimensions of a tensor or
  of a convolution filter are, in each of the memory formats, and the conversion of shapes from one
  format to another.

  A \<open>TensorShape\<close> is the list of its sizes.  Its constructor is in a file that is not part of the
  repository: it is the parameter \<open>make_shape\<close> of the functions that end in it.  \<open>None\<close> is
  \<open>LOG(FATAL)\<close>, a failing \<open>CHECK\<close> or \<open>DCHECK\<close>, or an access outside a list.  The template argument
  \<open>NUM_SPATIAL_DIMS\<close> is an ordinary one.
\<close>

section \<open>Formats\<close>

datatype TensorFormat =
  FORMAT_NHWC | FORMAT_NCHW | FORMAT_NCHW_VECT_C | FORMAT_NHWC_VECT_W | FORMAT_HWNC | FORMAT_HWCN

datatype FilterTensorFormat = FORMAT_HWIO | FORMAT_OIHW | FORMAT_OHWI | FORMAT_OIHW_VECT_I

fun GetTensorSpatialDims :: "int \<Rightarrow> TensorFormat \<Rightarrow> int" where
  "GetTensorSpatialDims num_dims format =
     (case format of
        FORMAT_NHWC \<Rightarrow> num_dims - 2 | FORMAT_NCHW \<Rightarrow> num_dims - 2
      | FORMAT_HWNC \<Rightarrow> num_dims - 2 | FORMAT_HWCN \<Rightarrow> num_dims - 2
      | FORMAT_NCHW_VECT_C \<Rightarrow> num_dims - 3 | FORMAT_NHWC_VECT_W \<Rightarrow> num_dims - 3)"

fun GetFilterTensorSpatialDims :: "int \<Rightarrow> FilterTensorFormat \<Rightarrow> int" where
  "GetFilterTensorSpatialDims num_dims format = (if format = FORMAT_OIHW_VECT_I then num_dims - 3 else num_dims - 2)"

fun GetTensorDimsFromSpatialDims :: "int \<Rightarrow> TensorFormat \<Rightarrow> int" where
  "GetTensorDimsFromSpatialDims num_spatial_dims format =
     (case format of
        FORMAT_NHWC \<Rightarrow> num_spatial_dims + 2 | FORMAT_NCHW \<Rightarrow> num_spatial_dims + 2
      | FORMAT_HWNC \<Rightarrow> num_spatial_dims + 2 | FORMAT_HWCN \<Rightarrow> num_spatial_dims + 2
      | FORMAT_NCHW_VECT_C \<Rightarrow> num_spatial_dims + 3 | FORMAT_NHWC_VECT_W \<Rightarrow> num_spatial_dims + 3)"

fun GetFilterTensorDimsFromSpatialDims :: "int \<Rightarrow> FilterTensorFormat \<Rightarrow> int" where
  "GetFilterTensorDimsFromSpatialDims num_spatial_dims format =
     (if format = FORMAT_OIHW_VECT_I then num_spatial_dims + 3 else num_spatial_dims + 2)"

section \<open>Indices of the dimensions\<close>

fun GetTensorBatchDimIndex :: "int \<Rightarrow> TensorFormat \<Rightarrow> int" where
  "GetTensorBatchDimIndex num_dims format =
     (case format of FORMAT_HWNC \<Rightarrow> num_dims - 2 | FORMAT_HWCN \<Rightarrow> num_dims - 1 | _ \<Rightarrow> 0)"

fun GetTensorFeatureDimIndex :: "int \<Rightarrow> TensorFormat \<Rightarrow> int" where
  "GetTensorFeatureDimIndex num_dims format =
     (case format of
        FORMAT_NHWC \<Rightarrow> num_dims - 1 | FORMAT_HWNC \<Rightarrow> num_dims - 1
      | FORMAT_NHWC_VECT_W \<Rightarrow> num_dims - 2 | FORMAT_HWCN \<Rightarrow> num_dims - 2
      | FORMAT_NCHW \<Rightarrow> 1 | FORMAT_NCHW_VECT_C \<Rightarrow> 1)"

definition GetTensorInnerFeatureDimIndex :: "int \<Rightarrow> TensorFormat \<Rightarrow> int option" where
  "GetTensorInnerFeatureDimIndex num_dims format = do { _ \<leftarrow> check (format = FORMAT_NCHW_VECT_C); Some (num_dims - 1) }"

definition GetTensorInnerWidthDimIndex :: "int \<Rightarrow> TensorFormat \<Rightarrow> int option" where
  "GetTensorInnerWidthDimIndex num_dims format = do { _ \<leftarrow> check (format = FORMAT_NHWC_VECT_W); Some (num_dims - 1) }"

definition GetTensorSpatialDimIndex :: "int \<Rightarrow> TensorFormat \<Rightarrow> int \<Rightarrow> int option" where
  "GetTensorSpatialDimIndex num_dims format spatial_dim = do {
     _ \<leftarrow> check (0 \<le> spatial_dim \<and> spatial_dim < GetTensorSpatialDims num_dims format);
     Some (case format of
        FORMAT_NHWC \<Rightarrow> spatial_dim + 1 | FORMAT_NHWC_VECT_W \<Rightarrow> spatial_dim + 1
      | FORMAT_NCHW \<Rightarrow> spatial_dim + 2 | FORMAT_NCHW_VECT_C \<Rightarrow> spatial_dim + 2
      | FORMAT_HWNC \<Rightarrow> spatial_dim | FORMAT_HWCN \<Rightarrow> spatial_dim) }"

definition GetFilterTensorSpatialDimIndex :: "int \<Rightarrow> FilterTensorFormat \<Rightarrow> int \<Rightarrow> int option" where
  "GetFilterTensorSpatialDimIndex num_dims format dim = do {
     _ \<leftarrow> check (0 \<le> dim \<and> dim < GetFilterTensorSpatialDims num_dims format);
     (case format of FORMAT_HWIO \<Rightarrow> Some dim | FORMAT_OIHW \<Rightarrow> Some (dim + 2)
      | FORMAT_OIHW_VECT_I \<Rightarrow> Some (dim + 2) | FORMAT_OHWI \<Rightarrow> None) }"

definition GetFilterTensorInnerInputChannelsDimIndex :: "int \<Rightarrow> FilterTensorFormat \<Rightarrow> int option" where
  "GetFilterTensorInnerInputChannelsDimIndex num_dims format =
     do { _ \<leftarrow> check (format = FORMAT_OIHW_VECT_I); Some (num_dims - 1) }"

fun GetFilterTensorInputChannelsDimIndex :: "int \<Rightarrow> FilterTensorFormat \<Rightarrow> int option" where
  "GetFilterTensorInputChannelsDimIndex num_dims format =
     (case format of FORMAT_HWIO \<Rightarrow> Some (num_dims - 2) | FORMAT_OIHW \<Rightarrow> Some 1 | FORMAT_OIHW_VECT_I \<Rightarrow> Some 1
      | FORMAT_OHWI \<Rightarrow> None)"

fun GetFilterTensorOutputChannelsDimIndex :: "int \<Rightarrow> FilterTensorFormat \<Rightarrow> int option" where
  "GetFilterTensorOutputChannelsDimIndex num_dims format =
     (case format of FORMAT_HWIO \<Rightarrow> Some (num_dims - 1) | FORMAT_OIHW \<Rightarrow> Some 0 | FORMAT_OIHW_VECT_I \<Rightarrow> Some 0
      | FORMAT_OHWI \<Rightarrow> None)"

text \<open>A \<open>switch\<close> on the letter of a dimension; no case for it is \<open>LOG(FATAL)\<close>.\<close>

definition GetTensorDimIndex_spatial :: "int \<Rightarrow> TensorFormat \<Rightarrow> char \<Rightarrow> int option" where
  "GetTensorDimIndex_spatial NUM_SPATIAL_DIMS format dimension =
     map_of
       (if format = FORMAT_NHWC \<or> format = FORMAT_NHWC_VECT_W then
          [(CHR ''N'', 0), (CHR ''0'', 1), (CHR ''1'', 2), (CHR ''2'', 3), (CHR ''H'', NUM_SPATIAL_DIMS - 1),
           (CHR ''W'', NUM_SPATIAL_DIMS), (CHR ''C'', NUM_SPATIAL_DIMS + 1)]
        else if format = FORMAT_NCHW \<or> format = FORMAT_NCHW_VECT_C then
          [(CHR ''N'', 0), (CHR ''C'', 1), (CHR ''0'', 2), (CHR ''1'', 3), (CHR ''2'', 4),
           (CHR ''H'', NUM_SPATIAL_DIMS), (CHR ''W'', NUM_SPATIAL_DIMS + 1)]
        else if format = FORMAT_HWNC then
          [(CHR ''0'', 0), (CHR ''1'', 1), (CHR ''2'', 2), (CHR ''H'', NUM_SPATIAL_DIMS - 2),
           (CHR ''W'', NUM_SPATIAL_DIMS - 1), (CHR ''N'', NUM_SPATIAL_DIMS), (CHR ''C'', NUM_SPATIAL_DIMS + 1)]
        else
          [(CHR ''0'', 0), (CHR ''1'', 1), (CHR ''2'', 2), (CHR ''H'', NUM_SPATIAL_DIMS - 2),
           (CHR ''W'', NUM_SPATIAL_DIMS - 1), (CHR ''C'', NUM_SPATIAL_DIMS), (CHR ''N'', NUM_SPATIAL_DIMS + 1)])
       dimension"

definition GetFilterDimIndex :: "int \<Rightarrow> FilterTensorFormat \<Rightarrow> char \<Rightarrow> int option" where
  "GetFilterDimIndex NUM_SPATIAL_DIMS format dimension =
     map_of
       (if format = FORMAT_HWIO then
          [(CHR ''0'', 0), (CHR ''1'', 1), (CHR ''2'', 2), (CHR ''H'', NUM_SPATIAL_DIMS - 2),
           (CHR ''W'', NUM_SPATIAL_DIMS - 1), (CHR ''I'', NUM_SPATIAL_DIMS), (CHR ''O'', NUM_SPATIAL_DIMS + 1)]
        else if format = FORMAT_OIHW \<or> format = FORMAT_OIHW_VECT_I then
          [(CHR ''O'', 0), (CHR ''I'', 1), (CHR ''0'', 2), (CHR ''1'', 3), (CHR ''2'', 4),
           (CHR ''H'', NUM_SPATIAL_DIMS), (CHR ''W'', NUM_SPATIAL_DIMS + 1)]
        else [])
       dimension"

definition GetTensorDimIndex_2 :: "TensorFormat \<Rightarrow> char \<Rightarrow> int option" where
  "GetTensorDimIndex_2 format dimension = GetTensorDimIndex_spatial 2 format dimension"

definition GetTensorDimIndex :: "TensorFormat \<Rightarrow> char \<Rightarrow> int \<Rightarrow> int option" where
  "GetTensorDimIndex format dimension num_total_dims = do {
     index \<leftarrow> (if GetTensorSpatialDims num_total_dims format = 3
               then GetTensorDimIndex_spatial 3 format dimension
               else GetTensorDimIndex_spatial 2 format dimension);
     _ \<leftarrow> check (0 \<le> index \<and> index < num_total_dims);
     Some index }"

definition GetTensorDim :: "'a list \<Rightarrow> TensorFormat \<Rightarrow> char \<Rightarrow> 'a option" where
  "GetTensorDim dimension_attributes tensor_format dimension = do {
     index \<leftarrow> GetTensorDimIndex tensor_format dimension (int (length dimension_attributes));
     rd dimension_attributes index }"

definition GetFilterDim :: "'a list \<Rightarrow> FilterTensorFormat \<Rightarrow> char \<Rightarrow> 'a option" where
  "GetFilterDim dimension_attribute filter_tensor_format dimension = do {
     index \<leftarrow> (if GetFilterTensorSpatialDims (int (length dimension_attribute)) filter_tensor_format = 3
               then GetFilterDimIndex 3 filter_tensor_format dimension
               else GetFilterDimIndex 2 filter_tensor_format dimension);
     _ \<leftarrow> check (0 \<le> index \<and> index < int (length dimension_attribute));
     rd dimension_attribute index }"

definition GetExplicitPaddingForDim :: "'a list \<Rightarrow> TensorFormat \<Rightarrow> char \<Rightarrow> ('a \<times> 'a) option" where
  "GetExplicitPaddingForDim explicit_paddings tensor_format dimension = do {
     index \<leftarrow> GetTensorDimIndex tensor_format dimension (int (length explicit_paddings div 2));
     padding_before \<leftarrow> rd explicit_paddings (2 * index);
     padding_after \<leftarrow> rd explicit_paddings (2 * index + 1);
     Some (padding_before, padding_after) }"

section \<open>Shapes from formats\<close>

definition ShapeFromFormat ::
    "(int list \<Rightarrow> int list option) \<Rightarrow> TensorFormat \<Rightarrow> int \<Rightarrow> int list \<Rightarrow> int \<Rightarrow> int list option" where
  "ShapeFromFormat make_shape format N spatial C =
     (let num_spatial = int (length spatial); dims = GetTensorDimsFromSpatialDims num_spatial format in do {
      dim_sizes \<leftarrow> wr (replicate (nat dims) 0) (GetTensorBatchDimIndex dims format) N;
      dim_sizes \<leftarrow> for_range 0 num_spatial (\<lambda>dim dim_sizes. do {
        dim_size \<leftarrow> rd spatial dim;
        (dim_size, dim_sizes) \<leftarrow>
          (if format = FORMAT_NHWC_VECT_W \<and> dim = num_spatial - 1 then do {
             _ \<leftarrow> check (cmod dim_size 4 = 0);
             inner \<leftarrow> GetTensorInnerWidthDimIndex dims format;
             dim_sizes \<leftarrow> wr dim_sizes inner 4;
             Some (cdiv dim_size 4, dim_sizes) }
           else Some (dim_size, dim_sizes));
        index \<leftarrow> GetTensorSpatialDimIndex dims format dim;
        wr dim_sizes index dim_size }) dim_sizes;
      (C, dim_sizes) \<leftarrow>
        (if format = FORMAT_NCHW_VECT_C then do {
           _ \<leftarrow> check (cmod C 4 = 0);
           inner \<leftarrow> GetTensorInnerFeatureDimIndex dims format;
           dim_sizes \<leftarrow> wr dim_sizes inner 4;
           Some (cdiv C 4, dim_sizes) }
         else Some (C, dim_sizes));
      dim_sizes \<leftarrow> wr dim_sizes (GetTensorFeatureDimIndex dims format) C;
      make_shape dim_sizes })"

definition ShapeFromFilterTensorFormat ::
    "(int list \<Rightarrow> int list option) \<Rightarrow> FilterTensorFormat \<Rightarrow> int list \<Rightarrow> int \<Rightarrow> int \<Rightarrow> int list option" where
  "ShapeFromFilterTensorFormat make_shape format spatial I O' =
     (let num_spatial = int (length spatial); dims = GetFilterTensorDimsFromSpatialDims num_spatial format in do {
      output_index \<leftarrow> GetFilterTensorOutputChannelsDimIndex dims format;
      dim_sizes \<leftarrow> wr (replicate (nat dims) 0) output_index O';
      dim_sizes \<leftarrow> for_range 0 num_spatial (\<lambda>dim dim_sizes. do {
        index \<leftarrow> GetFilterTensorSpatialDimIndex dims format dim;
        dim_size \<leftarrow> rd spatial dim;
        wr dim_sizes index dim_size }) dim_sizes;
      (I, dim_sizes) \<leftarrow>
        (if format = FORMAT_OIHW_VECT_I then do {
           _ \<leftarrow> check (cmod I 4 = 0);
           inner \<leftarrow> GetFilterTensorInnerInputChannelsDimIndex dims format;
           dim_sizes \<leftarrow> wr dim_sizes inner 4;
           Some (cdiv I 4, dim_sizes) }
         else Some (I, dim_sizes));
      input_index \<leftarrow> GetFilterTensorInputChannelsDimIndex dims format;
      dim_sizes \<leftarrow> wr dim_sizes input_index I;
      make_shape dim_sizes })"

definition ShapeFromFormat_HW ::
    "(int list \<Rightarrow> int list option) \<Rightarrow> TensorFormat \<Rightarrow> int \<Rightarrow> int \<Rightarrow> int \<Rightarrow> int \<Rightarrow> int list option" where
  "ShapeFromFormat_HW make_shape format N H W C = ShapeFromFormat make_shape format N [H, W] C"

definition ShapeFromFilterTensorFormat_HW ::
    "(int list \<Rightarrow> int list option) \<Rightarrow> FilterTensorFormat \<Rightarrow> int \<Rightarrow> int \<Rightarrow> int \<Rightarrow> int \<Rightarrow> int list option" where
  "ShapeFromFilterTensorFormat_HW make_shape format H W I O' = ShapeFromFilterTensorFormat make_shape format [H, W] I O'"

definition ShapeFromFormat_convert ::
    "(int list \<Rightarrow> int list option) \<Rightarrow> TensorFormat \<Rightarrow> int list \<Rightarrow> TensorFormat \<Rightarrow> int list option" where
  "ShapeFromFormat_convert make_shape dst_format src_shape src_format =
     (if src_format = dst_format then Some src_shape
      else do {
        batch \<leftarrow> GetTensorDim src_shape src_format (CHR ''N'');
        c \<leftarrow> GetTensorDim src_shape src_format (CHR ''C'');
        let channels = c * (if src_format = FORMAT_NCHW_VECT_C then 4 else 1);
        let dims = int (length src_shape);
        let num_src_spatial_dims = GetTensorSpatialDims dims src_format;
        spatial_dims \<leftarrow> for_range 0 num_src_spatial_dims (\<lambda>spatial_dim spatial_dims. do {
          index \<leftarrow> GetTensorSpatialDimIndex dims src_format spatial_dim;
          size \<leftarrow> rd src_shape index;
          wr spatial_dims spatial_dim size }) (replicate (nat num_src_spatial_dims) 0);
        spatial_dims \<leftarrow>
          (if src_format = FORMAT_NHWC_VECT_W then do {
             w \<leftarrow> rd spatial_dims (num_src_spatial_dims - 1);
             wr spatial_dims (num_src_spatial_dims - 1) (w * 4) }
           else Some spatial_dims);
        ShapeFromFormat make_shape dst_format batch spatial_dims channels })"

definition ShapeFromFilterFormat ::
    "(int list \<Rightarrow> int list option) \<Rightarrow> FilterTensorFormat \<Rightarrow> int list \<Rightarrow> FilterTensorFormat \<Rightarrow> int list option" where
  "ShapeFromFilterFormat make_shape dst_filter_format src_shape src_filter_format =
     (if src_filter_format = dst_filter_format then Some src_shape
      else do {
        output_channels \<leftarrow> GetFilterDim src_shape src_filter_format (CHR ''O'');
        i \<leftarrow> GetFilterDim src_shape src_filter_format (CHR ''I'');
        let input_channels = i * (if src_filter_format = FORMAT_OIHW_VECT_I then 4 else 1);
        if GetFilterTensorSpatialDims (int (length src_shape)) src_filter_format = 3 then do {
          d0 \<leftarrow> GetFilterDim src_shape src_filter_format (CHR ''0'');
          d1 \<leftarrow> GetFilterDim src_shape src_filter_format (CHR ''1'');
          d2 \<leftarrow> GetFilterDim src_shape src_filter_format (CHR ''2'');
          ShapeFromFilterTensorFormat make_shape dst_filter_format [d0, d1, d2] input_channels output_channels }
        else do {
          h \<leftarrow> GetFilterDim src_shape src_filter_format (CHR ''H'');
          w \<leftarrow> GetFilterDim src_shape src_filter_format (CHR ''W'');
          ShapeFromFilterTensorFormat make_shape dst_filter_format [h, w] input_channels output_channels } })"

section \<open>Layouts\<close>

text \<open>What the format names say: the sizes in memory order, and which sizes have to be multiples of 4.\<close>

fun layout :: "TensorFormat \<Rightarrow> int \<Rightarrow> int list \<Rightarrow> int \<Rightarrow> int list" where
  "layout FORMAT_NHWC N sp C = N # sp @ [C]"
| "layout FORMAT_NCHW N sp C = N # C # sp"
| "layout FORMAT_NCHW_VECT_C N sp C = N # C div 4 # sp @ [4]"
| "layout FORMAT_NHWC_VECT_W N sp C = N # butlast sp @ [last sp div 4, C, 4]"
| "layout FORMAT_HWNC N sp C = sp @ [N, C]"
| "layout FORMAT_HWCN N sp C = sp @ [C, N]"

fun fits_format :: "TensorFormat \<Rightarrow> int list \<Rightarrow> int \<Rightarrow> bool" where
  "fits_format FORMAT_NCHW_VECT_C sp C \<longleftrightarrow> 4 dvd C"
| "fits_format FORMAT_NHWC_VECT_W sp C \<longleftrightarrow> 4 dvd last sp"
| "fits_format _ sp C \<longleftrightarrow> True"

fun filter_layout :: "FilterTensorFormat \<Rightarrow> int list \<Rightarrow> int \<Rightarrow> int \<Rightarrow> int list" where
  "filter_layout FORMAT_HWIO sp I O' = sp @ [I, O']"
| "filter_layout FORMAT_OIHW sp I O' = O' # I # sp"
| "filter_layout FORMAT_OIHW_VECT_I sp I O' = O' # I div 4 # sp @ [4]"
| "filter_layout FORMAT_OHWI sp I O' = O' # sp @ [I]"

fun fits_filter_format :: "FilterTensorFormat \<Rightarrow> int \<Rightarrow> bool" where
  "fits_filter_format FORMAT_OIHW_VECT_I I \<longleftrightarrow> 4 dvd I"
| "fits_filter_format FORMAT_OHWI I \<longleftrightarrow> False"
| "fits_filter_format _ I \<longleftrightarrow> True"

definition spatial_ok :: "int list \<Rightarrow> bool" where
  "spatial_ok sp \<longleftrightarrow> (length sp = 2 \<or> length sp = 3) \<and> (\<forall>d\<in>set sp. 0 \<le> d)"

lemma spatial_cases:
  assumes "spatial_ok sp"
  obtains h w where "sp = [h, w]" "0 \<le> h" "0 \<le> w" | d h w where "sp = [d, h, w]" "0 \<le> d" "0 \<le> h" "0 \<le> w"
  using assms unfolding spatial_ok_def by (auto simp: numeral_eq_Suc length_Suc_conv)

lemma foldM_single: "foldM f [x] = f x"
  by (rule ext) (simp add: foldM_Nil bind_Some_id)

lemma range_2: "for_range 0 2 f s = Option.bind (f 0 s) (f 1)"
  by (simp add: for_range_def upto.simps foldM_single)

lemma range_3: "for_range 0 3 f s = Option.bind (Option.bind (f 0 s) (f 1)) (f 2)"
  by (cases "f 0 s") (simp_all add: for_range_def upto.simps foldM_single)

lemmas format_simps = ShapeFromFormat_def ShapeFromFilterTensorFormat_def GetTensorSpatialDimIndex_def
  GetFilterTensorSpatialDimIndex_def GetTensorInnerWidthDimIndex_def GetTensorInnerFeatureDimIndex_def
  GetFilterTensorInnerInputChannelsDimIndex_def range_2 range_3 rd_def wr_def Let_def

lemma ShapeFromFormat_layout:
  assumes "spatial_ok sp" and "0 \<le> C"
  shows "ShapeFromFormat mk format N sp C = (if fits_format format sp C then mk (layout format N sp C) else None)"
  using assms(1)
proof (cases rule: spatial_cases)
  case (1 h w)
  then show ?thesis using assms(2) by (cases "format") (auto simp: format_simps check_def eval_nat_numeral)
next
  case (2 d h w)
  then show ?thesis using assms(2) by (cases "format") (auto simp: format_simps check_def eval_nat_numeral)
qed

lemma layout_dims:
  assumes "spatial_ok sp"
  shows "GetTensorDim (layout format N sp C) format (CHR ''N'') = Some N"
    "GetTensorDim (layout format N sp C) format (CHR ''C'') = Some (if format = FORMAT_NCHW_VECT_C then C div 4 else C)"
  using assms by (cases rule: spatial_cases; cases "format";
      simp add: GetTensorDim_def GetTensorDimIndex_def GetTensorDimIndex_spatial_def rd_def check_def eval_nat_numeral)+

lemma convert_layout:
  assumes "spatial_ok sp" and "0 \<le> C" and "fits_format src sp C" and "src \<noteq> dst"
  shows "ShapeFromFormat_convert mk dst (layout src N sp C) src = ShapeFromFormat mk dst N sp C"
proof -
  let ?shape = "layout src N sp C"
  note D = layout_dims [OF assms(1), of src N C]
  have c: "(if src = FORMAT_NCHW_VECT_C then C div 4 else C) * (if src = FORMAT_NCHW_VECT_C then 4 else 1) = C"
    using assms(3) by (cases src) auto
  show ?thesis
    unfolding ShapeFromFormat_convert_def D Option.bind.bind_lunit Let_def c using assms(1,3,4)
    by (cases rule: spatial_cases; cases src;
      simp add: GetTensorSpatialDimIndex_def range_2 range_3 rd_def wr_def check_def eval_nat_numeral)
qed

section \<open>Filters\<close>

lemma ShapeFromFilterTensorFormat_layout:
  assumes "spatial_ok sp" and "0 \<le> I"
  shows "ShapeFromFilterTensorFormat mk format sp I O' =
    (if fits_filter_format format I then mk (filter_layout format sp I O') else None)"
  using assms(1)
proof (cases rule: spatial_cases)
  case (1 h w)
  then show ?thesis using assms(2) by (cases "format") (auto simp: format_simps check_def eval_nat_numeral)
next
  case (2 d h w)
  then show ?thesis using assms(2) by (cases "format") (auto simp: format_simps check_def eval_nat_numeral)
qed

lemma filter_layout_dims:
  assumes "spatial_ok sp" and "format \<noteq> FORMAT_OHWI"
  shows "GetFilterDim (filter_layout format sp I O') format (CHR ''O'') = Some O'"
    "GetFilterDim (filter_layout format sp I O') format (CHR ''I'') = Some (if format = FORMAT_OIHW_VECT_I then I div 4 else I)"
  using assms(2) by (cases rule: spatial_cases [OF assms(1)]; cases "format";
      simp add: GetFilterDim_def GetFilterDimIndex_def rd_def check_def eval_nat_numeral)+

lemma convert_filter_layout:
  assumes "spatial_ok sp" and "0 \<le> I" and "fits_filter_format src I" and "src \<noteq> dst"
  shows "ShapeFromFilterFormat mk dst (filter_layout src sp I O') src = ShapeFromFilterTensorFormat mk dst sp I O'"
proof -
  have src: "src \<noteq> FORMAT_OHWI" using assms(3) by auto
  note D = filter_layout_dims [OF assms(1) src, of I O']
  have i: "(if src = FORMAT_OIHW_VECT_I then I div 4 else I) * (if src = FORMAT_OIHW_VECT_I then 4 else 1) = I"
    using assms(3) by (cases src) auto
  show ?thesis
    unfolding ShapeFromFilterFormat_def D Option.bind.bind_lunit Let_def i using assms(1,3,4)
    by (cases rule: spatial_cases; cases src;
      simp add: GetFilterDim_def GetFilterDimIndex_def rd_def check_def eval_nat_numeral)
qed

text \<open>Every function on a filter of format \<open>FORMAT_OHWI\<close> ends in \<open>LOG(FATAL)\<close>.\<close>

lemma OHWI_not_supported:
  "ShapeFromFilterTensorFormat mk FORMAT_OHWI sp I O' = None"
  "dst \<noteq> FORMAT_OHWI \<Longrightarrow> ShapeFromFilterFormat mk dst shape FORMAT_OHWI = None"
  by (simp_all add: ShapeFromFilterTensorFormat_def ShapeFromFilterFormat_def GetFilterDim_def GetFilterDimIndex_def)

section \<open>The property\<close>

text \<open>
  The constructor of \<open>TensorShape\<close> takes sizes that are not negative (\<open>tensor_shape.h\<close>: \<open>REQUIRES:
  dim_sizes[i] >= 0\<close>); it multiplies them to the number of elements, an \<open>int64\<close>.  The bound counts an
  empty dimension as one element, so that no product on the way overflows either.
\<close>

definition shape_sizes_ok :: "int list \<Rightarrow> bool" where
  "shape_sizes_ok ds \<longleftrightarrow> (\<forall>d\<in>set ds. 0 \<le> d) \<and> prod_list (map (max 1) ds) < 2 ^ 63"

definition makes_shapes :: "(int list \<Rightarrow> int list option) \<Rightarrow> bool" where
  "makes_shapes make_shape \<longleftrightarrow> (\<forall>ds. shape_sizes_ok ds \<longrightarrow> make_shape ds = Some ds)"

lemma convert_shape:
  assumes "spatial_ok sp" and "0 \<le> C" and "fits_format src sp C" and "makes_shapes mk"
    and "fits_format dst sp C \<Longrightarrow> shape_sizes_ok (layout dst N sp C)"
  shows "ShapeFromFormat_convert mk dst (layout src N sp C) src =
     (if fits_format dst sp C then Some (layout dst N sp C) else None)"
  using convert_layout [OF assms(1-3), of dst mk N] ShapeFromFormat_layout [OF assms(1,2), of mk dst N] assms(3-5)
  by (cases "src = dst") (auto simp: ShapeFromFormat_convert_def makes_shapes_def)

lemma convert_filter_shape:
  assumes "spatial_ok sp" and "0 \<le> I" and "fits_filter_format src I" and "makes_shapes mk"
    and "fits_filter_format dst I \<Longrightarrow> shape_sizes_ok (filter_layout dst sp I O')"
  shows "ShapeFromFilterFormat mk dst (filter_layout src sp I O') src =
     (if fits_filter_format dst I then Some (filter_layout dst sp I O') else None)"
  using convert_filter_layout [OF assms(1-3), of dst mk O'] ShapeFromFilterTensorFormat_layout [OF assms(1,2), of mk dst O'] assms(3-5)
  by (cases "src = dst") (auto simp: ShapeFromFilterFormat_def makes_shapes_def)

text \<open>
  C40: converting shapes between memory formats, of tensors and of filters.  For two or three spatial
  dimensions the shape of a format has its sizes in the order of the format's name; converting it
  gives the shape of the other format, and converting back the first one.  The only failures are a
  size that the other format splits into vectors and that is not a multiple of 4, and the filter
  format \<open>FORMAT_OHWI\<close>.  The sizes are those a \<open>TensorShape\<close> can hold.
\<close>

theorem tensor_format_roundtrip:
  assumes "makes_shapes mk" and "spatial_ok sp"
    and "0 \<le> C" and "fits_format src sp C" and "shape_sizes_ok (layout src N sp C)"
    and "fits_format dst sp C \<Longrightarrow> shape_sizes_ok (layout dst N sp C)"
    and "0 \<le> I" and "fits_filter_format fsrc I" and "shape_sizes_ok (filter_layout fsrc sp I O')"
    and "fits_filter_format fdst I \<Longrightarrow> shape_sizes_ok (filter_layout fdst sp I O')"
  shows "ShapeFromFormat mk src N sp C = Some (layout src N sp C) \<and>
    ShapeFromFormat_convert mk dst (layout src N sp C) src =
      (if fits_format dst sp C then Some (layout dst N sp C) else None) \<and>
    Option.bind (ShapeFromFormat_convert mk dst (layout src N sp C) src) (\<lambda>shape. ShapeFromFormat_convert mk src shape dst) =
      (if fits_format dst sp C then Some (layout src N sp C) else None) \<and>
    ShapeFromFilterTensorFormat mk fsrc sp I O' = Some (filter_layout fsrc sp I O') \<and>
    ShapeFromFilterFormat mk fdst (filter_layout fsrc sp I O') fsrc =
      (if fits_filter_format fdst I then Some (filter_layout fdst sp I O') else None) \<and>
    Option.bind (ShapeFromFilterFormat mk fdst (filter_layout fsrc sp I O') fsrc) (\<lambda>shape. ShapeFromFilterFormat mk fsrc shape fdst) =
      (if fits_filter_format fdst I then Some (filter_layout fsrc sp I O') else None)"
proof -
  note to = convert_shape [OF assms(2-4,1,6)] and undo = convert_shape [OF assms(2,3) _ assms(1), of dst src N]
  note fto = convert_filter_shape [OF assms(2,7,8,1,10)] and fundo = convert_filter_shape [OF assms(2,7) _ assms(1), of fdst fsrc O']
  have "ShapeFromFormat mk src N sp C = Some (layout src N sp C)"
    "ShapeFromFilterTensorFormat mk fsrc sp I O' = Some (filter_layout fsrc sp I O')"
    using ShapeFromFormat_layout [OF assms(2,3), of mk src N] ShapeFromFilterTensorFormat_layout [OF assms(2,7), of mk fsrc O']
      assms(1,4,5,8,9) by (simp_all add: makes_shapes_def)
  with to undo fto fundo assms(4,5,8,9) show ?thesis by (simp split: if_splits)
qed

lemma tensor_format_roundtrip_witness:
  "ShapeFromFormat_convert (\<lambda>ds. if shape_sizes_ok ds then Some ds else None) FORMAT_NCHW_VECT_C [2, 5, 3, 8] FORMAT_NHWC =
     Some [2, 2, 5, 3, 4] \<and>
   ShapeFromFilterFormat (\<lambda>ds. if shape_sizes_ok ds then Some ds else None) FORMAT_HWIO [7, 2, 5, 3, 4] FORMAT_OIHW_VECT_I =
     Some [5, 3, 8, 7]"
proof -
  let ?mk = "\<lambda>ds. if shape_sizes_ok ds then Some ds else None"
  have "makes_shapes ?mk" by (simp add: makes_shapes_def)
  from tensor_format_roundtrip [OF this, of "[5, 3]" 8 FORMAT_NHWC 2 FORMAT_NCHW_VECT_C 8 FORMAT_OIHW_VECT_I 7 FORMAT_HWIO]
  show ?thesis by (simp add: spatial_ok_def shape_sizes_ok_def)
qed

end
