(* ===== verification/Philox.thy ===== *)
theory Philox
  imports Faults
begin

text \<open>
  \<open>core/lib/random/philox_random.h\<close>: the counter-based generator Philox 4x32-10.  An \<open>Array<T, N>\<close> is a
  list of length \<open>N\<close>; the four words of the counter are a 128-bit number, the first one the lowest.
  Shown: \<open>Skip\<close> adds to the counter, except for one lost carry; a sample is an injective function of
  the counter, so that a stream repeats itself after exactly \<open>2 ^ 128\<close> samples.
\<close>

section \<open>The generator\<close>

record philox =
  ph_counter :: "uint32 list"
  ph_key :: "uint32 list"

definition Array :: "nat \<Rightarrow> uint32 list" where
  "Array ElementCount = replicate ElementCount 0"

definition PhiloxRandom :: philox where
  "PhiloxRandom = \<lparr>ph_counter = Array 4, ph_key = Array 2\<rparr>"

definition PhiloxRandom_seed :: "64 word \<Rightarrow> philox" where
  "PhiloxRandom_seed seed =
     PhiloxRandom\<lparr>ph_key := (Array 2)[0 := ucast seed, 1 := ucast (drop_bit 32 seed)]\<rparr>"

definition PhiloxRandom_seeds :: "64 word \<Rightarrow> 64 word \<Rightarrow> philox" where
  "PhiloxRandom_seeds seed_lo seed_hi =
     \<lparr>ph_counter = (Array 4)[2 := ucast seed_hi, 3 := ucast (drop_bit 32 seed_hi)],
      ph_key = (Array 2)[0 := ucast seed_lo, 1 := ucast (drop_bit 32 seed_lo)]\<rparr>"

definition PhiloxRandom_state :: "uint32 list \<Rightarrow> uint32 list \<Rightarrow> philox" where
  "PhiloxRandom_state counter key = \<lparr>ph_counter = counter, ph_key = key\<rparr>"

definition Skip_counter :: "64 word \<Rightarrow> uint32 list \<Rightarrow> uint32 list" where
  "Skip_counter count c =
     (let count_lo = ucast count :: uint32;
          count_hi = ucast (drop_bit 32 count) :: uint32;
          c = c[0 := c ! 0 + count_lo];
          count_hi = (if c ! 0 < count_lo then count_hi + 1 else count_hi);
          c = c[1 := c ! 1 + count_hi] in
      if c ! 1 < count_hi then
        let c = c[2 := c ! 2 + 1] in
        if c ! 2 = 0 then c[3 := c ! 3 + 1] else c
      else c)"

definition Skip :: "64 word \<Rightarrow> philox \<Rightarrow> philox" where
  "Skip count p = p\<lparr>ph_counter := Skip_counter count (ph_counter p)\<rparr>"

definition SkipOne_counter :: "uint32 list \<Rightarrow> uint32 list" where
  "SkipOne_counter c =
     (let c = c[0 := c ! 0 + 1] in
      if c ! 0 = 0 then
        let c = c[1 := c ! 1 + 1] in
        if c ! 1 = 0 then
          let c = c[2 := c ! 2 + 1] in
          if c ! 2 = 0 then c[3 := c ! 3 + 1] else c
        else c
      else c)"

definition SkipOne :: "philox \<Rightarrow> philox" where
  "SkipOne p = p\<lparr>ph_counter := SkipOne_counter (ph_counter p)\<rparr>"

definition kPhiloxW32A :: uint32 where "kPhiloxW32A = 0x9E3779B9"
definition kPhiloxW32B :: uint32 where "kPhiloxW32B = 0xBB67AE85"
definition kPhiloxM4x32A :: uint32 where "kPhiloxM4x32A = 0xD2511F53"
definition kPhiloxM4x32B :: uint32 where "kPhiloxM4x32B = 0xCD9E8D57"

definition MultiplyHighLow :: "uint32 \<Rightarrow> uint32 \<Rightarrow> uint32 \<times> uint32" where
  "MultiplyHighLow a b =
     (let product = ucast a * ucast b :: 64 word in
      (ucast product, ucast (drop_bit 32 product)))"

definition ComputeSingleRound :: "uint32 list \<Rightarrow> uint32 list \<Rightarrow> uint32 list" where
  "ComputeSingleRound counter key =
     (let (lo0, hi0) = MultiplyHighLow kPhiloxM4x32A (counter ! 0);
          (lo1, hi1) = MultiplyHighLow kPhiloxM4x32B (counter ! 2) in
      (Array 4)[0 := hi1 XOR counter ! 1 XOR key ! 0, 1 := lo1,
                2 := hi0 XOR counter ! 3 XOR key ! 1, 3 := lo0])"

definition RaiseKey :: "uint32 list \<Rightarrow> uint32 list" where
  "RaiseKey key = key[0 := key ! 0 + kPhiloxW32A, 1 := key ! 1 + kPhiloxW32B]"

text \<open>\<open>operator()\<close>: nine rounds, each followed by a change of the key, and a tenth.\<close>

definition philox_sample :: "philox \<Rightarrow> uint32 list \<times> philox" where
  "philox_sample p =
     (let (counter, key) =
            ((\<lambda>(counter, key). (ComputeSingleRound counter key, RaiseKey key)) ^^ 9) (ph_counter p, ph_key p) in
      (ComputeSingleRound counter key, SkipOne p))"

definition philox_ok :: "philox \<Rightarrow> bool" where
  "philox_ok p \<longleftrightarrow> length (ph_counter p) = 4 \<and> length (ph_key p) = 2"

lemma known_answer:
  "fst (philox_sample PhiloxRandom) = [0x6627e8d5, 0xe169c58d, 0xbc57ac4c, 0x9b00dbd8]"
  by code_simp

section \<open>The counter as a number\<close>

fun counter_value :: "uint32 list \<Rightarrow> nat" where
  "counter_value [] = 0"
| "counter_value (w # ws) = unat w + 2 ^ 32 * counter_value ws"

lemma length4: "length c = 4 \<Longrightarrow> \<exists>c0 c1 c2 c3. c = [c0, c1, c2, c3]"
  by (auto simp: numeral_eq_Suc length_Suc_conv)

lemma length2: "length c = 2 \<Longrightarrow> \<exists>c0 c1. c = [c0, c1]"
  by (auto simp: numeral_eq_Suc length_Suc_conv)

lemma word32_less: "unat (x :: uint32) < 2 ^ 32"
  using unsigned_less [of x, where 'a = nat] by simp

lemma counter_value_less: "counter_value c < 2 ^ (32 * length c)"
proof (induction c)
  case (Cons w c)
  have "unat w + 2 ^ 32 * counter_value c < 2 ^ 32 * (counter_value c + 1)"
    using word32_less [of w] by simp
  also have "\<dots> \<le> 2 ^ 32 * 2 ^ (32 * length c)" using Cons.IH by (intro mult_le_mono2) simp
  finally show ?case by (simp add: power_add)
qed simp

lemma counter_value_inject:
  "length c = length d \<Longrightarrow> counter_value c = counter_value d \<longleftrightarrow> c = d"
proof (induction c d rule: list_induct2)
  case (Cons v c w d)
  have "v = w" if "unat v + 2 ^ 32 * counter_value c = unat w + 2 ^ 32 * counter_value d"
    using arg_cong [OF that, of "\<lambda>n. n mod 2 ^ 32"] word32_less [of v] word32_less [of w] by (simp add: unsigned_word_eqI)
  with Cons.IH show ?case by auto
qed simp

text \<open>An addition to one word either keeps its sum or wraps, and the test for a carry tells which.\<close>

lemma add_carry:
  fixes a b :: uint32
  shows "unat (a + b) = (if a + b < b then unat a + unat b - 2 ^ 32 else unat a + unat b)"
    and "a + b < b \<longleftrightarrow> 2 ^ 32 \<le> unat a + unat b"
  using word32_less [of a] word32_less [of b] by (auto simp: word_less_nat_alt unat_word_ariths mod_if)

lemma incr_carry:
  fixes a :: uint32
  shows "unat (a + 1) = (if a + 1 = 0 then 0 else unat a + 1)" and "a + 1 = 0 \<longleftrightarrow> unat a + 1 = 2 ^ 32"
  using word32_less [of a] by (auto simp: unat_eq_0 [symmetric] unat_word_ariths mod_if simp del: unat_eq_0)

lemma count_halves: "unat n = unat (ucast n :: uint32) + 2 ^ 32 * unat (ucast (drop_bit 32 n :: 64 word) :: uint32)"
proof -
  have "unat n div 2 ^ 32 < 2 ^ 32" using word64_less [of n] by simp
  then have "unat (ucast (drop_bit 32 n :: 64 word) :: uint32) = unat n div 2 ^ 32"
    by (simp add: unsigned_ucast_eq take_bit_eq_mod unat_drop_bit_div)
  moreover have "unat (ucast n :: uint32) = unat n mod 2 ^ 32" by (simp add: unsigned_ucast_eq take_bit_eq_mod)
  ultimately show ?thesis by simp
qed

lemma SkipOne_counter_value:
  assumes "length c = 4"
  shows "counter_value (SkipOne_counter c) = (counter_value c + 1) mod 2 ^ 128"
proof -
  obtain c0 c1 c2 c3 where c: "c = [c0, c1, c2, c3]" using length4 [OF assms] by blast
  have "counter_value c + 1 < 2 ^ 128 \<or> counter_value c + 1 = 2 ^ 128"
    using counter_value_less [of c] assms by auto
  then show ?thesis
    using word32_less [of c0] word32_less [of c1] word32_less [of c2] word32_less [of c3]
    by (auto simp: c SkipOne_counter_def Let_def incr_carry)
qed

lemma length_counters [simp]:
  "length (SkipOne_counter c) = length c" "length (Skip_counter n c) = length c"
  by (simp_all add: SkipOne_counter_def Skip_counter_def Let_def)

lemma Skip_counter_value:
  assumes "length c = 4"
  shows "counter_value (Skip_counter n c) =
    (if unat n + unat (c ! 0) < 2 ^ 64 then (counter_value c + unat n) mod 2 ^ 128
     else counter_value c + unat n - 2 ^ 64)"
proof -
  obtain c0 c1 c2 c3 where c: "c = [c0, c1, c2, c3]" using length4 [OF assms] by blast
  have wrap: "(counter_value c + unat n) mod 2 ^ 128 =
      (if counter_value c + unat n < 2 ^ 128 then counter_value c + unat n else counter_value c + unat n - 2 ^ 128)"
    using counter_value_less [of c] word64_less [of n] assms by (simp add: mod_if)
  have top: "unat c3 \<le> 2 ^ 32 - 2 \<or> unat c3 = 2 ^ 32 - 1" using word32_less [of c3] by auto
  let ?lo = "ucast n :: uint32" and ?hi = "ucast (drop_bit 32 n :: 64 word) :: uint32"
  show ?thesis
    using count_halves [of n] word32_less [of c0] word32_less [of c1] word32_less [of c2] top
      word32_less [of ?lo] word32_less [of ?hi]
    unfolding wrap by (auto simp: c Skip_counter_def Let_def add_carry incr_carry)
qed

section \<open>Streams\<close>

fun samples :: "nat \<Rightarrow> philox \<Rightarrow> uint32 list list \<times> philox" where
  "samples 0 p = ([], p)"
| "samples (Suc n) p = (let (x, p) = philox_sample p; (xs, p) = samples n p in (x # xs, p))"

text \<open>Drawing moves the counter on by one, so that \<open>n\<close> samples move it on by \<open>n\<close>.\<close>

lemma sample_state [simp]: "snd (philox_sample p) = SkipOne p"
  by (simp add: philox_sample_def split: prod.split)

lemma philox_ok_SkipOne [simp]: "philox_ok (SkipOne p) = philox_ok p"
  by (simp add: philox_ok_def SkipOne_def)

lemma philox_ok_Skip [simp]: "philox_ok (Skip n p) = philox_ok p"
  by (simp add: philox_ok_def Skip_def)

lemma Skip_simps [simp]:
  "ph_counter (Skip n p) = Skip_counter n (ph_counter p)" "ph_key (Skip n p) = ph_key p"
  by (simp_all add: Skip_def)

lemma samples_Suc: "snd (samples (Suc n) p) = snd (samples n (SkipOne p))"
  by (simp add: Let_def split: prod.split) (metis sample_state snd_conv)

lemma samples_state:
  "philox_ok p \<Longrightarrow> philox_ok (snd (samples n p)) \<and> ph_key (snd (samples n p)) = ph_key p \<and>
     counter_value (ph_counter (snd (samples n p))) = (counter_value (ph_counter p) + n) mod 2 ^ 128"
proof (induction n arbitrary: p)
  case 0
  then show ?case using counter_value_less [of "ph_counter p"] by (simp add: philox_ok_def)
next
  case (Suc n)
  then have "counter_value (ph_counter (SkipOne p)) = (counter_value (ph_counter p) + 1) mod 2 ^ 128"
    by (simp add: SkipOne_def philox_ok_def SkipOne_counter_value)
  moreover have "ph_key (SkipOne p) = ph_key p" by (simp add: SkipOne_def)
  ultimately show ?case using Suc.IH [of "SkipOne p"] Suc.prems by (simp only: samples_Suc) (simp add: mod_simps)
qed

lemma philox_eqI:
  "philox_ok p \<Longrightarrow> philox_ok q \<Longrightarrow> ph_key p = ph_key q \<Longrightarrow>
     counter_value (ph_counter p) = counter_value (ph_counter q) \<Longrightarrow> p = q"
  using counter_value_inject [of "ph_counter p" "ph_counter q"] by (simp add: philox_ok_def)

lemma same_samples:
  assumes "philox_ok p"
  shows "snd (samples i p) = snd (samples j p) \<longleftrightarrow>
    (counter_value (ph_counter p) + i) mod 2 ^ 128 = (counter_value (ph_counter p) + j) mod 2 ^ 128"
proof -
  note i = samples_state [OF assms, of i] and j = samples_state [OF assms, of j]
  show ?thesis
  proof
    assume "snd (samples i p) = snd (samples j p)"
    with i j show "(counter_value (ph_counter p) + i) mod 2 ^ 128 = (counter_value (ph_counter p) + j) mod 2 ^ 128"
      by (simp only:)
  next
    assume "(counter_value (ph_counter p) + i) mod 2 ^ 128 = (counter_value (ph_counter p) + j) mod 2 ^ 128"
    with i j show "snd (samples i p) = snd (samples j p)"
      by (intro philox_eqI [of "snd (samples i p)" "snd (samples j p)"]) (simp_all only:)
  qed
qed

section \<open>A sample is an injective function of the counter\<close>

lemma MultiplyHighLow_low: "fst (MultiplyHighLow a b) = a * b"
proof -
  have "unat (ucast (ucast a * ucast b :: 64 word) :: uint32) = (unat a * unat b) mod 2 ^ 32"
    using word32_less [of a] word32_less [of b]
    by (simp add: unsigned_ucast_eq take_bit_eq_mod unat_word_ariths mod_mod_cancel)
  then have "unat (fst (MultiplyHighLow a b)) = unat (a * b)"
    by (simp add: MultiplyHighLow_def Let_def unat_word_ariths)
  then show ?thesis by (rule unsigned_word_eqI)
qed

lemma multiplier_inject:
  "kPhiloxM4x32A * x = kPhiloxM4x32A * y \<longleftrightarrow> x = y" "kPhiloxM4x32B * x = kPhiloxM4x32B * y \<longleftrightarrow> x = y"
proof -
  have inv: "2568649947 * kPhiloxM4x32A = 1" "1836887655 * kPhiloxM4x32B = 1"
    by (simp_all add: kPhiloxM4x32A_def kPhiloxM4x32B_def)
  have cancel: "x = y" if "c * a = 1" "a * x = a * y" for a c x y :: uint32
  proof -
    have "x = (c * a) * x" by (simp only: that(1) mult_1_left)
    also have "\<dots> = (c * a) * y" by (simp only: mult.assoc that(2))
    finally show ?thesis by (simp only: that(1) mult_1_left)
  qed
  show "kPhiloxM4x32A * x = kPhiloxM4x32A * y \<longleftrightarrow> x = y" using cancel [OF inv(1)] by blast
  show "kPhiloxM4x32B * x = kPhiloxM4x32B * y \<longleftrightarrow> x = y" using cancel [OF inv(2)] by blast
qed

lemma xor_cancel: "x XOR y XOR k = x XOR z XOR k \<longleftrightarrow> y = z" for x y z k :: uint32
  by (auto simp: bit_eq_iff bit_xor_iff)

lemma length_round [simp]: "length (ComputeSingleRound c k) = 4"
  by (simp add: ComputeSingleRound_def Array_def split: prod.split)

lemma round_inject:
  assumes "length c = 4" "length d = 4" "ComputeSingleRound c k = ComputeSingleRound d k"
  shows "c = d"
proof -
  obtain c0 c1 c2 c3 where c: "c = [c0, c1, c2, c3]" using length4 [OF assms(1)] by blast
  obtain d0 d1 d2 d3 where d: "d = [d0, d1, d2, d3]" using length4 [OF assms(2)] by blast
  obtain a0 b0 a1 b1 where m: "MultiplyHighLow kPhiloxM4x32A c0 = (a0, b0)" "MultiplyHighLow kPhiloxM4x32B c2 = (a1, b1)"
    by fastforce
  obtain a0' b0' a1' b1' where m': "MultiplyHighLow kPhiloxM4x32A d0 = (a0', b0')" "MultiplyHighLow kPhiloxM4x32B d2 = (a1', b1')"
    by fastforce
  from assms(3) have eq: "b1 XOR c1 XOR k ! 0 = b1' XOR d1 XOR k ! 0" "a1 = a1'" "b0 XOR c3 XOR k ! 1 = b0' XOR d3 XOR k ! 1" "a0 = a0'"
    by (simp_all add: c d m m' ComputeSingleRound_def Array_def numeral_eq_Suc)
  have "c0 = d0" "c2 = d2"
    using eq(2,4) m m' MultiplyHighLow_low [of kPhiloxM4x32A c0] MultiplyHighLow_low [of kPhiloxM4x32A d0]
      MultiplyHighLow_low [of kPhiloxM4x32B c2] MultiplyHighLow_low [of kPhiloxM4x32B d2] multiplier_inject
    by simp_all
  with m m' have "b0 = b0'" "b1 = b1'" by simp_all
  with eq(1,3) have "c1 = d1" "c3 = d3" by (simp_all add: xor_cancel)
  with \<open>c0 = d0\<close> \<open>c2 = d2\<close> show ?thesis by (simp add: c d)
qed

lemma rounds_inject:
  assumes "length c = 4" "length d = 4"
    and "((\<lambda>(c, k). (ComputeSingleRound c k, RaiseKey k)) ^^ n) (c, k) = ((\<lambda>(c, k). (ComputeSingleRound c k, RaiseKey k)) ^^ n) (d, k)"
  shows "c = d"
  using assms
proof (induction n arbitrary: c d k)
  case (Suc n)
  then have "((\<lambda>(c, k). (ComputeSingleRound c k, RaiseKey k)) ^^ n) (ComputeSingleRound c k, RaiseKey k) =
      ((\<lambda>(c, k). (ComputeSingleRound c k, RaiseKey k)) ^^ n) (ComputeSingleRound d k, RaiseKey k)"
    by (simp only: funpow_Suc_right) simp
  then have "ComputeSingleRound c k = ComputeSingleRound d k" by (rule Suc.IH [rotated 2]) simp_all
  with Suc.prems show ?case by (blast intro: round_inject)
qed simp

lemma rounds_key:
  "snd (((\<lambda>(c, k). (ComputeSingleRound c k, RaiseKey k)) ^^ n) (c, k)) = (RaiseKey ^^ n) k"
  by (induction n) (simp_all add: split_beta)

lemma rounds_length:
  "length c = 4 \<Longrightarrow> length (fst (((\<lambda>(c, k). (ComputeSingleRound c k, RaiseKey k)) ^^ n) (c, k))) = 4"
  by (induction n) (simp_all add: split_beta)

lemma length_sample: "length (fst (philox_sample p)) = 4"
  by (simp add: philox_sample_def split: prod.split)

lemma sample_inject:
  assumes "philox_ok p" "philox_ok q" "ph_key p = ph_key q" "fst (philox_sample p) = fst (philox_sample q)"
  shows "p = q"
proof -
  let ?R = "\<lambda>c. ((\<lambda>(c, k). (ComputeSingleRound c k, RaiseKey k)) ^^ 9) (c, ph_key q)"
  have same_key: "snd (?R (ph_counter p)) = snd (?R (ph_counter q))" by (simp only: rounds_key)
  have len: "length (ph_counter p) = 4" "length (ph_counter q) = 4" using assms(1,2) by (simp_all add: philox_ok_def)
  from assms(3,4) same_key
  have "ComputeSingleRound (fst (?R (ph_counter p))) (snd (?R (ph_counter q))) =
      ComputeSingleRound (fst (?R (ph_counter q))) (snd (?R (ph_counter q)))"
    by (simp only: philox_sample_def Let_def split_beta fst_conv)
  then have "fst (?R (ph_counter p)) = fst (?R (ph_counter q))"
    by (rule round_inject [rotated 2]) (rule rounds_length [OF len(1)], rule rounds_length [OF len(2)])
  with same_key have "?R (ph_counter p) = ?R (ph_counter q)" by (rule prod_eqI [rotated])
  then have "ph_counter p = ph_counter q" by (rule rounds_inject [OF len])
  with assms(3) show ?thesis by simp
qed

section \<open>Properties\<close>

text \<open>
  C33: a stream has no short cycle.  Two samples of the stream of a generator are equal exactly if their
  positions differ by a multiple of \<open>2 ^ 128\<close>, whatever the seed.
\<close>

theorem philox_stream_period:
  assumes "philox_ok p"
  shows "fst (philox_sample (snd (samples i p))) = fst (philox_sample (snd (samples j p))) \<longleftrightarrow>
    i mod 2 ^ 128 = j mod 2 ^ 128"
proof -
  let ?v = "counter_value (ph_counter p)"
  have shifted: "(?v + i) mod 2 ^ 128 = (?v + j) mod 2 ^ 128 \<longleftrightarrow> i mod 2 ^ 128 = j mod 2 ^ 128"
    by (simp add: nat_mod_eq_iff)
  have "snd (samples i p) = snd (samples j p)"
    if "fst (philox_sample (snd (samples i p))) = fst (philox_sample (snd (samples j p)))"
    using samples_state [OF assms, of i] samples_state [OF assms, of j] that
    by (intro sample_inject [of "snd (samples i p)" "snd (samples j p)"]) (simp_all only:)
  with shifted same_samples [OF assms, of i j] show ?thesis by metis
qed

lemma philox_stream_period_witness:
  "fst (philox_sample (snd (samples 0 (PhiloxRandom_seed 7)))) \<noteq> fst (philox_sample (snd (samples 3 (PhiloxRandom_seed 7))))"
  using philox_stream_period [of "PhiloxRandom_seed 7" 0 3]
  by (simp add: philox_ok_def PhiloxRandom_seed_def PhiloxRandom_def Array_def)

text \<open>
  C34: skipping.  \<open>Skip\<close> leaves the generator where drawing as many samples leaves it, as the threads of
  the class comment rely on, unless adding the count to the lowest word of the counter reaches
  \<open>2 ^ 64\<close>: then the carry is added to a \<open>count_hi\<close> that is all ones, is lost, and the generator stays
  \<open>2 ^ 64\<close> samples behind.
\<close>

theorem philox_skip_draws:
  assumes "philox_ok p"
  shows "snd (samples (if unat n + unat (ph_counter p ! 0) < 2 ^ 64 then 0 else 2 ^ 64) (Skip n p)) = snd (samples (unat n) p)"
proof -
  let ?c = "ph_counter p" and ?m = "if unat n + unat (ph_counter p ! 0) < 2 ^ 64 then 0 else 2 ^ 64 :: nat"
  have len: "length ?c = 4" using assms by (simp add: philox_ok_def)
  then obtain c0 c1 c2 c3 where c: "?c = [c0, c1, c2, c3]" using length4 by blast
  have "(counter_value (Skip_counter n ?c) + ?m) mod 2 ^ 128 = (counter_value ?c + unat n) mod 2 ^ 128"
  proof (cases "unat n + unat (?c ! 0) < 2 ^ 64")
    case True
    then show ?thesis by (simp add: Skip_counter_value [OF len] mod_simps)
  next
    case False
    then have "2 ^ 64 \<le> counter_value ?c + unat n" by (simp add: c)
    with False show ?thesis by (simp add: Skip_counter_value [OF len])
  qed
  moreover have "snd (samples m (Skip n p)) = snd (samples (unat n) p)"
    if "(counter_value (Skip_counter n ?c) + m) mod 2 ^ 128 = (counter_value ?c + unat n) mod 2 ^ 128" for m
    using that samples_state [OF assms, of "unat n"] samples_state [of "Skip n p" m] assms
    by (intro philox_eqI) simp_all
  ultimately show ?thesis by blast
qed

lemma philox_skip_draws_witness:
  "Skip 5 PhiloxRandom = snd (samples 5 PhiloxRandom)"
  using philox_skip_draws [of PhiloxRandom 5] by (simp add: philox_ok_def PhiloxRandom_def Array_def)

text \<open>The lost carry: skipping \<open>2 ^ 64 - 1\<close> samples from counter 1 goes back to counter 0.\<close>

lemma skip_loses_carry:
  "Skip (NOT 0) (PhiloxRandom_state [1, 0, 0, 0] [0, 0]) = PhiloxRandom_state [0, 0, 0, 0] [0, 0]"
  by code_simp

end
