(* ===== verification/Random_Dist.thy ===== *)
theory Random_Dist
  imports Philox
begin

text \<open>
  \<open>core/lib/random/random_distributions.h\<close>, \<open>simple_philox.h\<close> and \<open>exact_uniform_int.h\<close>: drawing single
  words from a generator of blocks, uniform integers in a range, exactly uniform integers by
  rejection.  A generator is a function from its state to a block of words and its next state.
\<close>

type_synonym 'g generator = "'g \<Rightarrow> uint32 list \<times> 'g"

section \<open>Single samples\<close>

record 'g adapter =
  ad_generator :: 'g
  ad_unused :: "uint32 list"
  ad_used_index :: nat

definition SingleSampleAdapter :: "nat \<Rightarrow> 'g \<Rightarrow> 'g adapter" where
  "SingleSampleAdapter kNativeElementCount gen =
     \<lparr>ad_generator = gen, ad_unused = Array kNativeElementCount, ad_used_index = kNativeElementCount\<rparr>"

definition single :: "'g generator \<Rightarrow> nat \<Rightarrow> 'g adapter \<Rightarrow> uint32 \<times> 'g adapter" where
  "single generator kNativeElementCount a =
     (let a = (if ad_used_index a = kNativeElementCount then
                 let (r, g) = generator (ad_generator a) in
                 a\<lparr>ad_generator := g, ad_unused := r, ad_used_index := 0\<rparr>
               else a) in
      (ad_unused a ! ad_used_index a, a\<lparr>ad_used_index := ad_used_index a + 1\<rparr>))"

text \<open>\<open>while (num_skips--)\<close>\<close>

function SkipFromGenerator :: "'g generator \<Rightarrow> 64 word \<Rightarrow> 'g \<Rightarrow> 'g" where
  "SkipFromGenerator generator num_skips g =
     (if num_skips = 0 then g else SkipFromGenerator generator (num_skips - 1) (snd (generator g)))"
  by pat_completeness auto
termination
  by (relation "measure (\<lambda>(_, num_skips, _). unat num_skips)") (auto simp: measure_unat)

declare SkipFromGenerator.simps [simp del]

definition adapter_Skip :: "'g generator \<Rightarrow> nat \<Rightarrow> 64 word \<Rightarrow> 'g adapter \<Rightarrow> 'g adapter" where
  "adapter_Skip generator kNativeElementCount num_skips a =
     (if num_skips = 0 then a
      else
        let num_unused_results = kNativeElementCount - ad_used_index a in
        if num_skips \<le> of_nat num_unused_results then
          a\<lparr>ad_used_index := ad_used_index a + unat num_skips\<rparr>
        else
          let num_skips = num_skips - of_nat num_unused_results;
              a = a\<lparr>ad_used_index := kNativeElementCount,
                    ad_generator := SkipFromGenerator generator (num_skips div of_nat kNativeElementCount) (ad_generator a)\<rparr>;
              num_skips = num_skips mod of_nat kNativeElementCount in
          if num_skips \<noteq> 0 then
            let (r, g) = generator (ad_generator a) in
            a\<lparr>ad_generator := g, ad_unused := r, ad_used_index := unat num_skips\<rparr>
          else a)"

fun singles :: "'g generator \<Rightarrow> nat \<Rightarrow> nat \<Rightarrow> 'g adapter \<Rightarrow> uint32 list \<times> 'g adapter" where
  "singles generator n 0 a = ([], a)"
| "singles generator n (Suc k) a =
     (let (x, a) = single generator n a; (xs, a) = singles generator n k a in (x # xs, a))"

text \<open>\<open>SimplePhilox\<close> is an adapter of a \<open>PhiloxRandom\<close>.\<close>

definition Rand32 :: "philox adapter \<Rightarrow> uint32 \<times> philox adapter" where
  "Rand32 s = single philox_sample 4 s"

definition Rand64 :: "philox adapter \<Rightarrow> 64 word \<times> philox adapter" where
  "Rand64 s =
     (let (lo, s) = single philox_sample 4 s; (hi, s) = single philox_sample 4 s in
      (ucast lo OR push_bit 32 (ucast hi), s))"

section \<open>Integers\<close>

text \<open>\<open>std::make_unsigned<Int>\<close> has the bits of \<open>Int\<close>; both are words here, read by \<open>sint\<close> and \<open>unat\<close>.\<close>

definition signed_add :: "'w :: len word \<Rightarrow> 'w word \<Rightarrow> 'w word out" where
  "signed_add a b =
     (if - (2 ^ (LENGTH('w) - 1)) \<le> sint a + sint b \<and> sint a + sint b < 2 ^ (LENGTH('w) - 1) then Inr (a + b)
      else Inl SignedOverflow)"

definition SignedAdd :: "'w :: len word \<Rightarrow> 'w word \<Rightarrow> 'w word out" where
  "SignedAdd a b =
     (let b_div_2 = drop_bit 1 b in
      bnd (signed_add a b_div_2) (\<lambda>s. signed_add s (b - b_div_2)))"

definition remainder :: "'w :: len word \<Rightarrow> 'w word \<Rightarrow> 'w word out" where
  "remainder a b = (if b = 0 then Inl DivisionByZero else Inr (a mod b))"

definition UniformDistribution_int32 :: "nat \<Rightarrow> uint32 \<Rightarrow> uint32 \<Rightarrow> 'g generator \<Rightarrow> 'g \<Rightarrow> (uint32 list \<times> 'g) out" where
  "UniformDistribution_int32 kResultElementCount lo hi generator g =
     (let range = hi - lo; (sample, g) = generator g in
      bnd (for_each [0..<kResultElementCount]
        (\<lambda>i result. bnd (get sample i) (\<lambda>x. bnd (remainder x range) (\<lambda>r. bnd (SignedAdd lo r) (put result i))))
        (replicate kResultElementCount 0)) (\<lambda>result. Inr (result, g)))"

definition UniformDistribution_int64 :: "nat \<Rightarrow> 64 word \<Rightarrow> 64 word \<Rightarrow> 'g generator \<Rightarrow> 'g \<Rightarrow> (64 word list \<times> 'g) out" where
  "UniformDistribution_int64 kGeneratorElementCount lo hi generator g =
     (let range = hi - lo; (sample, g) = generator g; kResultElementCount = kGeneratorElementCount div 2 in
      bnd (for_each [0..<kResultElementCount]
        (\<lambda>i result. bnd (get sample (2 * i)) (\<lambda>x0. bnd (get sample (2 * i + 1)) (\<lambda>x1.
           let bits = ucast x0 OR push_bit 32 (ucast x1) in
           bnd (remainder bits range) (\<lambda>r. bnd (SignedAdd lo r) (put result i)))))
        (replicate kResultElementCount 0)) (\<lambda>result. Inr (result, g)))"

definition UniformFullIntDistribution32 :: "nat \<Rightarrow> 'g generator \<Rightarrow> 'g \<Rightarrow> (uint32 list \<times> 'g) out" where
  "UniformFullIntDistribution32 kResultElementCount generator g =
     (let (sample, g) = generator g in
      bnd (for_each [0..<kResultElementCount] (\<lambda>i result. bnd (get sample i) (put result i))
        (replicate kResultElementCount 0)) (\<lambda>result. Inr (result, g)))"

definition UniformFullIntDistribution64 :: "nat \<Rightarrow> 'g generator \<Rightarrow> 'g \<Rightarrow> (64 word list \<times> 'g) out" where
  "UniformFullIntDistribution64 kGeneratorElementCount generator g =
     (let (sample, g) = generator g; kResultElementCount = kGeneratorElementCount div 2 in
      bnd (for_each [0..<kResultElementCount]
        (\<lambda>i result. bnd (get sample (2 * i)) (\<lambda>x0. bnd (get sample (2 * i + 1)) (\<lambda>x1.
           put result i (ucast x0 OR push_bit 32 (ucast x1)))))
        (replicate kResultElementCount 0)) (\<lambda>result. Inr (result, g)))"

text \<open>\<open>random\<close> returns one unsigned integer; the loop of the rejection may run for ever.\<close>

definition reject_below :: "'w :: len word \<Rightarrow> 'w word \<Rightarrow> ('s \<Rightarrow> 'w word \<times> 's) \<Rightarrow> 's \<Rightarrow> ('s + 'w word \<times> 's) out" where
  "reject_below rem n random s =
     (let (rnd, s) = random s in if rnd < rem then Inr (Inl s) else Inr (Inr (rnd mod n, s)))"

definition ExactUniformInt :: "'w :: len word \<Rightarrow> ('s \<Rightarrow> 'w word \<times> 's) \<Rightarrow> 's \<Rightarrow> ('w word \<times> 's) out" where
  "ExactUniformInt n random s =
     (if n = 0 then let (r, s) = random s in Inr (r * n, s)
      else if 0 = n AND (n - 1) then let (r, s) = random s in Inr (r AND (n - 1), s)
      else
        let range = NOT 0; rem = range mod n + 1 in
        forever (reject_below rem n random) s)"

section \<open>Skipping in a stream of single words\<close>

text \<open>
  What the adapter needs of its generator: states that are \<open>ok\<close> stay so, and each sample has \<open>n\<close> words.
  The adapter then stands for a stream of words: those it has not given out, then the blocks to come.
\<close>

locale block_generator =
  fixes generator :: "'g generator" and n :: nat and ok :: "'g \<Rightarrow> bool"
  assumes count: "0 < n" "n < 2 ^ 64"
    and block: "ok g \<Longrightarrow> length (fst (generator g)) = n"
    and next_ok: "ok g \<Longrightarrow> ok (snd (generator g))"
begin

lemma blocks_ok: "ok g \<Longrightarrow> ok (((snd \<circ> generator) ^^ j) g)"
  by (induction j) (simp_all add: next_ok)

lemma SkipFromGenerator_blocks:
  "SkipFromGenerator generator w g = ((snd \<circ> generator) ^^ unat w) g"
proof (induction generator w g rule: SkipFromGenerator.induct)
  case (1 generator w g)
  show ?case
  proof (cases "w = 0")
    case False
    then have w: "unat w = Suc (unat (w - 1))" by (simp add: unat_minus_one unat_gt_0)
    have "SkipFromGenerator generator w g = ((snd \<circ> generator) ^^ unat (w - 1)) (snd (generator g))"
      using 1 False by (subst SkipFromGenerator.simps) (simp add: comp_def)
    then show ?thesis by (simp only: w funpow_Suc_right) simp
  qed (simp add: SkipFromGenerator.simps)
qed

text \<open>The words to come, numbered from 0.\<close>

definition word_at :: "'g adapter \<Rightarrow> nat \<Rightarrow> uint32" where
  "word_at a k =
     (if k < n - ad_used_index a then ad_unused a ! (ad_used_index a + k)
      else fst (generator (((snd \<circ> generator) ^^ ((k - (n - ad_used_index a)) div n)) (ad_generator a)))
        ! ((k - (n - ad_used_index a)) mod n))"

lemma word_at_next:
  "word_at (a\<lparr>ad_generator := h, ad_unused := r, ad_used_index := i\<rparr>) k =
     (if k < n - i then r ! (i + k)
      else fst (generator (((snd \<circ> generator) ^^ ((k - (n - i)) div n)) h)) ! ((k - (n - i)) mod n))"
  by (simp add: word_at_def del: Nat.diff_diff_right)

definition adapter_ok :: "'g adapter \<Rightarrow> bool" where
  "adapter_ok a \<longleftrightarrow> ok (ad_generator a) \<and> length (ad_unused a) = n \<and> ad_used_index a \<le> n"

lemma new_adapter_ok: "ok g \<Longrightarrow> adapter_ok (SingleSampleAdapter n g)"
  by (simp add: adapter_ok_def SingleSampleAdapter_def Array_def)

lemma single_spec:
  assumes "adapter_ok a" "single generator n a = (x, b)"
  shows "adapter_ok b" "x = word_at a 0" "word_at b k = word_at a (Suc k)"
proof -
  obtain r g where g: "generator (ad_generator a) = (r, g)" by fastforce
  with assms(1) block [of "ad_generator a"] next_ok [of "ad_generator a"] have r: "length r = n" "ok g"
    by (simp_all add: adapter_ok_def)
  show "adapter_ok b" using assms g r count by (auto simp: single_def adapter_ok_def Suc_le_eq split: if_splits)
  show "x = word_at a 0" using assms g r count by (auto simp: single_def word_at_def adapter_ok_def split: if_splits)
  show "word_at b k = word_at a (Suc k)"
  proof (cases "ad_used_index a = n")
    case True
    then have b: "b = a\<lparr>ad_generator := g, ad_unused := r, ad_used_index := 1\<rparr>"
      using assms(2) g by (simp add: single_def)
    show ?thesis
    proof (cases "Suc k < n")
      case True
      with \<open>ad_used_index a = n\<close> show ?thesis by (simp add: word_at_def b g less_diff_conv)
    next
      case False
      then have "Suc k div n = Suc ((Suc k - n) div n)" "Suc k mod n = (Suc k - n) mod n" "k - (n - 1) = Suc k - n"
        using count(1) by (simp_all add: le_div_geq le_mod_geq)
      with False \<open>ad_used_index a = n\<close> count(1) show ?thesis
        by (simp add: word_at_def b g less_diff_conv funpow_Suc_right del: funpow.simps)
    qed
  next
    case False
    with assms have "b = a\<lparr>ad_used_index := ad_used_index a + 1\<rparr>" "ad_used_index a < n"
      by (auto simp: single_def adapter_ok_def)
    then have "n - ad_used_index a = Suc (n - ad_used_index b)" "ad_generator b = ad_generator a" "ad_unused b = ad_unused a"
      "ad_used_index b = Suc (ad_used_index a)" by simp_all
    then show ?thesis by (simp add: word_at_def)
  qed
qed

lemma singles_words:
  "adapter_ok a \<Longrightarrow> singles generator n k a = (xs, b) \<Longrightarrow>
     xs = map (word_at a) [0..<k] \<and> adapter_ok b \<and> (\<forall>j. word_at b j = word_at a (k + j))"
proof (induction k arbitrary: a b xs)
  case (Suc k)
  obtain x c where s: "single generator n a = (x, c)" by fastforce
  obtain ys d where r: "singles generator n k c = (ys, d)" by fastforce
  from Suc.prems(2) s r have eq: "xs = x # ys" "b = d" by simp_all
  note c = single_spec [OF Suc.prems(1) s]
  have "map (word_at a) [0..<Suc k] = word_at a 0 # map (word_at c) [0..<k]"
    by (simp add: upt_conv_Cons map_Suc_upt [symmetric] c(3) del: upt_Suc)
  with eq c Suc.IH [OF c(1) r] show ?case by simp
qed simp

lemma Skip_words:
  assumes "adapter_ok a"
  shows "adapter_ok (adapter_Skip generator n m a)" "word_at (adapter_Skip generator n m a) k = word_at a (unat m + k)"
proof -
  let ?left = "n - ad_used_index a" and ?b = "adapter_Skip generator n m a"
  have left: "unat (of_nat ?left :: 64 word) = ?left" "unat (of_nat n :: 64 word) = n" "ad_used_index a \<le> n"
    using count assms unat_of_nat_small [of ?left] by (simp_all add: adapter_ok_def del: of_nat_diff)
  have "adapter_ok ?b \<and> word_at ?b k = word_at a (unat m + k)"
  proof (cases "unat m \<le> ?left")
    case True
    then have b: "?b = a\<lparr>ad_used_index := ad_used_index a + unat m\<rparr>"
      by (simp add: adapter_Skip_def word_le_nat_alt left del: of_nat_diff)
    have "n - (ad_used_index a + unat m) = ?left - unat m" "k < ?left - unat m \<longleftrightarrow> unat m + k < ?left"
      "k - (?left - unat m) = unat m + k - ?left" using True left(3) by auto
    then have "word_at ?b k = word_at a (unat m + k)" by (simp add: word_at_def b add.assoc Let_def)
    with True left(3) assms show ?thesis by (auto simp: b adapter_ok_def)
  next
    case False
    let ?m = "unat m - ?left"
    have m: "unat (m - of_nat ?left) = ?m" "m \<noteq> 0" using False by (auto simp: unat_sub word_le_nat_alt left simp del: of_nat_diff)
    let ?g = "((snd \<circ> generator) ^^ (?m div n)) (ad_generator a)"
    obtain r h where g: "generator ?g = (r, h)" by fastforce
    have ok: "ok ?g" using assms by (simp add: adapter_ok_def blocks_ok)
    with g block [of ?g] next_ok [of ?g] have r: "length r = n" "ok h" by simp_all
    have skipped: "SkipFromGenerator generator ((m - of_nat ?left) div of_nat n) (ad_generator a) = ?g"
      by (simp add: SkipFromGenerator_blocks unat_div m left del: of_nat_diff)
    have rest: "unat ((m - of_nat ?left) mod of_nat n) = ?m mod n" by (simp add: unat_mod m left del: of_nat_diff)
    then have rest0: "(m - of_nat ?left) mod of_nat n = 0 \<longleftrightarrow> ?m mod n = 0" by (metis unat_eq_0)
    have mod_lt: "?m mod n < n" using count(1) by simp
    have b: "?b = (if ?m mod n \<noteq> 0 then a\<lparr>ad_generator := h, ad_unused := r, ad_used_index := ?m mod n\<rparr>
                   else a\<lparr>ad_used_index := n, ad_generator := ?g\<rparr>)"
      using False by (simp add: adapter_Skip_def word_le_nat_alt left m rest rest0 skipped g del: of_nat_diff Nat.diff_diff_right)
    have far: "word_at a (unat m + k) =
        fst (generator (((snd \<circ> generator) ^^ ((?m + k) div n)) (ad_generator a))) ! ((?m + k) mod n)"
      using False by (simp add: word_at_def del: Nat.diff_diff_right)
    show ?thesis
    proof (cases "?m mod n = 0")
      case True
      then have "(?m + k) div n = k div n + ?m div n" "(?m + k) mod n = k mod n"
        by (auto elim!: dvdE simp: mod_eq_0_iff_dvd count(1))
      with True ok assms show ?thesis
        unfolding far by (simp add: b word_at_def adapter_ok_def funpow_add del: Nat.diff_diff_right)
    next
      case rest: False
      let ?i = "?m mod n"
      have mk: "?m + k = ?m div n * n + (?i + k)" by simp
      show ?thesis
      proof (cases "?i + k < n")
        case True
        then have "(?m + k) div n = ?m div n" "(?m + k) mod n = ?i + k"
          by (simp_all only: mk div_mult_self3 mod_mult_self3) simp_all
        with rest True r mod_lt g show ?thesis
          unfolding far by (simp add: b word_at_def adapter_ok_def less_diff_conv add.commute del: Nat.diff_diff_right)
      next
        case False
        then have k: "k - (n - ?i) = ?i + k - n" "\<not> k < n - ?i" using mod_lt by (simp_all add: add.commute)
        from False count(1) have "(?m + k) div n = (?i + k - n) div n + Suc (?m div n)" "(?m + k) mod n = (?i + k - n) mod n"
          by (simp_all only: mk div_mult_self3 mod_mult_self3) (simp_all add: le_div_geq le_mod_geq)
        have blocks: "((snd \<circ> generator) ^^ ((?i + k - n) div n + Suc (?m div n))) (ad_generator a) =
            ((snd \<circ> generator) ^^ ((?i + k - n) div n)) h"
          by (simp only: funpow_add o_apply funpow.simps g snd_conv)
        have b: "?b = a\<lparr>ad_generator := h, ad_unused := r, ad_used_index := ?i\<rparr>" using b rest by (simp only: if_True not_False_eq_True)
        have "word_at ?b k = fst (generator (((snd \<circ> generator) ^^ ((?i + k - n) div n)) h)) ! ((?i + k - n) mod n)"
          using k(2) by (simp only: b word_at_next k(1) if_False)
        moreover have "adapter_ok ?b" unfolding b using r mod_lt by (simp add: adapter_ok_def)
        ultimately show ?thesis unfolding far by (simp only: blocks \<open>(?m + k) div n = _\<close> \<open>(?m + k) mod n = _\<close>)
      qed
    qed
  qed
  then show "adapter_ok ?b" "word_at ?b k = word_at a (unat m + k)" by simp_all
qed

lemma word_at_new: "word_at (SingleSampleAdapter n g) k = fst (generator (((snd \<circ> generator) ^^ (k div n)) g)) ! (k mod n)"
  by (simp add: word_at_def SingleSampleAdapter_def)

lemma skip_then_draw:
  assumes "ok g" "singles generator n i (SingleSampleAdapter n g) = (xs, a)"
  shows "fst (singles generator n k (adapter_Skip generator n m a)) =
    map (\<lambda>j. fst (generator (((snd \<circ> generator) ^^ (j div n)) g)) ! (j mod n)) [i + unat m..<i + unat m + k]"
proof -
  obtain ys b where s: "singles generator n k (adapter_Skip generator n m a) = (ys, b)" by fastforce
  note a = singles_words [OF new_adapter_ok [OF assms(1)] assms(2)]
  with Skip_words [of a m] singles_words [OF _ s] have "ys = map (\<lambda>j. word_at (SingleSampleAdapter n g) (i + unat m + j)) [0..<k]"
    by (simp add: add.assoc)
  then show ?thesis by (simp add: s word_at_new map_add_upt [symmetric] add.commute comp_def)
qed

end

text \<open>Philox is such a generator, with blocks of four words.\<close>

interpretation philox_blocks: block_generator philox_sample 4 philox_ok
  by unfold_locales (simp_all add: length_sample)

section \<open>Remainders are spread evenly\<close>

lemma card_residue:
  fixes n :: nat
  assumes "v < n"
  shows "card {x. x < N \<and> x mod n = v} = N div n + (if v < N mod n then 1 else 0)"
proof -
  let ?m = "N div n + (if v < N mod n then 1 else 0)"
  have "{x. x < N \<and> x mod n = v} = (\<lambda>k. k * n + v) ` {..<?m}"
  proof (intro equalityI subsetI)
    fix x assume "x \<in> {x. x < N \<and> x mod n = v}"
    then have x: "x < N" "x = x div n * n + v" by (auto simp: mult.commute)
    have "x div n < ?m"
    proof (cases "x div n < N div n")
      case False
      with x(1) have "x div n = N div n" by (simp add: div_le_mono le_antisym)
      with x have "N div n * n + v < N div n * n + N mod n" by (simp only: div_mult_mod_eq)
      then have "v < N mod n" by (rule add_less_imp_less_left)
      then show ?thesis using \<open>x div n = N div n\<close> by simp
    qed simp
    with x(2) show "x \<in> (\<lambda>k. k * n + v) ` {..<?m}" by blast
  next
    fix x assume "x \<in> (\<lambda>k. k * n + v) ` {..<?m}"
    then obtain k where k: "k < ?m" "x = k * n + v" by blast
    have "x < N"
    proof (cases "k < N div n")
      case True
      then have "Suc k * n \<le> N div n * n" by (intro mult_le_mono1) simp
      also have "\<dots> \<le> N" by simp
      finally show ?thesis using k(2) assms by simp
    next
      case False
      with k have "k = N div n" "v < N mod n" by (auto split: if_splits)
      with k(2) have "x < N div n * n + N mod n" by (simp only: add_strict_left_mono)
      also have "\<dots> = N" by (rule div_mult_mod_eq)
      finally show ?thesis .
    qed
    with k(2) assms show "x \<in> {x. x < N \<and> x mod n = v}" by simp
  qed
  moreover have "inj_on (\<lambda>k. k * n + v) {..<?m}" using assms by (auto intro: inj_onI)
  ultimately show ?thesis by (simp add: card_image)
qed

lemma card_words: "card {w :: 'w :: len word. P (unat w)} = card {x. x < 2 ^ LENGTH('w) \<and> P x}"
proof -
  have small: "unat (of_nat x :: 'w word) = x" if "x < 2 ^ LENGTH('w)" for x
    using that by (simp add: unat_of_nat take_bit_nat_eq_self)
  have "unat ` {w :: 'w word. P (unat w)} = {x. x < 2 ^ LENGTH('w) \<and> P x}"
  proof (intro equalityI subsetI)
    fix x assume "x \<in> {x. x < 2 ^ LENGTH('w) \<and> P x}"
    with small [of x] show "x \<in> unat ` {w :: 'w word. P (unat w)}"
      by (intro image_eqI [of _ _ "of_nat x :: 'w word"]) simp_all
  qed auto
  moreover have "inj_on unat {w :: 'w word. P (unat w)}" by (auto intro: inj_onI simp: word_unat_eq_iff)
  ultimately show ?thesis by (metis card_image)
qed

text \<open>The test for a power of two: it divides the number of words, and masking is taking the remainder.\<close>

lemma and_pred_zero: "n AND (n - 1) = 0 \<longleftrightarrow> n = 0 \<or> (\<exists>k. n = 2 ^ k)" for n :: nat
proof (induction n rule: less_induct)
  case (less n)
  show ?case
  proof (cases "n \<le> 1")
    case True
    then have "n = 0 \<or> n = 2 ^ 0" by auto
    then show ?thesis
    proof
      assume n: "n = 2 ^ 0"
      then have "n AND (n - 1) = 0" by simp
      with n show ?thesis by blast
    qed simp
  next
    case False
    show ?thesis
    proof (cases "even n")
      case True
      then obtain m where m: "n = 2 * m" by blast
      with False have "n - 1 = 2 * (m - 1) + 1" by simp
      then have "n AND (n - 1) = 2 * (m AND (m - 1))" by (simp add: m and_nat_rec [of "2 * m"])
      moreover have "(\<exists>k. n = 2 ^ k) \<longleftrightarrow> (\<exists>k. m = 2 ^ k)"
      proof
        assume "\<exists>k. n = 2 ^ k"
        then obtain k where k: "n = 2 ^ k" by blast
        with False have "k \<noteq> 0" by (cases k) auto
        with k m have "m = 2 ^ (k - 1)" by (cases k) auto
        then show "\<exists>k. m = 2 ^ k" by blast
      next
        assume "\<exists>k. m = 2 ^ k"
        then show "\<exists>k. n = 2 ^ k" using m by (metis power_Suc)
      qed
      ultimately show ?thesis using less.IH [of m] m False by auto
    next
      case odd: False
      then obtain m where m: "n = 2 * m + 1" by (blast elim: oddE)
      then have "n AND (n - 1) = 2 * m" by (simp add: and_nat_rec [of "Suc (2 * m)"])
      moreover have "\<not> (\<exists>k. n = 2 ^ k)" using odd False
        by (metis even_power numeral_One one_le_numeral le_eq_less_or_eq power_0 dvd_refl not_gr_zero)
      ultimately show ?thesis using m False by simp
    qed
  qed
qed

lemma dvd_power_of_two: "n dvd 2 ^ L \<Longrightarrow> \<exists>k. n = 2 ^ k" for n :: nat
proof (induction L arbitrary: n)
  case 0
  then have "n = 2 ^ 0" by simp
  then show ?case by blast
next
  case (Suc L)
  show ?case
  proof (cases "even n")
    case True
    then obtain m where m: "n = 2 * m" by blast
    with Suc.prems have "m dvd 2 ^ L" by simp
    then obtain k where "m = 2 ^ k" using Suc.IH by blast
    with m have "n = 2 ^ Suc k" by simp
    then show ?thesis by blast
  next
    case False
    then have "coprime n 2" by simp
    with Suc.prems have "n dvd 2 ^ L" by (simp add: coprime_dvd_mult_right_iff)
    then show ?thesis by (rule Suc.IH)
  qed
qed

lemma power_of_two_word:
  fixes n :: "'w :: len word"
  assumes "n \<noteq> 0"
  shows "n AND (n - 1) = 0 \<longleftrightarrow> unat n dvd 2 ^ LENGTH('w)"
    and "n AND (n - 1) = 0 \<Longrightarrow> unat (r AND (n - 1)) = unat r mod unat n"
proof -
  have pred: "unat (n - 1) = unat n - 1" using assms by (simp add: unat_minus_one)
  have less: "unat n < 2 ^ LENGTH('w)" by (rule unsigned_less)
  have "n AND (n - 1) = 0 \<longleftrightarrow> unat (n AND (n - 1)) = 0" by (simp add: unat_eq_0)
  also have "\<dots> \<longleftrightarrow> unat n AND (unat n - 1) = 0" by (simp only: unsigned_and_eq pred)
  also have "\<dots> \<longleftrightarrow> (\<exists>k. unat n = 2 ^ k)" using assms by (simp only: and_pred_zero) (simp add: unat_eq_0)
  finally have two: "n AND (n - 1) = 0 \<longleftrightarrow> (\<exists>k. unat n = 2 ^ k)" .
  show "n AND (n - 1) = 0 \<longleftrightarrow> unat n dvd 2 ^ LENGTH('w)"
  proof
    assume "n AND (n - 1) = 0"
    with two obtain k where k: "unat n = 2 ^ k" by blast
    with less have "k < LENGTH('w)" by simp
    then have "(2 :: nat) ^ k dvd 2 ^ LENGTH('w)" by (intro le_imp_power_dvd) simp
    with k show "unat n dvd 2 ^ LENGTH('w)" by simp
  next
    assume "unat n dvd 2 ^ LENGTH('w)"
    then show "n AND (n - 1) = 0" using two dvd_power_of_two by blast
  qed
  assume "n AND (n - 1) = 0"
  with two obtain k where k: "unat n = 2 ^ k" by blast
  have "unat (r AND (n - 1)) = unat r AND mask k" by (simp only: unsigned_and_eq pred k mask_eq_exp_minus_1)
  then show "unat (r AND (n - 1)) = unat r mod unat n" by (simp add: k take_bit_eq_mod flip: take_bit_eq_mask)
qed

text \<open>The words the rejection keeps: as many as fill whole blocks of \<open>n\<close>.\<close>

definition accepts :: "'w :: len word \<Rightarrow> 'w word \<Rightarrow> bool" where
  "accepts n r \<longleftrightarrow> 2 ^ LENGTH('w) mod unat n \<le> unat r"

lemma rejection_bound:
  fixes n :: "'w :: len word"
  assumes "n \<noteq> 0" "n AND (n - 1) \<noteq> 0"
  shows "unat ((NOT 0 :: 'w word) mod n + 1) = 2 ^ LENGTH('w) mod unat n"
proof -
  let ?N = "2 ^ LENGTH('w) :: nat"
  have n: "0 < unat n" "unat n < ?N" using assms(1) unsigned_less [of n, where 'a = nat] by (auto simp: unat_gt_0)
  have "unat (NOT 0 :: 'w word) = ?N - 1" by (simp add: unsigned_minus_1_eq_mask mask_eq_exp_minus_1)
  then have m: "unat ((NOT 0 :: 'w word) mod n) = (?N - 1) mod unat n" by (simp add: unat_mod)
  have "\<not> unat n dvd ?N" using assms power_of_two_word(1) by blast
  then have "Suc ((?N - 1) mod unat n) \<noteq> unat n"
    by (metis Suc_diff_1 mod_Suc dvd_eq_mod_eq_0 zero_less_numeral zero_less_power)
  then have "?N mod unat n = Suc ((?N - 1) mod unat n)"
    using mod_Suc [of "?N - 1" "unat n"] by simp
  moreover have "Suc ((?N - 1) mod unat n) < ?N" using n by (metis Suc_lessI \<open>Suc ((?N - 1) mod unat n) \<noteq> unat n\<close> less_trans mod_less_divisor)
  moreover have "unat (x + 1) = Suc (unat x)" if "Suc (unat x) < ?N" for x :: "'w word"
    using that by (simp add: unat_word_ariths)
  ultimately show ?thesis by (simp only: m)
qed

lemma accepted_spread:
  fixes n :: "'w :: len word"
  assumes "v < unat n"
  shows "card {r. accepts n r \<and> unat r mod unat n = v} = 2 ^ LENGTH('w) div unat n"
proof -
  let ?N = "2 ^ LENGTH('w) :: nat" and ?n = "unat n"
  let ?rem = "?N mod ?n"
  have "card {r. accepts n r \<and> unat r mod ?n = v} = card {x. x < ?N \<and> ?rem \<le> x \<and> x mod ?n = v}"
    unfolding accepts_def by (rule card_words [of "\<lambda>x. ?rem \<le> x \<and> x mod ?n = v"])
  also have "{x. x < ?N \<and> ?rem \<le> x \<and> x mod ?n = v} = {x. x < ?N \<and> x mod ?n = v} - {x. x < ?rem \<and> x mod ?n = v}"
    by auto
  also have "card \<dots> = card {x. x < ?N \<and> x mod ?n = v} - card {x. x < ?rem \<and> x mod ?n = v}"
  proof (intro card_Diff_subset subsetI)
    show "x \<in> {x. x < ?N \<and> x mod ?n = v}" if "x \<in> {x. x < ?rem \<and> x mod ?n = v}" for x
      using that less_le_trans [OF _ mod_less_eq_dividend [of ?N ?n], of x] by simp
  qed simp
  also have "\<dots> = ?N div ?n"
  proof -
    have "?rem < ?n" using assms by simp
    then show ?thesis by (simp only: card_residue [OF assms]) simp
  qed
  finally show ?thesis .
qed

section \<open>Properties\<close>

text \<open>The words a source of randomness gives, numbered from 0, and its state before each of them.\<close>

definition source_state :: "('s \<Rightarrow> 'w \<times> 's) \<Rightarrow> 's \<Rightarrow> nat \<Rightarrow> 's" where
  "source_state random s i = ((snd \<circ> random) ^^ i) s"

definition source_word :: "('s \<Rightarrow> 'w \<times> 's) \<Rightarrow> 's \<Rightarrow> nat \<Rightarrow> 'w" where
  "source_word random s i = fst (random (source_state random s i))"

lemma source_steps:
  "random (source_state random s i) = (source_word random s i, source_state random s (Suc i))"
  by (simp add: source_state_def source_word_def)

lemma reject_step:
  assumes "n \<noteq> 0" "n AND (n - 1) \<noteq> 0"
  shows "reject_below ((NOT 0) mod n + 1) n random (source_state random s i) =
    (if accepts n (source_word random s i) then Inr (Inr (source_word random s i mod n, source_state random s (Suc i)))
     else Inr (Inl (source_state random s (Suc i))))"
proof -
  have "r < (NOT 0) mod n + 1 \<longleftrightarrow> \<not> accepts n r" for r
    using rejection_bound [OF assms] by (simp only: word_less_nat_alt accepts_def not_le)
  then show ?thesis by (simp only: reject_below_def source_steps Let_def prod.case) simp
qed

text \<open>
  C35: exactly uniform integers.  For \<open>n > 0\<close> the function returns the remainder of the first word of the
  source that is accepted, whether \<open>n\<close> is a power of two (then every word is) or not; the result is
  below \<open>n\<close>, and each possible result comes from equally many accepted words.
\<close>

theorem exact_uniform_int:
  fixes n :: "'w :: len word" and s :: 's
  assumes "n \<noteq> 0" and "accepts n (source_word random s i)" and "\<And>j. j < i \<Longrightarrow> \<not> accepts n (source_word random s j)"
  shows "ExactUniformInt n random s = Inr (source_word random s i mod n, source_state random s (Suc i)) \<and>
    source_word random s i mod n < n \<and>
    (\<forall>v. card {r. accepts n r \<and> unat r mod unat n = v} = (if v < unat n then 2 ^ LENGTH('w) div unat n else 0))"
proof (intro conjI allI)
  show "source_word random s i mod n < n" using assms(1) by (simp add: word_less_nat_alt unat_mod unat_gt_0)
  show "card {r. accepts n r \<and> unat r mod unat n = v} = (if v < unat n then 2 ^ LENGTH('w) div unat n else 0)" for v
  proof (cases "v < unat n")
    case False
    with assms(1) have "{r. accepts n r \<and> unat r mod unat n = v} = {}" by (auto simp: unat_gt_0)
    with False show ?thesis by simp
  qed (simp add: accepted_spread)
  show "ExactUniformInt n random s = Inr (source_word random s i mod n, source_state random s (Suc i))"
  proof (cases "n AND (n - 1) = 0")
    case True
    with power_of_two_word(1) [OF assms(1)] have "accepts n r" for r by (simp add: accepts_def)
    with assms(3) [of 0] have "i = 0" by (cases i) auto
    moreover have "source_word random s i AND (n - 1) = source_word random s i mod n"
      using power_of_two_word(2) [OF assms(1) True, of "source_word random s i"]
      by (simp add: word_unat_eq_iff unat_mod)
    ultimately show ?thesis using assms(1) True
      by (cases "random s") (simp add: ExactUniformInt_def source_state_def source_word_def)
  next
    case False
    have "forever (reject_below ((NOT 0) mod n + 1) n random) (source_state random s 0) =
        Inr (source_word random s i mod n, source_state random s (Suc i))"
      by (rule forever_leaves [where n = i]) (simp_all only: reject_step [OF assms(1) False] assms(2,3) if_True if_False)
    then show ?thesis using assms(1) False by (simp add: ExactUniformInt_def source_state_def Let_def)
  qed
qed

lemma exact_uniform_int_witness:
  "ExactUniformInt 3 (\<lambda>s :: 8 word. (s, s + 5)) 0 = Inr (2, 10) \<and> card {r :: 8 word. accepts 3 r \<and> unat r mod 3 = 1} = 85"
  using exact_uniform_int [of "3 :: 8 word" "\<lambda>s. (s, s + 5)" 0 1]
  by (simp add: accepts_def source_word_def source_state_def)

text \<open>A source that gives no accepted word keeps the loop running.\<close>

lemma exact_uniform_int_stays:
  fixes n :: "'w :: len word" and s :: 's
  assumes "n \<noteq> 0" "n AND (n - 1) \<noteq> 0" "\<And>j. \<not> accepts n (source_word random s j)"
  shows "ExactUniformInt n random s = Inl NoReturn"
proof -
  have "forever (reject_below ((NOT 0) mod n + 1) n random) s = Inl NoReturn"
  proof (rule forever_stays [where P = "\<lambda>t. \<exists>j. t = source_state random s j"])
    show "\<exists>j. s = source_state random s j" by (rule exI [of _ 0]) (simp add: source_state_def)
    show "\<exists>t'. reject_below ((NOT 0) mod n + 1) n random t = Inr (Inl t') \<and> (\<exists>j. t' = source_state random s j)"
      if "\<exists>j. t = source_state random s j" for t
    proof -
      from that obtain j where "t = source_state random s j" by blast
      with assms(3) show ?thesis by (simp only: reject_step [OF assms(1,2)] if_False) blast
    qed
  qed
  then show ?thesis using assms(1,2) by (simp add: ExactUniformInt_def Let_def)
qed

section \<open>Uniform integers in a range\<close>

lemma bnd_bnd: "bnd (bnd r f) g = bnd r (\<lambda>x. bnd (f x) g)"
  by (cases r) simp_all

lemma fill_array:
  assumes "\<And>i r. i < n \<Longrightarrow> length r = n \<Longrightarrow> f i r = Inr (r[i := g i])"
  shows "for_each [0..<n] f (replicate n 0) = Inr (map g [0..<n])"
proof -
  have "\<exists>r. for_each [0..<n] f (replicate n 0) = Inr r \<and> (length r = n \<and> (\<forall>i<n. r ! i = g i))"
    using for_each_rule [where P = "\<lambda>k r. length r = n \<and> (\<forall>i<k. r ! i = g i)" and n = n and f = f and s = "replicate n 0"]
      assms by (auto simp: less_Suc_eq)
  then obtain r where "for_each [0..<n] f (replicate n 0) = Inr r" "length r = n" "\<forall>i<n. r ! i = g i" by blast
  moreover from this have "r = map g [0..<n]" by (intro nth_equalityI) simp_all
  ultimately show ?thesis by simp
qed

lemma sint_nonneg_word:
  "unat x < 2 ^ (LENGTH('w) - 1) \<Longrightarrow> sint (x :: 'w :: len word) = int (unat x)"
proof -
  assume "unat x < 2 ^ (LENGTH('w) - 1)"
  then have "int (unat x) < int (2 ^ (LENGTH('w) - 1))" by (simp only: of_nat_less_iff)
  then have "uint x < 2 ^ (LENGTH('w) - 1)" by (simp only: uint_nat of_nat_power of_nat_numeral)
  moreover have "- (2 ^ (LENGTH('w) - 1)) \<le> uint x" by (rule order_trans [of _ 0]) simp_all
  ultimately have "signed_take_bit (LENGTH('w) - 1) (uint x) = uint x" by (rule signed_take_bit_int_eq_self [rotated])
  then show "sint x = int (unat x)" by (simp only: sint_uint uint_nat One_nat_def)
qed

lemma signed_add_exact:
  fixes a b :: "'w :: len word"
  assumes "- (2 ^ (LENGTH('w) - 1)) \<le> sint a + sint b" "sint a + sint b < 2 ^ (LENGTH('w) - 1)"
  shows "signed_add a b = Inr (a + b)" "sint (a + b) = sint a + sint b"
  using assms by (simp_all add: signed_add_def sint_word_ariths signed_take_bit_int_eq_self)

lemma word_bounds:
  fixes a :: "'w :: len word"
  shows "- (2 ^ (LENGTH('w) - 1)) \<le> sint a" "sint a < 2 ^ (LENGTH('w) - 1)" "(2 :: int) ^ LENGTH('w) = 2 * 2 ^ (LENGTH('w) - 1)"
  using sint_greater_eq [of a] sint_less [of a] by (simp_all flip: power_Suc)

lemma SignedAdd_exact:
  fixes a b :: "'w :: len word"
  assumes "sint a + int (unat b) < 2 ^ (LENGTH('w) - 1)" "unat b < 2 ^ LENGTH('w) - 1"
  shows "SignedAdd a b = Inr (a + b)" "sint (a + b) = sint a + int (unat b)"
proof -
  let ?h = "drop_bit 1 b" and ?H = "2 ^ (LENGTH('w) - 1) :: nat"
  have h: "unat ?h = unat b div 2" using unat_drop_bit_div [of 1 b] by simp
  then have le: "?h \<le> b" by (simp add: word_le_nat_alt)
  then have r: "unat (b - ?h) = unat b - unat b div 2" by (simp only: unat_sub [OF le] h)
  have "unat b + 1 < 2 * ?H" using assms(2) by (simp flip: power_Suc)
  then have "unat b div 2 < ?H" "unat b - unat b div 2 < ?H" by linarith+
  then have s: "sint ?h = int (unat b div 2)" "sint (b - ?h) = int (unat b - unat b div 2)"
    using sint_nonneg_word [of ?h] sint_nonneg_word [of "b - ?h"] by (simp_all only: h r)
  have split: "int (unat b div 2) + int (unat b - unat b div 2) = int (unat b)" by simp
  have halves: "0 \<le> int (unat b div 2)" "int (unat b div 2) \<le> int (unat b)"
    using of_nat_mono [OF div_le_dividend [of "unat b" 2], where 'a = int] by (simp_all only: of_nat_0_le_iff)
  have a1: "signed_add a ?h = Inr (a + ?h)" "sint (a + ?h) = sint a + int (unat b div 2)"
    using signed_add_exact [of a ?h, unfolded s(1)] assms(1) word_bounds(1) [of a] halves by linarith+
  have a2: "signed_add (a + ?h) (b - ?h) = Inr (a + ?h + (b - ?h))"
    "sint (a + ?h + (b - ?h)) = sint a + int (unat b div 2) + int (unat b - unat b div 2)"
    using signed_add_exact [of "a + ?h" "b - ?h", unfolded s(2) a1(2)] assms(1) word_bounds(1) [of a] split by linarith+
  have sum: "a + ?h + (b - ?h) = a + b" by simp
  show "SignedAdd a b = Inr (a + b)" by (simp add: SignedAdd_def Let_def a1(1) a2(1) del: One_nat_def)
  show "sint (a + b) = sint a + int (unat b)" using a2(2) [unfolded sum] split by linarith
qed

text \<open>The width of a range, and a value in it from any word.\<close>

lemma range_width:
  fixes lo hi :: "'w :: len word"
  assumes "sint lo < sint hi"
  shows "int (unat (hi - lo)) = sint hi - sint lo" "hi - lo \<noteq> 0"
proof -
  have "sint hi - sint lo < 2 ^ LENGTH('w)" using word_bounds(1) [of lo] word_bounds(2) [of hi] word_bounds(3) [where 'w = 'w] by linarith
  moreover have "int (unat (hi - lo)) = take_bit LENGTH('w) (sint hi - sint lo)"
    by (simp only: uint_nat [symmetric] uint_sint [of "hi - lo"] sint_word_ariths take_bit_signed_take_bit One_nat_def diff_le_self)
  ultimately show "int (unat (hi - lo)) = sint hi - sint lo" using assms by (simp add: take_bit_int_eq_self)
  then show "hi - lo \<noteq> 0" using assms by auto
qed

lemma uniform_element:
  fixes lo hi x :: "'w :: len word"
  assumes "sint lo < sint hi"
  shows "bnd (remainder x (hi - lo)) (SignedAdd lo) = Inr (lo + x mod (hi - lo))"
    and "sint (lo + x mod (hi - lo)) = sint lo + int (unat x mod unat (hi - lo))"
proof -
  let ?r = "hi - lo"
  have less: "unat (x mod ?r) < unat ?r" using range_width(2) [OF assms] by (simp add: unat_mod unat_gt_0)
  then have "sint lo + int (unat (x mod ?r)) < 2 ^ (LENGTH('w) - 1)"
    using range_width(1) [OF assms] word_bounds(2) [of hi] by linarith
  moreover have "unat (x mod ?r) < 2 ^ LENGTH('w) - 1" using less unsigned_less [of ?r, where 'a = nat] by linarith
  ultimately have "SignedAdd lo (x mod ?r) = Inr (lo + x mod ?r)" "sint (lo + x mod ?r) = sint lo + int (unat (x mod ?r))"
    by (rule SignedAdd_exact)+
  then show "bnd (remainder x ?r) (SignedAdd lo) = Inr (lo + x mod ?r)"
    "sint (lo + x mod ?r) = sint lo + int (unat x mod unat ?r)"
    using range_width(2) [OF assms] by (simp_all add: remainder_def unat_mod)
qed

lemma uniform_in_range:
  fixes lo hi x :: "'w :: len word"
  assumes "sint lo < sint hi"
  shows "sint lo \<le> sint (lo + x mod (hi - lo))" "sint (lo + x mod (hi - lo)) < sint hi"
proof -
  have "unat x mod unat (hi - lo) < unat (hi - lo)" using range_width(2) [OF assms] by (simp add: unat_gt_0)
  then show "sint (lo + x mod (hi - lo)) < sint hi"
    using uniform_element(2) [OF assms, of x] range_width(1) [OF assms] by linarith
  show "sint lo \<le> sint (lo + x mod (hi - lo))" using uniform_element(2) [OF assms, of x] by simp
qed

lemma uniform_spread:
  fixes lo hi v :: "'w :: len word"
  assumes "sint lo < sint hi" "sint lo \<le> sint v" "sint v < sint hi"
  shows "card {x. lo + x mod (hi - lo) = v} \<in> {2 ^ LENGTH('w) div unat (hi - lo), 2 ^ LENGTH('w) div unat (hi - lo) + 1}"
proof -
  let ?r = "unat (hi - lo)"
  let ?d = "nat (sint v - sint lo)"
  have d: "sint v = sint lo + int ?d" "?d < ?r"
    using assms(2,3) range_width(1) [OF assms(1)] by linarith+
  have "lo + x mod (hi - lo) = v \<longleftrightarrow> unat x mod ?r = ?d" for x
  proof -
    have "lo + x mod (hi - lo) = v \<longleftrightarrow> sint (lo + x mod (hi - lo)) = sint v" by (rule word_eq_iff_signed)
    also have "\<dots> \<longleftrightarrow> sint lo + int (unat x mod ?r) = sint lo + int ?d"
      by (rule arg_cong2 [where f = "(=)", OF uniform_element(2) [OF assms(1)] d(1)])
    finally show ?thesis by (simp only: add_left_cancel of_nat_eq_iff)
  qed
  then have "card {x. lo + x mod (hi - lo) = v} = card {x. x < 2 ^ LENGTH('w) \<and> x mod ?r = ?d}"
    using card_words [of "\<lambda>x. x mod ?r = ?d", where 'w = 'w] by (simp only:)
  then show ?thesis using card_residue [OF d(2), of "2 ^ LENGTH('w)"] by simp
qed

lemma uniform_int32_samples:
  assumes "sint lo < sint hi" "generator g = (sample, g')" "length sample = n"
  shows "UniformDistribution_int32 n lo hi generator g = Inr (map (\<lambda>x. lo + x mod (hi - lo)) sample, g')"
proof -
  have "for_each [0..<n] (\<lambda>i result. bnd (get sample i) (\<lambda>x. bnd (remainder x (hi - lo)) (\<lambda>r. bnd (SignedAdd lo r) (put result i))))
      (replicate n 0) = Inr (map (\<lambda>i. lo + sample ! i mod (hi - lo)) [0..<n])"
    by (rule fill_array) (simp add: assms(3) uniform_element(1) [OF assms(1)] flip: bnd_bnd)
  moreover have "map (\<lambda>i. lo + sample ! i mod (hi - lo)) [0..<n] = map (\<lambda>x. lo + x mod (hi - lo)) sample"
    using assms(3) by (intro nth_equalityI) simp_all
  ultimately show ?thesis using assms(2) by (simp add: UniformDistribution_int32_def)
qed

lemma uniform_int64_samples:
  assumes "sint lo < sint hi" "generator g = (sample, g')" "length sample = 2 * n"
  shows "UniformDistribution_int64 (2 * n) lo hi generator g =
    Inr (map (\<lambda>i. lo + (ucast (sample ! (2 * i)) OR push_bit 32 (ucast (sample ! (2 * i + 1)))) mod (hi - lo)) [0..<n], g')"
proof -
  have "for_each [0..<n] (\<lambda>i result. bnd (get sample (2 * i)) (\<lambda>x0. bnd (get sample (2 * i + 1)) (\<lambda>x1.
           let bits = ucast x0 OR push_bit 32 (ucast x1) in
           bnd (remainder bits (hi - lo)) (\<lambda>r. bnd (SignedAdd lo r) (put result i)))))
      (replicate n 0) =
      Inr (map (\<lambda>i. lo + (ucast (sample ! (2 * i)) OR push_bit 32 (ucast (sample ! (2 * i + 1)))) mod (hi - lo)) [0..<n])"
    by (rule fill_array) (simp add: assms(3) uniform_element(1) [OF assms(1)] Let_def flip: bnd_bnd)
  then show ?thesis using assms(2) by (simp add: UniformDistribution_int64_def)
qed

text \<open>
  C36: uniform integers.  For \<open>lo < hi\<close> each sample of Philox gives four integers in \<open>[lo, hi)\<close>, no signed
  addition overflows even when \<open>hi - lo\<close> does not fit the signed type, and each integer of the range
  comes from \<open>\<lfloor>2 ^ 32 / (hi - lo)\<rfloor>\<close> words or from one more.
\<close>

theorem uniform_distribution_int32:
  assumes "philox_ok p" and "sint lo < sint hi"
  shows "UniformDistribution_int32 4 lo hi philox_sample p =
      Inr (map (\<lambda>x. lo + x mod (hi - lo)) (fst (philox_sample p)), SkipOne p) \<and>
    (\<forall>x. sint lo \<le> sint (lo + x mod (hi - lo)) \<and> sint (lo + x mod (hi - lo)) < sint hi) \<and>
    (\<forall>v. sint lo \<le> sint v \<and> sint v < sint hi \<longrightarrow>
      card {x. lo + x mod (hi - lo) = v} \<in> {2 ^ 32 div unat (hi - lo), 2 ^ 32 div unat (hi - lo) + 1})"
  using uniform_int32_samples [OF assms(2), of philox_sample p "fst (philox_sample p)" "SkipOne p" 4]
    uniform_in_range [OF assms(2)] uniform_spread [OF assms(2)]
  by (simp add: length_sample prod_eq_iff)

lemma uniform_distribution_int32_witness:
  "UniformDistribution_int32 4 (- 3) 4 philox_sample PhiloxRandom = Inr ([2, 3, 3, - 2], SkipOne PhiloxRandom)"
proof -
  have "fst (philox_sample PhiloxRandom) = [0x6627e8d5, 0xe169c58d, 0xbc57ac4c, 0x9b00dbd8]" by code_simp
  moreover have "philox_ok PhiloxRandom" by code_simp
  ultimately show ?thesis
    using uniform_distribution_int32 [of PhiloxRandom "- 3" 4] by simp
qed

text \<open>
  C37: words one at a time.  An adapter gives out the words of the samples in order, and \<open>Skip\<close>, which
  first uses up the words it holds, then skips whole samples and opens one for the rest, leaves out
  exactly as many words as it is told to.
\<close>

theorem single_samples_skip:
  assumes "philox_ok p" and "singles philox_sample 4 i (SingleSampleAdapter 4 p) = (xs, a)"
  shows "fst (singles philox_sample 4 k (adapter_Skip philox_sample 4 n a)) =
    map (\<lambda>j. fst (philox_sample (snd (samples (j div 4) p))) ! (j mod 4)) [i + unat n..<i + unat n + k]"
proof -
  have "((snd \<circ> philox_sample) ^^ j) p = snd (samples j p)" for j
    by (induction j arbitrary: p) (simp_all only: funpow_0 samples.simps(1) snd_conv samples_Suc funpow_Suc_right o_apply sample_state)
  with philox_blocks.skip_then_draw [OF assms, of k n] show ?thesis by simp
qed

lemma single_samples_skip_witness:
  "fst (singles philox_sample 4 2 (adapter_Skip philox_sample 4 2 (snd (singles philox_sample 4 1 (SingleSampleAdapter 4 PhiloxRandom))))) =
     [0x9b00dbd8, fst (philox_sample (SkipOne PhiloxRandom)) ! 0]"
proof -
  have "philox_ok PhiloxRandom" by code_simp
  moreover obtain xs a where "singles philox_sample 4 1 (SingleSampleAdapter 4 PhiloxRandom) = (xs, a)" by fastforce
  moreover have "fst (philox_sample PhiloxRandom) ! 3 = 0x9b00dbd8" by code_simp
  ultimately show ?thesis
    using single_samples_skip [of PhiloxRandom 1 xs a 2 2] by (simp add: upt_rec samples_Suc [of 0, simplified])
qed

text \<open>\<open>Rand64\<close> puts two words together, the first one low.\<close>

lemma Rand64_words:
  assumes "philox_ok p"
  shows "fst (Rand64 (SingleSampleAdapter 4 p)) =
    ucast (fst (philox_sample p) ! 0) OR push_bit 32 (ucast (fst (philox_sample p) ! 1))"
  using assms length_sample [of p]
  by (simp add: Rand64_def single_def SingleSampleAdapter_def split_beta)

end
