(* ===== verification/Bfloat16.thy ===== *)
theory Bfloat16
  imports Faults
begin

text \<open>
  \<open>core/lib/bfloat16/bfloat16.h\<close>: conversions between \<open>float\<close> and the 16-bit format with the exponent of
  \<open>float\<close>, on bit patterns.  The value of a finite number is a whole multiple of the smallest positive
  float, \<open>2 ^ -149\<close>; infinity is given the value its bits would have if the exponent went on.
  Shown: conversion from \<open>float\<close> rounds to nearest, ties to even, and undoes the conversion to \<open>float\<close>.
\<close>

section \<open>Conversions\<close>

type_synonym float32 = "32 word"
type_synonym bfloat16 = "16 word"

definition ZERO_VALUE :: bfloat16 where "ZERO_VALUE = 0"
definition NAN_VALUE :: bfloat16 where "NAN_VALUE = 0x7FC0"

text \<open>\<open>std::isnan\<close>: all bits of the exponent are set, and one of the fraction.\<close>

definition float_isnan :: "float32 \<Rightarrow> bool" where
  "float_isnan v \<longleftrightarrow> 0x7f800000 < v AND 0x7fffffff"

definition to_float :: "bfloat16 \<Rightarrow> float32" where
  "to_float v = push_bit 16 (ucast v)"

definition truncate_to_bfloat16 :: "float32 \<Rightarrow> bfloat16" where
  "truncate_to_bfloat16 v = (if float_isnan v then NAN_VALUE else ucast (drop_bit 16 v))"

definition round_to_bfloat16 :: "float32 \<Rightarrow> bfloat16" where
  "round_to_bfloat16 v =
     (if float_isnan v then 0x7fc0
      else
        let lsb = drop_bit 16 v AND 1;
            rounding_bias = 0x7fff + lsb;
            input = v + rounding_bias in
        ucast (drop_bit 16 input))"

definition bfloat16_epsilon :: bfloat16 where "bfloat16_epsilon = 0x3c00"
definition bfloat16_highest :: bfloat16 where "bfloat16_highest = 0x7F7F"
definition bfloat16_lowest :: bfloat16 where "bfloat16_lowest = 0xFF7F"
definition bfloat16_min_positive_normal :: bfloat16 where "bfloat16_min_positive_normal = 0x0080"

definition IsZero :: "bfloat16 \<Rightarrow> bool" where
  "IsZero v \<longleftrightarrow> v AND 0x7FFF = ZERO_VALUE"

definition bfloat16_uminus :: "bfloat16 \<Rightarrow> bfloat16" where
  "bfloat16_uminus a = a XOR 0x8000"

text \<open>Arithmetic goes through \<open>float\<close>; \<open>op\<close> is the operation of the machine on floats.\<close>

definition through_float :: "(float32 \<Rightarrow> float32 \<Rightarrow> float32) \<Rightarrow> bfloat16 \<Rightarrow> bfloat16 \<Rightarrow> bfloat16" where
  "through_float op a b = round_to_bfloat16 (op (to_float a) (to_float b))"

section \<open>Values\<close>

text \<open>The magnitude of the 31 bits below the sign, in units of \<open>2 ^ -149\<close>.\<close>

definition magnitude :: "nat \<Rightarrow> nat" where
  "magnitude n =
     (let E = n div 2 ^ 23; m = n mod 2 ^ 23 in if E = 0 then m else (2 ^ 23 + m) * 2 ^ (E - 1))"

definition low31 :: "float32 \<Rightarrow> nat" where
  "low31 v = unat v mod 2 ^ 31"

definition value32 :: "float32 \<Rightarrow> int" where
  "value32 v = (if 2 ^ 31 \<le> unat v then - int (magnitude (low31 v)) else int (magnitude (low31 v)))"

definition value16 :: "bfloat16 \<Rightarrow> int" where
  "value16 b = value32 (to_float b)"

lemma named_values:
  "value16 bfloat16_epsilon = 2 ^ 142" "value16 bfloat16_min_positive_normal = 2 ^ 23"
  "value16 bfloat16_highest = 2 ^ 277 - 2 ^ 269" "value16 bfloat16_lowest = - value16 bfloat16_highest"
  by (simp_all add: value16_def value32_def low31_def to_float_def magnitude_def bfloat16_epsilon_def
      bfloat16_min_positive_normal_def bfloat16_highest_def bfloat16_lowest_def)

text \<open>The 16 low bits of a float count equal steps from one bfloat16 to the next.\<close>

lemma exponent_and_fraction:
  fixes k t :: nat
  assumes "t < 2 ^ 16"
  shows "(k * 2 ^ 16 + t) div 2 ^ 23 = k div 2 ^ 7" "(k * 2 ^ 16 + t) mod 2 ^ 23 = k mod 2 ^ 7 * 2 ^ 16 + t"
proof -
  have split: "((2 ^ 7 * a + b) * 2 ^ 16 + t) div 2 ^ 23 = a \<and> ((2 ^ 7 * a + b) * 2 ^ 16 + t) mod 2 ^ 23 = b * 2 ^ 16 + t"
    if "b < 2 ^ 7" for a b :: nat
  proof -
    have "(2 ^ 7 * a + b) * 2 ^ 16 + t = 2 ^ 23 * a + (b * 2 ^ 16 + t)" by simp
    moreover have "b * 2 ^ 16 + t < 2 ^ 23" using that assms by simp
    moreover have "(2 ^ 23 * a + r) div 2 ^ 23 = a \<and> (2 ^ 23 * a + r) mod 2 ^ 23 = r" if "r < 2 ^ 23" for r :: nat
      using that by simp
    ultimately show ?thesis by (simp only:)
  qed
  have "k mod 2 ^ 7 < 2 ^ 7" by simp
  from split [OF this, of "k div 2 ^ 7"]
  show "(k * 2 ^ 16 + t) div 2 ^ 23 = k div 2 ^ 7" "(k * 2 ^ 16 + t) mod 2 ^ 23 = k mod 2 ^ 7 * 2 ^ 16 + t"
    by (simp_all only: mult_div_mod_eq)
qed

lemma magnitude_within:
  assumes "t < 2 ^ 16"
  shows "magnitude (k * 2 ^ 16 + t) = magnitude (k * 2 ^ 16) + t * 2 ^ (k div 2 ^ 7 - 1)"
proof (cases "k div 2 ^ 7 = 0")
  case True
  then show ?thesis
    unfolding magnitude_def using exponent_and_fraction [OF assms, of k] exponent_and_fraction [of 0 k] by (simp add: Let_def)
next
  case False
  then show ?thesis
    unfolding magnitude_def using exponent_and_fraction [OF assms, of k] exponent_and_fraction [of 0 k]
    by (simp add: Let_def add_mult_distrib)
qed

lemma magnitude_next: "magnitude (Suc k * 2 ^ 16) = magnitude (k * 2 ^ 16) + 2 ^ 16 * 2 ^ (k div 2 ^ 7 - 1)"
proof (cases "Suc k mod 2 ^ 7 = 0")
  case True
  then have k: "k mod 2 ^ 7 = 2 ^ 7 - 1" "Suc k div 2 ^ 7 = Suc (k div 2 ^ 7)" by (auto simp: mod_Suc div_Suc split: if_splits)
  show ?thesis
  proof (cases "k div 2 ^ 7")
    case 0
    then show ?thesis using exponent_and_fraction [of 0 k] exponent_and_fraction [of 0 "Suc k"] k True
      by (simp add: magnitude_def Let_def)
  next
    case (Suc e)
    then show ?thesis using exponent_and_fraction [of 0 k] exponent_and_fraction [of 0 "Suc k"] k True
      by (simp add: magnitude_def Let_def)
  qed
next
  case False
  then have k: "Suc k mod 2 ^ 7 = Suc (k mod 2 ^ 7)" "Suc k div 2 ^ 7 = k div 2 ^ 7" by (auto simp: mod_Suc div_Suc split: if_splits)
  show ?thesis
  proof (cases "k div 2 ^ 7")
    case 0
    then show ?thesis using exponent_and_fraction [of 0 k] exponent_and_fraction [of 0 "Suc k"] k
      by (simp add: magnitude_def Let_def)
  next
    case (Suc e)
    then show ?thesis using exponent_and_fraction [of 0 k] exponent_and_fraction [of 0 "Suc k"] k
      by (simp add: magnitude_def Let_def add_mult_distrib)
  qed
qed

lemma magnitude_mono: "j \<le> k \<Longrightarrow> magnitude (j * 2 ^ 16) \<le> magnitude (k * 2 ^ 16)"
  by (rule lift_Suc_mono_le [of "\<lambda>k. magnitude (k * 2 ^ 16)"]) (simp_all only: magnitude_next le_add1)

text \<open>Rounding a magnitude to the nearest multiple of \<open>2 ^ 16\<close>, ties to even.\<close>

lemma nearest_magnitude:
  fixes k t :: nat
  assumes "t < 2 ^ 16"
  shows "(k * 2 ^ 16 + t + (0x7fff + k mod 2)) div 2 ^ 16 = (if 0x8000 < t + k mod 2 then Suc k else k)"
proof -
  have "k * 2 ^ 16 + t + (0x7fff + k mod 2) = (t + 0x7fff + k mod 2) + k * 2 ^ 16" by simp
  also have "\<dots> div 2 ^ 16 = k + (t + 0x7fff + k mod 2) div 2 ^ 16"
    by (rule div_mult_self1) simp
  finally have "(k * 2 ^ 16 + t + (0x7fff + k mod 2)) div 2 ^ 16 = k + (t + 0x7fff + k mod 2) div 2 ^ 16" .
  moreover from assms have "(t + 0x7fff + b) div 2 ^ 16 = (if 0x8000 < t + b then 1 else 0)" if "b < 2" for b
  proof (cases "0x8000 < t + b")
    case True
    with assms that have "t + 0x7fff + b = 2 ^ 16 + (t + b - 0x8001)" "t + b - 0x8001 < 2 ^ 16" by simp_all
    with True show ?thesis by simp
  qed simp
  ultimately show ?thesis by simp
qed

text \<open>No multiple of \<open>2 ^ 16\<close> is nearer than the one it gives, and another as near has an odd number.\<close>

definition distance16 :: "nat \<Rightarrow> nat \<Rightarrow> int" where
  "distance16 n k = \<bar>int (magnitude n) - int (magnitude (k * 2 ^ 16))\<bar>"

lemma nearer_end:
  fixes K T U J :: int
  assumes "0 < U" "0 \<le> T" "T \<le> 2 * U" "J \<le> K \<or> K + 2 * U \<le> J" "up \<Longrightarrow> U \<le> T" "\<not> up \<Longrightarrow> T \<le> U"
  shows "\<bar>K + T - (if up then K + 2 * U else K)\<bar> \<le> \<bar>K + T - J\<bar>"
    and "\<bar>K + T - (if up then K + 2 * U else K)\<bar> = \<bar>K + T - J\<bar> \<Longrightarrow> J = (if up then K + 2 * U else K) \<or> T = U"
proof -
  show "\<bar>K + T - (if up then K + 2 * U else K)\<bar> \<le> \<bar>K + T - J\<bar>" using assms by (cases up) (auto simp: abs_if)
  show "J = (if up then K + 2 * U else K) \<or> T = U" if "\<bar>K + T - (if up then K + 2 * U else K)\<bar> = \<bar>K + T - J\<bar>"
    using assms that by (cases up) (auto simp: abs_if split: if_splits)
qed

lemma rounded_is_nearest:
  fixes k t j :: nat
  assumes "t < 2 ^ 16" and "r = (if 0x8000 < t + k mod 2 then Suc k else k)"
  shows "distance16 (k * 2 ^ 16 + t) r \<le> distance16 (k * 2 ^ 16 + t) j"
    and "distance16 (k * 2 ^ 16 + t) r = distance16 (k * 2 ^ 16 + t) j \<Longrightarrow>
      magnitude (j * 2 ^ 16) = magnitude (r * 2 ^ 16) \<or> even r"
proof -
  obtain u :: int where u: "0 < u" "int (magnitude (k * 2 ^ 16 + t)) = int (magnitude (k * 2 ^ 16)) + int t * u"
    "int (magnitude (Suc k * 2 ^ 16)) = int (magnitude (k * 2 ^ 16)) + 2 ^ 16 * u"
  proof (rule that [of "2 ^ (k div 2 ^ 7 - 1)"])
    show "0 < (2 :: int) ^ (k div 2 ^ 7 - 1)" by simp
  qed (simp_all only: magnitude_within [OF assms(1)] magnitude_next of_nat_add of_nat_mult of_nat_power of_nat_numeral)
  let ?up = "0x8000 < t + k mod 2"
  have k2: "k mod 2 < 2" by simp
  have t: "0 \<le> int t * u" "int t * u \<le> 2 * (2 ^ 15 * u)" using assms(1) u(1) by (simp_all add: mult_right_mono)
  have up: "?up \<Longrightarrow> 2 ^ 15 * u \<le> int t * u" "\<not> ?up \<Longrightarrow> int t * u \<le> 2 ^ 15 * u" "int t * u = 2 ^ 15 * u \<longleftrightarrow> t = 2 ^ 15"
    using u(1) k2 by (simp_all add: mult_le_cancel_right mult_cancel_right)
  have j: "int (magnitude (j * 2 ^ 16)) \<le> int (magnitude (k * 2 ^ 16)) \<or>
      int (magnitude (k * 2 ^ 16)) + 2 * (2 ^ 15 * u) \<le> int (magnitude (j * 2 ^ 16))"
    using magnitude_mono [of j k] magnitude_mono [of "Suc k" j] u(3) by (cases "j \<le> k") simp_all
  have r: "int (magnitude (r * 2 ^ 16)) =
      (if ?up then int (magnitude (k * 2 ^ 16)) + 2 * (2 ^ 15 * u) else int (magnitude (k * 2 ^ 16)))"
    using u(3) assms(2) by simp
  have "0 < 2 ^ 15 * u" using u(1) by simp
  note nearer = nearer_end [OF this t j up(1,2)]
  show "distance16 (k * 2 ^ 16 + t) r \<le> distance16 (k * 2 ^ 16 + t) j"
    unfolding distance16_def r u(2) by (rule nearer(1))
  have "even r" if "t = 2 ^ 15" using that assms(2) by (cases "even k") (simp_all add: odd_iff_mod_2_eq_one)
  then show "magnitude (j * 2 ^ 16) = magnitude (r * 2 ^ 16) \<or> even r"
    if "distance16 (k * 2 ^ 16 + t) r = distance16 (k * 2 ^ 16 + t) j"
    using nearer(2) that up(3) unfolding distance16_def r u(2) by (metis of_nat_eq_iff r)
qed

section \<open>Conversions on numbers\<close>

lemma word32_split: "unat v = unat v div 2 ^ 31 * 2 ^ 31 + low31 v" "low31 v < 2 ^ 31" "unat v div 2 ^ 31 < 2"
proof -
  show "unat v = unat v div 2 ^ 31 * 2 ^ 31 + low31 v" by (simp add: low31_def)
  show "low31 v < 2 ^ 31" by (simp add: low31_def)
  show "unat v div 2 ^ 31 < 2" using unsigned_less [of v, where 'a = nat] by simp
qed

lemma low31_and: "unat (v AND 0x7fffffff) = low31 v"
proof -
  have "(0x7fffffff :: float32) = mask 31" by (simp add: mask_eq_exp_minus_1)
  then show ?thesis by (simp only: low31_def unat_take_bit_mod flip: take_bit_eq_mask)
qed

lemma isnan_low31: "float_isnan v \<longleftrightarrow> 0x7f800000 < low31 v"
  by (simp add: float_isnan_def word_less_nat_alt low31_and)

lemma unat_to_float: "unat (to_float b) = unat b * 2 ^ 16"
proof -
  have b: "unat b < 2 ^ 16" using unsigned_less [of b, where 'a = nat] by simp
  then have "unat (ucast b :: float32) = unat b" by (simp add: unsigned_ucast_eq take_bit_nat_eq_self)
  with b show ?thesis by (simp add: to_float_def push_bit_eq_mult unat_word_ariths)
qed

lemma sign_and_low:
  fixes a n :: nat
  assumes "n < 2 ^ 31" "a < 2"
  shows "(a * 2 ^ 31 + n) div 2 ^ 31 = a" "(a * 2 ^ 31 + n) mod 2 ^ 31 = n"
  using assms by simp_all

lemma unat_round:
  assumes "\<not> float_isnan v"
  shows "unat (round_to_bfloat16 v) =
      unat v div 2 ^ 31 * 2 ^ 15 + (low31 v + (0x7fff + low31 v div 2 ^ 16 mod 2)) div 2 ^ 16"
    and "(low31 v + (0x7fff + low31 v div 2 ^ 16 mod 2)) div 2 ^ 16 \<le> 0x7f80"
proof -
  let ?s = "unat v div 2 ^ 31" and ?n = "low31 v" and ?b = "low31 v div 2 ^ 16 mod 2"
  have n: "?n \<le> 0x7f800000" using assms by (simp add: isnan_low31)
  have b: "?b < 2" by simp
  have halves: "(a * 2 ^ 31 + n) div 2 ^ 16 = a * 2 ^ 15 + n div 2 ^ 16" for a n :: nat
  proof -
    have "a * 2 ^ 31 + n = n + (a * 2 ^ 15) * 2 ^ 16" by simp
    then show ?thesis by (simp only: div_mult_self1) simp
  qed
  have "unat (drop_bit 16 v AND 1) = unat v div 2 ^ 16 mod 2"
    using unat_take_bit_mod [of 1 "drop_bit 16 v"] by (simp add: unat_drop_bit_div and_one_eq mod_2_eq_odd)
  also have "\<dots> = (?s * 2 ^ 15 + ?n div 2 ^ 16) mod 2"
    using halves [of ?s ?n] word32_split(1) [of v] by (simp only:)
  also have "\<dots> = ?b" by (metis (no_types, lifting) add.commute dvd_triv_right even_mult_iff even_numeral even_power mod2_eq_if even_add zero_less_numeral)
  finally have lsb: "unat (drop_bit 16 v AND 1) = ?b" .
  have "U + (0x7fff + b) < 2 ^ 32" if "U = s * 2 ^ 31 + n" "s < 2" "n \<le> 0x7f800000" "b < 2" for U s n b :: nat
    using that by simp
  from this [OF word32_split(1,3) n b] have bound: "unat v + (0x7fff + ?b) < 2 ^ 32" .
  then have sum: "unat (v + (0x7fff + (drop_bit 16 v AND 1))) = unat v + (0x7fff + ?b)"
    using lsb by (simp add: unat_word_ariths)
  have "(unat v + (0x7fff + ?b)) div 2 ^ 16 = (?s * 2 ^ 31 + (?n + (0x7fff + ?b))) div 2 ^ 16"
    using word32_split(1) [of v] by (metis add.assoc)
  also have "\<dots> = ?s * 2 ^ 15 + (?n + (0x7fff + ?b)) div 2 ^ 16" by (rule halves)
  finally have q: "(unat v + (0x7fff + ?b)) div 2 ^ 16 = ?s * 2 ^ 15 + (?n + (0x7fff + ?b)) div 2 ^ 16" .
  have "(unat v + (0x7fff + ?b)) div 2 ^ 16 < 2 ^ 16" using bound by simp
  then show "unat (round_to_bfloat16 v) = ?s * 2 ^ 15 + (?n + (0x7fff + ?b)) div 2 ^ 16"
    using assms sum q
    by (simp add: round_to_bfloat16_def Let_def unsigned_ucast_eq take_bit_nat_eq_self unat_drop_bit_div)
  show "(?n + (0x7fff + ?b)) div 2 ^ 16 \<le> 0x7f80"
  proof (cases "?n = 0x7f800000")
    case False
    with n b show ?thesis by simp
  qed simp
qed

lemma value16_parts:
  assumes "unat b = s * 2 ^ 15 + r" "r < 2 ^ 15" "s < 2"
  shows "value16 b = (if s = 1 then - int (magnitude (r * 2 ^ 16)) else int (magnitude (r * 2 ^ 16)))"
proof -
  have "unat (to_float b) = s * 2 ^ 31 + r * 2 ^ 16" using assms by (simp add: unat_to_float)
  moreover from assms(2) have "r * 2 ^ 16 < 2 ^ 31" by simp
  ultimately have "low31 (to_float b) = r * 2 ^ 16" "2 ^ 31 \<le> unat (to_float b) \<longleftrightarrow> s = 1"
    using sign_and_low [of "r * 2 ^ 16" s] assms(3) by (auto simp: low31_def)
  then show ?thesis by (simp add: value16_def value32_def)
qed

lemma word16_split: "unat b = unat b div 2 ^ 15 * 2 ^ 15 + unat b mod 2 ^ 15" "unat b mod 2 ^ 15 < 2 ^ 15" "unat (b :: bfloat16) div 2 ^ 15 < 2"
  using unsigned_less [of b, where 'a = nat] by simp_all

text \<open>
  C38: rounding.  A float that is not a NaN becomes a bfloat16 of the same sign than which no other is
  nearer; of two that are equally near it is the even one.  Too large a float becomes infinity, as the
  next number would be if the exponent went on.
\<close>

theorem bfloat16_rounds_to_nearest:
  assumes "\<not> float_isnan v"
  shows "\<bar>value32 v - value16 (round_to_bfloat16 v)\<bar> \<le> \<bar>value32 v - value16 b\<bar> \<and>
    (\<bar>value32 v - value16 (round_to_bfloat16 v)\<bar> = \<bar>value32 v - value16 b\<bar> \<longrightarrow>
       value16 b = value16 (round_to_bfloat16 v) \<or> even (unat (round_to_bfloat16 v)))"
proof -
  let ?s = "unat v div 2 ^ 31" and ?k = "low31 v div 2 ^ 16" and ?t = "low31 v mod 2 ^ 16"
  let ?r = "(low31 v + (0x7fff + ?k mod 2)) div 2 ^ 16" and ?j = "unat b mod 2 ^ 15"
  have n: "low31 v = ?k * 2 ^ 16 + ?t" "?t < 2 ^ 16" by simp_all
  have r: "?r = (if 0x8000 < ?t + ?k mod 2 then Suc ?k else ?k)"
    using nearest_magnitude [OF n(2), of ?k] by (simp only: n(1) [symmetric])
  have nearest: "distance16 (low31 v) ?r \<le> distance16 (low31 v) j"
    "distance16 (low31 v) ?r = distance16 (low31 v) j \<Longrightarrow> magnitude (j * 2 ^ 16) = magnitude (?r * 2 ^ 16) \<or> even ?r" for j
    using rounded_is_nearest [OF n(2) r, of j] by (simp_all only: n(1) [symmetric])
  have zero: "magnitude (0 * 2 ^ 16) = 0" by (simp add: magnitude_def)
  have out: "unat (round_to_bfloat16 v) = ?s * 2 ^ 15 + ?r" "?r < 2 ^ 15" using unat_round [OF assms] by simp_all
  then have even: "even (unat (round_to_bfloat16 v)) \<longleftrightarrow> even ?r" by simp
  have o: "value16 (round_to_bfloat16 v) = (if ?s = 1 then - int (magnitude (?r * 2 ^ 16)) else int (magnitude (?r * 2 ^ 16)))"
    by (rule value16_parts [OF out word32_split(3)])
  have i: "value32 v = (if ?s = 1 then - int (magnitude (low31 v)) else int (magnitude (low31 v)))"
    using word32_split [of v] by (auto simp: value32_def)
  have b: "value16 b = (if unat b div 2 ^ 15 = 1 then - int (magnitude (?j * 2 ^ 16)) else int (magnitude (?j * 2 ^ 16)))"
    by (rule value16_parts [OF word16_split])
  show ?thesis
  proof (cases "(unat b div 2 ^ 15 = 1) = (?s = 1)")
    case True
    then have "\<bar>value32 v - value16 b\<bar> = distance16 (low31 v) ?j" "\<bar>value32 v - value16 (round_to_bfloat16 v)\<bar> = distance16 (low31 v) ?r"
      by (auto simp: o i b distance16_def abs_minus_commute)
    moreover have "value16 b = value16 (round_to_bfloat16 v) \<longleftrightarrow> magnitude (?j * 2 ^ 16) = magnitude (?r * 2 ^ 16)"
      using True by (auto simp: o b)
    ultimately show ?thesis using nearest [of ?j] even by simp
  next
    case False
    then have "\<bar>value32 v - value16 b\<bar> = distance16 (low31 v) 0 + int (magnitude (?j * 2 ^ 16))"
      "\<bar>value32 v - value16 (round_to_bfloat16 v)\<bar> = distance16 (low31 v) ?r"
      using zero by (auto simp: o i b distance16_def abs_minus_commute)
    moreover have "value16 b = value16 (round_to_bfloat16 v)" if "magnitude (?j * 2 ^ 16) = 0" "magnitude (?r * 2 ^ 16) = 0"
      using that by (simp add: o b)
    ultimately show ?thesis using nearest [of 0] even zero by auto
  qed
qed

lemma bfloat16_rounds_to_nearest_witness:
  "\<not> float_isnan 0x3f818000 \<and> round_to_bfloat16 0x3f818000 = 0x3f82 \<and>
   \<bar>value32 0x3f818000 - value16 0x3f82\<bar> \<le> \<bar>value32 0x3f818000 - value16 0x3f81\<bar>"
proof -
  have "\<not> float_isnan 0x3f818000" "round_to_bfloat16 0x3f818000 = 0x3f82" by code_simp+
  with bfloat16_rounds_to_nearest [of "0x3f818000" "0x3f81"] show ?thesis by simp
qed

text \<open>Widening and rounding is the identity, and NaNs stay NaNs.\<close>

lemma round_to_float:
  assumes "\<not> float_isnan (to_float b)"
  shows "round_to_bfloat16 (to_float b) = b"
proof -
  let ?s = "unat b div 2 ^ 15" and ?r = "unat b mod 2 ^ 15"
  have "unat (to_float b) = ?s * 2 ^ 31 + ?r * 2 ^ 16"
    by (subst unat_to_float, subst word16_split(1)) (simp only: add_mult_distrib, simp)
  moreover have "?r * 2 ^ 16 < 2 ^ 31" using word16_split(2) [of b] by simp
  ultimately have l: "low31 (to_float b) = ?r * 2 ^ 16" and s: "unat (to_float b) div 2 ^ 31 = ?s"
    using sign_and_low [OF _ word16_split(3), of "?r * 2 ^ 16" b] by (simp_all only: low31_def)
  have "(?r * 2 ^ 16 + 0 + (0x7fff + ?r mod 2)) div 2 ^ 16 = (if 0x8000 < 0 + ?r mod 2 then Suc ?r else ?r)"
    by (rule nearest_magnitude) simp
  moreover have "\<not> 0x8000 < 0 + ?r mod 2" using mod_less_divisor [of 2 ?r] by linarith
  ultimately have "(?r * 2 ^ 16 + (0x7fff + ?r mod 2)) div 2 ^ 16 = ?r" by (simp only: if_False add_0_right)
  moreover have "?r * 2 ^ 16 div 2 ^ 16 = ?r" by simp
  ultimately have "unat (round_to_bfloat16 (to_float b)) = ?s * 2 ^ 15 + ?r"
    using unat_round(1) [OF assms] by (simp only: l s)
  then have "unat (round_to_bfloat16 (to_float b)) = unat b" by (simp only: word16_split(1) [symmetric])
  then show ?thesis by (rule unsigned_word_eqI)
qed

lemma round_nan: "float_isnan v \<Longrightarrow> round_to_bfloat16 v = NAN_VALUE" "float_isnan (to_float NAN_VALUE)"
  by (simp add: round_to_bfloat16_def NAN_VALUE_def) code_simp

end
