(* ===== verification/Batch_Queue.thy ===== *)
theory Batch_Queue
  imports Faults
begin

text \<open>
  \<open>core/kernels/batching_util/batch_scheduler.h\<close> (\<open>Batch\<close>) and the class \<open>internal::Queue\<close> of
  \<open>shared_batch_scheduler.h\<close>: tasks are gathered into batches, the batch at the back of a queue is open,
  the others are closed.  Each operation here is what the code does while it holds the queue's mutex;
  the clock, where it is read, is an argument, and \<open>sz\<close> is the virtual function \<open>size\<close> of a task.
  Shown: the invariants of the class comment, the order of the tasks, and what \<open>SchedulingCapacity\<close>
  promises.
\<close>

section \<open>Batches\<close>

record 't batch =
  bt_tasks :: "'t list"
  bt_size :: size_t
  bt_closed :: bool

definition Batch :: "'t batch" where
  "Batch = \<lparr>bt_tasks = [], bt_size = 0, bt_closed = False\<rparr>"

definition AddTask :: "('t \<Rightarrow> size_t) \<Rightarrow> 't \<Rightarrow> 't batch \<Rightarrow> 't batch out" where
  "AddTask sz task b =
     bnd (dcheck (\<not> bt_closed b)) (\<lambda>_. Inr (b\<lparr>bt_size := bt_size b + sz task, bt_tasks := bt_tasks b @ [task]\<rparr>))"

definition RemoveTask :: "('t \<Rightarrow> size_t) \<Rightarrow> 't batch \<Rightarrow> 't option \<times> 't batch" where
  "RemoveTask sz b =
     (if bt_tasks b = [] then (None, b)
      else
        let task = last (bt_tasks b) in
        (Some task, b\<lparr>bt_size := bt_size b - sz task, bt_tasks := butlast (bt_tasks b)\<rparr>))"

definition num_tasks :: "'t batch \<Rightarrow> 32 word" where
  "num_tasks b = of_nat (length (bt_tasks b))"

definition batch_empty :: "'t batch \<Rightarrow> bool" where
  "batch_empty b \<longleftrightarrow> bt_tasks b = []"

definition batch_task :: "int \<Rightarrow> 't batch \<Rightarrow> 't out" where
  "batch_task i b =
     bnd (dcheck (0 \<le> i)) (\<lambda>_. bnd (dcheck (i < int (length (bt_tasks b)))) (\<lambda>_. get (bt_tasks b) (nat i)))"

text \<open>\<open>Close\<close> notifies, which may happen only once.\<close>

definition batch_Close :: "'t batch \<Rightarrow> 't batch out" where
  "batch_Close b = bnd (dcheck (\<not> bt_closed b)) (\<lambda>_. Inr (b\<lparr>bt_closed := True\<rparr>))"

section \<open>Queues\<close>

record queue_options =
  max_batch_size :: size_t
  batch_timeout_micros :: "64 word"
  max_enqueued_batches :: size_t

text \<open>\<open>q_notification\<close>: \<open>empty_notification_\<close> is not null.\<close>

record 't queue =
  q_closed :: bool
  q_batches :: "'t batch list"
  q_start :: "64 word"
  q_schedulable :: bool
  q_processing :: int
  q_notification :: bool

datatype sched_status = StatusOK | StatusInvalidArgument | StatusUnavailable

definition Queue :: "'t queue" where
  "Queue = \<lparr>q_closed = False, q_batches = [Batch], q_start = 0, q_schedulable = False, q_processing = 0, q_notification = False\<rparr>"

definition back_batch :: "'t queue \<Rightarrow> 't batch out" where
  "back_batch q = get (q_batches q) (length (q_batches q) - 1)"

definition change_back :: "('t batch \<Rightarrow> 't batch out) \<Rightarrow> 't queue \<Rightarrow> 't queue out" where
  "change_back f q =
     bnd (back_batch q) (\<lambda>b. bnd (f b) (\<lambda>b. bnd (put (q_batches q) (length (q_batches q) - 1) b) (\<lambda>bs.
     Inr (q\<lparr>q_batches := bs\<rparr>))))"

definition StartNewBatch :: "'t queue \<Rightarrow> 't queue out" where
  "StartNewBatch q = bnd (change_back batch_Close q) (\<lambda>q. Inr (q\<lparr>q_batches := q_batches q @ [Batch]\<rparr>))"

definition IsOpenBatchSchedulable :: "queue_options \<Rightarrow> 64 word \<Rightarrow> 't queue \<Rightarrow> bool out" where
  "IsOpenBatchSchedulable opts now q =
     bnd (back_batch q) (\<lambda>open_batch.
     if batch_empty open_batch then Inr False
     else Inr (q_closed q \<or> max_batch_size opts \<le> bt_size open_batch \<or> q_start q + batch_timeout_micros opts \<le> now))"

definition IsEmptyInternal :: "'t queue \<Rightarrow> bool out" where
  "IsEmptyInternal q =
     (if q_processing q = 0 \<and> length (q_batches q) = 1 then bnd (back_batch q) (\<lambda>b. Inr (batch_empty b)) else Inr False)"

text \<open>The clock is read once for the start of a new batch and once for the test whether it is due.\<close>

definition Queue_Schedule ::
    "('t \<Rightarrow> size_t) \<Rightarrow> queue_options \<Rightarrow> 64 word \<Rightarrow> 64 word \<Rightarrow> 't \<Rightarrow> 't queue \<Rightarrow> (sched_status \<times> bool \<times> 't queue) out" where
  "Queue_Schedule sz opts now1 now2 task q =
     (if max_batch_size opts < sz task then Inr (StatusInvalidArgument, False, q)
      else
        bnd (dcheck (\<not> q_closed q)) (\<lambda>_. bnd (back_batch q) (\<lambda>b.
        if max_batch_size opts < bt_size b + sz task \<and> max_enqueued_batches opts \<le> of_nat (length (q_batches q))
        then Inr (StatusUnavailable, False, q)
        else
          bnd (if max_batch_size opts < bt_size b + sz task then StartNewBatch q else Inr q) (\<lambda>q.
          bnd (back_batch q) (\<lambda>b.
          let q = (if batch_empty b then q\<lparr>q_start := now1\<rparr> else q) in
          bnd (change_back (AddTask sz task) q) (\<lambda>q.
          if q_schedulable q then Inr (StatusOK, False, q)
          else
            bnd (if 1 < length (q_batches q) then Inr True else IsOpenBatchSchedulable opts now2 q) (\<lambda>due.
            if due then Inr (StatusOK, True, q\<lparr>q_schedulable := True\<rparr>) else Inr (StatusOK, False, q))))))))"

definition NumEnqueuedTasks :: "'t queue \<Rightarrow> size_t" where
  "NumEnqueuedTasks q = foldl (\<lambda>n b. n + scast (num_tasks b)) 0 (q_batches q)"

text \<open>Two differences of type \<open>size_t\<close> are stored in variables of type \<open>int\<close>.\<close>

definition SchedulingCapacity :: "queue_options \<Rightarrow> 't queue \<Rightarrow> size_t out" where
  "SchedulingCapacity opts q =
     bnd (back_batch q) (\<lambda>b.
     let num_new_batches_schedulable = ucast (max_enqueued_batches opts - of_nat (length (q_batches q))) :: 32 word;
         open_batch_capacity = ucast (max_batch_size opts - bt_size b) :: 32 word in
     Inr (scast num_new_batches_schedulable * max_batch_size opts + scast open_batch_capacity))"

definition ScheduleBatch :: "queue_options \<Rightarrow> 64 word \<Rightarrow> 't queue \<Rightarrow> ('t batch option \<times> 't queue) out" where
  "ScheduleBatch opts now q =
     bnd (if length (q_batches q) = 1 then
            bnd (IsOpenBatchSchedulable opts now q) (\<lambda>due. if due then StartNewBatch q else Inr q)
          else Inr q) (\<lambda>q.
     if 2 \<le> length (q_batches q) then
       bnd (get (q_batches q) 0) (\<lambda>b.
       Inr (Some b, q\<lparr>q_processing := q_processing q + 1, q_batches := tl (q_batches q)\<rparr>))
     else Inr (None, q\<lparr>q_schedulable := False\<rparr>))"

text \<open>\<open>ProcessBatch\<close> after the callback: the flag says that \<open>empty_notification_\<close> is notified.\<close>

definition ProcessBatch :: "'t queue \<Rightarrow> (bool \<times> 't queue) out" where
  "ProcessBatch q =
     (let q = q\<lparr>q_processing := q_processing q - 1\<rparr> in
      bnd (if q_notification q then IsEmptyInternal q else Inr False) (\<lambda>notify. Inr (notify, q)))"

text \<open>The first half of \<open>CloseAndWaitUntilEmpty\<close>: whether its notification is notified at once.\<close>

definition Queue_Close :: "'t queue \<Rightarrow> (bool \<times> 't queue) out" where
  "Queue_Close q =
     (let q = q\<lparr>q_closed := True\<rparr> in
      bnd (IsEmptyInternal q) (\<lambda>empty. if empty then Inr (True, q) else Inr (False, q\<lparr>q_notification := True\<rparr>)))"

definition Queue_destroy :: "'t queue \<Rightarrow> 't queue out" where
  "Queue_destroy q = bnd (IsEmptyInternal q) (\<lambda>empty. bnd (dcheck empty) (\<lambda>_. change_back batch_Close q))"

section \<open>Invariant\<close>

definition batch_ok :: "('t \<Rightarrow> size_t) \<Rightarrow> queue_options \<Rightarrow> 't batch \<Rightarrow> bool" where
  "batch_ok sz opts b \<longleftrightarrow>
     unat (bt_size b) = sum_list (map (unat \<circ> sz) (bt_tasks b)) \<and> bt_size b \<le> max_batch_size opts"

definition options_ok :: "queue_options \<Rightarrow> bool" where
  "options_ok opts \<longleftrightarrow> unat (max_batch_size opts) < 2 ^ 63"

lemma options_ok_code [code]: "options_ok opts \<longleftrightarrow> max_batch_size opts < 0x8000000000000000"
  by (simp add: options_ok_def word_less_nat_alt)

definition queue_ok :: "('t \<Rightarrow> size_t) \<Rightarrow> queue_options \<Rightarrow> 't queue \<Rightarrow> bool" where
  "queue_ok sz opts q \<longleftrightarrow>
     (\<exists>bs b. q_batches q = bs @ [b] \<and> batch_ok sz opts b \<and> \<not> bt_closed b \<and>
       (\<forall>c\<in>set bs. batch_ok sz opts c \<and> bt_closed c \<and> bt_tasks c \<noteq> []) \<and>
       length bs < max 1 (unat (max_enqueued_batches opts)))"

definition waiting :: "'t queue \<Rightarrow> 't list" where
  "waiting q = concat (map bt_tasks (q_batches q))"

lemma queue_okE:
  assumes "queue_ok sz opts q"
  obtains bs b where "q_batches q = bs @ [b]" "batch_ok sz opts b" "\<not> bt_closed b"
    "\<forall>c\<in>set bs. batch_ok sz opts c \<and> bt_closed c \<and> bt_tasks c \<noteq> []" "length bs < max 1 (unat (max_enqueued_batches opts))"
  using assms unfolding queue_ok_def by blast

lemma back_snoc [simp]: "q_batches q = bs @ [b] \<Longrightarrow> back_batch q = Inr b"
  by (simp add: back_batch_def)

lemma change_back_snoc [simp]:
  "q_batches q = bs @ [b] \<Longrightarrow> change_back f q = bnd (f b) (\<lambda>b. Inr (q\<lparr>q_batches := bs @ [b]\<rparr>))"
  by (cases "f b") (simp_all add: change_back_def)

lemma Queue_ok: "queue_ok sz opts Queue" "waiting Queue = []" "q_closed Queue = False" "q_processing Queue = 0" "q_notification Queue = False"
  by (simp_all add: queue_ok_def Queue_def Batch_def batch_ok_def waiting_def)

lemma closed_batches_wait:
  "\<forall>c\<in>set bs. P c \<and> Q c \<and> bt_tasks c \<noteq> [] \<Longrightarrow> concat (map bt_tasks bs) = [] \<longleftrightarrow> bs = []"
  by (cases bs) auto

lemma IsEmptyInternal_eq:
  assumes "queue_ok sz opts q"
  shows "IsEmptyInternal q = Inr (q_processing q = 0 \<and> waiting q = [])"
proof -
  obtain bs b where q: "q_batches q = bs @ [b]" and c: "\<forall>c\<in>set bs. batch_ok sz opts c \<and> bt_closed c \<and> bt_tasks c \<noteq> []"
    using queue_okE [OF assms] by metis
  then have "waiting q = [] \<longleftrightarrow> bs = [] \<and> bt_tasks b = []"
    using closed_batches_wait [OF c] by (auto simp: waiting_def)
  then show ?thesis using q by (auto simp: IsEmptyInternal_def batch_empty_def)
qed

section \<open>What the operations do\<close>

lemma sizes_add:
  assumes "options_ok opts" "batch_ok sz opts b" "sz t \<le> max_batch_size opts"
  shows "unat (bt_size b + sz t) = unat (bt_size b) + unat (sz t)"
proof -
  have "unat (bt_size b) + unat (sz t) < 2 ^ 64"
    using assms by (simp add: options_ok_def batch_ok_def word_le_nat_alt)
  then show ?thesis by (simp add: unat_word_ariths)
qed

lemma StartNewBatch_snoc:
  "q_batches q = bs @ [b] \<Longrightarrow> \<not> bt_closed b \<Longrightarrow>
     StartNewBatch q = Inr (q\<lparr>q_batches := (bs @ [b\<lparr>bt_closed := True\<rparr>]) @ [Batch]\<rparr>)"
  by (simp add: StartNewBatch_def batch_Close_def)

lemma IsOpenBatchSchedulable_snoc:
  "q_batches q = bs @ [b] \<Longrightarrow> IsOpenBatchSchedulable opts now q = Inr (bt_tasks b \<noteq> [] \<and>
     (q_closed q \<or> max_batch_size opts \<le> bt_size b \<or> q_start q + batch_timeout_micros opts \<le> now))"
  by (simp add: IsOpenBatchSchedulable_def batch_empty_def)

text \<open>A call of \<open>Schedule\<close> that adds the task to the batch \<open>b\<close> at the back, with \<open>bs\<close> before it.\<close>

definition added :: "('t \<Rightarrow> size_t) \<Rightarrow> 't \<Rightarrow> 't batch \<Rightarrow> 't batch" where
  "added sz t b = b\<lparr>bt_size := bt_size b + sz t, bt_tasks := bt_tasks b @ [t]\<rparr>"

definition full_for :: "('t \<Rightarrow> size_t) \<Rightarrow> queue_options \<Rightarrow> 't \<Rightarrow> 't batch \<Rightarrow> bool" where
  "full_for sz opts t b \<longleftrightarrow> unat (max_batch_size opts) < unat (bt_size b) + unat (sz t)"

lemma full_for_word:
  "options_ok opts \<Longrightarrow> batch_ok sz opts b \<Longrightarrow> sz t \<le> max_batch_size opts \<Longrightarrow>
     max_batch_size opts < bt_size b + sz t \<longleftrightarrow> full_for sz opts t b"
  by (simp add: full_for_def word_less_nat_alt sizes_add)

lemma added_ok:
  assumes "options_ok opts" "batch_ok sz opts b" "sz t \<le> max_batch_size opts" "\<not> full_for sz opts t b"
  shows "batch_ok sz opts (added sz t b)"
  using assms sizes_add [OF assms(1,2,3)] by (simp add: batch_ok_def added_def full_for_def word_le_nat_alt)

lemma new_batch_ok: "batch_ok sz opts Batch" "bt_tasks Batch = []" "bt_closed Batch = False" "bt_size Batch = 0"
  by (simp_all add: batch_ok_def Batch_def)

lemma not_full_for_new: "sz t \<le> max_batch_size opts \<Longrightarrow> \<not> full_for sz opts t Batch"
  by (simp add: full_for_def new_batch_ok word_le_nat_alt)

lemma full_has_tasks:
  assumes "batch_ok sz opts b" "sz t \<le> max_batch_size opts" "full_for sz opts t b"
  shows "bt_tasks b \<noteq> []"
  using assms by (auto simp: batch_ok_def full_for_def word_le_nat_alt)

text \<open>Two queues that differ in their batches at most, or in when and whether the open batch is due.\<close>

definition same_but_batches :: "'t queue \<Rightarrow> 't queue \<Rightarrow> bool" where
  "same_but_batches q q' \<longleftrightarrow> q_closed q' = q_closed q \<and> q_processing q' = q_processing q \<and> q_notification q' = q_notification q"

lemma same_but_batches_simps [simp]:
  "same_but_batches q q" "same_but_batches q (q'\<lparr>q_batches := bs\<rparr>) = same_but_batches q q'"
  "same_but_batches q (q'\<lparr>q_start := st\<rparr>) = same_but_batches q q'"
  "same_but_batches q (q'\<lparr>q_schedulable := d\<rparr>) = same_but_batches q q'"
  by (simp_all add: same_but_batches_def)

lemma notice_due:
  assumes "q_batches q = bs @ [b]"
  shows "\<exists>n q'. (if q_schedulable q then Inr (StatusOK, False, q)
      else bnd (if 1 < length (q_batches q) then Inr True else IsOpenBatchSchedulable opts now q) (\<lambda>due.
        if due then Inr (StatusOK, True, q\<lparr>q_schedulable := True\<rparr>) else Inr (StatusOK, False, q))) = Inr (StatusOK, n, q') \<and>
    q_batches q' = q_batches q \<and> same_but_batches q q'"
  using assms by (auto simp: IsOpenBatchSchedulable_snoc)

lemma Schedule_appends:
  assumes "\<not> max_batch_size opts < sz t" "\<not> q_closed q" "q_batches q = bs @ [b]" "\<not> bt_closed b"
    and "\<not> (max_batch_size opts < bt_size b + sz t \<and> max_enqueued_batches opts \<le> of_nat (length (q_batches q)))"
    and bc: "(cs, c) = (if max_batch_size opts < bt_size b + sz t then (bs @ [b\<lparr>bt_closed := True\<rparr>], Batch) else (bs, b))"
  shows "\<exists>n q'. Queue_Schedule sz opts now1 now2 t q = Inr (StatusOK, n, q') \<and>
    q_batches q' = cs @ [added sz t c] \<and> same_but_batches q q'"
proof -
  have c: "\<not> bt_closed c" using assms(4) bc by (auto simp: Batch_def split: if_splits)
  obtain q1 where q1: "(if max_batch_size opts < bt_size b + sz t then StartNewBatch q else Inr q) = Inr q1"
    "q_batches q1 = cs @ [c]" "same_but_batches q q1"
    using assms(3,4) bc by (auto simp: StartNewBatch_snoc split: if_splits)
  let ?q2 = "if batch_empty c then q1\<lparr>q_start := now1\<rparr> else q1"
  have q2: "q_batches ?q2 = cs @ [c]" "same_but_batches q ?q2" using q1 by simp_all
  let ?q3 = "?q2\<lparr>q_batches := cs @ [added sz t c]\<rparr>"
  have q3: "change_back (AddTask sz t) ?q2 = Inr ?q3"
    using q2(1) c by (simp only: change_back_snoc) (simp add: AddTask_def added_def)
  have b3: "q_batches ?q3 = cs @ [added sz t c]" by simp
  obtain n q' where tail: "(if q_schedulable ?q3 then Inr (StatusOK, False, ?q3)
      else bnd (if 1 < length (q_batches ?q3) then Inr True else IsOpenBatchSchedulable opts now2 ?q3) (\<lambda>due.
        if due then Inr (StatusOK, True, ?q3\<lparr>q_schedulable := True\<rparr>) else Inr (StatusOK, False, ?q3))) = Inr (StatusOK, n, q')"
    "q_batches q' = q_batches ?q3" "same_but_batches ?q3 q'"
    using notice_due [OF b3, of opts now2] by blast
  have "Queue_Schedule sz opts now1 now2 t q = Inr (StatusOK, n, q')"
    unfolding Queue_Schedule_def back_snoc [OF assms(3)] bnd_simps dcheck_def Let_def
    using assms(1,2,5) q1(1) back_snoc [OF q1(2)] q3 tail(1) by (simp only: if_False if_True not_False_eq_True bnd_simps)
  moreover have "same_but_batches q q'" using tail(3) q2(2) by (simp add: same_but_batches_def)
  ultimately show ?thesis using tail(2) b3 by auto
qed

text \<open>
  The three results of \<open>Schedule\<close>: a task larger than a batch, a task for which the queue is full (both
  leave everything as it is), and a task that is put last.
\<close>

lemma Schedule_spec:
  assumes "options_ok opts" "queue_ok sz opts q" "\<not> q_closed q" "q_batches q = bs @ [b]"
  shows "\<exists>st n q'. Queue_Schedule sz opts now1 now2 t q = Inr (st, n, q') \<and> queue_ok sz opts q' \<and> same_but_batches q q' \<and>
    (st = StatusInvalidArgument \<longleftrightarrow> max_batch_size opts < sz t) \<and>
    (st = StatusUnavailable \<longleftrightarrow> \<not> max_batch_size opts < sz t \<and> full_for sz opts t b \<and>
       max_enqueued_batches opts \<le> of_nat (length (q_batches q))) \<and>
    (if st = StatusOK then waiting q' = waiting q @ [t] else q' = q)"
proof (cases "max_batch_size opts < sz t")
  case True
  then show ?thesis using assms(2)
    by (intro exI [of _ StatusInvalidArgument] exI [of _ False] exI [of _ q]) (simp add: Queue_Schedule_def)
next
  case fits: False
  then have le: "sz t \<le> max_batch_size opts" by simp
  have q: "batch_ok sz opts b" "\<not> bt_closed b" "\<forall>c\<in>set bs. batch_ok sz opts c \<and> bt_closed c \<and> bt_tasks c \<noteq> []"
    "length bs < max 1 (unat (max_enqueued_batches opts))"
    using queue_okE [OF assms(2)] assms(4) by (metis append1_eq_conv)+
  note full = full_for_word [OF assms(1) q(1) le]
  show ?thesis
  proof (cases "full_for sz opts t b \<and> max_enqueued_batches opts \<le> of_nat (length (q_batches q))")
    case True
    then show ?thesis using assms(2,3,4) fits full
      by (intro exI [of _ StatusUnavailable] exI [of _ False] exI [of _ q]) (simp add: Queue_Schedule_def)
  next
    case room: False
    let ?bc = "if full_for sz opts t b then (bs @ [b\<lparr>bt_closed := True\<rparr>], Batch) else (bs, b)"
    obtain cs c where bc: "(cs, c) = ?bc" by (metis surj_pair)
    obtain n q' where s: "Queue_Schedule sz opts now1 now2 t q = Inr (StatusOK, n, q')"
      "q_batches q' = cs @ [added sz t c]" "same_but_batches q q'"
      using Schedule_appends [of opts sz t q bs b cs c now1 now2] fits assms(3,4) q(2) room bc full by auto
    have c: "batch_ok sz opts c" "\<not> full_for sz opts t c" "\<not> bt_closed c"
      using bc q(1,2) not_full_for_new [of sz t opts, OF le] by (auto simp: new_batch_ok split: if_splits)
    have cs: "\<forall>c\<in>set cs. batch_ok sz opts c \<and> bt_closed c \<and> bt_tasks c \<noteq> []"
      using bc q full_has_tasks [OF q(1) le] by (auto simp: batch_ok_def split: if_splits)
    have "length cs < max 1 (unat (max_enqueued_batches opts))"
    proof (cases "full_for sz opts t b")
      case True
      with room have "\<not> max_enqueued_batches opts \<le> of_nat (length (q_batches q))" by simp
      then have "unat (of_nat (length (q_batches q)) :: size_t) < unat (max_enqueued_batches opts)"
        by (simp add: word_le_nat_alt)
      moreover have "length (q_batches q) < 2 ^ 64"
        using q(4) word64_less [of "max_enqueued_batches opts"] assms(4) by simp
      ultimately have "length (q_batches q) < unat (max_enqueued_batches opts)" by (simp only: unat_of_nat_small)
      then show ?thesis using bc True assms(4) by simp
    next
      case False
      then show ?thesis using bc q(4) by simp
    qed
    then have "queue_ok sz opts q'"
      unfolding queue_ok_def using s(2) cs added_ok [OF assms(1) c(1) le c(2)] c(3) by (auto simp: added_def)
    moreover have "waiting q' = waiting q @ [t]"
      using s(2) bc assms(4) by (auto simp: waiting_def added_def Batch_def split: if_splits)
    ultimately show ?thesis using s fits room by auto
  qed
qed

lemma ScheduleBatch_spec:
  assumes "queue_ok sz opts q"
  shows "\<exists>r q'. ScheduleBatch opts now q = Inr (r, q') \<and> queue_ok sz opts q' \<and>
    q_closed q' = q_closed q \<and> q_notification q' = q_notification q \<and>
    (case r of
       None \<Rightarrow> waiting q' = waiting q \<and> q_processing q' = q_processing q \<and> (q_closed q \<longrightarrow> waiting q = [])
     | Some b \<Rightarrow> waiting q = bt_tasks b @ waiting q' \<and> q_processing q' = q_processing q + 1 \<and>
         batch_ok sz opts b \<and> bt_closed b \<and> bt_tasks b \<noteq> [])"
proof -
  obtain bs b where q: "q_batches q = bs @ [b]" "batch_ok sz opts b" "\<not> bt_closed b"
    "\<forall>c\<in>set bs. batch_ok sz opts c \<and> bt_closed c \<and> bt_tasks c \<noteq> []" "length bs < max 1 (unat (max_enqueued_batches opts))"
    by (rule queue_okE [OF assms])
  show ?thesis
  proof (cases bs)
    case (Cons c cs)
    let ?q = "q\<lparr>q_processing := q_processing q + 1, q_batches := cs @ [b]\<rparr>"
    have "ScheduleBatch opts now q = Inr (Some c, ?q)" using q(1) Cons by (simp add: ScheduleBatch_def)
    moreover have "queue_ok sz opts ?q" using q Cons by (auto simp: queue_ok_def)
    ultimately show ?thesis using q Cons by (auto simp: waiting_def)
  next
    case Nil
    show ?thesis
    proof (cases "bt_tasks b \<noteq> [] \<and> (q_closed q \<or> max_batch_size opts \<le> bt_size b \<or> q_start q + batch_timeout_micros opts \<le> now)")
      case True
      let ?b = "b\<lparr>bt_closed := True\<rparr>" and ?q = "q\<lparr>q_processing := q_processing q + 1, q_batches := [Batch]\<rparr>"
      have "ScheduleBatch opts now q = Inr (Some ?b, ?q)"
        using q(1,3) Nil True by (simp add: ScheduleBatch_def IsOpenBatchSchedulable_snoc [of q bs b] StartNewBatch_snoc [of q bs b])
      moreover have "queue_ok sz opts ?q" by (auto simp: queue_ok_def new_batch_ok)
      ultimately show ?thesis using q Nil True by (auto simp: waiting_def batch_ok_def Batch_def)
    next
      case False
      let ?q = "q\<lparr>q_schedulable := False\<rparr>"
      have "ScheduleBatch opts now q = Inr (None, ?q)"
        using q(1) Nil False by (auto simp: ScheduleBatch_def IsOpenBatchSchedulable_snoc [of q bs b])
      moreover have "queue_ok sz opts ?q" using assms by (simp add: queue_ok_def)
      ultimately show ?thesis using q(1) Nil False by (auto simp: waiting_def)
    qed
  qed
qed

text \<open>When \<open>ScheduleBatch\<close> gives a batch: a closed one is waiting, or the open one is due.\<close>

definition batch_due :: "queue_options \<Rightarrow> 64 word \<Rightarrow> 't queue \<Rightarrow> bool" where
  "batch_due opts now q \<longleftrightarrow>
     2 \<le> length (q_batches q) \<or>
     waiting q \<noteq> [] \<and> (q_closed q \<or> max_batch_size opts \<le> bt_size (last (q_batches q)) \<or> q_start q + batch_timeout_micros opts \<le> now)"

lemma ScheduleBatch_gives:
  assumes "queue_ok sz opts q" "ScheduleBatch opts now q = Inr (r, q')"
  shows "r \<noteq> None \<longleftrightarrow> batch_due opts now q"
proof -
  obtain bs b where q: "q_batches q = bs @ [b]" "\<not> bt_closed b" using queue_okE [OF assms(1)] by metis
  show ?thesis
  proof (cases bs)
    case Nil
    with q assms(2) show ?thesis
      by (auto simp: ScheduleBatch_def batch_due_def waiting_def IsOpenBatchSchedulable_snoc [of q bs b] StartNewBatch_snoc [of q bs b]
        split: if_splits)
  next
    case (Cons c cs)
    with q assms(2) show ?thesis by (auto simp: ScheduleBatch_def batch_due_def)
  qed
qed

lemma ProcessBatch_spec:
  assumes "queue_ok sz opts q"
  shows "ProcessBatch q = Inr (q_notification q \<and> q_processing q = 1 \<and> waiting q = [], q\<lparr>q_processing := q_processing q - 1\<rparr>)"
proof -
  have "queue_ok sz opts (q\<lparr>q_processing := q_processing q - 1\<rparr>)" using assms by (simp add: queue_ok_def)
  from IsEmptyInternal_eq [OF this] show ?thesis by (simp add: ProcessBatch_def Let_def waiting_def)
qed

lemma Queue_Close_spec:
  assumes "queue_ok sz opts q"
  shows "Queue_Close q = (if q_processing q = 0 \<and> waiting q = [] then Inr (True, q\<lparr>q_closed := True\<rparr>)
    else Inr (False, q\<lparr>q_closed := True, q_notification := True\<rparr>))"
proof -
  have "queue_ok sz opts (q\<lparr>q_closed := True\<rparr>)" using assms by (simp add: queue_ok_def)
  from IsEmptyInternal_eq [OF this] show ?thesis by (simp add: Queue_Close_def Let_def waiting_def)
qed

lemma Queue_destroy_spec:
  assumes "queue_ok sz opts q" "q_processing q = 0" "waiting q = []"
  shows "\<exists>q'. Queue_destroy q = Inr q'"
proof -
  obtain bs b where "q_batches q = bs @ [b]" "\<not> bt_closed b" using queue_okE [OF assms(1)] by metis
  then show ?thesis using IsEmptyInternal_eq [OF assms(1)] assms(2,3) by (simp add: Queue_destroy_def batch_Close_def)
qed

section \<open>Capacity\<close>

lemma task_count:
  assumes "n < 2 ^ 31"
  shows "(scast (of_nat n :: 32 word) :: size_t) = of_nat n"
proof -
  have "sint (of_nat n :: 32 word) = int n"
    using assms take_bit_nat_eq_self [of n 32] signed_take_bit_int_eq_self [of 31 "int n"] by (simp add: sint_uint unsigned_of_nat)
  then show ?thesis by (simp only: scast_eq of_int_of_nat_eq)
qed

lemma NumEnqueuedTasks_counts:
  assumes "length (waiting q) < 2 ^ 31"
  shows "NumEnqueuedTasks q = of_nat (length (waiting q))"
proof -
  have "foldl (\<lambda>n b. n + scast (num_tasks b)) (of_nat k :: size_t) bs = of_nat (k + length (concat (map bt_tasks bs)))"
    if "length (concat (map bt_tasks bs)) < 2 ^ 31" for k and bs :: "'a batch list"
    using that
  proof (induction bs arbitrary: k)
    case (Cons b bs)
    then have "length (bt_tasks b) < 2 ^ 31" by simp
    from task_count [OF this] have "of_nat k + scast (num_tasks b) = (of_nat (k + length (bt_tasks b)) :: size_t)"
      by (simp add: num_tasks_def)
    with Cons.IH [of "k + length (bt_tasks b)"] Cons.prems show ?case by (simp add: add.assoc)
  qed simp
  from this [of "q_batches q" 0] assms show ?thesis by (simp add: NumEnqueuedTasks_def waiting_def)
qed

definition free_places :: "queue_options \<Rightarrow> 't queue \<Rightarrow> nat" where
  "free_places opts q =
     (unat (max_enqueued_batches opts) - length (q_batches q)) * unat (max_batch_size opts) +
     (unat (max_batch_size opts) - unat (bt_size (last (q_batches q))))"

definition small_options :: "queue_options \<Rightarrow> bool" where
  "small_options opts \<longleftrightarrow>
     0 < unat (max_batch_size opts) \<and> unat (max_batch_size opts) < 2 ^ 31 \<and>
     0 < unat (max_enqueued_batches opts) \<and> unat (max_enqueued_batches opts) < 2 ^ 31"

lemma small_options_ok: "small_options opts \<Longrightarrow> options_ok opts"
  by (simp add: small_options_def options_ok_def)

lemma no_place: "0 < (mb :: nat) \<Longrightarrow> n \<le> me \<Longrightarrow> s \<le> mb \<Longrightarrow> (me - n) * mb + (mb - s) = 0 \<longleftrightarrow> s = mb \<and> me = n"
  by (simp only: add_is_0 mult_is_0 diff_is_0_eq) linarith

lemma to_int_and_back:
  assumes "unat (x :: size_t) < 2 ^ 31"
  shows "scast (ucast x :: 32 word) = x"
proof -
  have "int (unat x) < int (2 ^ 31)" using assms by (simp only: of_nat_less_iff)
  then have u: "uint x < 2 ^ 31" by (simp only: uint_nat of_nat_power of_nat_numeral)
  have "uint (ucast x :: 32 word) = uint x" using u by (simp add: unsigned_ucast_eq take_bit_int_eq_self)
  moreover have "signed_take_bit 31 (uint x) = uint x"
    using u order_trans [of "- (2 ^ 31)" 0 "uint x"] by (intro signed_take_bit_int_eq_self) simp_all
  ultimately have "sint (ucast x :: 32 word) = uint x" by (simp add: sint_uint)
  then show ?thesis by (simp only: scast_eq word_of_int_uint)
qed

lemma SchedulingCapacity_places:
  assumes "small_options opts" "queue_ok sz opts q"
  shows "SchedulingCapacity opts q = Inr (of_nat (free_places opts q))" "free_places opts q < 2 ^ 64"
proof -
  obtain bs b where q: "q_batches q = bs @ [b]" "batch_ok sz opts b" "length bs < max 1 (unat (max_enqueued_batches opts))"
    using queue_okE [OF assms(2)] by metis
  let ?mb = "unat (max_batch_size opts)" and ?me = "unat (max_enqueued_batches opts)" and ?n = "length (q_batches q)"
  have m: "0 < ?mb" "?mb < 2 ^ 31" "0 < ?me" "?me < 2 ^ 31" "?n \<le> ?me" "unat (bt_size b) \<le> ?mb"
    using assms(1) q by (simp_all add: small_options_def batch_ok_def word_le_nat_alt)
  have n: "unat (of_nat ?n :: size_t) = ?n" using m by simp
  have d: "unat (max_enqueued_batches opts - of_nat ?n) = ?me - ?n" "unat (max_batch_size opts - bt_size b) = ?mb - unat (bt_size b)"
    using m n by (simp_all add: unat_sub word_le_nat_alt)
  then have i: "scast (ucast (max_enqueued_batches opts - of_nat ?n) :: 32 word) = max_enqueued_batches opts - of_nat ?n"
    "scast (ucast (max_batch_size opts - bt_size b) :: 32 word) = max_batch_size opts - bt_size b"
    using m by (intro to_int_and_back; simp)+
  have "(?me - ?n) * ?mb \<le> 2 ^ 31 * 2 ^ 31" using m by (intro mult_le_mono) simp_all
  then show bound: "free_places opts q < 2 ^ 64" using m q(1) by (simp add: free_places_def)
  have "free_places opts q = unat (max_enqueued_batches opts - of_nat ?n) * ?mb + unat (max_batch_size opts - bt_size b)"
    unfolding free_places_def d by (simp only: q(1) last_snoc)
  then have "(max_enqueued_batches opts - of_nat ?n) * max_batch_size opts + (max_batch_size opts - bt_size b) = of_nat (free_places opts q)"
    by (simp only: of_nat_add of_nat_mult of_nat_unat word_of_int_uint ucast_id)
  then show "SchedulingCapacity opts q = Inr (of_nat (free_places opts q))"
    unfolding SchedulingCapacity_def back_snoc [OF q(1)] bnd_simps Let_def i by (simp only:)
qed

lemma Schedule_unit:
  assumes small: "small_options opts" and assms': "queue_ok sz opts q" "\<not> q_closed q" "sz t = 1"
  shows "\<exists>n q'. queue_ok sz opts q' \<and> \<not> q_closed q' \<and>
    (if free_places opts q = 0 then Queue_Schedule sz opts now1 now2 t q = Inr (StatusUnavailable, n, q') \<and> free_places opts q' = 0
     else Queue_Schedule sz opts now1 now2 t q = Inr (StatusOK, n, q') \<and> free_places opts q' = free_places opts q - 1)"
proof -
  note assms = small_options_ok [OF small] small assms'
  obtain bs b where q: "q_batches q = bs @ [b]" "batch_ok sz opts b" "length bs < max 1 (unat (max_enqueued_batches opts))"
    using queue_okE [OF assms(3)] by metis
  let ?mb = "unat (max_batch_size opts)" and ?me = "unat (max_enqueued_batches opts)" and ?n = "length (q_batches q)"
  have m: "0 < ?mb" "0 < ?me" "?n \<le> ?me" "unat (bt_size b) \<le> ?mb"
    using assms(2) q by (simp_all add: small_options_def batch_ok_def word_le_nat_alt)
  have full: "full_for sz opts t b \<longleftrightarrow> unat (bt_size b) = ?mb" using m assms(5) by (auto simp: full_for_def)
  have "?n < 2 ^ 64" using m word64_less [of "max_enqueued_batches opts"] by simp
  then have "unat (of_nat ?n :: size_t) = ?n" by (rule unat_of_nat_small)
  then have len: "max_enqueued_batches opts \<le> of_nat ?n \<longleftrightarrow> ?me = ?n"
    using m(3) by (simp only: word_le_nat_alt) linarith
  have fits: "\<not> max_batch_size opts < sz t" using m assms(5) by (simp add: word_less_nat_alt)
  have places: "free_places opts q = 0 \<longleftrightarrow> full_for sz opts t b \<and> max_enqueued_batches opts \<le> of_nat ?n"
    unfolding full len using no_place [OF m(1,3,4)] by (simp only: free_places_def q(1) last_snoc)
  obtain st n q' where s: "Queue_Schedule sz opts now1 now2 t q = Inr (st, n, q')" "queue_ok sz opts q'" "same_but_batches q q'"
    "st = StatusInvalidArgument \<longleftrightarrow> max_batch_size opts < sz t"
    "st = StatusUnavailable \<longleftrightarrow> \<not> max_batch_size opts < sz t \<and> full_for sz opts t b \<and> max_enqueued_batches opts \<le> of_nat ?n"
    "if st = StatusOK then waiting q' = waiting q @ [t] else q' = q"
    using Schedule_spec [OF assms(1,3,4) q(1), of now1 now2 t] by blast
  have open': "\<not> q_closed q'" using s(3) assms(4) by (simp add: same_but_batches_def)
  show ?thesis
  proof (cases "free_places opts q = 0")
    case True
    with places fits s(5,6) have "st = StatusUnavailable" "q' = q" by auto
    with True s open' show ?thesis by auto
  next
    case False
    with places fits s(4,5) have "st = StatusOK" by (cases st) auto
    let ?cs = "if full_for sz opts t b then bs @ [b\<lparr>bt_closed := True\<rparr>] else bs" and ?c = "if full_for sz opts t b then Batch else b"
    have le: "sz t \<le> max_batch_size opts" using fits by simp
    have nb: "\<not> bt_closed b" using assms(3) q(1) by (auto simp: queue_ok_def)
    have "\<exists>n q'. Queue_Schedule sz opts now1 now2 t q = Inr (StatusOK, n, q') \<and>
        q_batches q' = ?cs @ [added sz t ?c] \<and> same_but_batches q q'"
      using full_for_word [OF assms(1) q(2) le] False places
      by (intro Schedule_appends [where bs = bs and b = b] fits assms(4) q(1) nb) auto
    with s(1) have new: "q_batches q' = ?cs @ [added sz t ?c]" by auto
    have size: "unat (bt_size (added sz t ?c)) = unat (bt_size ?c) + 1"
      using sizes_add [of opts sz ?c t] assms(1,5) q(2) le by (simp add: added_def new_batch_ok)
    have "free_places opts q' = free_places opts q - 1"
    proof (cases "full_for sz opts t b")
      case True
      then have "Suc (length bs) < ?me" using False places len m(3) q(1) by simp
      then obtain d where d: "?me = Suc (length bs) + Suc d" using less_imp_Suc_add by (metis add_Suc_right)
      show ?thesis using True full m size new q(1) d by (simp add: free_places_def new_batch_ok)
    next
      case False
      then show ?thesis using full m size new q(1) by (simp add: free_places_def)
    qed
    with s open' \<open>st = StatusOK\<close> False show ?thesis by auto
  qed
qed

fun schedule_all :: "('t \<Rightarrow> size_t) \<Rightarrow> queue_options \<Rightarrow> ('t \<times> 64 word \<times> 64 word) list \<Rightarrow> 't queue \<Rightarrow> (sched_status list \<times> 't queue) out" where
  "schedule_all sz opts [] q = Inr ([], q)"
| "schedule_all sz opts ((t, now1, now2) # ts) q =
     bnd (Queue_Schedule sz opts now1 now2 t q) (\<lambda>(st, _, q). bnd (schedule_all sz opts ts q) (\<lambda>(sts, q). Inr (st # sts, q)))"

lemma Schedule_units:
  assumes "small_options opts" "queue_ok sz opts q" "\<not> q_closed q" "list_all (\<lambda>(t, _). sz t = 1) ts"
  shows "\<exists>q'. queue_ok sz opts q' \<and> \<not> q_closed q' \<and> schedule_all sz opts ts q =
    Inr (replicate (min (length ts) (free_places opts q)) StatusOK @ replicate (length ts - free_places opts q) StatusUnavailable, q')"
  using assms(2-4)
proof (induction ts arbitrary: q)
  case (Cons x ts)
  obtain t now1 now2 where x: "x = (t, now1, now2)" by (metis prod_cases3)
  with Cons.prems have t: "sz t = 1" and ts: "list_all (\<lambda>(t, _). sz t = 1) ts" by simp_all
  obtain n q1 where q1: "queue_ok sz opts q1" "\<not> q_closed q1"
    "if free_places opts q = 0 then Queue_Schedule sz opts now1 now2 t q = Inr (StatusUnavailable, n, q1) \<and> free_places opts q1 = 0
     else Queue_Schedule sz opts now1 now2 t q = Inr (StatusOK, n, q1) \<and> free_places opts q1 = free_places opts q - 1"
    using Schedule_unit [OF assms(1) Cons.prems(1,2) t, of now1 now2] by blast
  obtain q' where q': "queue_ok sz opts q'" "\<not> q_closed q'" "schedule_all sz opts ts q1 =
      Inr (replicate (min (length ts) (free_places opts q1)) StatusOK @ replicate (length ts - free_places opts q1) StatusUnavailable, q')"
    using Cons.IH [OF q1(1,2) ts] by blast
  show ?case
  proof (cases "free_places opts q")
    case 0
    then show ?thesis using q1(3) q' x by auto
  next
    case (Suc k)
    then show ?thesis using q1(3) q' x by auto
  qed
qed (auto intro: exI [of _ q])

text \<open>
  C16: With limits from 1 to below \<open>2 ^ 31\<close>, \<open>SchedulingCapacity\<close> is exactly the number of further tasks of
  size 1 the queue takes while no batch leaves it: of any sequence of such tasks, whatever the clock says,
  that many are accepted, every later one is refused with \<open>Unavailable\<close>.
\<close>

theorem scheduling_capacity:
  assumes "small_options opts" "queue_ok sz opts q" "\<not> q_closed q" "list_all (\<lambda>(t, _). sz t = 1) ts"
  shows "\<exists>n q'. SchedulingCapacity opts q = Inr n \<and> schedule_all sz opts ts q =
    Inr (replicate (min (length ts) (unat n)) StatusOK @ replicate (length ts - unat n) StatusUnavailable, q')"
proof -
  note c = SchedulingCapacity_places [OF assms(1,2)]
  have "unat (of_nat (free_places opts q) :: size_t) = free_places opts q" using c(2) by (rule unat_of_nat_small)
  then show ?thesis using c(1) Schedule_units [OF assms] by auto
qed

definition two_by_two :: queue_options where
  "two_by_two = \<lparr>max_batch_size = 2, batch_timeout_micros = 0, max_enqueued_batches = 2\<rparr>"

lemma scheduling_capacity_witness:
  "\<exists>n q'. SchedulingCapacity two_by_two (Queue :: nat queue) = Inr n \<and>
     schedule_all (\<lambda>_. 1) two_by_two [(10, 0, 1), (11, 2, 3), (12, 4, 5), (13, 6, 7), (14 :: nat, 8, 9)] Queue =
     Inr (replicate (min 5 (unat n)) StatusOK @ replicate (5 - unat n) StatusUnavailable, q')"
proof -
  have "small_options two_by_two" by (simp add: small_options_def two_by_two_def)
  from scheduling_capacity [OF this Queue_ok(1), of "\<lambda>_. 1" "[(10 :: nat, 0, 1), (11, 2, 3), (12, 4, 5), (13, 6, 7), (14, 8, 9)]"]
  show ?thesis by (simp add: Queue_ok numeral_eq_Suc del: schedule_all.simps)
qed

lemma capacity_of_two_by_two: "SchedulingCapacity two_by_two (Queue :: nat queue) = Inr 4"
  by code_simp

text \<open>
  Outside these limits the answer is wrong: with \<open>max_enqueued_batches = 0\<close>, which \<open>AddQueue\<close> lets through,
  an empty queue says 0 and takes a task, after which it says \<open>2 ^ 64 - 1\<close>; with \<open>2 ^ 32 + 1\<close> the number of
  batches is cut off.
\<close>

definition no_batches :: queue_options where
  "no_batches = \<lparr>max_batch_size = 8, batch_timeout_micros = 0, max_enqueued_batches = 0\<rparr>"

lemma capacity_without_batches:
  "SchedulingCapacity no_batches (Queue :: nat queue) = Inr 0"
  "bnd (Queue_Schedule (\<lambda>_. 1) no_batches 0 0 (7 :: nat) Queue) (\<lambda>(st, _, q). bnd (SchedulingCapacity no_batches q) (\<lambda>n. Inr (st, n))) =
     Inr (StatusOK, 2 ^ 64 - 1)"
  by code_simp+

lemma capacity_cut_off:
  "SchedulingCapacity (no_batches\<lparr>max_enqueued_batches := 2 ^ 32 + 1\<rparr>) (Queue :: nat queue) = Inr 8"
  by code_simp

end
