(* ===== verification/Batch_Sched.thy ===== *)
theory Batch_Sched
  imports Batch_Queue "HOL-Library.Multiset"
begin

text \<open>
  The class \<open>SharedBatchScheduler\<close> and its handles (\<open>shared_batch_scheduler.h\<close>) as a transition system.
  Clients add queues, schedule tasks and destroy handles, the batch threads run \<open>ThreadLogic\<close>; an event is
  what one of them does while it holds a mutex, and events of different threads come in any order the
  mutexes allow.  A queue that is used after it was destroyed, a failed \<open>DCHECK\<close> and a notification that
  is given twice or to nobody are faults.  Shown: no fault is reachable, the tasks of a queue are given to
  the callback in order and in legal batches, and the destructor of a handle returns only when everything
  the queue took has been processed.
\<close>

section \<open>State and events\<close>

text \<open>
  Where a batch thread is: outside \<open>ThreadLogic\<close> or before its mutex; at the head of the loop
  (\<open>num_queues_tried\<close>, \<open>num_queues\<close>); after the snapshot \<open>queue_closed\<close>; after \<open>ScheduleBatch\<close>, with
  \<open>queue_for_batch\<close> and \<open>batch_to_process\<close>; in the callback.
\<close>

datatype 't pc =
    Outside
  | AtLoop int int
  | Snapped int int bool
  | Asked int int bool "(nat \<times> 't batch) option"
  | Processing nat "'t batch"

text \<open>A handle is in use, its destructor waits for a notification (given or not), or it is gone.\<close>

datatype handle = HandleOpen | HandleWaiting bool | HandleGone

record 't sched =
  sc_queues :: "nat list"
  sc_next :: nat
  sc_store :: "nat \<rightharpoonup> queue_options \<times> 't queue"
  sc_lock :: "nat option"
  sc_pc :: "nat \<Rightarrow> 't pc"
  sc_handles :: "nat \<rightharpoonup> handle"
  sc_threads :: int

datatype 't event =
    EvAddQueue nat queue_options
  | EvSchedule nat "64 word" "64 word" 't
  | EvClose nat
  | EvWake nat
  | EvEnter nat
  | EvLoop nat
  | EvAsk nat "64 word"
  | EvAdvance nat
  | EvFinish nat

text \<open>What an observer sees.\<close>

datatype 't entry =
    Added nat queue_options
  | Accepted nat 't
  | Dispensed nat "'t batch"
  | Processed nat "'t batch"
  | Returned nat

section \<open>Operations\<close>

definition SharedBatchScheduler :: "int \<Rightarrow> 't sched" where
  "SharedBatchScheduler num_batch_threads =
     \<lparr>sc_queues = [], sc_next = 0, sc_store = (\<lambda>_. None), sc_lock = None, sc_pc = (\<lambda>_. Outside),
      sc_handles = (\<lambda>_. None), sc_threads = num_batch_threads\<rparr>"

definition Create :: "int \<Rightarrow> sched_status \<times> 't sched option" where
  "Create num_batch_threads =
     (if num_batch_threads < 1 then (StatusInvalidArgument, None)
      else (StatusOK, Some (SharedBatchScheduler num_batch_threads)))"

text \<open>The iterator \<open>next_queue_to_schedule_\<close> is a position, the length of the list is \<open>end()\<close>.\<close>

definition AddQueue :: "nat \<Rightarrow> queue_options \<Rightarrow> 't sched \<Rightarrow> sched_status \<times> 't sched" where
  "AddQueue qid opts s =
     (if max_batch_size opts = 0 then (StatusInvalidArgument, s)
      else if sint (batch_timeout_micros opts) < 0 then (StatusInvalidArgument, s)
      else if max_enqueued_batches opts < 0 then (StatusInvalidArgument, s)
      else
        (StatusOK, s\<lparr>sc_queues := sc_queues s @ [qid], sc_store := (sc_store s)(qid \<mapsto> (opts, Queue)),
          sc_handles := (sc_handles s)(qid \<mapsto> HandleOpen),
          sc_next := (if sc_next s = length (sc_queues s) then 0 else sc_next s)\<rparr>))"

definition with_queue :: "nat \<Rightarrow> (queue_options \<Rightarrow> 't queue \<Rightarrow> ('a \<times> 't queue) out) \<Rightarrow> 't sched \<Rightarrow> ('a \<times> 't sched) out" where
  "with_queue qid f s =
     bnd (object (sc_store s qid)) (\<lambda>(opts, q). bnd (f opts q) (\<lambda>(a, q). Inr (a, s\<lparr>sc_store := (sc_store s)(qid \<mapsto> (opts, q))\<rparr>)))"

definition goto :: "nat \<Rightarrow> 't pc \<Rightarrow> 't sched \<Rightarrow> 't sched" where
  "goto i p s = s\<lparr>sc_pc := (sc_pc s)(i := p)\<rparr>"

definition Handle_Schedule :: "('t \<Rightarrow> size_t) \<Rightarrow> nat \<Rightarrow> 64 word \<Rightarrow> 64 word \<Rightarrow> 't \<Rightarrow> 't sched \<Rightarrow> (sched_status \<times> 't sched) out" where
  "Handle_Schedule sz qid now1 now2 t s =
     with_queue qid (\<lambda>opts q. bnd (Queue_Schedule sz opts now1 now2 t q) (\<lambda>(st, _, q). Inr (st, q))) s"

definition Handle_close :: "nat \<Rightarrow> 't sched \<Rightarrow> 't sched out" where
  "Handle_close qid s =
     bnd (with_queue qid (\<lambda>opts. Queue_Close) s) (\<lambda>(notified, s).
     Inr (s\<lparr>sc_handles := (sc_handles s)(qid \<mapsto> HandleWaiting notified)\<rparr>))"

definition thread_enter :: "nat \<Rightarrow> 't sched \<Rightarrow> 't sched" where
  "thread_enter i s = goto i (AtLoop 0 (sint (of_nat (length (sc_queues s)) :: 32 word))) (s\<lparr>sc_lock := Some i\<rparr>)"

definition thread_loop :: "nat \<Rightarrow> int \<Rightarrow> int \<Rightarrow> 't sched \<Rightarrow> 't sched out" where
  "thread_loop i num_queues_tried num_queues s =
     (if num_queues_tried < num_queues then
        bnd (dcheck (sc_next s \<noteq> length (sc_queues s))) (\<lambda>_. bnd (get (sc_queues s) (sc_next s)) (\<lambda>qid.
        bnd (object (sc_store s qid)) (\<lambda>(_, q). Inr (goto i (Snapped num_queues_tried num_queues (q_closed q)) s))))
      else Inr (goto i Outside (s\<lparr>sc_lock := None\<rparr>)))"

definition thread_ask :: "nat \<Rightarrow> int \<Rightarrow> int \<Rightarrow> bool \<Rightarrow> 64 word \<Rightarrow> 't sched \<Rightarrow> ((nat \<times> 't batch) option \<times> 't sched) out" where
  "thread_ask i num_queues_tried num_queues queue_closed now s =
     bnd (get (sc_queues s) (sc_next s)) (\<lambda>qid.
     bnd (with_queue qid (\<lambda>opts. ScheduleBatch opts now) s) (\<lambda>(b, s).
     let r = map_option (Pair qid) b in
     Inr (r, goto i (Asked num_queues_tried num_queues queue_closed r) s)))"

definition erase_next :: "nat \<Rightarrow> 't sched \<Rightarrow> 't sched out" where
  "erase_next qid s =
     bnd (object (sc_store s qid)) (\<lambda>(_, q). bnd (Queue_destroy q) (\<lambda>_.
     Inr (s\<lparr>sc_queues := take (sc_next s) (sc_queues s) @ drop (Suc (sc_next s)) (sc_queues s),
            sc_store := (sc_store s)(qid := None)\<rparr>)))"

definition thread_advance :: "nat \<Rightarrow> int \<Rightarrow> int \<Rightarrow> bool \<Rightarrow> (nat \<times> 't batch) option \<Rightarrow> 't sched \<Rightarrow> 't sched out" where
  "thread_advance i num_queues_tried num_queues queue_closed r s =
     bnd (get (sc_queues s) (sc_next s)) (\<lambda>qid.
     bnd (if queue_closed then bnd (object (sc_store s qid)) (\<lambda>(_, q). IsEmptyInternal q) else Inr False) (\<lambda>empty.
     bnd (if queue_closed \<and> empty \<and> Option.is_none r then
            bnd (dcheck (map_option fst r \<noteq> Some qid)) (\<lambda>_. erase_next qid s)
          else Inr (s\<lparr>sc_next := Suc (sc_next s)\<rparr>)) (\<lambda>s.
     let s = (if sc_next s = length (sc_queues s) \<and> sc_queues s \<noteq> [] then s\<lparr>sc_next := 0\<rparr> else s) in
     case r of
       None \<Rightarrow> Inr (goto i (AtLoop (num_queues_tried + 1) num_queues) s)
     | Some (q, b) \<Rightarrow> Inr (goto i (Processing q b) (s\<lparr>sc_lock := None\<rparr>)))))"

text \<open>\<open>Notify\<close> refuses a second call, and its object lives as long as the destructor waits.\<close>

definition notify :: "nat \<Rightarrow> 't sched \<Rightarrow> 't sched out" where
  "notify qid s =
     (case sc_handles s qid of
        Some (HandleWaiting notified) \<Rightarrow>
          bnd (dcheck (\<not> notified)) (\<lambda>_. Inr (s\<lparr>sc_handles := (sc_handles s)(qid \<mapsto> HandleWaiting True)\<rparr>))
      | _ \<Rightarrow> Inl NoObject)"

definition thread_finish :: "nat \<Rightarrow> nat \<Rightarrow> 't sched \<Rightarrow> 't sched out" where
  "thread_finish i qid s =
     bnd (with_queue qid (\<lambda>opts. ProcessBatch) s) (\<lambda>(now_empty, s).
     bnd (if now_empty then notify qid s else Inr s) (\<lambda>s. Inr (goto i Outside s)))"

section \<open>Runs\<close>

text \<open>
  An event happens when the lock it needs is free and its object is there.  \<open>options_ok\<close> is not tested by
  the code: the model has the runs whose queues have a \<open>max_batch_size\<close> below \<open>2 ^ 63\<close>, in which the
  sizes of a batch and a task can be added without wrapping around.
\<close>

fun enabled :: "'t event \<Rightarrow> 't sched \<Rightarrow> bool" where
  "enabled (EvAddQueue qid opts) s \<longleftrightarrow> sc_lock s = None \<and> sc_handles s qid = None \<and> options_ok opts"
| "enabled (EvSchedule qid now1 now2 t) s \<longleftrightarrow> sc_handles s qid = Some HandleOpen"
| "enabled (EvClose qid) s \<longleftrightarrow> sc_handles s qid = Some HandleOpen"
| "enabled (EvWake qid) s \<longleftrightarrow> sc_handles s qid = Some (HandleWaiting True)"
| "enabled (EvEnter i) s \<longleftrightarrow> sc_lock s = None \<and> int i < sc_threads s \<and> (case sc_pc s i of Outside \<Rightarrow> True | _ \<Rightarrow> False)"
| "enabled (EvLoop i) s \<longleftrightarrow> (case sc_pc s i of AtLoop _ _ \<Rightarrow> True | _ \<Rightarrow> False)"
| "enabled (EvAsk i now) s \<longleftrightarrow> (case sc_pc s i of Snapped _ _ _ \<Rightarrow> True | _ \<Rightarrow> False)"
| "enabled (EvAdvance i) s \<longleftrightarrow> (case sc_pc s i of Asked _ _ _ _ \<Rightarrow> True | _ \<Rightarrow> False)"
| "enabled (EvFinish i) s \<longleftrightarrow> (case sc_pc s i of Processing _ _ \<Rightarrow> True | _ \<Rightarrow> False)"

fun perform_event :: "('t \<Rightarrow> size_t) \<Rightarrow> 't event \<Rightarrow> 't sched \<Rightarrow> ('t entry list \<times> 't sched) out" where
  "perform_event sz (EvAddQueue qid opts) s = (case AddQueue qid opts s of (st, s) \<Rightarrow> Inr (if st = StatusOK then [Added qid opts] else [], s))"
| "perform_event sz (EvSchedule qid now1 now2 t) s =
     bnd (Handle_Schedule sz qid now1 now2 t s) (\<lambda>(st, s). Inr (if st = StatusOK then [Accepted qid t] else [], s))"
| "perform_event sz (EvClose qid) s = bnd (Handle_close qid s) (\<lambda>s. Inr ([], s))"
| "perform_event sz (EvWake qid) s = Inr ([Returned qid], s\<lparr>sc_handles := (sc_handles s)(qid \<mapsto> HandleGone)\<rparr>)"
| "perform_event sz (EvEnter i) s = Inr ([], thread_enter i s)"
| "perform_event sz (EvLoop i) s = (case sc_pc s i of AtLoop k m \<Rightarrow> bnd (thread_loop i k m s) (\<lambda>s. Inr ([], s)) | _ \<Rightarrow> Inr ([], s))"
| "perform_event sz (EvAsk i now) s =
     (case sc_pc s i of
        Snapped k m c \<Rightarrow>
          bnd (thread_ask i k m c now s) (\<lambda>(r, s). Inr (case r of None \<Rightarrow> [] | Some (qid, b) \<Rightarrow> [Dispensed qid b], s))
      | _ \<Rightarrow> Inr ([], s))"
| "perform_event sz (EvAdvance i) s = (case sc_pc s i of Asked k m c r \<Rightarrow> bnd (thread_advance i k m c r s) (\<lambda>s. Inr ([], s)) | _ \<Rightarrow> Inr ([], s))"
| "perform_event sz (EvFinish i) s =
     (case sc_pc s i of Processing qid b \<Rightarrow> bnd (thread_finish i qid s) (\<lambda>s. Inr ([Processed qid b], s)) | _ \<Rightarrow> Inr ([], s))"

inductive reach :: "('t \<Rightarrow> size_t) \<Rightarrow> int \<Rightarrow> 't entry list \<Rightarrow> 't sched \<Rightarrow> bool" for sz n where
  reach_created: "Create n = (StatusOK, Some s) \<Longrightarrow> reach sz n [] s"
| reach_event: "reach sz n log s \<Longrightarrow> enabled e s \<Longrightarrow> perform_event sz e s = Inr (l, s') \<Longrightarrow> reach sz n (log @ l) s'"

fun run :: "('t \<Rightarrow> size_t) \<Rightarrow> 't event list \<Rightarrow> 't entry list \<times> 't sched \<Rightarrow> ('t entry list \<times> 't sched) option" where
  "run sz [] (log, s) = Some (log, s)"
| "run sz (e # es) (log, s) =
     (if enabled e s then (case perform_event sz e s of Inl _ \<Rightarrow> None | Inr (l, s) \<Rightarrow> run sz es (log @ l, s)) else None)"

lemma run_reach: "run sz es (log, s) = Some (log', s') \<Longrightarrow> reach sz n log s \<Longrightarrow> reach sz n log' s'"
proof (induction es arbitrary: log s)
  case (Cons e es)
  then obtain l t where "enabled e s" "perform_event sz e s = Inr (l, t)" "run sz es (log @ l, t) = Some (log', s')"
    by (auto split: if_splits sum.splits)
  with Cons show ?case by (blast intro: reach_event)
qed simp

end
