(* ===== verification/Batch_Safe.thy ===== *)
theory Batch_Safe
  imports Batch_Sched
begin

text \<open>
  The invariant of the batch scheduler: what ties each queue to what was observed of it, to the batches
  that are being processed and to its handle, and what a batch thread knows inside its loop.
\<close>

section \<open>Observations\<close>

fun accepted_of :: "nat \<Rightarrow> 't entry \<Rightarrow> 't list" where
  "accepted_of qid (Accepted q t) = (if q = qid then [t] else [])"
| "accepted_of qid _ = []"

fun dispensed_of :: "nat \<Rightarrow> 't entry \<Rightarrow> 't batch list" where
  "dispensed_of qid (Dispensed q b) = (if q = qid then [b] else [])"
| "dispensed_of qid _ = []"

fun processed_of :: "nat \<Rightarrow> 't entry \<Rightarrow> 't batch list" where
  "processed_of qid (Processed q b) = (if q = qid then [b] else [])"
| "processed_of qid _ = []"

definition accepted_tasks :: "nat \<Rightarrow> 't entry list \<Rightarrow> 't list" where
  "accepted_tasks qid log = concat (map (accepted_of qid) log)"

definition dispensed :: "nat \<Rightarrow> 't entry list \<Rightarrow> 't batch list" where
  "dispensed qid log = concat (map (dispensed_of qid) log)"

definition processed :: "nat \<Rightarrow> 't entry list \<Rightarrow> 't batch list" where
  "processed qid log = concat (map (processed_of qid) log)"

definition tasks_of :: "'t batch list \<Rightarrow> 't list" where
  "tasks_of bs = concat (map bt_tasks bs)"

lemma observed_append [simp]:
  "accepted_tasks qid (log @ l) = accepted_tasks qid log @ accepted_tasks qid l" "dispensed qid (log @ l) = dispensed qid log @ dispensed qid l"
  "processed qid (log @ l) = processed qid log @ processed qid l" "tasks_of (bs @ cs) = tasks_of bs @ tasks_of cs"
  by (simp_all add: accepted_tasks_def dispensed_def processed_def tasks_of_def)

lemma observed_simps [simp]:
  "accepted_tasks qid [] = []" "dispensed qid [] = []" "processed qid [] = []" "tasks_of [] = []" "tasks_of [b] = bt_tasks b"
  "accepted_tasks qid [e] = accepted_of qid e" "dispensed qid [e] = dispensed_of qid e" "processed qid [e] = processed_of qid e"
  by (simp_all add: accepted_tasks_def dispensed_def processed_def tasks_of_def)

section \<open>Batches in flight\<close>

fun held :: "nat \<Rightarrow> 't pc \<Rightarrow> 't batch multiset" where
  "held qid (Asked _ _ _ (Some (q, b))) = (if q = qid then {#b#} else {#})"
| "held qid (Processing q b) = (if q = qid then {#b#} else {#})"
| "held qid _ = {#}"

definition in_flight :: "nat \<Rightarrow> 't sched \<Rightarrow> 't batch multiset" where
  "in_flight qid s = (\<Sum>i<nat (sc_threads s). held qid (sc_pc s i))"

lemma sum_fun_upd:
  fixes f :: "'a \<Rightarrow> 'b :: comm_monoid_add"
  assumes "finite A" "i \<in> A"
  shows "(\<Sum>j\<in>A. f ((g(i := x)) j)) + f (g i) = (\<Sum>j\<in>A. f (g j)) + f x"
proof -
  have "(\<Sum>j\<in>A. f ((g(i := x)) j)) = f x + (\<Sum>j\<in>A - {i}. f (g j))"
    using assms by (simp add: sum.remove [of A i])
  moreover have "(\<Sum>j\<in>A. f (g j)) = f (g i) + (\<Sum>j\<in>A - {i}. f (g j))" using assms by (rule sum.remove)
  ultimately show ?thesis by (simp add: ac_simps)
qed

lemma in_flight_goto:
  "i < nat (sc_threads s) \<Longrightarrow> in_flight qid (goto i p s) + held qid (sc_pc s i) = in_flight qid s + held qid p"
  unfolding in_flight_def goto_def using sum_fun_upd [of "{..<nat (sc_threads s)}" i "held qid" "sc_pc s" p] by simp

lemma in_flight_same:
  "i < nat (sc_threads s) \<Longrightarrow> held qid p = held qid (sc_pc s i) \<Longrightarrow> in_flight qid (goto i p s) = in_flight qid s"
  using in_flight_goto [of i s qid p] by simp

lemma in_flight_simps [simp]:
  "in_flight qid (s\<lparr>sc_queues := qs\<rparr>) = in_flight qid s" "in_flight qid (s\<lparr>sc_next := k\<rparr>) = in_flight qid s"
  "in_flight qid (s\<lparr>sc_store := st\<rparr>) = in_flight qid s" "in_flight qid (s\<lparr>sc_lock := l\<rparr>) = in_flight qid s"
  "in_flight qid (s\<lparr>sc_handles := h\<rparr>) = in_flight qid s"
  by (simp_all add: in_flight_def)

lemma goto_simps [simp]:
  "sc_queues (goto i p s) = sc_queues s" "sc_next (goto i p s) = sc_next s" "sc_store (goto i p s) = sc_store s"
  "sc_lock (goto i p s) = sc_lock s" "sc_handles (goto i p s) = sc_handles s" "sc_threads (goto i p s) = sc_threads s"
  "sc_pc (goto i p s) = (sc_pc s)(i := p)"
  by (simp_all add: goto_def)

section \<open>The invariant of one queue\<close>

definition busy :: "'t queue \<Rightarrow> bool" where
  "busy q \<longleftrightarrow> q_processing q \<noteq> 0 \<or> waiting q \<noteq> []"

definition dispensed_ok :: "('t \<Rightarrow> size_t) \<Rightarrow> nat \<Rightarrow> 't entry list \<Rightarrow> bool" where
  "dispensed_ok sz qid log \<longleftrightarrow>
     (\<forall>b\<in>set (dispensed qid log). bt_closed b \<and> bt_tasks b \<noteq> [] \<and> (\<forall>opts. Added qid opts \<in> set log \<longrightarrow> batch_ok sz opts b))"

definition handle_ok :: "handle option \<Rightarrow> 't queue \<Rightarrow> bool" where
  "handle_ok h q \<longleftrightarrow>
     (case h of
        None \<Rightarrow> False
      | Some HandleOpen \<Rightarrow> \<not> q_closed q \<and> \<not> q_notification q
      | Some (HandleWaiting notified) \<Rightarrow> q_closed q \<and> (notified \<longleftrightarrow> \<not> busy q) \<and> (notified \<or> q_notification q)
      | Some HandleGone \<Rightarrow> q_closed q \<and> \<not> busy q)"

lemma handle_ok_cong:
  "q_closed q' = q_closed q \<Longrightarrow> q_notification q' = q_notification q \<Longrightarrow> busy q' = busy q \<Longrightarrow> handle_ok h q' = handle_ok h q"
  by (simp add: handle_ok_def split: option.split handle.split)

text \<open>While the queue exists: its options, its state, its handle, the batches of it that are in flight.\<close>

definition live_queue :: "('t \<Rightarrow> size_t) \<Rightarrow> queue_options \<Rightarrow> 't queue \<Rightarrow> handle option \<Rightarrow> 't batch multiset \<Rightarrow> nat \<Rightarrow> 't entry list \<Rightarrow> bool" where
  "live_queue sz opts q h fl qid log \<longleftrightarrow>
     options_ok opts \<and> queue_ok sz opts q \<and> (\<forall>opts'. Added qid opts' \<in> set log \<longleftrightarrow> opts' = opts) \<and>
     accepted_tasks qid log = tasks_of (dispensed qid log) @ waiting q \<and> q_processing q = int (size fl) \<and>
     handle_ok h q"

definition dead_queue :: "handle option \<Rightarrow> 't batch multiset \<Rightarrow> nat \<Rightarrow> 't entry list \<Rightarrow> bool" where
  "dead_queue h fl qid log \<longleftrightarrow>
     fl = {#} \<and> accepted_tasks qid log = tasks_of (dispensed qid log) \<and>
     (case h of
        None \<Rightarrow> accepted_tasks qid log = [] \<and> dispensed qid log = [] \<and> (\<forall>opts. Added qid opts \<notin> set log)
      | Some h \<Rightarrow> h = HandleWaiting True \<or> h = HandleGone)"

definition queue_inv :: "('t \<Rightarrow> size_t) \<Rightarrow> (queue_options \<times> 't queue) option \<Rightarrow> handle option \<Rightarrow> 't batch multiset \<Rightarrow> nat \<Rightarrow> 't entry list \<Rightarrow> bool" where
  "queue_inv sz st h fl qid log \<longleftrightarrow>
     mset (dispensed qid log) = mset (processed qid log) + fl \<and> dispensed_ok sz qid log \<and>
     (Returned qid \<in> set log \<longleftrightarrow> h = Some HandleGone) \<and>
     (case st of None \<Rightarrow> dead_queue h fl qid log | Some (opts, q) \<Rightarrow> live_queue sz opts q h fl qid log)"

definition silent :: "nat \<Rightarrow> 't entry list \<Rightarrow> bool" where
  "silent qid l \<longleftrightarrow> accepted_tasks qid l = [] \<and> dispensed qid l = [] \<and> processed qid l = [] \<and> (\<forall>opts. Added qid opts \<notin> set l) \<and> Returned qid \<notin> set l"

lemma queue_inv_cong: "silent qid l \<Longrightarrow> queue_inv sz st h fl qid (log @ l) = queue_inv sz st h fl qid log"
  by (simp add: silent_def queue_inv_def dispensed_ok_def live_queue_def dead_queue_def split: option.split)

section \<open>The invariant of the scheduler\<close>

definition next_ok :: "'t sched \<Rightarrow> bool" where
  "next_ok s \<longleftrightarrow> distinct (sc_queues s) \<and> set (sc_queues s) = dom (sc_store s) \<and>
     (if sc_queues s = [] then sc_next s = 0 else sc_next s < length (sc_queues s))"

fun in_loop :: "'t pc \<Rightarrow> bool" where
  "in_loop (AtLoop _ _) = True"
| "in_loop (Snapped _ _ _) = True"
| "in_loop (Asked _ _ _ _) = True"
| "in_loop _ = False"

definition lock_ok :: "'t sched \<Rightarrow> bool" where
  "lock_ok s \<longleftrightarrow> (\<forall>i. (in_loop (sc_pc s i) \<longleftrightarrow> sc_lock s = Some i) \<and> (sc_pc s i \<noteq> Outside \<longrightarrow> i < nat (sc_threads s)))"

definition next_queue :: "'t sched \<Rightarrow> 't queue option" where
  "next_queue s = (if sc_next s < length (sc_queues s) then map_option snd (sc_store s (sc_queues s ! sc_next s)) else None)"

fun loop_ok :: "'t sched \<Rightarrow> 't pc \<Rightarrow> bool" where
  "loop_ok s (AtLoop k m) \<longleftrightarrow> m \<le> k + int (length (sc_queues s))"
| "loop_ok s (Snapped k m c) \<longleftrightarrow> k < m \<and> m \<le> k + int (length (sc_queues s)) \<and> (c \<longrightarrow> (\<exists>q. next_queue s = Some q \<and> q_closed q))"
| "loop_ok s (Asked k m c r) \<longleftrightarrow> k < m \<and> m \<le> k + int (length (sc_queues s)) \<and>
     (c \<longrightarrow> (\<exists>q. next_queue s = Some q \<and> q_closed q \<and> (r = None \<longrightarrow> waiting q = [])))"
| "loop_ok s _ \<longleftrightarrow> True"

definition sched_inv :: "('t \<Rightarrow> size_t) \<Rightarrow> 't entry list \<Rightarrow> 't sched \<Rightarrow> bool" where
  "sched_inv sz log s \<longleftrightarrow>
     (\<forall>qid. queue_inv sz (sc_store s qid) (sc_handles s qid) (in_flight qid s) qid log) \<and>
     next_ok s \<and> lock_ok s \<and> (\<forall>i. loop_ok s (sc_pc s i))"

lemma sched_invD:
  assumes "sched_inv sz log s"
  shows "queue_inv sz (sc_store s qid) (sc_handles s qid) (in_flight qid s) qid log" "next_ok s" "lock_ok s" "loop_ok s (sc_pc s i)"
  using assms by (simp_all add: sched_inv_def)

lemma Create_inv: "Create n = (StatusOK, Some s) \<Longrightarrow> sched_inv sz [] s"
  by (auto simp: Create_def SharedBatchScheduler_def sched_inv_def queue_inv_def dead_queue_def in_flight_def next_ok_def lock_ok_def
    dispensed_ok_def split: if_splits)

section \<open>Events of one queue\<close>

lemma one_queue:
  assumes inv: "sched_inv sz log s"
    and eqs: "sc_queues s' = sc_queues s" "sc_next s' = sc_next s" "sc_store s' = (sc_store s)(qid := st)" "sc_handles s' = (sc_handles s)(qid := h)"
    and others: "\<And>q. q \<noteq> qid \<Longrightarrow> in_flight q s' = in_flight q s" "\<And>q. q \<noteq> qid \<Longrightarrow> silent q l"
    and own: "queue_inv sz st h (in_flight qid s') qid (log @ l)" "st = None \<longleftrightarrow> sc_store s qid = None"
    and threads: "lock_ok s'" "\<And>i. loop_ok s' (sc_pc s' i)"
  shows "sched_inv sz (log @ l) s'"
proof -
  have "queue_inv sz (sc_store s' q) (sc_handles s' q) (in_flight q s') q (log @ l)" for q
    using own(1) sched_invD(1) [OF inv, of q] others [of q] by (cases "q = qid") (simp_all add: eqs queue_inv_cong)
  moreover have "dom ((sc_store s)(qid := st)) = dom (sc_store s)" using own(2) by (auto split: if_splits)
  then have "next_ok s'" using sched_invD(2) [OF inv] by (simp add: next_ok_def eqs)
  ultimately show ?thesis using threads by (simp add: sched_inv_def)
qed

lemma loop_ok_change:
  assumes "sc_store s qid = Some (opts, q)" "q_closed q \<longrightarrow> q_closed q' \<and> (waiting q = [] \<longrightarrow> waiting q' = [])"
    and "sc_queues s' = sc_queues s" "sc_next s' = sc_next s" "sc_store s' = (sc_store s)(qid := Some (opts, q'))"
    and "loop_ok s p"
  shows "loop_ok s' p"
  using assms by (cases p) (auto simp: next_queue_def split: if_splits)

lemma lock_ok_same: "lock_ok s \<Longrightarrow> sc_pc s' = sc_pc s \<Longrightarrow> sc_lock s' = sc_lock s \<Longrightarrow> sc_threads s' = sc_threads s \<Longrightarrow> lock_ok s'"
  by (simp add: lock_ok_def)

lemma lock_ok_goto:
  assumes "lock_ok s" "in_loop (sc_pc s i) = in_loop p" "i < nat (sc_threads s)"
    and "sc_pc s' = (sc_pc s)(i := p)" "sc_lock s' = sc_lock s" "sc_threads s' = sc_threads s"
  shows "lock_ok s'"
  using assms unfolding lock_ok_def by simp

lemma open_is_live:
  assumes "sched_inv sz log s" "sc_handles s qid = Some HandleOpen"
  obtains opts q where "sc_store s qid = Some (opts, q)" "live_queue sz opts q (Some HandleOpen) (in_flight qid s) qid log"
    "\<not> q_closed q"
  using sched_invD(1) [OF assms(1), of qid] assms(2) by (auto simp: queue_inv_def dead_queue_def live_queue_def handle_ok_def split: option.splits)

lemma Schedule_inv:
  assumes inv: "sched_inv sz log s" and en: "enabled (EvSchedule qid now1 now2 t) s"
  shows "\<exists>l s'. perform_event sz (EvSchedule qid now1 now2 t) s = Inr (l, s') \<and> sched_inv sz (log @ l) s'"
proof -
  from en have h: "sc_handles s qid = Some HandleOpen" by simp
  obtain opts q where q: "sc_store s qid = Some (opts, q)" and live: "live_queue sz opts q (Some HandleOpen) (in_flight qid s) qid log"
    and op: "\<not> q_closed q"
    using open_is_live [OF inv h] by metis
  from live have ok: "options_ok opts" "queue_ok sz opts q" by (simp_all add: live_queue_def handle_ok_def)
  obtain bs b where b: "q_batches q = bs @ [b]" using queue_okE [OF ok(2)] by metis
  obtain st n q' where s: "Queue_Schedule sz opts now1 now2 t q = Inr (st, n, q')" "queue_ok sz opts q'" "same_but_batches q q'"
    "if st = StatusOK then waiting q' = waiting q @ [t] else q' = q"
    using Schedule_spec [OF ok op b, of now1 now2 t] by blast
  let ?s = "s\<lparr>sc_store := (sc_store s)(qid \<mapsto> (opts, q'))\<rparr>" and ?l = "if st = StatusOK then [Accepted qid t] else []"
  have "perform_event sz (EvSchedule qid now1 now2 t) s = Inr (?l, ?s)"
    using s(1) q by (simp add: Handle_Schedule_def with_queue_def)
  moreover have "sched_inv sz (log @ ?l) ?s"
  proof (rule one_queue [OF inv, where qid = qid and st = "Some (opts, q')" and h = "Some HandleOpen"])
    show "queue_inv sz (Some (opts, q')) (Some HandleOpen) (in_flight qid ?s) qid (log @ ?l)"
      using sched_invD(1) [OF inv, of qid] s(2,3,4) unfolding queue_inv_def live_queue_def handle_ok_def dispensed_ok_def
      by (auto simp: q h same_but_batches_def)
    show "lock_ok ?s" using sched_invD(3) [OF inv] by (rule lock_ok_same) simp_all
    show "loop_ok ?s (sc_pc ?s i)" for i
      using loop_ok_change [OF q, of q' ?s "sc_pc s i"] op sched_invD(4) [OF inv] by simp
  qed (auto simp: h q silent_def fun_upd_idem)
  ultimately show ?thesis by blast
qed

lemma Close_inv:
  assumes inv: "sched_inv sz log s" and en: "enabled (EvClose qid) s"
  shows "\<exists>l s'. perform_event sz (EvClose qid) s = Inr (l, s') \<and> sched_inv sz (log @ l) s'"
proof -
  from en have h: "sc_handles s qid = Some HandleOpen" by simp
  obtain opts q where q: "sc_store s qid = Some (opts, q)" and live: "live_queue sz opts q (Some HandleOpen) (in_flight qid s) qid log"
    and op: "\<not> q_closed q"
    using open_is_live [OF inv h] by metis
  from live have ok: "queue_ok sz opts q" by (simp add: live_queue_def handle_ok_def)
  let ?n = "\<not> busy q"
  let ?q = "if busy q then q\<lparr>q_closed := True, q_notification := True\<rparr> else q\<lparr>q_closed := True\<rparr>"
  let ?s = "s\<lparr>sc_store := (sc_store s)(qid \<mapsto> (opts, ?q)), sc_handles := (sc_handles s)(qid \<mapsto> HandleWaiting ?n)\<rparr>"
  have same: "waiting ?q = waiting q" "q_processing ?q = q_processing q" "q_closed ?q" "busy ?q = busy q" "queue_ok sz opts ?q" "busy q \<longrightarrow> q_notification ?q"
    using ok by (auto simp: waiting_def busy_def queue_ok_def)
  have "perform_event sz (EvClose qid) s = Inr ([], ?s)"
    using Queue_Close_spec [OF ok] q by (auto simp: Handle_close_def with_queue_def busy_def)
  moreover have "sched_inv sz (log @ []) ?s"
  proof (rule one_queue [OF inv, where qid = qid and st = "Some (opts, ?q)" and h = "Some (HandleWaiting ?n)"])
    show "queue_inv sz (Some (opts, ?q)) (Some (HandleWaiting ?n)) (in_flight qid ?s) qid (log @ [])"
      using sched_invD(1) [OF inv, of qid] same by (simp add: queue_inv_def live_queue_def handle_ok_def dispensed_ok_def q h)
    show "lock_ok ?s" using sched_invD(3) [OF inv] by (rule lock_ok_same) simp_all
    show "loop_ok ?s (sc_pc ?s i)" for i
      using loop_ok_change [OF q, of ?q ?s "sc_pc s i"] op sched_invD(4) [OF inv] by simp
  qed (auto simp: q silent_def)
  ultimately show ?thesis by blast
qed

lemma Wake_inv:
  assumes inv: "sched_inv sz log s" and en: "enabled (EvWake qid) s"
  shows "\<exists>l s'. perform_event sz (EvWake qid) s = Inr (l, s') \<and> sched_inv sz (log @ l) s'"
proof -
  from en have h: "sc_handles s qid = Some (HandleWaiting True)" by simp
  let ?s = "s\<lparr>sc_handles := (sc_handles s)(qid \<mapsto> HandleGone)\<rparr>"
  have "sched_inv sz (log @ [Returned qid]) ?s"
  proof (rule one_queue [OF inv, where qid = qid and st = "sc_store s qid" and h = "Some HandleGone"])
    show "queue_inv sz (sc_store s qid) (Some HandleGone) (in_flight qid ?s) qid (log @ [Returned qid])"
      using sched_invD(1) [OF inv, of qid]
      by (auto simp: queue_inv_def live_queue_def handle_ok_def dead_queue_def dispensed_ok_def h split: option.splits)
    show "lock_ok ?s" using sched_invD(3) [OF inv] by (rule lock_ok_same) simp_all
    have "loop_ok ?s p = loop_ok s p" for p by (cases p) (simp_all add: next_queue_def)
    then show "loop_ok ?s (sc_pc ?s i)" for i using sched_invD(4) [OF inv] by simp
  qed (auto simp: silent_def)
  then show ?thesis by simp
qed

section \<open>Events of the batch threads\<close>

lemma int_of_size_le: "sint (of_nat n :: 32 word) \<le> int n"
proof -
  have "sint (of_nat n :: 32 word) \<le> uint (of_nat n :: 32 word)" by (simp add: sint_uint signed_take_bit_int_less_eq_self_iff order_trans [of "- 2147483648" 0])
  also have "\<dots> \<le> int n" by (simp add: unsigned_of_nat take_bit_int_less_eq_self_iff)
  finally show ?thesis .
qed

lemma silent_Nil [simp]: "silent qid []"
  by (simp add: silent_def)

text \<open>A step of a thread that leaves the queues and the handles as they are.\<close>

lemma thread_only:
  assumes inv: "sched_inv sz log s"
    and eqs: "sc_queues s' = sc_queues s" "sc_next s' = sc_next s" "sc_store s' = sc_store s" "sc_handles s' = sc_handles s"
    and "\<And>q. in_flight q s' = in_flight q s" "lock_ok s'" "\<And>j. loop_ok s' (sc_pc s' j)"
  shows "sched_inv sz log s'"
  using assms unfolding sched_inv_def next_ok_def by simp

lemma loop_ok_same:
  "sc_queues s' = sc_queues s \<Longrightarrow> sc_next s' = sc_next s \<Longrightarrow> sc_store s' = sc_store s \<Longrightarrow> loop_ok s' p = loop_ok s p"
  by (cases p) (simp_all add: next_queue_def)

lemma Enter_inv:
  assumes inv: "sched_inv sz log s" and en: "enabled (EvEnter i) s"
  shows "\<exists>l s'. perform_event sz (EvEnter i) s = Inr (l, s') \<and> sched_inv sz (log @ l) s'"
proof -
  let ?s = "thread_enter i s"
  from en have i: "i < nat (sc_threads s)" "sc_pc s i = Outside" "sc_lock s = None" by (simp_all add: zless_nat_eq_int_zless split: pc.splits)
  have "sched_inv sz log ?s"
  proof (rule thread_only [OF inv])
    show "in_flight q ?s = in_flight q s" for q unfolding thread_enter_def using i by (simp add: in_flight_same)
    show "lock_ok ?s" using sched_invD(3) [OF inv] i by (auto simp: lock_ok_def thread_enter_def)
    have "loop_ok ?s p = loop_ok s p" for p by (rule loop_ok_same) (simp_all add: thread_enter_def)
    moreover have "sc_pc ?s j = (if j = i then AtLoop 0 (sint (of_nat (length (sc_queues s)) :: 32 word)) else sc_pc s j)" for j
      by (simp add: thread_enter_def)
    ultimately show "loop_ok ?s (sc_pc ?s j)" for j
      using sched_invD(4) [OF inv, of j] int_of_size_le [of "length (sc_queues s)"] by simp
  qed (simp_all add: thread_enter_def)
  then show ?thesis by simp
qed

lemma has_next:
  assumes "sched_inv sz log s" "k < m" "m \<le> k + int (length (sc_queues s))"
  obtains opts q where "sc_next s < length (sc_queues s)" "sc_store s (sc_queues s ! sc_next s) = Some (opts, q)" "next_queue s = Some q"
    "live_queue sz opts q (sc_handles s (sc_queues s ! sc_next s)) (in_flight (sc_queues s ! sc_next s) s) (sc_queues s ! sc_next s) log"
proof -
  from assms(2,3) have "sc_queues s \<noteq> []" by auto
  then have n: "sc_next s < length (sc_queues s)" using sched_invD(2) [OF assms(1)] by (simp add: next_ok_def)
  then have "sc_queues s ! sc_next s \<in> dom (sc_store s)" using sched_invD(2) [OF assms(1)] by (auto simp: next_ok_def)
  then obtain opts q where "sc_store s (sc_queues s ! sc_next s) = Some (opts, q)" by auto
  with n sched_invD(1) [OF assms(1), of "sc_queues s ! sc_next s"] that show ?thesis
    by (simp add: next_queue_def queue_inv_def)
qed

lemma Loop_inv:
  assumes inv: "sched_inv sz log s" and en: "enabled (EvLoop i) s"
  shows "\<exists>l s'. perform_event sz (EvLoop i) s = Inr (l, s') \<and> sched_inv sz (log @ l) s'"
proof -
  from en obtain k m where pc: "sc_pc s i = AtLoop k m" by (auto split: pc.splits)
  have m: "m \<le> k + int (length (sc_queues s))" using sched_invD(4) [OF inv, of i] pc by simp
  have i: "i < nat (sc_threads s)" "sc_lock s = Some i" using sched_invD(3) [OF inv] pc unfolding lock_ok_def by (metis in_loop.simps(1) pc.distinct(1))+
  show ?thesis
  proof (cases "k < m")
    case True
    obtain opts q where q: "sc_next s < length (sc_queues s)" "sc_store s (sc_queues s ! sc_next s) = Some (opts, q)" "next_queue s = Some q"
      using has_next [OF inv True m] by metis
    let ?s = "goto i (Snapped k m (q_closed q)) s"
    have "perform_event sz (EvLoop i) s = Inr ([], ?s)" using pc True q by (simp add: thread_loop_def)
    moreover have "sched_inv sz log ?s"
    proof (rule thread_only [OF inv])
      show "in_flight p ?s = in_flight p s" for p using i pc by (simp add: in_flight_same)
      show "lock_ok ?s" using sched_invD(3) [OF inv] i pc by (auto simp: lock_ok_def)
      show "loop_ok ?s (sc_pc ?s j)" for j using sched_invD(4) [OF inv, of j] True m q by (simp add: loop_ok_same [of ?s s])
    qed simp_all
    ultimately show ?thesis by simp
  next
    case False
    let ?s = "goto i Outside (s\<lparr>sc_lock := None\<rparr>)"
    have "perform_event sz (EvLoop i) s = Inr ([], ?s)" using pc False by (simp add: thread_loop_def)
    moreover have "sched_inv sz log ?s"
    proof (rule thread_only [OF inv])
      show "in_flight p ?s = in_flight p s" for p using i pc by (simp add: in_flight_same)
      show "lock_ok ?s" using sched_invD(3) [OF inv] i pc by (auto simp: lock_ok_def)
      show "loop_ok ?s (sc_pc ?s j)" for j using sched_invD(4) [OF inv, of j] by (simp add: loop_ok_same [of ?s s])
    qed simp_all
    ultimately show ?thesis by simp
  qed
qed

lemma queue_inv_take:
  assumes "queue_inv sz (Some (opts, q)) h fl qid log" "queue_ok sz opts q'" "q_closed q' = q_closed q" "q_notification q' = q_notification q"
    and b: "waiting q = bt_tasks b @ waiting q'" "q_processing q' = q_processing q + 1" "batch_ok sz opts b" "bt_closed b" "bt_tasks b \<noteq> []"
  shows "queue_inv sz (Some (opts, q')) h (add_mset b fl) qid (log @ [Dispensed qid b])"
proof -
  have live: "live_queue sz opts q h fl qid log" using assms(1) by (simp add: queue_inv_def)
  then have "busy q' = busy q" using b by (auto simp: live_queue_def busy_def)
  with assms(3,4) have "handle_ok h q' = handle_ok h q" by (intro handle_ok_cong)
  with live assms(2) b(1,2) have "live_queue sz opts q' h (add_mset b fl) qid (log @ [Dispensed qid b])"
    by (simp add: live_queue_def)
  moreover have "dispensed_ok sz qid (log @ [Dispensed qid b])"
    using assms(1) live b(3,4,5) by (auto simp: queue_inv_def live_queue_def dispensed_ok_def)
  ultimately show ?thesis using assms(1) by (simp add: queue_inv_def)
qed

lemma Ask_inv:
  assumes inv: "sched_inv sz log s" and en: "enabled (EvAsk i now) s"
  shows "\<exists>l s'. perform_event sz (EvAsk i now) s = Inr (l, s') \<and> sched_inv sz (log @ l) s'"
proof -
  from en obtain k m c where pc: "sc_pc s i = Snapped k m c" by (auto split: pc.splits)
  from sched_invD(4) [OF inv, of i] pc have km: "k < m" "m \<le> k + int (length (sc_queues s))"
    and cl: "c \<longrightarrow> (\<exists>q. next_queue s = Some q \<and> q_closed q)" by simp_all
  have i: "i < nat (sc_threads s)" using sched_invD(3) [OF inv] pc unfolding lock_ok_def by (metis pc.distinct(3))
  define qid where "qid = sc_queues s ! sc_next s"
  obtain opts q where q: "sc_next s < length (sc_queues s)" "sc_store s qid = Some (opts, q)" "next_queue s = Some q"
    and live: "live_queue sz opts q (sc_handles s qid) (in_flight qid s) qid log"
    using has_next [OF inv km] unfolding qid_def by metis
  then have ok: "queue_ok sz opts q" by (simp add: live_queue_def handle_ok_def)
  obtain r q' where r: "ScheduleBatch opts now q = Inr (r, q')" "queue_ok sz opts q'" "q_closed q' = q_closed q" "q_notification q' = q_notification q"
    "case r of None \<Rightarrow> waiting q' = waiting q \<and> q_processing q' = q_processing q \<and> (q_closed q \<longrightarrow> waiting q = [])
     | Some b \<Rightarrow> waiting q = bt_tasks b @ waiting q' \<and> q_processing q' = q_processing q + 1 \<and> batch_ok sz opts b \<and> bt_closed b \<and> bt_tasks b \<noteq> []"
    using ScheduleBatch_spec [OF ok, of now] by blast
  let ?r = "map_option (Pair qid) r" and ?l = "case r of None \<Rightarrow> [] | Some b \<Rightarrow> [Dispensed qid b]"
  let ?t = "s\<lparr>sc_store := (sc_store s)(qid \<mapsto> (opts, q'))\<rparr>"
  let ?s = "goto i (Asked k m c ?r) ?t"
  have "perform_event sz (EvAsk i now) s = Inr (?l, ?s)"
    using pc q r(1) by (simp add: thread_ask_def with_queue_def Let_def flip: qid_def split: option.split)
  moreover have "sched_inv sz (log @ ?l) ?s"
  proof (rule one_queue [OF inv, where qid = qid and st = "Some (opts, q')" and h = "sc_handles s qid"])
    have fl: "in_flight p ?s = in_flight p s + held p (Asked k m c ?r)" for p
      using in_flight_goto [of i ?t p "Asked k m c ?r"] i pc by simp
    then show "in_flight p ?s = in_flight p s" if "p \<noteq> qid" for p using that by (cases r) simp_all
    show "queue_inv sz (Some (opts, q')) (sc_handles s qid) (in_flight qid ?s) qid (log @ ?l)"
    proof (cases r)
      case None
      then have "busy q' = busy q" using r(5) by (simp add: busy_def)
      with r(3,4) have "handle_ok h q' = handle_ok h q" for h by (intro handle_ok_cong) simp_all
      then show ?thesis using sched_invD(1) [OF inv, of qid] r q fl [of qid] None by (simp add: queue_inv_def live_queue_def)
    next
      case (Some b)
      have "in_flight qid ?s = add_mset b (in_flight qid s)" using fl [of qid] Some by simp
      moreover have "waiting q = bt_tasks b @ waiting q'" "q_processing q' = q_processing q + 1" "batch_ok sz opts b" "bt_closed b" "bt_tasks b \<noteq> []"
        using r(5) Some by simp_all
      ultimately show ?thesis
        using sched_invD(1) [OF inv, of qid] queue_inv_take [of sz opts q "sc_handles s qid" "in_flight qid s" qid log q' b] r(2,3,4) Some q(2) by simp
    qed
    show "lock_ok ?s" by (rule lock_ok_goto [OF sched_invD(3) [OF inv], of i "Asked k m c ?r"]) (simp_all add: pc i)
    have nq: "next_queue ?s = Some q'" using q(1) by (simp add: next_queue_def flip: qid_def)
    have others: "loop_ok ?s p" if "loop_ok s p" for p
      using loop_ok_change [OF q(2), of q' ?s p] that r(3,5) by (cases r) auto
    show "loop_ok ?s (sc_pc ?s j)" for j
      using others [OF sched_invD(4) [OF inv, of j]] km cl nq r(3,5) q(3) by (cases r) auto
  qed (auto simp: q(2) silent_def split: option.split)
  ultimately show ?thesis by blast
qed

lemma Finish_inv:
  assumes inv: "sched_inv sz log s" and en: "enabled (EvFinish i) s"
  shows "\<exists>l s'. perform_event sz (EvFinish i) s = Inr (l, s') \<and> sched_inv sz (log @ l) s'"
proof -
  from en obtain qid b where pc: "sc_pc s i = Processing qid b" by (auto split: pc.splits)
  have i: "i < nat (sc_threads s)" using sched_invD(3) [OF inv] pc unfolding lock_ok_def by (metis pc.distinct(7))
  have out: "in_flight p (goto i Outside t) + held p (Processing qid b) = in_flight p s"
    if "in_flight p t = in_flight p s" "sc_pc t = sc_pc s" "sc_threads t = sc_threads s" for p t
    using in_flight_goto [of i t p Outside] that i pc by simp
  have "b \<in># in_flight qid s" using out [of qid s] by (metis held.simps(2) union_iff add_mset_add_single multi_member_last)
  then obtain opts q where q: "sc_store s qid = Some (opts, q)" and live: "live_queue sz opts q (sc_handles s qid) (in_flight qid s) qid log"
    using sched_invD(1) [OF inv, of qid] by (auto simp: queue_inv_def dead_queue_def split: option.splits)
  then have ok: "queue_ok sz opts q" by (simp add: live_queue_def handle_ok_def)
  let ?n = "q_notification q \<and> q_processing q = 1 \<and> waiting q = []" and ?q = "q\<lparr>q_processing := q_processing q - 1\<rparr>"
  let ?h = "if ?n then Some (HandleWaiting True) else sc_handles s qid"
  let ?s = "goto i Outside (s\<lparr>sc_store := (sc_store s)(qid \<mapsto> (opts, ?q)), sc_handles := (sc_handles s)(qid := ?h)\<rparr>)"
  have busy: "busy q" using live \<open>b \<in># in_flight qid s\<close> by (auto simp: live_queue_def handle_ok_def busy_def)
  have h: "sc_handles s qid = Some (HandleWaiting False)" if ?n
    using that live busy by (auto simp: live_queue_def handle_ok_def split: option.splits handle.splits)
  have "perform_event sz (EvFinish i) s = Inr ([Processed qid b], ?s)"
    using pc q h by (auto simp: thread_finish_def with_queue_def notify_def ProcessBatch_spec [OF ok] fun_upd_idem)
  moreover have "sched_inv sz (log @ [Processed qid b]) ?s"
  proof (rule one_queue [OF inv, where qid = qid and st = "Some (opts, ?q)" and h = ?h])
    have fl: "in_flight p ?s + held p (Processing qid b) = in_flight p s" for p by (rule out) simp_all
    then show "in_flight p ?s = in_flight p s" if "p \<noteq> qid" for p using that fl [of p] by simp
    have "queue_ok sz opts ?q" "waiting ?q = waiting q" using ok by (simp_all add: queue_ok_def waiting_def)
    then show "queue_inv sz (Some (opts, ?q)) ?h (in_flight qid ?s) qid (log @ [Processed qid b])"
      using sched_invD(1) [OF inv, of qid] q fl [of qid, symmetric] busy h
      by (auto simp: queue_inv_def live_queue_def handle_ok_def dispensed_ok_def busy_def split: option.splits handle.splits)
    have "sc_lock s \<noteq> Some i" using sched_invD(3) [OF inv] pc unfolding lock_ok_def by (metis in_loop.simps(5))
    then show "lock_ok ?s" using sched_invD(3) [OF inv] by (auto simp: lock_ok_def)
    show "loop_ok ?s (sc_pc ?s j)" for j
      using loop_ok_change [OF q, of ?q ?s "sc_pc s j"] sched_invD(4) [OF inv, of j] by (simp add: waiting_def)
  qed (auto simp: q silent_def)
  ultimately show ?thesis by blast
qed

text \<open>
  Leaving an iteration: the thread goes on with \<open>p\<close>, and gives the mutex back when it has found a batch.
  Nothing depends on how \<open>next_queue_to_schedule_\<close> and the list have changed but the loop of this thread.
\<close>

lemma loop_ok_outside: "\<not> in_loop p \<Longrightarrow> loop_ok s p"
  by (cases p) simp_all

lemma leave_iteration:
  assumes lock: "lock_ok s" and pc: "sc_pc s i = Asked k m c r"
    and t: "sc_pc t = sc_pc s" "sc_lock t = sc_lock s" "sc_threads t = sc_threads s"
    and p: "p = (case r of None \<Rightarrow> AtLoop (k + 1) m | Some (qid, b) \<Rightarrow> Processing qid b)"
    and s': "s' = goto i p (if r = None then t else t\<lparr>sc_lock := None\<rparr>)"
    and m: "m \<le> k + 1 + int (length (sc_queues t))"
  shows "lock_ok s'" "loop_ok s' (sc_pc s' j)" "in_flight q s' = in_flight q s"
proof -
  have i: "i < nat (sc_threads s)" "sc_lock s = Some i" using lock pc unfolding lock_ok_def by (metis in_loop.simps(3) pc.distinct(5))+
  have held: "held q p = held q (sc_pc s i)" for q unfolding p pc by (cases r) auto
  have "in_flight q s' = in_flight q t" for q
    unfolding s' using in_flight_same [of i t q p] in_flight_same [of i "t\<lparr>sc_lock := None\<rparr>" q p] i t held [of q] by simp
  then show "in_flight q s' = in_flight q s" by (simp add: in_flight_def t)
  have inside: "in_loop p \<longleftrightarrow> r = None" unfolding p by (cases r) auto
  have "\<not> in_loop (sc_pc s j) \<or> j = i" for j using lock i unfolding lock_ok_def by (metis option.inject)
  moreover have "loop_ok s' p"
  proof (cases r)
    case None
    then show ?thesis unfolding p using m by (simp add: s')
  next
    case (Some qb)
    then show ?thesis unfolding p by (cases qb) simp
  qed
  moreover have "sc_pc s' = (sc_pc s)(i := p)" by (simp add: s' t)
  ultimately show "loop_ok s' (sc_pc s' j)" by (auto intro: loop_ok_outside)
  have "sc_lock s' = (if in_loop p then Some i else None)" using i by (simp add: s' t inside)
  moreover have "in_loop (sc_pc s j) \<longleftrightarrow> j = i" for j using lock i unfolding lock_ok_def by auto
  ultimately show "lock_ok s'" using lock i unfolding lock_ok_def by (simp add: s' t)
qed

lemma erase_nth:
  assumes "distinct xs" "n < length xs"
  shows "set (take n xs @ drop (Suc n) xs) = set xs - {xs ! n}" "distinct (take n xs @ drop (Suc n) xs)"
proof -
  have xs: "xs = take n xs @ xs ! n # drop (Suc n) xs" using assms(2) by (rule id_take_nth_drop)
  with assms(1) have "distinct (take n xs @ xs ! n # drop (Suc n) xs)" by simp
  then show "distinct (take n xs @ drop (Suc n) xs)" by auto
  have "set xs = insert (xs ! n) (set (take n xs @ drop (Suc n) xs))" by (subst xs) auto
  then show "set (take n xs @ drop (Suc n) xs) = set xs - {xs ! n}"
    using \<open>distinct (take n xs @ xs ! n # drop (Suc n) xs)\<close> by auto
qed

definition wrap :: "'t sched \<Rightarrow> 't sched" where
  "wrap s = (if sc_next s = length (sc_queues s) \<and> sc_queues s \<noteq> [] then s\<lparr>sc_next := 0\<rparr> else s)"

lemma wrap_simps [simp]:
  "sc_queues (wrap s) = sc_queues s" "sc_store (wrap s) = sc_store s" "sc_handles (wrap s) = sc_handles s"
  "sc_pc (wrap s) = sc_pc s" "sc_lock (wrap s) = sc_lock s" "sc_threads (wrap s) = sc_threads s"
  "sc_next (wrap s) = (if sc_next s = length (sc_queues s) then 0 else sc_next s)"
  by (simp_all add: wrap_def)

lemma thread_advance_wrap:
  "thread_advance i k m c r s =
     bnd (get (sc_queues s) (sc_next s)) (\<lambda>qid.
     bnd (if c then bnd (object (sc_store s qid)) (\<lambda>(_, q). IsEmptyInternal q) else Inr False) (\<lambda>empty.
     bnd (if c \<and> empty \<and> r = None then bnd (dcheck (map_option fst r \<noteq> Some qid)) (\<lambda>_. erase_next qid s)
          else Inr (s\<lparr>sc_next := Suc (sc_next s)\<rparr>)) (\<lambda>s.
     Inr (goto i (case r of None \<Rightarrow> AtLoop (k + 1) m | Some (qid, b) \<Rightarrow> Processing qid b)
       (if r = None then wrap s else (wrap s)\<lparr>sc_lock := None\<rparr>)))))"
proof (cases r)
  case None
  show ?thesis unfolding None by (simp add: thread_advance_def wrap_def Let_def Option.is_none_def)
next
  case (Some qb)
  show ?thesis unfolding Some by (simp add: thread_advance_def wrap_def Let_def split_def Option.is_none_def)
qed

lemma Advance_inv:
  assumes inv: "sched_inv sz log s" and en: "enabled (EvAdvance i) s"
  shows "\<exists>l s'. perform_event sz (EvAdvance i) s = Inr (l, s') \<and> sched_inv sz (log @ l) s'"
proof -
  from en obtain k m c r where pc: "sc_pc s i = Asked k m c r" by (auto split: pc.splits)
  from sched_invD(4) [OF inv, of i] pc have km: "k < m" "m \<le> k + int (length (sc_queues s))"
    and cl: "c \<longrightarrow> (\<exists>q. next_queue s = Some q \<and> q_closed q \<and> (r = None \<longrightarrow> waiting q = []))" by simp_all
  define qid where "qid = sc_queues s ! sc_next s"
  obtain opts q where q: "sc_next s < length (sc_queues s)" "sc_store s qid = Some (opts, q)" "next_queue s = Some q"
    and live: "live_queue sz opts q (sc_handles s qid) (in_flight qid s) qid log"
    using has_next [OF inv km] unfolding qid_def by metis
  then have ok: "queue_ok sz opts q" by (simp add: live_queue_def)
  let ?drop = "c \<and> \<not> busy q \<and> r = None"
  let ?t = "wrap (if ?drop then s\<lparr>sc_queues := take (sc_next s) (sc_queues s) @ drop (Suc (sc_next s)) (sc_queues s),
    sc_store := (sc_store s)(qid := None)\<rparr> else s\<lparr>sc_next := Suc (sc_next s)\<rparr>)"
  let ?p = "case r of None \<Rightarrow> AtLoop (k + 1) m | Some (qid, b) \<Rightarrow> Processing qid b"
  let ?s = "goto i ?p (if r = None then ?t else ?t\<lparr>sc_lock := None\<rparr>)"
  have destroy: "\<exists>q'. Queue_destroy q = Inr q'" if "\<not> busy q" using that Queue_destroy_spec [OF ok] by (simp add: busy_def)
  have empty: "IsEmptyInternal q = Inr (\<not> busy q)" using IsEmptyInternal_eq [OF ok] by (simp add: busy_def)
  have "thread_advance i k m c r s = Inr ?s"
  proof (cases ?drop)
    case True
    then show ?thesis using q(1,2) destroy empty by (auto simp: thread_advance_wrap erase_next_def simp flip: qid_def)
  next
    case False
    then have "?t = wrap (s\<lparr>sc_next := Suc (sc_next s)\<rparr>)" by (simp only: if_False)
    with False show ?thesis using q(1,2) empty
      by (cases c; cases "busy q"; cases "r = None") (simp_all add: thread_advance_wrap del: not_None_eq flip: qid_def)
  qed
  then have "perform_event sz (EvAdvance i) s = Inr ([], ?s)" using pc by simp
  moreover have "sched_inv sz log ?s"
  proof -
    have m: "m \<le> k + 1 + int (length (sc_queues ?t))" using km q(1) by auto
    note leave = leave_iteration [OF sched_invD(3) [OF inv] pc _ _ _ refl refl m]
    have threads: "lock_ok ?s" "loop_ok ?s (sc_pc ?s j)" "in_flight p ?s = in_flight p s" for j p
      by (rule leave; simp)+
    have n: "distinct (sc_queues s)" "set (sc_queues s) = dom (sc_store s)" using sched_invD(2) [OF inv] by (simp_all add: next_ok_def)
    have "next_ok ?s"
      unfolding next_ok_def using n q(1) erase_nth [OF n(1) q(1)] by (auto simp flip: qid_def)
    moreover have "queue_inv sz (sc_store ?s p) (sc_handles ?s p) (in_flight p ?s) p log" for p
    proof (cases "p = qid \<and> ?drop")
      case True
      then have "q_closed q" "\<not> busy q" using cl q(3) by auto
      then have "dead_queue (sc_handles s qid) (in_flight qid s) qid log"
        using live by (auto simp: live_queue_def dead_queue_def handle_ok_def busy_def split: option.splits handle.splits)
      then show ?thesis using sched_invD(1) [OF inv, of qid] True q(2) threads(3) [of p] by (simp add: queue_inv_def)
    next
      case False
      then show ?thesis using sched_invD(1) [OF inv, of p] threads(3) [of p] by auto
    qed
    ultimately show ?thesis using threads(1,2) unfolding sched_inv_def by blast
  qed
  ultimately show ?thesis by (metis append_Nil2)
qed

lemma AddQueue_inv:
  assumes inv: "sched_inv sz log s" and en: "enabled (EvAddQueue qid opts) s"
  shows "\<exists>l s'. perform_event sz (EvAddQueue qid opts) s = Inr (l, s') \<and> sched_inv sz (log @ l) s'"
proof -
  from en have e: "sc_lock s = None" "sc_handles s qid = None" "options_ok opts" by simp_all
  obtain st s' where st: "AddQueue qid opts s = (st, s')" by (metis surj_pair)
  show ?thesis
  proof (cases "st = StatusOK")
    case False
    then have "s' = s" using st by (auto simp: AddQueue_def split: if_splits)
    then show ?thesis using False st inv by simp
  next
    case True
    then have s': "s' = s\<lparr>sc_queues := sc_queues s @ [qid], sc_store := (sc_store s)(qid \<mapsto> (opts, Queue)),
        sc_handles := (sc_handles s)(qid \<mapsto> HandleOpen),
        sc_next := (if sc_next s = length (sc_queues s) then 0 else sc_next s)\<rparr>"
      using st by (auto simp: AddQueue_def split: if_splits)
    have dead: "sc_store s qid = None" "dead_queue None (in_flight qid s) qid log"
      using sched_invD(1) [OF inv, of qid] e(2) by (auto simp: queue_inv_def live_queue_def handle_ok_def split: option.splits)
    have qs: "queue_inv sz (sc_store s' p) (sc_handles s' p) (in_flight p s') p (log @ [Added qid opts])" for p
    proof (cases "p = qid")
      case True
      then show ?thesis using sched_invD(1) [OF inv, of qid] dead e(2,3)
        by (auto simp: s' queue_inv_def live_queue_def dead_queue_def handle_ok_def dispensed_ok_def Queue_ok)
    next
      case False
      then show ?thesis using sched_invD(1) [OF inv, of p] queue_inv_cong [of p "[Added qid opts]" sz _ _ _ log]
        by (simp add: s' silent_def)
    qed
    have "qid \<notin> set (sc_queues s)" using sched_invD(2) [OF inv] dead(1) by (auto simp: next_ok_def)
    then have "next_ok s'" using sched_invD(2) [OF inv] by (auto simp: next_ok_def s' split: if_splits)
    moreover have "lock_ok s'" using sched_invD(3) [OF inv] by (rule lock_ok_same) (simp_all add: s')
    moreover have "loop_ok s' (sc_pc s' j)" for j
      using sched_invD(3) [OF inv] e(1) by (intro loop_ok_outside) (simp add: s' lock_ok_def)
    ultimately have "sched_inv sz (log @ [Added qid opts]) s'" using qs unfolding sched_inv_def by blast
    then show ?thesis using True st by simp
  qed
qed

lemma perform_inv:
  assumes "sched_inv sz log s" "enabled e s"
  shows "\<exists>l s'. perform_event sz e s = Inr (l, s') \<and> sched_inv sz (log @ l) s'"
  using assms AddQueue_inv Schedule_inv Close_inv Wake_inv Enter_inv Loop_inv Ask_inv Advance_inv Finish_inv
  by (cases e) (simp_all only:)

lemma reach_inv: "reach sz n log s \<Longrightarrow> sched_inv sz log s"
proof (induction rule: reach.induct)
  case (reach_created s)
  then show ?case by (rule Create_inv)
next
  case (reach_event log s e l s')
  then show ?case using perform_inv [of sz log s e] by auto
qed

end
