(* ===== verification/Batch_Round.thy ===== *)
theory Batch_Round
  imports Batch_Safe
begin

text \<open>
  What the invariant of the batch scheduler gives: no fault, the order of tasks, the destructor of a handle,
  and what one pass of \<open>ThreadLogic\<close> over the queues finds.
\<close>

section \<open>Safety and order\<close>

definition two_tasks :: queue_options where
  "two_tasks = \<lparr>max_batch_size = 2, batch_timeout_micros = 100, max_enqueued_batches = 3\<rparr>"

definition some_events :: "nat event list" where
  "some_events =
     [EvAddQueue 7 two_tasks, EvSchedule 7 0 0 20, EvSchedule 7 1 1 21, EvEnter 0, EvSchedule 7 2 2 22, EvLoop 0, EvAsk 0 3,
      EvAdvance 0, EvClose 7, EvEnter 1, EvLoop 1, EvFinish 0, EvAsk 1 4, EvAdvance 1]"

definition last_events :: "nat event list" where
  "last_events = [EvFinish 1, EvEnter 0, EvWake 7, EvLoop 0, EvAsk 0 9, EvAdvance 0]"

definition some_log :: "nat entry list" where
  "some_log =
     [Added 7 two_tasks, Accepted 7 20, Accepted 7 21, Accepted 7 22, Dispensed 7 \<lparr>bt_tasks = [20, 21], bt_size = 2, bt_closed = True\<rparr>,
      Processed 7 \<lparr>bt_tasks = [20, 21], bt_size = 2, bt_closed = True\<rparr>, Dispensed 7 \<lparr>bt_tasks = [22], bt_size = 1, bt_closed = True\<rparr>]"

lemma some_run:
  "map_option fst (run (\<lambda>_. 1) some_events ([], SharedBatchScheduler 2)) = Some some_log"
  "map_option fst (run (\<lambda>_. 1) (some_events @ last_events) ([], SharedBatchScheduler 2)) =
     Some (some_log @ [Processed 7 \<lparr>bt_tasks = [22], bt_size = 1, bt_closed = True\<rparr>, Returned 7])"
  "map_option (sc_queues \<circ> snd) (run (\<lambda>_. 1) (some_events @ last_events) ([], SharedBatchScheduler 2)) = Some []"
  by code_simp+

lemma batch_ok_sum: "batch_ok sz opts b \<Longrightarrow> sum_list (map (unat \<circ> sz) (bt_tasks b)) \<le> unat (max_batch_size opts)"
  by (metis batch_ok_def word_le_nat_alt)

lemma reach_start: "0 < n \<Longrightarrow> reach sz n [] (SharedBatchScheduler n)"
  by (rule reach_created) (simp add: Create_def)

lemma run_of:
  assumes "map_option fst (run sz es (log, s)) = Some log'" "reach sz n log s"
  shows "\<exists>s'. run sz es (log, s) = Some (log', s') \<and> reach sz n log' s'"
  using assms by (auto intro: run_reach)

lemma some_log_reached: "\<exists>s. reach (\<lambda>_. 1) 2 some_log s"
  using run_of [OF some_run(1) reach_start] by auto

lemma full_log_reached:
  "\<exists>s. reach (\<lambda>_. 1) 2 (some_log @ [Processed 7 \<lparr>bt_tasks = [22], bt_size = 1, bt_closed = True\<rparr>, Returned 7]) s"
  using run_of [OF some_run(2) reach_start] by auto

text \<open>
  C11: In no run of the scheduler, whatever the order of the events of clients and batch threads, does an
  event fault: no queue is used after it was destroyed, no \<open>DCHECK\<close> fails, and a destructor of a handle
  is notified once and only while it waits.
\<close>

theorem batch_scheduler_safe:
  assumes "reach sz n log s" "enabled e s"
  shows "\<exists>l s'. perform_event sz e s = Inr (l, s')"
  using perform_inv [OF reach_inv [OF assms(1)] assms(2)] by blast

lemma batch_scheduler_safe_witness:
  "\<exists>l s'. perform_event (\<lambda>_. 1) (EvEnter 0) (SharedBatchScheduler 2 :: nat sched) = Inr (l, s')"
  by (rule batch_scheduler_safe [OF reach_start [of 2 "\<lambda>_. 1"]]) (simp_all add: SharedBatchScheduler_def)

text \<open>
  C12: The batches of a queue that are given to the threads hold its tasks in the order in which they were
  accepted, without loss or repetition, what is missing being what waits in the queue; each batch is closed
  and has at least one task, and its tasks are together not larger than \<open>max_batch_size\<close>.
\<close>

theorem batches_in_order:
  assumes "reach sz n log s" "Added qid opts \<in> set log"
  shows "accepted_tasks qid log = tasks_of (dispensed qid log) @ (case sc_store s qid of None \<Rightarrow> [] | Some (_, q) \<Rightarrow> waiting q) \<and>
    (\<forall>b\<in>set (dispensed qid log). bt_closed b \<and> bt_tasks b \<noteq> [] \<and>
      sum_list (map (unat \<circ> sz) (bt_tasks b)) \<le> unat (max_batch_size opts))"
proof -
  note inv = sched_invD(1) [OF reach_inv [OF assms(1)], of qid]
  have "accepted_tasks qid log = tasks_of (dispensed qid log) @ (case sc_store s qid of None \<Rightarrow> [] | Some (_, q) \<Rightarrow> waiting q)"
    using inv by (auto simp: queue_inv_def dead_queue_def live_queue_def split: option.splits)
  moreover have "dispensed_ok sz qid log" using inv by (simp add: queue_inv_def)
  ultimately show ?thesis using assms(2) unfolding dispensed_ok_def by (blast intro: batch_ok_sum)
qed

lemma batches_in_order_witness:
  "\<exists>rest. accepted_tasks 7 some_log = tasks_of (dispensed 7 some_log) @ rest \<and>
     list_all (\<lambda>b. bt_closed b \<and> bt_tasks b \<noteq> [] \<and> sum_list (map (unat \<circ> (\<lambda>_. 1 :: size_t)) (bt_tasks b)) \<le> 2) (dispensed 7 some_log)"
proof -
  obtain s where s: "reach (\<lambda>_. 1) 2 some_log s" using some_log_reached by blast
  have a: "Added 7 two_tasks \<in> set some_log" by (simp add: some_log_def)
  have "unat (max_batch_size two_tasks) = 2" by (simp add: two_tasks_def)
  with batches_in_order [OF s a] show ?thesis unfolding list_all_iff by metis
qed

text \<open>
  C13: When the destructor of a handle has returned, every task its queue ever accepted has been processed:
  the callback has returned from the batches that hold them.
\<close>

theorem destructor_waits_for_tasks:
  assumes "reach sz n log s" "Returned qid \<in> set log"
  shows "mset (accepted_tasks qid log) = mset (tasks_of (processed qid log))"
proof -
  note inv = sched_invD(1) [OF reach_inv [OF assms(1)], of qid]
  have acc: "accepted_tasks qid log = tasks_of (dispensed qid log)" and fl: "in_flight qid s = {#}"
    using inv assms(2)
    by (auto simp: queue_inv_def dead_queue_def live_queue_def handle_ok_def busy_def split: option.splits)
  have tasks: "mset (tasks_of bs) = (\<Sum>b\<in>#mset bs. mset (bt_tasks b))" for bs :: "'a batch list"
    by (induction bs) (simp_all add: tasks_of_def)
  have "mset (dispensed qid log) = mset (processed qid log)" using inv fl by (simp add: queue_inv_def)
  then show ?thesis by (simp add: acc tasks)
qed

lemma destructor_waits_for_tasks_witness:
  "mset [20, 21, 22 :: nat] = mset (tasks_of [\<lparr>bt_tasks = [20, 21], bt_size = 2, bt_closed = True\<rparr>, \<lparr>bt_tasks = [22], bt_size = 1, bt_closed = True\<rparr>])"
proof -
  let ?log = "some_log @ [Processed 7 \<lparr>bt_tasks = [22], bt_size = 1, bt_closed = True\<rparr>, Returned 7]"
  obtain s where "reach (\<lambda>_. 1) 2 ?log s" using full_log_reached by blast
  then have "mset (accepted_tasks 7 ?log) = mset (tasks_of (processed 7 ?log))" by (rule destructor_waits_for_tasks) simp
  moreover have "accepted_tasks 7 ?log = [20, 21, 22]" by code_simp
  moreover have "processed 7 ?log = [\<lparr>bt_tasks = [20, 21], bt_size = 2, bt_closed = True\<rparr>, \<lparr>bt_tasks = [22], bt_size = 1, bt_closed = True\<rparr>]"
    by code_simp
  ultimately show ?thesis by (simp only:)
qed

section \<open>One pass over the queues\<close>

text \<open>The queues in the order in which the next thread asks them.\<close>

definition rotated :: "'t sched \<Rightarrow> nat list" where
  "rotated s = drop (sc_next s) (sc_queues s) @ take (sc_next s) (sc_queues s)"

definition due_queue :: "'t sched \<Rightarrow> 64 word \<Rightarrow> nat \<Rightarrow> bool" where
  "due_queue s now qid = (case sc_store s qid of None \<Rightarrow> False | Some (opts, q) \<Rightarrow> batch_due opts now q)"

definition iteration :: "nat \<Rightarrow> 64 word \<Rightarrow> 't event list" where
  "iteration i now = [EvLoop i, EvAsk i now, EvAdvance i]"

lemma rotated_set: "set (rotated s) = set (sc_queues s)"
  unfolding rotated_def by (metis append_take_drop_id set_append Un_commute)

lemma rotated_length: "length (rotated s) = length (sc_queues s)"
  by (simp add: rotated_def)

lemma rotated_distinct: "distinct (sc_queues s) \<Longrightarrow> distinct (rotated s)"
  unfolding rotated_def by (metis append_take_drop_id distinct_append inf_commute)

lemma rotated_first:
  assumes "next_ok s" "rotated s = u # us"
  shows "sc_next s < length (sc_queues s)" "sc_queues s ! sc_next s = u" "drop (Suc (sc_next s)) (sc_queues s) @ take (sc_next s) (sc_queues s) = us"
proof -
  have "sc_queues s \<noteq> []" using assms(2) by (auto simp: rotated_def)
  then show n: "sc_next s < length (sc_queues s)" using assms(1) by (simp add: next_ok_def)
  then show "sc_queues s ! sc_next s = u" "drop (Suc (sc_next s)) (sc_queues s) @ take (sc_next s) (sc_queues s) = us"
    using assms(2) by (simp_all add: rotated_def Cons_nth_drop_Suc [symmetric])
qed

lemma rotated_moved:
  assumes "next_ok s" "rotated s = u # us" "sc_queues t = sc_queues s" "sc_next t = sc_next (wrap (s\<lparr>sc_next := Suc (sc_next s)\<rparr>))"
  shows "rotated t = us @ [u]"
proof -
  note first = rotated_first [OF assms(1,2)]
  show ?thesis
  proof (cases "Suc (sc_next s) = length (sc_queues s)")
    case True
    then have "sc_queues s = take (sc_next s) (sc_queues s) @ [u]"
      using id_take_nth_drop [OF first(1)] first(2) by simp
    with True first(3) show ?thesis by (simp add: rotated_def assms(3,4))
  next
    case False
    then show ?thesis using first by (auto simp: rotated_def assms(3,4) take_Suc_conv_app_nth)
  qed
qed

lemma rotated_erased:
  assumes "next_ok s" "rotated s = u # us"
    and "sc_queues t = take (sc_next s) (sc_queues s) @ drop (Suc (sc_next s)) (sc_queues s)"
    and "sc_next t = (if sc_next s = length (sc_queues t) then 0 else sc_next s)"
  shows "rotated t = us"
  using rotated_first [OF assms(1,2)] assms(3,4) by (auto simp: rotated_def split: if_splits)

lemma run_Cons: "enabled e s \<Longrightarrow> perform_event sz e s = Inr (l, t) \<Longrightarrow> run sz (e # es) (log, s) = run sz es (log @ l, t)"
  by simp

lemma run_append: "run sz (es @ fs) (log, s) = (case run sz es (log, s) of None \<Rightarrow> None | Some r \<Rightarrow> run sz fs r)"
  by (induction es arbitrary: log s) (auto split: sum.split)

text \<open>What an iteration does with the first queue in this order.\<close>

lemma iteration_spec:
  assumes inv: "sched_inv sz log s" and pc: "sc_pc s i = AtLoop k m" and km: "k < m"
    and rot: "rotated s = qid # us" and q: "sc_store s qid = Some (opts, q)"
  shows "\<exists>r q' s'. ScheduleBatch opts now q = Inr (r, q') \<and>
    run sz (iteration i now) (log, s) = Some (log @ (case r of None \<Rightarrow> [] | Some b \<Rightarrow> [Dispensed qid b]), s') \<and>
    sc_pc s' i = (case r of None \<Rightarrow> AtLoop (k + 1) m | Some b \<Rightarrow> Processing qid b) \<and>
    rotated s' = (if q_closed q \<and> \<not> busy q \<and> r = None then us else us @ [qid]) \<and>
    sc_store s' = (sc_store s)(qid := if q_closed q \<and> \<not> busy q \<and> r = None then None else Some (opts, q'))"
proof -
  note nok = sched_invD(2) [OF inv]
  note first = rotated_first [OF nok rot]
  have ok: "queue_ok sz opts q" using sched_invD(1) [OF inv, of qid] q by (simp add: queue_inv_def live_queue_def)
  obtain r q' where r: "ScheduleBatch opts now q = Inr (r, q')" "queue_ok sz opts q'"
    "case r of None \<Rightarrow> waiting q' = waiting q \<and> q_processing q' = q_processing q \<and> (q_closed q \<longrightarrow> waiting q = [])
     | Some b \<Rightarrow> waiting q = bt_tasks b @ waiting q' \<and> q_processing q' = q_processing q + 1 \<and> batch_ok sz opts b \<and> bt_closed b \<and> bt_tasks b \<noteq> []"
    using ScheduleBatch_spec [OF ok, of now] by blast
  let ?c = "q_closed q" and ?r = "map_option (Pair qid) r" and ?l = "case r of None \<Rightarrow> [] | Some b \<Rightarrow> [Dispensed qid b]"
  let ?s1 = "goto i (Snapped k m ?c) s"
  let ?s2 = "goto i (Asked k m ?c ?r) (?s1\<lparr>sc_store := (sc_store s)(qid \<mapsto> (opts, q'))\<rparr>)"
  let ?drop = "?c \<and> \<not> busy q' \<and> r = None"
  let ?t = "wrap (if ?drop then ?s2\<lparr>sc_queues := take (sc_next s) (sc_queues s) @ drop (Suc (sc_next s)) (sc_queues s),
    sc_store := (sc_store ?s2)(qid := None)\<rparr> else ?s2\<lparr>sc_next := Suc (sc_next s)\<rparr>)"
  let ?p = "case ?r of None \<Rightarrow> AtLoop (k + 1) m | Some (qid, b) \<Rightarrow> Processing qid b"
  let ?s3 = "goto i ?p (if ?r = None then ?t else ?t\<lparr>sc_lock := None\<rparr>)"
  have 1: "enabled (EvLoop i) s" "perform_event sz (EvLoop i) s = Inr ([], ?s1)"
    using pc km first q by (simp_all add: thread_loop_def)
  have 2: "enabled (EvAsk i now) ?s1" "perform_event sz (EvAsk i now) ?s1 = Inr (?l, ?s2)"
    using first q r(1) by (simp_all add: thread_ask_def with_queue_def Let_def split: option.split)
  have empty: "IsEmptyInternal q' = Inr (\<not> busy q')" using IsEmptyInternal_eq [OF r(2)] by (simp add: busy_def)
  have destroy: "\<exists>q''. Queue_destroy q' = Inr q''" if "\<not> busy q'" using that Queue_destroy_spec [OF r(2)] by (simp add: busy_def)
  have "thread_advance i k m ?c ?r ?s2 = Inr ?s3"
  proof (cases ?drop)
    case True
    then show ?thesis using first destroy empty by (auto simp: thread_advance_wrap erase_next_def)
  next
    case False
    then have "?t = wrap (?s2\<lparr>sc_next := Suc (sc_next s)\<rparr>)" by (simp only: if_False)
    with False show ?thesis using first empty
      by (cases ?c; cases "busy q'"; cases "r = None") (simp_all add: thread_advance_wrap del: not_None_eq)
  qed
  then have 3: "enabled (EvAdvance i) ?s2" "perform_event sz (EvAdvance i) ?s2 = Inr ([], ?s3)" by simp_all
  have drop: "?drop \<longleftrightarrow> ?c \<and> \<not> busy q \<and> r = None" using r(3) by (auto simp: busy_def)
  have "run sz (iteration i now) (log, s) = Some (log @ ?l, ?s3)"
    by (simp only: iteration_def run_Cons [OF 1] run_Cons [OF 2] run_Cons [OF 3] run.simps(1) append_Nil2)
  moreover have "rotated ?s3 = (if ?drop then us else us @ [qid])"
  proof (cases ?drop)
    case True
    have "rotated ?s3 = us" by (rule rotated_erased [OF nok rot]) (use True in simp_all)
    then show ?thesis by (rule trans [OF _ if_P [OF True, symmetric]])
  next
    case False
    then have "?t = wrap (?s2\<lparr>sc_next := Suc (sc_next s)\<rparr>)" by (simp only: if_False)
    then have "rotated ?s3 = us @ [qid]" by (intro rotated_moved [OF nok rot]) (simp_all only:, simp_all)
    then show ?thesis by (rule trans [OF _ if_not_P [OF False, symmetric]])
  qed
  moreover have "sc_store ?s3 = (sc_store s)(qid := if ?drop then None else Some (opts, q'))" by simp
  moreover have "sc_pc ?s3 i = (case r of None \<Rightarrow> AtLoop (k + 1) m | Some b \<Rightarrow> Processing qid b)" by (cases r) simp_all
  ultimately show ?thesis using r(1) unfolding drop by blast
qed

lemma run_inv: "run sz es (log, s) = Some (log', s') \<Longrightarrow> sched_inv sz log s \<Longrightarrow> sched_inv sz log' s'"
proof (induction es arbitrary: log s)
  case (Cons e es)
  then obtain l t where e: "enabled e s" "perform_event sz e s = Inr (l, t)" "run sz es (log @ l, t) = Some (log', s')"
    by (auto split: if_splits sum.splits)
  with perform_inv [OF Cons.prems(2) e(1)] Cons.IH show ?case by auto
qed simp

lemma due_gives:
  assumes "sched_inv sz log s" "sc_store s qid = Some (opts, q)" "ScheduleBatch opts now q = Inr (r, q')"
  shows "r \<noteq> None \<longleftrightarrow> due_queue s now qid"
proof -
  have "queue_ok sz opts q" using sched_invD(1) [OF assms(1), of qid] assms(2) by (simp add: queue_inv_def live_queue_def)
  from ScheduleBatch_gives [OF this assms(3)] show ?thesis by (simp add: due_queue_def assms(2))
qed

lemma in_store: "sched_inv sz log s \<Longrightarrow> qid \<in> set (rotated s) \<Longrightarrow> \<exists>opts q. sc_store s qid = Some (opts, q)"
  using sched_invD(2) [of sz log s] by (auto simp: next_ok_def rotated_set)

lemma object_Inr_iff: "object x = Inr y \<longleftrightarrow> x = Some y"
  by (cases x) simp_all

lemma perform_threads: "perform_event sz e s = Inr (l, s') \<Longrightarrow> sc_threads s' = sc_threads s"
  by (cases e) (auto simp: AddQueue_def Handle_Schedule_def Handle_close_def with_queue_def thread_enter_def thread_loop_def thread_ask_def
    thread_advance_def erase_next_def thread_finish_def notify_def Let_def bnd_Inr_iff object_Inr_iff
    split: if_splits prod.splits pc.splits option.splits handle.splits)

lemma reach_threads: "reach sz n log s \<Longrightarrow> sc_threads s = n"
  by (induction rule: reach.induct) (auto simp: Create_def SharedBatchScheduler_def perform_threads split: if_splits)

text \<open>Queues that are not due are passed over, the first that is due gives its batch.\<close>

lemma pass_finds:
  assumes "sched_inv sz log s" "sc_pc s i = AtLoop k m" "rotated s = us @ qid # vs" "k + int (length us) < m"
    and "list_all (\<lambda>u. \<not> due_queue s now u) us" "due_queue s now qid"
  shows "\<exists>b s'. run sz (concat (replicate (Suc (length us)) (iteration i now))) (log, s) = Some (log @ [Dispensed qid b], s') \<and>
    sc_pc s' i = Processing qid b \<and> last (rotated s') = qid"
  using assms
proof (induction us arbitrary: k vs s)
  case Nil
  obtain opts q where q: "sc_store s qid = Some (opts, q)" using in_store [OF Nil.prems(1), of qid] Nil.prems(3) by auto
  have km: "k < m" and rot: "rotated s = qid # vs" using Nil.prems by simp_all
  obtain r q' s' where it: "ScheduleBatch opts now q = Inr (r, q')"
    "run sz (iteration i now) (log, s) = Some (log @ (case r of None \<Rightarrow> [] | Some b \<Rightarrow> [Dispensed qid b]), s')"
    "sc_pc s' i = (case r of None \<Rightarrow> AtLoop (k + 1) m | Some b \<Rightarrow> Processing qid b)"
    "rotated s' = (if q_closed q \<and> \<not> busy q \<and> r = None then vs else vs @ [qid])"
    using iteration_spec [OF Nil.prems(1,2) km rot q, of now] by blast
  from due_gives [OF Nil.prems(1) q it(1)] Nil.prems(6) obtain b where "r = Some b" by auto
  with it show ?case by auto
next
  case (Cons u us)
  obtain opts q where q: "sc_store s u = Some (opts, q)" using in_store [OF Cons.prems(1), of u] Cons.prems(3) by auto
  have km: "k < m" and rot: "rotated s = u # (us @ qid # vs)" using Cons.prems by simp_all
  obtain r q' s' where it: "ScheduleBatch opts now q = Inr (r, q')"
    "run sz (iteration i now) (log, s) = Some (log @ (case r of None \<Rightarrow> [] | Some b \<Rightarrow> [Dispensed u b]), s')"
    "sc_pc s' i = (case r of None \<Rightarrow> AtLoop (k + 1) m | Some b \<Rightarrow> Processing u b)"
    "rotated s' = (if q_closed q \<and> \<not> busy q \<and> r = None then us @ qid # vs else (us @ qid # vs) @ [u])"
    "sc_store s' = (sc_store s)(u := if q_closed q \<and> \<not> busy q \<and> r = None then None else Some (opts, q'))"
    using iteration_spec [OF Cons.prems(1,2) km rot q, of now] by blast
  from due_gives [OF Cons.prems(1) q it(1)] Cons.prems(5) have r: "r = None" by auto
  have step: "run sz (iteration i now) (log, s) = Some (log, s')" using it(2) r by simp
  obtain vs' where rot': "rotated s' = us @ qid # vs'" using it(4) by (metis append_Cons append_assoc)
  have "distinct (rotated s)" using sched_invD(2) [OF Cons.prems(1)] by (simp add: next_ok_def rotated_distinct)
  then have u: "u \<notin> set us" "u \<noteq> qid" using rot by auto
  then have same: "due_queue s' now w = due_queue s now w" if "w = qid \<or> w \<in> set us" for w
    using that unfolding due_queue_def it(5) by auto
  have pc': "sc_pc s' i = AtLoop (k + 1) m" using it(3) r by simp
  have "list_all (\<lambda>u. \<not> due_queue s' now u) us" "due_queue s' now qid"
    using Cons.prems(5,6) same by (auto simp: list_all_iff)
  moreover have "k + 1 + int (length us) < m" using Cons.prems(4) by simp
  ultimately obtain b t where t: "run sz (concat (replicate (Suc (length us)) (iteration i now))) (log, s') = Some (log @ [Dispensed qid b], t)"
    "sc_pc t i = Processing qid b" "last (rotated t) = qid"
    using Cons.IH [OF run_inv [OF step Cons.prems(1)] pc' rot'] by blast
  have "run sz (iteration i now @ concat (replicate (Suc (length us)) (iteration i now))) (log, s) = Some (log @ [Dispensed qid b], t)"
    by (simp only: run_append step option.case t(1))
  then have "run sz (concat (replicate (Suc (length (u # us))) (iteration i now))) (log, s) = Some (log @ [Dispensed qid b], t)"
    by (simp only: replicate_Suc concat.simps list.size(4) add_Suc_right add_0_right)
  with t(2,3) show ?case by blast
qed

lemma int_of_small: "n < 2 ^ 31 \<Longrightarrow> sint (of_nat n :: 32 word) = int n"
  using take_bit_nat_eq_self [of n 32] signed_take_bit_int_eq_self [of 31 "int n"] by (simp add: sint_uint unsigned_of_nat)

text \<open>
  C14: A batch thread that finds the scheduler's mutex free does not sleep while there is work: if some queue
  has a batch to give at the time it asks, the thread passes over the queues that have none and leaves
  \<open>ThreadLogic\<close>'s critical section with a batch of the first queue that has one, counted from
  \<open>next_queue_to_schedule_\<close>; that queue is the last to be asked the next time.
\<close>

theorem thread_finds_work:
  assumes "reach sz n log s" "sc_lock s = None" "sc_pc s i = Outside" "int i < n" "length (sc_queues s) < 2 ^ 31"
    and "rotated s = us @ qid # vs" "list_all (\<lambda>u. \<not> due_queue s now u) us" "due_queue s now qid"
  shows "\<exists>b s'. run sz (EvEnter i # concat (replicate (Suc (length us)) (iteration i now))) (log, s) = Some (log @ [Dispensed qid b], s') \<and>
    sc_pc s' i = Processing qid b \<and> last (rotated s') = qid"
proof -
  have n: "sc_threads s = n" by (rule reach_threads [OF assms(1)])
  let ?t = "thread_enter i s"
  have en: "enabled (EvEnter i) s" using assms(2,3,4) n by simp
  have inv: "sched_inv sz log ?t" using perform_inv [OF reach_inv [OF assms(1)] en] by simp
  have t: "sc_pc ?t i = AtLoop 0 (int (length (sc_queues s)))" "rotated ?t = us @ qid # vs"
    using int_of_small [OF assms(5)] assms(6) by (simp_all add: thread_enter_def rotated_def)
  have due: "due_queue ?t now u = due_queue s now u" for u by (simp add: due_queue_def thread_enter_def)
  have len: "0 + int (length us) < int (length (sc_queues s))" using rotated_length [of s] assms(6) by simp
  have "list_all (\<lambda>u. \<not> due_queue ?t now u) us" "due_queue ?t now qid" using assms(7,8) by (simp_all add: due)
  from pass_finds [OF inv t len this] show ?thesis using en by simp
qed

definition work_events :: "nat event list" where
  "work_events = [EvAddQueue 5 two_tasks, EvAddQueue 7 two_tasks, EvSchedule 7 0 0 20, EvSchedule 7 1 1 21]"

lemma some_run_result: "case r of None \<Rightarrow> False | Some (log, s) \<Rightarrow> P log s \<Longrightarrow> \<exists>log s. r = Some (log, s) \<and> P log s"
  by (cases r) auto

lemma work_run:
  "case run (\<lambda>_. 1) work_events ([], SharedBatchScheduler 2) of
     None \<Rightarrow> False
   | Some (log, s) \<Rightarrow>
       log = [Added 5 two_tasks, Added 7 two_tasks, Accepted 7 20, Accepted 7 21] \<and> sc_lock s = None \<and> enabled (EvEnter 0) s \<and>
       sc_queues s = [5, 7] \<and> rotated s = [5, 7] \<and> \<not> due_queue s 1 5 \<and> due_queue s 1 7"
  by code_simp

lemma thread_finds_work_witness:
  "\<exists>log s b s'. log = [Added 5 two_tasks, Added 7 two_tasks, Accepted 7 (20 :: nat), Accepted 7 21] \<and> reach (\<lambda>_. 1) 2 log s \<and>
     run (\<lambda>_. 1) (EvEnter 0 # concat (replicate 2 (iteration 0 1))) (log, s) = Some (log @ [Dispensed 7 b], s') \<and>
     sc_pc s' 0 = Processing 7 b \<and> last (rotated s') = 7"
proof -
  obtain log s where s: "run (\<lambda>_. 1) work_events ([], SharedBatchScheduler 2) = Some (log, s)"
    "log = [Added 5 two_tasks, Added 7 two_tasks, Accepted 7 20, Accepted 7 21]" "sc_lock s = None" "enabled (EvEnter 0) s"
    "sc_queues s = [5, 7]" "rotated s = [5, 7]" "\<not> due_queue s 1 5" "due_queue s 1 7"
    using some_run_result [OF work_run] by (elim exE conjE) (rule that; assumption)
  have r: "reach (\<lambda>_. 1) 2 log s" by (rule run_reach [OF s(1) reach_start]) simp
  have out: "sc_pc s 0 = Outside" using s(4) by (simp split: pc.splits)
  have rot: "rotated s = [5] @ 7 # []" and len: "Suc (length [5 :: nat]) = 2" using s(6) by simp_all
  have hyps: "int 0 < 2" "length (sc_queues s) < 2 ^ 31" "list_all (\<lambda>u. \<not> due_queue s 1 u) [5]" using s(5,7) by simp_all
  from thread_finds_work [OF r s(3) out hyps(1,2) rot hyps(3) s(8)]
  obtain b s' where "run (\<lambda>_. 1) (EvEnter 0 # concat (replicate 2 (iteration 0 1))) (log, s) = Some (log @ [Dispensed 7 b], s')"
    "sc_pc s' 0 = Processing 7 b" "last (rotated s') = 7"
    unfolding len by (elim exE conjE) (rule that; assumption)
  with r s(2) show ?thesis by (intro exI [of _ log] exI [of _ s] exI [of _ b] exI [of _ s'] conjI)
qed

end
