(* ===== verification/Batch_Drain.thy ===== *)
theory Batch_Drain
  imports Batch_Round
begin

text \<open>
  The batch scheduler never gets stuck: once every handle is being destroyed, the batch threads alone bring
  it to the state in which all queues are gone and every destructor has been notified.
\<close>

section \<open>What a step of a thread leaves to do\<close>

fun rank :: "'t pc \<Rightarrow> nat" where
  "rank Outside = 0"
| "rank (Processing _ _) = 1"
| "rank (AtLoop k m) = 3 * nat (m - k) + 2"
| "rank (Snapped k m _) = 3 * nat (m - k) + 1"
| "rank (Asked k m _ _) = 3 * nat (m - k)"

definition total_rank :: "'t sched \<Rightarrow> nat" where
  "total_rank s = (\<Sum>i<nat (sc_threads s). rank (sc_pc s i))"

definition left_over :: "(nat \<rightharpoonup> queue_options \<times> 't queue) \<Rightarrow> nat" where
  "left_over st = (\<Sum>q\<in>dom st. Suc (length (waiting (snd (the (st q))))))"

lemma left_over_remove:
  assumes "finite (dom st)" "st qid = Some (opts, q)"
  shows "left_over st = Suc (length (waiting q)) + left_over (st(qid := None))"
proof -
  have "left_over st = Suc (length (waiting q)) + (\<Sum>p\<in>dom st - {qid}. Suc (length (waiting (snd (the (st p))))))"
    unfolding left_over_def using assms by (subst sum.remove [of "dom st" qid]) auto
  moreover have "(\<Sum>p\<in>dom st - {qid}. Suc (length (waiting (snd (the (st p)))))) = left_over (st(qid := None))"
    unfolding left_over_def by (intro sum.cong) auto
  ultimately show ?thesis by simp
qed

lemma left_over_change:
  assumes "finite (dom st)" "st qid = Some (opts, q)"
  shows "left_over (st(qid \<mapsto> (opts', q'))) + length (waiting q) = left_over st + length (waiting q')"
proof -
  have "left_over (st(qid \<mapsto> (opts', q'))) = Suc (length (waiting q')) + left_over (st(qid := None))"
    using left_over_remove [of "st(qid \<mapsto> (opts', q'))" qid opts' q'] assms by simp
  then show ?thesis using left_over_remove [OF assms] by simp
qed

lemma total_rank_goto:
  assumes "i < nat (sc_threads s)" "rank p < rank (sc_pc s i)" "sc_pc s' = (sc_pc s)(i := p)" "sc_threads s' = sc_threads s"
  shows "total_rank s' < total_rank s"
  unfolding total_rank_def assms(3,4)
  using sum_fun_upd [of "{..<nat (sc_threads s)}" i rank "sc_pc s" p] assms(1,2) by simp

definition nothing_opened :: "'t sched \<Rightarrow> 't sched \<Rightarrow> bool" where
  "nothing_opened s s' \<longleftrightarrow>
     (\<forall>q. sc_handles s' q = Some HandleOpen \<longrightarrow> sc_handles s q = Some HandleOpen) \<and>
     length (sc_queues s') \<le> length (sc_queues s) \<and> sc_threads s' = sc_threads s"

fun by_thread :: "'t event \<Rightarrow> bool" where
  "by_thread (EvEnter _) = True"
| "by_thread (EvLoop _) = True"
| "by_thread (EvAsk _ _) = True"
| "by_thread (EvAdvance _) = True"
| "by_thread (EvFinish _) = True"
| "by_thread _ = False"

lemma thread_finite: "sched_inv sz log s \<Longrightarrow> finite (dom (sc_store s))"
  using sched_invD(2) [of sz log s] unfolding next_ok_def by (metis List.finite_set)

text \<open>A step of a thread that is not outside.\<close>

definition next_event :: "nat \<Rightarrow> 64 word \<Rightarrow> 't pc \<Rightarrow> 't event" where
  "next_event i now p =
     (case p of Outside \<Rightarrow> EvEnter i | AtLoop _ _ \<Rightarrow> EvLoop i | Snapped _ _ _ \<Rightarrow> EvAsk i now | Asked _ _ _ _ \<Rightarrow> EvAdvance i
      | Processing _ _ \<Rightarrow> EvFinish i)"

lemma ScheduleBatch_shrinks:
  assumes "queue_ok sz opts q" "ScheduleBatch opts now q = Inr (r, q')"
  shows "length (waiting q') \<le> length (waiting q)" "r \<noteq> None \<Longrightarrow> length (waiting q') < length (waiting q)"
  using ScheduleBatch_spec [OF assms(1), of now] assms(2) by (auto split: option.splits)

lemma thread_step:
  assumes inv: "sched_inv sz log s" and busy: "sc_pc s i \<noteq> Outside"
  shows "\<exists>l s'. enabled (next_event i now (sc_pc s i)) s \<and> perform_event sz (next_event i now (sc_pc s i)) s = Inr (l, s') \<and>
    sched_inv sz (log @ l) s' \<and> total_rank s' < total_rank s \<and> left_over (sc_store s') \<le> left_over (sc_store s) \<and> nothing_opened s s'"
proof -
  let ?e = "next_event i now (sc_pc s i)"
  have en: "enabled ?e s" using busy by (cases "sc_pc s i") (simp_all add: next_event_def)
  obtain l s' where s': "perform_event sz ?e s = Inr (l, s')" "sched_inv sz (log @ l) s'" using perform_inv [OF inv en] by blast
  have i: "i < nat (sc_threads s)" using sched_invD(3) [OF inv] busy by (simp add: lock_ok_def)
  have fin: "finite (dom (sc_store s))" by (rule thread_finite [OF inv])
  have ok: "queue_ok sz opts q" if "sc_store s qid = Some (opts, q)" for qid opts q
    using sched_invD(1) [OF inv, of qid] that by (simp add: queue_inv_def live_queue_def)
  have "\<exists>p. rank p < rank (sc_pc s i) \<and> sc_pc s' = (sc_pc s)(i := p) \<and> left_over (sc_store s') \<le> left_over (sc_store s) \<and> nothing_opened s s'"
  proof (cases "sc_pc s i")
    case Outside
    with busy show ?thesis by simp
  next
    case (AtLoop k m)
    then show ?thesis using s'(1)
      by (intro exI [of _ "sc_pc s' i"]) (auto simp: next_event_def thread_loop_def bnd_Inr_iff object_Inr_iff nothing_opened_def split: if_splits)
  next
    case (Snapped k m c)
    then obtain qid opts q r q' where r: "sc_store s qid = Some (opts, q)" "ScheduleBatch opts now q = Inr (r, q')"
      "s' = goto i (Asked k m c (map_option (Pair qid) r)) (s\<lparr>sc_store := (sc_store s)(qid \<mapsto> (opts, q'))\<rparr>)"
      using s'(1) by (auto simp: next_event_def thread_ask_def with_queue_def bnd_Inr_iff object_Inr_iff Let_def)
    have "left_over (sc_store s') \<le> left_over (sc_store s)"
      using left_over_change [OF fin r(1), of opts q'] ScheduleBatch_shrinks(1) [OF ok [OF r(1)] r(2)] r(3) by simp
    then show ?thesis using Snapped r(3) by (intro exI [of _ "sc_pc s' i"]) (auto simp: nothing_opened_def)
  next
    case (Asked k m c r)
    then have km: "k < m" using sched_invD(4) [OF inv, of i] by simp
    define p where p: "p = (case r of None \<Rightarrow> AtLoop (k + 1) m | Some (qid, b) \<Rightarrow> Processing qid b)"
    obtain qid empty s1 where s1: "(if c \<and> empty \<and> r = None then bnd (dcheck (map_option fst r \<noteq> Some qid)) (\<lambda>_. erase_next qid s)
        else Inr (s\<lparr>sc_next := Suc (sc_next s)\<rparr>)) = Inr s1"
      and s'': "s' = goto i p (if r = None then wrap s1 else (wrap s1)\<lparr>sc_lock := None\<rparr>)"
      using s'(1) by (simp only: Asked next_event_def pc.case perform_event.simps thread_advance_wrap bnd_Inr_iff sum.inject prod.inject flip: p) blast
    then have s1: "sc_queues s1 = take (sc_next s) (sc_queues s) @ drop (Suc (sc_next s)) (sc_queues s) \<and>
        (\<exists>opts q. sc_store s qid = Some (opts, q)) \<and> sc_store s1 = (sc_store s)(qid := None) \<or> sc_queues s1 = sc_queues s \<and> sc_store s1 = sc_store s"
      "sc_handles s1 = sc_handles s" "sc_pc s1 = sc_pc s" "sc_threads s1 = sc_threads s"
      by (auto simp: erase_next_def bnd_Inr_iff object_Inr_iff split: if_splits)
    have "rank p < rank (sc_pc s i)" unfolding p Asked using km by (cases r) auto
    moreover have "left_over (sc_store s1) \<le> left_over (sc_store s)"
      using s1(1) left_over_remove [OF fin, of qid] by auto
    moreover have "length (sc_queues s1) \<le> length (sc_queues s)" using s1(1) by auto
    ultimately show ?thesis using s1(2,3,4) by (intro exI [of _ p]) (simp add: s'' nothing_opened_def)
  next
    case (Processing qid b)
    then obtain opts q n q' s1 where r: "sc_store s qid = Some (opts, q)" "ProcessBatch q = Inr (n, q')"
      "(if n then notify qid (s\<lparr>sc_store := (sc_store s)(qid \<mapsto> (opts, q'))\<rparr>) else Inr (s\<lparr>sc_store := (sc_store s)(qid \<mapsto> (opts, q'))\<rparr>)) = Inr s1"
      "s' = goto i Outside s1"
      using s'(1) by (auto simp: next_event_def thread_finish_def with_queue_def bnd_Inr_iff object_Inr_iff)
    have "waiting q' = waiting q" using r(2) ProcessBatch_spec [OF ok [OF r(1)]] by (auto simp: waiting_def)
    then have "left_over ((sc_store s)(qid \<mapsto> (opts, q'))) = left_over (sc_store s)"
      using left_over_change [OF fin r(1), of opts q'] by simp
    moreover have "sc_store s1 = (sc_store s)(qid \<mapsto> (opts, q'))" "sc_pc s1 = sc_pc s" "nothing_opened s s1"
      using r(3) by (auto simp: notify_def bnd_Inr_iff dcheck_def nothing_opened_def split: if_splits option.splits handle.splits)
    ultimately show ?thesis using Processing by (intro exI [of _ Outside]) (auto simp: r(4) nothing_opened_def)
  qed
  then obtain p where p: "rank p < rank (sc_pc s i)" "sc_pc s' = (sc_pc s)(i := p)" "left_over (sc_store s') \<le> left_over (sc_store s)"
    "nothing_opened s s'" by blast
  then have "total_rank s' < total_rank s" using total_rank_goto [OF i p(1,2)] by (simp add: nothing_opened_def)
  then show ?thesis using en s' p(3,4) by blast
qed

lemma nothing_opened_trans: "nothing_opened s t \<Longrightarrow> nothing_opened t u \<Longrightarrow> nothing_opened s u"
  by (auto simp: nothing_opened_def)

lemma run_one:
  assumes "enabled e s" "perform_event sz e s = Inr (l, t)" "run sz es (log @ l, t) = Some r"
  shows "run sz (e # es) (log, s) = Some r"
  using assms by simp

lemma by_thread_next: "by_thread (next_event i now p)"
  by (cases p) (simp_all add: next_event_def)

lemma is_next_event:
  assumes "enabled e s" "by_thread e"
  shows "(\<exists>i. e = EvEnter i) \<or> (\<exists>i now. e = next_event i now (sc_pc s i) \<and> sc_pc s i \<noteq> Outside)"
proof (cases e)
  case (EvLoop i)
  then have "e = next_event i 0 (sc_pc s i)" "sc_pc s i \<noteq> Outside" using assms by (auto simp: next_event_def split: pc.splits)
  then show ?thesis by blast
next
  case (EvAsk i now)
  then have "e = next_event i now (sc_pc s i)" "sc_pc s i \<noteq> Outside" using assms by (auto simp: next_event_def split: pc.splits)
  then show ?thesis by blast
next
  case (EvAdvance i)
  then have "e = next_event i 0 (sc_pc s i)" "sc_pc s i \<noteq> Outside" using assms by (auto simp: next_event_def split: pc.splits)
  then show ?thesis by blast
next
  case (EvFinish i)
  then have "e = next_event i 0 (sc_pc s i)" "sc_pc s i \<noteq> Outside" using assms by (auto simp: next_event_def split: pc.splits)
  then show ?thesis by blast
qed (use assms in auto)

lemma Enter_opens_nothing: "nothing_opened s (thread_enter i s)"
  by (simp add: nothing_opened_def thread_enter_def)

lemma by_threads_open_nothing:
  assumes "run sz es (log, s) = Some (log', t)" "list_all by_thread es" "sched_inv sz log s"
  shows "nothing_opened s t"
  using assms
proof (induction es arbitrary: log s)
  case (Cons e es)
  then obtain l s' where s': "enabled e s" "perform_event sz e s = Inr (l, s')" "run sz es (log @ l, s') = Some (log', t)"
    by (auto split: if_splits sum.splits)
  with perform_inv [OF Cons.prems(3) s'(1)] have "sched_inv sz (log @ l) s'" by auto
  with Cons s'(3) have later: "nothing_opened s' t" by simp
  have "nothing_opened s s'"
  proof (cases "\<exists>i. e = EvEnter i")
    case True
    with s'(2) show ?thesis by (auto simp: Enter_opens_nothing)
  next
    case False
    then obtain i now where e: "e = next_event i now (sc_pc s i)" "sc_pc s i \<noteq> Outside"
      using is_next_event [OF s'(1)] Cons.prems(2) by auto
    then show ?thesis using thread_step [OF Cons.prems(3) e(2), of now] s'(2) by auto
  qed
  with later show ?case by (rule nothing_opened_trans [rotated])
qed (simp add: nothing_opened_def)

lemma reach_positive: "reach sz n log s \<Longrightarrow> 0 < n"
  by (induction rule: reach.induct) (auto simp: Create_def split: if_splits)

text \<open>All threads come to rest outside.\<close>

lemma quiesce:
  assumes "sched_inv sz log s"
  shows "\<exists>es log' t. list_all by_thread es \<and> run sz es (log, s) = Some (log', t) \<and> sched_inv sz log' t \<and>
    (\<forall>i. sc_pc t i = Outside) \<and> left_over (sc_store t) \<le> left_over (sc_store s) \<and> nothing_opened s t"
  using assms
proof (induction "total_rank s" arbitrary: log s rule: less_induct)
  case less
  show ?case
  proof (cases "\<forall>i. sc_pc s i = Outside")
    case True
    then show ?thesis using less.prems
      by (intro exI [of _ "[]"] exI [of _ log] exI [of _ s]) (simp add: nothing_opened_def)
  next
    case False
    then obtain i where i: "sc_pc s i \<noteq> Outside" by blast
    obtain l s' where s': "enabled (next_event i 0 (sc_pc s i)) s" "perform_event sz (next_event i 0 (sc_pc s i)) s = Inr (l, s')"
      "sched_inv sz (log @ l) s'" "total_rank s' < total_rank s" "left_over (sc_store s') \<le> left_over (sc_store s)" "nothing_opened s s'"
      using thread_step [OF less.prems i, of 0] by blast
    obtain es log' t where t: "list_all by_thread es" "run sz es (log @ l, s') = Some (log', t)" "sched_inv sz log' t"
      "\<forall>i. sc_pc t i = Outside" "left_over (sc_store t) \<le> left_over (sc_store s')" "nothing_opened s' t"
      using less.hyps [OF s'(4,3)] by blast
    have "run sz (next_event i 0 (sc_pc s i) # es) (log, s) = Some (log', t)" by (rule run_one [OF s'(1,2) t(2)])
    moreover have "list_all by_thread (next_event i 0 (sc_pc s i) # es)" using t(1) by (simp add: by_thread_next)
    moreover have "left_over (sc_store t) \<le> left_over (sc_store s)" using s'(5) t(5) by simp
    ultimately show ?thesis using t(3,4) nothing_opened_trans [OF s'(6) t(6)] by blast
  qed
qed

text \<open>At rest, the queue that is asked next, when it is closed, gives a batch or is removed.\<close>

lemma next_closed_queue:
  assumes inv: "sched_inv sz log s" and rest: "\<forall>i. sc_pc s i = Outside" and closed: "\<forall>qid. sc_handles s qid \<noteq> Some HandleOpen"
    and qs: "sc_queues s \<noteq> []" "length (sc_queues s) < 2 ^ 31" and n: "0 < sc_threads s"
  shows "\<exists>es log' t. list_all by_thread es \<and> run sz es (log, s) = Some (log', t) \<and> sched_inv sz log' t \<and>
    left_over (sc_store t) < left_over (sc_store s) \<and> nothing_opened s t"
proof -
  let ?s = "thread_enter 0 s"
  have lock: "sc_lock s = None" using sched_invD(3) [OF inv] rest by (auto simp: lock_ok_def)
  have en: "enabled (EvEnter 0) s" using lock rest n by simp
  have p1: "perform_event sz (EvEnter 0) s = Inr ([], ?s)" by simp
  have inv1: "sched_inv sz log ?s" using perform_inv [OF inv en] by simp
  have pc: "sc_pc ?s 0 = AtLoop 0 (int (length (sc_queues s)))" using int_of_small [OF qs(2)] by (simp add: thread_enter_def)
  have km: "0 < int (length (sc_queues s))" using qs(1) by simp
  obtain qid us where rot: "rotated ?s = qid # us"
    using rotated_length [of ?s] qs(1) by (cases "rotated ?s") (auto simp: thread_enter_def)
  obtain opts q where q: "sc_store ?s qid = Some (opts, q)" using in_store [OF inv1, of qid] rot by auto
  have live: "live_queue sz opts q (sc_handles s qid) (in_flight qid s) qid log"
    using sched_invD(1) [OF inv, of qid] q by (simp add: queue_inv_def thread_enter_def)
  have cl: "q_closed q" using live closed by (auto simp: live_queue_def handle_ok_def split: option.splits handle.splits)
  have "in_flight qid s = {#}" using rest by (simp add: in_flight_def)
  then have proc: "q_processing q = 0" and ok: "queue_ok sz opts q" using live by (simp_all add: live_queue_def)
  obtain r q' s' where it: "ScheduleBatch opts 0 q = Inr (r, q')"
    "run sz (iteration 0 0) (log, ?s) = Some (log @ (case r of None \<Rightarrow> [] | Some b \<Rightarrow> [Dispensed qid b]), s')"
    "sc_store s' = (sc_store ?s)(qid := if q_closed q \<and> \<not> busy q \<and> r = None then None else Some (opts, q'))"
    using iteration_spec [OF inv1 pc km rot q, of 0] by blast
  have none: "\<not> busy q" if "r = None" using ScheduleBatch_spec [OF ok, of 0] it(1) cl proc that by (auto simp: busy_def)
  have fin: "finite (dom (sc_store ?s))" by (rule thread_finite [OF inv1])
  have "left_over (sc_store s') < left_over (sc_store ?s)"
  proof (cases r)
    case None
    then show ?thesis using left_over_remove [OF fin q] none cl by (simp add: it(3))
  next
    case (Some b)
    then show ?thesis using left_over_change [OF fin q, of opts q'] ScheduleBatch_shrinks(2) [OF ok it(1)] by (simp add: it(3))
  qed
  moreover have "run sz (EvEnter 0 # iteration 0 0) (log, s) = Some (log @ (case r of None \<Rightarrow> [] | Some b \<Rightarrow> [Dispensed qid b]), s')"
    by (rule run_one [OF en p1]) (simp only: append_Nil2 it(2))
  moreover have "list_all by_thread (EvEnter 0 # iteration 0 0)" by (simp add: iteration_def)
  moreover have "left_over (sc_store ?s) = left_over (sc_store s)" by (simp add: thread_enter_def)
  moreover have "nothing_opened s s'" by (rule by_threads_open_nothing [OF calculation(2,3) inv])
  ultimately show ?thesis using run_inv [OF _ inv] by (metis (no_types, lifting))
qed

lemma drain:
  assumes "sched_inv sz log s" "\<forall>qid. sc_handles s qid \<noteq> Some HandleOpen" "length (sc_queues s) < 2 ^ 31" "0 < sc_threads s"
  shows "\<exists>es log' t. list_all by_thread es \<and> run sz es (log, s) = Some (log', t) \<and> sched_inv sz log' t \<and> sc_queues t = [] \<and>
    (\<forall>i. sc_pc t i = Outside)"
  using assms
proof (induction "left_over (sc_store s)" arbitrary: log s rule: less_induct)
  case less
  obtain es log1 s1 where s1: "list_all by_thread es" "run sz es (log, s) = Some (log1, s1)" "sched_inv sz log1 s1"
    "\<forall>i. sc_pc s1 i = Outside" "left_over (sc_store s1) \<le> left_over (sc_store s)" "nothing_opened s s1"
    using quiesce [OF less.prems(1)] by blast
  show ?case
  proof (cases "sc_queues s1 = []")
    case True
    with s1 show ?thesis by blast
  next
    case False
    have closed1: "\<forall>qid. sc_handles s1 qid \<noteq> Some HandleOpen" "length (sc_queues s1) < 2 ^ 31" "0 < sc_threads s1"
      using s1(6) less.prems(2,3,4) by (auto simp: nothing_opened_def)
    obtain fs log2 s2 where s2: "list_all by_thread fs" "run sz fs (log1, s1) = Some (log2, s2)" "sched_inv sz log2 s2"
      "left_over (sc_store s2) < left_over (sc_store s1)" "nothing_opened s1 s2"
      using next_closed_queue [OF s1(3,4) closed1(1) False closed1(2,3)] by blast
    have closed2: "\<forall>qid. sc_handles s2 qid \<noteq> Some HandleOpen" "length (sc_queues s2) < 2 ^ 31" "0 < sc_threads s2"
      using s2(5) closed1 by (auto simp: nothing_opened_def)
    have "left_over (sc_store s2) < left_over (sc_store s)" using s1(5) s2(4) by simp
    from less.hyps [OF this s2(3) closed2] obtain gs log3 t where t: "list_all by_thread gs" "run sz gs (log2, s2) = Some (log3, t)"
      "sched_inv sz log3 t" "sc_queues t = []" "\<forall>i. sc_pc t i = Outside" by blast
    have "run sz (es @ fs @ gs) (log, s) = Some (log3, t)" by (simp only: run_append s1(2) s2(2) t(2) option.case)
    moreover have "list_all by_thread (es @ fs @ gs)" using s1(1) s2(1) t(1) by simp
    ultimately show ?thesis using t(3,4,5) by blast
  qed
qed

text \<open>
  C15: From every state that can be reached, once all handles are being destroyed, some run of the batch
  threads alone leads to a state in which the scheduler has no queue left, which is what its destructor waits
  for, no thread is in \<open>ThreadLogic\<close>, and no destructor of a handle waits any more for its notification.
\<close>

theorem scheduler_drains:
  assumes "reach sz n log s" "\<forall>qid. sc_handles s qid \<noteq> Some HandleOpen" "length (sc_queues s) < 2 ^ 31"
  shows "\<exists>es log' t. list_all by_thread es \<and> run sz es (log, s) = Some (log', t) \<and> sc_queues t = [] \<and>
    (\<forall>i. sc_pc t i = Outside) \<and> (\<forall>qid. sc_handles t qid \<noteq> Some (HandleWaiting False))"
proof -
  have inv: "sched_inv sz log s" by (rule reach_inv [OF assms(1)])
  have "0 < sc_threads s" using reach_threads [OF assms(1)] reach_positive [OF assms(1)] by simp
  from drain [OF inv assms(2,3) this] obtain es log' t where t: "list_all by_thread es" "run sz es (log, s) = Some (log', t)"
    "sched_inv sz log' t" "sc_queues t = []" "\<forall>i. sc_pc t i = Outside" by blast
  have "sc_store t qid = None" for qid using sched_invD(2) [OF t(3)] t(4) by (auto simp: next_ok_def)
  then have "sc_handles t qid \<noteq> Some (HandleWaiting False)" for qid
    using sched_invD(1) [OF t(3), of qid] by (auto simp: queue_inv_def dead_queue_def split: option.splits)
  with t show ?thesis by blast
qed

lemma closed_run:
  "case run (\<lambda>_. 1) some_events ([], SharedBatchScheduler 2) of
     None \<Rightarrow> False
   | Some (log, s) \<Rightarrow> sc_queues s = [7] \<and> sc_handles s 7 = Some (HandleWaiting False)"
  by code_simp

lemma scheduler_drains_witness:
  "\<exists>log s es log' t. reach (\<lambda>_. 1) 2 (log :: nat entry list) s \<and> sc_queues s = [7] \<and> sc_handles s 7 = Some (HandleWaiting False) \<and>
     list_all by_thread es \<and> run (\<lambda>_. 1) es (log, s) = Some (log', t) \<and> sc_queues t = []"
proof -
  obtain log s where s: "run (\<lambda>_. 1) some_events ([], SharedBatchScheduler 2) = Some (log, s)"
    "sc_queues s = [7]" "sc_handles s 7 = Some (HandleWaiting False)"
    using some_run_result [OF closed_run] by (elim exE conjE) (rule that; assumption)
  have r: "reach (\<lambda>_. 1) 2 log s" by (rule run_reach [OF s(1) reach_start]) simp
  have "sc_handles s qid \<noteq> Some HandleOpen" for qid
  proof (cases "qid = 7")
    case False
    then have "sc_store s qid = None" using sched_invD(2) [OF reach_inv [OF r]] s(2) by (auto simp: next_ok_def)
    then show ?thesis using sched_invD(1) [OF reach_inv [OF r], of qid] by (auto simp: queue_inv_def dead_queue_def split: option.splits)
  qed (simp add: s(3))
  then have closed: "\<forall>qid. sc_handles s qid \<noteq> Some HandleOpen" by blast
  have "length (sc_queues s) < 2 ^ 31" using s(2) by simp
  from scheduler_drains [OF r closed this] obtain es log' t where "list_all by_thread es" "run (\<lambda>_. 1) es (log, s) = Some (log', t)" "sc_queues t = []"
    by (elim exE conjE) (rule that; assumption)
  with r s(2,3) show ?thesis
    by (intro exI [of _ log] exI [of _ s] exI [of _ es] exI [of _ log'] exI [of _ t] conjI)
qed

end
