(* ===== verification/Blocks.thy ===== *)
theory Blocks
  imports Prelude
begin

text \<open>
  Loops that write blocks of a buffer.

  A kernel's loop body overwrites one block of the output (one element, a \<open>memcpy\<close>, a \<open>memset\<close>) and
  reads only the inputs.  \<open>block_write\<close> says so; if the blocks of different iterations are disjoint,
  the loop leaves each block with its values whatever the order of the iterations
  (\<open>foldM_blocks\<close>).  A loop that writes through a running pointer appends its blocks
  (\<open>foldM_stream\<close>).
\<close>

definition block_write :: "int \<Rightarrow> int \<Rightarrow> (int \<Rightarrow> 'a) \<Rightarrow> 'a list \<Rightarrow> 'a list \<Rightarrow> bool" where
  "block_write d c v s s' \<longleftrightarrow>
     length s' = length s \<and>
     (\<forall>k<length s. s' ! k = (if d \<le> int k \<and> int k < d + c then v (int k - d) else s ! k))"

lemma block_write_memcpy:
  assumes "0 \<le> n" "0 \<le> d" "d + n \<le> int (length s)" "0 \<le> p" "p + n \<le> int (length src)"
  shows "\<exists>s'. memcpy_at s d src p n = Some s' \<and> block_write d n (\<lambda>k. src ! nat (p + k)) s s'"
proof -
  obtain s' where s': "memcpy_at s d src p n = Some s'" using memcpy_at_total [OF assms] by blast
  then show ?thesis using length_memcpy_at [OF s'] nth_memcpy_at [OF s'] by (auto simp: block_write_def)
qed

lemma block_write_memset:
  assumes "0 \<le> n" "0 \<le> d" "d + n \<le> int (length s)"
  shows "\<exists>s'. memset_at s d a n = Some s' \<and> block_write d n (\<lambda>_. a) s s'"
proof -
  obtain s' where s': "memset_at s d a n = Some s'" using assms by (simp add: memset_at_def)
  then show ?thesis using length_memset_at [OF s'] nth_memset_at [OF s'] by (auto simp: block_write_def)
qed

lemma block_write_wr:
  assumes "0 \<le> d" "d < int (length s)"
  shows "\<exists>s'. wr s d a = Some s' \<and> block_write d 1 (\<lambda>_. a) s s'"
proof -
  have "(s[nat d := a]) ! k = (if d \<le> int k \<and> int k < d + 1 then a else s ! k)" if "k < length s" for k
    using assms that by (cases "k = nat d") auto
  then show ?thesis using assms by (simp add: wr_in block_write_def)
qed

definition disjoint_blocks :: "('x \<Rightarrow> int) \<Rightarrow> ('x \<Rightarrow> int) \<Rightarrow> 'x list \<Rightarrow> bool" where
  "disjoint_blocks d c xs \<longleftrightarrow>
     (\<forall>x\<in>set xs. \<forall>y\<in>set xs. x \<noteq> y \<longrightarrow> d x + c x \<le> d y \<or> d y + c y \<le> d x)"

lemma foldM_blocks:
  assumes body: "\<And>x s. x \<in> set xs \<Longrightarrow> length s = L \<Longrightarrow> \<exists>s'. body x s = Some s' \<and> block_write (d x) (c x) (v x) s s'"
    and range: "\<And>x. x \<in> set xs \<Longrightarrow> 0 \<le> d x \<and> d x + c x \<le> int L"
    and dist: "distinct xs" and disj: "disjoint_blocks d c xs" and len: "length s = L"
  shows "\<exists>t. foldM body xs s = Some t \<and> length t = L \<and>
     (\<forall>x\<in>set xs. \<forall>k. 0 \<le> k \<and> k < c x \<longrightarrow> t ! nat (d x + k) = v x k) \<and>
     (\<forall>j<L. (\<forall>x\<in>set xs. \<not> (d x \<le> int j \<and> int j < d x + c x)) \<longrightarrow> t ! j = s ! j)"
proof -
  let ?P = "\<lambda>pre t. length t = L \<and>
     (\<forall>x\<in>set pre. \<forall>k. 0 \<le> k \<and> k < c x \<longrightarrow> t ! nat (d x + k) = v x k) \<and>
     (\<forall>j<L. (\<forall>x\<in>set pre. \<not> (d x \<le> int j \<and> int j < d x + c x)) \<longrightarrow> t ! j = s ! j)"
  have "\<exists>t. foldM body xs s = Some t \<and> ?P xs t"
  proof (rule foldM_invar)
    show "?P [] s" using len by simp
  next
    fix pre x post t
    assume xs: "xs = pre @ x # post" and P: "?P pre t"
    have x: "x \<in> set xs" "x \<notin> set pre" using xs dist by auto
    obtain t' where t': "body x t = Some t'" "block_write (d x) (c x) (v x) t t'" using body [OF x(1)] P by blast
    have l: "length t' = L" using t' P by (simp add: block_write_def)
    have at: "t' ! j = (if d x \<le> int j \<and> int j < d x + c x then v x (int j - d x) else t ! j)" if "j < L" for j
      using t'(2) P that by (simp add: block_write_def)
    have new: "t' ! nat (d x + k) = v x k" if "0 \<le> k" "k < c x" for k
    proof -
      have "nat (d x + k) < L" "int (nat (d x + k)) = d x + k" using range [OF x(1)] that by linarith+
      with at that show ?thesis by simp
    qed
    have old: "t' ! nat (d y + k) = v y k" if y: "y \<in> set pre" "0 \<le> k" "k < c y" for y k
    proof -
      have yx: "y \<in> set xs" "y \<noteq> x" using y xs x by auto
      then have "d x + c x \<le> d y \<or> d y + c y \<le> d x" using disj x(1) unfolding disjoint_blocks_def by blast
      moreover have "nat (d y + k) < L" "int (nat (d y + k)) = d y + k" using range [OF yx(1)] y by linarith+
      ultimately have "t' ! nat (d y + k) = t ! nat (d y + k)" using at [of "nat (d y + k)"] y by auto
      with P y show ?thesis by auto
    qed
    have "?P (pre @ [x]) t'" using l new old at P by auto
    with t'(1) show "\<exists>t'. body x t = Some t' \<and> ?P (pre @ [x]) t'" by blast
  qed
  then show ?thesis by blast
qed

text \<open>Writing through a running pointer.\<close>

definition row :: "(int \<Rightarrow> 'a) \<Rightarrow> int \<Rightarrow> 'a list" where
  "row v n = map v [0..n - 1]"

lemma length_row [simp]: "length (row v n) = nat n"
  by (simp add: row_def)

lemma nth_row [simp]: "k < nat n \<Longrightarrow> row v n ! k = v (int k)"
  by (simp add: row_def)

lemma row_Nil [simp]: "n \<le> 0 \<Longrightarrow> row v n = []"
  by (simp add: row_def)

lemma block_write_append:
  assumes "block_write d c v s s'" and "take (nat d) s = pre" and "0 \<le> d" "0 \<le> c" "d + c \<le> int (length s)"
  shows "take (nat (d + c)) s' = pre @ row v c"
proof (rule nth_equalityI)
  have "nat (d + c) = nat d + nat c" using assms by (simp add: nat_add_distrib)
  moreover have "length pre = nat d" using assms(2,3,4,5) by auto
  ultimately show "length (take (nat (d + c)) s') = length (pre @ row v c)"
    using assms by (auto simp: block_write_def)
  fix i
  assume "i < length (take (nat (d + c)) s')"
  then have i: "i < nat (d + c)" "i < length s" using assms(1) by (auto simp: block_write_def)
  have "take (nat (d + c)) s' ! i = s' ! i" using i by simp
  also have "\<dots> = (if d \<le> int i \<and> int i < d + c then v (int i - d) else s ! i)"
    using assms(1) i by (simp add: block_write_def)
  also have "\<dots> = (pre @ row v c) ! i"
  proof (cases "i < nat d")
    case True
    then have "s ! i = pre ! i" using assms(2) by auto
    with True \<open>length pre = nat d\<close> show ?thesis by (auto simp: nth_append)
  next
    case False
    then have "i - nat d < nat c" "int (i - nat d) = int i - d" "d \<le> int i" "int i < d + c"
      using i assms(3,4) by linarith+
    with False \<open>length pre = nat d\<close> show ?thesis by (simp add: nth_append)
  qed
  finally show "take (nat (d + c)) s' ! i = (pre @ row v c) ! i" .
qed

lemma foldM_stream:
  assumes body: "\<And>x s p. x \<in> set xs \<Longrightarrow> length s = L \<Longrightarrow> 0 \<le> p \<Longrightarrow> p + c x \<le> int L \<Longrightarrow>
      \<exists>s'. body x (s, p) = Some (s', p + c x) \<and> block_write p (c x) (v x) s s'"
    and nn: "\<And>x. x \<in> set xs \<Longrightarrow> 0 \<le> c x" and fit: "sum_list (map c xs) \<le> int L" and len: "length s = L"
  shows "\<exists>t. foldM body xs (s, 0) = Some (t, sum_list (map c xs)) \<and> length t = L \<and>
     take (nat (sum_list (map c xs))) t = concat (map (\<lambda>x. row (v x) (c x)) xs)"
proof -
  let ?P = "\<lambda>pre (t, p). p = sum_list (map c pre) \<and> length t = L \<and> take (nat p) t = concat (map (\<lambda>x. row (v x) (c x)) pre)"
  have "\<exists>t. foldM body xs (s, 0) = Some t \<and> ?P xs t"
  proof (rule foldM_invar)
    show "?P [] (s, 0)" using len by simp
  next
    fix pre x post tp
    assume xs: "xs = pre @ x # post" and P: "?P pre tp"
    obtain t p where tp: "tp = (t, p)" by fastforce
    have P': "p = sum_list (map c pre)" "length t = L" "take (nat p) t = concat (map (\<lambda>x. row (v x) (c x)) pre)"
      using P unfolding tp prod.case by blast+
    have x: "x \<in> set xs" using xs by simp
    have "0 \<le> sum_list (map c pre)" "0 \<le> sum_list (map c post)" using nn xs by (auto intro!: sum_list_nonneg)
    then have p: "0 \<le> p" "p + c x \<le> int L" using P tp fit xs by auto
    have lt: "length t = L" using P tp by simp
    obtain t' where t': "body x (t, p) = Some (t', p + c x)" "block_write p (c x) (v x) t t'"
      using body [OF x lt p] by blast
    have D: "concat (map (\<lambda>x. row (v x) (c x)) (pre @ [x])) =
        concat (map (\<lambda>x. row (v x) (c x)) pre) @ row (v x) (c x)" by simp
    have "take (nat (p + c x)) t' = concat (map (\<lambda>x. row (v x) (c x)) (pre @ [x]))"
      unfolding D by (rule block_write_append [OF t'(2) P'(3) p(1) nn [OF x]]) (use lt p in simp)
    moreover have "length t' = L" using t'(2) lt by (simp add: block_write_def)
    moreover have "p + c x = sum_list (map c (pre @ [x]))" using P'(1) by simp
    ultimately have "?P (pre @ [x]) (t', p + c x)" unfolding prod.case by (intro conjI)
    with t'(1) show "\<exists>t. body x tp = Some t \<and> ?P (pre @ [x]) t" unfolding tp
      by (intro exI [of _ "(t', p + c x)"] conjI)
  qed
  then obtain t p where t: "foldM body xs (s, 0) = Some (t, p)" "p = sum_list (map c xs)" "length t = L"
    "take (nat p) t = concat (map (\<lambda>x. row (v x) (c x)) xs)" by (auto simp del: take_all)
  then show ?thesis by (intro exI [of _ t]) metis
qed

text \<open>
  A loop that fills several buffers, each iteration with elements that belong there: if the blocks
  cover the buffers, they are filled.
\<close>

lemma foldM_restore:
  assumes body: "\<And>pre x post s. P = pre @ x # post \<Longrightarrow> I pre s \<Longrightarrow> map length (bufs s) = map length xs \<Longrightarrow>
      \<exists>s' b. body x s = Some s' \<and> I (pre @ [x]) s' \<and> bufs s' = (bufs s)[i x := b] \<and>
        block_write (d x) (c x) (\<lambda>j. xs ! i x ! nat (d x + j)) (bufs s ! i x) b"
    and init: "I [] s" "map length (bufs s) = map length xs"
    and ix: "\<And>x. x \<in> set P \<Longrightarrow> i x < length xs"
    and cover: "\<And>m q. m < length xs \<Longrightarrow> q < length (xs ! m) \<Longrightarrow>
      \<exists>x\<in>set P. i x = m \<and> d x \<le> int q \<and> int q < d x + c x"
  shows "\<exists>s'. foldM body P s = Some s' \<and> bufs s' = xs"
proof -
  let ?ok = "\<lambda>pre bs. \<forall>x\<in>set pre. \<forall>q<length (xs ! i x). d x \<le> int q \<and> int q < d x + c x \<longrightarrow> bs ! i x ! q = xs ! i x ! q"
  let ?J = "\<lambda>pre s. I pre s \<and> map length (bufs s) = map length xs \<and> ?ok pre (bufs s)"
  have lens: "length bs = length xs \<and> (m < length xs \<longrightarrow> length (bs ! m) = length (xs ! m))"
    if "map length bs = map length xs" for bs m
    using that by (metis length_map nth_map)
  have "\<exists>t. foldM body P s = Some t \<and> ?J P t"
  proof (rule foldM_invar)
    show "?J [] s" using init by simp
  next
    fix pre x post s
    assume P: "P = pre @ x # post" and J: "?J pre s"
    obtain s' b where s': "body x s = Some s'" "I (pre @ [x]) s'" "bufs s' = (bufs s)[i x := b]"
      "block_write (d x) (c x) (\<lambda>j. xs ! i x ! nat (d x + j)) (bufs s ! i x) b"
      using body [OF P] J by blast
    have x: "i x < length xs" using ix P by simp
    have lx: "length (bufs s) = length xs" "length (bufs s ! i x) = length (xs ! i x)" using lens [of "bufs s" "i x"] J x by simp_all
    have b: "length b = length (xs ! i x)"
      "b ! q = (if d x \<le> int q \<and> int q < d x + c x then xs ! i x ! q else bufs s ! i x ! q)" if "q < length (xs ! i x)" for q
      using s'(4) lx that by (auto simp: block_write_def)
    have lb: "length b = length (xs ! i x)" using s'(4) lx by (simp add: block_write_def)
    have "map length (bufs s') = map length xs"
      using J x lb unfolding s'(3) by (simp add: map_update list_update_same_conv)
    moreover have "bufs s' ! i y ! q = xs ! i y ! q"
      if y: "y \<in> set (pre @ [x])" and q: "q < length (xs ! i y)" "d y \<le> int q \<and> int q < d y + c y" for y q
    proof (cases "i y = i x")
      case False
      then have "y \<in> set pre" using y by auto
      with J q False show ?thesis unfolding s'(3) by simp
    next
      case True
      have "bufs s ! i x ! q = xs ! i x ! q" if "\<not> (d x \<le> int q \<and> int q < d x + c x)"
        using J y q that True by (metis Un_iff empty_iff insert_iff list.set(1) list.set(2) set_append)
      then show ?thesis using b(2) [of q] q True x lx unfolding s'(3) by auto
    qed
    ultimately show "\<exists>t. body x s = Some t \<and> ?J (pre @ [x]) t" using s' by blast
  qed
  then obtain t where t: "foldM body P s = Some t" "map length (bufs t) = map length xs" "?ok P (bufs t)" by blast
  have "bufs t = xs"
  proof (rule nth_equalityI)
    show "length (bufs t) = length xs" using lens [OF t(2)] by simp
    fix m assume "m < length (bufs t)"
    then have m: "m < length xs" using lens [OF t(2)] by simp
    show "bufs t ! m = xs ! m"
    proof (rule nth_equalityI)
      show "length (bufs t ! m) = length (xs ! m)" using lens [OF t(2)] m by simp
      fix q assume "q < length (bufs t ! m)"
      then have q: "q < length (xs ! m)" using lens [OF t(2)] m by simp
      then show "bufs t ! m ! q = xs ! m ! q" using cover [OF m q] t(3) by auto
    qed
  qed
  with t(1) show ?thesis by blast
qed

end
