(* ===== verification/Lite_Shape.thy ===== *)
theory Lite_Shape
  imports Blocks
begin

text \<open>
  \<open>lite/kernels/internal/types.h\<close>: the shapes of TensorFlow Lite tensors and index arithmetic on them.

  \<open>RuntimeShape\<close> is modelled with its storage, up to four sizes in place and more on the heap; its
  operations implement those on the plain list of sizes (\<open>shape_dims\<close>), and everything else is
  defined on that list.  Sizes and indices are mathematical integers: the kernels multiply and add
  them only as far as the index of an existing element, which an \<open>int\<close> holds.
\<close>

section \<open>RuntimeShape\<close>

definition kMaxSmallSize :: int where "kMaxSmallSize = 4"

text \<open>
  The union of four in-place sizes and a pointer.  Memory that was not written holds what the
  parameter \<open>junk\<close> gives for its length.
\<close>

datatype storage = Small "int list" | Heap "int list"

record runtime_shape =
  rs_size :: int
  rs_store :: storage

fun store_dims :: "storage \<Rightarrow> int list" where
  "store_dims (Small ds) = ds"
| "store_dims (Heap ds) = ds"

definition empty_shape :: "(int \<Rightarrow> int list) \<Rightarrow> runtime_shape" where
  "empty_shape junk = \<lparr>rs_size = 0, rs_store = Small (junk kMaxSmallSize)\<rparr>"

definition sized_shape :: "(int \<Rightarrow> int list) \<Rightarrow> int \<Rightarrow> runtime_shape" where
  "sized_shape junk n =
     \<lparr>rs_size = n, rs_store = if n > kMaxSmallSize then Heap (junk n) else Small (junk kMaxSmallSize)\<rparr>"

definition Resize :: "(int \<Rightarrow> int list) \<Rightarrow> int \<Rightarrow> runtime_shape \<Rightarrow> runtime_shape" where
  "Resize junk n s =
     s\<lparr>rs_size := n,
       rs_store := if n > kMaxSmallSize then Heap (junk n)
                   else case rs_store s of Small ds \<Rightarrow> Small ds | Heap _ \<Rightarrow> Small (junk kMaxSmallSize)\<rparr>"

definition DimsData :: "runtime_shape \<Rightarrow> int list" where
  "DimsData s = store_dims (rs_store s)"

definition rs_Dims :: "runtime_shape \<Rightarrow> int \<Rightarrow> int option" where
  "rs_Dims s i = do { _ \<leftarrow> check (0 \<le> i \<and> i < rs_size s); rd (DimsData s) i }"

fun with_store :: "storage \<Rightarrow> int list \<Rightarrow> storage" where
  "with_store (Small _) ds = Small ds"
| "with_store (Heap _) ds = Heap ds"

definition SetDim :: "int \<Rightarrow> int \<Rightarrow> runtime_shape \<Rightarrow> runtime_shape option" where
  "SetDim i val s = do {
     _ \<leftarrow> check (0 \<le> i \<and> i < rs_size s);
     ds \<leftarrow> wr (DimsData s) i val;
     Some (s\<lparr>rs_store := with_store (rs_store s) ds\<rparr>) }"

definition copy_dims :: "runtime_shape \<Rightarrow> int \<Rightarrow> int list \<Rightarrow> int \<Rightarrow> runtime_shape option" where
  "copy_dims s at src n = do {
     ds \<leftarrow> memcpy_at (DimsData s) at src 0 n;
     Some (s\<lparr>rs_store := with_store (rs_store s) ds\<rparr>) }"

definition ReplaceWith :: "(int \<Rightarrow> int list) \<Rightarrow> int \<Rightarrow> int list \<Rightarrow> runtime_shape \<Rightarrow> runtime_shape option" where
  "ReplaceWith junk n dims_data s = copy_dims (Resize junk n s) 0 dims_data n"

definition filled_shape :: "(int \<Rightarrow> int list) \<Rightarrow> int \<Rightarrow> int \<Rightarrow> runtime_shape option" where
  "filled_shape junk shape_size value =
     for_range 0 shape_size (\<lambda>i. SetDim i value) (Resize junk shape_size (empty_shape junk))"

definition BuildFrom :: "(int \<Rightarrow> int list) \<Rightarrow> int list \<Rightarrow> runtime_shape \<Rightarrow> runtime_shape option" where
  "BuildFrom junk src s = do {
     (s, data) \<leftarrow> foldM (\<lambda>it (s, data). do {
         ds \<leftarrow> wr (DimsData s) data it;
         Some (s\<lparr>rs_store := with_store (rs_store s) ds\<rparr>, data + 1) }) src (Resize junk (int (length src)) s, 0);
     Some s }"

definition copy_shape :: "(int \<Rightarrow> int list) \<Rightarrow> runtime_shape \<Rightarrow> runtime_shape option" where
  "copy_shape junk other = copy_dims (sized_shape junk (rs_size other)) 0 (DimsData other) (rs_size other)"

definition shape_eq :: "runtime_shape \<Rightarrow> runtime_shape \<Rightarrow> bool" where
  "shape_eq a b \<longleftrightarrow> rs_size a = rs_size b \<and>
     take (nat (rs_size a)) (DimsData a) = take (nat (rs_size a)) (DimsData b)"

definition padded_shape :: "(int \<Rightarrow> int list) \<Rightarrow> int \<Rightarrow> runtime_shape \<Rightarrow> int \<Rightarrow> runtime_shape option" where
  "padded_shape junk new_shape_size shape pad_value = do {
     _ \<leftarrow> check (rs_size shape \<le> new_shape_size);
     let s = Resize junk new_shape_size (empty_shape junk);
     let size_increase = new_shape_size - rs_size shape;
     s \<leftarrow> for_range 0 size_increase (\<lambda>i. SetDim i pad_value) s;
     copy_dims s size_increase (DimsData shape) (rs_size shape) }"

definition rs_ExtendedShape :: "(int \<Rightarrow> int list) \<Rightarrow> int \<Rightarrow> runtime_shape \<Rightarrow> runtime_shape option" where
  "rs_ExtendedShape junk new_shape_size shape = padded_shape junk new_shape_size shape 1"

definition rs_FlatSize :: "runtime_shape \<Rightarrow> int option" where
  "rs_FlatSize s =
     for_range 0 (rs_size s) (\<lambda>i buffer_size. map_option (\<lambda>d. buffer_size * d) (rd (DimsData s) i)) 1"

section \<open>Shapes as lists of sizes\<close>

type_synonym shape = "int list"

definition shape_dims :: "runtime_shape \<Rightarrow> shape" where
  "shape_dims s = take (nat (rs_size s)) (DimsData s)"

definition wf_shape :: "runtime_shape \<Rightarrow> bool" where
  "wf_shape s \<longleftrightarrow> 0 \<le> rs_size s \<and>
     (case rs_store s of Small ds \<Rightarrow> rs_size s \<le> kMaxSmallSize \<and> int (length ds) = kMaxSmallSize
      | Heap ds \<Rightarrow> kMaxSmallSize < rs_size s \<and> int (length ds) = rs_size s)"

definition junk_ok :: "(int \<Rightarrow> int list) \<Rightarrow> bool" where
  "junk_ok junk \<longleftrightarrow> (\<forall>n. length (junk n) = nat n)"

definition Dims :: "shape \<Rightarrow> int \<Rightarrow> int option" where
  "Dims s i = rd s i"

definition ExtendedShape :: "nat \<Rightarrow> shape \<Rightarrow> shape option" where
  "ExtendedShape n s = (if n < length s then None else Some (replicate (n - length s) 1 @ s))"

definition FlatSize :: "shape \<Rightarrow> int" where
  "FlatSize s = foldl (*) 1 s"

text \<open>The storage implements the list, whatever uninitialised memory contains.\<close>

lemma DimsData_with_store [simp]: "DimsData (s\<lparr>rs_store := with_store (rs_store s) ds\<rparr>) = ds"
  by (cases "rs_store s") (simp_all add: DimsData_def)

lemma rs_size_store [simp]: "rs_size (s\<lparr>rs_store := x\<rparr>) = rs_size s"
  by simp

lemma wf_shape_length: "wf_shape s \<Longrightarrow> rs_size s \<le> int (length (DimsData s)) \<and> 0 \<le> rs_size s"
  by (auto simp: wf_shape_def DimsData_def split: storage.splits)

lemma wf_with_store:
  "wf_shape s \<Longrightarrow> length ds = length (DimsData s) \<Longrightarrow> wf_shape (s\<lparr>rs_store := with_store (rs_store s) ds\<rparr>)"
  by (cases "rs_store s") (simp_all add: wf_shape_def DimsData_def)

lemma length_shape_dims: "wf_shape s \<Longrightarrow> int (length (shape_dims s)) = rs_size s"
  using wf_shape_length [of s] unfolding shape_dims_def length_take by linarith

lemma wf_Resize:
  "junk_ok junk \<Longrightarrow> 0 \<le> n \<Longrightarrow> wf_shape s \<Longrightarrow> wf_shape (Resize junk n s) \<and> rs_size (Resize junk n s) = n"
  by (auto simp: wf_shape_def Resize_def kMaxSmallSize_def junk_ok_def split: storage.splits)

lemma wf_empty_shape: "junk_ok junk \<Longrightarrow> wf_shape (empty_shape junk)"
  by (simp add: wf_shape_def empty_shape_def kMaxSmallSize_def junk_ok_def)

lemma wf_sized_shape:
  "junk_ok junk \<Longrightarrow> 0 \<le> n \<Longrightarrow> wf_shape (sized_shape junk n) \<and> rs_size (sized_shape junk n) = n"
  by (auto simp: wf_shape_def sized_shape_def kMaxSmallSize_def junk_ok_def)

lemma copy_dims_spec:
  assumes "wf_shape s" and "0 \<le> at" "0 \<le> n" "at + n = rs_size s" "n \<le> int (length src)"
  shows "\<exists>s'. copy_dims s at src n = Some s' \<and> wf_shape s' \<and>
     shape_dims s' = take (nat at) (shape_dims s) @ take (nat n) src"
proof -
  have l: "rs_size s \<le> int (length (DimsData s))" using wf_shape_length [OF assms(1)] by simp
  let ?d = "take (nat at) (DimsData s) @ take (nat n) (drop (nat 0) src) @ drop (nat (at + n)) (DimsData s)"
  have m: "memcpy_at (DimsData s) at src 0 n = Some ?d" using assms l by (simp add: memcpy_at_def)
  have "length ?d = length (DimsData s)" using length_memcpy_at [OF m] .
  then have wf: "wf_shape (s\<lparr>rs_store := with_store (rs_store s) ?d\<rparr>)" by (rule wf_with_store [OF assms(1)])
  have "nat (rs_size s) = nat at + nat n" using assms by (simp add: nat_add_distrib flip: assms(4))
  moreover have "nat at \<le> length (DimsData s)" "nat n \<le> length src" using assms l by linarith+
  ultimately have "take (nat (rs_size s)) ?d = take (nat at) (take (nat (rs_size s)) (DimsData s)) @ take (nat n) src"
    by (simp add: min_def)
  then have "shape_dims (s\<lparr>rs_store := with_store (rs_store s) ?d\<rparr>) = take (nat at) (shape_dims s) @ take (nat n) src"
    by (simp add: shape_dims_def)
  with m wf show ?thesis by (simp add: copy_dims_def)
qed

lemma SetDim_spec:
  assumes "wf_shape s" and "0 \<le> i" "i < rs_size s"
  shows "\<exists>s'. SetDim i v s = Some s' \<and> wf_shape s' \<and> rs_size s' = rs_size s \<and> shape_dims s' = (shape_dims s)[nat i := v]"
proof -
  have l: "i < int (length (DimsData s))" using wf_shape_length [OF assms(1)] assms by linarith
  let ?s = "s\<lparr>rs_store := with_store (rs_store s) ((DimsData s)[nat i := v])\<rparr>"
  have "wf_shape ?s" by (rule wf_with_store [OF assms(1)]) simp
  moreover have "shape_dims ?s = (shape_dims s)[nat i := v]"
    using assms by (simp add: shape_dims_def take_update_swap)
  ultimately show ?thesis using assms l by (simp add: SetDim_def wr_in)
qed

lemma SetDim_loop:
  assumes "wf_shape s" and "0 \<le> n" "n \<le> rs_size s"
  shows "\<exists>s'. for_range 0 n (\<lambda>i. SetDim i v) s = Some s' \<and> wf_shape s' \<and> rs_size s' = rs_size s \<and>
     shape_dims s' = replicate (nat n) v @ drop (nat n) (shape_dims s)"
proof -
  have "\<exists>s'. for_range 0 n (\<lambda>i. SetDim i v) s = Some s' \<and>
     (wf_shape s' \<and> rs_size s' = rs_size s \<and> shape_dims s' = replicate (nat n) v @ drop (nat n) (shape_dims s))"
  proof (rule for_range_rule [OF assms(2)])
    show "wf_shape s \<and> rs_size s = rs_size s \<and> shape_dims s = replicate (nat 0) v @ drop (nat 0) (shape_dims s)"
      using assms by simp
    fix i t
    assume i: "0 \<le> i" "i < n" and t: "wf_shape t \<and> rs_size t = rs_size s \<and>
        shape_dims t = replicate (nat i) v @ drop (nat i) (shape_dims s)"
    obtain t' where t': "SetDim i v t = Some t'" "wf_shape t'" "rs_size t' = rs_size t"
      "shape_dims t' = (shape_dims t)[nat i := v]"
      using SetDim_spec [of t i v] t i assms by auto
    have "nat i < length (shape_dims s)" using i assms length_shape_dims [OF assms(1)] by linarith
    then have "drop (nat i) (shape_dims s) = shape_dims s ! nat i # drop (Suc (nat i)) (shape_dims s)"
      by (simp add: Cons_nth_drop_Suc)
    then have "shape_dims t' = replicate (nat (i + 1)) v @ drop (nat (i + 1)) (shape_dims s)"
      using t t'(4) i by (simp add: list_update_append nat_add_distrib replicate_append_same [symmetric])
    with t' t show "\<exists>t'. SetDim i v t = Some t' \<and> (wf_shape t' \<and> rs_size t' = rs_size s \<and>
        shape_dims t' = replicate (nat (i + 1)) v @ drop (nat (i + 1)) (shape_dims s))" by auto
  qed
  then show ?thesis by blast
qed

lemma ReplaceWith_spec:
  assumes "junk_ok junk" and "wf_shape s" and "0 \<le> n" "n \<le> int (length dims_data)"
  shows "\<exists>s'. ReplaceWith junk n dims_data s = Some s' \<and> wf_shape s' \<and> shape_dims s' = take (nat n) dims_data"
  using copy_dims_spec [of "Resize junk n s" 0 n dims_data] wf_Resize [OF assms(1,3,2)] assms
  by (auto simp: ReplaceWith_def)

lemma copy_shape_spec:
  assumes "junk_ok junk" and "wf_shape s"
  shows "\<exists>s'. copy_shape junk s = Some s' \<and> wf_shape s' \<and> shape_dims s' = shape_dims s"
proof -
  have n: "0 \<le> rs_size s" "rs_size s \<le> int (length (DimsData s))" using wf_shape_length [OF assms(2)] by simp_all
  from copy_dims_spec [of "sized_shape junk (rs_size s)" 0 "rs_size s" "DimsData s"]
    wf_sized_shape [OF assms(1) n(1)] n show ?thesis
    by (auto simp: copy_shape_def shape_dims_def)
qed

lemma BuildFrom_loop:
  assumes "wf_shape s" and "int (length src) = rs_size s"
  shows "\<exists>t. foldM (\<lambda>it (s, data). do { ds \<leftarrow> wr (DimsData s) data it;
            Some (s\<lparr>rs_store := with_store (rs_store s) ds\<rparr>, data + 1) }) src (s, 0) = Some (t, int (length src)) \<and>
          wf_shape t \<and> shape_dims t = src"
proof -
  let ?f = "\<lambda>it (s, data). do { ds \<leftarrow> wr (DimsData s) data it;
            Some (s\<lparr>rs_store := with_store (rs_store s) ds\<rparr>, data + 1) }"
  let ?P = "\<lambda>pre (t, k). k = int (length pre) \<and> wf_shape t \<and> rs_size t = rs_size s \<and> take (length pre) (shape_dims t) = pre"
  have "\<exists>tk. foldM ?f src (s, 0) = Some tk \<and> ?P src tk"
  proof (rule foldM_invar)
    show "?P [] (s, 0)" using assms by simp
    fix pre x post tk
    assume src: "src = pre @ x # post" and P: "?P pre tk"
    obtain t where t: "tk = (t, int (length pre))" "wf_shape t" "rs_size t = rs_size s" "take (length pre) (shape_dims t) = pre"
      using P by (cases tk) auto
    have k: "int (length pre) < rs_size t" using src assms t by simp
    let ?t = "t\<lparr>rs_store := with_store (rs_store t) ((DimsData t)[length pre := x])\<rparr>"
    have len: "int (length pre) < int (length (DimsData t))" using k wf_shape_length [OF t(2)] by linarith
    have wf: "wf_shape ?t" by (rule wf_with_store [OF t(2)]) simp
    have "shape_dims ?t = (shape_dims t)[length pre := x]" by (simp add: shape_dims_def take_update_swap)
    moreover have "length pre < length (shape_dims t)" using k length_shape_dims [OF t(2)] by linarith
    ultimately have "take (length (pre @ [x])) (shape_dims ?t) = pre @ [x]"
      using t(4) by (simp add: take_Suc_conv_app_nth)
    then show "\<exists>t'. ?f x tk = Some t' \<and> ?P (pre @ [x]) t'"
      using t len wf by (intro exI [of _ "(?t, int (length pre) + 1)"]) (simp add: wr_def)
  qed
  then obtain t where t: "foldM ?f src (s, 0) = Some (t, int (length src))" "wf_shape t" "rs_size t = rs_size s"
    "take (length src) (shape_dims t) = src" by auto
  moreover have "length (shape_dims t) = length src" using length_shape_dims [OF t(2)] t(3) assms(2) by linarith
  ultimately show ?thesis by auto
qed

lemma BuildFrom_spec:
  assumes "junk_ok junk" and "wf_shape s"
  shows "\<exists>s'. BuildFrom junk src s = Some s' \<and> wf_shape s' \<and> shape_dims s' = src"
  using BuildFrom_loop [of "Resize junk (int (length src)) s" src] wf_Resize [OF assms(1) _ assms(2), of "int (length src)"]
  by (auto simp: BuildFrom_def)

lemma ExtendedShape_spec:
  assumes "junk_ok junk" and "wf_shape s"
  shows "map_option shape_dims (rs_ExtendedShape junk (int n) s) = ExtendedShape n (shape_dims s)"
proof (cases "rs_size s \<le> int n")
  case True
  let ?k = "int n - rs_size s"
  have l: "rs_size s = int (length (shape_dims s))" using length_shape_dims [OF assms(2)] by simp
  have w0: "wf_shape (Resize junk (int n) (empty_shape junk))" "rs_size (Resize junk (int n) (empty_shape junk)) = int n"
    using wf_Resize [OF assms(1) _ wf_empty_shape [OF assms(1)], of "int n"] by simp_all
  obtain t where t: "for_range 0 ?k (\<lambda>i. SetDim i 1) (Resize junk (int n) (empty_shape junk)) = Some t" "wf_shape t"
    "rs_size t = int n" "take (nat ?k) (shape_dims t) = replicate (nat ?k) 1"
    using SetDim_loop [OF w0(1), of ?k 1] w0(2) True wf_shape_length [OF assms(2)] by auto
  obtain u where u: "copy_dims t ?k (DimsData s) (rs_size s) = Some u"
    "shape_dims u = replicate (nat ?k) 1 @ shape_dims s"
    using copy_dims_spec [OF t(2), of ?k "rs_size s" "DimsData s"] t(3,4) True wf_shape_length [OF assms(2)]
    by (auto simp: shape_dims_def)
  have "nat ?k = n - length (shape_dims s)" "\<not> n < length (shape_dims s)" using l True by linarith+
  then show ?thesis
    using True t(1) u by (simp add: rs_ExtendedShape_def padded_shape_def ExtendedShape_def Let_def)
next
  case False
  then have "n < length (shape_dims s)" using length_shape_dims [OF assms(2)] by linarith
  with False show ?thesis by (simp add: rs_ExtendedShape_def padded_shape_def ExtendedShape_def)
qed

lemma rs_FlatSize_spec:
  assumes "wf_shape s"
  shows "rs_FlatSize s = Some (FlatSize (shape_dims s))"
proof -
  have l: "int (length (shape_dims s)) = rs_size s" using length_shape_dims [OF assms] .
  have "\<exists>t. for_range 0 (rs_size s) (\<lambda>i b. map_option (\<lambda>d. b * d) (rd (DimsData s) i)) 1 = Some t \<and>
     t = foldl (*) 1 (take (nat (rs_size s)) (shape_dims s))"
  proof (rule for_range_rule)
    show "0 \<le> rs_size s" using wf_shape_length [OF assms] by simp
    show "1 = foldl (*) 1 (take (nat 0) (shape_dims s))" by simp
    fix i b
    assume i: "0 \<le> i" "i < rs_size s" "b = foldl (*) 1 (take (nat i) (shape_dims s))"
    then have k: "nat i < length (shape_dims s)" "nat (i + 1) = Suc (nat i)" using l by linarith+
    then have "shape_dims s ! nat i = DimsData s ! nat i" "nat i < length (DimsData s)"
      by (simp_all add: shape_dims_def)
    with i k show "\<exists>t. map_option (\<lambda>d. b * d) (rd (DimsData s) i) = Some t \<and>
        t = foldl (*) 1 (take (nat (i + 1)) (shape_dims s))"
      by (simp add: rd_def take_Suc_conv_app_nth)
  qed
  moreover have "take (nat (rs_size s)) (shape_dims s) = shape_dims s" using l by simp
  ultimately show ?thesis by (simp add: rs_FlatSize_def FlatSize_def)
qed

lemma rs_Dims_spec: "wf_shape s \<Longrightarrow> rs_Dims s i = Dims (shape_dims s) i"
proof -
  assume w: "wf_shape s"
  have "int (length (shape_dims s)) = rs_size s" "rs_size s \<le> int (length (DimsData s))"
    using length_shape_dims [OF w] wf_shape_length [OF w] by simp_all
  then show ?thesis by (auto simp: rs_Dims_def Dims_def check_def rd_def shape_dims_def)
qed

lemma shape_eq_spec: "wf_shape a \<Longrightarrow> wf_shape b \<Longrightarrow> shape_eq a b \<longleftrightarrow> shape_dims a = shape_dims b"
proof (intro iffI)
  assume "shape_eq a b"
  then show "shape_dims a = shape_dims b" unfolding shape_eq_def shape_dims_def by metis
next
  assume w: "wf_shape a" "wf_shape b" and e: "shape_dims a = shape_dims b"
  then have "rs_size a = rs_size b" using length_shape_dims by metis
  with e show "shape_eq a b" by (simp add: shape_eq_def shape_dims_def)
qed

text \<open>
  C24: a RuntimeShape is the list of its sizes.  Whatever uninitialised memory holds and whether the
  sizes are stored in place or on the heap, building, copying and replacing give the list they are
  given, \<open>Dims\<close>, \<open>==\<close> and \<open>FlatSize\<close> read it, and \<open>ExtendedShape\<close> puts ones in front of it and fails
  its CHECK exactly when the shape is too long.
\<close>

theorem runtime_shape_refines_list:
  assumes "junk_ok junk" and "wf_shape s" and "wf_shape r"
  shows "(\<exists>s'. BuildFrom junk src s = Some s' \<and> wf_shape s' \<and> shape_dims s' = src) \<and>
     (\<exists>s'. ReplaceWith junk (int (length src)) src s = Some s' \<and> wf_shape s' \<and> shape_dims s' = src) \<and>
     (\<exists>s'. copy_shape junk s = Some s' \<and> wf_shape s' \<and> shape_dims s' = shape_dims s) \<and>
     map_option shape_dims (rs_ExtendedShape junk (int n) s) = ExtendedShape n (shape_dims s) \<and>
     rs_Dims s i = Dims (shape_dims s) i \<and> rs_FlatSize s = Some (FlatSize (shape_dims s)) \<and>
     (shape_eq s r \<longleftrightarrow> shape_dims s = shape_dims r)"
  using BuildFrom_spec [OF assms(1,2)] ReplaceWith_spec [OF assms(1,2), of "int (length src)" src]
    copy_shape_spec [OF assms(1,2)] ExtendedShape_spec [OF assms(1,2)] rs_Dims_spec [OF assms(2)]
    rs_FlatSize_spec [OF assms(2)] shape_eq_spec [OF assms(2,3)]
  by simp

lemma runtime_shape_refines_list_witness:
  "map_option shape_dims (rs_ExtendedShape (\<lambda>n. replicate (nat n) 99) 4 \<lparr>rs_size = 2, rs_store = Small [7, 5, 99, 99]\<rparr>) = Some [1, 1, 7, 5]"
  using runtime_shape_refines_list [of "\<lambda>n. replicate (nat n) 99" "\<lparr>rs_size = 2, rs_store = Small [7, 5, 99, 99]\<rparr>"
      "\<lparr>rs_size = 2, rs_store = Small [7, 5, 99, 99]\<rparr>" "[]" 4 0]
  by (simp add: junk_ok_def wf_shape_def kMaxSmallSize_def shape_dims_def DimsData_def ExtendedShape_def numeral_eq_Suc)

section \<open>Sizes of shapes\<close>

text \<open>\<open>Dims<N>\<close>: sizes and strides, the innermost dimension first.\<close>

record legacy_dims =
  ld_sizes :: "int list"
  ld_strides :: "int list"

definition ArraySize :: "legacy_dims \<Rightarrow> int \<Rightarrow> int option" where
  "ArraySize a index = rd (ld_sizes a) index"

fun MatchingArraySize :: "legacy_dims \<Rightarrow> int \<Rightarrow> (legacy_dims \<times> int) list \<Rightarrow> int option" where
  "MatchingArraySize a1 i1 [] = ArraySize a1 i1"
| "MatchingArraySize a1 i1 ((a2, i2) # args) = do {
     x \<leftarrow> ArraySize a1 i1; y \<leftarrow> ArraySize a2 i2; _ \<leftarrow> check (x = y);
     MatchingArraySize a1 i1 args }"

fun MatchingDim :: "shape \<Rightarrow> int \<Rightarrow> (shape \<times> int) list \<Rightarrow> int option" where
  "MatchingDim s1 i1 [] = Dims s1 i1"
| "MatchingDim s1 i1 ((s2, i2) # args) = do {
     x \<leftarrow> Dims s1 i1; y \<leftarrow> Dims s2 i2; _ \<leftarrow> check (x = y);
     MatchingDim s1 i1 args }"

definition ld_FlatSize :: "legacy_dims \<Rightarrow> int option" where
  "ld_FlatSize dims =
     for_range 0 (int (length (ld_sizes dims))) (\<lambda>i flat_size. do { d \<leftarrow> rd (ld_sizes dims) i; Some (flat_size * d) }) 1"

definition ToRuntimeDims :: "shape \<Rightarrow> legacy_dims option" where
  "ToRuntimeDims s = do {
     _ \<leftarrow> check (length s \<le> 4);
     (sizes, strides, cum_prod) \<leftarrow> for_range 0 4 (\<lambda>i (sizes, strides, cum_prod). do {
        new_dim \<leftarrow> if i < int (length s) then Dims s (int (length s) - 1 - i) else Some 1;
        Some (sizes @ [new_dim], strides @ [cum_prod], cum_prod * new_dim) }) ([], [], 1);
     Some \<lparr>ld_sizes = sizes, ld_strides = strides\<rparr> }"

definition DimsToShape :: "legacy_dims \<Rightarrow> shape option" where
  "DimsToShape dims = do {
     a \<leftarrow> rd (ld_sizes dims) 3; b \<leftarrow> rd (ld_sizes dims) 2; c \<leftarrow> rd (ld_sizes dims) 1; d \<leftarrow> rd (ld_sizes dims) 0;
     Some [a, b, c, d] }"

text \<open>The overloads of \<open>MatchingFlatSize\<close> for one to four further shapes.\<close>

definition dims_match :: "shape \<Rightarrow> shape \<Rightarrow> unit option" where
  "dims_match shape check_shape_0 = do {
     _ \<leftarrow> check (length shape = length check_shape_0);
     for_range 0 (int (length shape)) (\<lambda>i _. do {
       x \<leftarrow> Dims shape i; y \<leftarrow> Dims check_shape_0 i; check (x = y) }) () }"

definition MatchingFlatSize :: "shape \<Rightarrow> shape \<Rightarrow> int option" where
  "MatchingFlatSize shape check_shape_0 = do { _ \<leftarrow> dims_match shape check_shape_0; Some (FlatSize shape) }"

definition MatchingFlatSize2 :: "shape \<Rightarrow> shape \<Rightarrow> shape \<Rightarrow> int option" where
  "MatchingFlatSize2 shape check_shape_0 check_shape_1 = do {
     _ \<leftarrow> dims_match shape check_shape_0; MatchingFlatSize shape check_shape_1 }"

definition MatchingFlatSize3 :: "shape \<Rightarrow> shape \<Rightarrow> shape \<Rightarrow> shape \<Rightarrow> int option" where
  "MatchingFlatSize3 shape check_shape_0 check_shape_1 check_shape_2 = do {
     _ \<leftarrow> dims_match shape check_shape_0; MatchingFlatSize2 shape check_shape_1 check_shape_2 }"

definition MatchingFlatSize4 :: "shape \<Rightarrow> shape \<Rightarrow> shape \<Rightarrow> shape \<Rightarrow> shape \<Rightarrow> int option" where
  "MatchingFlatSize4 shape check_shape_0 check_shape_1 check_shape_2 check_shape_3 = do {
     _ \<leftarrow> dims_match shape check_shape_0; MatchingFlatSize3 shape check_shape_1 check_shape_2 check_shape_3 }"

text \<open>The same on legacy dims, whose rank \<open>N\<close> is part of the type.\<close>

definition ld_match :: "int \<Rightarrow> legacy_dims \<Rightarrow> legacy_dims \<Rightarrow> unit option" where
  "ld_match n dims check_dims_0 =
     for_range 0 n (\<lambda>i _. do { x \<leftarrow> ArraySize dims i; y \<leftarrow> ArraySize check_dims_0 i; check (x = y) }) ()"

definition ld_MatchingFlatSize :: "int \<Rightarrow> legacy_dims \<Rightarrow> legacy_dims \<Rightarrow> int option" where
  "ld_MatchingFlatSize n dims check_dims_0 = do { _ \<leftarrow> ld_match n dims check_dims_0; ld_FlatSize dims }"

definition ld_MatchingFlatSize2 :: "int \<Rightarrow> legacy_dims \<Rightarrow> legacy_dims \<Rightarrow> legacy_dims \<Rightarrow> int option" where
  "ld_MatchingFlatSize2 n dims check_dims_0 check_dims_1 = do {
     _ \<leftarrow> ld_match n dims check_dims_0; ld_MatchingFlatSize n dims check_dims_1 }"

definition ld_MatchingFlatSize3 ::
    "int \<Rightarrow> legacy_dims \<Rightarrow> legacy_dims \<Rightarrow> legacy_dims \<Rightarrow> legacy_dims \<Rightarrow> int option" where
  "ld_MatchingFlatSize3 n dims check_dims_0 check_dims_1 check_dims_2 = do {
     _ \<leftarrow> ld_match n dims check_dims_0; ld_MatchingFlatSize2 n dims check_dims_1 check_dims_2 }"

definition ld_MatchingFlatSize4 ::
    "int \<Rightarrow> legacy_dims \<Rightarrow> legacy_dims \<Rightarrow> legacy_dims \<Rightarrow> legacy_dims \<Rightarrow> legacy_dims \<Rightarrow> int option" where
  "ld_MatchingFlatSize4 n dims check_dims_0 check_dims_1 check_dims_2 check_dims_3 = do {
     _ \<leftarrow> ld_match n dims check_dims_0; ld_MatchingFlatSize3 n dims check_dims_1 check_dims_2 check_dims_3 }"

definition ld_FlatSizeSkipDim :: "legacy_dims \<Rightarrow> int \<Rightarrow> int option" where
  "ld_FlatSizeSkipDim dims skip_dim = do {
     _ \<leftarrow> check (0 \<le> skip_dim \<and> skip_dim < int (length (ld_sizes dims)));
     for_range 0 (int (length (ld_sizes dims))) (\<lambda>i flat_size. do {
       d \<leftarrow> rd (ld_sizes dims) i; Some (flat_size * (if i = skip_dim then 1 else d)) }) 1 }"

definition FlatSizeSkipDim :: "shape \<Rightarrow> int \<Rightarrow> int option" where
  "FlatSizeSkipDim shape skip_dim = do {
     _ \<leftarrow> check (0 \<le> skip_dim \<and> skip_dim < int (length shape));
     for_range 0 (int (length shape)) (\<lambda>i flat_size. do {
       d \<leftarrow> rd shape i; Some (flat_size * (if i = skip_dim then 1 else d)) }) 1 }"

definition dims_match_skip :: "shape \<Rightarrow> int \<Rightarrow> shape \<Rightarrow> unit option" where
  "dims_match_skip shape skip_dim check_shape_0 =
     for_range 0 (int (length shape)) (\<lambda>i _.
       if i \<noteq> skip_dim then do { x \<leftarrow> Dims shape i; y \<leftarrow> Dims check_shape_0 i; check (x = y) } else Some ()) ()"

definition MatchingFlatSizeSkipDim :: "shape \<Rightarrow> int \<Rightarrow> shape \<Rightarrow> int option" where
  "MatchingFlatSizeSkipDim shape skip_dim check_shape_0 = do {
     _ \<leftarrow> dims_match_skip shape skip_dim check_shape_0; FlatSizeSkipDim shape skip_dim }"

definition MatchingFlatSizeSkipDim2 :: "shape \<Rightarrow> int \<Rightarrow> shape \<Rightarrow> shape \<Rightarrow> int option" where
  "MatchingFlatSizeSkipDim2 shape skip_dim check_shape_0 check_shape_1 = do {
     _ \<leftarrow> dims_match_skip shape skip_dim check_shape_0; MatchingFlatSizeSkipDim shape skip_dim check_shape_1 }"

definition MatchingFlatSizeSkipDim3 :: "shape \<Rightarrow> int \<Rightarrow> shape \<Rightarrow> shape \<Rightarrow> shape \<Rightarrow> int option" where
  "MatchingFlatSizeSkipDim3 shape skip_dim check_shape_0 check_shape_1 check_shape_2 = do {
     _ \<leftarrow> dims_match_skip shape skip_dim check_shape_0;
     MatchingFlatSizeSkipDim2 shape skip_dim check_shape_1 check_shape_2 }"

definition MatchingFlatSizeSkipDim4 :: "shape \<Rightarrow> int \<Rightarrow> shape \<Rightarrow> shape \<Rightarrow> shape \<Rightarrow> shape \<Rightarrow> int option" where
  "MatchingFlatSizeSkipDim4 shape skip_dim check_shape_0 check_shape_1 check_shape_2 check_shape_3 = do {
     _ \<leftarrow> dims_match_skip shape skip_dim check_shape_0;
     MatchingFlatSizeSkipDim3 shape skip_dim check_shape_1 check_shape_2 check_shape_3 }"

definition ld_match_skip :: "int \<Rightarrow> legacy_dims \<Rightarrow> int \<Rightarrow> legacy_dims \<Rightarrow> unit option" where
  "ld_match_skip n dims skip_dim check_dims_0 =
     for_range 0 n (\<lambda>i _.
       if i \<noteq> skip_dim then do { x \<leftarrow> ArraySize dims i; y \<leftarrow> ArraySize check_dims_0 i; check (x = y) }
       else Some ()) ()"

definition ld_MatchingFlatSizeSkipDim :: "int \<Rightarrow> legacy_dims \<Rightarrow> int \<Rightarrow> legacy_dims \<Rightarrow> int option" where
  "ld_MatchingFlatSizeSkipDim n dims skip_dim check_dims_0 = do {
     _ \<leftarrow> ld_match_skip n dims skip_dim check_dims_0; ld_FlatSizeSkipDim dims skip_dim }"

definition ld_MatchingFlatSizeSkipDim2 ::
    "int \<Rightarrow> legacy_dims \<Rightarrow> int \<Rightarrow> legacy_dims \<Rightarrow> legacy_dims \<Rightarrow> int option" where
  "ld_MatchingFlatSizeSkipDim2 n dims skip_dim check_dims_0 check_dims_1 = do {
     _ \<leftarrow> ld_match_skip n dims skip_dim check_dims_0; ld_MatchingFlatSizeSkipDim n dims skip_dim check_dims_1 }"

definition ld_MatchingFlatSizeSkipDim3 ::
    "int \<Rightarrow> legacy_dims \<Rightarrow> int \<Rightarrow> legacy_dims \<Rightarrow> legacy_dims \<Rightarrow> legacy_dims \<Rightarrow> int option" where
  "ld_MatchingFlatSizeSkipDim3 n dims skip_dim check_dims_0 check_dims_1 check_dims_2 = do {
     _ \<leftarrow> ld_match_skip n dims skip_dim check_dims_0;
     ld_MatchingFlatSizeSkipDim2 n dims skip_dim check_dims_1 check_dims_2 }"

definition ld_MatchingFlatSizeSkipDim4 ::
    "int \<Rightarrow> legacy_dims \<Rightarrow> int \<Rightarrow> legacy_dims \<Rightarrow> legacy_dims \<Rightarrow> legacy_dims \<Rightarrow> legacy_dims \<Rightarrow> int option" where
  "ld_MatchingFlatSizeSkipDim4 n dims skip_dim check_dims_0 check_dims_1 check_dims_2 check_dims_3 = do {
     _ \<leftarrow> ld_match_skip n dims skip_dim check_dims_0;
     ld_MatchingFlatSizeSkipDim3 n dims skip_dim check_dims_1 check_dims_2 check_dims_3 }"

fun packed_from :: "legacy_dims \<Rightarrow> int \<Rightarrow> nat \<Rightarrow> nat \<Rightarrow> bool" where
  "packed_from dims expected_stride d 0 = True"
| "packed_from dims expected_stride d (Suc n) =
     (if ld_strides dims ! d \<noteq> expected_stride then False
      else packed_from dims (expected_stride * ld_sizes dims ! d) (d + 1) n)"

definition IsPackedWithoutStrides :: "nat \<Rightarrow> legacy_dims \<Rightarrow> bool" where
  "IsPackedWithoutStrides n dims = packed_from dims 1 0 n"

definition ComputeStrides :: "int \<Rightarrow> legacy_dims \<Rightarrow> legacy_dims option" where
  "ComputeStrides n dims = do {
     st \<leftarrow> wr (ld_strides dims) 0 1;
     st \<leftarrow> for_range 1 n (\<lambda>d st. do {
        p \<leftarrow> rd st (d - 1); q \<leftarrow> rd (ld_sizes dims) (d - 1); wr st d (p * q) }) st;
     Some (dims\<lparr>ld_strides := st\<rparr>) }"

section \<open>Offsets\<close>

definition Offset :: "shape \<Rightarrow> int \<Rightarrow> int \<Rightarrow> int \<Rightarrow> int \<Rightarrow> int option" where
  "Offset s i0 i1 i2 i3 =
     (case s of
        [d0, d1, d2, d3] \<Rightarrow> do {
          _ \<leftarrow> check (0 \<le> i0 \<and> i0 < d0); _ \<leftarrow> check (0 \<le> i1 \<and> i1 < d1);
          _ \<leftarrow> check (0 \<le> i2 \<and> i2 < d2); _ \<leftarrow> check (0 \<le> i3 \<and> i3 < d3);
          Some (((i0 * d1 + i1) * d2 + i2) * d3 + i3) }
      | _ \<Rightarrow> None)"

definition ld_Offset :: "legacy_dims \<Rightarrow> int \<Rightarrow> int \<Rightarrow> int \<Rightarrow> int \<Rightarrow> int option" where
  "ld_Offset dims i0 i1 i2 i3 = do {
     s0 \<leftarrow> rd (ld_sizes dims) 0; s1 \<leftarrow> rd (ld_sizes dims) 1; s2 \<leftarrow> rd (ld_sizes dims) 2; s3 \<leftarrow> rd (ld_sizes dims) 3;
     _ \<leftarrow> check (0 \<le> i0 \<and> i0 < s0); _ \<leftarrow> check (0 \<le> i1 \<and> i1 < s1);
     _ \<leftarrow> check (0 \<le> i2 \<and> i2 < s2); _ \<leftarrow> check (0 \<le> i3 \<and> i3 < s3);
     t0 \<leftarrow> rd (ld_strides dims) 0; t1 \<leftarrow> rd (ld_strides dims) 1; t2 \<leftarrow> rd (ld_strides dims) 2; t3 \<leftarrow> rd (ld_strides dims) 3;
     Some (i0 * t0 + i1 * t1 + i2 * t2 + i3 * t3) }"

definition Offset_at :: "shape \<Rightarrow> int list \<Rightarrow> int option" where
  "Offset_at s index = do {
     a \<leftarrow> rd index 0; b \<leftarrow> rd index 1; c \<leftarrow> rd index 2; d \<leftarrow> rd index 3; Offset s a b c d }"

definition ld_Offset_at :: "legacy_dims \<Rightarrow> int list \<Rightarrow> int option" where
  "ld_Offset_at dims index = do {
     a \<leftarrow> rd index 0; b \<leftarrow> rd index 1; c \<leftarrow> rd index 2; d \<leftarrow> rd index 3; ld_Offset dims a b c d }"

text \<open>The loop of \<open>NextIndex\<close> from dimension \<open>idx - 1\<close> down; the result is the final carry.\<close>

fun next_index_from :: "nat \<Rightarrow> int list \<Rightarrow> int list \<Rightarrow> (int list \<times> int) option" where
  "next_index_from 0 dims current = Some (current, 1)"
| "next_index_from (Suc idx) dims current =
     (if \<not> dims ! idx \<ge> current ! idx + 1 then None
      else if dims ! idx = current ! idx + 1 then next_index_from idx dims (current[idx := 0])
      else Some (current[idx := current ! idx + 1], 0))"

definition NextIndex :: "int list \<Rightarrow> int list \<Rightarrow> (int list \<times> bool) option" where
  "NextIndex dims current =
     (if dims = [] then Some (current, False)
      else map_option (\<lambda>(current, carry). (current, carry = 0)) (next_index_from (length dims) dims current))"

definition ReducedOutputOffset :: "int list \<Rightarrow> int list \<Rightarrow> int list \<Rightarrow> int option" where
  "ReducedOutputOffset dims index axis =
     for_range 0 (int (length dims)) (\<lambda>idx offset.
       if idx \<in> set axis then Some offset
       else do { d \<leftarrow> rd dims idx; i \<leftarrow> rd index idx; Some (offset * d + i) }) 0"

section \<open>Index arithmetic is exact\<close>

text \<open>
  A space of indices laid out in a buffer: every index has an offset inside the buffer and no two
  indices share one.
\<close>

locale index_space =
  fixes size :: int and offset :: "'i \<Rightarrow> int" and indices :: "'i list"
  assumes indices_distinct: "distinct indices"
    and offset_range: "x \<in> set indices \<Longrightarrow> 0 \<le> offset x \<and> offset x < size"
    and offset_inj: "x \<in> set indices \<Longrightarrow> y \<in> set indices \<Longrightarrow> offset x = offset y \<Longrightarrow> x = y"
begin

lemma disjoint_cells:
  assumes "0 \<le> c"
  shows "disjoint_blocks (\<lambda>x. offset x * c) (\<lambda>_. c) indices"
  unfolding disjoint_blocks_def
proof (intro ballI impI)
  fix x y
  assume xy: "x \<in> set indices" "y \<in> set indices" "x \<noteq> y"
  then have "offset x < offset y \<or> offset y < offset x" using offset_inj [of x y] by linarith
  then have "offset x + 1 \<le> offset y \<or> offset y + 1 \<le> offset x" by linarith
  then have "(offset x + 1) * c \<le> offset y * c \<or> (offset y + 1) * c \<le> offset x * c"
    using assms by (meson mult_right_mono)
  then show "offset x * c + c \<le> offset y * c \<or> offset y * c + c \<le> offset x * c"
    by (simp add: distrib_right)
qed

text \<open>A loop over all indices that writes one cell of \<open>c\<close> elements each.\<close>

lemma fill_cells:
  assumes c: "0 \<le> c" and len: "int (length s) = size * c"
    and body: "\<And>x s. x \<in> set indices \<Longrightarrow> int (length s) = size * c \<Longrightarrow>
        \<exists>s'. body x s = Some s' \<and> block_write (offset x * c) c (v x) s s'"
  shows "\<exists>t. foldM body indices s = Some t \<and> length t = length s \<and>
     (\<forall>x\<in>set indices. \<forall>k. 0 \<le> k \<and> k < c \<longrightarrow> t ! nat (offset x * c + k) = v x k)"
proof -
  have "\<exists>t. foldM body indices s = Some t \<and> length t = length s \<and>
     (\<forall>x\<in>set indices. \<forall>k. 0 \<le> k \<and> k < c \<longrightarrow> t ! nat (offset x * c + k) = v x k) \<and>
     (\<forall>j<length s. (\<forall>x\<in>set indices. \<not> (offset x * c \<le> int j \<and> int j < offset x * c + c)) \<longrightarrow> t ! j = s ! j)"
  proof (rule foldM_blocks [where c = "\<lambda>_. c"])
    fix x
    assume x: "x \<in> set indices"
    then show "\<exists>s'. body x u = Some s' \<and> block_write (offset x * c) c (v x) u s'" if "length u = length s" for u
      using body len that by metis
    have "offset x + 1 \<le> size" "0 \<le> offset x" using offset_range [OF x] by linarith+
    then have "(offset x + 1) * c \<le> size * c" "0 \<le> offset x * c" using c by (simp_all add: mult_right_mono)
    then show "0 \<le> offset x * c \<and> offset x * c + c \<le> int (length s)" using len by (simp add: distrib_right)
  qed (use indices_distinct disjoint_cells [OF c] in auto)
  then show ?thesis by blast
qed

lemma fill_elements:
  assumes len: "int (length s) = size"
    and body: "\<And>x s. x \<in> set indices \<Longrightarrow> int (length s) = size \<Longrightarrow> body x s = wr s (offset x) (v x)"
  shows "\<exists>t. foldM body indices s = Some t \<and> length t = length s \<and> (\<forall>x\<in>set indices. t ! nat (offset x) = v x)"
proof -
  have "\<exists>t. foldM body indices s = Some t \<and> length t = length s \<and>
     (\<forall>x\<in>set indices. \<forall>k. 0 \<le> k \<and> k < 1 \<longrightarrow> t ! nat (offset x * 1 + k) = (\<lambda>_. v x) k)"
  proof (rule fill_cells)
    show "\<exists>s'. body x s = Some s' \<and> block_write (offset x * 1) 1 (\<lambda>_. v x) s s'"
      if "x \<in> set indices" "int (length s) = size * 1" for x s
      using body [of x s] that block_write_wr [of "offset x" s "v x"] offset_range [of x] by simp
  qed (use len in simp_all)
  then show ?thesis by force
qed

text \<open>A loop that copies cell \<open>src x\<close> of one buffer to cell \<open>dst x\<close> of another.\<close>

lemma copy_cells:
  assumes c: "0 \<le> c" and li: "int (length input) = size * c" and ls: "int (length s) = size * c"
    and dst: "dst ` set indices \<subseteq> set indices" "inj_on dst (set indices)" and src: "src ` set indices \<subseteq> set indices"
    and body: "\<And>x s. x \<in> set indices \<Longrightarrow> body x s = memcpy_at s (offset (dst x) * c) input (offset (src x) * c) c"
  shows "\<exists>t. foldM body indices s = Some t \<and> length t = length s \<and>
     (\<forall>x\<in>set indices. \<forall>k. 0 \<le> k \<and> k < c \<longrightarrow> t ! nat (offset (dst x) * c + k) = input ! nat (offset (src x) * c + k))"
proof -
  have fits: "0 \<le> offset x * c \<and> offset x * c + c \<le> size * c" if "x \<in> set indices" for x
  proof -
    have "(offset x + 1) * c \<le> size * c" "0 \<le> offset x * c" using offset_range [OF that] c by (auto intro!: mult_right_mono)
    then show ?thesis by (simp add: distrib_right)
  qed
  have dx: "dst x \<in> set indices" "src x \<in> set indices" if "x \<in> set indices" for x using dst(1) src that by auto
  have "\<exists>t. foldM body indices s = Some t \<and> length t = length s \<and>
     (\<forall>x\<in>set indices. \<forall>k. 0 \<le> k \<and> k < c \<longrightarrow> t ! nat (offset (dst x) * c + k) = input ! nat (offset (src x) * c + k)) \<and>
     (\<forall>j<length s. (\<forall>x\<in>set indices. \<not> (offset (dst x) * c \<le> int j \<and> int j < offset (dst x) * c + c)) \<longrightarrow> t ! j = s ! j)"
  proof (rule foldM_blocks [where c = "\<lambda>_. c" and d = "\<lambda>x. offset (dst x) * c" and v = "\<lambda>x k. input ! nat (offset (src x) * c + k)"])
    fix x and u :: "'a list"
    assume x: "x \<in> set indices" and u: "length u = length s"
    show "\<exists>s'. body x u = Some s' \<and> block_write (offset (dst x) * c) c (\<lambda>k. input ! nat (offset (src x) * c + k)) u s'"
      unfolding body [OF x] using fits [OF dx(1) [OF x]] fits [OF dx(2) [OF x]] u c li ls
      by (intro block_write_memcpy) auto
  next
    show "disjoint_blocks (\<lambda>x. offset (dst x) * c) (\<lambda>_. c) indices"
      unfolding disjoint_blocks_def
    proof (intro ballI impI)
      fix x y
      assume xy: "x \<in> set indices" "y \<in> set indices" "x \<noteq> y"
      then have "dst x \<noteq> dst y" using dst(2) by (auto dest: inj_onD)
      with disjoint_cells [OF c] dx xy
      show "offset (dst x) * c + c \<le> offset (dst y) * c \<or> offset (dst y) * c + c \<le> offset (dst x) * c"
        unfolding disjoint_blocks_def by blast
    qed
  qed (use fits dx ls indices_distinct in auto)
  then show ?thesis by blast
qed

text \<open>With as many indices as cells every cell has an index, and the elements determine the buffer.\<close>

lemma offset_onto:
  assumes "int (length indices) = size" "0 \<le> k" "k < size"
  obtains x where "x \<in> set indices" "offset x = k"
proof -
  have "card (offset ` set indices) = length indices"
    using offset_inj indices_distinct by (subst card_image) (auto simp: inj_on_def distinct_card)
  moreover have "offset ` set indices \<subseteq> {0..<size}" using offset_range by auto
  ultimately have "offset ` set indices = {0..<size}" using assms(1) by (intro card_subset_eq) auto
  then have "k \<in> offset ` set indices" using assms by simp
  with that show thesis by blast
qed

lemma buffer_eqI:
  assumes "int (length indices) = size" and "int (length s) = size" "int (length t) = size"
    and "\<And>x. x \<in> set indices \<Longrightarrow> s ! nat (offset x) = t ! nat (offset x)"
  shows "s = t"
proof (rule nth_equalityI)
  show "length s = length t" using assms by linarith
  fix i assume "i < length s"
  then have "0 \<le> int i" "int i < size" using assms by linarith+
  then obtain x where "x \<in> set indices" "offset x = int i" using offset_onto [OF assms(1)] by blast
  with assms(4) show "s ! i = t ! i" by force
qed

lemma cells_eqI:
  assumes "int (length indices) = size" and c: "0 < c" and ls: "int (length s) = size * c" and lt: "int (length t) = size * c"
    and e: "\<And>x k. x \<in> set indices \<Longrightarrow> 0 \<le> k \<Longrightarrow> k < c \<Longrightarrow> s ! nat (offset x * c + k) = t ! nat (offset x * c + k)"
  shows "s = t"
proof (rule nth_equalityI)
  show "length s = length t" using ls lt by linarith
  fix i assume i: "i < length s"
  let ?q = "int i div c" and ?k = "int i mod c"
  have q: "?q * c + ?k = int i" by simp
  have k: "0 \<le> ?k" "?k < c" using c by simp_all
  have "0 \<le> ?q" using c by (simp add: pos_imp_zdiv_nonneg_iff)
  moreover have "?q < size"
  proof (rule ccontr)
    assume "\<not> ?q < size"
    then have "size * c \<le> ?q * c" using c by (intro mult_right_mono) auto
    then show False using q k i ls by linarith
  qed
  ultimately obtain x where x: "x \<in> set indices" "offset x = ?q" using offset_onto [OF assms(1)] by blast
  from e [OF x(1) k] show "s ! i = t ! i" unfolding x(2) q by simp
qed

text \<open>Permuting the cells twice by an involution gives the buffer back.\<close>

lemma involution_restores:
  assumes n: "int (length indices) = size" and c: "0 \<le> c"
    and inv: "\<And>x. x \<in> set indices \<Longrightarrow> f x \<in> set indices \<and> f (f x) = x"
    and l: "int (length input) = size * c" "int (length s) = size * c" "int (length t) = size * c"
    and s: "\<forall>x\<in>set indices. \<forall>k. 0 \<le> k \<and> k < c \<longrightarrow> s ! nat (offset (f x) * c + k) = input ! nat (offset x * c + k)"
    and t: "\<forall>x\<in>set indices. \<forall>k. 0 \<le> k \<and> k < c \<longrightarrow> t ! nat (offset (f x) * c + k) = s ! nat (offset x * c + k)"
  shows "t = input"
proof (cases "c = 0")
  case False
  then have c: "0 < c" using c by simp
  show ?thesis
  proof (rule cells_eqI [OF n c l(3,1)])
    fix x k
    assume x: "x \<in> set indices" and k: "0 \<le> k" "k < c"
    then have "t ! nat (offset (f (f x)) * c + k) = s ! nat (offset (f x) * c + k)" using t inv by blast
    also have "\<dots> = input ! nat (offset x * c + k)" using s x k by blast
    finally show "t ! nat (offset x * c + k) = input ! nat (offset x * c + k)" using inv [OF x] by simp
  qed
qed (use l in simp)

end

definition off3 :: "int \<Rightarrow> int \<Rightarrow> int \<times> int \<times> int \<Rightarrow> int" where
  "off3 d1 d2 = (\<lambda>(i0, i1, i2). (i0 * d1 + i1) * d2 + i2)"

definition idx3 :: "int \<Rightarrow> int \<Rightarrow> int \<Rightarrow> (int \<times> int \<times> int) list" where
  "idx3 d0 d1 d2 = List.product [0..d0 - 1] (List.product [0..d1 - 1] [0..d2 - 1])"

lemma set_idx3 [simp]:
  "(i0, i1, i2) \<in> set (idx3 d0 d1 d2) \<longleftrightarrow> (0 \<le> i0 \<and> i0 < d0) \<and> (0 \<le> i1 \<and> i1 < d1) \<and> (0 \<le> i2 \<and> i2 < d2)"
  by (auto simp: idx3_def)

lemma distinct_idx3: "distinct (idx3 d0 d1 d2)"
  by (simp add: idx3_def distinct_product)

definition off4 :: "int \<Rightarrow> int \<Rightarrow> int \<Rightarrow> int \<times> int \<times> int \<times> int \<Rightarrow> int" where
  "off4 d1 d2 d3 = (\<lambda>(i0, i1, i2, i3). ((i0 * d1 + i1) * d2 + i2) * d3 + i3)"

definition idx4 :: "int \<Rightarrow> int \<Rightarrow> int \<Rightarrow> int \<Rightarrow> (int \<times> int \<times> int \<times> int) list" where
  "idx4 d0 d1 d2 d3 = List.product [0..d0 - 1] (List.product [0..d1 - 1] (List.product [0..d2 - 1] [0..d3 - 1]))"

lemma set_idx4 [simp]:
  "(i0, i1, i2, i3) \<in> set (idx4 d0 d1 d2 d3) \<longleftrightarrow>
   (0 \<le> i0 \<and> i0 < d0) \<and> (0 \<le> i1 \<and> i1 < d1) \<and> (0 \<le> i2 \<and> i2 < d2) \<and> (0 \<le> i3 \<and> i3 < d3)"
  by (auto simp: idx4_def)

lemma distinct_idx4: "distinct (idx4 d0 d1 d2 d3)"
  by (simp add: idx4_def distinct_product)

text \<open>Mixed radix numbers.\<close>

lemma radix_range: "0 \<le> (i :: int) \<Longrightarrow> i < n \<Longrightarrow> 0 \<le> j \<Longrightarrow> j < m \<Longrightarrow> 0 \<le> i * m + j \<and> i * m + j < n * m"
proof -
  assume i: "0 \<le> i" "i < n" and j: "0 \<le> j" "j < m"
  have "(i + 1) * m \<le> n * m" using i j by (intro mult_right_mono) auto
  moreover have "0 \<le> i * m" using i j by simp
  ultimately show "0 \<le> i * m + j \<and> i * m + j < n * m" using j by (simp add: distrib_right)
qed

lemma radix_inj:
  "0 \<le> (j :: int) \<Longrightarrow> j < m \<Longrightarrow> 0 \<le> j' \<Longrightarrow> j' < m \<Longrightarrow> i * m + j = i' * m + j' \<longleftrightarrow> i = i' \<and> j = j'"
proof
  assume j: "0 \<le> j" "j < m" "0 \<le> j'" "j' < m" and e: "i * m + j = i' * m + j'"
  have "(i * m + j) div m = i" "(i * m + j) mod m = j" "(i' * m + j') div m = i'" "(i' * m + j') mod m = j'"
    using j by (simp_all add: add.commute [of "_ * m"])
  with e show "i = i' \<and> j = j'" by metis
qed simp

lemma div_less_dim: "(h :: int) < n * k \<Longrightarrow> 0 < k \<Longrightarrow> 0 \<le> h \<Longrightarrow> 0 \<le> h div k \<and> h div k < n \<and> 0 \<le> h mod k \<and> h mod k < k"
proof -
  assume h: "h < n * k" "0 < k" "0 \<le> h"
  have "h div k < n"
  proof (rule ccontr)
    assume "\<not> h div k < n"
    then have "n * k \<le> h div k * k" using h by (intro mult_right_mono) auto
    moreover have "h div k * k \<le> h" using h by (simp add: minus_mod_eq_div_mult [symmetric])
    ultimately show False using h by linarith
  qed
  with h show ?thesis by (simp add: pos_imp_zdiv_nonneg_iff)
qed

lemma cell_fits:
  assumes "0 \<le> k" "k < n" "0 \<le> (c :: int)"
  shows "0 \<le> k * c \<and> k * c + c \<le> n * c"
proof -
  have "(k + 1) * c \<le> n * c" using assms by (intro mult_right_mono) auto
  then show ?thesis using assms by (simp add: distrib_right)
qed

definition size4 :: "int \<Rightarrow> int \<Rightarrow> int \<Rightarrow> int \<Rightarrow> int" where
  "size4 d0 d1 d2 d3 = d0 * d1 * d2 * d3"

lemma off4_range:
  "x \<in> set (idx4 d0 d1 d2 d3) \<Longrightarrow> 0 \<le> off4 d1 d2 d3 x \<and> off4 d1 d2 d3 x < size4 d0 d1 d2 d3"
proof -
  assume x: "x \<in> set (idx4 d0 d1 d2 d3)"
  obtain i0 i1 i2 i3 where [simp]: "x = (i0, i1, i2, i3)" using prod_cases4 by blast
  have i: "0 \<le> i0" "i0 < d0" "0 \<le> i1" "i1 < d1" "0 \<le> i2" "i2 < d2" "0 \<le> i3" "i3 < d3" using x by auto
  have a: "0 \<le> i0 * d1 + i1" "i0 * d1 + i1 < d0 * d1" using radix_range [OF i(1-4)] by auto
  have b: "0 \<le> (i0 * d1 + i1) * d2 + i2" "(i0 * d1 + i1) * d2 + i2 < d0 * d1 * d2" using radix_range [OF a i(5,6)] by auto
  show ?thesis using radix_range [OF b i(7,8)] by (simp add: off4_def size4_def)
qed

lemma off4_inj:
  assumes "x \<in> set (idx4 d0 d1 d2 d3)" "y \<in> set (idx4 e0 d1 d2 d3)" "off4 d1 d2 d3 x = off4 d1 d2 d3 y"
  shows "x = y"
proof -
  obtain i0 i1 i2 i3 where x: "x = (i0, i1, i2, i3)" using prod_cases4 by blast
  obtain j0 j1 j2 j3 where y: "y = (j0, j1, j2, j3)" using prod_cases4 by blast
  have r: "0 \<le> i1" "i1 < d1" "0 \<le> i2" "i2 < d2" "0 \<le> i3" "i3 < d3" "0 \<le> j1" "j1 < d1" "0 \<le> j2" "j2 < d2" "0 \<le> j3" "j3 < d3"
    using assms(1,2) x y by auto
  have "((i0 * d1 + i1) * d2 + i2) * d3 + i3 = ((j0 * d1 + j1) * d2 + j2) * d3 + j3"
    using assms(3) by (simp add: x y off4_def)
  then show ?thesis using r by (simp add: radix_inj x y)
qed

interpretation nhwc: index_space "size4 d0 d1 d2 d3" "off4 d1 d2 d3" "idx4 d0 d1 d2 d3" for d0 d1 d2 d3
  by unfold_locales (use distinct_idx4 off4_range off4_inj in blast)+

lemma Offset_eq:
  "Offset [d0, d1, d2, d3] i0 i1 i2 i3 =
   (if (i0, i1, i2, i3) \<in> set (idx4 d0 d1 d2 d3) then Some (off4 d1 d2 d3 (i0, i1, i2, i3)) else None)"
  by (auto simp: Offset_def off4_def check_def)

lemma off3_range: "x \<in> set (idx3 d0 d1 d2) \<Longrightarrow> 0 \<le> off3 d1 d2 x \<and> off3 d1 d2 x < d0 * d1 * d2"
proof -
  assume x: "x \<in> set (idx3 d0 d1 d2)"
  obtain i0 i1 i2 where [simp]: "x = (i0, i1, i2)" using prod_cases3 by blast
  have i: "0 \<le> i0" "i0 < d0" "0 \<le> i1" "i1 < d1" "0 \<le> i2" "i2 < d2" using x by auto
  have a: "0 \<le> i0 * d1 + i1" "i0 * d1 + i1 < d0 * d1" using radix_range [OF i(1-4)] by auto
  show ?thesis using radix_range [OF a i(5,6)] by (simp add: off3_def)
qed

lemma off3_inj:
  assumes "x \<in> set (idx3 d0 d1 d2)" "y \<in> set (idx3 e0 d1 d2)" "off3 d1 d2 x = off3 d1 d2 y"
  shows "x = y"
proof -
  obtain i0 i1 i2 where x: "x = (i0, i1, i2)" using prod_cases3 by blast
  obtain j0 j1 j2 where y: "y = (j0, j1, j2)" using prod_cases3 by blast
  have r: "0 \<le> i1" "i1 < d1" "0 \<le> i2" "i2 < d2" "0 \<le> j1" "j1 < d1" "0 \<le> j2" "j2 < d2" using assms(1,2) x y by auto
  have "(i0 * d1 + i1) * d2 + i2 = (j0 * d1 + j1) * d2 + j2" using assms(3) by (simp add: x y off3_def)
  then show ?thesis using r by (simp add: radix_inj x y)
qed

interpretation nhw: index_space "d0 * d1 * d2" "off3 d1 d2" "idx3 d0 d1 d2" for d0 d1 d2
  by unfold_locales (use distinct_idx3 off3_range off3_inj in blast)+

lemma length_idx3: "0 \<le> d0 \<Longrightarrow> 0 \<le> d1 \<Longrightarrow> 0 \<le> d2 \<Longrightarrow> int (length (idx3 d0 d1 d2)) = d0 * d1 * d2"
  by (simp add: idx3_def length_product mult.assoc)

lemma for_range3:
  "for_range 0 d0 (\<lambda>i0. for_range 0 d1 (\<lambda>i1. for_range 0 d2 (\<lambda>i2. body i0 i1 i2))) s =
   foldM (\<lambda>(i0, i1, i2). body i0 i1 i2) (idx3 d0 d1 d2) s"
  by (simp add: for_range_def idx3_def foldM_product_fun case_prod_unfold)

lemma Offset_row:
  "0 < d3 \<Longrightarrow> Offset [d0, d1, d2, d3] i0 i1 i2 0 =
   (if (i0, i1, i2) \<in> set (idx3 d0 d1 d2) then Some (off3 d1 d2 (i0, i1, i2) * d3) else None)"
  by (auto simp: Offset_def off3_def check_def)

lemma length_idx4: "0 \<le> d0 \<Longrightarrow> 0 \<le> d1 \<Longrightarrow> 0 \<le> d2 \<Longrightarrow> 0 \<le> d3 \<Longrightarrow> int (length (idx4 d0 d1 d2 d3)) = size4 d0 d1 d2 d3"
  by (simp add: idx4_def size4_def length_product mult.assoc)

lemma for_range4:
  "for_range 0 d0 (\<lambda>i0. for_range 0 d1 (\<lambda>i1. for_range 0 d2 (\<lambda>i2. for_range 0 d3 (\<lambda>i3. body i0 i1 i2 i3)))) s =
   foldM (\<lambda>(i0, i1, i2, i3). body i0 i1 i2 i3) (idx4 d0 d1 d2 d3) s"
  by (simp add: for_range_def idx4_def foldM_product_fun case_prod_unfold)

section \<open>Matching sizes\<close>

lemma for_range_checks:
  assumes "\<And>i. lo \<le> i \<Longrightarrow> i < hi \<Longrightarrow> body i () = check (P i)"
  shows "for_range lo hi body () = check (\<forall>i. lo \<le> i \<and> i < hi \<longrightarrow> P i)"
proof -
  have "for_range lo (lo + int n) body () = check (\<forall>i. lo \<le> i \<and> i < lo + int n \<longrightarrow> P i)" if "lo + int n \<le> max lo hi" for n
    using that
  proof (induction n)
    case 0
    then show ?case by (simp add: check_def)
  next
    case (Suc n)
    then have b: "body (lo + int n) () = check (P (lo + int n))" using assms [of "lo + int n"] by (simp add: max_def split: if_splits)
    have e: "lo + int (Suc n) = (lo + int n) + 1" by simp
    have "for_range lo (lo + int (Suc n)) body () = Option.bind (for_range lo (lo + int n) body ()) (body (lo + int n))"
      unfolding e by (rule for_range_snoc) simp
    also have "\<dots> = check ((\<forall>i. lo \<le> i \<and> i < lo + int n \<longrightarrow> P i) \<and> P (lo + int n))"
      using Suc b by (simp add: check_def)
    also have "((\<forall>i. lo \<le> i \<and> i < lo + int n \<longrightarrow> P i) \<and> P (lo + int n)) = (\<forall>i. lo \<le> i \<and> i < lo + int (Suc n) \<longrightarrow> P i)"
    proof (intro iffI conjI allI impI)
      fix i assume a: "(\<forall>i. lo \<le> i \<and> i < lo + int n \<longrightarrow> P i) \<and> P (lo + int n)" "lo \<le> i \<and> i < lo + int (Suc n)"
      show "P i" by (cases "i = lo + int n") (use a in auto)
    qed simp_all
    finally show ?case .
  qed
  from this [of "nat (hi - lo)"] show ?thesis by (cases "lo \<le> hi") (simp_all add: check_def)
qed

lemma dims_match_eq: "dims_match s t = check (s = t)"
proof (cases "length s = length t")
  case True
  have "for_range 0 (int (length s)) (\<lambda>i _. do { x \<leftarrow> Dims s i; y \<leftarrow> Dims t i; check (x = y) }) () =
     check (\<forall>i. 0 \<le> i \<and> i < int (length s) \<longrightarrow> s ! nat i = t ! nat i)"
    by (rule for_range_checks) (use True in \<open>simp add: Dims_def rd_def\<close>)
  moreover have "(\<forall>i. 0 \<le> i \<and> i < int (length s) \<longrightarrow> s ! nat i = t ! nat i) \<longleftrightarrow> s = t"
  proof
    assume e: "\<forall>i. 0 \<le> i \<and> i < int (length s) \<longrightarrow> s ! nat i = t ! nat i"
    show "s = t"
    proof (rule nth_equalityI)
      fix i assume "i < length s"
      then show "s ! i = t ! i" using e [rule_format, of "int i"] by simp
    qed (rule True)
  qed simp
  ultimately show ?thesis using True by (simp add: dims_match_def)
next
  case False
  then have "s \<noteq> t" by auto
  with False show ?thesis by (simp add: dims_match_def check_def)
qed

lemma MatchingFlatSize_eq:
  "MatchingFlatSize s a = (if a = s then Some (FlatSize s) else None)"
  "MatchingFlatSize2 s a b = (if a = s \<and> b = s then Some (FlatSize s) else None)"
  "MatchingFlatSize3 s a b c = (if a = s \<and> b = s \<and> c = s then Some (FlatSize s) else None)"
  "MatchingFlatSize4 s a b c d = (if a = s \<and> b = s \<and> c = s \<and> d = s then Some (FlatSize s) else None)"
  by (auto simp: MatchingFlatSize_def MatchingFlatSize2_def MatchingFlatSize3_def MatchingFlatSize4_def
      dims_match_eq check_def)

lemma ExtendedShape4:
  assumes "length s \<le> 4" and "\<forall>x\<in>set s. 0 \<le> x"
  obtains d0 d1 d2 d3 where "ExtendedShape 4 s = Some [d0, d1, d2, d3]" "0 \<le> d0" "0 \<le> d1" "0 \<le> d2" "0 \<le> d3"
    "FlatSize s = size4 d0 d1 d2 d3"
proof -
  let ?e = "replicate (4 - length s) 1 @ s"
  have four: "\<exists>d0 d1 d2 d3. e = [d0, d1, d2, d3]" if "length e = 4" for e :: shape
    using that by (auto simp: numeral_eq_Suc length_Suc_conv)
  have l: "length ?e = 4" using assms by simp
  have p: "\<forall>x\<in>set ?e. 0 \<le> x" using assms by auto
  obtain d0 d1 d2 d3 where e1: "?e = [d0, d1, d2, d3]" using four [OF l] by blast
  have e: "?e = [d0, d1, d2, d3]" "0 \<le> d0" "0 \<le> d1" "0 \<le> d2" "0 \<le> d3" using p unfolding e1 by simp_all
  have "prod_list ?e = prod_list s" by simp
  then have "FlatSize s = size4 d0 d1 d2 d3" unfolding e(1) by (simp add: FlatSize_def foldl_times_eq size4_def mult.assoc)
  with e assms that show thesis by (simp add: ExtendedShape_def)
qed

lemma ExtendedShape4_len: "ExtendedShape 4 u = Some s \<Longrightarrow> length u \<le> 4 \<and> length s = 4"
  by (auto simp: ExtendedShape_def split: if_splits)

lemma Dims4 [mem_simps]:
  "Dims [a, b, c, d] 0 = Some a" "Dims [a, b, c, d] 1 = Some b"
  "Dims [a, b, c, d] 2 = Some c" "Dims [a, b, c, d] 3 = Some d"
  by (simp_all add: Dims_def rd_def)

lemma FlatSize_4: "FlatSize [d0, d1, d2, d3] = size4 d0 d1 d2 d3"
  by (simp add: FlatSize_def size4_def)

section \<open>Iterating over all indices\<close>

fun valid_index :: "int list \<Rightarrow> int list \<Rightarrow> bool" where
  "valid_index [] [] = True"
| "valid_index (d # ds) (i # is) \<longleftrightarrow> 0 \<le> i \<and> i < d \<and> valid_index ds is"
| "valid_index _ _ = False"

lemma valid_index_iff:
  "valid_index ds is \<longleftrightarrow> length is = length ds \<and> (\<forall>k<length ds. 0 \<le> is ! k \<and> is ! k < ds ! k)"
  by (induction ds "is" rule: valid_index.induct) (auto simp: less_Suc_eq_0_disj)

definition linear :: "int list \<Rightarrow> int list \<Rightarrow> int" where
  "linear ds is = foldl (\<lambda>a (d, i). a * d + i) 0 (zip ds is)"

lemma ReducedOutputOffset_all:
  assumes "length is = length ds"
  shows "ReducedOutputOffset ds is [] = Some (linear ds is)"
proof -
  let ?P = "\<lambda>n t. t = foldl (\<lambda>a (d, i). a * d + i) 0 (take (nat n) (zip ds is))"
  have "\<exists>t. for_range 0 (int (length ds)) (\<lambda>idx offset. if idx \<in> set [] then Some offset
       else do { d \<leftarrow> rd ds idx; i \<leftarrow> rd is idx; Some (offset * d + i) }) 0 = Some t \<and> ?P (int (length ds)) t"
  proof (rule for_range_rule)
    fix i s
    assume i: "0 \<le> i" "i < int (length ds)" and s: "?P i s"
    then have "nat i < length (zip ds is)" "nat (i + 1) = Suc (nat i)" using assms by auto
    then have "take (nat (i + 1)) (zip ds is) = take (nat i) (zip ds is) @ [(ds ! nat i, is ! nat i)]"
      by (simp add: take_Suc_conv_app_nth)
    with i s assms show "\<exists>t. (if i \<in> set [] then Some s
        else do { d \<leftarrow> rd ds i; j \<leftarrow> rd is i; Some (s * d + j) }) = Some t \<and> ?P (i + 1) t"
      by (simp add: rd_def)
  qed simp_all
  then show ?thesis by (simp add: ReducedOutputOffset_def linear_def assms)
qed

lemma linear_snoc:
  "length is = length ds \<Longrightarrow> linear (ds @ [d]) (is @ [i]) = linear ds is * d + i"
  by (simp add: linear_def)

lemma linear_take_Suc:
  assumes "n < length ds" "length is = length ds"
  shows "linear (take (Suc n) ds) (take (Suc n) is) = linear (take n ds) (take n is) * ds ! n + is ! n"
  using assms by (simp add: take_Suc_conv_app_nth linear_snoc)

lemma linear_range: "valid_index ds is \<Longrightarrow> 0 \<le> linear ds is \<and> linear ds is < prod_list ds"
proof -
  assume v: "valid_index ds is"
  then have len: "length is = length ds" by (simp add: valid_index_iff)
  have "0 \<le> linear (take n ds) (take n is) \<and> linear (take n ds) (take n is) < prod_list (take n ds)" if "n \<le> length ds" for n
    using that
  proof (induction n)
    case 0
    then show ?case by (simp add: linear_def)
  next
    case (Suc n)
    then have n: "n < length ds" by simp
    have "0 \<le> is ! n" "is ! n < ds ! n" using v n by (simp_all add: valid_index_iff)
    with Suc.IH n radix_range show ?case
      unfolding linear_take_Suc [OF n len] by (simp add: take_Suc_conv_app_nth [OF n] less_imp_le)
  qed
  from this [of "length ds"] len show ?thesis by simp
qed

text \<open>The index with position \<open>q\<close>, one coordinate per dimension.\<close>

definition weight :: "shape \<Rightarrow> int \<Rightarrow> int" where
  "weight s j = prod_list (drop (nat j) s)"

definition unravel :: "shape \<Rightarrow> int \<Rightarrow> int list" where
  "unravel s q = map (\<lambda>j. q mod weight s j div weight s (j + 1)) [0..int (length s) - 1]"

lemma length_unravel [simp]: "length (unravel s q) = length s"
  by (simp add: unravel_def)

lemma weight_step: "0 \<le> j \<Longrightarrow> j < int (length s) \<Longrightarrow> weight s j = s ! nat j * weight s (j + 1)"
  unfolding weight_def by (subst Cons_nth_drop_Suc [symmetric]) (auto simp: nat_add_distrib)

lemma weight_pos: "\<forall>d\<in>set s. 0 < d \<Longrightarrow> 0 < weight s j"
  unfolding weight_def by (intro prod_list_pos) (auto dest: in_set_dropD)

lemma unravel_correct:
  assumes pos: "\<forall>d\<in>set s. 0 < d" and q: "0 \<le> q" "q < prod_list s"
  shows "valid_index s (unravel s q) \<and> linear s (unravel s q) = q"
proof -
  have at: "unravel s q ! n = q mod weight s (int n) div weight s (int n + 1)" if "n < length s" for n
    using that by (simp add: unravel_def)
  have lin: "linear (take n s) (take n (unravel s q)) = q div weight s (int n)" if "n \<le> length s" for n
    using that
  proof (induction n)
    case 0
    then show ?case using q by (simp add: linear_def weight_def)
  next
    case (Suc n)
    then have n: "n < length s" by simp
    define w where "w = weight s (int n + 1)"
    have w: "0 < w" unfolding w_def by (rule weight_pos [OF pos])
    have wn: "weight s (int n) = s ! n * w" using weight_step [of "int n" s] n by (simp add: w_def)
    have d: "0 < s ! n" using pos n by simp
    have "q div w = (q div (s ! n * w)) * s ! n + q mod (s ! n * w) div w"
    proof -
      have "q = (q div (s ! n * w) * s ! n) * w + q mod (s ! n * w)" using div_mult_mod_eq [of q "s ! n * w"] by (simp only: mult.assoc)
      then have "q div w = ((q div (s ! n * w) * s ! n) * w + q mod (s ! n * w)) div w" by simp
      then show ?thesis using w by simp
    qed
    then show ?case using Suc n linear_take_Suc [OF n, of "unravel s q"] by (simp add: at wn w_def add.commute)
  qed
  have "valid_index s (unravel s q)"
    unfolding valid_index_iff
  proof (intro conjI allI impI)
    fix k assume k: "k < length s"
    have w: "0 < weight s (int k + 1)" "0 < weight s (int k)" by (rule weight_pos [OF pos])+
    have m: "0 \<le> q mod weight s (int k)" "q mod weight s (int k) < s ! k * weight s (int k + 1)"
      using weight_step [of "int k" s] k w(2) pos_mod_bound [OF w(2), of q] by simp_all
    show "0 \<le> unravel s q ! k" "unravel s q ! k < s ! k"
      using div_less_dim [OF m(2) w(1) m(1)] by (simp_all add: at [OF k])
  qed simp
  moreover have "linear s (unravel s q) = q" using lin [of "length s"] by (simp add: weight_def)
  ultimately show ?thesis by simp
qed

lemma linear_inj:
  "valid_index ds is \<Longrightarrow> valid_index ds js \<Longrightarrow> linear ds is = linear ds js \<Longrightarrow> is = js"
proof (induction ds arbitrary: "is" js rule: rev_induct)
  case Nil
  then show ?case by (simp add: valid_index_iff)
next
  case (snoc d ds)
  have "length is = Suc (length ds)" "length js = Suc (length ds)" using snoc.prems by (simp_all add: valid_index_iff)
  then obtain as a bs b where s: "is = as @ [a]" "js = bs @ [b]" and l: "length as = length ds" "length bs = length ds"
    by (metis append_butlast_last_id length_butlast diff_Suc_1 list.size(3) nat.distinct(1))
  have v: "valid_index ds as" "valid_index ds bs" "0 \<le> a" "a < d" "0 \<le> b" "b < d"
    using snoc.prems(1,2) l unfolding s valid_index_iff
    by (auto simp: nth_append less_Suc_eq split: if_splits)
  have "linear ds as * d + a = linear ds bs * d + b" using snoc.prems(3) l by (simp add: s linear_snoc)
  then have "linear ds as = linear ds bs \<and> a = b" using radix_inj v(3-6) by blast
  with snoc.IH [OF v(1,2)] show ?case by (simp add: s)
qed

lemma unravel_linear: "valid_index ds is \<Longrightarrow> unravel ds (linear ds is) = is"
proof -
  assume v: "valid_index ds is"
  then have "\<forall>d\<in>set ds. 0 < d" unfolding valid_index_iff by (metis in_set_conv_nth order.strict_trans1)
  from unravel_correct [OF this] linear_range [OF v] show ?thesis by (intro linear_inj [OF _ v]) auto
qed

lemma linear_append:
  "length is = length ds \<Longrightarrow> length js = length es \<Longrightarrow> linear (ds @ es) (is @ js) = linear ds is * prod_list es + linear es js"
proof (induction es arbitrary: js rule: rev_induct)
  case Nil
  then show ?case by (simp add: linear_def)
next
  case (snoc e es)
  then have "js \<noteq> []" by auto
  then obtain ks k where j: "js = ks @ [k]" by (metis append_butlast_last_id)
  have "linear ((ds @ es) @ [e]) ((is @ ks) @ [k]) = linear (ds @ es) (is @ ks) * e + k"
    by (rule linear_snoc) (use snoc.prems j in simp)
  with snoc show ?case by (simp add: j linear_snoc distrib_right)
qed

text \<open>One carry chain: the digits below \<open>n\<close> are advanced by one.\<close>

lemma next_index_from_spec:
  "valid_index ds is \<Longrightarrow> n \<le> length ds \<Longrightarrow>
   \<exists>is' carry. next_index_from n ds is = Some (is', carry) \<and> valid_index ds is' \<and> drop n is' = drop n is \<and>
     (if carry = 0 then linear (take n ds) (take n is') = linear (take n ds) (take n is) + 1
      else carry = 1 \<and> linear (take n ds) (take n is) + 1 = prod_list (take n ds) \<and> (\<forall>k<n. is' ! k = 0))"
proof (induction n arbitrary: "is")
  case 0
  then show ?case by (simp add: linear_def)
next
  case (Suc n)
  then have n: "n < length ds" and len: "length is = length ds" and d: "0 \<le> is ! n" "is ! n < ds ! n"
    by (auto simp: valid_index_iff)
  note lin = linear_take_Suc [OF n len]
  show ?case
  proof (cases "ds ! n = is ! n + 1")
    case True
    let ?is = "is[n := 0]"
    have pos: "0 < ds ! n" using d by linarith
    have "0 \<le> ?is ! k \<and> ?is ! k < ds ! k" if "k < length ds" for k
      using Suc.prems(1) pos that n len by (cases "k = n") (simp_all add: valid_index_iff)
    then have v: "valid_index ds ?is" using len by (simp add: valid_index_iff)
    from Suc.IH [OF v] n obtain is' carry where IH: "next_index_from n ds ?is = Some (is', carry)" "valid_index ds is'"
      "drop n is' = drop n ?is"
      "if carry = 0 then linear (take n ds) (take n is') = linear (take n ds) (take n ?is) + 1
       else carry = 1 \<and> linear (take n ds) (take n ?is) + 1 = prod_list (take n ds) \<and> (\<forall>k<n. is' ! k = 0)" by auto
    have len': "length is' = length ds" using IH(2) by (simp add: valid_index_iff)
    have "is' ! n = 0" using IH(3) n len len' by (metis Cons_nth_drop_Suc length_list_update list.inject nth_list_update_eq)
    moreover have "drop (Suc n) is' = drop (Suc n) is"
      using IH(3) by (metis drop_drop drop_update_cancel lessI plus_1_eq_Suc)
    moreover have "next_index_from (Suc n) ds is = Some (is', carry)" using True IH(1) by simp
    moreover have "take n ?is = take n is" by simp
    moreover have P: "prod_list (take (Suc n) ds) = prod_list (take n ds) * (is ! n + 1)"
      using True take_Suc_conv_app_nth [OF n] by simp
    moreover have "if carry = 0 then linear (take (Suc n) ds) (take (Suc n) is') = linear (take (Suc n) ds) (take (Suc n) is) + 1
      else carry = 1 \<and> linear (take (Suc n) ds) (take (Suc n) is) + 1 = prod_list (take (Suc n) ds) \<and> (\<forall>k<Suc n. is' ! k = 0)"
    proof (cases "carry = 0")
      case c: True
      have "linear (take n ds) (take n is') = linear (take n ds) (take n is) + 1" using IH(4) c by simp
      then show ?thesis unfolding lin linear_take_Suc [OF n len'] \<open>is' ! n = 0\<close> True using c by (simp add: algebra_simps)
    next
      case c: False
      have "carry = 1" "prod_list (take n ds) = linear (take n ds) (take n is) + 1" "\<forall>k<n. is' ! k = 0"
        using IH(4) c by simp_all
      then show ?thesis unfolding lin P True using \<open>is' ! n = 0\<close> by (auto simp: algebra_simps less_Suc_eq)
    qed
    ultimately show ?thesis using IH(2) by blast
  next
    case False
    let ?is = "is[n := is ! n + 1]"
    have pos: "0 \<le> is ! n + 1 \<and> is ! n + 1 < ds ! n" using d False by linarith
    have "0 \<le> ?is ! k \<and> ?is ! k < ds ! k" if "k < length ds" for k
      using Suc.prems(1) pos that n len by (cases "k = n") (simp_all add: valid_index_iff)
    then have v: "valid_index ds ?is" using len by (simp add: valid_index_iff)
    have "linear (take (Suc n) ds) (take (Suc n) ?is) = linear (take (Suc n) ds) (take (Suc n) is) + 1"
      using linear_take_Suc [OF n, of ?is] lin len n by simp
    with v False d show ?thesis by simp
  qed
qed

text \<open>
  \<open>NextIndex\<close> enumerates all indices in row-major order.  On a valid index it runs without a
  failing DCHECK and returns a valid index; as long as it returns true the flattened offset grows by
  exactly one, and it returns false exactly on the last index, having wrapped around to all zeros.
\<close>

theorem next_index_enumerates:
  assumes "valid_index ds is" and "ds \<noteq> []"
  shows "\<exists>is' more. NextIndex ds is = Some (is', more) \<and> valid_index ds is' \<and>
     (\<exists>k k'. ReducedOutputOffset ds is [] = Some k \<and> ReducedOutputOffset ds is' [] = Some k' \<and>
        0 \<le> k \<and> k < FlatSize ds \<and> (more \<longleftrightarrow> k + 1 < FlatSize ds) \<and> k' = (if more then k + 1 else 0))"
proof -
  from next_index_from_spec [OF assms(1), of "length ds"] obtain is' carry where
    n: "next_index_from (length ds) ds is = Some (is', carry)" "valid_index ds is'" and
    c: "if carry = 0 then linear (take (length ds) ds) (take (length ds) is') = linear (take (length ds) ds) (take (length ds) is) + 1
       else carry = 1 \<and> linear (take (length ds) ds) (take (length ds) is) + 1 = prod_list (take (length ds) ds) \<and> (\<forall>k<length ds. is' ! k = 0)"
    by auto
  have len: "length is = length ds" "length is' = length ds" using assms(1) n(2) by (simp_all add: valid_index_iff)
  note r = linear_range [OF assms(1)] linear_range [OF n(2)]
  have F: "FlatSize ds = prod_list ds" by (simp add: FlatSize_def foldl_times_eq)
  have zero: "linear ds is' = 0" if "\<forall>k<length ds. is' ! k = 0"
  proof -
    have "is' = replicate (length ds) 0" using that len by (intro nth_equalityI) auto
    moreover have "linear ds (replicate (length ds) 0) = 0" for ds
      by (induction ds rule: rev_induct) (simp_all add: linear_def, simp add: linear_def [symmetric] replicate_append_same [symmetric] linear_snoc)
    ultimately show ?thesis by simp
  qed
  show ?thesis
    using n len assms(2) c r zero F ReducedOutputOffset_all [OF len(1)] ReducedOutputOffset_all [OF len(2)]
    by (intro exI [of _ is'] exI [of _ "carry = 0"]) (auto simp: NextIndex_def split: if_splits)
qed

lemma next_index_enumerates_witness:
  "\<exists>is' more. NextIndex [2, 3] [0, 2] = Some (is', more) \<and> valid_index [2, 3] is'"
  using next_index_enumerates [of "[2, 3]" "[0, 2]"] by simp blast

section \<open>The legacy representation\<close>

lemma for_range_0_4: "for_range 0 4 body s = do { s \<leftarrow> body 0 s; s \<leftarrow> body 1 s; s \<leftarrow> body 2 s; body 3 s }"
  by (cases "body 0 s") (auto simp: for_range_step bind_Some_id split: Option.bind_splits)

lemma ToRuntimeDims_4:
  "ToRuntimeDims [d0, d1, d2, d3] =
   Some \<lparr>ld_sizes = [d3, d2, d1, d0], ld_strides = [1, d3, d3 * d2, d3 * d2 * d1]\<rparr>"
  by (simp add: ToRuntimeDims_def for_range_0_4 Dims_def rd_def)

lemma packed_from_4: "packed_from \<lparr>ld_sizes = [a, b, c, d], ld_strides = [1, a, a * b, a * b * c]\<rparr> 1 0 4"
  by (simp add: numeral_eq_Suc)

lemma ComputeStrides_4:
  "ComputeStrides 4 \<lparr>ld_sizes = [a, b, c, d], ld_strides = [w, x, y, z]\<rparr> =
   Some \<lparr>ld_sizes = [a, b, c, d], ld_strides = [1, a, a * b, a * b * c]\<rparr>"
  by (simp add: ComputeStrides_def for_range_step wr_def rd_def)

text \<open>
  The legacy dims of a four-dimensional shape denote the same tensor: offsets (with the indices
  in reverse order, and the same DCHECKs failing), flat size and conversion back agree; the strides
  are packed, and they are what \<open>ComputeStrides\<close> puts in place of any others.
\<close>

theorem legacy_dims_agree:
  "\<exists>d. ToRuntimeDims [d0, d1, d2, d3] = Some d \<and>
     ld_Offset d i3 i2 i1 i0 = Offset [d0, d1, d2, d3] i0 i1 i2 i3 \<and>
     DimsToShape d = Some [d0, d1, d2, d3] \<and> ld_FlatSize d = Some (FlatSize [d0, d1, d2, d3]) \<and>
     IsPackedWithoutStrides 4 d \<and> ComputeStrides 4 (d\<lparr>ld_strides := [w, x, y, z]\<rparr>) = Some d"
proof -
  let ?d = "\<lparr>ld_sizes = [d3, d2, d1, d0], ld_strides = [1, d3, d3 * d2, d3 * d2 * d1]\<rparr>"
  have "ld_Offset ?d i3 i2 i1 i0 = Offset [d0, d1, d2, d3] i0 i1 i2 i3"
    by (simp add: ld_Offset_def Offset_def rd_def check_def algebra_simps)
  moreover have "DimsToShape ?d = Some [d0, d1, d2, d3]" by (simp add: DimsToShape_def rd_def)
  moreover have "ld_FlatSize ?d = Some (FlatSize [d0, d1, d2, d3])"
    by (simp add: ld_FlatSize_def for_range_0_4 rd_def FlatSize_4 size4_def ac_simps)
  moreover have "IsPackedWithoutStrides 4 ?d" unfolding IsPackedWithoutStrides_def by (rule packed_from_4)
  moreover have "ComputeStrides 4 (?d\<lparr>ld_strides := [w, x, y, z]\<rparr>) = Some ?d" by (simp add: ComputeStrides_4)
  ultimately show ?thesis using ToRuntimeDims_4 by blast
qed

lemma FlatSizeSkipDim_loop:
  assumes "0 \<le> n" "n \<le> int (length s)"
  shows "for_range 0 n (\<lambda>i flat_size. do { d \<leftarrow> rd s i; Some (flat_size * (if i = k then 1 else d)) }) 1 =
     Some (prod_list (map (\<lambda>i. if int i = k then 1 else s ! i) [0..<nat n]))"
proof -
  let ?P = "\<lambda>n t. t = prod_list (map (\<lambda>i. if int i = k then 1 else s ! i) [0..<nat n])"
  have "\<exists>t. for_range 0 n (\<lambda>i flat_size. do { d \<leftarrow> rd s i; Some (flat_size * (if i = k then 1 else d)) }) 1 = Some t \<and> ?P n t"
  proof (rule for_range_rule [OF assms(1)])
    fix i t
    assume i: "0 \<le> i" "i < n" "?P i t"
    then have "[0..<nat (i + 1)] = [0..<nat i] @ [nat i]" by (simp add: nat_add_distrib)
    with i assms show "\<exists>t'. do { d \<leftarrow> rd s i; Some (t * (if i = k then 1 else d)) } = Some t' \<and> ?P (i + 1) t'"
      by (simp add: rd_def)
  qed simp
  then show ?thesis by blast
qed

lemma FlatSizeSkipDim_eq:
  assumes "k < length s"
  shows "FlatSizeSkipDim s (int k) = Some (prod_list (take k s) * prod_list (drop (Suc k) s))"
proof -
  let ?f = "\<lambda>i. if int i = int k then 1 else s ! i"
  have "[0..<length s] = [0..<k] @ k # [Suc k..<length s]" using assms
    by (metis le0 less_imp_le_nat upt_add_eq_append upt_conv_Cons add_diff_inverse_nat not_less)
  moreover have "map ?f [0..<k] = take k s" using assms by (intro nth_equalityI) auto
  moreover have "map ?f [Suc k..<length s] = drop (Suc k) s" using assms by (intro nth_equalityI) auto
  ultimately have "prod_list (map ?f [0..<length s]) = prod_list (take k s) * prod_list (drop (Suc k) s)" by simp
  then show ?thesis using FlatSizeSkipDim_loop [of "int (length s)" s "int k"] assms
    by (simp add: FlatSizeSkipDim_def)
qed

lemma FlatSize_split: "k < length s \<Longrightarrow> FlatSize s = prod_list (take k s) * s ! k * prod_list (drop (Suc k) s)"
  by (subst id_take_nth_drop [of k s]) (simp_all add: FlatSize_def foldl_times_eq)

text \<open>
  The sizes the elementwise kernels loop over.  \<open>MatchingFlatSize\<close> is the flat size if all
  shapes are equal and fails its DCHECK otherwise; \<open>FlatSizeSkipDim\<close> is the flat size without one
  dimension and fails for a dimension the shape does not have.
\<close>

theorem matching_sizes:
  "MatchingFlatSize4 s a b c d = (if a = s \<and> b = s \<and> c = s \<and> d = s then Some (FlatSize s) else None) \<and>
   (if 0 \<le> k \<and> k < int (length s)
    then map_option (\<lambda>n. n * s ! nat k) (FlatSizeSkipDim s k) = Some (FlatSize s)
    else FlatSizeSkipDim s k = None)"
proof (cases "0 \<le> k \<and> k < int (length s)")
  case True
  then have k: "nat k < length s" "int (nat k) = k" by linarith+
  have "FlatSizeSkipDim s k = Some (prod_list (take (nat k) s) * prod_list (drop (Suc (nat k)) s))"
    using FlatSizeSkipDim_eq [OF k(1)] k(2) by simp
  with FlatSize_split [OF k(1)] True show ?thesis by (simp add: MatchingFlatSize_eq)
next
  case False
  then show ?thesis by (auto simp: MatchingFlatSize_eq FlatSizeSkipDim_def check_def)
qed

end
