(* ===== verification/Lite_Space.thy ===== *)
theory Lite_Space
  imports Lite_Shape
begin

text \<open>
  \<open>lite/kernels/internal/reference/reference_ops.h\<close>: the kernels that move blocks of a picture into
  its depth or its batch and back.  A kernel takes the unextended shapes and the buffers; it returns
  the output buffer, or \<open>None\<close> for a failing DCHECK or an access outside a buffer.
\<close>

section \<open>The kernels\<close>

definition DepthToSpace :: "int \<Rightarrow> shape \<Rightarrow> 'a list \<Rightarrow> shape \<Rightarrow> 'a list \<Rightarrow> 'a list option" where
  "DepthToSpace block_size unextended_input_shape input_data unextended_output_shape output_data = do {
     _ \<leftarrow> check (length unextended_input_shape \<le> 4);
     _ \<leftarrow> check (length unextended_output_shape \<le> 4);
     input_shape \<leftarrow> ExtendedShape 4 unextended_input_shape;
     output_shape \<leftarrow> ExtendedShape 4 unextended_output_shape;
     input_depth \<leftarrow> Dims input_shape 3;
     input_width \<leftarrow> Dims input_shape 2;
     input_height \<leftarrow> Dims input_shape 1;
     input_batch \<leftarrow> Dims input_shape 0;
     output_depth \<leftarrow> Dims output_shape 3;
     output_width \<leftarrow> Dims output_shape 2;
     output_height \<leftarrow> Dims output_shape 1;
     output_batch \<leftarrow> Dims output_shape 0;
     _ \<leftarrow> check (input_width * block_size = output_width);
     _ \<leftarrow> check (input_height * block_size = output_height);
     _ \<leftarrow> check (input_depth = output_depth * block_size * block_size);
     _ \<leftarrow> check (input_batch = output_batch);
     for_range 0 output_batch (\<lambda>out_b. for_range 0 output_height (\<lambda>out_h.
       for_range 0 output_width (\<lambda>out_w. for_range 0 output_depth (\<lambda>out_d output_data. do {
         let in_d = out_d + (cmod out_h block_size * block_size + cmod out_w block_size) * output_depth;
         let in_w = cdiv out_w block_size;
         let in_h = cdiv out_h block_size;
         let in_b = out_b;
         input_index \<leftarrow> Offset input_shape in_b in_h in_w in_d;
         output_index \<leftarrow> Offset output_shape out_b out_h out_w out_d;
         v \<leftarrow> rd input_data input_index;
         wr output_data output_index v })))) output_data }"

definition SpaceToDepth :: "int \<Rightarrow> shape \<Rightarrow> 'a list \<Rightarrow> shape \<Rightarrow> 'a list \<Rightarrow> 'a list option" where
  "SpaceToDepth block_size unextended_input_shape input_data unextended_output_shape output_data = do {
     _ \<leftarrow> check (length unextended_input_shape \<le> 4);
     _ \<leftarrow> check (length unextended_output_shape \<le> 4);
     input_shape \<leftarrow> ExtendedShape 4 unextended_input_shape;
     output_shape \<leftarrow> ExtendedShape 4 unextended_output_shape;
     input_depth \<leftarrow> Dims input_shape 3;
     input_width \<leftarrow> Dims input_shape 2;
     input_height \<leftarrow> Dims input_shape 1;
     input_batch \<leftarrow> Dims input_shape 0;
     output_depth \<leftarrow> Dims output_shape 3;
     output_width \<leftarrow> Dims output_shape 2;
     output_height \<leftarrow> Dims output_shape 1;
     output_batch \<leftarrow> Dims output_shape 0;
     _ \<leftarrow> check (input_width = output_width * block_size);
     _ \<leftarrow> check (input_height = output_height * block_size);
     _ \<leftarrow> check (input_depth * block_size * block_size = output_depth);
     _ \<leftarrow> check (input_batch = output_batch);
     for_range 0 input_batch (\<lambda>in_b. for_range 0 input_height (\<lambda>in_h.
       for_range 0 input_width (\<lambda>in_w. for_range 0 input_depth (\<lambda>in_d output_data. do {
         let out_d = in_d + (cmod in_h block_size * block_size + cmod in_w block_size) * input_depth;
         let out_w = cdiv in_w block_size;
         let out_h = cdiv in_h block_size;
         let out_b = in_b;
         input_index \<leftarrow> Offset input_shape in_b in_h in_w in_d;
         output_index \<leftarrow> Offset output_shape out_b out_h out_w out_d;
         v \<leftarrow> rd input_data input_index;
         wr output_data output_index v })))) output_data }"

text \<open>
  \<open>memset (out, pad_value, depth * sizeof (T))\<close> fills elements with a byte: the parameter \<open>pad\<close> is the
  element all of whose bytes are \<open>params.output_offset\<close>.
\<close>

definition SpaceToBatchND ::
    "'a \<Rightarrow> shape \<Rightarrow> 'a list \<Rightarrow> int list \<Rightarrow> int list \<Rightarrow> shape \<Rightarrow> 'a list \<Rightarrow> 'a list option" where
  "SpaceToBatchND pad unextended_input1_shape input1_data block_shape_data paddings_data
      unextended_output_shape output_data = do {
     _ \<leftarrow> check (length unextended_input1_shape \<le> 4);
     _ \<leftarrow> check (length unextended_output_shape \<le> 4);
     input1_shape \<leftarrow> ExtendedShape 4 unextended_input1_shape;
     output_shape \<leftarrow> ExtendedShape 4 unextended_output_shape;
     depth \<leftarrow> Dims input1_shape 3;
     input_width \<leftarrow> Dims input1_shape 2;
     input_height \<leftarrow> Dims input1_shape 1;
     input_batch_size \<leftarrow> Dims input1_shape 0;
     output_width \<leftarrow> Dims output_shape 2;
     output_height \<leftarrow> Dims output_shape 1;
     output_batch_size \<leftarrow> Dims output_shape 0;
     block_shape_height \<leftarrow> rd block_shape_data 0;
     block_shape_width \<leftarrow> rd block_shape_data 1;
     padding_top \<leftarrow> rd paddings_data 0;
     padding_left \<leftarrow> rd paddings_data 2;
     for_range 0 output_batch_size (\<lambda>out_b. for_range 0 output_height (\<lambda>out_h.
       for_range 0 output_width (\<lambda>out_w output_data. do {
         let input_batch = cmod out_b input_batch_size;
         let shift_w = cmod (cdiv out_b input_batch_size) block_shape_width;
         let shift_h = cdiv (cdiv out_b input_batch_size) block_shape_width;
         out \<leftarrow> Offset output_shape out_b out_h out_w 0;
         if out_h * block_shape_height + shift_h < padding_top \<or>
            out_h * block_shape_height + shift_h \<ge> padding_top + input_height \<or>
            out_w * block_shape_width + shift_w < padding_left \<or>
            out_w * block_shape_width + shift_w \<ge> padding_left + input_width
         then memset_at output_data out pad depth
         else do {
           in0 \<leftarrow> Offset input1_shape input_batch
                    ((out_h * block_shape_height + shift_h) - padding_top)
                    ((out_w * block_shape_width + shift_w) - padding_left) 0;
           memcpy_at output_data out input1_data in0 depth } }))) output_data }"

definition BatchToSpaceND ::
    "shape \<Rightarrow> 'a list \<Rightarrow> int list \<Rightarrow> int list \<Rightarrow> shape \<Rightarrow> 'a list \<Rightarrow> 'a list option" where
  "BatchToSpaceND unextended_input1_shape input1_data block_shape_data crops_data
      unextended_output_shape output_data = do {
     _ \<leftarrow> check (length unextended_input1_shape \<le> 4);
     _ \<leftarrow> check (length unextended_output_shape \<le> 4);
     input1_shape \<leftarrow> ExtendedShape 4 unextended_input1_shape;
     output_shape \<leftarrow> ExtendedShape 4 unextended_output_shape;
     output_width \<leftarrow> Dims output_shape 2;
     output_height \<leftarrow> Dims output_shape 1;
     output_batch_size \<leftarrow> Dims output_shape 0;
     depth \<leftarrow> Dims input1_shape 3;
     input_width \<leftarrow> Dims input1_shape 2;
     input_height \<leftarrow> Dims input1_shape 1;
     input_batch_size \<leftarrow> Dims input1_shape 0;
     block_shape_width \<leftarrow> rd block_shape_data 1;
     block_shape_height \<leftarrow> rd block_shape_data 0;
     crops_top \<leftarrow> rd crops_data 0;
     crops_left \<leftarrow> rd crops_data 2;
     for_range 0 input_batch_size (\<lambda>in_batch. for_range 0 input_height (\<lambda>in_h output_data.
       let out_batch = cmod in_batch output_batch_size;
           spatial_offset = cdiv in_batch output_batch_size;
           out_h = in_h * block_shape_height + cdiv spatial_offset block_shape_width - crops_top
       in if out_h < 0 \<or> out_h \<ge> output_height then Some output_data
       else for_range 0 input_width (\<lambda>in_w output_data.
         let out_w = in_w * block_shape_width + cmod spatial_offset block_shape_width - crops_left
         in if out_w < 0 \<or> out_w \<ge> output_width then Some output_data
         else do {
           out \<leftarrow> Offset output_shape out_batch out_h out_w 0;
           in0 \<leftarrow> Offset input1_shape in_batch in_h in_w 0;
           memcpy_at output_data out input1_data in0 depth }) output_data)) output_data }"

section \<open>Depth and space\<close>

text \<open>The cell a pixel goes to, \<open>k\<close> the block size and \<open>D\<close> the depth of the picture.\<close>

definition blk :: "int \<Rightarrow> int \<Rightarrow> int \<times> int \<times> int \<times> int \<Rightarrow> int \<times> int \<times> int \<times> int" where
  "blk k D = (\<lambda>(b, h, w, d). (b, h div k, w div k, d + (h mod k * k + w mod k) * D))"

lemma blk_in:
  assumes "0 < k" and x: "x \<in> set (idx4 B (H * k) (W * k) D)"
  shows "blk k D x \<in> set (idx4 B H W (D * k * k))"
proof -
  obtain b h w d where [simp]: "x = (b, h, w, d)" using prod_cases4 by blast
  have h: "0 \<le> h" "h < H * k" and w: "0 \<le> w" "w < W * k" and d: "0 \<le> d" "d < D" and b: "0 \<le> b" "b < B" using x by auto
  note hd = div_less_dim [OF h(2) assms(1) h(1)] and wd = div_less_dim [OF w(2) assms(1) w(1)]
  have "0 \<le> h mod k * k + w mod k \<and> h mod k * k + w mod k < k * k" using hd wd by (intro radix_range) auto
  then have "0 \<le> (h mod k * k + w mod k) * D + d \<and> (h mod k * k + w mod k) * D + d < k * k * D"
    using d by (intro radix_range) auto
  then show ?thesis using hd wd b by (simp add: blk_def add.commute ac_simps)
qed

lemma blk_inj:
  assumes "0 < k" and x: "x \<in> set (idx4 B H W D)" and y: "y \<in> set (idx4 B H W D)" and e: "blk k D x = blk k D y"
  shows "x = y"
proof -
  obtain b h w d where X: "x = (b, h, w, d)" using prod_cases4 by blast
  obtain b' h' w' d' where Y: "y = (b', h', w', d')" using prod_cases4 by blast
  have r: "0 \<le> d" "d < D" "0 \<le> d'" "d' < D" using x y X Y by auto
  have m: "0 \<le> w mod k" "w mod k < k" "0 \<le> w' mod k" "w' mod k < k" using assms(1) by auto
  have "b = b'" "h div k = h' div k" "w div k = w' div k"
    "(h mod k * k + w mod k) * D + d = (h' mod k * k + w' mod k) * D + d'"
    using e X Y by (simp_all add: blk_def ac_simps)
  moreover from this(4) have "h mod k = h' mod k" "w mod k = w' mod k" "d = d'"
    using radix_inj [OF r] radix_inj [OF m] by blast+
  ultimately show ?thesis using X Y by (metis div_mult_mod_eq)
qed

lemma SpaceToDepth_spec:
  assumes ui: "ExtendedShape 4 ui = Some [B, H * k, W * k, D]" and uo: "ExtendedShape 4 uo = Some [B, H, W, D * k * k]"
    and k: "0 < k" and li: "int (length input) = size4 B (H * k) (W * k) D"
    and lo: "int (length output) = size4 B (H * k) (W * k) D"
  shows "\<exists>out. SpaceToDepth k ui input uo output = Some out \<and> length out = length output \<and>
     (\<forall>x\<in>set (idx4 B (H * k) (W * k) D). out ! nat (off4 H W (D * k * k) (blk k D x)) = input ! nat (off4 (H * k) (W * k) D x))"
proof -
  let ?I = "idx4 B (H * k) (W * k) D" and ?g = "\<lambda>x. off4 H W (D * k * k) (blk k D x)"
    and ?v = "\<lambda>x. input ! nat (off4 (H * k) (W * k) D x)"
  let ?body = "\<lambda>(in_b, in_h, in_w, in_d) output_data. do {
         input_index \<leftarrow> Offset [B, H * k, W * k, D] in_b in_h in_w in_d;
         output_index \<leftarrow> Offset [B, H, W, D * k * k] in_b (cdiv in_h k) (cdiv in_w k)
            (in_d + (cmod in_h k * k + cmod in_w k) * D);
         v \<leftarrow> rd input input_index;
         wr output_data output_index v }"
  have sz: "size4 B H W (D * k * k) = size4 B (H * k) (W * k) D" by (simp add: size4_def ac_simps)
  have body: "?body x s = wr s (?g x) (?v x)" if x: "x \<in> set ?I" for x and s :: "'a list"
  proof -
    obtain b h w d where X: "x = (b, h, w, d)" using prod_cases4 by blast
    have bx: "(b, h div k, w div k, d + (h mod k * k + w mod k) * D) \<in> set (idx4 B H W (D * k * k))"
      using blk_in [OF k x] unfolding X blk_def by simp
    have "0 \<le> h" "0 \<le> w" using x X by auto
    moreover have "rd input (off4 (H * k) (W * k) D x) = Some (?v x)"
      using nhwc.offset_range [OF x] li by (simp add: rd_in)
    ultimately show ?thesis using x bx k unfolding X by (simp add: Offset_eq blk_def del: set_idx4)
  qed
  have "\<exists>t. foldM ?body ?I output = Some t \<and> length t = length output \<and> (\<forall>x\<in>set ?I. t ! nat (?g x) = ?v x) \<and>
      (\<forall>j<length output. int j \<notin> ?g ` set ?I \<longrightarrow> t ! j = output ! j)"
  proof (rule foldM_writes [OF body])
    show "0 \<le> ?g x \<and> ?g x < int (length output)" if "x \<in> set ?I" for x
      using nhwc.offset_range [OF blk_in [OF k that]] lo sz by simp
    show "inj_on ?g (set ?I)" using nhwc.offset_inj blk_in [OF k] blk_inj [OF k] unfolding inj_on_def by metis
  qed (simp_all add: distinct_idx4)
  then show ?thesis using ExtendedShape4_len [OF ui] ExtendedShape4_len [OF uo] ui uo
    by (auto simp: SpaceToDepth_def mem_simps Let_def for_range4)
qed

lemma DepthToSpace_spec:
  assumes ui: "ExtendedShape 4 ui = Some [B, H, W, D * k * k]" and uo: "ExtendedShape 4 uo = Some [B, H * k, W * k, D]"
    and k: "0 < k" and li: "int (length input) = size4 B H W (D * k * k)"
    and lo: "int (length output) = size4 B (H * k) (W * k) D"
  shows "\<exists>out. DepthToSpace k ui input uo output = Some out \<and> length out = length output \<and>
     (\<forall>x\<in>set (idx4 B (H * k) (W * k) D). out ! nat (off4 (H * k) (W * k) D x) = input ! nat (off4 H W (D * k * k) (blk k D x)))"
proof -
  let ?I = "idx4 B (H * k) (W * k) D" and ?g = "off4 (H * k) (W * k) D"
    and ?v = "\<lambda>x. input ! nat (off4 H W (D * k * k) (blk k D x))"
  let ?body = "\<lambda>(out_b, out_h, out_w, out_d) output_data. do {
         input_index \<leftarrow> Offset [B, H, W, D * k * k] out_b (cdiv out_h k) (cdiv out_w k)
            (out_d + (cmod out_h k * k + cmod out_w k) * D);
         output_index \<leftarrow> Offset [B, H * k, W * k, D] out_b out_h out_w out_d;
         v \<leftarrow> rd input input_index;
         wr output_data output_index v }"
  have body: "?body x s = wr s (?g x) (?v x)" if x: "x \<in> set ?I" for x and s :: "'a list"
  proof -
    obtain b h w d where X: "x = (b, h, w, d)" using prod_cases4 by blast
    have bx: "(b, h div k, w div k, d + (h mod k * k + w mod k) * D) \<in> set (idx4 B H W (D * k * k))"
      using blk_in [OF k x] unfolding X blk_def by simp
    have "0 \<le> h" "0 \<le> w" using x X by auto
    moreover have "rd input (off4 H W (D * k * k) (blk k D x)) = Some (?v x)"
      using nhwc.offset_range [OF blk_in [OF k x]] li by (simp add: rd_in)
    ultimately show ?thesis using x bx k unfolding X by (simp add: Offset_eq blk_def del: set_idx4)
  qed
  have "\<exists>t. foldM ?body ?I output = Some t \<and> length t = length output \<and> (\<forall>x\<in>set ?I. t ! nat (?g x) = ?v x)"
    by (rule nhwc.fill_elements [OF lo body])
  then show ?thesis using ExtendedShape4_len [OF ui] ExtendedShape4_len [OF uo] ui uo
    by (auto simp: DepthToSpace_def mem_simps Let_def for_range4)
qed

text \<open>
  C25: \<open>DepthToSpace\<close> undoes \<open>SpaceToDepth\<close>.  For a picture of any rank up to four whose height and
  width are multiples of the block size, both kernels run without a failing DCHECK and without
  leaving their buffers, and the second gives back the picture, whatever the output buffers held.
\<close>

theorem depth_space_roundtrip:
  assumes "ExtendedShape 4 ui = Some [B, H * k, W * k, D]" and "ExtendedShape 4 uo = Some [B, H, W, D * k * k]"
    and "0 < k" "0 \<le> B" "0 \<le> H" "0 \<le> W" "0 \<le> D"
    and "int (length input) = B * (H * k) * (W * k) * D"
    and "length output = length input" "length back = length input"
  shows "\<exists>mid. SpaceToDepth k ui input uo output = Some mid \<and> DepthToSpace k uo mid ui back = Some input"
proof -
  have sz: "int (length input) = size4 B (H * k) (W * k) D" "size4 B (H * k) (W * k) D = size4 B H W (D * k * k)"
    using assms(8) by (simp_all add: size4_def ac_simps)
  have lo: "int (length output) = size4 B (H * k) (W * k) D" "int (length back) = size4 B (H * k) (W * k) D"
    using assms(9,10) sz(1) by simp_all
  obtain mid where mid: "SpaceToDepth k ui input uo output = Some mid" "length mid = length output"
    "\<forall>x\<in>set (idx4 B (H * k) (W * k) D). mid ! nat (off4 H W (D * k * k) (blk k D x)) = input ! nat (off4 (H * k) (W * k) D x)"
    using SpaceToDepth_spec [OF assms(1,2,3) sz(1) lo(1)] by blast
  have lm: "int (length mid) = size4 B H W (D * k * k)" using mid(2) assms(9) sz by simp
  obtain out where out: "DepthToSpace k uo mid ui back = Some out" "length out = length back"
    "\<forall>x\<in>set (idx4 B (H * k) (W * k) D). out ! nat (off4 (H * k) (W * k) D x) = mid ! nat (off4 H W (D * k * k) (blk k D x))"
    using DepthToSpace_spec [OF assms(2,1,3) lm lo(2)] by blast
  have "out = input"
  proof (rule nhwc.buffer_eqI)
    show "int (length (idx4 B (H * k) (W * k) D)) = size4 B (H * k) (W * k) D"
      using assms(3-7) by (intro length_idx4) auto
  qed (use mid(3) out(2,3) assms(10) sz in auto)
  with mid out show ?thesis by blast
qed

lemma depth_space_roundtrip_witness:
  "\<exists>mid. SpaceToDepth 2 [2, 2, 1] [1 :: int, 2, 3, 4] [1, 1, 4] [0, 0, 0, 0] = Some mid \<and>
     DepthToSpace 2 [1, 1, 4] mid [2, 2, 1] [0, 0, 0, 0] = Some [1, 2, 3, 4]"
  using depth_space_roundtrip [of "[2, 2, 1]" 1 1 2 1 1 "[1, 1, 4]" "[1 :: int, 2, 3, 4]" "[0, 0, 0, 0]" "[0, 0, 0, 0]"]
  by (simp add: ExtendedShape_def)

section \<open>Batch and space\<close>

text \<open>
  The pixel of the picture that cell \<open>(b, h, w)\<close> of the batched tensor holds, before it is checked
  against the borders.
\<close>

definition pix :: "int \<Rightarrow> int \<Rightarrow> int \<Rightarrow> int \<Rightarrow> int \<Rightarrow> int \<times> int \<times> int \<Rightarrow> int \<times> int \<times> int" where
  "pix B bh bw pt pl = (\<lambda>(b, h, w). (b mod B, h * bh + b div B div bw - pt, w * bw + b div B mod bw - pl))"

lemma blocks_comm: "(bh * bw) * B = B * bh * (bw :: int)"
  by (subst mult.commute) (simp only: mult.assoc)

lemma shift_range:
  fixes b B bh bw :: int
  assumes "0 < B" "0 < bw" "0 \<le> b" "b < B * bh * bw"
  shows "0 \<le> b div B div bw \<and> b div B div bw < bh \<and> 0 \<le> b div B mod bw \<and> b div B mod bw < bw \<and> 0 \<le> b mod B \<and> b mod B < B"
proof -
  have "b < (bh * bw) * B" using assms(4) blocks_comm [of bh bw B] by linarith
  then have "0 \<le> b div B" "b div B < bh * bw" using div_less_dim [of b "bh * bw" B] assms by auto
  then show ?thesis using div_less_dim [of "b div B" bh bw] assms by auto
qed

lemma pix_inj:
  assumes "0 < B" "0 < bh" "0 < bw" and x: "x \<in> set (idx3 (B * bh * bw) H W)" and y: "y \<in> set (idx3 (B * bh * bw) H W)"
    and e: "pix B bh bw pt pl x = pix B bh bw pt pl y"
  shows "x = y"
proof -
  obtain b h w where X: "x = (b, h, w)" using prod_cases3 by blast
  obtain b' h' w' where Y: "y = (b', h', w')" using prod_cases3 by blast
  have r: "0 \<le> b" "b < B * bh * bw" "0 \<le> b'" "b' < B * bh * bw" using x y X Y by auto
  note s = shift_range [OF assms(1,3) r(1,2)] and s' = shift_range [OF assms(1,3) r(3,4)]
  have e': "b mod B = b' mod B" "h * bh + b div B div bw = h' * bh + b' div B div bw"
    "w * bw + b div B mod bw = w' * bw + b' div B mod bw" using e X Y by (simp_all add: pix_def)
  then have "h = h'" "b div B div bw = b' div B div bw" "w = w'" "b div B mod bw = b' div B mod bw"
    using radix_inj [of "b div B div bw" bh "b' div B div bw" h h'] radix_inj [of "b div B mod bw" bw "b' div B mod bw" w w'] s s'
    by auto
  with e'(1) show ?thesis using X Y by (metis div_mult_mod_eq)
qed

lemma pix_onto:
  assumes "0 < B" "0 < bh" "0 < bw" "0 \<le> pt" "pt + H \<le> H' * bh" "0 \<le> pl" "pl + W \<le> W' * bw"
    and y: "y \<in> set (idx3 B H W)"
  obtains x where "x \<in> set (idx3 (B * bh * bw) H' W')" "pix B bh bw pt pl x = y"
proof -
  obtain b r c where Y: "y = (b, r, c)" using prod_cases3 by blast
  have b: "0 \<le> b" "b < B" and r: "0 \<le> r + pt" "r + pt < H' * bh" and c: "0 \<le> c + pl" "c + pl < W' * bw"
    using y Y assms by auto
  let ?sh = "(r + pt) mod bh" and ?sw = "(c + pl) mod bw"
  let ?b = "(?sh * bw + ?sw) * B + b"
  note hd = div_less_dim [OF r(2) assms(2) r(1)] and wd = div_less_dim [OF c(2) assms(3) c(1)]
  have "0 \<le> ?sh * bw + ?sw \<and> ?sh * bw + ?sw < bh * bw" using hd wd by (intro radix_range) auto
  then have "0 \<le> ?b \<and> ?b < bh * bw * B" using b by (intro radix_range) auto
  then have "0 \<le> ?b \<and> ?b < B * bh * bw" using blocks_comm [of bh bw B] by linarith
  then have "(?b, (r + pt) div bh, (c + pl) div bw) \<in> set (idx3 (B * bh * bw) H' W')" using hd wd by simp
  moreover have q: "?b div B = ?sh * bw + ?sw" "?b mod B = b" using b by (simp_all add: add.commute [of "_ * B"])
  have "(?sh * bw + ?sw) div bw = ?sh" "(?sh * bw + ?sw) mod bw = ?sw" using wd by (simp_all add: add.commute [of "_ * bw"])
  then have "pix B bh bw pt pl (?b, (r + pt) div bh, (c + pl) div bw) = y" unfolding pix_def prod.case q Y by simp
  ultimately show thesis using that by blast
qed

lemma SpaceToBatchND_spec:
  assumes ui: "ExtendedShape 4 ui = Some [B, H, W, D]" and uo: "ExtendedShape 4 uo = Some [B * bh * bw, H', W', D]"
    and pos: "0 < B" "0 < bh" "0 < bw" "0 < D"
    and li: "int (length input) = B * H * W * D" and lo: "int (length output) = B * bh * bw * H' * W' * D"
  shows "\<exists>out. SpaceToBatchND pad ui input [bh, bw] [pt, pb, pl, pr] uo output = Some out \<and> length out = length output \<and>
     (\<forall>x\<in>set (idx3 (B * bh * bw) H' W'). \<forall>k. 0 \<le> k \<and> k < D \<longrightarrow> out ! nat (off3 H' W' x * D + k) =
        (if pix B bh bw pt pl x \<in> set (idx3 B H W) then input ! nat (off3 H W (pix B bh bw pt pl x) * D + k) else pad))"
proof -
  let ?I = "idx3 (B * bh * bw) H' W'"
  let ?v = "\<lambda>x k. if pix B bh bw pt pl x \<in> set (idx3 B H W) then input ! nat (off3 H W (pix B bh bw pt pl x) * D + k) else pad"
  let ?body = "\<lambda>(out_b, out_h, out_w) output_data. do {
         out \<leftarrow> Offset [B * bh * bw, H', W', D] out_b out_h out_w 0;
         if out_h * bh + cdiv (cdiv out_b B) bw < pt \<or> out_h * bh + cdiv (cdiv out_b B) bw \<ge> pt + H \<or>
            out_w * bw + cmod (cdiv out_b B) bw < pl \<or> out_w * bw + cmod (cdiv out_b B) bw \<ge> pl + W
         then memset_at output_data out pad D
         else do {
           in0 \<leftarrow> Offset [B, H, W, D] (cmod out_b B) ((out_h * bh + cdiv (cdiv out_b B) bw) - pt)
                    ((out_w * bw + cmod (cdiv out_b B) bw) - pl) 0;
           memcpy_at output_data out input in0 D } }"
  have body: "\<exists>s'. ?body x s = Some s' \<and> block_write (off3 H' W' x * D) D (?v x) s s'"
    if x: "x \<in> set ?I" and ls: "int (length s) = B * bh * bw * H' * W' * D" for x and s :: "'a list"
  proof -
    obtain b h w where X: "x = (b, h, w)" using prod_cases3 by blast
    have r: "0 \<le> b" "b < B * bh * bw" using x X by auto
    note sr = shift_range [OF pos(1,3) r]
    have bd: "0 \<le> b div B" using r pos by (simp add: pos_imp_zdiv_nonneg_iff)
    have "off3 H' W' x + 1 \<le> B * bh * bw * H' * W'" "0 \<le> off3 H' W' x" using nhw.offset_range [OF x] by linarith+
    then have "(off3 H' W' x + 1) * D \<le> B * bh * bw * H' * W' * D" "0 \<le> off3 H' W' x * D"
      using pos by (simp_all add: mult_right_mono)
    then have o: "0 \<le> off3 H' W' x * D" "off3 H' W' x * D + D \<le> int (length s)" using ls by (simp_all add: distrib_right)
    have D: "0 \<le> D" using pos by simp
    let ?p = "(b mod B, h * bh + b div B div bw - pt, w * bw + b div B mod bw - pl)"
    have px: "pix B bh bw pt pl x = ?p" using X by (simp add: pix_def)
    have iff: "\<not> (h * bh + b div B div bw < pt \<or> h * bh + b div B div bw \<ge> pt + H \<or> w * bw + b div B mod bw < pl \<or>
        w * bw + b div B mod bw \<ge> pl + W) \<longleftrightarrow> ?p \<in> set (idx3 B H W)"
      using sr by auto
    show ?thesis
    proof (cases "?p \<in> set (idx3 B H W)")
      case True
      have "off3 H W ?p + 1 \<le> B * H * W" "0 \<le> off3 H W ?p" using nhw.offset_range [OF True] by linarith+
      then have "(off3 H W ?p + 1) * D \<le> B * H * W * D" "0 \<le> off3 H W ?p * D" using D by (simp_all add: mult_right_mono)
      then have "0 \<le> off3 H W ?p * D" "off3 H W ?p * D + D \<le> int (length input)" using li by (simp_all add: distrib_right)
      from block_write_memcpy [OF D o this] show ?thesis
        using True iff x bd r pos unfolding px unfolding X by (simp add: Offset_row del: set_idx3)
    next
      case False
      from block_write_memset [OF D o] show ?thesis
        using False iff x bd r pos unfolding px unfolding X by (simp add: Offset_row del: set_idx3)
    qed
  qed
  have "\<exists>t. foldM ?body ?I output = Some t \<and> length t = length output \<and>
     (\<forall>x\<in>set ?I. \<forall>k. 0 \<le> k \<and> k < D \<longrightarrow> t ! nat (off3 H' W' x * D + k) = ?v x k)"
    by (rule nhw.fill_cells [OF _ lo body]) (use pos in auto)
  then show ?thesis using ExtendedShape4_len [OF ui] ExtendedShape4_len [OF uo] ui uo
    by (auto simp: SpaceToBatchND_def mem_simps Let_def for_range3 rd_def)
qed

lemma BatchToSpaceND_spec:
  assumes ui: "ExtendedShape 4 ui = Some [B * bh * bw, H', W', D]" and uo: "ExtendedShape 4 uo = Some [B, H, W, D]"
    and pos: "0 < B" "0 < bh" "0 < bw" "0 < D"
    and li: "int (length input) = B * bh * bw * H' * W' * D" and lo: "int (length output) = B * H * W * D"
  shows "\<exists>out. BatchToSpaceND ui input [bh, bw] [pt, pb, pl, pr] uo output = Some out \<and> length out = length output \<and>
     (\<forall>x\<in>set (idx3 (B * bh * bw) H' W'). pix B bh bw pt pl x \<in> set (idx3 B H W) \<longrightarrow>
        (\<forall>k. 0 \<le> k \<and> k < D \<longrightarrow> out ! nat (off3 H W (pix B bh bw pt pl x) * D + k) = input ! nat (off3 H' W' x * D + k)))"
proof -
  let ?I = "idx3 (B * bh * bw) H' W'" and ?d = "\<lambda>x. off3 H W (pix B bh bw pt pl x) * D"
  let ?in = "\<lambda>x. pix B bh bw pt pl x \<in> set (idx3 B H W)"
  let ?v = "\<lambda>x k. input ! nat (off3 H' W' x * D + k)"
  let ?copy = "\<lambda>(in_batch, in_h, in_w) output_data. do {
       out \<leftarrow> Offset [B, H, W, D] (cmod in_batch B) (in_h * bh + cdiv (cdiv in_batch B) bw - pt)
          (in_w * bw + cmod (cdiv in_batch B) bw - pl) 0;
       in0 \<leftarrow> Offset [B * bh * bw, H', W', D] in_batch in_h in_w 0;
       memcpy_at output_data out input in0 D }"
  let ?body = "\<lambda>(in_batch, in_h, in_w) output_data.
       if in_h * bh + cdiv (cdiv in_batch B) bw - pt < 0 \<or> in_h * bh + cdiv (cdiv in_batch B) bw - pt \<ge> H then Some output_data
       else if in_w * bw + cmod (cdiv in_batch B) bw - pl < 0 \<or> in_w * bw + cmod (cdiv in_batch B) bw - pl \<ge> W then Some output_data
       else ?copy (in_batch, in_h, in_w) output_data"
  have guard: "?body x s = (if ?in x then ?copy x s else Some s)" if x: "x \<in> set ?I" for x and s :: "'a list"
  proof -
    obtain b h w where X: "x = (b, h, w)" using prod_cases3 by blast
    have r: "0 \<le> b" "b < B * bh * bw" using x X by auto
    have bd: "0 \<le> b div B" using r pos by (simp add: pos_imp_zdiv_nonneg_iff)
    have c: "cdiv b B = b div B" "cdiv (b div B) bw = b div B div bw" "cmod (b div B) bw = b div B mod bw"
      using r bd pos by simp_all
    show ?thesis using shift_range [OF pos(1,3) r] unfolding X prod.case c pix_def by auto
  qed
  have copy: "\<exists>s'. ?copy x s = Some s' \<and> block_write (?d x) D (?v x) s s'"
    if x: "x \<in> set (filter ?in ?I)" and ls: "length s = length output" for x and s :: "'a list"
  proof -
    obtain b h w where X: "x = (b, h, w)" using prod_cases3 by blast
    have xI: "x \<in> set ?I" and xin: "?in x" using x by simp_all
    have r: "0 \<le> b" "b < B * bh * bw" using xI X by auto
    have bd: "0 \<le> b div B" using r pos by (simp add: pos_imp_zdiv_nonneg_iff)
    have D: "0 \<le> D" using pos by simp
    let ?p = "(b mod B, h * bh + b div B div bw - pt, w * bw + b div B mod bw - pl)"
    have px: "pix B bh bw pt pl x = ?p" using X by (simp add: pix_def)
    have pin: "?p \<in> set (idx3 B H W)" using xin px by metis
    have "(off3 H W ?p + 1) * D \<le> B * H * W * D" "0 \<le> off3 H W ?p * D"
      using nhw.offset_range [OF pin] D by (auto intro!: mult_right_mono)
    then have o: "0 \<le> off3 H W ?p * D" "off3 H W ?p * D + D \<le> int (length s)" using lo ls by (simp_all add: distrib_right)
    have "(off3 H' W' x + 1) * D \<le> B * bh * bw * H' * W' * D" "0 \<le> off3 H' W' x * D"
      using nhw.offset_range [OF xI] D by (auto intro!: mult_right_mono)
    then have "0 \<le> off3 H' W' x * D" "off3 H' W' x * D + D \<le> int (length input)" using li by (simp_all add: distrib_right)
    from block_write_memcpy [OF D o this] show ?thesis
      using pin xI bd r pos unfolding px unfolding X by (simp add: Offset_row del: set_idx3)
  qed
  have disj: "disjoint_blocks ?d (\<lambda>_. D) (filter ?in ?I)"
    unfolding disjoint_blocks_def
  proof (intro ballI impI)
    fix x y
    assume x: "x \<in> set (filter ?in ?I)" and y: "y \<in> set (filter ?in ?I)" and ne: "x \<noteq> y"
    then have "x \<in> set ?I" "y \<in> set ?I" by simp_all
    then have "pix B bh bw pt pl x \<noteq> pix B bh bw pt pl y" using pix_inj [OF pos(1,2,3), of x H' W' y pt pl] ne by blast
    then show "?d x + D \<le> ?d y \<or> ?d y + D \<le> ?d x"
      using nhw.disjoint_cells [of D H W B] x y pos unfolding disjoint_blocks_def by auto
  qed
  have "\<exists>t. foldM ?copy (filter ?in ?I) output = Some t \<and> length t = length output \<and>
     (\<forall>x\<in>set (filter ?in ?I). \<forall>k. 0 \<le> k \<and> k < D \<longrightarrow> t ! nat (?d x + k) = ?v x k) \<and>
     (\<forall>j<length output. (\<forall>x\<in>set (filter ?in ?I). \<not> (?d x \<le> int j \<and> int j < ?d x + D)) \<longrightarrow> t ! j = output ! j)"
  proof (rule foldM_blocks [where c = "\<lambda>_. D", OF copy])
    fix x
    assume "x \<in> set (filter ?in ?I)"
    then have "?in x" by simp
    then have "(off3 H W (pix B bh bw pt pl x) + 1) * D \<le> B * H * W * D" "0 \<le> ?d x"
      using nhw.offset_range [of "pix B bh bw pt pl x" B H W] pos by (auto intro!: mult_right_mono)
    then show "0 \<le> ?d x \<and> ?d x + D \<le> int (length output)" using lo by (simp add: distrib_right)
  qed (use disj distinct_idx3 in auto)
  moreover have "foldM ?body ?I output = foldM ?copy (filter ?in ?I) output"
    unfolding foldM_filter [symmetric] by (rule foldM_cong [OF refl refl guard])
  moreover have "BatchToSpaceND ui input [bh, bw] [pt, pb, pl, pr] uo output = foldM ?body ?I output"
    using ExtendedShape4_len [OF ui] ExtendedShape4_len [OF uo] ui uo
    by (simp add: BatchToSpaceND_def mem_simps Let_def for_range3 for_range_if rd_def cong: if_cong)
  ultimately show ?thesis by (auto simp del: set_idx3)
qed

text \<open>
  \<open>BatchToSpaceND\<close> with the paddings as crops undoes \<open>SpaceToBatchND\<close>.  If the padded picture fits
  the blocks, both kernels run without a failing DCHECK and inside their buffers; every pixel comes
  back, and no value of the padding or of the old buffers does.
\<close>

theorem space_batch_roundtrip:
  assumes "ExtendedShape 4 ui = Some [B, H, W, D]" and "ExtendedShape 4 uo = Some [B * bh * bw, H', W', D]"
    and "0 < B" "0 < bh" "0 < bw" "0 < D" and "0 \<le> H" "0 \<le> W"
    and "0 \<le> pt" "pt + H \<le> H' * bh" "0 \<le> pl" "pl + W \<le> W' * bw"
    and "int (length input) = B * H * W * D" and "length back = length input"
    and "int (length output) = B * bh * bw * H' * W' * D"
  shows "\<exists>mid. SpaceToBatchND pad ui input [bh, bw] [pt, pb, pl, pr] uo output = Some mid \<and>
     BatchToSpaceND uo mid [bh, bw] [pt, pb, pl, pr] ui back = Some input"
proof -
  obtain mid where mid: "SpaceToBatchND pad ui input [bh, bw] [pt, pb, pl, pr] uo output = Some mid" "length mid = length output"
    "\<forall>x\<in>set (idx3 (B * bh * bw) H' W'). \<forall>k. 0 \<le> k \<and> k < D \<longrightarrow> mid ! nat (off3 H' W' x * D + k) =
        (if pix B bh bw pt pl x \<in> set (idx3 B H W) then input ! nat (off3 H W (pix B bh bw pt pl x) * D + k) else pad)"
    using SpaceToBatchND_spec [OF assms(1-6,13,15)] by blast
  have lm: "int (length mid) = B * bh * bw * H' * W' * D" "int (length back) = B * H * W * D"
    using mid(2) assms(13-15) by simp_all
  obtain out where out: "BatchToSpaceND uo mid [bh, bw] [pt, pb, pl, pr] ui back = Some out" "length out = length back"
    "\<forall>x\<in>set (idx3 (B * bh * bw) H' W'). pix B bh bw pt pl x \<in> set (idx3 B H W) \<longrightarrow>
        (\<forall>k. 0 \<le> k \<and> k < D \<longrightarrow> out ! nat (off3 H W (pix B bh bw pt pl x) * D + k) = mid ! nat (off3 H' W' x * D + k))"
    using BatchToSpaceND_spec [OF assms(2,1,3-6) lm] by blast
  have "out = input"
  proof (rule nhw.cells_eqI [of B H W D])
    show "int (length (idx3 B H W)) = B * H * W" using assms by (intro length_idx3) auto
    fix y k
    assume y: "y \<in> set (idx3 B H W)" and k: "0 \<le> k" "k < D"
    obtain x where x: "x \<in> set (idx3 (B * bh * bw) H' W')" "pix B bh bw pt pl x = y"
      using pix_onto [OF assms(3-5,9-12) y] by blast
    have "out ! nat (off3 H W y * D + k) = mid ! nat (off3 H' W' x * D + k)" using out(3) x y k by blast
    also have "\<dots> = input ! nat (off3 H W y * D + k)" using mid(3) x y k by simp
    finally show "out ! nat (off3 H W y * D + k) = input ! nat (off3 H W y * D + k)" .
  qed (use assms out(2) in simp_all)
  with mid out show ?thesis by blast
qed

lemma space_batch_roundtrip_witness:
  "\<exists>mid. SpaceToBatchND 9 [1, 1, 3, 1] [5 :: int, 6, 7] [1, 2] [0, 0, 1, 0] [2, 1, 2, 1] [0, 0, 0, 0] = Some mid \<and>
     BatchToSpaceND [2, 1, 2, 1] mid [1, 2] [0, 0, 1, 0] [1, 1, 3, 1] [0, 0, 0] = Some [5, 6, 7]"
  using space_batch_roundtrip [of "[1, 1, 3, 1]" 1 1 3 1 "[2, 1, 2, 1]" 1 2 1 2 0 1 "[5 :: int, 6, 7]" "[0, 0, 0]" "[0, 0, 0, 0]" 9 0 0]
  by (simp add: ExtendedShape_def)

end
