(* ===== verification/Lite_Concat.thy ===== *)
theory Lite_Concat
  imports Lite_Shape
begin

text \<open>
  \<open>reference_ops.h\<close>: the kernels that join tensors along an axis, take them apart, and look slices up.
  A list of buffers models the arrays of pointers the kernels get; distinct entries are distinct
  buffers.  A division by zero is \<open>None\<close>.
\<close>

section \<open>The kernels\<close>

text \<open>The loops that multiply the sizes of the dimensions from \<open>lo\<close> to \<open>hi - 1\<close>.\<close>

definition dims_prod :: "shape \<Rightarrow> int \<Rightarrow> int \<Rightarrow> int option" where
  "dims_prod s lo hi = for_range lo hi (\<lambda>i n. do { d \<leftarrow> Dims s i; Some (n * d) }) 1"

text \<open>The loop over the tensors that checks their shapes and adds up their sizes along the axis.\<close>

definition axis_sizes :: "int \<Rightarrow> int \<Rightarrow> shape list \<Rightarrow> shape \<Rightarrow> int option" where
  "axis_sizes axis count shapes whole_shape =
     for_range 0 count (\<lambda>i total. do {
       shape \<leftarrow> rd shapes i;
       _ \<leftarrow> check (length shape = length whole_shape);
       _ \<leftarrow> for_range 0 (int (length whole_shape)) (\<lambda>j _.
              if j \<noteq> axis then do { _ \<leftarrow> MatchingDim shape j [(whole_shape, j)]; Some () } else Some ()) ();
       d \<leftarrow> Dims shape axis;
       Some (total + d) }) 0"

definition Concatenation ::
    "int \<Rightarrow> int \<Rightarrow> shape list \<Rightarrow> 'a list list \<Rightarrow> shape \<Rightarrow> 'a list \<Rightarrow> 'a list option" where
  "Concatenation axis inputs_count input_shapes input_data output_shape output_data = do {
     let concat_dimensions = int (length output_shape);
     _ \<leftarrow> check (axis < concat_dimensions);
     concat_size \<leftarrow> axis_sizes axis inputs_count input_shapes output_shape;
     d \<leftarrow> Dims output_shape axis;
     _ \<leftarrow> check (concat_size = d);
     outer_size \<leftarrow> dims_prod output_shape 0 axis;
     base_inner_size \<leftarrow> dims_prod output_shape (axis + 1) concat_dimensions;
     (output_data, output_ptr) \<leftarrow> for_range 0 outer_size (\<lambda>k. for_range 0 inputs_count (\<lambda>i (output_data, output_ptr). do {
         shape \<leftarrow> rd input_shapes i;
         n \<leftarrow> Dims shape axis;
         let copy_size = n * base_inner_size;
         src \<leftarrow> rd input_data i;
         output_data \<leftarrow> memcpy_at output_data output_ptr src (k * copy_size) copy_size;
         Some (output_data, output_ptr + copy_size) })) (output_data, 0);
     Some output_data }"

definition Split ::
    "int \<Rightarrow> int \<Rightarrow> shape \<Rightarrow> 'a list \<Rightarrow> shape list \<Rightarrow> 'a list list \<Rightarrow> 'a list list option" where
  "Split params_axis outputs_count input_shape input_data output_shapes output_data = do {
     let split_dimensions = int (length input_shape);
     let axis = (if params_axis < 0 then params_axis + split_dimensions else params_axis);
     _ \<leftarrow> check (axis < split_dimensions);
     split_size \<leftarrow> axis_sizes axis outputs_count output_shapes input_shape;
     d \<leftarrow> Dims input_shape axis;
     _ \<leftarrow> check (split_size = d);
     outer_size \<leftarrow> dims_prod input_shape 0 axis;
     base_inner_size \<leftarrow> dims_prod input_shape (axis + 1) split_dimensions;
     (output_data, input_ptr) \<leftarrow> for_range 0 outer_size (\<lambda>k. for_range 0 outputs_count (\<lambda>i (output_data, input_ptr). do {
         shape \<leftarrow> rd output_shapes i;
         n \<leftarrow> Dims shape axis;
         let copy_size = n * base_inner_size;
         dst \<leftarrow> rd output_data i;
         dst \<leftarrow> memcpy_at dst (k * copy_size) input_data input_ptr copy_size;
         output_data \<leftarrow> wr output_data i dst;
         Some (output_data, input_ptr + copy_size) })) (output_data, 0);
     Some output_data }"

definition Pack ::
    "int \<Rightarrow> int \<Rightarrow> shape list \<Rightarrow> 'a list list \<Rightarrow> shape \<Rightarrow> 'a list \<Rightarrow> 'a list option" where
  "Pack axis inputs_count input_shapes input_data output_shape output_data = do {
     let dimensions = int (length output_shape);
     outer_size \<leftarrow> dims_prod output_shape 0 axis;
     copy_size \<leftarrow> dims_prod output_shape (axis + 1) dimensions;
     shape0 \<leftarrow> rd input_shapes 0;
     _ \<leftarrow> check (FlatSize shape0 = copy_size * outer_size);
     for_range 0 inputs_count (\<lambda>i. for_range 0 outer_size (\<lambda>k output_data. do {
       input_ptr \<leftarrow> rd input_data i;
       let loc = k * inputs_count * copy_size + i * copy_size;
       memcpy_at output_data loc input_ptr (copy_size * k) copy_size })) output_data }"

definition Unpack ::
    "int \<Rightarrow> int \<Rightarrow> shape \<Rightarrow> 'a list \<Rightarrow> shape \<Rightarrow> 'a list list \<Rightarrow> 'a list list option" where
  "Unpack params_axis outputs_count input_shape input_data output_shape output_datas = do {
     let dimensions = int (length input_shape);
     let axis = (if params_axis < 0 then params_axis + dimensions else params_axis);
     _ \<leftarrow> check (axis \<ge> 0);
     _ \<leftarrow> check (axis < dimensions);
     outer_size \<leftarrow> dims_prod input_shape 0 axis;
     copy_size \<leftarrow> dims_prod input_shape (axis + 1) dimensions;
     _ \<leftarrow> check (FlatSize output_shape = copy_size * outer_size);
     for_range 0 outputs_count (\<lambda>i. for_range 0 outer_size (\<lambda>k output_datas. do {
       output_ptr \<leftarrow> rd output_datas i;
       let loc = k * outputs_count * copy_size + i * copy_size;
       out \<leftarrow> memcpy_at output_ptr (copy_size * k) input_data loc copy_size;
       wr output_datas i out })) output_datas }"

definition Gather ::
    "int \<Rightarrow> shape \<Rightarrow> 'a list \<Rightarrow> shape \<Rightarrow> int list \<Rightarrow> shape \<Rightarrow> 'a list \<Rightarrow> 'a list option" where
  "Gather params_axis input_shape input_data coords_shape coords_data output_shape output_data = do {
     let axis = (if params_axis < 0 then params_axis + int (length input_shape) else params_axis);
     _ \<leftarrow> check (axis \<ge> 0);
     _ \<leftarrow> check (axis < int (length input_shape));
     axis_size \<leftarrow> Dims input_shape axis;
     let coords_count = FlatSize coords_shape;
     outer_size \<leftarrow> dims_prod input_shape 0 axis;
     inner_size \<leftarrow> dims_prod input_shape (axis + 1) (int (length input_shape));
     for_range 0 outer_size (\<lambda>outer. for_range 0 coords_count (\<lambda>i output_data. do {
       c \<leftarrow> rd coords_data i;
       _ \<leftarrow> check (c \<ge> 0);
       _ \<leftarrow> check (c < axis_size);
       memcpy_at output_data ((outer * coords_count + i) * inner_size) input_data
         ((outer * axis_size + c) * inner_size) inner_size })) output_data }"

definition GatherNd ::
    "shape \<Rightarrow> 'a list \<Rightarrow> shape \<Rightarrow> int list \<Rightarrow> shape \<Rightarrow> 'a list \<Rightarrow> 'a list option" where
  "GatherNd params_shape params_data indices_shape indices_data output_shape output_data = do {
     let indices_dims = int (length indices_shape);
     indices_nd \<leftarrow> Dims indices_shape (indices_dims - 1);
     let params_dims = int (length params_shape);
     n_slices \<leftarrow> dims_prod indices_shape 0 (indices_dims - 1);
     slice_size \<leftarrow> dims_prod params_shape indices_nd params_dims;
     (dims_to_count, remain_flat_size) \<leftarrow> for_range 0 indices_nd (\<lambda>i (dims_to_count, remain_flat_size). do {
         d \<leftarrow> Dims params_shape i;
         _ \<leftarrow> check (d \<noteq> 0);
         dims_to_count \<leftarrow> wr dims_to_count i (cdiv remain_flat_size d);
         r \<leftarrow> rd dims_to_count i;
         Some (dims_to_count, r) }) (replicate (nat indices_nd) 0, FlatSize params_shape);
     for_range 0 n_slices (\<lambda>i output_data. do {
       from_pos \<leftarrow> for_range 0 indices_nd (\<lambda>j from_pos. do {
           x \<leftarrow> rd indices_data (i * indices_nd + j);
           c \<leftarrow> rd dims_to_count j;
           Some (from_pos + x * c) }) 0;
       memcpy_at output_data (i * slice_size) params_data from_pos slice_size }) output_data }"

section \<open>Outer and inner sizes\<close>

lemma dims_prod_eq:
  assumes "0 \<le> lo" "lo \<le> hi" "hi \<le> int (length s)"
  shows "dims_prod s lo hi = Some (prod_list (take (nat (hi - lo)) (drop (nat lo) s)))"
proof -
  have "\<exists>t. for_range lo hi (\<lambda>i n. do { d \<leftarrow> Dims s i; Some (n * d) }) 1 = Some t \<and>
      t = prod_list (take (nat (hi - lo)) (drop (nat lo) s))"
  proof (rule for_range_rule [OF assms(2)])
    fix i t
    assume i: "lo \<le> i" "i < hi" and t: "t = prod_list (take (nat (i - lo)) (drop (nat lo) s))"
    have "nat (i - lo) < length (drop (nat lo) s)" using i assms by simp
    moreover have "nat (i + 1 - lo) = Suc (nat (i - lo))" "nat lo + nat (i - lo) = nat i" using i assms by linarith+
    ultimately have "take (nat (i + 1 - lo)) (drop (nat lo) s) = take (nat (i - lo)) (drop (nat lo) s) @ [s ! nat i]"
      by (simp add: take_Suc_conv_app_nth)
    then show "\<exists>t'. do { d \<leftarrow> Dims s i; Some (t * d) } = Some t' \<and> t' = prod_list (take (nat (i + 1 - lo)) (drop (nat lo) s))"
      using i t assms by (simp add: Dims_def rd_def)
  qed simp
  then show ?thesis by (simp add: dims_prod_def)
qed

lemma dims_prod_around:
  "dims_prod (pre @ n # post) 0 (int (length pre)) = Some (prod_list pre)"
  "dims_prod (pre @ n # post) (int (length pre) + 1) (int (length (pre @ n # post))) = Some (prod_list post)"
  by (simp_all add: dims_prod_eq nat_add_distrib)

lemma Dims_mid: "Dims (pre @ n # post) (int (length pre)) = Some n"
  by (simp add: Dims_def rd_def)

lemma axis_sizes_eq:
  assumes "length ns = m"
  shows "axis_sizes (int (length pre)) (int m) (map (\<lambda>n. pre @ n # post) ns) (pre @ N # post) = Some (sum_list ns)"
proof -
  let ?a = "int (length pre)" and ?W = "pre @ N # post"
  have inner: "for_range 0 (int (length ?W)) (\<lambda>j _.
      if j \<noteq> ?a then do { _ \<leftarrow> MatchingDim (pre @ n # post) j [(?W, j)]; Some () } else Some ()) () = Some ()" for n
  proof -
    have e: "(pre @ n # post) ! k = ?W ! k" if "k \<noteq> length pre" for k
      using that by (cases "k < length pre") (auto simp: nth_append nth_Cons')
    have "\<exists>t. for_range 0 (int (length ?W)) (\<lambda>j _.
      if j \<noteq> ?a then do { _ \<leftarrow> MatchingDim (pre @ n # post) j [(?W, j)]; Some () } else Some ()) () = Some t \<and> True"
    proof (rule for_range_rule)
      fix j :: int and s
      assume j: "0 \<le> j" "j < int (length ?W)"
      have "(pre @ n # post) ! nat j = ?W ! nat j" if "j \<noteq> ?a" using e [of "nat j"] j that by linarith
      then show "\<exists>t. (if j \<noteq> ?a then do { _ \<leftarrow> MatchingDim (pre @ n # post) j [(?W, j)]; Some () } else Some ()) = Some t \<and> True"
        using j by (auto simp: Dims_def rd_def)
    qed simp_all
    then show ?thesis by simp
  qed
  have "\<exists>t. for_range 0 (int m) (\<lambda>i total. do {
       shape \<leftarrow> rd (map (\<lambda>n. pre @ n # post) ns) i;
       _ \<leftarrow> check (length shape = length ?W);
       _ \<leftarrow> for_range 0 (int (length ?W)) (\<lambda>j _.
              if j \<noteq> ?a then do { _ \<leftarrow> MatchingDim shape j [(?W, j)]; Some () } else Some ()) ();
       d \<leftarrow> Dims shape ?a;
       Some (total + d) }) 0 = Some t \<and> t = sum_list (take (nat (int m)) ns)"
  proof (rule for_range_rule)
    fix i t
    assume i: "0 \<le> i" "i < int m" and t: "t = sum_list (take (nat i) ns)"
    then have k: "nat i < length ns" "nat (i + 1) = Suc (nat i)" using assms by linarith+
    have r: "rd (map (\<lambda>n. pre @ n # post) ns) i = Some (pre @ ns ! nat i # post)" using i k by (simp add: rd_def)
    show "\<exists>t'. do {
       shape \<leftarrow> rd (map (\<lambda>n. pre @ n # post) ns) i;
       _ \<leftarrow> check (length shape = length ?W);
       _ \<leftarrow> for_range 0 (int (length ?W)) (\<lambda>j _.
              if j \<noteq> ?a then do { _ \<leftarrow> MatchingDim shape j [(?W, j)]; Some () } else Some ()) ();
       d \<leftarrow> Dims shape ?a;
       Some (t + d) } = Some t' \<and> t' = sum_list (take (nat (i + 1)) ns)"
      using inner [of "ns ! nat i"] k t by (simp add: r Dims_mid take_Suc_conv_app_nth del: MatchingDim.simps)
  qed simp_all
  then show ?thesis using assms by (simp add: axis_sizes_def)
qed

section \<open>Concatenation and splitting\<close>

lemma FlatSize_around: "FlatSize (pre @ n # post) = prod_list pre * n * prod_list post"
  by (simp add: FlatSize_def foldl_times_eq)

lemma sum_product: "sum_list (map (\<lambda>(k, i). f i) (List.product ks is)) = int (length ks) * sum_list (map f is)"
proof (induction ks)
  case (Cons k ks)
  have "map ((\<lambda>(k, i). f i) \<circ> Pair k) is = map f is" by simp
  then show ?case using Cons by (simp add: distrib_right o_def)
qed simp

lemma sum_upto_nth: "sum_list (map (\<lambda>i. f (ns ! nat i)) [0..int (length ns) - 1]) = sum_list (map f ns)"
proof -
  have "map (\<lambda>i. f (ns ! nat i)) (map int [0..<length ns]) = map f ns" by (intro nth_equalityI) auto
  then show ?thesis by (simp only: upto_map_int)
qed

lemma concat_segment:
  "take (length (f x)) (drop (length (concat (map f pre))) (concat (map f (pre @ x # post)))) = f x"
  by simp

text \<open>The pieces, in the order they follow each other along the axis.\<close>

definition pieces :: "int \<Rightarrow> int list \<Rightarrow> (int \<times> int) list" where
  "pieces outer ns = List.product [0..outer - 1] [0..int (length ns) - 1]"

definition piece_size :: "int \<Rightarrow> int list \<Rightarrow> int \<times> int \<Rightarrow> int" where
  "piece_size inner ns = (\<lambda>(k, i). ns ! nat i * inner)"

definition piece :: "'a list list \<Rightarrow> int \<Rightarrow> int list \<Rightarrow> int \<times> int \<Rightarrow> int \<Rightarrow> 'a" where
  "piece xs inner ns = (\<lambda>(k, i) j. xs ! nat i ! nat (k * (ns ! nat i * inner) + j))"

lemma pieces_total:
  "0 \<le> outer \<Longrightarrow> sum_list (map (piece_size inner ns) (pieces outer ns)) = outer * sum_list ns * inner"
proof -
  assume "0 \<le> outer"
  have "sum_list (map (piece_size inner ns) (pieces outer ns)) = outer * sum_list (map (\<lambda>n. n * inner) ns)"
    using \<open>0 \<le> outer\<close> sum_product [of "\<lambda>i. ns ! nat i * inner" "[0..outer - 1]" "[0..int (length ns) - 1]"]
      sum_upto_nth [of "\<lambda>n. n * inner" ns]
    by (simp add: pieces_def piece_size_def)
  then show ?thesis by (simp add: sum_list_mult_const mult.assoc)
qed

lemma piece_fits:
  assumes "0 \<le> (k :: int)" "k < outer" "0 \<le> n" "0 \<le> inner"
  shows "0 \<le> k * (n * inner) \<and> k * (n * inner) + n * inner \<le> outer * n * inner"
proof -
  have "(k + 1) * (n * inner) \<le> outer * (n * inner)" using assms by (intro mult_right_mono) auto
  then show ?thesis using assms by (simp add: distrib_right mult.assoc)
qed

lemma Concatenation_spec:
  assumes nn: "\<forall>n\<in>set ns. 0 \<le> n" "0 \<le> prod_list pre" "0 \<le> prod_list post"
    and xs: "list_all2 (\<lambda>x n. int (length x) = FlatSize (pre @ n # post)) xs ns"
    and out: "int (length output) = FlatSize (pre @ sum_list ns # post)"
  shows "Concatenation (int (length pre)) (int (length ns)) (map (\<lambda>n. pre @ n # post) ns) xs
       (pre @ sum_list ns # post) output =
     Some (concat (map (\<lambda>x. row (piece xs (prod_list post) ns x) (piece_size (prod_list post) ns x)) (pieces (prod_list pre) ns)))"
proof -
  let ?o = "prod_list pre" and ?inn = "prod_list post" and ?shapes = "map (\<lambda>n. pre @ n # post) ns"
  let ?c = "piece_size ?inn ns" and ?v = "piece xs ?inn ns" and ?P = "pieces ?o ns"
  let ?body = "\<lambda>(k, i) (output_data, output_ptr). do {
         shape \<leftarrow> rd ?shapes i;
         n \<leftarrow> Dims shape (int (length pre));
         let copy_size = n * ?inn;
         src \<leftarrow> rd xs i;
         output_data \<leftarrow> memcpy_at output_data output_ptr src (k * copy_size) copy_size;
         Some (output_data, output_ptr + copy_size) }"
  have lx: "length xs = length ns" using xs by (rule list_all2_lengthD)
  have at: "0 \<le> k \<and> k < ?o \<and> nat i < length ns \<and> 0 \<le> i \<and> i < int (length ns) \<and> int (length (xs ! nat i)) = ?o * ns ! nat i * ?inn \<and> 0 \<le> ns ! nat i"
    if "(k, i) \<in> set ?P" for k i
    using that list_all2_nthD2 [OF xs, of "nat i"] nn(1) by (auto simp: pieces_def FlatSize_around)
  have body: "\<exists>s'. ?body x (s, p) = Some (s', p + ?c x) \<and> block_write p (?c x) (?v x) s s'"
    if x: "x \<in> set ?P" and s: "length s = length output" "0 \<le> p" "p + ?c x \<le> int (length output)" for x p and s :: "'a list"
  proof -
    obtain k i where X: "x = (k, i)" by fastforce
    note a = at [OF x [unfolded X]]
    let ?n = "ns ! nat i * ?inn"
    have "0 \<le> ?n" using a nn by simp
    moreover have "0 \<le> k * ?n" "k * ?n + ?n \<le> int (length (xs ! nat i))" using piece_fits [of k ?o "ns ! nat i" ?inn] a nn by auto
    ultimately obtain s' where "memcpy_at s p (xs ! nat i) (k * ?n) ?n = Some s'"
      "block_write p ?n (\<lambda>j. xs ! nat i ! nat (k * ?n + j)) s s'"
      using block_write_memcpy [of ?n p s "k * ?n" "xs ! nat i"] s by (auto simp: X piece_size_def)
    with a lx show ?thesis by (simp add: X piece_size_def piece_def rd_def Dims_mid)
  qed
  have nnc: "0 \<le> ?c x" if "x \<in> set ?P" for x using at [of "fst x" "snd x"] that nn by (cases x) (auto simp: piece_size_def)
  have tot: "sum_list (map ?c ?P) = int (length output)" using pieces_total [OF nn(2)] out by (simp add: FlatSize_around)
  obtain t where t: "foldM ?body ?P (output, 0) = Some (t, sum_list (map ?c ?P))" "length t = length output"
    "take (nat (sum_list (map ?c ?P))) t = concat (map (\<lambda>x. row (?v x) (?c x)) ?P)"
    using foldM_stream [where xs = ?P and L = "length output" and body = ?body and c = ?c and v = ?v and s = "output", OF body nnc] tot by auto
  have D: "Dims (pre @ sum_list ns # post) (int (length pre)) = Some (sum_list ns)" by (rule Dims_mid)
  have lt: "length pre < length (pre @ sum_list ns # post)" by simp
  have F: "for_range 0 ?o (\<lambda>k. for_range 0 (int (length ns)) (\<lambda>i. ?body (k, i))) (output, 0) = foldM ?body ?P (output, 0)"
    by (simp add: for_range_nest pieces_def)
  have "t = concat (map (\<lambda>x. row (?v x) (?c x)) ?P)" using t(2,3) tot by simp
  with t(1) show ?thesis unfolding Concatenation_def
    using F by (simp add: Let_def axis_sizes_eq D lt dims_prod_around [unfolded length_append] dims_prod_around del: length_append)
qed

lemma Split_spec:
  assumes nn: "\<forall>n\<in>set ns. 0 \<le> n" "0 \<le> prod_list pre" "0 \<le> prod_list post"
    and xs: "list_all2 (\<lambda>x n. int (length x) = FlatSize (pre @ n # post)) xs ns"
    and lens: "map length backs = map length xs"
  shows "Split (int (length pre)) (int (length ns)) (pre @ sum_list ns # post)
       (concat (map (\<lambda>x. row (piece xs (prod_list post) ns x) (piece_size (prod_list post) ns x)) (pieces (prod_list pre) ns)))
       (map (\<lambda>n. pre @ n # post) ns) backs = Some xs"
proof -
  let ?o = "prod_list pre" and ?inn = "prod_list post" and ?shapes = "map (\<lambda>n. pre @ n # post) ns"
  let ?c = "piece_size ?inn ns" and ?v = "piece xs ?inn ns" and ?P = "pieces ?o ns"
  let ?f = "\<lambda>x. row (?v x) (?c x)"
  let ?src = "concat (map ?f ?P)"
  let ?body = "\<lambda>(k, i) (output_data, input_ptr). do {
         shape \<leftarrow> rd ?shapes i;
         n \<leftarrow> Dims shape (int (length pre));
         let copy_size = n * ?inn;
         dst \<leftarrow> rd output_data i;
         dst \<leftarrow> memcpy_at dst (k * copy_size) ?src input_ptr copy_size;
         output_data \<leftarrow> wr output_data i dst;
         Some (output_data, input_ptr + copy_size) }"
  have lx: "length xs = length ns" using xs by (rule list_all2_lengthD)
  have at: "0 \<le> k \<and> k < ?o \<and> nat i < length ns \<and> 0 \<le> i \<and> i < int (length ns) \<and> int (length (xs ! nat i)) = ?o * ns ! nat i * ?inn \<and> 0 \<le> ns ! nat i"
    if "(k, i) \<in> set ?P" for k i
    using that list_all2_nthD2 [OF xs, of "nat i"] nn(1) by (auto simp: pieces_def FlatSize_around)
  have step: "\<exists>s' b. ?body x s = Some s' \<and> snd s' = int (length (concat (map ?f (pr @ [x])))) \<and> fst s' = (fst s)[nat (snd x) := b] \<and>
      block_write (fst x * ?c x) (?c x) (\<lambda>j. xs ! nat (snd x) ! nat (fst x * ?c x + j)) (fst s ! nat (snd x)) b"
    if P: "?P = pr @ x # post'" and I: "snd s = int (length (concat (map ?f pr)))"
      and lens: "map length (fst s) = map length xs" for pr x post' and s :: "'a list list \<times> int"
  proof -
    obtain outs p where s: "s = (outs, p)" by fastforce
    obtain k i where X: "x = (k, i)" by fastforce
    have "(k, i) \<in> set ?P" using P X by simp
    note a = at [OF this]
    let ?n = "ns ! nat i * ?inn"
    have n0: "0 \<le> ?n" using a nn by simp
    have cx: "?c x = ?n" "length (?f x) = nat ?n" by (simp_all add: X piece_size_def)
    have src: "?src = concat (map ?f pr) @ ?f x @ concat (map ?f post')" using P by simp
    have p0: "0 \<le> p" "p + ?n \<le> int (length ?src)" using I s cx n0 unfolding src by simp_all
    have seg: "?src ! nat (p + j) = xs ! nat i ! nat (k * ?n + j)" if "0 \<le> j" "j < ?n" for j
    proof -
      have "nat (p + j) = length (concat (map ?f pr)) + nat j" using I s that by simp
      moreover have "nat j < length (?f x)" using cx that by linarith
      ultimately have "?src ! nat (p + j) = ?f x ! nat j" unfolding src by (simp add: nth_append del: length_row)
      also have "\<dots> = ?v x j" using cx that by simp
      finally show ?thesis by (simp add: X piece_def)
    qed
    have lo: "length outs = length xs" "length (outs ! nat i) = length (xs ! nat i)"
      using lens a lx s by (metis fst_conv length_map, metis fst_conv length_map nth_map)
    have kn: "0 \<le> k * ?n" "k * ?n + ?n \<le> int (length (outs ! nat i))"
      using piece_fits [of k ?o "ns ! nat i" ?inn] a nn lo by auto
    obtain b where b: "memcpy_at (outs ! nat i) (k * ?n) ?src p ?n = Some b"
      "block_write (k * ?n) ?n (\<lambda>j. ?src ! nat (p + j)) (outs ! nat i) b"
      using block_write_memcpy [OF n0 kn p0] by blast
    have "block_write (k * ?n) ?n (\<lambda>j. xs ! nat i ! nat (k * ?n + j)) (outs ! nat i) b"
      using b(2) by (auto simp: block_write_def seg)
    moreover have "?body x s = Some (outs[nat i := b], p + ?n)"
      using b(1) a lx lo(1) by (simp add: X s rd_def wr_def Dims_mid)
    moreover have "p + ?n = int (length (concat (map ?f (pr @ [x]))))" using I s cx n0 by simp
    ultimately show ?thesis using cx(1) by (intro exI [of _ "(outs[nat i := b], p + ?n)"] exI [of _ b]) (simp add: X s)
  qed
  have "\<exists>s'. foldM ?body ?P (backs, 0) = Some s' \<and> fst s' = xs"
  proof (rule foldM_restore [where I = "\<lambda>pr s. snd s = int (length (concat (map ?f pr)))", OF step])
    fix m q
    assume m: "m < length xs" and q: "q < length (xs ! m)"
    have L: "int (length (xs ! m)) = ?o * (ns ! m * ?inn)" "0 \<le> ns ! m * ?inn"
      using list_all2_nthD2 [OF xs, of m] m lx nn by (simp_all add: FlatSize_around)
    then have lq: "int q < ?o * (ns ! m * ?inn)" using q by linarith
    then have "ns ! m * ?inn \<noteq> 0" by auto
    with L(2) have n0: "0 < ns ! m * ?inn" by linarith
    note dv = div_less_dim [OF lq n0 of_nat_0_le_iff]
    have "(int q div (ns ! m * ?inn), int m) \<in> set ?P" using dv m lx by (simp add: pieces_def)
    moreover have "int q div (ns ! m * ?inn) * (ns ! m * ?inn) \<le> int q" "int q < int q div (ns ! m * ?inn) * (ns ! m * ?inn) + ns ! m * ?inn"
      using dv div_mult_mod_eq [of "int q" "ns ! m * ?inn"] by linarith+
    ultimately show "\<exists>x\<in>set ?P. nat (snd x) = m \<and> fst x * ?c x \<le> int q \<and> int q < fst x * ?c x + ?c x"
      by (intro bexI [of _ "(int q div (ns ! m * ?inn), int m)"]) (simp_all add: piece_size_def)
  qed (use lens at lx in auto)
  then obtain p where t: "foldM ?body ?P (backs, 0) = Some (xs, p)" by fastforce
  have D: "Dims (pre @ sum_list ns # post) (int (length pre)) = Some (sum_list ns)" by (rule Dims_mid)
  have lt: "length pre < length (pre @ sum_list ns # post)" by simp
  have F: "for_range 0 ?o (\<lambda>k. for_range 0 (int (length ns)) (\<lambda>i. ?body (k, i))) (backs, 0) = foldM ?body ?P (backs, 0)"
    by (simp add: for_range_nest pieces_def)
  show ?thesis unfolding Split_def
    using F t by (simp add: Let_def axis_sizes_eq D lt dims_prod_around [unfolded length_append] dims_prod_around del: length_append)
qed

lemma axis_from_either_end:
  "axis = int (length pre) \<or> axis = int (length pre) - int (length (pre @ n # post)) \<Longrightarrow>
   (if axis < 0 then axis + int (length (pre @ n # post)) else axis) = int (length pre)"
  by auto

text \<open>
  C26: \<open>Split\<close> undoes \<open>Concatenation\<close>.  Tensors that agree in all sizes but the one along the axis
  are joined without a failing DCHECK and without a copy outside a buffer, and splitting the result
  into the same shapes, with the axis counted from either end, gives every tensor back.
\<close>

theorem concat_split_roundtrip:
  assumes "\<forall>n\<in>set ns. 0 \<le> n" and "\<forall>n\<in>set pre. 0 \<le> n" and "\<forall>n\<in>set post. 0 \<le> n"
    and "list_all2 (\<lambda>x n. int (length x) = FlatSize (pre @ n # post)) xs ns"
    and "int (length output) = FlatSize (pre @ sum_list ns # post)" and "map length backs = map length xs"
    and "axis = int (length pre) \<or> axis = int (length pre) - int (length (pre @ sum_list ns # post))"
  shows "\<exists>out. Concatenation (int (length pre)) (int (length ns)) (map (\<lambda>n. pre @ n # post) ns) xs
         (pre @ sum_list ns # post) output = Some out \<and>
      Split axis (int (length ns)) (pre @ sum_list ns # post) out (map (\<lambda>n. pre @ n # post) ns) backs = Some xs"
proof -
  note nn = prod_list_nonneg [OF assms(2)] prod_list_nonneg [OF assms(3)]
  have "Split axis m (pre @ N # post) out shapes b = Split (int (length pre)) m (pre @ N # post) out shapes b"
    if "axis = int (length pre) \<or> axis = int (length pre) - int (length (pre @ N # post))" for m N out shapes and b :: "'a list list"
    unfolding Split_def Let_def axis_from_either_end [OF that] axis_from_either_end [OF disjI1 [OF refl]] ..
  with Concatenation_spec [OF assms(1) nn assms(4,5)] Split_spec [OF assms(1) nn assms(4,6)] assms(7)
  show ?thesis by auto
qed

lemma concat_split_roundtrip_witness:
  "\<exists>out. Concatenation 1 2 [[2, 1], [2, 2]] [[1 :: int, 4], [2, 3, 5, 6]] [2, 3] [0, 0, 0, 0, 0, 0] = Some out \<and>
     Split (- 1) 2 [2, 3] out [[2, 1], [2, 2]] [[0, 0], [0, 0, 0, 0]] = Some [[1, 4], [2, 3, 5, 6]]"
  using concat_split_roundtrip [of "[1, 2]" "[2]" "[]" "[[1 :: int, 4], [2, 3, 5, 6]]" "[0, 0, 0, 0, 0, 0]" "[[0, 0], [0, 0, 0, 0]]" "- 1"]
  by (simp add: FlatSize_def)

section \<open>Packing\<close>

text \<open>Blocks of a matrix, visited row by row or column by column.\<close>

lemma inj_cols:
  "x \<in> set (List.product [0..n - 1] [0..outer - 1]) \<Longrightarrow> y \<in> set (List.product [0..n - 1] [0..outer - 1]) \<Longrightarrow>
   (\<lambda>(i, k). k * n + i) x = (\<lambda>(i, k). k * n + i) y \<Longrightarrow> x = y"
  using radix_inj [of "fst x" n "fst y" "snd x" "snd y"] by (auto simp: prod_eq_iff)

interpretation cols: index_space "outer * n" "\<lambda>(i, k). k * n + i" "List.product [0..n - 1] [0..outer - 1]" for outer n
proof unfold_locales
  fix x
  assume "x \<in> set (List.product [0..n - 1] [0..outer - 1])"
  then have "0 \<le> snd x" "snd x < outer" "0 \<le> fst x" "fst x < n" by auto
  from radix_range [OF this] show "0 \<le> (\<lambda>(i, k). k * n + i) x \<and> (\<lambda>(i, k). k * n + i) x < outer * n" by (simp add: case_prod_beta)
qed (use inj_cols in \<open>auto simp: distinct_product\<close>)

lemma inj_rows:
  "x \<in> set (List.product [0..outer - 1] [0..n - 1]) \<Longrightarrow> y \<in> set (List.product [0..outer - 1] [0..n - 1]) \<Longrightarrow>
   (\<lambda>(k, i). k * n + i) x = (\<lambda>(k, i). k * n + i) y \<Longrightarrow> x = y"
  using radix_inj [of "snd x" n "snd y" "fst x" "fst y"] by (auto simp: prod_eq_iff)

interpretation rows: index_space "outer * n" "\<lambda>(k, i). k * n + i" "List.product [0..outer - 1] [0..n - 1]" for outer n
proof unfold_locales
  fix x
  assume "x \<in> set (List.product [0..outer - 1] [0..n - 1])"
  then have "0 \<le> fst x" "fst x < outer" "0 \<le> snd x" "snd x < n" by auto
  from radix_range [OF this] show "0 \<le> (\<lambda>(k, i). k * n + i) x \<and> (\<lambda>(k, i). k * n + i) x < outer * n" by (simp add: case_prod_beta)
qed (use inj_rows in \<open>auto simp: distinct_product\<close>)

lemma Pack_spec:
  assumes nn: "0 \<le> prod_list pre" "0 \<le> prod_list post" and ne: "xs \<noteq> []"
    and xs: "\<forall>x\<in>set xs. int (length x) = prod_list pre * prod_list post"
    and out: "int (length output) = prod_list pre * int (length xs) * prod_list post"
  shows "\<exists>out. Pack (int (length pre)) (int (length xs)) (replicate (length xs) (pre @ post)) xs
       (pre @ int (length xs) # post) output = Some out \<and> length out = length output \<and>
     (\<forall>i<length xs. \<forall>k j. 0 \<le> k \<and> k < prod_list pre \<and> 0 \<le> j \<and> j < prod_list post \<longrightarrow>
        out ! nat ((k * int (length xs) + int i) * prod_list post + j) = xs ! i ! nat (k * prod_list post + j))"
proof -
  let ?o = "prod_list pre" and ?c = "prod_list post" and ?m = "int (length xs)"
  let ?P = "List.product [0..?m - 1] [0..?o - 1]"
  let ?body = "\<lambda>(i, k) output_data. do {
       input_ptr \<leftarrow> rd xs i;
       memcpy_at output_data (k * ?m * ?c + i * ?c) input_ptr (?c * k) ?c }"
  have body: "\<exists>s'. ?body x s = Some s' \<and>
      block_write ((\<lambda>(i, k). k * ?m + i) x * ?c) ?c (\<lambda>j. xs ! nat (fst x) ! nat (snd x * ?c + j)) s s'"
    if x: "x \<in> set ?P" and s: "int (length s) = ?o * ?m * ?c" for x and s :: "'a list"
  proof -
    obtain i k where X: "x = (i, k)" by fastforce
    have ik: "0 \<le> i" "i < ?m" "0 \<le> k" "k < ?o" using x X by auto
    have "0 \<le> k * ?m + i \<and> k * ?m + i < ?o * ?m" using ik by (intro radix_range) auto
    then have d: "0 \<le> (k * ?m + i) * ?c" "(k * ?m + i) * ?c + ?c \<le> int (length s)" using cell_fits nn s by simp_all
    have "xs ! nat i \<in> set xs" using ik by simp
    then have p: "0 \<le> k * ?c" "k * ?c + ?c \<le> int (length (xs ! nat i))" using cell_fits [of k ?o ?c] ik nn xs by auto
    from block_write_memcpy [OF nn(2) d p] ik show ?thesis
      by (simp add: X rd_def mult.commute [of ?c] distrib_right)
  qed
  obtain t where t: "foldM ?body ?P output = Some t" "length t = length output"
    "\<forall>x\<in>set ?P. \<forall>j. 0 \<le> j \<and> j < ?c \<longrightarrow> t ! nat ((\<lambda>(i, k). k * ?m + i) x * ?c + j) = xs ! nat (fst x) ! nat (snd x * ?c + j)"
    using cols.fill_cells [OF nn(2) out body] by blast
  have F: "for_range 0 ?m (\<lambda>i. for_range 0 ?o (\<lambda>k. ?body (i, k))) output = foldM ?body ?P output"
    by (simp add: for_range_nest)
  have "t ! nat ((k * ?m + int i) * ?c + j) = xs ! i ! nat (k * ?c + j)"
    if "i < length xs" "0 \<le> k \<and> k < ?o \<and> 0 \<le> j \<and> j < ?c" for i k j
    using bspec [OF t(3), of "(int i, k)"] that by simp
  moreover have "Pack (int (length pre)) ?m (replicate (length xs) (pre @ post)) xs (pre @ ?m # post) output = Some t"
    using F t(1) ne by (simp add: Pack_def dims_prod_around [unfolded length_append] dims_prod_around rd_def
        FlatSize_def foldl_times_eq mult.commute [of ?c] del: length_append)
  ultimately show ?thesis using t(2) by blast
qed

text \<open>
  \<open>Unpack\<close> undoes \<open>Pack\<close>.  Tensors of one shape are stacked along a new axis, wherever it is put,
  and taken apart again, with the axis counted from either end.
\<close>

theorem pack_unpack_roundtrip:
  assumes "\<forall>n\<in>set pre. 0 \<le> n" and "\<forall>n\<in>set post. 0 \<le> n" and "xs \<noteq> []"
    and "\<forall>x\<in>set xs. int (length x) = FlatSize (pre @ post)"
    and "int (length output) = FlatSize (pre @ int (length xs) # post)" and "map length backs = map length xs"
    and "axis = int (length pre) \<or> axis = int (length pre) - int (length (pre @ int (length xs) # post))"
  shows "\<exists>out. Pack (int (length pre)) (int (length xs)) (replicate (length xs) (pre @ post)) xs
         (pre @ int (length xs) # post) output = Some out \<and>
      Unpack axis (int (length xs)) (pre @ int (length xs) # post) out (pre @ post) backs = Some xs"
proof -
  let ?o = "prod_list pre" and ?c = "prod_list post" and ?m = "int (length xs)"
  let ?P = "List.product [0..?m - 1] [0..?o - 1]"
  note nn = prod_list_nonneg [OF assms(1)] prod_list_nonneg [OF assms(2)]
  have xs: "\<forall>x\<in>set xs. int (length x) = ?o * ?c" using assms(4) by (simp add: FlatSize_def foldl_times_eq)
  have lo: "int (length output) = ?o * ?m * ?c" using assms(5) by (simp add: FlatSize_around)
  obtain out where out: "Pack (int (length pre)) ?m (replicate (length xs) (pre @ post)) xs (pre @ ?m # post) output = Some out"
    "length out = length output"
    "\<forall>i<length xs. \<forall>k j. 0 \<le> k \<and> k < ?o \<and> 0 \<le> j \<and> j < ?c \<longrightarrow>
        out ! nat ((k * ?m + int i) * ?c + j) = xs ! i ! nat (k * ?c + j)"
    using Pack_spec [OF nn assms(3) xs lo] by blast
  let ?body = "\<lambda>(i, k) output_datas. do {
       output_ptr \<leftarrow> rd output_datas i;
       out \<leftarrow> memcpy_at output_ptr (?c * k) out (k * ?m * ?c + i * ?c) ?c;
       wr output_datas i out }"
  have step: "\<exists>s' b. ?body x s = Some s' \<and> True \<and> s' = s[nat (fst x) := b] \<and>
      block_write (snd x * ?c) ?c (\<lambda>j. xs ! nat (fst x) ! nat (snd x * ?c + j)) (s ! nat (fst x)) b"
    if P: "?P = pr @ x # post'" and lens: "map length s = map length xs" for pr x post' s
  proof -
    obtain i k where X: "x = (i, k)" by fastforce
    have "(i, k) \<in> set ?P" unfolding P X by simp
    then have ik: "0 \<le> i" "i < ?m" "0 \<le> k" "k < ?o" by auto
    have "0 \<le> k * ?m + i \<and> k * ?m + i < ?o * ?m" using ik by (intro radix_range) auto
    then have d: "0 \<le> (k * ?m + i) * ?c" "(k * ?m + i) * ?c + ?c \<le> int (length out)"
      using cell_fits nn lo out(2) by simp_all
    have l: "length s = length xs" using lens by (metis length_map)
    have "xs ! nat i \<in> set xs" "map length s ! nat i = map length xs ! nat i" using ik lens by simp_all
    then have p: "0 \<le> k * ?c" "k * ?c + ?c \<le> int (length (s ! nat i))"
      using cell_fits [of k ?o ?c] ik nn xs l by auto
    obtain b where b: "memcpy_at (s ! nat i) (k * ?c) out ((k * ?m + i) * ?c) ?c = Some b"
      "block_write (k * ?c) ?c (\<lambda>j. out ! nat ((k * ?m + i) * ?c + j)) (s ! nat i) b"
      using block_write_memcpy [OF nn(2) p d] by blast
    have "out ! nat ((k * ?m + i) * ?c + j) = xs ! nat i ! nat (k * ?c + j)" if "0 \<le> j" "j < ?c" for j
      using out(3) [rule_format, of "nat i" k j] ik that by simp
    then have "block_write (k * ?c) ?c (\<lambda>j. xs ! nat i ! nat (k * ?c + j)) (s ! nat i) b"
      using b(2) by (auto simp: block_write_def)
    with b(1) ik l show ?thesis
      by (intro exI [of _ "s[nat i := b]"] exI [of _ b]) (simp add: X rd_def wr_def mult.commute [of ?c] distrib_right)
  qed
  have "\<exists>s'. foldM ?body ?P backs = Some s' \<and> s' = xs"
  proof (rule foldM_restore [where I = "\<lambda>_ _. True" and bufs = "\<lambda>s. s", OF step])
    fix i q
    assume i: "i < length xs" and q: "q < length (xs ! i)"
    have "int (length (xs ! i)) = ?o * ?c" using xs i by simp
    then have lq: "int q < ?o * ?c" using q by linarith
    then have "?c \<noteq> 0" by auto
    then have c0: "0 < ?c" using nn by linarith
    note dv = div_less_dim [OF lq c0 of_nat_0_le_iff]
    have "(int i, int q div ?c) \<in> set ?P" using dv i by simp
    moreover have "int q div ?c * ?c \<le> int q" "int q < int q div ?c * ?c + ?c"
      using dv div_mult_mod_eq [of "int q" ?c] by linarith+
    ultimately show "\<exists>x\<in>set ?P. nat (fst x) = i \<and> snd x * ?c \<le> int q \<and> int q < snd x * ?c + ?c"
      by (intro bexI [of _ "(int i, int q div ?c)"]) simp_all
  qed (use assms(6) in auto)
  then have "foldM ?body ?P backs = Some xs" by simp
  moreover have "for_range 0 ?m (\<lambda>i. for_range 0 ?o (\<lambda>k. ?body (i, k))) backs = foldM ?body ?P backs"
    by (simp add: for_range_nest)
  moreover have "Unpack axis ?m (pre @ ?m # post) out (pre @ post) backs =
      Unpack (int (length pre)) ?m (pre @ ?m # post) out (pre @ post) backs"
    unfolding Unpack_def Let_def axis_from_either_end [OF assms(7)] axis_from_either_end [OF disjI1 [OF refl]] ..
  moreover have "length pre < length (pre @ ?m # post)" by simp
  ultimately have "Unpack axis ?m (pre @ ?m # post) out (pre @ post) backs = Some xs"
    by (simp add: Unpack_def dims_prod_around [unfolded length_append] dims_prod_around rd_def
        FlatSize_def foldl_times_eq mult.commute [of ?c] del: length_append)
  with out(1) show ?thesis by blast
qed

lemma pack_unpack_roundtrip_witness:
  "\<exists>out. Pack 1 3 [[2], [2], [2]] [[1 :: int, 2], [3, 4], [5, 6]] [2, 3] [0, 0, 0, 0, 0, 0] = Some out \<and>
     Unpack (- 1) 3 [2, 3] out [2] [[0, 0], [0, 0], [0, 0]] = Some [[1, 2], [3, 4], [5, 6]]"
  using pack_unpack_roundtrip [of "[2]" "[]" "[[1 :: int, 2], [3, 4], [5, 6]]" "[0, 0, 0, 0, 0, 0]" "[[0, 0], [0, 0], [0, 0]]" "- 1"]
  by (simp add: FlatSize_def numeral_eq_Suc)

section \<open>Gathering\<close>

text \<open>
  C27: \<open>Gather\<close> picks slices along an axis.  If every coordinate is an index of the axis, slice \<open>i\<close> of
  the output is the slice of the input the \<open>i\<close>-th coordinate names, for every position outside the
  axis; if some coordinate is not, the kernel stops at its DCHECK and copies nothing from outside.
\<close>

theorem gather_picks_slices:
  assumes "\<forall>d\<in>set pre. 0 \<le> d" and "\<forall>d\<in>set post. 0 \<le> d" and "0 < prod_list pre"
    and "int (length input) = FlatSize (pre @ n # post)" and "int (length coords) = FlatSize coords_shape"
    and "int (length output) = prod_list pre * int (length coords) * prod_list post"
    and "axis = int (length pre) \<or> axis = int (length pre) - int (length (pre @ n # post))"
  shows "if \<forall>c\<in>set coords. 0 \<le> c \<and> c < n
    then \<exists>out. Gather axis (pre @ n # post) input coords_shape coords output_shape output = Some out \<and>
      length out = length output \<and>
      (\<forall>k i j. 0 \<le> k \<and> k < prod_list pre \<and> i < length coords \<and> 0 \<le> j \<and> j < prod_list post \<longrightarrow>
         out ! nat ((k * int (length coords) + int i) * prod_list post + j) =
         input ! nat ((k * n + coords ! i) * prod_list post + j))
    else Gather axis (pre @ n # post) input coords_shape coords output_shape output = None"
proof -
  let ?o = "prod_list pre" and ?c = "prod_list post" and ?m = "int (length coords)"
  let ?P = "List.product [0..?o - 1] [0..?m - 1]"
  note nn = prod_list_nonneg [OF assms(1)] prod_list_nonneg [OF assms(2)]
  let ?body = "\<lambda>(outer, i) output_data. do {
       c \<leftarrow> rd coords i;
       _ \<leftarrow> check (c \<ge> 0);
       _ \<leftarrow> check (c < n);
       memcpy_at output_data ((outer * ?m + i) * ?c) input ((outer * n + c) * ?c) ?c }"
  have F: "for_range 0 ?o (\<lambda>k. for_range 0 ?m (\<lambda>i. ?body (k, i))) output = foldM ?body ?P output"
    by (simp add: for_range_nest)
  have lt: "length pre < length (pre @ n # post)" by simp
  have G: "Gather axis (pre @ n # post) input coords_shape coords output_shape output = foldM ?body ?P output"
    unfolding Gather_def Let_def axis_from_either_end [OF assms(7)] F [symmetric] assms(5) [symmetric]
    using lt by (simp add: Dims_mid dims_prod_around [unfolded length_append] dims_prod_around del: length_append)
  show ?thesis
  proof (cases "\<forall>c\<in>set coords. 0 \<le> c \<and> c < n")
    case True
    have body: "\<exists>s'. ?body x s = Some s' \<and>
        block_write ((\<lambda>(k, i). k * ?m + i) x * ?c) ?c (\<lambda>j. input ! nat ((fst x * n + coords ! nat (snd x)) * ?c + j)) s s'"
      if x: "x \<in> set ?P" and s: "int (length s) = ?o * ?m * ?c" for x and s :: "'a list"
    proof -
      obtain k i where X: "x = (k, i)" by fastforce
      have ik: "0 \<le> i" "i < ?m" "0 \<le> k" "k < ?o" using x X by auto
      have "coords ! nat i \<in> set coords" using ik by simp
      then have c: "0 \<le> coords ! nat i" "coords ! nat i < n" using True by auto
      have "0 \<le> k * ?m + i \<and> k * ?m + i < ?o * ?m" using ik by (intro radix_range) auto
      then have d: "0 \<le> (k * ?m + i) * ?c" "(k * ?m + i) * ?c + ?c \<le> int (length s)" using cell_fits nn s by simp_all
      have "0 \<le> k * n + coords ! nat i \<and> k * n + coords ! nat i < ?o * n" using ik c by (intro radix_range) auto
      then have p: "0 \<le> (k * n + coords ! nat i) * ?c" "(k * n + coords ! nat i) * ?c + ?c \<le> int (length input)"
        using cell_fits [of "k * n + coords ! nat i" "?o * n" ?c] nn assms(4) by (simp_all add: FlatSize_around)
      from block_write_memcpy [OF nn(2) d p] ik c show ?thesis by (simp add: X rd_def)
    qed
    obtain t where t: "foldM ?body ?P output = Some t" "length t = length output"
      "\<forall>x\<in>set ?P. \<forall>j. 0 \<le> j \<and> j < ?c \<longrightarrow>
         t ! nat ((\<lambda>(k, i). k * ?m + i) x * ?c + j) = input ! nat ((fst x * n + coords ! nat (snd x)) * ?c + j)"
      using rows.fill_cells [OF nn(2) assms(6) body] by blast
    have "t ! nat ((k * ?m + int i) * ?c + j) = input ! nat ((k * n + coords ! i) * ?c + j)"
      if "0 \<le> k \<and> k < ?o \<and> i < length coords \<and> 0 \<le> j \<and> j < ?c" for k i j
      using bspec [OF t(3), of "(k, int i)"] that by simp
    with t(1,2) True show ?thesis by (simp add: G)
  next
    case False
    then obtain i where i: "i < length coords" "\<not> (0 \<le> coords ! i \<and> coords ! i < n)" by (auto simp: in_set_conv_nth)
    have "foldM ?body ?P output = None"
    proof (rule foldM_None)
      show "(0, int i) \<in> set ?P" using i assms(3) by simp
      show "?body (0, int i) s = None" for s using i by (auto simp: rd_def check_def)
    qed
    with False G show ?thesis by simp
  qed
qed

lemma gather_picks_slices_witness:
  "\<exists>out. Gather (- 1) [2, 3] [10 :: int, 11, 12, 20, 21, 22] [2] [2, 0] [2, 2] [0, 0, 0, 0] = Some out \<and> out ! 2 = 22"
  using gather_picks_slices [of "[2]" "[]" "[10 :: int, 11, 12, 20, 21, 22]" 3 "[2, 0]" "[2]" "[0, 0, 0, 0]" "- 1" "[2, 2]"]
  apply (simp add: FlatSize_def)
  apply (elim exE conjE)
  subgoal for out
    by (erule allE [of _ 1], erule allE [of _ 0], erule allE [of _ 0]) simp
  done

lemma GatherNd_counts:
  assumes pos: "\<forall>d\<in>set ds. 0 < d" and nd: "nd \<le> length ds"
  shows "for_range 0 (int nd) (\<lambda>i (dims_to_count, remain_flat_size). do {
         d \<leftarrow> Dims ds i;
         _ \<leftarrow> check (d \<noteq> 0);
         dims_to_count \<leftarrow> wr dims_to_count i (cdiv remain_flat_size d);
         r \<leftarrow> rd dims_to_count i;
         Some (dims_to_count, r) }) (replicate nd 0, FlatSize ds) =
     Some (map (\<lambda>j. prod_list (drop (Suc j) ds)) [0..<nd], prod_list (drop nd ds))"
proof -
  let ?f = "\<lambda>i (dims_to_count, remain_flat_size). do {
         d \<leftarrow> Dims ds i;
         _ \<leftarrow> check (d \<noteq> 0);
         dims_to_count \<leftarrow> wr dims_to_count i (cdiv remain_flat_size d);
         r \<leftarrow> rd dims_to_count i;
         Some (dims_to_count, r) }"
  let ?P = "\<lambda>i (c, r). r = prod_list (drop (nat i) ds) \<and>
      c = map (\<lambda>j. prod_list (drop (Suc j) ds)) [0..<nat i] @ replicate (nd - nat i) 0"
  have "\<exists>t. for_range 0 (int nd) ?f (replicate nd 0, FlatSize ds) = Some t \<and> ?P (int nd) t"
  proof (rule for_range_rule)
    show "?P 0 (replicate nd 0, FlatSize ds)" by (simp add: FlatSize_def foldl_times_eq)
    fix i s
    assume i: "0 \<le> i" "i < int nd" and s: "?P i s"
    then have k: "nat i < length ds" "nat (i + 1) = Suc (nat i)" "nat i < nd" using nd by linarith+
    have d: "0 < ds ! nat i" using pos k by simp
    have pr: "0 < prod_list (drop (Suc (nat i)) ds)" using pos by (intro prod_list_pos) (auto dest: in_set_dropD)
    have "drop (nat i) ds = ds ! nat i # drop (Suc (nat i)) ds" using k by (simp add: Cons_nth_drop_Suc)
    then have "prod_list (drop (nat i) ds) = ds ! nat i * prod_list (drop (Suc (nat i)) ds)" by simp
    then have q: "cdiv (prod_list (drop (nat i) ds)) (ds ! nat i) = prod_list (drop (Suc (nat i)) ds)"
      using d pr by simp
    let ?c = "map (\<lambda>j. prod_list (drop (Suc j) ds)) [0..<nat i]"
    have "nd - nat i = Suc (nd - Suc (nat i))" using k by simp
    then have u: "(?c @ replicate (nd - nat i) 0)[nat i := prod_list (drop (Suc (nat i)) ds)] =
        map (\<lambda>j. prod_list (drop (Suc j) ds)) [0..<Suc (nat i)] @ replicate (nd - Suc (nat i)) 0"
      by (simp add: list_update_append)
    have "?f i s = Some (map (\<lambda>j. prod_list (drop (Suc j) ds)) [0..<Suc (nat i)] @ replicate (nd - Suc (nat i)) 0,
        prod_list (drop (Suc (nat i)) ds))"
      using s i k d by (auto simp: Dims_def rd_def wr_def q u nth_append)
    then show "\<exists>t. ?f i s = Some t \<and> ?P (i + 1) t" using k by simp
  qed simp
  then show ?thesis by auto
qed

lemma GatherNd_position:
  assumes nd: "nd \<le> length ds" and ids: "i * int nd + int nd \<le> int (length ids)" "0 \<le> i"
  shows "for_range 0 (int nd) (\<lambda>j from_pos. do {
           x \<leftarrow> rd ids (i * int nd + j);
           c \<leftarrow> rd (map (\<lambda>j. prod_list (drop (Suc j) ds)) [0..<nd]) j;
           Some (from_pos + x * c) }) 0 =
     Some (linear (take nd ds) (take nd (drop (nat (i * int nd)) ids)) * prod_list (drop nd ds))"
proof -
  let ?ix = "take nd (drop (nat (i * int nd)) ids)"
  have "int (nat (i * int nd)) = i * int nd" using ids by simp
  then have "nat (i * int nd) + nd \<le> length ids" using ids by linarith
  then have li: "length ?ix = nd" by simp
  have "\<exists>t. for_range 0 (int nd) (\<lambda>j from_pos. do {
           x \<leftarrow> rd ids (i * int nd + j);
           c \<leftarrow> rd (map (\<lambda>j. prod_list (drop (Suc j) ds)) [0..<nd]) j;
           Some (from_pos + x * c) }) 0 = Some t \<and>
      t = linear (take (nat (int nd)) ds) (take (nat (int nd)) ?ix) * prod_list (drop (nat (int nd)) ds)"
  proof (rule for_range_rule [where P = "\<lambda>j t. t = linear (take (nat j) ds) (take (nat j) ?ix) * prod_list (drop (nat j) ds)"])
    fix j t
    assume j: "0 \<le> j" "j < int nd" and t: "t = linear (take (nat j) ds) (take (nat j) ?ix) * prod_list (drop (nat j) ds)"
    then have k: "nat j < length ds" "nat (j + 1) = Suc (nat j)" "nat j < length ?ix" using nd li by linarith+
    have x: "rd ids (i * int nd + j) = Some (?ix ! nat j)"
    proof -
      have "nat (i * int nd + j) = nat (i * int nd) + nat j" using ids j by (simp add: nat_add_distrib)
      moreover have "0 \<le> i * int nd" using ids by simp
      ultimately show ?thesis using ids j k by (simp add: rd_def)
    qed
    have "drop (nat j) ds = ds ! nat j # drop (Suc (nat j)) ds" using k by (simp add: Cons_nth_drop_Suc)
    then have p: "prod_list (drop (nat j) ds) = ds ! nat j * prod_list (drop (Suc (nat j)) ds)" by simp
    have "take (Suc (nat j)) ?ix = take (nat j) ?ix @ [?ix ! nat j]" "take (Suc (nat j)) ds = take (nat j) ds @ [ds ! nat j]"
      using k by (simp_all add: take_Suc_conv_app_nth del: take_take)
    moreover have "length (take (nat j) ?ix) = length (take (nat j) ds)" using k by simp
    ultimately have "linear (take (Suc (nat j)) ds) (take (Suc (nat j)) ?ix) = linear (take (nat j) ds) (take (nat j) ?ix) * ds ! nat j + ?ix ! nat j"
      by (simp only: linear_snoc)
    then have "t + ?ix ! nat j * prod_list (drop (Suc (nat j)) ds) =
        linear (take (nat (j + 1)) ds) (take (nat (j + 1)) ?ix) * prod_list (drop (nat (j + 1)) ds)"
      unfolding t p k(2) by (simp only: algebra_simps)
    then show "\<exists>t'. do {
           x \<leftarrow> rd ids (i * int nd + j);
           c \<leftarrow> rd (map (\<lambda>j. prod_list (drop (Suc j) ds)) [0..<nd]) j;
           Some (t + x * c) } = Some t' \<and> t' = linear (take (nat (j + 1)) ds) (take (nat (j + 1)) ?ix) * prod_list (drop (nat (j + 1)) ds)"
      using x j by (simp add: rd_def)
  qed (simp_all add: linear_def)
  then show ?thesis by simp
qed

interpretation vec: index_space n "\<lambda>i. i" "[0..n - 1]" for n
proof unfold_locales
qed auto

text \<open>
  \<open>GatherNd\<close> looks up whole slices.  For index tuples that are indices of the leading dimensions,
  slice \<open>i\<close> of the output is the slice of the parameters at the \<open>i\<close>-th tuple, in row-major order.
\<close>

theorem gather_nd_picks_slices:
  assumes "\<forall>d\<in>set ds. 0 < d" and "\<forall>n\<in>set ish. 0 \<le> n" and "nd \<le> length ds"
    and "int (length params) = FlatSize ds" and "int (length ids) = prod_list ish * int nd"
    and "\<forall>i. 0 \<le> i \<and> i < prod_list ish \<longrightarrow> valid_index (take nd ds) (take nd (drop (nat (i * int nd)) ids))"
    and "int (length output) = prod_list ish * prod_list (drop nd ds)"
  shows "\<exists>out. GatherNd ds params (ish @ [int nd]) ids output_shape output = Some out \<and> length out = length output \<and>
     (\<forall>i j. 0 \<le> i \<and> i < prod_list ish \<and> 0 \<le> j \<and> j < prod_list (drop nd ds) \<longrightarrow>
        out ! nat (i * prod_list (drop nd ds) + j) =
        params ! nat (linear (take nd ds) (take nd (drop (nat (i * int nd)) ids)) * prod_list (drop nd ds) + j))"
proof -
  let ?n = "prod_list ish" and ?c = "prod_list (drop nd ds)"
  let ?ix = "\<lambda>i. take nd (drop (nat (i * int nd)) ids)"
  let ?body = "\<lambda>i output_data. do {
       from_pos \<leftarrow> for_range 0 (int nd) (\<lambda>j from_pos. do {
           x \<leftarrow> rd ids (i * int nd + j);
           c \<leftarrow> rd (map (\<lambda>j. prod_list (drop (Suc j) ds)) [0..<nd]) j;
           Some (from_pos + x * c) }) 0;
       memcpy_at output_data (i * ?c) params from_pos ?c }"
  have c0: "0 \<le> ?c" using assms(1) by (intro prod_list_nonneg) (auto dest: in_set_dropD less_imp_le)
  have body: "\<exists>s'. ?body i s = Some s' \<and> block_write (i * ?c) ?c (\<lambda>j. params ! nat (linear (take nd ds) (?ix i) * ?c + j)) s s'"
    if i: "i \<in> set [0..?n - 1]" and s: "int (length s) = ?n * ?c" for i and s :: "'a list"
  proof -
    have ir: "0 \<le> i" "i < ?n" using i by auto
    have d: "0 \<le> i * ?c" "i * ?c + ?c \<le> int (length s)" using cell_fits [OF ir c0] s by simp_all
    have "i * int nd + int nd \<le> int (length ids)" using cell_fits [OF ir, of "int nd"] assms(5) by simp
    note pos = GatherNd_position [OF assms(3) this ir(1)]
    have "0 \<le> linear (take nd ds) (?ix i)" "linear (take nd ds) (?ix i) < prod_list (take nd ds)"
      using linear_range assms(6) ir by blast+
    moreover have "prod_list (take nd ds) * ?c = int (length params)"
      using assms(4) by (metis FlatSize_def append_take_drop_id foldl_times_eq mult_1 prod_list.append)
    ultimately have p: "0 \<le> linear (take nd ds) (?ix i) * ?c" "linear (take nd ds) (?ix i) * ?c + ?c \<le> int (length params)"
      using cell_fits [of "linear (take nd ds) (?ix i)" "prod_list (take nd ds)" ?c] c0 by simp_all
    from block_write_memcpy [OF c0 d p] show ?thesis using pos by simp
  qed
  obtain t where t: "foldM ?body [0..?n - 1] output = Some t" "length t = length output"
    "\<forall>i\<in>set [0..?n - 1]. \<forall>j. 0 \<le> j \<and> j < ?c \<longrightarrow> t ! nat (i * ?c + j) = params ! nat (linear (take nd ds) (?ix i) * ?c + j)"
    using vec.fill_cells [OF c0 assms(7) body] by blast
  have "Dims (ish @ [int nd]) (int (length ish)) = Some (int nd)" by (simp add: Dims_def rd_def)
  moreover have "dims_prod (ish @ [int nd]) 0 (int (length ish)) = Some ?n" by (simp add: dims_prod_eq)
  moreover have "dims_prod ds (int nd) (int (length ds)) = Some ?c" using assms(3) by (simp add: dims_prod_eq)
  ultimately have "GatherNd ds params (ish @ [int nd]) ids output_shape output = Some t"
    using t(1) GatherNd_counts [OF assms(1,3)] by (simp add: GatherNd_def for_range_def)
  with t(2,3) show ?thesis by simp
qed

lemma gather_nd_picks_slices_witness:
  "\<exists>out. GatherNd [2, 2] [5 :: int, 6, 7, 8] [2, 1] [1, 0] [2, 2] [0, 0, 0, 0] = Some out \<and> length out = 4"
proof -
  have "\<forall>i. 0 \<le> i \<and> i < prod_list [2] \<longrightarrow> valid_index (take 1 [2, 2]) (take 1 (drop (nat (i * int 1)) [1, 0 :: int]))"
  proof (intro allI impI)
    fix i :: int
    assume "0 \<le> i \<and> i < prod_list [2]"
    then have "i = 0 \<or> i = 1" by auto
    then show "valid_index (take 1 [2, 2]) (take 1 (drop (nat (i * int 1)) [1, 0 :: int]))" by auto
  qed
  then show ?thesis
    using gather_nd_picks_slices [of "[2, 2]" "[2]" 1 "[5 :: int, 6, 7, 8]" "[1, 0]" "[0, 0, 0, 0]" "[2, 2]"]
    by (auto simp: FlatSize_def)
qed

end
