(* ===== verification/Lite_Slice.thy ===== *)
theory Lite_Slice
  imports Lite_Shape
begin

text \<open>
  The kernels that cut boxes out of a tensor or put one into a bigger tensor: \<open>Pad\<close>, \<open>Slice\<close> and
  \<open>StridedSlice\<close>, with \<open>SequentialTensorWriter\<close> and the index logic of \<open>strided_slice_logic.h\<close>.
\<close>

section \<open>Padding\<close>

record pad_params =
  left_padding_count :: int
  left_padding :: "int list"
  right_padding_count :: int
  right_padding :: "int list"

definition pad_border :: "int list \<Rightarrow> int list \<Rightarrow> int list \<Rightarrow> int \<times> int \<times> int \<times> int \<Rightarrow> bool" where
  "pad_border left right out_dims = (\<lambda>(out_b, out_h, out_w, out_d).
     out_b < left ! 0 \<or> out_b \<ge> out_dims ! 0 - right ! 0 \<or>
     out_h < left ! 1 \<or> out_h \<ge> out_dims ! 1 - right ! 1 \<or>
     out_w < left ! 2 \<or> out_w \<ge> out_dims ! 2 - right ! 2 \<or>
     out_d < left ! 3 \<or> out_d \<ge> out_dims ! 3 - right ! 3)"

definition PadImpl :: "pad_params \<Rightarrow> shape \<Rightarrow> 'a list \<Rightarrow> 'a \<Rightarrow> shape \<Rightarrow> 'a list \<Rightarrow> 'a list option" where
  "PadImpl op_params input_shape input_data pad_value output_shape output_data = do {
     ext_input_shape \<leftarrow> ExtendedShape 4 input_shape;
     ext_output_shape \<leftarrow> ExtendedShape 4 output_shape;
     _ \<leftarrow> check (left_padding_count op_params \<le> 4);
     _ \<leftarrow> check (right_padding_count op_params \<le> 4);
     left_padding_copy \<leftarrow> for_range 0 (left_padding_count op_params) (\<lambda>i c. do {
        v \<leftarrow> rd (left_padding op_params) i; wr c i v }) (replicate 4 0);
     right_padding_copy \<leftarrow> for_range 0 (right_padding_count op_params) (\<lambda>i c. do {
        v \<leftarrow> rd (right_padding op_params) i; wr c i v }) (replicate 4 0);
     output_batch \<leftarrow> Dims ext_output_shape 0;
     output_height \<leftarrow> Dims ext_output_shape 1;
     output_width \<leftarrow> Dims ext_output_shape 2;
     output_depth \<leftarrow> Dims ext_output_shape 3;
     (output_data, out_ptr, in_ptr) \<leftarrow>
       for_range 0 output_batch (\<lambda>out_b. for_range 0 output_height (\<lambda>out_h.
       for_range 0 output_width (\<lambda>out_w. for_range 0 output_depth (\<lambda>out_d (output_data, out_ptr, in_ptr).
         if pad_border left_padding_copy right_padding_copy ext_output_shape (out_b, out_h, out_w, out_d)
         then do { output_data \<leftarrow> wr output_data out_ptr pad_value; Some (output_data, out_ptr + 1, in_ptr) }
         else do {
           v \<leftarrow> rd input_data in_ptr;
           output_data \<leftarrow> wr output_data out_ptr v;
           Some (output_data, out_ptr + 1, in_ptr + 1) })))) (output_data, 0, 0);
     Some output_data }"

definition Pad :: "pad_params \<Rightarrow> shape \<Rightarrow> 'a list \<Rightarrow> 'a \<Rightarrow> shape \<Rightarrow> 'a list \<Rightarrow> 'a list option" where
  "Pad op_params input_shape input_data pad_value output_shape output_data =
     PadImpl op_params input_shape input_data pad_value output_shape output_data"

text \<open>The overload with an \<open>int32\<close> pad value, which is cast to the element type.\<close>

definition Pad_int32 ::
    "(int \<Rightarrow> 'a) \<Rightarrow> pad_params \<Rightarrow> shape \<Rightarrow> 'a list \<Rightarrow> int \<Rightarrow> shape \<Rightarrow> 'a list \<Rightarrow> 'a list option" where
  "Pad_int32 static_cast op_params input_shape input_data pad_value output_shape output_data =
     PadImpl op_params input_shape input_data (static_cast pad_value) output_shape output_data"

text \<open>\<open>PadImageStyle\<close> exists for \<open>uint8\<close>, \<open>int8_t\<close> and \<open>float\<close> elements and asserts false for any other type.\<close>

definition PadImageStyle ::
    "bool \<Rightarrow> pad_params \<Rightarrow> shape \<Rightarrow> 'a list \<Rightarrow> 'a \<Rightarrow> shape \<Rightarrow> 'a list \<Rightarrow> 'a list option" where
  "PadImageStyle image_type op_params input_shape input_data pad_value output_shape output_data =
     (if image_type then Pad op_params input_shape input_data pad_value output_shape output_data else None)"

section \<open>Slicing\<close>

record 'a sequential_writer =
  stw_input :: "'a list"
  stw_output :: "'a list"
  stw_ptr :: int

definition stw_Write :: "int \<Rightarrow> 'a sequential_writer \<Rightarrow> 'a sequential_writer option" where
  "stw_Write position w = do {
     v \<leftarrow> rd (stw_input w) position;
     out \<leftarrow> wr (stw_output w) (stw_ptr w) v;
     Some (w\<lparr>stw_output := out, stw_ptr := stw_ptr w + 1\<rparr>) }"

definition stw_WriteN :: "int \<Rightarrow> int \<Rightarrow> 'a sequential_writer \<Rightarrow> 'a sequential_writer option" where
  "stw_WriteN position len w = do {
     out \<leftarrow> memcpy_at (stw_output w) (stw_ptr w) (stw_input w) position len;
     Some (w\<lparr>stw_output := out, stw_ptr := stw_ptr w + len\<rparr>) }"

record slice_params =
  begin_count :: int
  slice_begin :: "int list"
  size_count :: int
  slice_size :: "int list"

text \<open>The bounds of one axis, \<open>back\<close> places from the end of the parameters.\<close>

definition slice_start :: "slice_params \<Rightarrow> int \<Rightarrow> int option" where
  "slice_start p back = (if begin_count p < back then Some 0 else rd (slice_begin p) (begin_count p - back))"

definition slice_stop :: "slice_params \<Rightarrow> shape \<Rightarrow> int \<Rightarrow> int \<Rightarrow> int \<Rightarrow> int option" where
  "slice_stop p ext_shape axis back start =
     (if size_count p < back then Dims ext_shape axis
      else do {
        n \<leftarrow> rd (slice_size p) (size_count p - back);
        if n = - 1 then Dims ext_shape axis else Some (start + n) })"

definition Slice_writer :: "slice_params \<Rightarrow> shape \<Rightarrow> shape \<Rightarrow> 'a sequential_writer \<Rightarrow> 'a sequential_writer option" where
  "Slice_writer op_params input_shape output_shape writer = do {
     ext_shape \<leftarrow> ExtendedShape 4 input_shape;
     _ \<leftarrow> check (begin_count op_params \<le> 4);
     _ \<leftarrow> check (size_count op_params \<le> 4);
     start_b \<leftarrow> slice_start op_params 4;
     stop_b \<leftarrow> slice_stop op_params ext_shape 0 4 start_b;
     start_h \<leftarrow> slice_start op_params 3;
     stop_h \<leftarrow> slice_stop op_params ext_shape 1 3 start_h;
     start_w \<leftarrow> slice_start op_params 2;
     stop_w \<leftarrow> slice_stop op_params ext_shape 2 2 start_w;
     start_d \<leftarrow> slice_start op_params 1;
     stop_d \<leftarrow> slice_stop op_params ext_shape 3 1 start_d;
     for_range start_b stop_b (\<lambda>in_b. for_range start_h stop_h (\<lambda>in_h.
       for_range start_w stop_w (\<lambda>in_w. for_range start_d stop_d (\<lambda>in_d writer. do {
         position \<leftarrow> Offset ext_shape in_b in_h in_w in_d;
         stw_Write position writer })))) writer }"

definition Slice :: "slice_params \<Rightarrow> shape \<Rightarrow> 'a list \<Rightarrow> shape \<Rightarrow> 'a list \<Rightarrow> 'a list option" where
  "Slice op_params input_shape input_data output_shape output_data =
     map_option stw_output
       (Slice_writer op_params input_shape output_shape
          \<lparr>stw_input = input_data, stw_output = output_data, stw_ptr = 0\<rparr>)"

section \<open>Boxes in row-major order\<close>

text \<open>The indices of a tensor, in the order of the loops, have the offsets 0, 1, 2, and so on.\<close>

lemma concat_concat_map: "concat (map (\<lambda>x. concat (f x)) xs) = concat (concat (map f xs))"
  by (induction xs) simp_all

lemma map_product: "map f (List.product xs ys) = concat (map (\<lambda>x. map (\<lambda>y. f (x, y)) ys) xs)"
  by (induction xs) (simp_all add: o_def)

lemma offsets2: "0 \<le> n \<Longrightarrow> 0 \<le> m \<Longrightarrow> map (\<lambda>(i, j). i * m + j) (List.product [0..n - 1] [0..m - 1]) = [0..n * m - 1]"
  by (simp add: map_product upto_blocks)

lemma map_product_nested:
  "map (\<lambda>(i, r). f i r) (List.product xs (map g ys)) = map (\<lambda>(i, r). f i (g r)) (List.product xs ys)"
  by (simp add: map_product o_def)

lemma product_assoc:
  "List.product xs (List.product ys zs) = map (\<lambda>((x, y), z). (x, y, z)) (List.product (List.product xs ys) zs)"
proof (induction xs)
  case (Cons x xs)
  have "List.product (map (Pair x) ys) zs = map (\<lambda>(y, z). ((x, y), z)) (List.product ys zs)"
    by (induction ys) (simp_all add: o_def)
  moreover have "List.product (as @ bs) cs = List.product as cs @ List.product bs cs" for as bs :: "('a \<times> 'b) list" and cs :: "'c list"
    by (induction as) simp_all
  ultimately show ?case using Cons by (simp add: o_def case_prod_unfold)
qed simp

lemma offsets3:
  assumes "0 \<le> d0" "0 \<le> d1" "0 \<le> d2"
  shows "map (off3 d1 d2) (idx3 d0 d1 d2) = [0..d0 * d1 * d2 - 1]"
proof -
  have "map (off3 d1 d2) (idx3 d0 d1 d2) =
      map (\<lambda>((i, j), k). (i * d1 + j) * d2 + k) (List.product (List.product [0..d0 - 1] [0..d1 - 1]) [0..d2 - 1])"
    by (simp add: idx3_def product_assoc off3_def o_def case_prod_unfold)
  also have "\<dots> = map (\<lambda>(p, k). p * d2 + k) (List.product (map (\<lambda>(i, j). i * d1 + j) (List.product [0..d0 - 1] [0..d1 - 1])) [0..d2 - 1])"
    by (simp add: map_product case_prod_unfold o_def map_concat)
  also have "\<dots> = [0..d0 * d1 * d2 - 1]" using assms by (simp add: offsets2)
  finally show ?thesis .
qed

lemma offsets4:
  assumes "0 \<le> d0" "0 \<le> d1" "0 \<le> d2" "0 \<le> d3"
  shows "map (off4 d1 d2 d3) (idx4 d0 d1 d2 d3) = [0..size4 d0 d1 d2 d3 - 1]"
proof -
  have "map (off4 d1 d2 d3) (idx4 d0 d1 d2 d3) =
      map (\<lambda>(p, k). p * d3 + k) (List.product (map (off3 d1 d2) (idx3 d0 d1 d2)) [0..d3 - 1])"
    by (simp add: idx4_def idx3_def product_assoc off3_def off4_def o_def case_prod_unfold map_product map_concat concat_concat_map)
  also have "\<dots> = [0..d0 * d1 * d2 * d3 - 1]" using assms by (simp add: offsets3 offsets2)
  finally show ?thesis by (simp add: size4_def)
qed

text \<open>A box inside a tensor: the indices between bounds, in the order of the tensor.\<close>

lemma filter_product:
  "filter (\<lambda>(x, y). P x \<and> Q y) (List.product xs ys) = List.product (filter P xs) (filter Q ys)"
proof (induction xs)
  case (Cons x xs)
  have "filter (\<lambda>(x, y). P x \<and> Q y) (map (Pair x) ys) = (if P x then map (Pair x) (filter Q ys) else [])"
    by (induction ys) auto
  with Cons show ?case by simp
qed simp

lemma filter_upto: "0 \<le> l \<Longrightarrow> h \<le> d \<Longrightarrow> filter (\<lambda>i. l \<le> i \<and> i < h) [0..d - 1] = [l..h - 1]"
proof (cases "l \<le> h")
  case True
  assume a: "0 \<le> l" "h \<le> d"
  have "[0..d - 1] = [0..l - 1] @ [l..h - 1] @ [h..d - 1]"
    using a True upto_append [of 0 l "d - 1"] upto_append [of l h "d - 1"] by simp
  moreover have "filter (\<lambda>i. l \<le> i \<and> i < h) [0..l - 1] = []" "filter (\<lambda>i. l \<le> i \<and> i < h) [h..d - 1] = []"
    "filter (\<lambda>i. l \<le> i \<and> i < h) [l..h - 1] = [l..h - 1]"
    by (auto simp: filter_empty_conv filter_id_conv)
  ultimately show ?thesis by simp
next
  case False
  then have "[l..h - 1] = []" by simp
  moreover have "filter (\<lambda>i. l \<le> i \<and> i < h) [0..d - 1] = []" using False by (auto simp: filter_empty_conv)
  ultimately show ?thesis by simp
qed

definition box4 :: "int \<Rightarrow> int \<Rightarrow> int \<Rightarrow> int \<Rightarrow> int \<Rightarrow> int \<Rightarrow> int \<Rightarrow> int \<Rightarrow> (int \<times> int \<times> int \<times> int) list" where
  "box4 l0 h0 l1 h1 l2 h2 l3 h3 = List.product [l0..h0 - 1] (List.product [l1..h1 - 1] (List.product [l2..h2 - 1] [l3..h3 - 1]))"

lemma for_range_box4:
  "for_range l0 h0 (\<lambda>i0. for_range l1 h1 (\<lambda>i1. for_range l2 h2 (\<lambda>i2. for_range l3 h3 (\<lambda>i3. body i0 i1 i2 i3)))) s =
   foldM (\<lambda>(i0, i1, i2, i3). body i0 i1 i2 i3) (box4 l0 h0 l1 h1 l2 h2 l3 h3) s"
  by (simp add: for_range_def box4_def foldM_product_fun case_prod_unfold)

lemma set_box4 [simp]:
  "(i0, i1, i2, i3) \<in> set (box4 l0 h0 l1 h1 l2 h2 l3 h3) \<longleftrightarrow>
   (l0 \<le> i0 \<and> i0 < h0) \<and> (l1 \<le> i1 \<and> i1 < h1) \<and> (l2 \<le> i2 \<and> i2 < h2) \<and> (l3 \<le> i3 \<and> i3 < h3)"
  by (auto simp: box4_def)

lemma length_box4:
  "l0 \<le> h0 \<Longrightarrow> l1 \<le> h1 \<Longrightarrow> l2 \<le> h2 \<Longrightarrow> l3 \<le> h3 \<Longrightarrow>
   int (length (box4 l0 h0 l1 h1 l2 h2 l3 h3)) = size4 (h0 - l0) (h1 - l1) (h2 - l2) (h3 - l3)"
  by (simp add: box4_def size4_def length_product mult.assoc)

lemma filter_idx4:
  assumes "0 \<le> l0" "h0 \<le> d0" "0 \<le> l1" "h1 \<le> d1" "0 \<le> l2" "h2 \<le> d2" "0 \<le> l3" "h3 \<le> d3"
  shows "filter (\<lambda>x. x \<in> set (box4 l0 h0 l1 h1 l2 h2 l3 h3)) (idx4 d0 d1 d2 d3) = box4 l0 h0 l1 h1 l2 h2 l3 h3"
proof -
  have "filter (\<lambda>x. x \<in> set (box4 l0 h0 l1 h1 l2 h2 l3 h3)) (idx4 d0 d1 d2 d3) =
     filter (\<lambda>(i0, r). (l0 \<le> i0 \<and> i0 < h0) \<and> (\<lambda>(i1, r). (l1 \<le> i1 \<and> i1 < h1) \<and>
       (\<lambda>(i2, i3). (l2 \<le> i2 \<and> i2 < h2) \<and> (l3 \<le> i3 \<and> i3 < h3)) r) r) (idx4 d0 d1 d2 d3)"
    by (rule filter_cong) auto
  then show ?thesis unfolding idx4_def filter_product
    using assms by (simp add: filter_upto box4_def)
qed

lemma zip_offsets:
  assumes "map g xs = [0..int (length t) - 1]"
  shows "zip xs t = map (\<lambda>x. (x, t ! nat (g x))) xs"
proof (rule nth_equalityI)
  have "length xs = length t" using arg_cong [OF assms, of length] by simp
  then show "length (zip xs t) = length (map (\<lambda>x. (x, t ! nat (g x))) xs)" by simp
  fix n assume n: "n < length (zip xs t)"
  then have "g (xs ! n) = [0..int (length t) - 1] ! n" using assms by (metis length_zip min_less_iff_conj nth_map)
  with n show "zip xs t ! n = map (\<lambda>x. (x, t ! nat (g x))) xs ! n" by simp
qed

section \<open>Padding and slicing\<close>

lemma pad_loop:
  assumes l: "length xs \<le> length out" and i: "length (filter (\<lambda>x. \<not> border x) xs) \<le> length input"
  shows "\<exists>t ip. foldM (\<lambda>x (out, op, ip). if border x
         then do { out \<leftarrow> wr out op pad; Some (out, op + 1, ip) }
         else do { v \<leftarrow> rd input ip; out \<leftarrow> wr out op v; Some (out, op + 1, ip + 1) }) xs (out, 0, 0) =
       Some (t, int (length xs), ip) \<and> length t = length out \<and>
     map snd (filter (\<lambda>(x, v). \<not> border x) (zip xs t)) = take (length (filter (\<lambda>x. \<not> border x) xs)) input \<and>
     (\<forall>n<length xs. border (xs ! n) \<longrightarrow> t ! n = pad)"
proof -
  let ?f = "\<lambda>x (out, op, ip). if border x
         then do { out \<leftarrow> wr out op pad; Some (out, op + 1, ip) }
         else do { v \<leftarrow> rd input ip; out \<leftarrow> wr out op v; Some (out, op + 1, ip + 1) }"
  let ?c = "\<lambda>pre. length (filter (\<lambda>x. \<not> border x) pre)"
  let ?J = "\<lambda>pre (t, op, ip). op = int (length pre) \<and> ip = int (?c pre) \<and> length t = length out \<and>
     map snd (filter (\<lambda>(x, v). \<not> border x) (zip pre t)) = take (?c pre) input \<and>
     (\<forall>n<length pre. border (pre ! n) \<longrightarrow> t ! n = pad)"
  have "\<exists>s. foldM ?f xs (out, 0, 0) = Some s \<and> ?J xs s"
  proof (rule foldM_invar)
    show "?J [] (out, 0, 0)" by simp
  next
    fix pre x post s
    assume xs: "xs = pre @ x # post" and J: "?J pre s"
    obtain t where s: "s = (t, int (length pre), int (?c pre))" and t: "length t = length out"
      "map snd (filter (\<lambda>(x, v). \<not> border x) (zip pre t)) = take (?c pre) input"
      "\<forall>n<length pre. border (pre ! n) \<longrightarrow> t ! n = pad" using J by (cases s) auto
    have p: "length pre < length t" using l xs t(1) by simp
    have z: "zip (pre @ [x]) (t[length pre := v]) = zip pre t @ [(x, v)]" for v
    proof -
      have "zip pre t = zip pre (take (length pre) t)" using zip_append1 [of pre "[]" t] by simp
      then show ?thesis using p by (simp add: zip_append1 drop_update_swap Cons_nth_drop_Suc [symmetric])
    qed
    show "\<exists>s'. ?f x s = Some s' \<and> ?J (pre @ [x]) s'"
    proof (cases "border x")
      case True
      then show ?thesis using p t s z [of pad] by (auto simp: wr_def nth_append less_Suc_eq)
    next
      case False
      then have "?c pre < length input" using i xs by simp
      then show ?thesis using False p t s z [of "input ! ?c pre"]
        by (auto simp: rd_def wr_def nth_append less_Suc_eq take_Suc_conv_app_nth)
    qed
  qed
  then show ?thesis by auto
qed

lemma stw_loop:
  assumes g: "\<And>x. x \<in> set xs \<Longrightarrow> pos x = Some (g x) \<and> 0 \<le> g x \<and> g x < int (length input)" and l: "length xs \<le> length out"
  shows "\<exists>w. foldM (\<lambda>x w. do { p \<leftarrow> pos x; stw_Write p w }) xs \<lparr>stw_input = input, stw_output = out, stw_ptr = 0\<rparr> = Some w \<and>
     stw_output w = map (\<lambda>x. input ! nat (g x)) xs @ drop (length xs) out"
proof -
  let ?J = "\<lambda>pre w. w = \<lparr>stw_input = input, stw_output = map (\<lambda>x. input ! nat (g x)) pre @ drop (length pre) out,
      stw_ptr = int (length pre)\<rparr>"
  have "\<exists>w. foldM (\<lambda>x w. do { p \<leftarrow> pos x; stw_Write p w }) xs \<lparr>stw_input = input, stw_output = out, stw_ptr = 0\<rparr> = Some w \<and> ?J xs w"
  proof (rule foldM_invar)
    show "?J [] \<lparr>stw_input = input, stw_output = out, stw_ptr = 0\<rparr>" by simp
  next
    fix pre x post w
    assume xs: "xs = pre @ x # post" and J: "?J pre w"
    have "length pre < length out" using l xs by simp
    then have "drop (length pre) out = out ! length pre # drop (Suc (length pre)) out" by (simp add: Cons_nth_drop_Suc)
    then show "\<exists>w'. do { p \<leftarrow> pos x; stw_Write p w } = Some w' \<and> ?J (pre @ [x]) w'"
      using g [of x] xs J by (simp add: stw_Write_def rd_def wr_def list_update_append)
  qed
  then show ?thesis by auto
qed

lemma four_copies:
  "for_range 0 4 (\<lambda>i c. do { v \<leftarrow> rd [a0, a1, a2, a3] i; wr c i v }) (replicate 4 0) = Some [a0, a1, a2, a3]"
  by (simp add: for_range_0_4 rd_def wr_def numeral_eq_Suc)

text \<open>
  The parameters of a slice name the trailing axes: a list with fewer than four entries is filled up
  at the front, the beginnings with 0 and the sizes with -1, which stands for the rest of the axis.
\<close>

definition front_fill :: "'a \<Rightarrow> 'a list \<Rightarrow> 'a list" where
  "front_fill c xs = replicate (4 - length xs) c @ xs"

lemma front_fill_nth:
  assumes "length xs \<le> 4" and "back \<le> 4" and "0 < back"
  shows "front_fill c xs ! (4 - back) = (if length xs < back then c else xs ! (length xs - back))"
proof -
  have "4 - back - (4 - length xs) = length xs - back" "4 - back < 4 - length xs \<longleftrightarrow> length xs < back"
    using assms by auto
  then show ?thesis unfolding front_fill_def nth_append by simp
qed

lemma rd_from_end:
  "back \<le> length xs \<Longrightarrow> 0 < back \<Longrightarrow> rd xs (int (length xs) - int back) = Some (xs ! (length xs - back))"
  by (simp add: rd_def nat_diff_distrib del: of_nat_diff)

lemma slice_start_front_fill:
  assumes "begin_count p = int (length (slice_begin p))" and "length (slice_begin p) \<le> 4" and "back \<le> 4" "0 < back"
  shows "slice_start p (int back) = Some (front_fill 0 (slice_begin p) ! (4 - back))"
  using assms by (auto simp: slice_start_def front_fill_nth rd_from_end)

lemma slice_stop_front_fill:
  assumes "size_count p = int (length (slice_size p))" and "length (slice_size p) \<le> 4" and "back \<le> 4" "0 < back"
    and "Dims s axis = Some d" and "front_fill (- 1) (slice_size p) ! (4 - back) = n"
  shows "slice_stop p s axis (int back) start = Some (if n = - 1 then d else start + n)"
  using assms by (auto simp: slice_stop_def front_fill_nth rd_from_end split: if_splits)

lemma Slice_spec:
  assumes ui: "ExtendedShape 4 ui = Some [d0, d1, d2, d3]"
    and bc: "begin_count p = int (length (slice_begin p))" "length (slice_begin p) \<le> 4"
    and sc: "size_count p = int (length (slice_size p))" "length (slice_size p) \<le> 4"
    and b: "front_fill 0 (slice_begin p) = [l0, l1, l2, l3]" and z: "front_fill (- 1) (slice_size p) = [z0, z1, z2, z3]"
    and n: "z0 = n0 \<or> z0 = - 1 \<and> l0 + n0 = d0" "z1 = n1 \<or> z1 = - 1 \<and> l1 + n1 = d1"
      "z2 = n2 \<or> z2 = - 1 \<and> l2 + n2 = d2" "z3 = n3 \<or> z3 = - 1 \<and> l3 + n3 = d3"
    and nn: "0 \<le> l0" "0 \<le> l1" "0 \<le> l2" "0 \<le> l3" "l0 + n0 \<le> d0" "l1 + n1 \<le> d1" "l2 + n2 \<le> d2" "l3 + n3 \<le> d3"
      "0 \<le> n0" "0 \<le> n1" "0 \<le> n2" "0 \<le> n3"
    and li: "int (length input) = size4 d0 d1 d2 d3" and lo: "int (length output) = size4 n0 n1 n2 n3"
  shows "Slice p ui input uo output =
     Some (map (\<lambda>x. input ! nat (off4 d1 d2 d3 x)) (box4 l0 (l0 + n0) l1 (l1 + n1) l2 (l2 + n2) l3 (l3 + n3)))"
proof -
  let ?B = "box4 l0 (l0 + n0) l1 (l1 + n1) l2 (l2 + n2) l3 (l3 + n3)"
  let ?pos = "\<lambda>(i0, i1, i2, i3). Offset [d0, d1, d2, d3] i0 i1 i2 i3"
  have idx: "x \<in> set (idx4 d0 d1 d2 d3)" if "x \<in> set ?B" for x
  proof -
    obtain i0 i1 i2 i3 where "x = (i0, i1, i2, i3)" using prod_cases4 by blast
    with that nn show ?thesis by auto
  qed
  have g: "?pos x = Some (off4 d1 d2 d3 x) \<and> 0 \<le> off4 d1 d2 d3 x \<and> off4 d1 d2 d3 x < int (length input)" if "x \<in> set ?B" for x
  proof -
    obtain i0 i1 i2 i3 where X: "x = (i0, i1, i2, i3)" using prod_cases4 by blast
    show ?thesis using idx [OF that] nhwc.offset_range [OF idx [OF that]] li
      unfolding X by (simp add: Offset_eq del: set_idx4)
  qed
  have len: "length ?B = length output" using lo nn length_box4 [of l0 "l0 + n0" l1 "l1 + n1" l2 "l2 + n2" l3 "l3 + n3"] by simp
  then obtain w where w: "foldM (\<lambda>x w. do { p \<leftarrow> ?pos x; stw_Write p w }) ?B
      \<lparr>stw_input = input, stw_output = output, stw_ptr = 0\<rparr> = Some w"
    "stw_output w = map (\<lambda>x. input ! nat (off4 d1 d2 d3 x)) ?B"
    using stw_loop [of ?B ?pos "off4 d1 d2 d3" input "output", OF g] by auto
  have loop: "foldM (\<lambda>x w. do { p \<leftarrow> ?pos x; stw_Write p w }) ?B s =
      foldM (\<lambda>(i0, i1, i2, i3) w. do { p \<leftarrow> Offset [d0, d1, d2, d3] i0 i1 i2 i3; stw_Write p w }) ?B s" for s
    by (rule foldM_cong) auto
  note start = slice_start_front_fill [OF bc, unfolded b]
  have starts: "slice_start p 4 = Some l0" "slice_start p 3 = Some l1" "slice_start p 2 = Some l2" "slice_start p 1 = Some l3"
    using start [of 4] start [of 3] start [of 2] start [of 1] by simp_all
  note stop = slice_stop_front_fill [OF sc, unfolded z]
  have stops: "slice_stop p [d0, d1, d2, d3] 0 4 l0 = Some (l0 + n0)" "slice_stop p [d0, d1, d2, d3] 1 3 l1 = Some (l1 + n1)"
    "slice_stop p [d0, d1, d2, d3] 2 2 l2 = Some (l2 + n2)" "slice_stop p [d0, d1, d2, d3] 3 1 l3 = Some (l3 + n3)"
    using stop [of 4 "[d0, d1, d2, d3]" 0 d0 z0 l0] stop [of 3 "[d0, d1, d2, d3]" 1 d1 z1 l1]
      stop [of 2 "[d0, d1, d2, d3]" 2 d2 z2 l2] stop [of 1 "[d0, d1, d2, d3]" 3 d3 z3 l3] n nn(9-12)
    by (auto simp: Dims4 split: if_splits)
  have counts: "begin_count p \<le> 4" "size_count p \<le> 4" using bc sc by simp_all
  from w(1) [unfolded loop] w(2) show ?thesis
    by (simp add: Slice_def Slice_writer_def ui counts starts stops for_range_box4)
qed

lemma PadImpl_spec:
  assumes uo: "ExtendedShape 4 uo = Some [l0 + n0 + r0, l1 + n1 + r1, l2 + n2 + r2, l3 + n3 + r3]"
    and ui: "ExtendedShape 4 ui = Some [n0, n1, n2, n3]"
    and nn: "0 \<le> l0" "0 \<le> l1" "0 \<le> l2" "0 \<le> l3" "0 \<le> r0" "0 \<le> r1" "0 \<le> r2" "0 \<le> r3" "0 \<le> n0" "0 \<le> n1" "0 \<le> n2" "0 \<le> n3"
    and li: "int (length input) = size4 n0 n1 n2 n3"
    and lo: "int (length output) = size4 (l0 + n0 + r0) (l1 + n1 + r1) (l2 + n2 + r2) (l3 + n3 + r3)"
  shows "\<exists>out. PadImpl \<lparr>left_padding_count = 4, left_padding = [l0, l1, l2, l3],
         right_padding_count = 4, right_padding = [r0, r1, r2, r3]\<rparr> ui input pad uo output = Some out \<and>
     length out = length output \<and>
     map (\<lambda>x. out ! nat (off4 (l1 + n1 + r1) (l2 + n2 + r2) (l3 + n3 + r3) x))
       (box4 l0 (l0 + n0) l1 (l1 + n1) l2 (l2 + n2) l3 (l3 + n3)) = input \<and>
     (\<forall>x\<in>set (idx4 (l0 + n0 + r0) (l1 + n1 + r1) (l2 + n2 + r2) (l3 + n3 + r3)).
        x \<notin> set (box4 l0 (l0 + n0) l1 (l1 + n1) l2 (l2 + n2) l3 (l3 + n3)) \<longrightarrow>
        out ! nat (off4 (l1 + n1 + r1) (l2 + n2 + r2) (l3 + n3 + r3) x) = pad)"
proof -
  let ?d0 = "l0 + n0 + r0" and ?d1 = "l1 + n1 + r1" and ?d2 = "l2 + n2 + r2" and ?d3 = "l3 + n3 + r3"
  let ?I = "idx4 ?d0 ?d1 ?d2 ?d3" and ?g = "off4 ?d1 ?d2 ?d3"
    and ?B = "box4 l0 (l0 + n0) l1 (l1 + n1) l2 (l2 + n2) l3 (l3 + n3)"
  let ?border = "pad_border [l0, l1, l2, l3] [r0, r1, r2, r3] [?d0, ?d1, ?d2, ?d3]"
  have bd: "?border x \<longleftrightarrow> x \<notin> set ?B" for x
    by (cases x) (auto simp: pad_border_def)
  have fB: "filter (\<lambda>x. \<not> ?border x) ?I = ?B" unfolding bd not_not
    using nn by (intro filter_idx4) auto
  have lB: "length ?B = length input" using li nn length_box4 [of l0 "l0 + n0" l1 "l1 + n1" l2 "l2 + n2" l3 "l3 + n3"] by simp
  have lI: "length ?I = length output" using lo nn length_idx4 [of ?d0 ?d1 ?d2 ?d3] by simp
  let ?f = "\<lambda>x (out, op, ip). if ?border x
         then do { out \<leftarrow> wr out op pad; Some (out, op + 1, ip) }
         else do { v \<leftarrow> rd input ip; out \<leftarrow> wr out op v; Some (out, op + 1, ip + 1) }"
  obtain t ip where t: "foldM ?f ?I (output, 0, 0) = Some (t, int (length ?I), ip)" "length t = length output"
    "map snd (filter (\<lambda>(x, v). \<not> ?border x) (zip ?I t)) = take (length (filter (\<lambda>x. \<not> ?border x) ?I)) input"
    "\<forall>n<length ?I. ?border (?I ! n) \<longrightarrow> t ! n = pad"
    using pad_loop [of ?I "output" ?border input pad] lI lB fB by auto
  have off: "map ?g ?I = [0..int (length t) - 1]" using offsets4 [of ?d0 ?d1 ?d2 ?d3] nn t(2) lo by simp
  have z: "zip ?I t = map (\<lambda>x. (x, t ! nat (?g x))) ?I" by (rule zip_offsets [OF off])
  have e: "map snd (filter (\<lambda>(x, v). \<not> ?border x) (zip ?I t)) = map (\<lambda>x. t ! nat (?g x)) (filter (\<lambda>x. \<not> ?border x) ?I)"
    unfolding z by (simp add: filter_map o_def)
  have in_box: "map (\<lambda>x. t ! nat (?g x)) ?B = input"
    using trans [OF e [symmetric] t(3)] unfolding fB lB take_all [OF order_refl] .
  have out_box: "t ! nat (?g x) = pad" if x: "x \<in> set ?I" "x \<notin> set ?B" for x
  proof -
    obtain n where n: "n < length ?I" "?I ! n = x" using x(1) by (auto simp: in_set_conv_nth)
    have "?g x = [0..int (length t) - 1] ! n" using off n by (metis nth_map)
    then have "nat (?g x) = n" using n lI t(2) by simp
    then show ?thesis using t(4) n x(2) bd by simp
  qed
  have "foldM ?f ?I s = foldM (\<lambda>(out_b, out_h, out_w, out_d) (output_data, out_ptr, in_ptr).
         if ?border (out_b, out_h, out_w, out_d)
         then do { output_data \<leftarrow> wr output_data out_ptr pad; Some (output_data, out_ptr + 1, in_ptr) }
         else do {
           v \<leftarrow> rd input in_ptr;
           output_data \<leftarrow> wr output_data out_ptr v;
           Some (output_data, out_ptr + 1, in_ptr + 1) }) ?I s" for s
    by (rule foldM_cong) auto
  then have "PadImpl \<lparr>left_padding_count = 4, left_padding = [l0, l1, l2, l3],
         right_padding_count = 4, right_padding = [r0, r1, r2, r3]\<rparr> ui input pad uo output = Some t"
    using t(1) by (simp add: PadImpl_def ui uo four_copies Dims4 for_range4)
  with t(2) in_box out_box show ?thesis by blast
qed

text \<open>
  C28: \<open>Slice\<close> undoes \<open>Pad\<close>.  Padding a tensor by four paddings on either side runs inside the buffers
  and puts the pad value in every cell of the border.  Cutting the box between the paddings out of
  the result gives the tensor back, however the parameters of the slice name the box: with up to four
  beginnings and up to four sizes, which count from the last axis, where axes without a beginning
  start at 0 and axes without a size, or with size -1, go to their end.
\<close>

theorem pad_slice_roundtrip:
  assumes "ExtendedShape 4 uo = Some [l0 + n0 + r0, l1 + n1 + r1, l2 + n2 + r2, l3 + n3 + r3]"
    and "ExtendedShape 4 ui = Some [n0, n1, n2, n3]"
    and "0 \<le> l0" "0 \<le> l1" "0 \<le> l2" "0 \<le> l3" and "0 \<le> r0" "0 \<le> r1" "0 \<le> r2" "0 \<le> r3" and "0 \<le> n0" "0 \<le> n1" "0 \<le> n2" "0 \<le> n3"
    and "int (length input) = size4 n0 n1 n2 n3" and "length back = length input"
    and "int (length output) = size4 (l0 + n0 + r0) (l1 + n1 + r1) (l2 + n2 + r2) (l3 + n3 + r3)"
    and "begin_count p = int (length (slice_begin p))" "length (slice_begin p) \<le> 4"
    and "size_count p = int (length (slice_size p))" "length (slice_size p) \<le> 4"
    and "front_fill 0 (slice_begin p) = [l0, l1, l2, l3]" and "front_fill (- 1) (slice_size p) = [z0, z1, z2, z3]"
    and "z0 = n0 \<or> z0 = - 1 \<and> r0 = 0" "z1 = n1 \<or> z1 = - 1 \<and> r1 = 0" "z2 = n2 \<or> z2 = - 1 \<and> r2 = 0" "z3 = n3 \<or> z3 = - 1 \<and> r3 = 0"
  shows "\<exists>out. Pad \<lparr>left_padding_count = 4, left_padding = [l0, l1, l2, l3],
         right_padding_count = 4, right_padding = [r0, r1, r2, r3]\<rparr> ui input pad uo output = Some out \<and>
     (\<forall>x\<in>set (idx4 (l0 + n0 + r0) (l1 + n1 + r1) (l2 + n2 + r2) (l3 + n3 + r3)).
        x \<notin> set (box4 l0 (l0 + n0) l1 (l1 + n1) l2 (l2 + n2) l3 (l3 + n3)) \<longrightarrow>
        out ! nat (off4 (l1 + n1 + r1) (l2 + n2 + r2) (l3 + n3 + r3) x) = pad) \<and>
     Slice p uo out ui back = Some input"
proof -
  obtain out where out: "PadImpl \<lparr>left_padding_count = 4, left_padding = [l0, l1, l2, l3],
         right_padding_count = 4, right_padding = [r0, r1, r2, r3]\<rparr> ui input pad uo output = Some out"
    "length out = length output"
    "map (\<lambda>x. out ! nat (off4 (l1 + n1 + r1) (l2 + n2 + r2) (l3 + n3 + r3) x))
       (box4 l0 (l0 + n0) l1 (l1 + n1) l2 (l2 + n2) l3 (l3 + n3)) = input"
    "\<forall>x\<in>set (idx4 (l0 + n0 + r0) (l1 + n1 + r1) (l2 + n2 + r2) (l3 + n3 + r3)).
        x \<notin> set (box4 l0 (l0 + n0) l1 (l1 + n1) l2 (l2 + n2) l3 (l3 + n3)) \<longrightarrow>
        out ! nat (off4 (l1 + n1 + r1) (l2 + n2 + r2) (l3 + n3 + r3) x) = pad"
    using PadImpl_spec [OF assms(1-15,17)] by blast
  have lo: "int (length out) = size4 (l0 + n0 + r0) (l1 + n1 + r1) (l2 + n2 + r2) (l3 + n3 + r3)"
    "int (length back) = size4 n0 n1 n2 n3" using out(2) assms(15-17) by simp_all
  have fit: "l0 + n0 \<le> l0 + n0 + r0" "l1 + n1 \<le> l1 + n1 + r1" "l2 + n2 \<le> l2 + n2 + r2" "l3 + n3 \<le> l3 + n3 + r3"
    using assms(7-10) by simp_all
  have box: "z0 = n0 \<or> z0 = - 1 \<and> l0 + n0 = l0 + n0 + r0" "z1 = n1 \<or> z1 = - 1 \<and> l1 + n1 = l1 + n1 + r1"
    "z2 = n2 \<or> z2 = - 1 \<and> l2 + n2 = l2 + n2 + r2" "z3 = n3 \<or> z3 = - 1 \<and> l3 + n3 = l3 + n3 + r3"
    using assms(24-27) by simp_all
  have "Slice p uo out ui back = Some input"
    unfolding Slice_spec [OF assms(1,18-23) box assms(3-6) fit assms(11-14) lo] out(3) ..
  with out(1,4) show ?thesis unfolding Pad_def by blast
qed

lemma pad_slice_roundtrip_witness:
  "\<exists>out. Pad \<lparr>left_padding_count = 4, left_padding = [0, 0, 1, 0], right_padding_count = 4, right_padding = [0, 0, 1, 0]\<rparr>
       [2, 2] [5 :: int, 6, 7, 8] 0 [4, 2] [9, 9, 9, 9, 9, 9, 9, 9] = Some out \<and>
     Slice \<lparr>begin_count = 2, slice_begin = [1, 0], size_count = 3, slice_size = [1, 2, - 1]\<rparr>
       [4, 2] out [2, 2] [9, 9, 9, 9] = Some [5, 6, 7, 8]"
  using pad_slice_roundtrip [of "[4, 2]" 0 1 0 0 1 0 1 2 1 0 2 0 "[2, 2]" "[5 :: int, 6, 7, 8]" "[9, 9, 9, 9]"
      "[9, 9, 9, 9, 9, 9, 9, 9]" "\<lparr>begin_count = 2, slice_begin = [1, 0], size_count = 3, slice_size = [1, 2, - 1]\<rparr>"
      "- 1" 1 2 "- 1" 0]
  by (auto simp: ExtendedShape_def size4_def front_fill_def numeral_eq_Suc)

text \<open>
  The paddings of a tensor of lower rank are put at the front although its sizes are put at the end:
  a vector padded by one element on either side comes out as padding only.
\<close>

lemma pad_low_rank_loses_data:
  "PadImpl \<lparr>left_padding_count = 1, left_padding = [1], right_padding_count = 1, right_padding = [1]\<rparr>
     [2] [5 :: int, 6] 0 [4] [9, 9, 9, 9] = Some [0, 0, 0, 0]"
  by (simp add: PadImpl_def ExtendedShape_def for_range_step rd_def wr_def Dims_def pad_border_def numeral_eq_Suc)

section \<open>Strided slices\<close>

record strided_slice_params =
  start_indices_count :: int
  start_indices :: "int list"
  stop_indices_count :: int
  stop_indices :: "int list"
  strides_count :: int
  strides :: "int list"
  begin_mask :: int
  ellipsis_mask :: int
  end_mask :: int
  new_axis_mask :: int
  shrink_axis_mask :: int

definition Clamp :: "int \<Rightarrow> int \<Rightarrow> int \<Rightarrow> int option" where
  "Clamp v lo hi = do {
     _ \<leftarrow> check (\<not> hi < lo);
     Some (if hi < v then hi else if v < lo then lo else v) }"

text \<open>The indices, strides and masks are stored as \<open>int16\<close>.\<close>

definition to_int16 :: "int \<Rightarrow> int" where
  "to_int16 x = signed_take_bit 15 x"

text \<open>The loop that moves the indices runs from the last one to the first.\<close>

definition StridedSlicePadIndices :: "strided_slice_params \<Rightarrow> int \<Rightarrow> strided_slice_params option" where
  "StridedSlicePadIndices p dim_count = do {
     _ \<leftarrow> check (dim_count \<le> 4);
     _ \<leftarrow> check (dim_count \<ge> start_indices_count p);
     _ \<leftarrow> check (start_indices_count p = stop_indices_count p);
     _ \<leftarrow> check (stop_indices_count p = strides_count p);
     let pad_count = dim_count - start_indices_count p;
     p \<leftarrow> for_range 0 (start_indices_count p) (\<lambda>k q. do {
        let i = start_indices_count p - 1 - k;
        a \<leftarrow> rd (strides q) i;
        st \<leftarrow> wr (strides q) (i + pad_count) a;
        b \<leftarrow> rd (start_indices q) i;
        si \<leftarrow> wr (start_indices q) (i + pad_count) b;
        c \<leftarrow> rd (stop_indices q) i;
        so \<leftarrow> wr (stop_indices q) (i + pad_count) c;
        Some (q\<lparr>strides := st, start_indices := si, stop_indices := so\<rparr>) }) p;
     p \<leftarrow> for_range 0 pad_count (\<lambda>i q. do {
        si \<leftarrow> wr (start_indices q) i 0;
        so \<leftarrow> wr (stop_indices q) i 1;
        st \<leftarrow> wr (strides q) i 1;
        Some (q\<lparr>start_indices := si, stop_indices := so, strides := st\<rparr>) }) p;
     let n = nat pad_count;
     Some (p\<lparr>shrink_axis_mask := to_int16 (push_bit n (shrink_axis_mask p)),
             ellipsis_mask := to_int16 (push_bit n (ellipsis_mask p)),
             new_axis_mask := to_int16 (push_bit n (new_axis_mask p)),
             begin_mask := to_int16 (to_int16 (push_bit n (begin_mask p)) OR (push_bit n 1 - 1)),
             end_mask := to_int16 (to_int16 (push_bit n (end_mask p)) OR (push_bit n 1 - 1)),
             start_indices_count := dim_count, stop_indices_count := dim_count, strides_count := dim_count\<rparr>) }"

definition int_lowest :: int where "int_lowest = - (2 ^ 31)"
definition int_max :: int where "int_max = 2 ^ 31 - 1"

definition StartForAxis :: "strided_slice_params \<Rightarrow> shape \<Rightarrow> int \<Rightarrow> int option" where
  "StartForAxis params input_shape axis = do {
     start \<leftarrow> rd (start_indices params) axis;
     stride \<leftarrow> rd (strides params) axis;
     let start = (if begin_mask params AND push_bit (nat axis) 1 \<noteq> 0
                  then (if stride > 0 then int_lowest else int_max) else start);
     axis_size \<leftarrow> Dims input_shape axis;
     let start = (if start < 0 then start + axis_size else start);
     Clamp start 0 (axis_size - 1) }"

definition StopForAxis :: "strided_slice_params \<Rightarrow> shape \<Rightarrow> int \<Rightarrow> int \<Rightarrow> int option" where
  "StopForAxis params input_shape axis start_for_axis = do {
     stop \<leftarrow> rd (stop_indices params) axis;
     stride \<leftarrow> rd (strides params) axis;
     let shrink_axis = (shrink_axis_mask params AND push_bit (nat axis) 1 \<noteq> 0);
     let stop = (if shrink_axis then start_for_axis + 1 else stop);
     let stop = (if end_mask params AND push_bit (nat axis) 1 \<noteq> 0
                 then (if stride > 0 then int_max else int_lowest) else stop);
     axis_size \<leftarrow> Dims input_shape axis;
     let stop = (if stop < 0 then stop + axis_size else stop);
     if stride > 0 then Clamp stop 0 axis_size else Clamp stop (- 1) (axis_size - 1) }"

definition LoopCondition :: "int \<Rightarrow> int \<Rightarrow> int \<Rightarrow> bool" where
  "LoopCondition index stop stride = (if stride > 0 then index \<ge> stop else index \<le> stop)"

definition BuildStridedSliceParams ::
    "int \<Rightarrow> int \<Rightarrow> int \<Rightarrow> int list \<Rightarrow> int list \<Rightarrow> int list \<Rightarrow> strided_slice_params option" where
  "BuildStridedSliceParams bm em sm starts stops strs = do {
     let dims_count = int (length starts);
     (si, so, st) \<leftarrow> for_range 0 dims_count (\<lambda>i (si, so, st). do {
        a \<leftarrow> rd starts i; si \<leftarrow> wr si i (to_int16 a);
        b \<leftarrow> rd stops i; so \<leftarrow> wr so i (to_int16 b);
        c \<leftarrow> rd strs i; st \<leftarrow> wr st i (to_int16 c);
        Some (si, so, st) }) (replicate 4 0, replicate 4 0, replicate 4 0);
     Some \<lparr>start_indices_count = dims_count, start_indices = si, stop_indices_count = dims_count, stop_indices = so,
       strides_count = dims_count, strides = st, begin_mask = to_int16 bm, ellipsis_mask = 0, end_mask = to_int16 em,
       new_axis_mask = 0, shrink_axis_mask = to_int16 sm\<rparr> }"

text \<open>
  The loop along one axis.  With stride 0 it need not end; not ending is \<open>None\<close>, by the least fixed
  point of the equation.
\<close>

partial_function (option) for_stride :: "int \<Rightarrow> int \<Rightarrow> int \<Rightarrow> (int \<Rightarrow> 's \<Rightarrow> 's option) \<Rightarrow> 's \<Rightarrow> 's option" where
  "for_stride i stop stride body s =
     (if LoopCondition i stop stride then Some s
      else Option.bind (body i s) (\<lambda>s. for_stride (i + stride) stop stride body s))"

definition StridedSlice :: "strided_slice_params \<Rightarrow> shape \<Rightarrow> 'a list \<Rightarrow> shape \<Rightarrow> 'a list \<Rightarrow> 'a list option" where
  "StridedSlice op_params unextended_input_shape input_data unextended_output_shape output_data = do {
     _ \<leftarrow> check (length unextended_input_shape \<le> 4);
     _ \<leftarrow> check (length unextended_output_shape \<le> 4);
     input_shape \<leftarrow> ExtendedShape 4 unextended_input_shape;
     output_shape \<leftarrow> ExtendedShape 4 unextended_output_shape;
     params_copy \<leftarrow> StridedSlicePadIndices op_params 4;
     start_b \<leftarrow> StartForAxis params_copy input_shape 0;
     stop_b \<leftarrow> StopForAxis params_copy input_shape 0 start_b;
     start_h \<leftarrow> StartForAxis params_copy input_shape 1;
     stop_h \<leftarrow> StopForAxis params_copy input_shape 1 start_h;
     start_w \<leftarrow> StartForAxis params_copy input_shape 2;
     stop_w \<leftarrow> StopForAxis params_copy input_shape 2 start_w;
     start_d \<leftarrow> StartForAxis params_copy input_shape 3;
     stop_d \<leftarrow> StopForAxis params_copy input_shape 3 start_d;
     stride_b \<leftarrow> rd (strides params_copy) 0;
     stride_h \<leftarrow> rd (strides params_copy) 1;
     stride_w \<leftarrow> rd (strides params_copy) 2;
     stride_d \<leftarrow> rd (strides params_copy) 3;
     (output_data, out_ptr) \<leftarrow>
       for_stride start_b stop_b stride_b (\<lambda>in_b. for_stride start_h stop_h stride_h (\<lambda>in_h.
       for_stride start_w stop_w stride_w (\<lambda>in_w. for_stride start_d stop_d stride_d (\<lambda>in_d (output_data, out_ptr). do {
         position \<leftarrow> Offset input_shape in_b in_h in_w in_d;
         v \<leftarrow> rd input_data position;
         output_data \<leftarrow> wr output_data out_ptr v;
         Some (output_data, out_ptr + 1) })))) (output_data, 0);
     Some output_data }"

text \<open>The indices the loop visits.\<close>

function stride_list :: "int \<Rightarrow> int \<Rightarrow> int \<Rightarrow> int list" where
  "stride_list i stop stride =
     (if stride = 0 \<or> LoopCondition i stop stride then [] else i # stride_list (i + stride) stop stride)"
  by pat_completeness auto
termination
  by (relation "measure (\<lambda>(i, stop, stride). if stride > 0 then nat (stop - i) else nat (i - stop))")
    (auto simp: LoopCondition_def split: if_splits)

declare stride_list.simps [simp del]

lemma for_stride_list: "stride \<noteq> 0 \<Longrightarrow> for_stride i stop stride body s = foldM body (stride_list i stop stride) s"
proof (induction i stop stride arbitrary: s rule: stride_list.induct)
  case (1 i stop stride)
  show ?case
  proof (cases "LoopCondition i stop stride")
    case True
    then show ?thesis by (simp add: for_stride.simps stride_list.simps)
  next
    case False
    with 1 show ?thesis
      by (subst for_stride.simps) (simp add: stride_list.simps [of i] cong: Option.bind_cong)
  qed
qed

lemma for_stride_fun: "stride \<noteq> 0 \<Longrightarrow> for_stride i stop stride body = foldM body (stride_list i stop stride)"
  by (rule ext) (rule for_stride_list)

lemma stride_list_range:
  "x \<in> set (stride_list i stop stride) \<Longrightarrow> (0 < stride \<longrightarrow> i \<le> x \<and> x < stop) \<and> (stride < 0 \<longrightarrow> stop < x \<and> x \<le> i)"
proof (induction i stop stride rule: stride_list.induct)
  case (1 i stop stride)
  then show ?case by (subst (asm) (2) stride_list.simps) (auto simp: LoopCondition_def split: if_splits)
qed

text \<open>With stride 0 the loop returns only if it is over at once.\<close>

lemma for_stride_zero: "for_stride i stop 0 body s = Some t \<Longrightarrow> i \<le> stop"
proof -
  have "stride = 0 \<longrightarrow> i \<le> stop" if "for_stride i stop stride body s = Some t" for stride
    by (rule for_stride.raw_induct [where P = "\<lambda>i stop stride body s t. stride = 0 \<longrightarrow> i \<le> stop", OF _ that])
      (auto simp: LoopCondition_def bind_eq_Some_conv split: if_splits)
  then show "for_stride i stop 0 body s = Some t \<Longrightarrow> i \<le> stop" by blast
qed

section \<open>What a strided slice holds\<close>

lemma Clamp_range: "lo \<le> hi \<Longrightarrow> \<exists>r. Clamp v lo hi = Some r \<and> lo \<le> r \<and> r \<le> hi"
  by (simp add: Clamp_def)

definition axis_indices :: "strided_slice_params \<Rightarrow> shape \<Rightarrow> int \<Rightarrow> int list option" where
  "axis_indices q s axis = do {
     start \<leftarrow> StartForAxis q s axis;
     stop \<leftarrow> StopForAxis q s axis start;
     stride \<leftarrow> rd (strides q) axis;
     Some (stride_list start stop stride) }"

lemma axis_indices_range:
  assumes len: "length (start_indices q) = 4" "length (stop_indices q) = 4" "length (strides q) = 4"
    and a: "0 \<le> a" "a < 4" and d: "Dims s a = Some d" "0 < d" and nz: "strides q ! nat a \<noteq> 0"
  shows "\<exists>start stop. StartForAxis q s a = Some start \<and> StopForAxis q s a start = Some stop \<and>
     (\<forall>x\<in>set (stride_list start stop (strides q ! nat a)). 0 \<le> x \<and> x < d)"
proof -
  obtain start where st: "StartForAxis q s a = Some start" "0 \<le> start" "start \<le> d - 1"
    using Clamp_range [of 0 "d - 1"] len a d by (simp add: StartForAxis_def rd_def Let_def) blast
  obtain stop where sp: "StopForAxis q s a start = Some stop"
    "strides q ! nat a > 0 \<longrightarrow> 0 \<le> stop \<and> stop \<le> d" "\<not> strides q ! nat a > 0 \<longrightarrow> - 1 \<le> stop \<and> stop \<le> d - 1"
    using Clamp_range [of 0 d] Clamp_range [of "- 1" "d - 1"] len a d
    by (cases "strides q ! nat a > 0") (simp_all add: StopForAxis_def rd_def Let_def, blast, blast)
  have "0 \<le> x \<and> x < d" if "x \<in> set (stride_list start stop (strides q ! nat a))" for x
    using stride_list_range [OF that] st sp nz by linarith
  with st(1) sp(1) show ?thesis by blast
qed

lemma pad_indices_lengths:
  assumes "StridedSlicePadIndices p n = Some q"
  shows "length (start_indices q) = length (start_indices p) \<and> length (stop_indices q) = length (stop_indices p) \<and>
     length (strides q) = length (strides p)"
proof -
  let ?P = "\<lambda>q. length (start_indices q) = length (start_indices p) \<and> length (stop_indices q) = length (stop_indices p) \<and>
     length (strides q) = length (strides p)"
  let ?f = "\<lambda>k q. do {
        let i = start_indices_count p - 1 - k;
        a \<leftarrow> rd (strides q) i;
        st \<leftarrow> wr (strides q) (i + (n - start_indices_count p)) a;
        b \<leftarrow> rd (start_indices q) i;
        si \<leftarrow> wr (start_indices q) (i + (n - start_indices_count p)) b;
        c \<leftarrow> rd (stop_indices q) i;
        so \<leftarrow> wr (stop_indices q) (i + (n - start_indices_count p)) c;
        Some (q\<lparr>strides := st, start_indices := si, stop_indices := so\<rparr>) }"
  let ?g = "\<lambda>i q. do {
        si \<leftarrow> wr (start_indices q) i 0;
        so \<leftarrow> wr (stop_indices q) i 1;
        st \<leftarrow> wr (strides q) i 1;
        Some (q\<lparr>start_indices := si, stop_indices := so, strides := st\<rparr>) }"
  obtain r s where r: "for_range 0 (start_indices_count p) ?f p = Some r"
    and s: "for_range 0 (n - start_indices_count p) ?g r = Some s"
    and q: "start_indices q = start_indices s" "stop_indices q = stop_indices s" "strides q = strides s"
    using assms by (auto simp: StridedSlicePadIndices_def Let_def check_def bind_eq_Some_conv split: if_splits)
  have "?P r" using r unfolding for_range_def
    by (rule foldM_preserves) (auto simp: bind_eq_Some_conv wr_Some_iff Let_def)
  have "?P s" using s \<open>?P r\<close> unfolding for_range_def
    by (rule foldM_preserves) (auto simp: bind_eq_Some_conv wr_Some_iff Let_def)
  with q show ?thesis by simp
qed

lemma stream_elements:
  assumes "\<And>x. x \<in> set xs \<Longrightarrow> val x = Some (v x)" and "length xs \<le> length out"
  shows "foldM (\<lambda>x (out, p). do { a \<leftarrow> val x; out \<leftarrow> wr out p a; Some (out, p + 1) }) xs (out, 0) =
     Some (map v xs @ drop (length xs) out, int (length xs))"
proof -
  let ?f = "\<lambda>x (out, p). do { a \<leftarrow> val x; out \<leftarrow> wr out p a; Some (out, p + 1) }"
  have "\<exists>t. foldM ?f xs (out, 0) = Some t \<and> t = (map v xs @ drop (length xs) out, int (length xs))"
  proof (rule foldM_invar [where P = "\<lambda>pre t. t = (map v pre @ drop (length pre) out, int (length pre))"])
    fix pre x post s
    assume xs: "xs = pre @ x # post" and s: "s = (map v pre @ drop (length pre) out, int (length pre))"
    have "length pre < length out" using assms(2) xs by simp
    then have "drop (length pre) out = out ! length pre # drop (Suc (length pre)) out" by (simp add: Cons_nth_drop_Suc)
    then show "\<exists>t. ?f x s = Some t \<and> t = (map v (pre @ [x]) @ drop (length (pre @ [x])) out, int (length (pre @ [x])))"
      using assms(1) [of x] xs s by (simp add: wr_def list_update_append)
  qed simp
  then show ?thesis by simp
qed

lemma strided_slice_spec:
  assumes "ExtendedShape 4 ui = Some [d0, d1, d2, d3]" and "length uo \<le> 4"
    and "0 < d0" "0 < d1" "0 < d2" "0 < d3"
    and "StridedSlicePadIndices p 4 = Some q"
    and "length (start_indices p) = 4" "length (stop_indices p) = 4" "length (strides p) = 4"
    and "0 \<notin> set (strides q)"
    and "int (length input) = size4 d0 d1 d2 d3"
  shows "\<exists>L0 L1 L2 L3. axis_indices q [d0, d1, d2, d3] 0 = Some L0 \<and> axis_indices q [d0, d1, d2, d3] 1 = Some L1 \<and>
     axis_indices q [d0, d1, d2, d3] 2 = Some L2 \<and> axis_indices q [d0, d1, d2, d3] 3 = Some L3 \<and>
     set L0 \<subseteq> {0..<d0} \<and> set L1 \<subseteq> {0..<d1} \<and> set L2 \<subseteq> {0..<d2} \<and> set L3 \<subseteq> {0..<d3} \<and>
     (length L0 * length L1 * length L2 * length L3 \<le> length output \<longrightarrow>
      StridedSlice p ui input uo output =
        Some (map (\<lambda>x. input ! nat (off4 d1 d2 d3 x)) (List.product L0 (List.product L1 (List.product L2 L3))) @
              drop (length L0 * length L1 * length L2 * length L3) output))"
proof -
  let ?s = "[d0, d1, d2, d3]"
  have len: "length (start_indices q) = 4" "length (stop_indices q) = 4" "length (strides q) = 4"
    using pad_indices_lengths [OF assms(7)] assms(8-10) by simp_all
  then have nz: "strides q ! nat a \<noteq> 0" if "0 \<le> a" "a < 4" for a
    using assms(11) that by (metis nat_less_iff nth_mem of_nat_numeral)
  have at: "\<exists>start stop. StartForAxis q ?s a = Some start \<and> StopForAxis q ?s a start = Some stop \<and>
     (\<forall>x\<in>set (stride_list start stop (strides q ! nat a)). 0 \<le> x \<and> x < d)"
    if "0 \<le> a" "a < 4" "Dims ?s a = Some d" "0 < d" for a d
    by (rule axis_indices_range [OF len that nz [OF that(1,2)]])
  obtain a0 b0 where 0: "StartForAxis q ?s 0 = Some a0" "StopForAxis q ?s 0 a0 = Some b0"
    "\<forall>x\<in>set (stride_list a0 b0 (strides q ! 0)). 0 \<le> x \<and> x < d0" using at [of 0 d0] assms(3) by (auto simp: Dims4)
  obtain a1 b1 where 1: "StartForAxis q ?s 1 = Some a1" "StopForAxis q ?s 1 a1 = Some b1"
    "\<forall>x\<in>set (stride_list a1 b1 (strides q ! 1)). 0 \<le> x \<and> x < d1" using at [of 1 d1] assms(4) by (auto simp: Dims4)
  obtain a2 b2 where 2: "StartForAxis q ?s 2 = Some a2" "StopForAxis q ?s 2 a2 = Some b2"
    "\<forall>x\<in>set (stride_list a2 b2 (strides q ! 2)). 0 \<le> x \<and> x < d2" using at [of 2 d2] assms(5) by (auto simp: Dims4)
  obtain a3 b3 where 3: "StartForAxis q ?s 3 = Some a3" "StopForAxis q ?s 3 a3 = Some b3"
    "\<forall>x\<in>set (stride_list a3 b3 (strides q ! 3)). 0 \<le> x \<and> x < d3" using at [of 3 d3] assms(6) by (auto simp: Dims4)
  let ?L0 = "stride_list a0 b0 (strides q ! 0)" and ?L1 = "stride_list a1 b1 (strides q ! 1)"
    and ?L2 = "stride_list a2 b2 (strides q ! 2)" and ?L3 = "stride_list a3 b3 (strides q ! 3)"
  let ?P = "List.product ?L0 (List.product ?L1 (List.product ?L2 ?L3))"
  have rs: "rd (strides q) 0 = Some (strides q ! 0)" "rd (strides q) 1 = Some (strides q ! 1)"
    "rd (strides q) 2 = Some (strides q ! 2)" "rd (strides q) 3 = Some (strides q ! 3)" using len(3) by (simp_all add: rd_def)
  have n0: "strides q ! 0 \<noteq> 0" "strides q ! 1 \<noteq> 0" "strides q ! 2 \<noteq> 0" "strides q ! 3 \<noteq> 0"
    using nz [of 0] nz [of 1] nz [of 2] nz [of 3] by simp_all
  let ?val = "\<lambda>(b, h, w, d). do { position \<leftarrow> Offset ?s b h w d; rd input position }"
  have val: "?val x = Some (input ! nat (off4 d1 d2 d3 x))" if "x \<in> set ?P" for x
  proof -
    obtain i0 i1 i2 i3 where X: "x = (i0, i1, i2, i3)" using prod_cases4 by blast
    have i: "(i0, i1, i2, i3) \<in> set (idx4 d0 d1 d2 d3)" using that 0(3) 1(3) 2(3) 3(3) unfolding X by auto
    show ?thesis using i nhwc.offset_range [OF i] assms(12) unfolding X by (simp add: Offset_eq rd_in del: set_idx4)
  qed
  have run: "foldM (\<lambda>(b, h, w, d) (out, p). do { position \<leftarrow> Offset ?s b h w d; v \<leftarrow> rd input position;
        out \<leftarrow> wr out p v; Some (out, p + 1) }) ?P (output, 0) =
      Some (map (\<lambda>x. input ! nat (off4 d1 d2 d3 x)) ?P @ drop (length ?P) output, int (length ?P))"
    if "length ?P \<le> length output"
  proof -
    have "foldM (\<lambda>(b, h, w, d) (out, p). do { position \<leftarrow> Offset ?s b h w d; v \<leftarrow> rd input position;
        out \<leftarrow> wr out p v; Some (out, p + 1) }) ?P (output, 0) =
      foldM (\<lambda>x (out, p). do { a \<leftarrow> ?val x; out \<leftarrow> wr out p a; Some (out, p + 1) }) ?P (output, 0)"
      by (rule foldM_cong) auto
    then show ?thesis using stream_elements [of ?P ?val, OF val that] by simp
  qed
  have "StridedSlice p ui input uo output = Some (map (\<lambda>x. input ! nat (off4 d1 d2 d3 x)) ?P @ drop (length ?P) output)"
    if l: "length ?P \<le> length output"
  proof -
    obtain os where "ExtendedShape 4 uo = Some os" using assms(2) by (auto simp: ExtendedShape_def)
    then show ?thesis using run [OF l] ExtendedShape4_len [OF assms(1)] assms(2) n0
      by (simp add: StridedSlice_def assms(1,7) 0(1,2) 1(1,2) 2(1,2) 3(1,2) rs for_stride_fun foldM_product_fun case_prod_unfold)
  qed
  moreover have "axis_indices q ?s 0 = Some ?L0" "axis_indices q ?s 1 = Some ?L1" "axis_indices q ?s 2 = Some ?L2"
    "axis_indices q ?s 3 = Some ?L3" using 0 1 2 3 rs by (simp_all add: axis_indices_def)
  moreover have "set ?L0 \<subseteq> {0..<d0}" "set ?L1 \<subseteq> {0..<d1}" "set ?L2 \<subseteq> {0..<d2}" "set ?L3 \<subseteq> {0..<d3}"
    using 0(3) 1(3) 2(3) 3(3) by auto
  ultimately show ?thesis by (simp add: length_product mult.assoc)
qed

text \<open>
  The slice of one axis, independent of how the kernel finds it: \<open>n\<close> is the size of the axis, \<open>b\<close>, \<open>e\<close>
  and \<open>s\<close> are the beginning, the end and the stride of the slice.  An index below 0 counts from the
  end of the axis.  The slice starts at the valid index next to \<open>b\<close>, or at the first or last one if the
  beginning is masked.  From there it takes every \<open>s\<close>-th index of the axis: all of them if the end is
  masked, only the first if the axis is shrunk, otherwise those before \<open>e\<close> in the direction of \<open>s\<close>.
\<close>

definition from_end :: "int \<Rightarrow> int \<Rightarrow> int" where
  "from_end n i = (if i < 0 then i + n else i)"

definition slice_first :: "int \<Rightarrow> int \<Rightarrow> int \<Rightarrow> bool \<Rightarrow> int" where
  "slice_first n b s begin_masked =
     (if begin_masked then (if 0 < s then 0 else n - 1) else max 0 (min (n - 1) (from_end n b)))"

definition axis_slice :: "int \<Rightarrow> int \<Rightarrow> int \<Rightarrow> int \<Rightarrow> bool \<Rightarrow> bool \<Rightarrow> bool \<Rightarrow> int list" where
  "axis_slice n b e s begin_masked end_masked shrink =
     (let x0 = slice_first n b s begin_masked in
      filter (\<lambda>x. 0 \<le> x \<and> x < n \<and>
          (if end_masked then True else if shrink then x = x0
           else if 0 < s then x < from_end n e else from_end n e < x))
        (map (\<lambda>k. x0 + int k * s) [0..<nat n]))"

lemma stride_list_filter:
  assumes "stride \<noteq> 0" and "(if 0 < stride then stop - i else i - stop) \<le> int N"
  shows "stride_list i stop stride =
     filter (\<lambda>x. if 0 < stride then x < stop else stop < x) (map (\<lambda>k. i + int k * stride) [0..<N])"
  using assms(2)
proof (induction N arbitrary: i)
  case 0
  then show ?case by (simp add: stride_list.simps [of i] LoopCondition_def split: if_splits)
next
  case (Suc N)
  let ?P = "\<lambda>x. if 0 < stride then x < stop else stop < x"
  have split: "map (\<lambda>k. i + int k * stride) [0..<Suc N] = i # map (\<lambda>k. (i + stride) + int k * stride) [0..<N]"
    by (simp add: map_upt_Suc algebra_simps del: upt_Suc)
  show ?case
  proof (cases "?P i")
    case True
    then have "(if 0 < stride then stop - (i + stride) else (i + stride) - stop) \<le> int N"
      using Suc.prems assms(1) by (auto split: if_splits)
    note IH = Suc.IH [OF this]
    show ?thesis unfolding split using True assms(1)
      by (subst stride_list.simps) (simp add: LoopCondition_def IH split: if_splits)
  next
    case False
    have "\<not> ?P (i + int k * stride)" for k
    proof (cases "0 < stride")
      case True
      then have "0 \<le> int k * stride" by (intro mult_nonneg_nonneg) simp_all
      moreover have "stop \<le> i" using False True by simp
      ultimately show ?thesis using True by (simp only: if_True)
    next
      case neg: False
      then have "int k * stride \<le> 0" by (intro mult_nonneg_nonpos) simp_all
      moreover have "i \<le> stop" using False neg by simp
      ultimately show ?thesis using neg by simp
    qed
    then have "filter ?P (map (\<lambda>k. i + int k * stride) [0..<Suc N]) = []"
      by (simp add: filter_empty_conv del: upt_Suc)
    moreover have "stride_list i stop stride = []"
      using False by (simp add: stride_list.simps [of i] LoopCondition_def split: if_splits)
    ultimately show ?thesis by simp
  qed
qed

lemma axis_slice_all: "axis_slice n 0 1 1 True True False = [0..n - 1]"
proof -
  have "map int [0..<nat n] = [0..n - 1]" by (cases "0 \<le> n") (auto intro: nth_equalityI)
  moreover have "filter (\<lambda>x. 0 \<le> x \<and> x < n) [0..n - 1] = [0..n - 1]" by (auto simp: filter_id_conv)
  ultimately show ?thesis by (simp add: axis_slice_def slice_first_def Let_def)
qed

text \<open>The indices the kernel visits along one axis are the slice of the axis.\<close>

lemma mask_bit: "m AND 2 ^ k = 0 \<longleftrightarrow> \<not> bit (m :: int) k"
  using bit_iff_and_push_bit_not_eq_0 [of m k] by (simp add: push_bit_eq_mult)

lemma axis_indices_slice:
  assumes q: "rd (start_indices q) a = Some b" "rd (stop_indices q) a = Some e" "rd (strides q) a = Some s"
    and d: "Dims sh a = Some n" "0 < n" "n \<le> int_max" and nz: "s \<noteq> 0"
    and m: "bit (begin_mask q) (nat a) = bm" "bit (end_mask q) (nat a) = em" "bit (shrink_axis_mask q) (nat a) = sm"
    and sm: "sm \<longrightarrow> 0 < s"
  shows "axis_indices q sh a = Some (axis_slice n b e s bm em sm)"
proof -
  let ?x0 = "slice_first n b s bm"
  have x0: "0 \<le> ?x0" "?x0 \<le> n - 1" using d(2) by (auto simp: slice_first_def)
  have start: "StartForAxis q sh a = Some ?x0"
    using d m(1) by (auto simp: StartForAxis_def q mask_bit Clamp_def Let_def slice_first_def from_end_def int_lowest_def int_max_def)
  let ?e = "if sm then ?x0 + 1 else e"
  let ?stop = "if em then (if 0 < s then n else - 1)
     else if 0 < s then max 0 (min n (from_end n ?e)) else max (- 1) (min (n - 1) (from_end n ?e))"
  have stop: "StopForAxis q sh a ?x0 = Some ?stop"
    using d m(2,3) x0 by (auto simp: StopForAxis_def q mask_bit Clamp_def Let_def from_end_def int_lowest_def int_max_def)
  have N: "(if 0 < s then ?stop - ?x0 else ?x0 - ?stop) \<le> int (nat n)"
    using x0 d(2) by auto
  have "stride_list ?x0 ?stop s = axis_slice n b e s bm em sm"
    unfolding stride_list_filter [OF nz N] axis_slice_def Let_def
  proof (rule filter_cong [OF refl])
    fix x assume "x \<in> set (map (\<lambda>k. ?x0 + int k * s) [0..<nat n])"
    then obtain k where x: "x = ?x0 + int k * s" by auto
    have dir: "if 0 < s then ?x0 \<le> x else x \<le> ?x0" using x by (simp add: mult_nonneg_nonpos)
    show "(if 0 < s then x < ?stop else ?stop < x) \<longleftrightarrow> 0 \<le> x \<and> x < n \<and>
       (if em then True else if sm then x = ?x0 else if 0 < s then x < from_end n e else from_end n e < x)"
      using dir x0 sm by (cases "0 < s"; cases em; cases sm) (auto simp: from_end_def)
  qed
  with start stop show ?thesis by (simp add: axis_indices_def q)
qed

text \<open>
  Parameters for fewer than four axes name the last ones; the axes in front are taken as a whole.
\<close>

definition param_slice :: "strided_slice_params \<Rightarrow> nat \<Rightarrow> int \<Rightarrow> int list" where
  "param_slice p k n = axis_slice n (start_indices p ! k) (stop_indices p ! k) (strides p ! k)
     (bit (begin_mask p) k) (bit (end_mask p) k) (bit (shrink_axis_mask p) k)"

definition selected_indices :: "strided_slice_params \<Rightarrow> int list \<Rightarrow> int list list" where
  "selected_indices p dims =
     (let m = 4 - nat (start_indices_count p) in
      map (\<lambda>k. if k < m then [0..dims ! k - 1] else param_slice p (k - m) (dims ! k)) [0..<4])"

lemma to_int16_bit: "k < 15 \<Longrightarrow> bit (to_int16 x) k = bit x k"
  by (simp add: to_int16_def bit_signed_take_bit_iff min_def)

lemma pad_indices_spec:
  assumes c: "start_indices_count p = int c" "stop_indices_count p = int c" "strides_count p = int c" "c + m = 4"
    and len: "length (start_indices p) = 4" "length (stop_indices p) = 4" "length (strides p) = 4"
  shows "\<exists>q. StridedSlicePadIndices p 4 = Some q \<and>
     start_indices q = replicate m 0 @ take c (start_indices p) \<and>
     stop_indices q = replicate m 1 @ take c (stop_indices p) \<and> strides q = replicate m 1 @ take c (strides p) \<and>
     shrink_axis_mask q = to_int16 (push_bit m (shrink_axis_mask p)) \<and>
     begin_mask q = to_int16 (to_int16 (push_bit m (begin_mask p)) OR mask m) \<and>
     end_mask q = to_int16 (to_int16 (push_bit m (end_mask p)) OR mask m)"
proof -
  obtain a0 a1 a2 a3 where a: "start_indices p = [a0, a1, a2, a3]" using len(1) by (auto simp: numeral_eq_Suc length_Suc_conv)
  obtain b0 b1 b2 b3 where b: "stop_indices p = [b0, b1, b2, b3]" using len(2) by (auto simp: numeral_eq_Suc length_Suc_conv)
  obtain s0 s1 s2 s3 where s: "strides p = [s0, s1, s2, s3]" using len(3) by (auto simp: numeral_eq_Suc length_Suc_conv)
  note pad = StridedSlicePadIndices_def check_def for_range_step rd_def wr_def a b s c Let_def mask_eq_exp_minus_1
  consider "c = 0" "m = 4" | "c = 1" "m = 3" | "c = 2" "m = 2" | "c = 3" "m = 1" | "c = 4" "m = 0"
    using c(4) by linarith
  then show ?thesis
    by cases (simp_all add: pad numeral_eq_Suc)
qed

lemma strided_slice_indices:
  assumes c: "start_indices_count p = int c" "stop_indices_count p = int c" "strides_count p = int c" "c \<le> 4"
    and len: "length (start_indices p) = 4" "length (stop_indices p) = 4" "length (strides p) = 4"
    and k: "\<And>k. k < c \<Longrightarrow> strides p ! k \<noteq> 0 \<and> (bit (shrink_axis_mask p) k \<longrightarrow> 0 < strides p ! k)"
    and d: "length s = 4" "\<And>k. k < 4 \<Longrightarrow> 0 < s ! k \<and> s ! k \<le> int_max"
  shows "\<exists>q. StridedSlicePadIndices p 4 = Some q \<and> 0 \<notin> set (strides q) \<and>
     (\<forall>k<4. axis_indices q s (int k) = Some (selected_indices p s ! k))"
proof -
  obtain m where m: "c + m = 4" using c(4) by (metis le_add_diff_inverse)
  obtain q where q: "StridedSlicePadIndices p 4 = Some q" "start_indices q = replicate m 0 @ take c (start_indices p)"
     "stop_indices q = replicate m 1 @ take c (stop_indices p)" "strides q = replicate m 1 @ take c (strides p)"
     "shrink_axis_mask q = to_int16 (push_bit m (shrink_axis_mask p))"
     "begin_mask q = to_int16 (to_int16 (push_bit m (begin_mask p)) OR mask m)"
     "end_mask q = to_int16 (to_int16 (push_bit m (end_mask p)) OR mask m)"
    using pad_indices_spec [OF c(1-3) m len] by blast
  have "0 \<notin> set (strides q)" using k len(3) c(4) by (auto simp: q in_set_conv_nth)
  moreover have "axis_indices q s (int j) = Some (selected_indices p s ! j)" if j: "j < 4" for j
  proof -
    have D: "Dims s (int j) = Some (s ! j)" using d(1) j by (simp add: Dims_def rd_def)
    have sel: "selected_indices p s ! j = (if j < m then [0..s ! j - 1] else param_slice p (j - m) (s ! j))"
    proof -
      have "4 - nat (start_indices_count p) = m" using m c(1) by simp
      then show ?thesis using j by (simp add: selected_indices_def Let_def del: upt_rec_numeral)
    qed
    have bits: "bit (begin_mask q) j \<longleftrightarrow> j < m \<or> bit (begin_mask p) (j - m)"
      "bit (end_mask q) j \<longleftrightarrow> j < m \<or> bit (end_mask p) (j - m)"
      "bit (shrink_axis_mask q) j \<longleftrightarrow> m \<le> j \<and> bit (shrink_axis_mask p) (j - m)"
      using j by (auto simp: q to_int16_bit bit_or_iff bit_mask_iff bit_push_bit_iff)
    show ?thesis
    proof (cases "j < m")
      case True
      have at: "rd (start_indices q) (int j) = Some 0" "rd (stop_indices q) (int j) = Some 1" "rd (strides q) (int j) = Some 1"
        using True by (simp_all add: q rd_def nth_append)
      have "axis_indices q s (int j) = Some (axis_slice (s ! j) 0 1 1 True True False)"
        by (rule axis_indices_slice [OF at D]) (use True bits d(2) [OF j] in auto)
      moreover have "axis_slice (s ! j) 0 1 1 True True False = [0..s ! j - 1]"
        by (rule axis_slice_all)
      ultimately show ?thesis using True sel by simp
    next
      case False
      then have i: "j - m < c" using j m by linarith
      then have n: "j - m < length (start_indices p)" "j - m < length (stop_indices p)" "j - m < length (strides p)"
        using len c(4) by simp_all
      have at: "rd (start_indices q) (int j) = Some (start_indices p ! (j - m))"
        "rd (stop_indices q) (int j) = Some (stop_indices p ! (j - m))" "rd (strides q) (int j) = Some (strides p ! (j - m))"
        using False i n j m by (simp_all add: q rd_def nth_append)
      show ?thesis using sel False unfolding param_slice_def
        by (simp, intro axis_indices_slice [OF at D]) (use False bits k [OF i] d(2) [OF j] in auto)
    qed
  qed
  ultimately show ?thesis using q(1) by blast
qed

text \<open>
  C29: a strided slice holds the elements at the indices its parameters select.  For a tensor without
  empty dimensions, up to four non-zero strides and a positive stride on every axis that is shrunk,
  the kernel runs without a failing check and inside its buffers, and writes the elements whose
  index on every axis lies in the slice of the axis, in order, from the beginning of the output.
\<close>

theorem strided_slice_selects:
  assumes "ExtendedShape 4 ui = Some [d0, d1, d2, d3]" and "length uo \<le> 4"
    and "\<forall>d\<in>{d0, d1, d2, d3}. 0 < d \<and> d \<le> int_max"
    and "start_indices_count p = int c" "stop_indices_count p = int c" "strides_count p = int c" and "c \<le> 4"
    and "length (start_indices p) = 4" "length (stop_indices p) = 4" "length (strides p) = 4"
    and "\<forall>k<c. strides p ! k \<noteq> 0 \<and> (bit (shrink_axis_mask p) k \<longrightarrow> 0 < strides p ! k)"
    and "int (length input) = size4 d0 d1 d2 d3"
    and "selected_indices p [d0, d1, d2, d3] = [L0, L1, L2, L3]"
    and "length L0 * length L1 * length L2 * length L3 \<le> length output"
  shows "set L0 \<subseteq> {0..<d0} \<and> set L1 \<subseteq> {0..<d1} \<and> set L2 \<subseteq> {0..<d2} \<and> set L3 \<subseteq> {0..<d3} \<and>
     StridedSlice p ui input uo output =
        Some (map (\<lambda>x. input ! nat (off4 d1 d2 d3 x)) (List.product L0 (List.product L1 (List.product L2 L3))) @
              drop (length L0 * length L1 * length L2 * length L3) output)"
proof -
  have d: "0 < [d0, d1, d2, d3] ! k \<and> [d0, d1, d2, d3] ! k \<le> int_max" if "k < 4" for k
    using that assms(3) by (auto simp: less_Suc_eq numeral_eq_Suc)
  obtain q where q: "StridedSlicePadIndices p 4 = Some q" "0 \<notin> set (strides q)"
    "\<forall>k<4. axis_indices q [d0, d1, d2, d3] (int k) = Some ([L0, L1, L2, L3] ! k)"
    using strided_slice_indices [OF assms(4-10), of "[d0, d1, d2, d3]"] d assms(11) unfolding assms(13) by auto
  from q(3) [rule_format, of 0] q(3) [rule_format, of 1] q(3) [rule_format, of 2] q(3) [rule_format, of 3]
  have "axis_indices q [d0, d1, d2, d3] 0 = Some L0" "axis_indices q [d0, d1, d2, d3] 1 = Some L1"
    "axis_indices q [d0, d1, d2, d3] 2 = Some L2" "axis_indices q [d0, d1, d2, d3] 3 = Some L3" by simp_all
  with strided_slice_spec [OF assms(1,2) _ _ _ _ q(1) assms(8-10) q(2) assms(12), of "output"] assms(3,14)
  show ?thesis by auto
qed

lemma strided_slice_selects_witness:
  "StridedSlice \<lparr>start_indices_count = 3, start_indices = [- 1, 1, 9, 0], stop_indices_count = 3,
       stop_indices = [9, - 5, 9, 0], strides_count = 3, strides = [1, - 1, 1, 0], begin_mask = 4, ellipsis_mask = 0,
       end_mask = 4, new_axis_mask = 0, shrink_axis_mask = 1\<rparr> [2, 2, 2] [10 :: int, 11, 12, 13, 14, 15, 16, 17] [2, 2]
       [0, 0, 0, 0, 0] = Some [16, 17, 14, 15, 0]"
  (is "StridedSlice ?p _ _ _ _ = _")
proof -
  have sel: "selected_indices ?p [1, 2, 2, 2] = [[0], [1], [1, 0], [0, 1]]"
    by (simp add: selected_indices_def param_slice_def axis_slice_def slice_first_def from_end_def Let_def upt_rec
        bit_iff_odd numeral_eq_Suc)
  have "\<forall>k<3. strides ?p ! k \<noteq> 0 \<and> (bit (shrink_axis_mask ?p) k \<longrightarrow> 0 < strides ?p ! k)"
    by (simp add: numeral_eq_Suc less_Suc_eq bit_iff_odd all_conj_distrib)
  from strided_slice_selects [OF _ _ _ _ _ _ _ _ _ _ this _ sel, of "[2, 2, 2]" "[2, 2]" "[10 :: int, 11, 12, 13, 14, 15, 16, 17]"
      "[0, 0, 0, 0, 0]"]
  show ?thesis by (simp add: ExtendedShape_def size4_def off4_def int_max_def numeral_eq_Suc)
qed

text \<open>
  On an axis that is shrunk with a negative stride the stop behind the start is already reached: the
  slice is empty, not of length one.
\<close>

lemma shrink_backwards_empty:
  "axis_indices \<lparr>start_indices_count = 4, start_indices = [0, 0, 0, 1], stop_indices_count = 4,
       stop_indices = [1, 1, 1, 2], strides_count = 4, strides = [1, 1, 1, - 1], begin_mask = 0, ellipsis_mask = 0,
       end_mask = 0, new_axis_mask = 0, shrink_axis_mask = 8\<rparr> [1, 1, 1, 4] 3 = Some []"
  by (simp add: axis_indices_def StartForAxis_def StopForAxis_def Clamp_def Dims_def rd_def Let_def stride_list.simps
      LoopCondition_def)

end
