(* ===== verification/Lite_Perm.thy ===== *)
theory Lite_Perm
  imports Lite_Concat
begin

text \<open>
  \<open>reference_ops.h\<close>: the kernels that permute the elements of a tensor along its axes, \<open>Transpose\<close>,
  \<open>Reverse\<close> and \<open>ReverseSequence\<close>.  Applying one of them with the inverse permutation undoes it.
\<close>

section \<open>The kernels\<close>

text \<open>
  \<open>extended_perm\<close> is the local array of that name; all four entries are written.  The array \<open>i\<close> of
  input indices is part of the state of the loops; \<open>junk\<close> is its uninitialised contents.
\<close>

definition extended_perm :: "nat \<Rightarrow> nat \<Rightarrow> int list \<Rightarrow> int list option" where
  "extended_perm input_ext_size unextended_output_size perm = do {
     let output_ext_size = 4 - int unextended_output_size;
     e \<leftarrow> for_range 0 output_ext_size (\<lambda>i e. wr e i i) (replicate 4 0);
     for_range 0 (int unextended_output_size) (\<lambda>i e. do {
       p \<leftarrow> rd perm i; wr e (i + output_ext_size) (p + int input_ext_size) }) e }"

definition Transpose ::
    "int list \<Rightarrow> int \<Rightarrow> int list \<Rightarrow> shape \<Rightarrow> 'a list \<Rightarrow> shape \<Rightarrow> 'a list \<Rightarrow> 'a list option" where
  "Transpose junk perm_count perm unextended_input_shape input_data unextended_output_shape output_data = do {
     let unextended_output_size = length unextended_output_shape;
     _ \<leftarrow> check (length unextended_input_shape \<le> 4);
     _ \<leftarrow> check (unextended_output_size \<le> 4);
     _ \<leftarrow> check (int unextended_output_size = perm_count);
     input_shape \<leftarrow> ExtendedShape 4 unextended_input_shape;
     output_shape \<leftarrow> ExtendedShape 4 unextended_output_shape;
     extended_perm \<leftarrow> extended_perm (4 - length unextended_input_shape) unextended_output_size perm;
     out_sizes \<leftarrow> for_range 0 4 (\<lambda>k out_sizes. do {
        e \<leftarrow> rd extended_perm k;
        d \<leftarrow> MatchingDim input_shape e [(output_shape, k)];
        wr out_sizes k d }) (replicate 4 0);
     e0 \<leftarrow> rd extended_perm 0; e1 \<leftarrow> rd extended_perm 1; e2 \<leftarrow> rd extended_perm 2; e3 \<leftarrow> rd extended_perm 3;
     s0 \<leftarrow> rd out_sizes 0; s1 \<leftarrow> rd out_sizes 1; s2 \<leftarrow> rd out_sizes 2; s3 \<leftarrow> rd out_sizes 3;
     (i, output_data) \<leftarrow>
       for_range 0 s3 (\<lambda>o3 (i, output_data). do { i \<leftarrow> wr i e3 o3;
       for_range 0 s2 (\<lambda>o2 (i, output_data). do { i \<leftarrow> wr i e2 o2;
       for_range 0 s1 (\<lambda>o1 (i, output_data). do { i \<leftarrow> wr i e1 o1;
       for_range 0 s0 (\<lambda>o0 (i, output_data). do { i \<leftarrow> wr i e0 o0;
         o_ind \<leftarrow> Offset_at output_shape [o0, o1, o2, o3];
         i_ind \<leftarrow> Offset_at input_shape i;
         v \<leftarrow> rd input_data i_ind;
         output_data \<leftarrow> wr output_data o_ind v;
         Some (i, output_data) }) (i, output_data) }) (i, output_data) }) (i, output_data) }) (junk, output_data);
     Some output_data }"

definition Reverse :: "int \<Rightarrow> shape \<Rightarrow> 'a list \<Rightarrow> 'a list \<Rightarrow> 'a list option" where
  "Reverse axis input_shape input_data output_data = do {
     outer_size \<leftarrow> dims_prod input_shape 0 axis;
     copy_size \<leftarrow> dims_prod input_shape (axis + 1) (int (length input_shape));
     dims_at_axis \<leftarrow> Dims input_shape axis;
     for_range 0 outer_size (\<lambda>i. for_range 0 dims_at_axis (\<lambda>j output_data. do {
       let start_pos = (i * dims_at_axis + j) * copy_size;
       let loc = (i * dims_at_axis + dims_at_axis - j - 1) * copy_size;
       memcpy_at output_data start_pos input_data loc copy_size })) output_data }"

definition ReverseSequence :: "int list \<Rightarrow> int \<Rightarrow> int \<Rightarrow> shape \<Rightarrow> 'a list \<Rightarrow> 'a list \<Rightarrow> 'a list option" where
  "ReverseSequence seq_lengths seq_dim batch_dim input_shape input_data output_data = do {
     let outer_dim = min batch_dim seq_dim;
     let medium_dim = max batch_dim seq_dim;
     outer_size \<leftarrow> dims_prod input_shape 0 outer_dim;
     medium_size \<leftarrow> dims_prod input_shape (outer_dim + 1) medium_dim;
     copy_size \<leftarrow> dims_prod input_shape (medium_dim + 1) (int (length input_shape));
     dims_at_outer_dim \<leftarrow> Dims input_shape outer_dim;
     dims_at_medium_dim \<leftarrow> Dims input_shape medium_dim;
     if batch_dim > seq_dim then
       for_range 0 outer_size (\<lambda>i. for_range 0 dims_at_outer_dim (\<lambda>j.
       for_range 0 medium_size (\<lambda>p. for_range 0 dims_at_medium_dim (\<lambda>q output_data. do {
         let in_pos_base = (i * dims_at_outer_dim + j) * medium_size;
         let in_pos = ((in_pos_base + p) * dims_at_medium_dim + q) * copy_size;
         s \<leftarrow> rd seq_lengths q;
         let sl = s - 1;
         let out_pos = (if j > sl then in_pos
           else (((i * dims_at_outer_dim + sl - j) * medium_size + p) * dims_at_medium_dim + q) * copy_size);
         memcpy_at output_data out_pos input_data in_pos copy_size })))) output_data
     else if batch_dim < seq_dim then
       for_range 0 outer_size (\<lambda>i. for_range 0 dims_at_outer_dim (\<lambda>j output_data. do {
         s \<leftarrow> rd seq_lengths j;
         for_range 0 medium_size (\<lambda>p. for_range 0 dims_at_medium_dim (\<lambda>q output_data. do {
           let in_pos_base = (i * dims_at_outer_dim + j) * medium_size;
           let in_pos = ((in_pos_base + p) * dims_at_medium_dim + q) * copy_size;
           let sl = s - 1;
           let out_pos = (if q > sl then in_pos
             else ((in_pos_base + p) * dims_at_medium_dim + sl - q) * copy_size);
           memcpy_at output_data out_pos input_data in_pos copy_size })) output_data })) output_data
     else Some output_data }"

section \<open>Reversing\<close>

lemma Reverse_spec:
  assumes nn: "0 \<le> prod_list pre" "0 \<le> prod_list post"
    and li: "int (length input) = FlatSize (pre @ n # post)" and lo: "length output = length input"
  shows "\<exists>out. Reverse (int (length pre)) (pre @ n # post) input output = Some out \<and> length out = length input \<and>
     (\<forall>x\<in>set (List.product [0..prod_list pre - 1] [0..n - 1]). \<forall>k. 0 \<le> k \<and> k < prod_list post \<longrightarrow>
        out ! nat ((\<lambda>(i, j). i * n + j) x * prod_list post + k) =
        input ! nat ((\<lambda>(i, j). i * n + j) (case x of (i, j) \<Rightarrow> (i, n - 1 - j)) * prod_list post + k))"
proof -
  let ?o = "prod_list pre" and ?c = "prod_list post"
  let ?I = "List.product [0..?o - 1] [0..n - 1]" and ?off = "\<lambda>(i, j). i * n + j"
  let ?body = "\<lambda>(i, j) output_data. memcpy_at output_data ((i * n + j) * ?c) input ((i * n + n - j - 1) * ?c) ?c"
  have l: "int (length input) = ?o * n * ?c" "int (length output) = ?o * n * ?c" using li lo by (simp_all add: FlatSize_around)
  have body: "?body x s = memcpy_at s (?off ((\<lambda>x. x) x) * ?c) input (?off (case x of (i, j) \<Rightarrow> (i, n - 1 - j)) * ?c) ?c"
    for x and s :: "'a list"
    by (cases x) (simp add: algebra_simps)
  have "\<exists>t. foldM ?body ?I output = Some t \<and> length t = length output \<and>
     (\<forall>x\<in>set ?I. \<forall>k. 0 \<le> k \<and> k < ?c \<longrightarrow> t ! nat (?off x * ?c + k) = input ! nat (?off (case x of (i, j) \<Rightarrow> (i, n - 1 - j)) * ?c + k))"
    by (rule rows.copy_cells [OF nn(2) l, where dst = "\<lambda>x. x", OF _ _ _ body]) auto
  moreover have "Reverse (int (length pre)) (pre @ n # post) input output = foldM ?body ?I output"
    by (simp add: Reverse_def dims_prod_around [unfolded length_append] dims_prod_around Dims_mid for_range_nest Let_def del: length_append)
  ultimately show ?thesis using lo by auto
qed

text \<open>
  \<open>Reverse\<close> is an involution: reversing a tensor twice along the same axis runs inside the buffers
  and gives the tensor back.
\<close>

theorem reverse_involution:
  assumes "\<forall>d\<in>set pre. 0 \<le> d" and "\<forall>d\<in>set post. 0 \<le> d" and "0 \<le> n"
    and "int (length input) = FlatSize (pre @ n # post)"
    and "length output = length input" "length back = length input"
  shows "\<exists>out. Reverse (int (length pre)) (pre @ n # post) input output = Some out \<and>
     Reverse (int (length pre)) (pre @ n # post) out back = Some input"
proof -
  let ?o = "prod_list pre" and ?c = "prod_list post"
  let ?f = "\<lambda>x. case x of (i, j) \<Rightarrow> (i, n - 1 - j)" and ?I = "List.product [0..?o - 1] [0..n - 1]"
  note nn = prod_list_nonneg [OF assms(1)] prod_list_nonneg [OF assms(2)]
  obtain out where out: "Reverse (int (length pre)) (pre @ n # post) input output = Some out" "length out = length input"
    "\<forall>x\<in>set ?I. \<forall>k. 0 \<le> k \<and> k < ?c \<longrightarrow> out ! nat ((\<lambda>(i, j). i * n + j) x * ?c + k) = input ! nat ((\<lambda>(i, j). i * n + j) (?f x) * ?c + k)"
    using Reverse_spec [OF nn assms(4,5)] by blast
  have lo: "int (length out) = FlatSize (pre @ n # post)" "length back = length out" using out(2) assms by simp_all
  obtain out2 where out2: "Reverse (int (length pre)) (pre @ n # post) out back = Some out2" "length out2 = length out"
    "\<forall>x\<in>set ?I. \<forall>k. 0 \<le> k \<and> k < ?c \<longrightarrow> out2 ! nat ((\<lambda>(i, j). i * n + j) x * ?c + k) = out ! nat ((\<lambda>(i, j). i * n + j) (?f x) * ?c + k)"
    using Reverse_spec [OF nn lo] by blast
  have inv: "?f x \<in> set ?I \<and> ?f (?f x) = x" if "x \<in> set ?I" for x using that by auto
  have l: "int (length input) = ?o * n * ?c" "int (length out) = ?o * n * ?c" "int (length out2) = ?o * n * ?c"
    using assms(4) out(2) out2(2) by (simp_all add: FlatSize_around)
  have "out2 = input"
  proof (rule rows.involution_restores [OF _ nn(2) inv l])
    show "int (length ?I) = ?o * n" using nn assms(3) by simp
  qed (use out(3) out2(3) inv in metis)+
  with out out2 show ?thesis by blast
qed

lemma reverse_involution_witness:
  "\<exists>out. Reverse 1 [2, 3] [1 :: int, 2, 3, 4, 5, 6] [0, 0, 0, 0, 0, 0] = Some out \<and>
     Reverse 1 [2, 3] out [0, 0, 0, 0, 0, 0] = Some [1, 2, 3, 4, 5, 6]"
  using reverse_involution [of "[2]" "[]" 3 "[1 :: int, 2, 3, 4, 5, 6]" "[0, 0, 0, 0, 0, 0]" "[0, 0, 0, 0, 0, 0]"]
  by (simp add: FlatSize_def)

text \<open>Where \<open>ReverseSequence\<close> puts an element; \<open>batch_inner\<close> says that the batch dimension is the inner one.\<close>

definition seq_flip :: "bool \<Rightarrow> int list \<Rightarrow> int \<times> int \<times> int \<times> int \<Rightarrow> int \<times> int \<times> int \<times> int" where
  "seq_flip batch_inner L = (\<lambda>(i, j, p, q).
     if batch_inner then (if j > L ! nat q - 1 then (i, j, p, q) else (i, L ! nat q - 1 - j, p, q))
     else (if q > L ! nat j - 1 then (i, j, p, q) else (i, j, p, L ! nat j - 1 - q)))"

definition seq_lengths_ok :: "bool \<Rightarrow> int list \<Rightarrow> int \<Rightarrow> int \<Rightarrow> bool" where
  "seq_lengths_ok batch_inner L J Q \<longleftrightarrow>
     (if batch_inner then Q \<le> int (length L) \<and> (\<forall>s\<in>set L. s \<le> J) else J \<le> int (length L) \<and> (\<forall>s\<in>set L. s \<le> Q))"

lemma seq_flip_inv:
  assumes "seq_lengths_ok b L J Q" and x: "x \<in> set (idx4 A J M Q)"
  shows "seq_flip b L x \<in> set (idx4 A J M Q) \<and> seq_flip b L (seq_flip b L x) = x"
proof -
  obtain i j p q where X: "x = (i, j, p, q)" using prod_cases4 by blast
  have r: "0 \<le> j" "j < J" "0 \<le> q" "q < Q" using x X by auto
  have "if b then L ! nat q \<le> J else L ! nat j \<le> Q"
    using assms(1) r by (auto simp: seq_lengths_ok_def intro!: nth_mem split: if_splits)
  then show ?thesis using x by (auto simp: X seq_flip_def split: if_splits)
qed

lemma dims_prod_two:
  "dims_prod (pre @ J # mid @ Q # post) 0 (int (length pre)) = Some (prod_list pre)"
  "dims_prod (pre @ J # mid @ Q # post) (int (length pre) + 1) (int (length (pre @ J # mid))) = Some (prod_list mid)"
  "dims_prod (pre @ J # mid @ Q # post) (int (length (pre @ J # mid)) + 1) (int (length (pre @ J # mid @ Q # post))) = Some (prod_list post)"
  "Dims (pre @ J # mid @ Q # post) (int (length pre)) = Some J"
  "Dims (pre @ J # mid @ Q # post) (int (length (pre @ J # mid))) = Some Q"
  using dims_prod_around [of pre J "mid @ Q # post"] dims_prod_around [of "pre @ J # mid" Q post]
    Dims_mid [of pre J "mid @ Q # post"] Dims_mid [of "pre @ J # mid" Q post]
  by (simp_all add: dims_prod_eq nat_add_distrib)

lemma ReverseSequence_spec:
  fixes pre mid post :: "int list" and J Q :: int
  defines "dims \<equiv> pre @ J # mid @ Q # post"
  assumes nn: "0 \<le> prod_list post"
    and dim: "(seq_dim, batch_dim) = (if b then (int (length pre), int (length (pre @ J # mid)))
                else (int (length (pre @ J # mid)), int (length pre)))"
    and L: "seq_lengths_ok b L J Q"
    and li: "int (length input) = FlatSize dims" and lo: "length output = length input"
  shows "\<exists>out. ReverseSequence L seq_dim batch_dim dims input output = Some out \<and> length out = length input \<and>
     (\<forall>x\<in>set (idx4 (prod_list pre) J (prod_list mid) Q). \<forall>k. 0 \<le> k \<and> k < prod_list post \<longrightarrow>
        out ! nat (off4 J (prod_list mid) Q (seq_flip b L x) * prod_list post + k) =
        input ! nat (off4 J (prod_list mid) Q x * prod_list post + k))"
proof -
  let ?A = "prod_list pre" and ?M = "prod_list mid" and ?c = "prod_list post"
  let ?I = "idx4 ?A J ?M Q" and ?off = "off4 J ?M Q"
  have l: "int (length input) = size4 ?A J ?M Q * ?c" "int (length output) = size4 ?A J ?M Q * ?c"
    using li lo by (simp_all add: dims_def FlatSize_def foldl_times_eq size4_def mult.assoc)
  let ?body = "\<lambda>(i, j, p, q) out. memcpy_at out (?off (seq_flip b L (i, j, p, q)) * ?c) input (?off (i, j, p, q) * ?c) ?c"
  have body: "?body x s = memcpy_at s (?off (seq_flip b L x) * ?c) input (?off x * ?c) ?c" for x and s :: "'a list"
    by (cases x) simp
  have "\<exists>t. foldM ?body ?I output = Some t \<and> length t = length output \<and>
     (\<forall>x\<in>set ?I. \<forall>k. 0 \<le> k \<and> k < ?c \<longrightarrow> t ! nat (?off (seq_flip b L x) * ?c + k) = input ! nat (?off x * ?c + k))"
  proof (rule nhwc.copy_cells [OF nn l, where src = "\<lambda>x. x" and dst = "seq_flip b L"])
    show "inj_on (seq_flip b L) (set ?I)"
      by (rule inj_on_inverseI [where g = "seq_flip b L"]) (use seq_flip_inv [OF L] in blast)
  qed (use seq_flip_inv [OF L] body in auto)
  moreover have "ReverseSequence L seq_dim batch_dim dims input output =
      for_range 0 ?A (\<lambda>i. for_range 0 J (\<lambda>j. for_range 0 ?M (\<lambda>p. for_range 0 Q (\<lambda>q. ?body (i, j, p, q))))) output"
  proof (cases b)
    case True
    have lt: "int (length pre) < int (length (pre @ J # mid))" by simp
    have "rd L q = Some (L ! nat q)" if "0 \<le> q" "q < Q" for q using L that True by (simp add: seq_lengths_ok_def rd_def)
    moreover have "ReverseSequence L seq_dim batch_dim dims input output =
        for_range 0 ?A (\<lambda>i. for_range 0 J (\<lambda>j. for_range 0 ?M (\<lambda>p. for_range 0 Q (\<lambda>q out. do {
          s \<leftarrow> rd L q;
          memcpy_at out (if j > s - 1 then (((i * J + j) * ?M + p) * Q + q) * ?c
              else (((i * J + (s - 1) - j) * ?M + p) * Q + q) * ?c) input ((((i * J + j) * ?M + p) * Q + q) * ?c) ?c })))) output"
      using dim True lt unfolding dims_def ReverseSequence_def
      by (simp add: dims_prod_two Let_def min_def max_def del: length_append)
    ultimately show ?thesis using True
      by (auto simp: off4_def seq_flip_def add_diff_eq intro!: for_range_cong)
  next
    case False
    have lt: "int (length pre) < int (length (pre @ J # mid))" by simp
    have "rd L j = Some (L ! nat j)" if "0 \<le> j" "j < J" for j using L that False by (simp add: seq_lengths_ok_def rd_def)
    moreover have "ReverseSequence L seq_dim batch_dim dims input output =
        for_range 0 ?A (\<lambda>i. for_range 0 J (\<lambda>j out. do {
          s \<leftarrow> rd L j;
          for_range 0 ?M (\<lambda>p. for_range 0 Q (\<lambda>q out.
            memcpy_at out (if q > s - 1 then (((i * J + j) * ?M + p) * Q + q) * ?c
              else (((i * J + j) * ?M + p) * Q + (s - 1) - q) * ?c) input ((((i * J + j) * ?M + p) * Q + q) * ?c) ?c)) out })) output"
      using dim False lt unfolding dims_def ReverseSequence_def
      by (simp add: dims_prod_two Let_def min_def max_def del: length_append)
    ultimately show ?thesis using False
      by (auto simp: off4_def seq_flip_def add_diff_eq intro!: for_range_cong)
  qed
  ultimately show ?thesis using lo by (auto simp: for_range4)
qed

text \<open>
  \<open>ReverseSequence\<close> is an involution, whether the batch dimension comes before or after the
  sequence dimension: with sequence lengths that fit the sequence dimension, reversing the sequences
  twice gives the tensor back.
\<close>

theorem reverse_sequence_involution:
  assumes "\<forall>d\<in>set pre. 0 \<le> d" and "\<forall>d\<in>set mid. 0 \<le> d" and "\<forall>d\<in>set post. 0 \<le> d" and "0 \<le> J" "0 \<le> Q"
    and "(seq_dim, batch_dim) = (if b then (int (length pre), int (length (pre @ J # mid)))
           else (int (length (pre @ J # mid)), int (length pre)))"
    and "seq_lengths_ok b L J Q"
    and "int (length input) = FlatSize (pre @ J # mid @ Q # post)"
    and "length output = length input" "length back = length input"
  shows "\<exists>out. ReverseSequence L seq_dim batch_dim (pre @ J # mid @ Q # post) input output = Some out \<and>
     ReverseSequence L seq_dim batch_dim (pre @ J # mid @ Q # post) out back = Some input"
proof -
  let ?A = "prod_list pre" and ?M = "prod_list mid" and ?c = "prod_list post" and ?d = "pre @ J # mid @ Q # post"
  note nn = prod_list_nonneg [OF assms(1)] prod_list_nonneg [OF assms(2)] prod_list_nonneg [OF assms(3)]
  note spec = ReverseSequence_spec [OF nn(3) assms(6,7)]
  obtain out where out: "ReverseSequence L seq_dim batch_dim ?d input output = Some out" "length out = length input"
    "\<forall>x\<in>set (idx4 ?A J ?M Q). \<forall>k. 0 \<le> k \<and> k < ?c \<longrightarrow>
        out ! nat (off4 J ?M Q (seq_flip b L x) * ?c + k) = input ! nat (off4 J ?M Q x * ?c + k)"
    using spec [OF assms(8,9)] by blast
  have lo: "int (length out) = FlatSize ?d" "length back = length out" using out(2) assms by simp_all
  obtain out2 where out2: "ReverseSequence L seq_dim batch_dim ?d out back = Some out2" "length out2 = length out"
    "\<forall>x\<in>set (idx4 ?A J ?M Q). \<forall>k. 0 \<le> k \<and> k < ?c \<longrightarrow>
        out2 ! nat (off4 J ?M Q (seq_flip b L x) * ?c + k) = out ! nat (off4 J ?M Q x * ?c + k)"
    using spec [OF lo] by blast
  have l: "int (length input) = size4 ?A J ?M Q * ?c" "int (length out) = size4 ?A J ?M Q * ?c"
    "int (length out2) = size4 ?A J ?M Q * ?c"
    using assms(8) out(2) out2(2) by (simp_all add: FlatSize_def foldl_times_eq size4_def mult.assoc)
  have "out2 = input"
    by (rule nhwc.involution_restores [OF length_idx4 [OF nn(1) assms(4) nn(2) assms(5)] nn(3) seq_flip_inv [OF assms(7)] l out(3) out2(3)])
  with out out2 show ?thesis by blast
qed

lemma reverse_sequence_involution_witness:
  "\<exists>out. ReverseSequence [2, 3] 1 0 [2, 3] [1 :: int, 2, 3, 4, 5, 6] [0, 0, 0, 0, 0, 0] = Some out \<and>
     ReverseSequence [2, 3] 1 0 [2, 3] out [0, 0, 0, 0, 0, 0] = Some [1, 2, 3, 4, 5, 6]"
  using reverse_sequence_involution [of "[]" "[]" "[]" 2 3 1 0 False "[2, 3]" "[1 :: int, 2, 3, 4, 5, 6]"
      "[0, 0, 0, 0, 0, 0]" "[0, 0, 0, 0, 0, 0]"]
  by (simp add: FlatSize_def seq_lengths_ok_def)

section \<open>Transposing\<close>

definition inverse_perms :: "int list \<Rightarrow> int list \<Rightarrow> bool" where
  "inverse_perms p q \<longleftrightarrow> length p = 4 \<and> length q = 4 \<and>
     (\<forall>k<4. 0 \<le> p ! k \<and> p ! k < 4 \<and> q ! nat (p ! k) = int k) \<and>
     (\<forall>k<4. 0 \<le> q ! k \<and> q ! k < 4 \<and> p ! nat (q ! k) = int k)"

text \<open>The input index for output index \<open>os\<close>.\<close>

definition unperm :: "int list \<Rightarrow> int list \<Rightarrow> int list" where
  "unperm q os = map (\<lambda>j. os ! nat (q ! j)) [0..<4]"

lemma length_unperm [simp]: "length (unperm q os) = 4"
  by (simp add: unperm_def)

lemma unperm_unique:
  assumes pq: "inverse_perms p q" and "length i = 4" and "\<And>k. k < 4 \<Longrightarrow> i ! nat (p ! k) = os ! k"
  shows "i = unperm q os"
proof (rule nth_equalityI)
  fix j assume "j < length i"
  then have j: "j < 4" using assms(2) by simp
  then have q: "0 \<le> q ! j" "q ! j < 4" "p ! nat (q ! j) = int j" using pq by (auto simp: inverse_perms_def)
  then have "nat (q ! j) < 4" by linarith
  from assms(3) [OF this] q(3) j show "i ! j = unperm q os ! j" by (simp add: unperm_def)
qed (use assms(2) in simp)

lemma perm_distinct:
  assumes "inverse_perms p q" "j < 4" "k < 4" "j \<noteq> k"
  shows "nat (p ! j) \<noteq> nat (p ! k)"
  using assms unfolding inverse_perms_def by (metis nat_int)

lemma four_cases: "(k :: nat) < 4 \<Longrightarrow> k = 0 \<or> k = 1 \<or> k = 2 \<or> k = 3"
  by linarith

text \<open>The loops with their array of input indices do the writes of the plain loops.\<close>

lemma transpose_loops:
  assumes pq: "inverse_perms [e0, e1, e2, e3] q" and junk: "length junk = 4"
    and run: "for_range 0 s3 (\<lambda>o3. for_range 0 s2 (\<lambda>o2. for_range 0 s1 (\<lambda>o1. for_range 0 s0 (\<lambda>o0 out.
      W [o0, o1, o2, o3] (unperm q [o0, o1, o2, o3]) out)))) output = Some out"
  shows "\<exists>i. for_range 0 s3 (\<lambda>o3 (i, out). do { i \<leftarrow> wr i e3 o3;
       for_range 0 s2 (\<lambda>o2 (i, out). do { i \<leftarrow> wr i e2 o2;
       for_range 0 s1 (\<lambda>o1 (i, out). do { i \<leftarrow> wr i e1 o1;
       for_range 0 s0 (\<lambda>o0 (i, out). do { i \<leftarrow> wr i e0 o0;
         out \<leftarrow> W [o0, o1, o2, o3] i out; Some (i, out) }) (i, out) }) (i, out) }) (i, out) }) (junk, output) = Some (i, out)"
proof -
  let ?p = "[e0, e1, e2, e3]"
  define n0 n1 n2 n3 where n_def: "n0 = nat e0" "n1 = nat e1" "n2 = nat e2" "n3 = nat e3"
  have d: "n0 \<noteq> n1" "n0 \<noteq> n2" "n0 \<noteq> n3" "n1 \<noteq> n2" "n1 \<noteq> n3" "n2 \<noteq> n3"
    using perm_distinct [OF pq, of 0 1] perm_distinct [OF pq, of 0 2] perm_distinct [OF pq, of 0 3]
      perm_distinct [OF pq, of 1 2] perm_distinct [OF pq, of 1 3] perm_distinct [OF pq, of 2 3] unfolding n_def by simp_all
  have "0 \<le> ?p ! k \<and> ?p ! k < 4" if "k < 4" for k using pq that by (simp add: inverse_perms_def)
  from this [of 0] this [of 1] this [of 2] this [of 3]
  have b: "0 \<le> e0" "e0 < 4" "0 \<le> e1" "e1 < 4" "0 \<le> e2" "e2 < 4" "0 \<le> e3" "e3 < 4" by simp_all
  then have n: "n0 < 4" "n1 < 4" "n2 < 4" "n3 < 4" unfolding n_def by linarith+
  have w: "wr i e v = Some (i[nat e := v])" if "length i = 4" "0 \<le> e" "e < 4" for i :: "int list" and e v
    using that by (simp add: wr_in)
  have w0: "wr i e0 v = Some (i[n0 := v])" if "length i = 4" for i :: "int list" and v using w [OF that] b unfolding n_def by blast
  have w1: "wr i e1 v = Some (i[n1 := v])" if "length i = 4" for i :: "int list" and v using w [OF that] b unfolding n_def by blast
  have w2: "wr i e2 v = Some (i[n2 := v])" if "length i = 4" for i :: "int list" and v using w [OF that] b unfolding n_def by blast
  have w3: "wr i e3 v = Some (i[n3 := v])" if "length i = 4" for i :: "int list" and v using w [OF that] b unfolding n_def by blast
  let ?l0 = "\<lambda>o3 o2 o1 o0 (i, out). do { i \<leftarrow> wr i e0 o0; out \<leftarrow> W [o0, o1, o2, o3] i out; Some (i, out) }"
  let ?l1 = "\<lambda>o3 o2 o1 (i, out). do { i \<leftarrow> wr i e1 o1; for_range 0 s0 (?l0 o3 o2 o1) (i, out) }"
  let ?l2 = "\<lambda>o3 o2 (i, out). do { i \<leftarrow> wr i e2 o2; for_range 0 s1 (?l1 o3 o2) (i, out) }"
  let ?l3 = "\<lambda>o3 (i, out). do { i \<leftarrow> wr i e3 o3; for_range 0 s2 (?l2 o3) (i, out) }"
  let ?f0 = "\<lambda>o3 o2 o1 o0 out. W [o0, o1, o2, o3] (unperm q [o0, o1, o2, o3]) out"
  let ?G0 = "\<lambda>o3 o2 o1 i. length i = 4 \<and> i ! n3 = o3 \<and> i ! n2 = o2 \<and> i ! n1 = o1"
  let ?G1 = "\<lambda>o3 o2 i. length i = 4 \<and> i ! n3 = o3 \<and> i ! n2 = o2"
  let ?G2 = "\<lambda>o3 i. length i = 4 \<and> i ! n3 = o3"
  have st0: "\<exists>g'. ?G0 o3 o2 o1 g' \<and> ?l0 o3 o2 o1 o0 (g, s) = Some (g', s')"
    if g: "?G0 o3 o2 o1 g" and f: "?f0 o3 o2 o1 o0 s = Some s'" for o3 o2 o1 o0 g s s'
  proof -
    let ?i = "g[n0 := o0]"
    have l0: "n0 < length g" using g n by simp
    have "?i ! nat (?p ! k) = [o0, o1, o2, o3] ! k" if "k < 4" for k
      using four_cases [OF that] g d l0 by (auto simp: n_def [symmetric])
    then have "?i = unperm q [o0, o1, o2, o3]" using unperm_unique [OF pq, of ?i] g by simp
    moreover have "?G0 o3 o2 o1 ?i" using g d by simp
    ultimately show ?thesis using w0 [of g o0] g f by simp
  qed
  have st1: "\<exists>g'. ?G1 o3 o2 g' \<and> ?l1 o3 o2 o1 (g, s) = Some (g', s')"
    if g: "?G1 o3 o2 g" and f: "for_range 0 s0 (?f0 o3 o2 o1) s = Some s'" for o3 o2 o1 g s s'
  proof -
    have "?G0 o3 o2 o1 (g[n1 := o1])" using g d n by simp
    from for_range_ghost [where G = "?G0 o3 o2 o1" and body = "?l0 o3 o2 o1", OF st0 f this]
    obtain g' where g': "?G0 o3 o2 o1 g'" "for_range 0 s0 (?l0 o3 o2 o1) (g[n1 := o1], s) = Some (g', s')" by blast
    have "?l1 o3 o2 o1 (g, s) = Some (g', s')"
      using w1 [of g o1] g g'(2) by (simp only: prod.case bind.bind_lunit)
    then show ?thesis using g'(1) by blast
  qed
  have st2: "\<exists>g'. ?G2 o3 g' \<and> ?l2 o3 o2 (g, s) = Some (g', s')"
    if g: "?G2 o3 g" and f: "for_range 0 s1 (\<lambda>o1. for_range 0 s0 (?f0 o3 o2 o1)) s = Some s'" for o3 o2 g s s'
  proof -
    have "?G1 o3 o2 (g[n2 := o2])" using g d n by simp
    from for_range_ghost [where G = "?G1 o3 o2" and body = "?l1 o3 o2", OF st1 f this]
    obtain g' where g': "?G1 o3 o2 g'" "for_range 0 s1 (?l1 o3 o2) (g[n2 := o2], s) = Some (g', s')" by blast
    have "?l2 o3 o2 (g, s) = Some (g', s')"
      using w2 [of g o2] g g'(2) by (simp only: prod.case bind.bind_lunit)
    then show ?thesis using g'(1) by blast
  qed
  have st3: "\<exists>g'. length g' = 4 \<and> ?l3 o3 (g, s) = Some (g', s')"
    if g: "length g = 4" and f: "for_range 0 s2 (\<lambda>o2. for_range 0 s1 (\<lambda>o1. for_range 0 s0 (?f0 o3 o2 o1))) s = Some s'" for o3 g s s'
  proof -
    have "?G2 o3 (g[n3 := o3])" using g n by simp
    from for_range_ghost [where G = "?G2 o3" and body = "?l2 o3", OF st2 f this]
    obtain g' where g': "?G2 o3 g'" "for_range 0 s2 (?l2 o3) (g[n3 := o3], s) = Some (g', s')" by blast
    have "?l3 o3 (g, s) = Some (g', s')"
      using w3 [of g o3] g g'(2) by (simp only: prod.case bind.bind_lunit)
    then show ?thesis using g'(1) by blast
  qed
  from for_range_ghost [where G = "\<lambda>g. length g = 4" and body = ?l3, OF st3 run junk] show ?thesis by blast
qed

definition off_list :: "shape \<Rightarrow> int list \<Rightarrow> int" where
  "off_list s i = off4 (s ! 1) (s ! 2) (s ! 3) (i ! 0, i ! 1, i ! 2, i ! 3)"

lemma length4E:
  assumes "length xs = 4"
  obtains a b c d where "xs = [a, b, c, d]"
  using assms by (auto simp: numeral_eq_Suc length_Suc_conv)

lemma Transpose_spec:
  assumes ui: "ExtendedShape 4 ui = Some s" and uo: "ExtendedShape 4 uo = Some t"
    and ep: "extended_perm (4 - length ui) (length uo) p = Some ep" and pq: "inverse_perms ep q"
    and t: "t = map (\<lambda>e. s ! nat e) ep" and junk: "length junk = 4"
    and li: "int (length input) = FlatSize s" and lo: "int (length output) = FlatSize t"
  shows "\<exists>out. Transpose junk (int (length uo)) p ui input uo output = Some out \<and> length out = length output \<and>
     (\<forall>os. length os = 4 \<and> (\<forall>k<4. 0 \<le> os ! k \<and> os ! k < t ! k) \<longrightarrow>
        out ! nat (off_list t os) = input ! nat (off_list s (unperm q os)))"
proof -
  obtain e0 e1 e2 e3 where e: "ep = [e0, e1, e2, e3]" using pq by (auto simp: inverse_perms_def elim: length4E)
  obtain d0 d1 d2 d3 where s: "s = [d0, d1, d2, d3]" using ExtendedShape4_len [OF ui] by (auto elim: length4E)
  let ?t0 = "s ! nat e0" and ?t1 = "s ! nat e1" and ?t2 = "s ! nat e2" and ?t3 = "s ! nat e3"
  have tl: "t = [?t0, ?t1, ?t2, ?t3]" using t e by simp
  have "0 \<le> ep ! k \<and> ep ! k < 4" if "k < 4" for k using pq that by (simp add: inverse_perms_def)
  from this [of 0] this [of 1] this [of 2] this [of 3]
  have eb: "0 \<le> e0" "e0 < 4" "0 \<le> e1" "e1 < 4" "0 \<le> e2" "e2 < 4" "0 \<le> e3" "e3 < 4" by (simp_all add: e)
  have Ds: "Dims s x = Some (s ! nat x)" if "0 \<le> x" "x < 4" for x using that by (simp add: s Dims_def rd_def)
  have sizes: "for_range 0 4 (\<lambda>k out_sizes. do {
        e \<leftarrow> rd ep k; d \<leftarrow> MatchingDim s e [(t, k)]; wr out_sizes k d }) (replicate 4 0) = Some t"
    using Ds eb by (simp add: for_range_0_4 e rd_def wr_def tl Dims4 numeral_eq_Suc)
  let ?W = "\<lambda>os i out. do { o_ind \<leftarrow> Offset_at t os; i_ind \<leftarrow> Offset_at s i; v \<leftarrow> rd input i_ind; wr out o_ind v }"
  have valid: "unperm q [o0, o1, o2, o3] ! j < s ! j \<and> 0 \<le> unperm q [o0, o1, o2, o3] ! j"
    if os: "(o0, o1, o2, o3) \<in> set (idx4 ?t0 ?t1 ?t2 ?t3)" and j: "j < 4" for o0 o1 o2 o3 j
  proof -
    have qj: "0 \<le> q ! j" "q ! j < 4" "ep ! nat (q ! j) = int j" using pq j by (auto simp: inverse_perms_def)
    have all: "0 \<le> [o0, o1, o2, o3] ! k \<and> [o0, o1, o2, o3] ! k < t ! k" if "k < 4" for k
      using four_cases [OF that] os by (auto simp: tl)
    have "nat (q ! j) < 4" using qj by linarith
    from all [OF this] have "0 \<le> [o0, o1, o2, o3] ! nat (q ! j) \<and> [o0, o1, o2, o3] ! nat (q ! j) < s ! j"
      using t qj pq \<open>nat (q ! j) < 4\<close> by (simp add: inverse_perms_def)
    then show ?thesis using j by (simp add: unperm_def)
  qed
  let ?I = "idx4 ?t3 ?t2 ?t1 ?t0"
  let ?g = "\<lambda>(o3, o2, o1, o0). off4 ?t1 ?t2 ?t3 (o0, o1, o2, o3)"
  let ?v = "\<lambda>(o3, o2, o1, o0). input ! nat (off_list s (unperm q [o0, o1, o2, o3]))"
  let ?b = "\<lambda>(o3, o2, o1, o0) out. ?W [o0, o1, o2, o3] (unperm q [o0, o1, o2, o3]) out"
  have body: "?b x out = wr out (?g x) (?v x)" if x: "x \<in> set ?I" for x and out :: "'a list"
  proof -
    obtain o3 o2 o1 o0 where X: "x = (o3, o2, o1, o0)" using prod_cases4 by blast
    have os: "(o0, o1, o2, o3) \<in> set (idx4 ?t0 ?t1 ?t2 ?t3)" using x X by auto
    let ?u = "unperm q [o0, o1, o2, o3]"
    obtain u0 u1 u2 u3 where u: "?u = [u0, u1, u2, u3]" using length_unperm [of q "[o0, o1, o2, o3]"] by (blast elim: length4E)
    have us: "(u0, u1, u2, u3) \<in> set (idx4 d0 d1 d2 d3)"
      using valid [OF os, of 0] valid [OF os, of 1] valid [OF os, of 2] valid [OF os, of 3] by (simp add: u s)
    have oi: "Offset_at s ?u = Some (off_list s ?u)"
      using us unfolding u by (simp add: Offset_at_def rd_def s Offset_eq off_list_def del: set_idx4)
    have "0 \<le> off_list s ?u \<and> off_list s ?u < int (length input)"
      using nhwc.offset_range [OF us] li unfolding u by (simp add: s off_list_def FlatSize_4)
    then have "rd input (off_list s ?u) = Some (?v x)" by (simp add: X rd_in)
    moreover have "Offset_at t [o0, o1, o2, o3] = Some (?g x)"
      using os by (simp add: Offset_at_def rd_def tl Offset_eq X del: set_idx4)
    ultimately show ?thesis using oi by (simp add: X)
  qed
  have run: "\<exists>out. foldM ?b ?I output = Some out \<and> length out = length output \<and> (\<forall>x\<in>set ?I. out ! nat (?g x) = ?v x) \<and>
     (\<forall>k<length output. int k \<notin> ?g ` set ?I \<longrightarrow> out ! k = output ! k)"
  proof (rule foldM_writes [OF body])
    show "0 \<le> ?g x \<and> ?g x < int (length output)" if "x \<in> set ?I" for x
    proof -
      obtain o3 o2 o1 o0 where X: "x = (o3, o2, o1, o0)" using prod_cases4 by blast
      have "(o0, o1, o2, o3) \<in> set (idx4 ?t0 ?t1 ?t2 ?t3)" using that X by auto
      from nhwc.offset_range [OF this] show ?thesis using lo by (simp add: X tl FlatSize_4)
    qed
    show "inj_on ?g (set ?I)"
    proof (rule inj_onI)
      fix x y assume xy: "x \<in> set ?I" "y \<in> set ?I" "?g x = ?g y"
      obtain o3 o2 o1 o0 where X: "x = (o3, o2, o1, o0)" using prod_cases4 by blast
      obtain p3 p2 p1 p0 where Y: "y = (p3, p2, p1, p0)" using prod_cases4 by blast
      have "(o0, o1, o2, o3) \<in> set (idx4 ?t0 ?t1 ?t2 ?t3)" "(p0, p1, p2, p3) \<in> set (idx4 ?t0 ?t1 ?t2 ?t3)"
        using xy X Y by auto
      from off4_inj [OF this] xy(3) show "x = y" by (simp add: X Y)
    qed
  qed (simp_all add: distinct_idx4)
  then obtain out where out: "foldM ?b ?I output = Some out" "length out = length output" "\<forall>x\<in>set ?I. out ! nat (?g x) = ?v x"
    by blast
  have "for_range 0 ?t3 (\<lambda>o3. for_range 0 ?t2 (\<lambda>o2. for_range 0 ?t1 (\<lambda>o1. for_range 0 ?t0 (\<lambda>o0 out.
      ?W [o0, o1, o2, o3] (unperm q [o0, o1, o2, o3]) out)))) output = Some out"
    using out(1) by (simp add: for_range4)
  from transpose_loops [where W = ?W, OF pq [unfolded e] junk this]
  have "Transpose junk (int (length uo)) p ui input uo output = Some out"
    using ExtendedShape4_len [OF ui] ExtendedShape4_len [OF uo] ui uo ep sizes
    by (auto simp: Transpose_def Let_def e tl rd_def)
  moreover have "out ! nat (off_list t os) = input ! nat (off_list s (unperm q os))"
    if os: "length os = 4 \<and> (\<forall>k<4. 0 \<le> os ! k \<and> os ! k < t ! k)" for os
  proof -
    obtain o0 o1 o2 o3 where O: "os = [o0, o1, o2, o3]" using os by (blast elim: length4E)
    have "\<forall>k<4. 0 \<le> [o0, o1, o2, o3] ! k \<and> [o0, o1, o2, o3] ! k < t ! k" using os O by simp
    from this [rule_format, of 0] this [rule_format, of 1] this [rule_format, of 2] this [rule_format, of 3]
    have "(o3, o2, o1, o0) \<in> set ?I" by (simp add: tl)
    from bspec [OF out(3) this] show ?thesis by (simp add: O tl off_list_def)
  qed
  ultimately show ?thesis using out(2) by blast
qed

lemma off_list_eqI:
  assumes "s = [d0, d1, d2, d3]" and "0 \<le> d0" "0 \<le> d1" "0 \<le> d2" "0 \<le> d3"
    and "int (length xs) = FlatSize s" "int (length ys) = FlatSize s"
    and e: "\<And>i. length i = 4 \<Longrightarrow> (\<And>k. k < 4 \<Longrightarrow> 0 \<le> i ! k \<and> i ! k < s ! k) \<Longrightarrow> xs ! nat (off_list s i) = ys ! nat (off_list s i)"
  shows "xs = ys"
proof (rule nhwc.buffer_eqI [of d0 d1 d2 d3])
  show "int (length (idx4 d0 d1 d2 d3)) = size4 d0 d1 d2 d3" using assms by (intro length_idx4)
  fix x assume x: "x \<in> set (idx4 d0 d1 d2 d3)"
  obtain i0 i1 i2 i3 where X: "x = (i0, i1, i2, i3)" using prod_cases4 by blast
  have "0 \<le> [i0, i1, i2, i3] ! k \<and> [i0, i1, i2, i3] ! k < s ! k" if "k < 4" for k
    using four_cases [OF that] x by (auto simp: X assms(1))
  from e [OF _ this] show "xs ! nat (off4 d1 d2 d3 x) = ys ! nat (off4 d1 d2 d3 x)"
    by (simp add: X assms(1) off_list_def)
qed (use assms in \<open>simp_all add: FlatSize_4\<close>)

lemma FlatSize_permuted:
  assumes "inverse_perms p q"
  shows "FlatSize (map (\<lambda>e. [d0, d1, d2, d3] ! nat e) p) = FlatSize [d0, d1, d2, d3]"
proof -
  have pq: "length p = 4" "\<And>k. k < 4 \<Longrightarrow> 0 \<le> p ! k \<and> p ! k < 4" "\<And>k. k < 4 \<Longrightarrow> 0 \<le> q ! k \<and> q ! k < 4 \<and> p ! nat (q ! k) = int k"
    using assms by (auto simp: inverse_perms_def)
  have "distinct p" using perm_distinct [OF assms] pq(1) by (metis distinct_conv_nth)
  moreover have "set p = {0, 1, 2, 3}"
  proof (intro set_eqI iffI)
    fix x assume "x \<in> set p"
    then obtain k where "k < 4" "x = p ! k" using pq(1) by (auto simp: in_set_conv_nth)
    then have "0 \<le> x" "x < 4" using pq(2) by auto
    then have "x = 0 \<or> x = 1 \<or> x = 2 \<or> x = 3" by linarith
    then show "x \<in> {0, 1, 2, 3}" by simp
  next
    fix x :: int assume "x \<in> {0, 1, 2, 3}"
    then have x: "nat x < 4" "int (nat x) = x" by auto
    then have "nat (q ! nat x) < length p" "p ! nat (q ! nat x) = x" using pq(1) pq(3) [OF x(1)] by (simp_all add: nat_less_iff)
    then show "x \<in> set p" by (metis nth_mem)
  qed
  ultimately have "prod_list (map (\<lambda>e. [d0, d1, d2, d3] ! nat e) p) = prod (\<lambda>e. [d0, d1, d2, d3] ! nat e) {0, 1, 2, 3}"
    by (simp only: prod.distinct_set_conv_list [symmetric])
  then show ?thesis by (simp add: FlatSize_def foldl_times_eq numeral_eq_Suc)
qed

lemma transpose_extended:
  assumes "ExtendedShape 4 ui = Some s" and "ExtendedShape 4 uo = Some t" and "\<forall>d\<in>set s. 0 \<le> d"
    and "extended_perm (4 - length ui) (length uo) p = Some ep" and "extended_perm (4 - length uo) (length ui) q = Some eq"
    and "inverse_perms ep eq" and "t = map (\<lambda>e. s ! nat e) ep"
    and "length junk = 4" "length junk' = 4"
    and "int (length input) = FlatSize s" "length output = length input" "length back = length input"
  shows "\<exists>out. Transpose junk (int (length uo)) p ui input uo output = Some out \<and>
     (\<forall>os. length os = 4 \<and> (\<forall>k<4. 0 \<le> os ! k \<and> os ! k < t ! k) \<longrightarrow>
        out ! nat (off_list t os) = input ! nat (off_list s (unperm eq os))) \<and>
     Transpose junk' (int (length ui)) q uo out ui back = Some input"
proof -
  have sl: "length s = 4" "length t = 4" using ExtendedShape4_len assms(1,2) by blast+
  have pq: "\<And>k. k < 4 \<Longrightarrow> 0 \<le> ep ! k \<and> ep ! k < 4 \<and> eq ! nat (ep ! k) = int k"
    "\<And>k. k < 4 \<Longrightarrow> 0 \<le> eq ! k \<and> eq ! k < 4 \<and> ep ! nat (eq ! k) = int k" "length ep = 4" "length eq = 4"
    using assms(6) by (auto simp: inverse_perms_def)
  have n4: "nat (eq ! k) < 4" "nat (ep ! k) < 4" if "k < 4" for k using pq that by (simp_all add: nat_less_iff)
  have s: "s = map (\<lambda>e. t ! nat e) eq"
  proof (rule nth_equalityI)
    fix k assume "k < length s"
    then have k: "k < 4" using sl by simp
    have "t ! nat (eq ! k) = s ! nat (ep ! nat (eq ! k))" using assms(7) pq(3) n4(1) [OF k] by simp
    then show "s ! k = map (\<lambda>e. t ! nat e) eq ! k" using pq(2) [OF k] pq(4) k by simp
  qed (simp add: sl pq)
  have qp: "inverse_perms eq ep" using assms(6) by (auto simp: inverse_perms_def)
  obtain d0 d1 d2 d3 where sd: "s = [d0, d1, d2, d3]" using sl(1) by (rule length4E)
  have nn: "0 \<le> d0" "0 \<le> d1" "0 \<le> d2" "0 \<le> d3" using assms(3) sd by simp_all
  have F: "FlatSize t = FlatSize s"
    using FlatSize_permuted [OF assms(6)] sd assms(7) by simp
  have lo: "int (length output) = FlatSize t" "int (length back) = FlatSize s" using assms(10-12) F by simp_all
  obtain out where out: "Transpose junk (int (length uo)) p ui input uo output = Some out" "length out = length output"
    "\<forall>os. length os = 4 \<and> (\<forall>k<4. 0 \<le> os ! k \<and> os ! k < t ! k) \<longrightarrow>
        out ! nat (off_list t os) = input ! nat (off_list s (unperm eq os))"
    using Transpose_spec [OF assms(1,2,4,6,7,8,10) lo(1)] by blast
  have lout: "int (length out) = FlatSize t" using out(2) lo by simp
  obtain res where res: "Transpose junk' (int (length ui)) q uo out ui back = Some res" "length res = length back"
    "\<forall>os. length os = 4 \<and> (\<forall>k<4. 0 \<le> os ! k \<and> os ! k < s ! k) \<longrightarrow>
        res ! nat (off_list s os) = out ! nat (off_list t (unperm ep os))"
    using Transpose_spec [OF assms(2,1,5) qp s assms(9) lout lo(2)] by blast
  have "res = input"
  proof (rule off_list_eqI [OF sd nn])
    fix i assume i: "length i = 4" "\<And>k. k < 4 \<Longrightarrow> 0 \<le> i ! k \<and> i ! k < s ! k"
    let ?u = "unperm ep i"
    have u: "?u ! k = i ! nat (ep ! k)" if "k < 4" for k using that by (simp add: unperm_def)
    have "0 \<le> ?u ! k \<and> ?u ! k < t ! k" if "k < 4" for k
      using i(2) [OF n4(2) [OF that]] that pq(3) by (simp add: u assms(7))
    moreover have "unperm eq ?u = i"
    proof (rule nth_equalityI)
      fix j assume "j < length (unperm eq ?u)"
      then have j: "j < 4" by simp
      have "unperm eq ?u ! j = ?u ! nat (eq ! j)" using j by (simp add: unperm_def)
      then show "unperm eq ?u ! j = i ! j" using u [OF n4(1) [OF j]] pq(2) [OF j] by simp
    qed (simp add: i)
    ultimately have "out ! nat (off_list t ?u) = input ! nat (off_list s i)" using out(3) by force
    then show "res ! nat (off_list s i) = input ! nat (off_list s i)" using res(3) i by simp
  qed (use res(2) lo(2) assms(10) in simp_all)
  with out res show ?thesis by blast
qed

text \<open>
  The two permutations of a call and the call that undoes it, of any rank, and their extension to
  four dimensions.
\<close>

definition inverse_of :: "int list \<Rightarrow> int list \<Rightarrow> bool" where
  "inverse_of p q \<longleftrightarrow> length q = length p \<and> set p \<subseteq> {0..<int (length p)} \<and> set q \<subseteq> {0..<int (length p)} \<and>
     (\<forall>k<length p. p ! nat (q ! k) = int k \<and> q ! nat (p ! k) = int k)"

definition pad_perm :: "int list \<Rightarrow> int list" where
  "pad_perm p = map int [0..<4 - length p] @ map (\<lambda>e. e + int (4 - length p)) p"

definition pad_index :: "int list \<Rightarrow> int list" where
  "pad_index i = replicate (4 - length i) 0 @ i"

lemma length_pad [simp]:
  "length p \<le> 4 \<Longrightarrow> length (pad_perm p) = 4" "length i \<le> 4 \<Longrightarrow> length (pad_index i) = 4"
  by (simp_all add: pad_perm_def pad_index_def)

lemma pad_perm_nth:
  "length p + m = 4 \<Longrightarrow> k < 4 \<Longrightarrow> pad_perm p ! k = (if k < m then int k else p ! (k - m) + int m)"
proof -
  assume "length p + m = 4" and "k < 4"
  moreover from this have "4 - length p = m" by simp
  ultimately show ?thesis by (simp add: pad_perm_def nth_append)
qed

lemma extended_perm_eq:
  assumes "length p \<le> 4"
  shows "extended_perm (4 - length p) (length p) p = Some (pad_perm p)"
proof -
  consider "p = []" | a where "p = [a]" | a b where "p = [a, b]" | a b c where "p = [a, b, c]"
    | a b c d where "p = [a, b, c, d]"
    using assms by (auto simp: numeral_eq_Suc le_Suc_eq length_Suc_conv)
  then show ?thesis
    by cases (simp_all add: extended_perm_def pad_perm_def for_range_step rd_def wr_def numeral_eq_Suc)
qed

lemma inverse_ofD:
  assumes "inverse_of p q" and "k < length p"
  shows "0 \<le> p ! k" "p ! k < int (length p)" "q ! nat (p ! k) = int k"
proof -
  have "p ! k \<in> {0..<int (length p)}" using assms unfolding inverse_of_def by (metis nth_mem subsetD)
  then show "0 \<le> p ! k" "p ! k < int (length p)" by simp_all
  show "q ! nat (p ! k) = int k" using assms by (simp add: inverse_of_def)
qed

lemma inverse_of_sym: "inverse_of p q \<Longrightarrow> inverse_of q p"
  by (auto simp: inverse_of_def)

lemma pad_perm_inverse:
  assumes "inverse_of p q" and "length p \<le> 4" and k: "k < 4"
  shows "0 \<le> pad_perm p ! k \<and> pad_perm p ! k < 4 \<and> pad_perm q ! nat (pad_perm p ! k) = int k"
proof -
  obtain m where m: "length p + m = 4" using assms(2) by (metis le_add_diff_inverse)
  have lq: "length q + m = 4" using m assms(1) by (simp add: inverse_of_def)
  show ?thesis
  proof (cases "k < m")
    case True
    then show ?thesis using k by (simp add: pad_perm_nth [OF m] pad_perm_nth [OF lq])
  next
    case False
    then have j: "k - m < length p" using k m by simp
    note D = inverse_ofD [OF assms(1) j]
    have e: "pad_perm p ! k = p ! (k - m) + int m" using False k by (simp add: pad_perm_nth [OF m])
    have n: "nat (p ! (k - m) + int m) = nat (p ! (k - m)) + m" using D(1) by (simp add: nat_add_distrib)
    have "nat (p ! (k - m)) < length p" using D(1,2) by linarith
    then have "nat (p ! (k - m)) + m < 4" using m by linarith
    then have "pad_perm q ! nat (pad_perm p ! k) = int k"
      unfolding e n using D(3) False by (simp add: pad_perm_nth [OF lq])
    moreover have "int (length p) + int m = 4" using m by simp
    ultimately show ?thesis unfolding e using D(1,2) by linarith
  qed
qed

lemma inverse_perms_pad:
  assumes "inverse_of p q" and "length p \<le> 4"
  shows "inverse_perms (pad_perm p) (pad_perm q)"
  using pad_perm_inverse [OF assms] pad_perm_inverse [OF inverse_of_sym [OF assms(1)]] assms
  by (simp add: inverse_perms_def inverse_of_def)

lemma pad_shape_permuted:
  assumes "inverse_of p q" and m: "length p + m = 4" and "length u = length p"
  shows "replicate m c @ map (\<lambda>e. u ! nat e) p = map (\<lambda>e. (replicate m c @ u) ! nat e) (pad_perm p)"
proof (rule nth_equalityI)
  have l4: "length (pad_perm p) = 4" using m by simp
  then show "length (replicate m c @ map (\<lambda>e. u ! nat e) p) = length (map (\<lambda>e. (replicate m c @ u) ! nat e) (pad_perm p))"
    using m by simp
  fix k assume "k < length (replicate m c @ map (\<lambda>e. u ! nat e) p)"
  then have k: "k < 4" using m by simp
  show "(replicate m c @ map (\<lambda>e. u ! nat e) p) ! k = map (\<lambda>e. (replicate m c @ u) ! nat e) (pad_perm p) ! k"
  proof (cases "k < m")
    case True
    then show ?thesis using k l4 by (simp add: pad_perm_nth [OF m] nth_append)
  next
    case False
    then have j: "k - m < length p" using k m by simp
    note D = inverse_ofD [OF assms(1) j]
    have n: "nat (p ! (k - m) + int m) = nat (p ! (k - m)) + m" using D(1) by (simp add: nat_add_distrib)
    show ?thesis using False j k n l4 by (simp add: pad_perm_nth [OF m] nth_append)
  qed
qed

text \<open>
  C30: transposing by the inverse permutation undoes a transposition.  Let \<open>p\<close> and \<open>q\<close> be inverse
  permutations of the axes of a tensor of any rank up to four.  Both calls run without a failing
  DCHECK and inside their buffers, whatever the uninitialised index array held; the first puts the
  element with index \<open>i\<close> at the index whose coordinate \<open>k\<close> is coordinate \<open>p k\<close> of \<open>i\<close>, and the second
  gives the tensor back.
\<close>

theorem transpose_roundtrip:
  assumes "length ui \<le> 4" and "length p = length ui" and "inverse_of p q"
    and "\<forall>d\<in>set ui. 0 \<le> d" and "uo = map (\<lambda>e. ui ! nat e) p"
    and "ExtendedShape 4 ui = Some s" and "ExtendedShape 4 uo = Some t"
    and "length junk = 4" "length junk' = 4"
    and "int (length input) = FlatSize s" "length output = length input" "length back = length input"
  shows "\<exists>out. Transpose junk (int (length p)) p ui input uo output = Some out \<and>
     (\<forall>i. length i = length ui \<and> (\<forall>k<length ui. 0 \<le> i ! k \<and> i ! k < ui ! k) \<longrightarrow>
        out ! nat (off_list t (pad_index (map (\<lambda>e. i ! nat e) p))) = input ! nat (off_list s (pad_index i))) \<and>
     Transpose junk' (int (length q)) q uo out ui back = Some input"
proof -
  let ?m = "4 - length p"
  have m: "length p + ?m = 4" using assms(1,2) by simp
  have l: "length p \<le> 4" "length uo = length p" "length q = length p" "length ui = length p"
    using assms(1,2,3,5) by (simp_all add: inverse_of_def)
  have s: "s = replicate ?m 1 @ ui" and t: "t = replicate ?m 1 @ uo"
    using assms(6,7) l by (simp_all add: ExtendedShape_def)
  have tp: "t = map (\<lambda>e. s ! nat e) (pad_perm p)"
    unfolding t s assms(5) by (rule pad_shape_permuted [OF assms(3) m l(4)])
  have ep: "extended_perm (4 - length ui) (length uo) p = Some (pad_perm p)"
    "extended_perm (4 - length uo) (length ui) q = Some (pad_perm q)"
    using extended_perm_eq [of p] extended_perm_eq [of q] l by simp_all
  have nn: "\<forall>d\<in>set s. 0 \<le> d" using assms(4) by (auto simp: s)
  note pq = inverse_perms_pad [OF assms(3) l(1)]
  obtain out where out: "Transpose junk (int (length uo)) p ui input uo output = Some out"
    "\<And>os. length os = 4 \<Longrightarrow> (\<And>k. k < 4 \<Longrightarrow> 0 \<le> os ! k \<and> os ! k < t ! k) \<Longrightarrow>
        out ! nat (off_list t os) = input ! nat (off_list s (unperm (pad_perm q) os))"
    "Transpose junk' (int (length ui)) q uo out ui back = Some input"
    using transpose_extended [OF assms(6,7) nn ep pq tp assms(8-12)] by blast
  have "out ! nat (off_list t (pad_index (map (\<lambda>e. i ! nat e) p))) = input ! nat (off_list s (pad_index i))"
    if i: "length i = length ui" "\<forall>k<length ui. 0 \<le> i ! k \<and> i ! k < ui ! k" for i
  proof -
    let ?i = "pad_index i" and ?os = "pad_index (map (\<lambda>e. i ! nat e) p)"
    have os: "?os = map (\<lambda>e. ?i ! nat e) (pad_perm p)"
      using pad_shape_permuted [OF assms(3) m, of i 0] i(1) l(4) by (simp add: pad_index_def)
    have ii: "0 \<le> ?i ! k \<and> ?i ! k < s ! k" if "k < 4" for k
      using that i l by (auto simp: pad_index_def s nth_append)
    have P: "0 \<le> pad_perm p ! k \<and> pad_perm p ! k < 4" "0 \<le> pad_perm q ! k \<and> pad_perm q ! k < 4 \<and> pad_perm p ! nat (pad_perm q ! k) = int k"
      if "k < 4" for k using pq that by (simp_all add: inverse_perms_def)
    have "0 \<le> ?os ! k \<and> ?os ! k < t ! k" if "k < 4" for k
    proof -
      have "nat (pad_perm p ! k) < 4" using P(1) [OF that] by linarith
      from ii [OF this] show ?thesis using that l(1) by (simp add: os tp)
    qed
    moreover have "unperm (pad_perm q) ?os = ?i"
    proof (rule nth_equalityI)
      fix j assume "j < length (unperm (pad_perm q) ?os)"
      then have j: "j < 4" by simp
      have "nat (pad_perm q ! j) < 4" using P(2) [OF j] by linarith
      then show "unperm (pad_perm q) ?os ! j = ?i ! j" using j P(2) [OF j] l(1) by (simp add: unperm_def os)
    qed (use i l in simp)
    moreover have "length ?os = 4" using l(1) by simp
    ultimately show ?thesis using out(2) [of ?os] by simp
  qed
  with out(1,3) l show ?thesis by auto
qed

lemma transpose_roundtrip_witness:
  "\<exists>out. Transpose [7, 7, 7, 7] 3 [2, 0, 1] [2, 3, 1] [1 :: int, 2, 3, 4, 5, 6] [1, 2, 3] [0, 0, 0, 0, 0, 0] = Some out \<and>
     Transpose [7, 7, 7, 7] 3 [1, 2, 0] [1, 2, 3] out [2, 3, 1] [0, 0, 0, 0, 0, 0] = Some [1, 2, 3, 4, 5, 6]"
proof -
  have inv: "inverse_of [2, 0, 1] [1, 2, 0]"
    by (auto simp: inverse_of_def less_Suc_eq numeral_eq_Suc)
  have ext: "ExtendedShape 4 [2, 3, 1] = Some [1, 2, 3, 1]" "ExtendedShape 4 [1, 2, 3] = Some [1, 1, 2, 3]"
    by (simp_all add: ExtendedShape_def numeral_eq_Suc)
  have "\<exists>out. Transpose [7, 7, 7, 7] (int (length [2, 0, 1 :: int])) [2, 0, 1] [2, 3, 1] [1 :: int, 2, 3, 4, 5, 6] [1, 2, 3]
      [0, 0, 0, 0, 0, 0] = Some out \<and>
     Transpose [7, 7, 7, 7] (int (length [1, 2, 0 :: int])) [1, 2, 0] [1, 2, 3] out [2, 3, 1] [0, 0, 0, 0, 0, 0] = Some [1, 2, 3, 4, 5, 6]"
    using transpose_roundtrip [OF _ _ inv _ _ ext, of "[7, 7, 7, 7]" "[7, 7, 7, 7]" "[1 :: int, 2, 3, 4, 5, 6]"
      "[0, 0, 0, 0, 0, 0]" "[0, 0, 0, 0, 0, 0]"] by (auto simp: FlatSize_def)
  moreover have "int (length [2, 0, 1 :: int]) = 3" "int (length [1, 2, 0 :: int]) = 3" by simp_all
  ultimately show ?thesis by (simp only:)
qed

end
