(* ===== verification/Lite_Select.thy ===== *)
theory Lite_Select
  imports Lite_Concat
begin

text \<open>
  \<open>reference_ops.h\<close> and \<open>arg_min_max.h\<close>: the kernels that choose elements, by a condition, by
  position or by comparison.
\<close>

section \<open>The kernels\<close>

definition Select ::
    "shape \<Rightarrow> bool list \<Rightarrow> shape \<Rightarrow> 'a list \<Rightarrow> shape \<Rightarrow> 'a list \<Rightarrow> shape \<Rightarrow> 'a list \<Rightarrow> 'a list option" where
  "Select input_condition_shape input_condition_data input_x_shape input_x_data input_y_shape input_y_data
      output_shape output_data = do {
     flatsize \<leftarrow> MatchingFlatSize3 input_condition_shape input_x_shape input_y_shape output_shape;
     for_range 0 flatsize (\<lambda>i output_data. do {
       c \<leftarrow> rd input_condition_data i;
       v \<leftarrow> if c then rd input_x_data i else rd input_y_data i;
       wr output_data i v }) output_data }"

definition RankOneSelect ::
    "shape \<Rightarrow> bool list \<Rightarrow> shape \<Rightarrow> 'a list \<Rightarrow> shape \<Rightarrow> 'a list \<Rightarrow> shape \<Rightarrow> 'a list \<Rightarrow> 'a list option" where
  "RankOneSelect input_condition_shape input_condition_data input_x_shape input_x_data input_y_shape input_y_data
      output_shape output_data = do {
     let outer_size = FlatSize input_condition_shape;
     d \<leftarrow> MatchingDim input_x_shape 0 [(input_y_shape, 0), (output_shape, 0)];
     _ \<leftarrow> check (d = outer_size);
     inner_size \<leftarrow> MatchingFlatSizeSkipDim2 input_x_shape 0 input_y_shape output_shape;
     (output_data, offset) \<leftarrow> for_range 0 outer_size (\<lambda>i (output_data, offset). do {
       c \<leftarrow> rd input_condition_data i;
       output_data \<leftarrow> memcpy_at output_data offset (if c then input_x_data else input_y_data) offset inner_size;
       Some (output_data, offset + inner_size) }) (output_data, 0);
     Some output_data }"

text \<open>A division by a zero dimension is \<open>None\<close>.\<close>

definition SelectTrueCoords :: "shape \<Rightarrow> bool list \<Rightarrow> int list \<Rightarrow> int list option" where
  "SelectTrueCoords input_condition_shape input_condition_data output_data = do {
     let n = FlatSize input_condition_shape;
     let cond_rank = int (length input_condition_shape);
     (dims_to_count, cur_flat_size) \<leftarrow> for_range 0 cond_rank (\<lambda>i (dims_to_count, cur_flat_size). do {
         d \<leftarrow> Dims input_condition_shape i;
         _ \<leftarrow> check (d \<noteq> 0);
         dims_to_count \<leftarrow> wr dims_to_count i (cdiv cur_flat_size d);
         r \<leftarrow> rd dims_to_count i;
         Some (dims_to_count, r) }) (replicate (nat cond_rank) 0, n);
     (output_data, output_index) \<leftarrow> for_range 0 n (\<lambda>i (output_data, output_index). do {
         c \<leftarrow> rd input_condition_data i;
         if c then do {
           (output_data, flat_index) \<leftarrow> for_range 0 cond_rank (\<lambda>j (output_data, flat_index). do {
               dj \<leftarrow> rd dims_to_count j;
               _ \<leftarrow> check (dj \<noteq> 0);
               let coord_j = cdiv flat_index dj;
               output_data \<leftarrow> wr output_data (output_index * cond_rank + j) coord_j;
               Some (output_data, cmod flat_index dj) }) (output_data, i);
           Some (output_data, output_index + 1) }
         else Some (output_data, output_index) }) (output_data, 0);
     Some output_data }"

definition SparseToDense ::
    "int list list \<Rightarrow> 'a list \<Rightarrow> 'a \<Rightarrow> bool \<Rightarrow> shape \<Rightarrow> 'a list \<Rightarrow> 'a list option" where
  "SparseToDense indices values default_value value_is_scalar unextended_output_shape output_data = do {
     _ \<leftarrow> check (length unextended_output_shape \<le> 4);
     output_shape \<leftarrow> ExtendedShape 4 unextended_output_shape;
     let value_count = int (length indices);
     let num_elements = FlatSize output_shape;
     output_data \<leftarrow> for_range 0 num_elements (\<lambda>i output_data. wr output_data i default_value) output_data;
     if value_is_scalar then
       for_range 0 value_count (\<lambda>i output_data. do {
         index \<leftarrow> rd indices i;
         _ \<leftarrow> check (length index = 4);
         v \<leftarrow> rd values 0;
         off \<leftarrow> Offset_at output_shape index;
         wr output_data off v }) output_data
     else
       for_range 0 value_count (\<lambda>i output_data. do {
         index \<leftarrow> rd indices i;
         _ \<leftarrow> check (length index = 4);
         v \<leftarrow> rd values i;
         off \<leftarrow> Offset_at output_shape index;
         wr output_data off v }) output_data }"

definition Fill :: "shape \<Rightarrow> 'a list \<Rightarrow> shape \<Rightarrow> 'a list \<Rightarrow> 'a list option" where
  "Fill value_shape value_data output_shape output_data = do {
     _ \<leftarrow> check (length value_shape = 0);
     let flat_size = FlatSize output_shape;
     for_range 0 flat_size (\<lambda>i output_data. do { v \<leftarrow> rd value_data 0; wr output_data i v }) output_data }"

definition Minimum :: "shape \<Rightarrow> 'a :: ord list \<Rightarrow> 'a list \<Rightarrow> shape \<Rightarrow> 'a list \<Rightarrow> 'a list option" where
  "Minimum input1_shape input1_data input2_data output_shape output_data = do {
     flat_size \<leftarrow> MatchingFlatSize input1_shape output_shape;
     min_value \<leftarrow> rd input2_data 0;
     for_range 0 flat_size (\<lambda>i output_data. do {
       x \<leftarrow> rd input1_data i;
       wr output_data i (if x > min_value then min_value else x) }) output_data }"

definition Maximum :: "shape \<Rightarrow> 'a :: ord list \<Rightarrow> 'a list \<Rightarrow> shape \<Rightarrow> 'a list \<Rightarrow> 'a list option" where
  "Maximum input1_shape input1_data input2_data output_shape output_data = do {
     flat_size \<leftarrow> MatchingFlatSize input1_shape output_shape;
     max_value \<leftarrow> rd input2_data 0;
     for_range 0 flat_size (\<lambda>i output_data. do {
       x \<leftarrow> rd input1_data i;
       wr output_data i (if x < max_value then max_value else x) }) output_data }"

text \<open>The two loops that compare the sizes of the shapes; they return the outer and the inner size.\<close>

definition arg_sizes :: "int \<Rightarrow> shape \<Rightarrow> shape \<Rightarrow> (int \<times> int) option" where
  "arg_sizes axis input1_shape output_shape = do {
     outer_size \<leftarrow> for_range 0 axis (\<lambda>i outer_size. do {
        a \<leftarrow> Dims input1_shape i; b \<leftarrow> Dims output_shape i; _ \<leftarrow> check (a = b); Some (outer_size * a) }) 1;
     let dims_count = int (length input1_shape);
     inner_size \<leftarrow> for_range (axis + 1) dims_count (\<lambda>i inner_size. do {
        a \<leftarrow> Dims input1_shape i; b \<leftarrow> Dims output_shape (i - 1); _ \<leftarrow> check (a = b); Some (inner_size * a) }) 1;
     Some (outer_size, inner_size) }"

definition ArgMinMax ::
    "shape \<Rightarrow> 'a list \<Rightarrow> int list \<Rightarrow> shape \<Rightarrow> int list \<Rightarrow> ('a \<Rightarrow> 'a \<Rightarrow> bool) \<Rightarrow> int list option" where
  "ArgMinMax input1_shape input1_data input2_data output_shape output_data cmp = do {
     _ \<leftarrow> check (int (length input1_shape) > 0);
     _ \<leftarrow> check (int (length input1_shape) - 1 = int (length output_shape));
     a \<leftarrow> rd input2_data 0;
     let axis = (if a < 0 then a + int (length input1_shape) else a);
     axis_size \<leftarrow> Dims input1_shape axis;
     (outer_size, inner_size) \<leftarrow> arg_sizes axis input1_shape output_shape;
     for_range 0 outer_size (\<lambda>outer. for_range 0 inner_size (\<lambda>inner output_data. do {
       v0 \<leftarrow> rd input1_data (outer * axis_size * inner_size + inner);
       (min_max_value, min_max_index) \<leftarrow> for_range 1 axis_size (\<lambda>i (min_max_value, min_max_index). do {
          curr_value \<leftarrow> rd input1_data ((outer * axis_size + i) * inner_size + inner);
          Some (if cmp curr_value min_max_value then (curr_value, i) else (min_max_value, min_max_index)) }) (v0, 0);
       wr output_data (outer * inner_size + inner) min_max_index })) output_data }"

definition ArgMax :: "shape \<Rightarrow> 'a :: ord list \<Rightarrow> int list \<Rightarrow> shape \<Rightarrow> int list \<Rightarrow> int list option" where
  "ArgMax input1_shape input1_data input2_data output_shape output_data =
     ArgMinMax input1_shape input1_data input2_data output_shape output_data (\<lambda>a b. a > b)"

section \<open>Selecting by a condition\<close>

lemma elementwise:
  assumes len: "int (length s) = n" and body: "\<And>i s. 0 \<le> i \<Longrightarrow> i < n \<Longrightarrow> body i s = wr s i (v i)"
  shows "for_range 0 n body s = Some (map v [0..n - 1])"
proof -
  obtain t where t: "foldM body [0..n - 1] s = Some t" "length t = length s" "\<forall>i\<in>set [0..n - 1]. t ! nat i = v i"
    using vec.fill_elements [OF len, of body v] body by auto
  have "t = map v [0..n - 1]"
  proof (rule nth_equalityI)
    show "length t = length (map v [0..n - 1])" using t(2) len by simp
    fix k assume "k < length t"
    then have "int k \<in> set [0..n - 1]" using t(2) len by simp
    from bspec [OF t(3) this] show "t ! k = map v [0..n - 1] ! k" using \<open>int k \<in> _\<close> by simp
  qed
  with t(1) show ?thesis by (simp add: for_range_def)
qed

lemma Select_eq:
  assumes "int (length cond) = FlatSize s" "int (length x) = FlatSize s" "int (length y) = FlatSize s"
    "int (length output) = FlatSize s"
  shows "Select s cond s x s y s output =
     Some (map (\<lambda>i. if cond ! nat i then x ! nat i else y ! nat i) [0..FlatSize s - 1])"
  using assms by (simp add: Select_def MatchingFlatSize_eq elementwise rd_def)

lemma dims_match_skip_refl: "dims_match_skip s k s = Some ()"
proof -
  have "\<exists>t. for_range 0 (int (length s)) (\<lambda>i _.
       if i \<noteq> k then do { x \<leftarrow> Dims s i; y \<leftarrow> Dims s i; check (x = y) } else Some ()) () = Some t \<and> True"
    by (rule for_range_rule) (auto simp: Dims_def rd_def)
  then show ?thesis by (simp add: dims_match_skip_def)
qed

lemma RankOneSelect_eq:
  assumes s: "s = n # rest" and nn: "0 \<le> prod_list rest" and len: "int (length cond) = n"
    and l: "int (length x) = FlatSize s" "int (length y) = FlatSize s" "int (length output) = FlatSize s"
  shows "RankOneSelect [n] cond s x s y s output = Some (concat (map (\<lambda>i. row (\<lambda>k.
     (if cond ! nat i then x else y) ! nat (i * prod_list rest + k)) (prod_list rest)) [0..n - 1]))"
proof -
  let ?c = "prod_list rest"
  let ?body = "\<lambda>i (out, offset). do {
       c \<leftarrow> rd cond i;
       out \<leftarrow> memcpy_at out offset (if c then x else y) offset ?c;
       Some (out, offset + ?c) }"
  let ?v = "\<lambda>i k. (if cond ! nat i then x else y) ! nat (i * ?c + k)"
  have F: "FlatSize s = n * ?c" by (simp add: s FlatSize_def foldl_times_eq)
  let ?J = "\<lambda>pre (t, p). p = int (length pre) * ?c \<and> length t = length output \<and> take (nat p) t = concat (map (\<lambda>i. row (?v i) ?c) pre)"
  have "\<exists>t. foldM ?body [0..n - 1] (output, 0) = Some t \<and> ?J [0..n - 1] t"
  proof (rule foldM_invar)
    show "?J [] (output, 0)" by simp
  next
    fix pre i post s
    assume xs: "[0..n - 1] = pre @ i # post" and J: "?J pre s"
    obtain t p where st: "s = (t, p)" by fastforce
    have "[0..n - 1] ! length pre = i" "length pre < length [0..n - 1]" unfolding xs by simp_all
    then have i: "i = int (length pre)" "0 \<le> i" "i < n" by auto
    have J': "p = i * ?c" "length t = length output" "take (nat p) t = concat (map (\<lambda>i. row (?v i) ?c) pre)"
      using J unfolding st prod.case i(1) by blast+
    have fit: "0 \<le> i * ?c" "i * ?c + ?c \<le> n * ?c" using cell_fits [OF i(2,3) nn] by simp_all
    let ?src = "if cond ! nat i then x else y"
    have ls: "int (length ?src) = n * ?c" using l F by simp
    have "p + ?c \<le> int (length t)" "p + ?c \<le> int (length ?src)" "0 \<le> p" using fit J' l F ls by simp_all
    then obtain t' where t': "memcpy_at t p ?src p ?c = Some t'" "block_write p ?c (\<lambda>k. ?src ! nat (p + k)) t t'"
      using block_write_memcpy [OF nn, of p t p ?src] by blast
    have "take (nat (p + ?c)) t' = concat (map (\<lambda>i. row (?v i) ?c) pre) @ row (\<lambda>k. ?src ! nat (p + k)) ?c"
      by (rule block_write_append [OF t'(2) J'(3)]) (use fit J' nn l F in simp_all)
    then have "take (nat (p + ?c)) t' = concat (map (\<lambda>i. row (?v i) ?c) (pre @ [i]))" unfolding J'(1) by simp
    moreover have "?body i s = Some (t', p + ?c)" using t'(1) len i by (simp add: st rd_def)
    moreover have "p + ?c = int (length (pre @ [i])) * ?c" using J'(1) i(1) by (simp add: distrib_right)
    moreover have "length t' = length output" using t'(2) J'(2) by (simp add: block_write_def)
    ultimately show "\<exists>t. ?body i s = Some t \<and> ?J (pre @ [i]) t" by (intro exI [of _ "(t', p + ?c)"]) simp
  qed
  then obtain t p where t: "foldM ?body [0..n - 1] (output, 0) = Some (t, p)" and J: "?J [0..n - 1] (t, p)" by auto
  have n: "0 \<le> n" using len by simp
  have pl: "p = int (length output)" using J l F n by simp
  have lt: "length t = length output" and tt: "take (nat p) t = concat (map (\<lambda>i. row (?v i) ?c) [0..n - 1])"
    using J unfolding prod.case by blast+
  have tk: "take (nat p) t = t" using pl lt by simp
  have "t = concat (map (\<lambda>i. row (?v i) ?c) [0..n - 1])" using tt unfolding tk .
  moreover have "RankOneSelect [n] cond s x s y s output = Some t"
  proof -
    have "FlatSize [n] = n" by (simp add: FlatSize_def)
    moreover have "Dims s 0 = Some n" by (simp add: s Dims_def rd_def)
    moreover have "FlatSizeSkipDim s 0 = Some ?c" using FlatSizeSkipDim_eq [of 0 s] by (simp add: s)
    ultimately show ?thesis using t
      by (simp add: RankOneSelect_def MatchingFlatSizeSkipDim2_def MatchingFlatSizeSkipDim_def dims_match_skip_refl for_range_def Let_def)
  qed
  ultimately show ?thesis by simp
qed

text \<open>
  \<open>RankOneSelect\<close> agrees with \<open>Select\<close>.  Choosing whole rows by a condition vector gives what the
  elementwise kernel gives for the condition repeated along each row; both run inside their buffers.
\<close>

theorem rank_one_select_agrees:
  assumes "\<forall>d\<in>set rest. 0 \<le> d" and "int (length cond) = n"
    and "int (length x) = FlatSize (n # rest)" "int (length y) = FlatSize (n # rest)"
    and "int (length output) = FlatSize (n # rest)"
  shows "\<exists>out. RankOneSelect [n] cond (n # rest) x (n # rest) y (n # rest) output = Some out \<and>
     Select (n # rest) (concat (map (replicate (nat (prod_list rest))) cond)) (n # rest) x (n # rest) y (n # rest) output = Some out"
proof -
  let ?c = "prod_list rest" and ?s = "n # rest"
  note nn = prod_list_nonneg [OF assms(1)]
  have F: "FlatSize ?s = n * ?c" by (simp add: FlatSize_def foldl_times_eq)
  have n: "n = int (length cond)" using assms(2) by simp
  let ?rep = "concat (map (replicate (nat ?c)) cond)"
  have n0: "0 \<le> n" using n by simp
  have rep: "?rep = map (\<lambda>q. cond ! nat (q div ?c)) [0..n * ?c - 1]"
  proof -
    have "map (replicate (nat ?c)) cond = map (\<lambda>i. map (\<lambda>k. cond ! nat i) [0..?c - 1]) [0..n - 1]"
      by (intro nth_equalityI) (simp_all add: n map_replicate_const)
    moreover have "map (\<lambda>i. map (\<lambda>k. cond ! nat i) [0..?c - 1]) [0..n - 1] =
        map (\<lambda>i. map (\<lambda>k. cond ! nat ((i * ?c + k) div ?c)) [0..?c - 1]) [0..n - 1]"
      by (intro map_cong refl) (simp add: div_add1_eq div_pos_pos_trivial)
    ultimately show ?thesis using upto_blocks_map [OF n0 nn, of "\<lambda>q. cond ! nat (q div ?c)"] by simp
  qed
  have at: "?rep ! nat (i * ?c + k) = cond ! nat i" if "0 \<le> i" "i < n" "0 \<le> k" "k < ?c" for i k
  proof -
    have "0 \<le> i * ?c + k \<and> i * ?c + k < n * ?c" by (rule radix_range [OF that])
    moreover have "(i * ?c + k) div ?c = i" using that by (simp add: div_add1_eq div_pos_pos_trivial)
    ultimately show ?thesis unfolding rep by simp
  qed
  have lr: "int (length ?rep) = n * ?c" unfolding rep using n0 nn by simp
  have "concat (map (\<lambda>i. row (\<lambda>k. (if cond ! nat i then x else y) ! nat (i * ?c + k)) ?c) [0..n - 1]) =
      map (\<lambda>i. if ?rep ! nat i then x ! nat i else y ! nat i) [0..n * ?c - 1]"
    unfolding upto_blocks_map [OF n0 nn] row_def
    by (intro arg_cong [where f = concat] map_cong refl) (simp add: at)
  then show ?thesis using RankOneSelect_eq [OF refl nn assms(2-5)] Select_eq [of ?rep ?s x y "output"] lr assms F by simp
qed

lemma rank_one_select_agrees_witness:
  "\<exists>out. RankOneSelect [2] [True, False] [2, 2] [1, 2, 3, 4] [2, 2] [5, 6, 7, 8 :: nat] [2, 2] [0, 0, 0, 0] = Some out \<and>
     Select [2, 2] (concat (map (replicate (nat (prod_list [2]))) [True, False])) [2, 2] [1, 2, 3, 4] [2, 2] [5, 6, 7, 8] [2, 2] [0, 0, 0, 0] = Some out"
  by (rule rank_one_select_agrees) (simp_all add: FlatSize_def)

section \<open>Coordinates of the true elements\<close>

lemma dims_to_count_loop:
  assumes pos: "\<forall>d\<in>set s. 0 < d"
  shows "\<exists>r. for_range 0 (int (length s)) (\<lambda>i (dims_to_count, cur_flat_size). do {
         d \<leftarrow> Dims s i;
         _ \<leftarrow> check (d \<noteq> 0);
         dims_to_count \<leftarrow> wr dims_to_count i (cdiv cur_flat_size d);
         r \<leftarrow> rd dims_to_count i;
         Some (dims_to_count, r) }) (replicate (length s) 0, prod_list s) = Some r \<and>
     length (fst r) = length s \<and> (\<forall>j. 0 \<le> j \<and> j < int (length s) \<longrightarrow> fst r ! nat j = weight s (j + 1))"
proof -
  let ?P = "\<lambda>i (dc, cur). length dc = length s \<and> cur = weight s i \<and> (\<forall>j. 0 \<le> j \<and> j < i \<longrightarrow> dc ! nat j = weight s (j + 1))"
  have "\<exists>t. for_range 0 (int (length s)) (\<lambda>i (dims_to_count, cur_flat_size). do {
         d \<leftarrow> Dims s i;
         _ \<leftarrow> check (d \<noteq> 0);
         dims_to_count \<leftarrow> wr dims_to_count i (cdiv cur_flat_size d);
         r \<leftarrow> rd dims_to_count i;
         Some (dims_to_count, r) }) (replicate (length s) 0, prod_list s) = Some t \<and> ?P (int (length s)) t"
  proof (rule for_range_rule [where P = ?P])
    show "?P 0 (replicate (length s) 0, prod_list s)" by (simp add: weight_def)
  next
    fix i :: int and st :: "int list \<times> int"
    assume i: "0 \<le> i" "i < int (length s)" and P: "?P i st"
    obtain dc cur where st: "st = (dc, cur)" by fastforce
    have P: "length dc = length s" "cur = weight s i" "\<forall>j. 0 \<le> j \<and> j < i \<longrightarrow> dc ! nat j = weight s (j + 1)"
      using P unfolding st prod.case by blast+
    have d: "0 < s ! nat i" using pos i by simp
    have w: "0 < weight s (i + 1)" "0 < weight s i" by (rule weight_pos [OF pos])+
    have dv: "cdiv cur (s ! nat i) = weight s (i + 1)" using d w weight_step [OF i] P(2) by simp
    show "\<exists>t. (case st of (dims_to_count, cur_flat_size) \<Rightarrow> do {
         d \<leftarrow> Dims s i;
         _ \<leftarrow> check (d \<noteq> 0);
         dims_to_count \<leftarrow> wr dims_to_count i (cdiv cur_flat_size d);
         r \<leftarrow> rd dims_to_count i;
         Some (dims_to_count, r) }) = Some t \<and> ?P (i + 1) t"
      using i P d dv by (auto simp: st Dims_def rd_def wr_def nth_list_update nat_eq_iff)
  qed simp
  then show ?thesis by fastforce
qed

lemma coords_loop:
  assumes pos: "\<forall>d\<in>set s. 0 < d" and q: "0 \<le> q" "q < prod_list s"
    and dc: "length dc = length s" "\<forall>j. 0 \<le> j \<and> j < int (length s) \<longrightarrow> dc ! nat j = weight s (j + 1)"
    and fit: "length A + length s \<le> length out" and base: "base = int (length A)"
  shows "\<exists>r. for_range 0 (int (length s)) (\<lambda>j (out, flat_index). do {
               dj \<leftarrow> rd dc j;
               _ \<leftarrow> check (dj \<noteq> 0);
               let coord_j = cdiv flat_index dj;
               out \<leftarrow> wr out (base + j) coord_j;
               Some (out, cmod flat_index dj) }) (A @ drop (length A) out, q) = Some r \<and>
     fst r = A @ unravel s q @ drop (length A + length s) out"
proof -
  let ?P = "\<lambda>j (u, f). f = q mod weight s j \<and> u = A @ take (nat j) (unravel s q) @ drop (length A + nat j) out"
  have "\<exists>r. for_range 0 (int (length s)) (\<lambda>j (out, flat_index). do {
               dj \<leftarrow> rd dc j;
               _ \<leftarrow> check (dj \<noteq> 0);
               let coord_j = cdiv flat_index dj;
               out \<leftarrow> wr out (base + j) coord_j;
               Some (out, cmod flat_index dj) }) (A @ drop (length A) out, q) = Some r \<and> ?P (int (length s)) r"
  proof (rule for_range_rule [where P = ?P])
    show "?P 0 (A @ drop (length A) out, q)" using q by (simp add: weight_def)
  next
    fix j :: int and st :: "int list \<times> int"
    assume j: "0 \<le> j" "j < int (length s)" and P: "?P j st"
    obtain u f where st: "st = (u, f)" by fastforce
    have P: "f = q mod weight s j" "u = A @ take (nat j) (unravel s q) @ drop (length A + nat j) out"
      using P unfolding st prod.case by blast+
    have w: "0 < weight s (j + 1)" "0 < weight s j" by (rule weight_pos [OF pos])+
    have f: "0 \<le> f" using P(1) w by simp
    have md: "f mod weight s (j + 1) = q mod weight s (j + 1)"
      unfolding P(1) by (rule mod_mod_cancel) (simp add: weight_step [OF j])
    define n where "n = nat j"
    have n: "j = int n" "n < length s" "nat (j + 1) = Suc n" "nat (base + j) = length A + n" using j base by (simp_all add: n_def)
    have lt: "length A + n < length out" using fit n by simp
    have un: "take (Suc n) (unravel s q) = take n (unravel s q) @ [f div weight s (j + 1)]"
      using n by (simp add: take_Suc_conv_app_nth P(1)) (simp add: unravel_def)
    have dr: "drop (length A + n) out = out ! (length A + n) # drop (length A + Suc n) out"
      using Cons_nth_drop_Suc [OF lt] by simp
    have up: "u[length A + n := v] = A @ take n (unravel s q) @ v # drop (length A + Suc n) out" for v
      unfolding P(2) n_def [symmetric] dr using n by (simp add: list_update_append)
    have lu: "length u = length out" unfolding P(2) n_def [symmetric] using n lt by simp
    have dcj: "dc ! n = weight s (int n + 1)" using spec [OF dc(2), of "int n"] n by simp
    have "wr u (base + j) v = Some (u[length A + n := v])" for v
      using n lt lu by (simp add: wr_def base)
    then show "\<exists>t. (case st of (out, flat_index) \<Rightarrow> do {
               dj \<leftarrow> rd dc j;
               _ \<leftarrow> check (dj \<noteq> 0);
               let coord_j = cdiv flat_index dj;
               out \<leftarrow> wr out (base + j) coord_j;
               Some (out, cmod flat_index dj) }) = Some t \<and> ?P (j + 1) t"
      using j dc(1) w f md un up n dcj by (simp add: st rd_def)
  qed simp
  then show ?thesis by fastforce
qed


lemma SelectTrueCoords_spec:
  assumes pos: "\<forall>d\<in>set s. 0 < d" and cond: "int (length cond) = FlatSize s"
    and room: "length (filter (\<lambda>i. cond ! nat i) [0..FlatSize s - 1]) * length s \<le> length out"
  shows "SelectTrueCoords s cond out = Some (
     let true_at = filter (\<lambda>i. cond ! nat i) [0..FlatSize s - 1] in
     concat (map (unravel s) true_at) @ drop (length true_at * length s) out)"
proof -
  let ?n = "prod_list s" and ?r = "int (length s)"
  let ?T = "filter (\<lambda>i. cond ! nat i)"
  have F: "FlatSize s = ?n" by (simp add: FlatSize_def foldl_times_eq)
  obtain dc cur where loop: "for_range 0 ?r (\<lambda>i (dims_to_count, cur_flat_size). do {
         d \<leftarrow> Dims s i;
         _ \<leftarrow> check (d \<noteq> 0);
         dims_to_count \<leftarrow> wr dims_to_count i (cdiv cur_flat_size d);
         r \<leftarrow> rd dims_to_count i;
         Some (dims_to_count, r) }) (replicate (length s) 0, ?n) = Some (dc, cur)"
    and dc: "length dc = length s" "\<forall>j. 0 \<le> j \<and> j < ?r \<longrightarrow> dc ! nat j = weight s (j + 1)"
    using dims_to_count_loop [OF pos] by fastforce
  let ?body = "\<lambda>i (out, output_index). do {
         c \<leftarrow> rd cond i;
         if c then do {
           (out, flat_index) \<leftarrow> for_range 0 ?r (\<lambda>j (out, flat_index). do {
               dj \<leftarrow> rd dc j;
               _ \<leftarrow> check (dj \<noteq> 0);
               let coord_j = cdiv flat_index dj;
               out \<leftarrow> wr out (output_index * ?r + j) coord_j;
               Some (out, cmod flat_index dj) }) (out, i);
           Some (out, output_index + 1) }
         else Some (out, output_index) }"
  let ?J = "\<lambda>pre (u, k). k = int (length (?T pre)) \<and> u = concat (map (unravel s) (?T pre)) @ drop (length (?T pre) * length s) out"
  have lc: "length (concat (map (unravel s) xs)) = length xs * length s" for xs by (induction xs) simp_all
  have "\<exists>t. foldM ?body [0..?n - 1] (out, 0) = Some t \<and> ?J [0..?n - 1] t"
  proof (rule foldM_invar)
    show "?J [] (out, 0)" by simp
  next
    fix pre i post st
    assume xs: "[0..?n - 1] = pre @ i # post" and J: "?J pre st"
    obtain u k where st: "st = (u, k)" by fastforce
    have J: "k = int (length (?T pre))" "u = concat (map (unravel s) (?T pre)) @ drop (length (?T pre) * length s) out"
      using J unfolding st prod.case by blast+
    have "i \<in> set [0..?n - 1]" unfolding xs by simp
    then have i: "0 \<le> i" "i < ?n" by simp_all
    have c: "rd cond i = Some (cond ! nat i)" using i cond F by (simp add: rd_def)
    show "\<exists>t. ?body i st = Some t \<and> ?J (pre @ [i]) t"
    proof (cases "cond ! nat i")
      case False
      then show ?thesis using J c by (simp add: st)
    next
      case True
      let ?A = "concat (map (unravel s) (?T pre))"
      have "length (?T (pre @ [i])) \<le> length (?T [0..?n - 1])" unfolding xs by simp
      then have "(length (?T pre) + 1) * length s \<le> length (?T [0..?n - 1]) * length s" using True by (intro mult_right_mono) simp_all
      then have fit: "length ?A + length s \<le> length out" using room unfolding F lc by (simp add: distrib_right)
      have base: "k * ?r = int (length ?A)" unfolding lc J(1) by simp
      have "?A @ drop (length ?A) out = u" unfolding J(2) lc ..
      with coords_loop [OF pos i dc fit base] True c show ?thesis
        by (simp add: st J(1) lc) (auto simp: add.commute)
    qed
  qed
  then obtain u k where t: "foldM ?body [0..?n - 1] (out, 0) = Some (u, k)" and J: "?J [0..?n - 1] (u, k)" by auto
  then show ?thesis using loop unfolding SelectTrueCoords_def F for_range_def
    by (simp add: for_range_def Let_def)
qed

lemma take_row:
  assumes "\<And>x. length (f x) = n" and "k < length xs"
  shows "take n (drop (k * n) (concat (map f xs) @ ys)) = f (xs ! k)"
proof -
  have "xs = take k xs @ xs ! k # drop (Suc k) xs" by (rule id_take_nth_drop [OF assms(2)])
  then have e: "concat (map f xs) = concat (map f (take k xs)) @ f (xs ! k) @ concat (map f (drop (Suc k) xs))"
    by (metis concat.simps(2) concat_append list.simps(9) map_append)
  have "length (concat (map f zs)) = length zs * n" for zs using assms(1) by (induction zs) simp_all
  then have "length (concat (map f (take k xs))) = k * n" using assms(2) by simp
  then show ?thesis unfolding e by (simp add: assms(1))
qed

text \<open>
  \<open>SelectTrueCoords\<close> lists the coordinates of the true elements in row-major order: the \<open>k\<close>-th
  row it writes is the index, inside the shape, whose flat position is the \<open>k\<close>-th true one, and the
  rest of the buffer is left as it is.
\<close>

theorem true_coords_row_major:
  assumes "\<forall>d\<in>set s. 0 < d" and "int (length cond) = FlatSize s"
    and "length (filter (\<lambda>i. cond ! nat i) [0..FlatSize s - 1]) * length s \<le> length out"
  shows "\<exists>out'. SelectTrueCoords s cond out = Some out' \<and> length out' = length out \<and>
     (let true_at = filter (\<lambda>i. cond ! nat i) [0..FlatSize s - 1] in
      (\<forall>k<length true_at. let index = take (length s) (drop (k * length s) out') in
         valid_index s index \<and> linear s index = true_at ! k) \<and>
      drop (length true_at * length s) out' = drop (length true_at * length s) out)"
proof -
  let ?T = "filter (\<lambda>i. cond ! nat i) [0..FlatSize s - 1]"
  have F: "FlatSize s = prod_list s" by (simp add: FlatSize_def foldl_times_eq)
  have lc: "length (concat (map (unravel s) xs)) = length xs * length s" for xs by (induction xs) simp_all
  let ?out = "concat (map (unravel s) ?T) @ drop (length ?T * length s) out"
  have row: "take (length s) (drop (k * length s) ?out) = unravel s (?T ! k)" if "k < length ?T" for k
    by (rule take_row [OF length_unravel that])
  have "valid_index s (unravel s (?T ! k)) \<and> linear s (unravel s (?T ! k)) = ?T ! k" if "k < length ?T" for k
  proof -
    have "?T ! k \<in> set ?T" using that by (rule nth_mem)
    then show ?thesis using unravel_correct [OF assms(1), of "?T ! k"] F by simp
  qed
  with row SelectTrueCoords_spec [OF assms] assms(3) show ?thesis by (simp add: Let_def lc)
qed

lemma true_coords_row_major_witness:
  "\<exists>out'. SelectTrueCoords [2, 2] [True, False, False, True] [9, 9, 9, 9, 9] = Some out' \<and> length out' = length [9, 9, 9, 9, 9 :: int] \<and>
     (let true_at = filter (\<lambda>i. [True, False, False, True] ! nat i) [0..FlatSize [2, 2] - 1] in
      (\<forall>k<length true_at. let index = take (length [2, 2 :: int]) (drop (k * length [2, 2 :: int]) out') in
         valid_index [2, 2] index \<and> linear [2, 2] index = true_at ! k) \<and>
      drop (length true_at * length [2, 2 :: int]) out' = drop (length true_at * length [2, 2 :: int]) [9, 9, 9, 9, 9])"
  using true_coords_row_major [of "[2, 2]" "[True, False, False, True]" "[9, 9, 9, 9, 9]"]
  by (simp add: FlatSize_def upto_rec1)

section \<open>Sparse values made dense\<close>

lemma writes_const:
  assumes "\<forall>p\<in>set ps. 0 \<le> p \<and> p < int (length s)"
  shows "foldM (\<lambda>p s. wr s p v) ps s = Some (map (\<lambda>k. if k \<in> set ps then v else s ! nat k) [0..int (length s) - 1])"
  using assms
proof (induction ps arbitrary: s)
  case Nil
  have "s = map (\<lambda>k. s ! nat k) [0..int (length s) - 1]" by (intro nth_equalityI) simp_all
  then show ?case by simp
next
  case (Cons p ps)
  then have p: "wr s p v = Some (s[nat p := v])" by (simp add: wr_def)
  have "foldM (\<lambda>p s. wr s p v) ps (s[nat p := v]) =
      Some (map (\<lambda>k. if k \<in> set ps then v else s[nat p := v] ! nat k) [0..int (length (s[nat p := v])) - 1])"
    by (rule Cons.IH) (use Cons.prems in simp)
  moreover have "nat p < length s" "0 \<le> p" using Cons.prems by (simp_all add: nat_less_iff)
  ultimately show ?case using p by (auto simp: nth_list_update eq_nat_nat_iff)
qed

lemma Offset_at_linear:
  assumes "valid_index [d0, d1, d2, d3] index"
  shows "Offset_at [d0, d1, d2, d3] index = Some (linear [d0, d1, d2, d3] index)"
proof -
  obtain a b c d where i: "index = [a, b, c, d]"
    using assms by (auto simp: valid_index_iff length_Suc_conv numeral_eq_Suc)
  with assms show ?thesis by (simp add: Offset_at_def rd_def Offset_def linear_def)
qed

lemma SparseToDense_scalar:
  assumes s: "s = [d0, d1, d2, d3]" and len: "int (length out) = FlatSize s" and ix: "\<forall>index\<in>set indices. valid_index s index"
  shows "SparseToDense indices [v] d True s out =
     Some (map (\<lambda>k. if k \<in> linear s ` set indices then v else d) [0..FlatSize s - 1])"
proof -
  have E: "ExtendedShape 4 s = Some s" by (simp add: ExtendedShape_def s)
  have F: "FlatSize s = prod_list s" by (simp add: FlatSize_def foldl_times_eq)
  let ?fill = "map (\<lambda>i. d) [0..FlatSize s - 1]"
  have fill: "for_range 0 (FlatSize s) (\<lambda>i out. wr out i d) out = Some ?fill"
    by (rule elementwise [OF len]) simp
  have lf: "int (length ?fill) = FlatSize s" using len by simp
  have range: "\<forall>p\<in>set (map (linear s) indices). 0 \<le> p \<and> p < int (length ?fill)"
    using ix linear_range unfolding lf F by fastforce
  have ui: "[0..int (length indices) - 1] = map int [0..<length indices]" by (rule upto_map_int)
  have "for_range 0 (int (length indices)) (\<lambda>i out. do {
         index \<leftarrow> rd indices i;
         _ \<leftarrow> check (length index = 4);
         v \<leftarrow> rd [v] 0;
         off \<leftarrow> Offset_at s index;
         wr out off v }) u = foldM (\<lambda>i u. wr u (linear s (indices ! nat i)) v) [0..int (length indices) - 1] u" for u
    unfolding for_range_def
  proof (rule foldM_cong [OF refl refl])
    fix i and u :: "'a list" assume "i \<in> set [0..int (length indices) - 1]"
    then have i: "0 \<le> i" "i < int (length indices)" by simp_all
    then have "valid_index s (indices ! nat i)" using ix by simp
    then show "(do { index \<leftarrow> rd indices i;
         _ \<leftarrow> check (length index = 4);
         v \<leftarrow> rd [v] 0;
         off \<leftarrow> Offset_at s index;
         wr u off v }) = wr u (linear s (indices ! nat i)) v"
      using i Offset_at_linear [of d0 d1 d2 d3] by (simp add: rd_def s valid_index_iff)
  qed
  also have "foldM (\<lambda>i u. wr u (linear s (indices ! nat i)) v) [0..int (length indices) - 1] u =
      foldM (\<lambda>p u. wr u p v) (map (linear s) indices) u" for u
  proof -
    have "map (linear s) indices = map (\<lambda>i. linear s (indices ! nat i)) [0..int (length indices) - 1]"
      unfolding ui by (intro nth_equalityI) simp_all
    then show ?thesis by (simp add: foldM_map)
  qed
  finally have writes: "for_range 0 (int (length indices)) (\<lambda>i out. do {
         index \<leftarrow> rd indices i;
         _ \<leftarrow> check (length index = 4);
         v \<leftarrow> rd [v] 0;
         off \<leftarrow> Offset_at s index;
         wr out off v }) ?fill = Some (map (\<lambda>k. if k \<in> set (map (linear s) indices) then v else ?fill ! nat k) [0..int (length ?fill) - 1])"
    by (simp only: writes_const [OF range])
  have "length s \<le> 4" by (simp add: s)
  then show ?thesis unfolding SparseToDense_def using E fill writes lf
    by (simp add: Let_def)
qed

text \<open>
  Sparse and dense agree.  The coordinates \<open>SelectTrueCoords\<close> writes for a condition of rank four,
  made dense by \<open>SparseToDense\<close> with the value true over the default false, are the condition again.
\<close>

theorem true_coords_sparse_roundtrip:
  assumes "0 < d0" "0 < d1" "0 < d2" "0 < d3" and "int (length cond) = FlatSize [d0, d1, d2, d3]"
    and "count = length (filter (\<lambda>b. b) cond)" and "count * 4 \<le> length out" and "length dense = length cond"
  shows "\<exists>out'. SelectTrueCoords [d0, d1, d2, d3] cond out = Some out' \<and>
     SparseToDense (map (\<lambda>k. take 4 (drop (k * 4) out')) [0..<count]) [True] False True [d0, d1, d2, d3] dense = Some cond"
proof -
  let ?s = "[d0, d1, d2, d3]"
  let ?T = "filter (\<lambda>i. cond ! nat i) [0..FlatSize ?s - 1]"
  have pos: "\<forall>d\<in>set ?s. 0 < d" using assms(1-4) by simp
  have F: "FlatSize ?s = prod_list ?s" by (simp add: FlatSize_def foldl_times_eq)
  have "cond = map (\<lambda>i. cond ! nat i) [0..int (length cond) - 1]" by (intro nth_equalityI) simp_all
  then have cm: "cond = map (\<lambda>i. cond ! nat i) [0..FlatSize ?s - 1]" unfolding assms(5) .
  have count: "count = length ?T"
    unfolding assms(6) by (subst cm) (simp add: filter_map o_def)
  have lc: "length (concat (map (unravel ?s) xs)) = length xs * 4" for xs by (induction xs) simp_all
  have room: "length ?T * length ?s \<le> length out" using assms(7) unfolding count by simp
  let ?out = "concat (map (unravel ?s) ?T) @ drop (length ?T * length ?s) out"
  have l4: "length (unravel ?s q) = 4" for q by simp
  have "map (\<lambda>k. take 4 (drop (k * 4) ?out)) [0..<count] = map (\<lambda>k. unravel ?s (?T ! k)) [0..<count]"
    unfolding count by (intro map_cong refl take_row [OF l4]) (simp only: set_upt atLeastLessThan_iff)
  moreover have "map (\<lambda>k. unravel ?s (?T ! k)) [0..<count] = map (unravel ?s) ?T"
    unfolding count by (rule nth_equalityI) (simp_all only: length_map length_upt nth_map nth_upt diff_zero add_0)
  ultimately have rows: "map (\<lambda>k. take 4 (drop (k * 4) ?out)) [0..<count] = map (unravel ?s) ?T" by (rule trans)
  have T: "valid_index ?s (unravel ?s q) \<and> linear ?s (unravel ?s q) = q" if "q \<in> set ?T" for q
    using that unravel_correct [OF pos, of q] F by simp
  have "SparseToDense (map (unravel ?s) ?T) [True] False True ?s dense =
      Some (map (\<lambda>k. if k \<in> linear ?s ` set (map (unravel ?s) ?T) then True else False) [0..FlatSize ?s - 1])"
  proof (rule SparseToDense_scalar [OF refl])
    show "int (length dense) = FlatSize ?s" unfolding assms(8) by (rule assms(5))
    show "\<forall>index\<in>set (map (unravel ?s) ?T). valid_index ?s index"
      unfolding set_map using T by blast
  qed
  moreover have "(\<lambda>q. linear ?s (unravel ?s q)) ` set ?T = (\<lambda>q. q) ` set ?T"
    by (rule image_cong [OF refl]) (use T in blast)
  then have "linear ?s ` set (map (unravel ?s) ?T) = set ?T" unfolding set_map image_image image_ident .
  moreover have "map (\<lambda>k. if k \<in> set ?T then True else False) [0..FlatSize ?s - 1] = cond"
    by (subst (2) cm) (intro map_cong refl, simp)
  ultimately have "SparseToDense (map (unravel ?s) ?T) [True] False True ?s dense = Some cond" by simp
  then have "SparseToDense (map (\<lambda>k. take 4 (drop (k * 4) ?out)) [0..<count]) [True] False True ?s dense = Some cond"
    unfolding rows .
  with SelectTrueCoords_spec [OF pos assms(5) room] show ?thesis unfolding Let_def by blast
qed

lemma true_coords_sparse_roundtrip_witness:
  "\<exists>out'. SelectTrueCoords [1, 2, 1, 2] [True, False, False, True] (replicate 8 9) = Some out' \<and>
     SparseToDense (map (\<lambda>k. take 4 (drop (k * 4) out')) [0..<2]) [True] False True [1, 2, 1, 2] [True, True, True, True] =
       Some [True, False, False, True]"
proof (rule true_coords_sparse_roundtrip)
  show "int (length [True, False, False, True]) = FlatSize [1, 2, 1, 2]" by (simp add: FlatSize_def)
qed simp_all

section \<open>The position of an extremum\<close>

lemma arg_sizes_eq: "arg_sizes (int (length pre)) (pre @ n # post) (pre @ post) = Some (prod_list pre, prod_list post)"
proof -
  let ?s = "pre @ n # post" and ?o = "pre @ post"
  have eq: "Dims ?o i = Dims ?s i" "\<exists>d. Dims ?s i = Some d" if i: "0 \<le> i" "i < int (length pre)" for i
  proof -
    obtain k where "i = int k" using nonneg_int_cases [OF i(1)] by blast
    then show "Dims ?o i = Dims ?s i" "\<exists>d. Dims ?s i = Some d"
      using i(2) by (simp_all add: Dims_def rd_def nth_append)
  qed
  have eq': "Dims ?o (i - 1) = Dims ?s i" "\<exists>d. Dims ?s i = Some d" if i: "int (length pre) + 1 \<le> i" "i < int (length ?s)" for i
  proof -
    obtain k where k: "i = int (length pre) + 1 + int k" using i(1) zle_iff_zadd by blast
    then have "nat i = length pre + Suc k" "nat (i - 1) = length pre + k" by simp_all
    then show "Dims ?o (i - 1) = Dims ?s i" "\<exists>d. Dims ?s i = Some d"
      using i(2) k by (simp_all add: Dims_def rd_def nth_append)
  qed
  have "for_range 0 (int (length pre)) (\<lambda>i m. do {
        a \<leftarrow> Dims ?s i; b \<leftarrow> Dims ?o i; _ \<leftarrow> check (a = b); Some (m * a) }) 1 = dims_prod ?s 0 (int (length pre))"
    unfolding dims_prod_def using eq by (intro for_range_cong refl) force
  moreover have "for_range (int (length pre) + 1) (int (length ?s)) (\<lambda>i m. do {
        a \<leftarrow> Dims ?s i; b \<leftarrow> Dims ?o (i - 1); _ \<leftarrow> check (a = b); Some (m * a) }) 1 =
      dims_prod ?s (int (length pre) + 1) (int (length ?s))"
    unfolding dims_prod_def using eq' by (intro for_range_cong refl) force
  ultimately show ?thesis unfolding arg_sizes_def Let_def dims_prod_around by simp
qed

definition least_extremum :: "('a \<Rightarrow> 'a \<Rightarrow> bool) \<Rightarrow> int \<Rightarrow> (int \<Rightarrow> 'a) \<Rightarrow> int \<Rightarrow> bool" where
  "least_extremum cmp n v m \<longleftrightarrow> 0 \<le> m \<and> m < n \<and>
     (\<forall>j\<in>{0..<n}. \<not> cmp (v j) (v m)) \<and> (\<forall>j\<in>{0..<m}. cmp (v m) (v j))"

lemma extremum_loop:
  fixes v :: "int \<Rightarrow> 'a :: linorder"
  assumes n: "1 \<le> n" and get: "\<And>i. 0 \<le> i \<Longrightarrow> i < n \<Longrightarrow> get i = Some (v i)"
    and cmp: "cmp = (\<lambda>a b. a > b) \<or> cmp = (\<lambda>a b. a < b)"
  shows "\<exists>m. for_range 1 n (\<lambda>i (best, index). do {
          curr \<leftarrow> get i;
          Some (if cmp curr best then (curr, i) else (best, index)) }) (v 0, 0) = Some (v m, m) \<and> least_extremum cmp n v m"
proof -
  let ?P = "\<lambda>i (best, index). best = v index \<and> least_extremum cmp i v index"
  have "\<exists>t. for_range 1 n (\<lambda>i (best, index). do {
          curr \<leftarrow> get i;
          Some (if cmp curr best then (curr, i) else (best, index)) }) (v 0, 0) = Some t \<and> ?P n t"
  proof (rule for_range_rule [where P = ?P, OF n])
    have "{0..<1} = {0 :: int}" by auto
    then show "?P 1 (v 0, 0)" using cmp by (auto simp: least_extremum_def)
  next
    fix i :: int and st :: "'a \<times> int"
    assume i: "1 \<le> i" "i < n" and P: "?P i st"
    obtain m where st: "st = (v m, m)" and m: "least_extremum cmp i v m" using P by auto
    have *: "{0..<i + 1} = insert i {0..<i}" using i by auto
    have "least_extremum cmp (i + 1) v (if cmp (v i) (v m) then i else m)"
      using m i cmp unfolding least_extremum_def * by (elim disjE) (auto simp: not_less intro: order.strict_trans2 order.strict_trans1)
    with get [of i] i show "\<exists>t. (case st of (best, index) \<Rightarrow> do {
          curr \<leftarrow> get i;
          Some (if cmp curr best then (curr, i) else (best, index)) }) = Some t \<and> ?P (i + 1) t"
      by (auto simp: st)
  qed
  then show ?thesis by auto
qed

text \<open>
  \<open>ArgMinMax\<close> finds the first extremum.  With either comparison, every element of the output is
  the least index, along the axis, of an element that no other along the axis precedes.
\<close>

theorem arg_min_max_first:
  fixes input :: "'a :: linorder list"
  assumes "\<forall>d\<in>set pre. 0 \<le> d" and "\<forall>d\<in>set post. 0 \<le> d" and "1 \<le> n"
    and "axis = int (length pre) \<or> axis = int (length pre) - int (length (pre @ n # post))"
    and "int (length input) = FlatSize (pre @ n # post)" and "int (length output) = FlatSize (pre @ post)"
    and "cmp = (\<lambda>a b. a > b) \<or> cmp = (\<lambda>a b. a < b)"
  shows "\<exists>out. ArgMinMax (pre @ n # post) input [axis] (pre @ post) output cmp = Some out \<and> length out = length output \<and>
     (\<forall>k i. 0 \<le> k \<and> k < prod_list pre \<and> 0 \<le> i \<and> i < prod_list post \<longrightarrow>
        least_extremum cmp n (\<lambda>j. input ! nat ((k * n + j) * prod_list post + i)) (out ! nat (k * prod_list post + i)))"
proof -
  let ?o = "prod_list pre" and ?c = "prod_list post"
  let ?v = "\<lambda>k i j. input ! nat ((k * n + j) * ?c + i)"
  have nn: "0 \<le> ?o" "0 \<le> ?c" by (rule prod_list_nonneg [OF assms(1)], rule prod_list_nonneg [OF assms(2)])
  have F: "FlatSize (pre @ n # post) = ?o * n * ?c" "FlatSize (pre @ post) = ?o * ?c"
    by (simp_all add: FlatSize_def foldl_times_eq)
  have get: "rd input ((k * n + j) * ?c + i) = Some (?v k i j)"
    if "0 \<le> k" "k < ?o" "0 \<le> i" "i < ?c" "0 \<le> j" "j < n" for k i j
  proof -
    from radix_range [OF that(1,2,5,6)] have a: "0 \<le> k * n + j" "k * n + j < ?o * n" by auto
    from radix_range [OF a that(3,4)] show ?thesis using assms(5) F by (simp add: rd_def)
  qed
  let ?loop = "\<lambda>k i. for_range 1 n (\<lambda>j (best, index). do {
          curr \<leftarrow> rd input ((k * n + j) * ?c + i);
          Some (if cmp curr best then (curr, j) else (best, index)) }) (?v k i 0, 0)"
  define m where "m k i = (SOME m. ?loop k i = Some (?v k i m, m) \<and> least_extremum cmp n (?v k i) m)" for k i
  have m: "?loop k i = Some (?v k i (m k i), m k i) \<and> least_extremum cmp n (?v k i) (m k i)"
    if "0 \<le> k" "k < ?o" "0 \<le> i" "i < ?c" for k i
    unfolding m_def
    by (rule someI_ex, rule extremum_loop [where v = "?v k i", OF assms(3) _ assms(7)]) (rule get [OF that])
  let ?body = "\<lambda>(outer, inner) out. do {
       v0 \<leftarrow> rd input (outer * n * ?c + inner);
       (min_max_value, min_max_index) \<leftarrow> for_range 1 n (\<lambda>i (min_max_value, min_max_index). do {
          curr_value \<leftarrow> rd input ((outer * n + i) * ?c + inner);
          Some (if cmp curr_value min_max_value then (curr_value, i) else (min_max_value, min_max_index)) }) (v0, 0);
       wr out (outer * ?c + inner) min_max_index }"
  have "\<exists>t. foldM ?body (List.product [0..?o - 1] [0..?c - 1]) output = Some t \<and> length t = length output \<and>
      (\<forall>x\<in>set (List.product [0..?o - 1] [0..?c - 1]). t ! nat ((\<lambda>(k, i). k * ?c + i) x) = (\<lambda>(k, i). m k i) x)"
  proof (rule rows.fill_elements)
    show "int (length output) = ?o * ?c" using assms(6) F by simp
    fix x and u :: "int list" assume x: "x \<in> set (List.product [0..?o - 1] [0..?c - 1])"
    obtain k i where ki: "x = (k, i)" by fastforce
    then have r: "0 \<le> k" "k < ?o" "0 \<le> i" "i < ?c" using x by auto
    have "rd input (k * n * ?c + i) = Some (?v k i 0)" using get [OF r, of 0] assms(3) by simp
    with m [OF r] show "?body x u = wr u ((\<lambda>(k, i). k * ?c + i) x) ((\<lambda>(k, i). m k i) x)" by (simp add: ki)
  qed
  then obtain t where t: "foldM ?body (List.product [0..?o - 1] [0..?c - 1]) output = Some t" "length t = length output"
      "\<forall>x\<in>set (List.product [0..?o - 1] [0..?c - 1]). t ! nat ((\<lambda>(k, i). k * ?c + i) x) = (\<lambda>(k, i). m k i) x"
    by blast
  have ext: "least_extremum cmp n (?v k i) (t ! nat (k * ?c + i))" if "0 \<le> k" "k < ?o" "0 \<le> i" "i < ?c" for k i
    using bspec [OF t(3), of "(k, i)"] m [OF that] that by simp
  have "ArgMinMax (pre @ n # post) input [axis] (pre @ post) output cmp = Some t"
    using t(1) axis_from_either_end [OF assms(4)]
    by (simp add: ArgMinMax_def rd_def Dims_mid arg_sizes_eq for_range_nest Let_def del: length_append)
       (simp add: case_prod_beta)
  with t(2) ext show ?thesis by (intro exI [of _ t]) simp
qed

lemma arg_min_max_first_witness:
  "\<exists>out. ArgMinMax ([2] @ 3 # []) [4, 9, 9, 5, 5, 1 :: int] [-1] ([2] @ []) [0, 0] (\<lambda>a b. a > b) = Some out \<and> length out = length [0 :: int, 0] \<and>
     (\<forall>k i. 0 \<le> k \<and> k < prod_list [2] \<and> 0 \<le> i \<and> i < prod_list [] \<longrightarrow>
        least_extremum (\<lambda>a b. a > b) 3 (\<lambda>j. [4, 9, 9, 5, 5, 1 :: int] ! nat ((k * 3 + j) * prod_list [] + i)) (out ! nat (k * prod_list [] + i)))"
  by (rule arg_min_max_first) (simp_all add: FlatSize_def)

end
