(* ===== verification/Lite_Quant.thy ===== *)
theory Lite_Quant
  imports Lite_Shape "HOL-Library.While_Combinator"
begin

text \<open>
  \<open>lite/kernels/internal/common.h\<close>: integer arithmetic of the quantized kernels, and the parameters
  of the arithmetic kernels.

  C's fixed-width integers are words; a signed overflow, which C leaves undefined, wraps here as it
  does in compiled code.  The functions of gemmlowp, which is not in the repository, are the fields
  of a record the kernels take as an argument.  The value \<open>None\<close> is a failing check or a shift by an amount
  outside the width.
\<close>

type_synonym uint8 = "8 word"
type_synonym int16 = "16 word"
type_synonym int32 = "32 word"

section \<open>Parameters\<close>

record gemmlowp =
  SaturatingRoundingDoublingHighMul :: "int32 \<Rightarrow> int32 \<Rightarrow> int32"
  RoundingDivideByPOT :: "int32 \<Rightarrow> int \<Rightarrow> int32"
  RoundingDivideByPOT_int16 :: "int16 \<Rightarrow> int \<Rightarrow> int16"
  one_over_one_plus_x_for_x_in_0_1 :: "int32 \<Rightarrow> int32"
  F0_times :: "int16 \<Rightarrow> int16 \<Rightarrow> int16"
  SaturatingAdd_int16 :: "int16 \<Rightarrow> int16 \<Rightarrow> int16"

datatype BroadcastableOpCategory =
  kNone | kNonBroadcast | kFirstInputBroadcastsFast | kSecondInputBroadcastsFast | kGenericBroadcast

record 'f ArithmeticParams =
  broadcast_category :: BroadcastableOpCategory
  input1_offset :: int32
  input2_offset :: int32
  output_offset :: int32
  output_multiplier :: int32
  output_shift :: int
  left_shift :: int
  input1_multiplier :: int32
  input1_shift :: int
  input2_multiplier :: int32
  input2_shift :: int
  quantized_activation_min :: int32
  quantized_activation_max :: int32
  float_activation_min :: 'f
  float_activation_max :: 'f
  broadcast_shape :: "int list"

section \<open>Minimum, maximum and activation\<close>

text \<open>\<open>std::min\<close> and \<open>std::max\<close>, and their use on signed words.\<close>

definition std_min :: "'a :: ord \<Rightarrow> 'a \<Rightarrow> 'a" where
  "std_min a b = (if b < a then b else a)"

definition std_max :: "'a :: ord \<Rightarrow> 'a \<Rightarrow> 'a" where
  "std_max a b = (if a < b then b else a)"

definition smin :: "'w :: len word \<Rightarrow> 'w word \<Rightarrow> 'w word" where
  "smin a b = (if sint b < sint a then b else a)"

definition smax :: "'w :: len word \<Rightarrow> 'w word \<Rightarrow> 'w word" where
  "smax a b = (if sint a < sint b then b else a)"

definition ActivationFunctionWithMinMax :: "'f :: ord \<Rightarrow> 'f \<Rightarrow> 'f \<Rightarrow> 'f" where
  "ActivationFunctionWithMinMax x output_activation_min output_activation_max =
     std_min (std_max x output_activation_min) output_activation_max"

definition GetActivationParams_int32 :: "'f ArithmeticParams \<Rightarrow> int32 \<times> int32" where
  "GetActivationParams_int32 params = (quantized_activation_min params, quantized_activation_max params)"

definition GetActivationParams_float :: "'f ArithmeticParams \<Rightarrow> 'f \<times> 'f" where
  "GetActivationParams_float params = (float_activation_min params, float_activation_max params)"

section \<open>Rescaling\<close>

text \<open>\<open>x * (1 << k)\<close>\<close>

definition scale_up :: "int32 \<Rightarrow> int \<Rightarrow> int32 option" where
  "scale_up x k = do { _ \<leftarrow> check (0 \<le> k \<and> k < 32); Some (x * push_bit (nat k) 1) }"

definition MultiplyByQuantizedMultiplierSmallerThanOneExp :: "gemmlowp \<Rightarrow> int32 \<Rightarrow> int32 \<Rightarrow> int \<Rightarrow> int32" where
  "MultiplyByQuantizedMultiplierSmallerThanOneExp gl x quantized_multiplier lshift =
     RoundingDivideByPOT gl (SaturatingRoundingDoublingHighMul gl x quantized_multiplier) (- lshift)"

definition MultiplyByQuantizedMultiplierGreaterThanOne :: "gemmlowp \<Rightarrow> int32 \<Rightarrow> int32 \<Rightarrow> int \<Rightarrow> int32 option" where
  "MultiplyByQuantizedMultiplierGreaterThanOne gl x quantized_multiplier lshift = do {
     y \<leftarrow> scale_up x lshift;
     Some (SaturatingRoundingDoublingHighMul gl y quantized_multiplier) }"

definition MultiplyByQuantizedMultiplier :: "gemmlowp \<Rightarrow> int32 \<Rightarrow> int32 \<Rightarrow> int \<Rightarrow> int32 option" where
  "MultiplyByQuantizedMultiplier gl x quantized_multiplier shift = do {
     let lshift = (if shift > 0 then shift else 0);
     let rshift = (if shift > 0 then 0 else - shift);
     y \<leftarrow> scale_up x lshift;
     Some (RoundingDivideByPOT gl (SaturatingRoundingDoublingHighMul gl y quantized_multiplier) rshift) }"

section \<open>Leading zeros and sign bits\<close>

text \<open>The compiler's \<open>__builtin_clz\<close>, used under GNU C and clang, and the loop for other compilers.\<close>

definition builtin_clz :: "32 word \<Rightarrow> int" where
  "builtin_clz x = int (length (takeWhile (\<lambda>i. \<not> bit x i) (rev [0..<32])))"

definition CountLeadingZeros :: "32 word \<Rightarrow> int" where
  "CountLeadingZeros integer_input = (if integer_input \<noteq> 0 then builtin_clz integer_input else 32)"

definition CountLeadingZeros_loop :: "32 word \<Rightarrow> int option" where
  "CountLeadingZeros_loop integer_input =
     (if integer_input = 0 then Some 32
      else let one_in_leading_positive = push_bit 31 (1 :: 32 word) in
        map_option snd (while_option (\<lambda>(x, leading_zeros). x < one_in_leading_positive)
          (\<lambda>(x, leading_zeros). (push_bit 1 x, leading_zeros + 1)) (integer_input, 0)))"

definition CountLeadingSignBits :: "int32 \<Rightarrow> int" where
  "CountLeadingSignBits integer_input =
     (if 0 \<le> sint integer_input then CountLeadingZeros integer_input - 1
      else if sint integer_input \<noteq> - (2 ^ 31) then CountLeadingZeros (2 * (- integer_input) - 1)
      else 0)"

text \<open>The result and \<open>num_bits_over_unit\<close>; the shift by 32 of a zero is undefined in C.\<close>

definition GetReciprocal :: "gemmlowp \<Rightarrow> int32 \<Rightarrow> int \<Rightarrow> (int32 \<times> int) option" where
  "GetReciprocal gl x x_integer_digits = do {
     let headroom_plus_one = CountLeadingZeros x;
     let num_bits_over_unit = x_integer_digits - headroom_plus_one;
     _ \<leftarrow> check (headroom_plus_one < 32);
     let shifted_sum_minus_one = push_bit (nat headroom_plus_one) x - push_bit 31 1;
     Some (one_over_one_plus_x_for_x_in_0_1 gl shifted_sum_minus_one, num_bits_over_unit) }"

section \<open>Saturating sums\<close>

definition saturate :: "int \<Rightarrow> int \<Rightarrow> 'w :: len word" where
  "saturate bits v = word_of_int (std_min (2 ^ nat (bits - 1) - 1) (std_max (- (2 ^ nat (bits - 1))) v))"

definition SaturatingAddNonGemmlowp :: "int32 \<Rightarrow> int32 \<Rightarrow> int32" where
  "SaturatingAddNonGemmlowp a b = saturate 32 (sint a + sint b)"

definition SaturatingSub_int16 :: "int16 \<Rightarrow> int16 \<Rightarrow> int16" where
  "SaturatingSub_int16 a b = saturate 16 (sint a - sint b)"

definition SaturatingSub_int32 :: "int32 \<Rightarrow> int32 \<Rightarrow> int32" where
  "SaturatingSub_int32 a b = saturate 32 (sint a - sint b)"

definition min_log_x_output_bits :: "int \<Rightarrow> int" where
  "min_log_x_output_bits input_bits =
     (if input_bits > 90 then 7
      else if input_bits > 44 then 6
      else if input_bits > 21 then 5
      else if input_bits > 10 then 4
      else if input_bits > 4 then 3 else if input_bits > 1 then 2 else 1)"

text \<open>
  \<open>RoundDown\<close> and \<open>RoundUp\<close> at type \<open>int\<close>: \<open>Modulus\<close> is unsigned, so the remainder is taken of the argument
  as an unsigned number.  A division by zero is \<open>None\<close>.
\<close>

definition as_int :: "int \<Rightarrow> int" where
  "as_int v = sint (word_of_int v :: int32)"

definition RoundDown :: "int \<Rightarrow> int \<Rightarrow> int option" where
  "RoundDown Modulus i = do { _ \<leftarrow> check (Modulus \<noteq> 0); Some (as_int (i - (i mod 2 ^ 32) mod Modulus)) }"

definition RoundUp :: "int \<Rightarrow> int \<Rightarrow> int option" where
  "RoundUp Modulus i = RoundDown Modulus (as_int (i + Modulus - 1))"

definition CeilQuotient :: "int \<Rightarrow> int \<Rightarrow> int option" where
  "CeilQuotient a b = do { _ \<leftarrow> check (b \<noteq> 0); Some (cdiv (a + b - 1) b) }"

definition LegacyHowManyThreads :: "int \<Rightarrow> int \<Rightarrow> int \<Rightarrow> int \<Rightarrow> int \<Rightarrow> int option" where
  "LegacyHowManyThreads KernelRows max_num_threads rows cols depth =
     (if max_num_threads = 1 then Some 1
      else do {
        _ \<leftarrow> check (KernelRows \<noteq> 0);
        let thread_count = std_min max_num_threads (cdiv rows KernelRows);
        let thread_count =
          (if thread_count > 1 then
             let min_cubic_size_per_thread = 64 * 1024;
                 cubic_size = (rows * cols * depth) mod 2 ^ 64
             in std_min thread_count (as_int (cubic_size div min_cubic_size_per_thread))
           else thread_count);
        let thread_count = (if thread_count < 1 then 1 else thread_count);
        _ \<leftarrow> check (thread_count > 0 \<and> thread_count \<le> max_num_threads);
        Some thread_count })"

section \<open>Counting bits\<close>

lemma builtin_clz_spec:
  assumes x: "x \<noteq> 0"
  shows "0 \<le> builtin_clz x \<and> builtin_clz x \<le> 31 \<and> 2 ^ nat (31 - builtin_clz x) \<le> uint x \<and> uint x < 2 ^ nat (32 - builtin_clz x)"
proof -
  let ?P = "\<lambda>i. \<not> bit x i" and ?xs = "rev [0..<32]"
  define k where "k = length (takeWhile ?P ?xs)"
  obtain i where i: "bit x i" using x by (metis bit_eqI bit_0_eq bot_apply bot_bool_def)
  then have "i < 32" using bit_imp_le_length [OF i] by simp
  then have "\<exists>j\<in>set ?xs. bit x j" using i by auto
  then have "takeWhile ?P ?xs \<noteq> ?xs" by (metis takeWhile_eq_all_conv)
  then have "length (takeWhile ?P ?xs) \<noteq> length ?xs"
    by (metis takeWhile_eq_take take_all order_refl)
  moreover have "length (takeWhile ?P ?xs) \<le> length ?xs" by (rule length_takeWhile_le)
  ultimately have k: "k < 32" by (simp add: k_def)
  have at: "?xs ! j = 31 - j" if "j < 32" for j using that by (simp add: rev_nth)
  have one: "bit x (31 - k)" using nth_length_takeWhile [of ?P ?xs] k at [OF k] by (simp add: k_def)
  have zero: "\<not> bit x m" if m: "32 - k \<le> m" for m
  proof (cases "m < 32")
    case True
    then have "31 - m < k" using m k by simp
    then have lt: "31 - m < length (takeWhile ?P ?xs)" by (simp add: k_def)
    from takeWhile_nth [OF lt] nth_mem [OF lt] have "\<not> bit x (?xs ! (31 - m))" using set_takeWhileD by metis
    then show ?thesis using at [of "31 - m"] True by simp
  next
    case False
    then show ?thesis using bit_imp_le_length [of x m] by auto
  qed
  have "take_bit (32 - k) x = x" by (rule bit_eqI) (use zero in \<open>auto simp: bit_take_bit_iff not_le [symmetric]\<close>)
  then have "take_bit (32 - k) (uint x) = uint x" by (metis unsigned_take_bit_eq)
  then have up: "uint x < 2 ^ (32 - k)" by (metis take_bit_int_less_exp)
  have lo: "2 ^ (31 - k) \<le> uint x"
  proof (rule ccontr)
    assume "\<not> 2 ^ (31 - k) \<le> uint x"
    then have "take_bit (31 - k) (uint x) = uint x" by (simp add: take_bit_int_eq_self)
    then have "\<not> bit (uint x) (31 - k)" by (metis bit_take_bit_iff less_irrefl)
    with one show False by (simp add: bit_uint_iff k)
  qed
  have "builtin_clz x = int k" by (simp add: builtin_clz_def k_def)
  then show ?thesis using k up lo by (simp add: nat_diff_distrib)
qed

lemma clz_unique:
  assumes "0 \<le> a" "a \<le> 31" "2 ^ nat (31 - a) \<le> u" "u < (2 :: int) ^ nat (32 - a)"
    and "0 \<le> b" "b \<le> 31" "2 ^ nat (31 - b) \<le> u" "u < (2 :: int) ^ nat (32 - b)"
  shows "a = b"
proof -
  have "\<not> a < b" if "2 ^ nat (31 - a) \<le> u" "u < (2 :: int) ^ nat (32 - b)" "0 \<le> a" "b \<le> 31" for a b :: int
  proof
    assume "a < b"
    then have "(2 :: int) ^ nat (32 - b) \<le> 2 ^ nat (31 - a)" by (intro power_increasing) auto
    then show False using that by linarith
  qed
  from this [of a b] this [of b a] assms show ?thesis by fastforce
qed

text \<open>
  The counting loop ends.  For every input the loop of \<open>CountLeadingZeros\<close>, used by compilers
  without the builtin, ends, and its result is that of the builtin.
\<close>

theorem count_leading_zeros_loop_ends: "CountLeadingZeros_loop x = Some (CountLeadingZeros x)"
proof (cases "x = 0")
  case True
  then show ?thesis by (simp add: CountLeadingZeros_loop_def CountLeadingZeros_def)
next
  case False
  let ?b = "\<lambda>(y, n :: int). y < push_bit 31 (1 :: 32 word)" and ?c = "\<lambda>(y :: 32 word, n :: int). (push_bit 1 y, n + 1)"
  let ?P = "\<lambda>(y :: 32 word, n :: int). 0 \<le> n \<and> uint y = uint x * 2 ^ nat n"
  have top: "uint (push_bit 31 (1 :: 32 word)) = 2 ^ 31" by (simp add: push_bit_eq_mult)
  have step: "?P (?c s) \<and> uint (fst (?c s)) = 2 * uint (fst s)" if "?P s" "?b s" for s
  proof -
    obtain y n where s: "s = (y, n)" by fastforce
    have "uint y < 2 ^ 31" using that(2) top by (simp add: s word_less_def)
    then have "uint (push_bit 1 y) = 2 * uint y"
      using uint_mult_lem [of y 2] by (simp add: push_bit_eq_mult)
    then show ?thesis using that(1) by (simp add: s nat_add_distrib)
  qed
  have x0: "0 < uint x" using False by (simp add: uint_0_iff order.not_eq_order_implies_strict)
  have "\<exists>t. while_option ?b ?c (x, 0) = Some t"
  proof (rule measure_while_option_Some [where P = ?P and f = "\<lambda>(y :: 32 word, n :: int). nat (2 ^ 32 - uint y)"])
    fix s assume s: "?P s" "?b s"
    obtain y n where sy: "s = (y, n)" by fastforce
    have "0 < uint y" using s(1) x0 by (simp add: sy)
    moreover have "uint y < 2 ^ 31" using s(2) top by (simp add: sy word_less_def)
    ultimately show "?P (?c s) \<and> (case ?c s of (y, n) \<Rightarrow> nat (2 ^ 32 - uint y)) < (case s of (y, n) \<Rightarrow> nat (2 ^ 32 - uint y))"
      using step [OF s] by (simp add: sy)
  qed simp
  then obtain y n where t: "while_option ?b ?c (x, 0) = Some (y, n)" by fastforce
  have "?P (y, n)" by (rule while_option_rule [where P = ?P, OF _ t]) (use step in auto)
  then have P: "0 \<le> n" "uint y = uint x * 2 ^ nat n" by simp_all
  have "\<not> ?b (y, n)" by (rule while_option_stop [OF t])
  then have y: "2 ^ 31 \<le> uint y" using top by (simp add: word_less_def)
  have yl: "uint y < 2 ^ 32" using uint_lt2p [of y] by simp
  have "n \<le> 31"
  proof (rule ccontr)
    assume "\<not> n \<le> 31"
    then have "(2 :: int) ^ 32 \<le> 2 ^ nat n" by (intro power_increasing) auto
    moreover have "1 * 2 ^ nat n \<le> uint x * 2 ^ nat n" using x0 by (intro mult_right_mono) auto
    ultimately show False using P(2) yl by linarith
  qed
  have s31: "(2 :: int) ^ 31 = 2 ^ nat (31 - n) * 2 ^ nat n" "(2 :: int) ^ 32 = 2 ^ nat (32 - n) * 2 ^ nat n"
    using P(1) \<open>n \<le> 31\<close> by (simp_all flip: power_add nat_add_distrib)
  have "2 ^ nat (31 - n) \<le> uint x" "uint x < 2 ^ nat (32 - n)"
    using y yl unfolding P(2) s31 by simp_all
  then have "n = builtin_clz x" using builtin_clz_spec [OF False] P(1) \<open>n \<le> 31\<close> by (intro clz_unique) auto
  then show ?thesis using False t by (simp add: CountLeadingZeros_loop_def CountLeadingZeros_def Let_def)
qed


lemma sint_word_of_int: "- (2 ^ 31) \<le> v \<Longrightarrow> v < 2 ^ 31 \<Longrightarrow> sint (word_of_int v :: int32) = v"
  by (simp add: signed_take_bit_int_eq_self signed_of_int)

lemma uint_word_of_int32: "0 \<le> v \<Longrightarrow> v < 2 ^ 32 \<Longrightarrow> uint (word_of_int v :: 32 word) = v"
  by (simp add: unsigned_of_int take_bit_int_eq_self)

lemma power_split: "0 \<le> k \<Longrightarrow> k \<le> n \<Longrightarrow> (2 :: int) ^ nat n = 2 ^ nat (n - k) * 2 ^ nat k"
  by (simp flip: power_add nat_add_distrib)

lemma headroom_nonneg:
  assumes nz: "x \<noteq> 0" and True: "0 \<le> sint x" and k_def: "k = CountLeadingSignBits x"
  shows "0 \<le> k \<and> k \<le> 31 \<and> - (2 ^ 31) \<le> sint x * 2 ^ nat k \<and> sint x * 2 ^ nat k < 2 ^ 31 \<and>
     (x = 0 \<or> sint x * 2 ^ nat (k + 1) < - (2 ^ 31) \<or> 2 ^ 31 \<le> sint x * 2 ^ nat (k + 1))"
proof -
  have r: "sint x < 2 ^ 31" using sint_lt [of x] by simp
  have u: "uint x = sint x" using True r by (simp add: uint_sint take_bit_int_eq_self)
  have c: "CountLeadingZeros x = k + 1" using True by (simp add: k_def CountLeadingSignBits_def)
  from builtin_clz_spec [OF nz] c nz have b: "0 \<le> k + 1" "k + 1 \<le> 31" "2 ^ nat (31 - (k + 1)) \<le> sint x" "sint x < 2 ^ nat (32 - (k + 1))"
    by (simp_all add: CountLeadingZeros_def u)
  have "k \<noteq> - 1"
  proof
    assume "k = - 1"
    then show False using b(3) r by simp
  qed
  then have k: "0 \<le> k" "k \<le> 31" using b by simp_all
  have "sint x * 2 ^ nat k < 2 ^ nat (31 - k) * 2 ^ nat k" using b(4) by (intro mult_strict_right_mono) simp_all
  then have "sint x * 2 ^ nat k < 2 ^ 31" unfolding power_split [OF k, symmetric] by simp
  moreover have "2 ^ nat (31 - (k + 1)) * 2 ^ nat (k + 1) \<le> sint x * 2 ^ nat (k + 1)" using b(3) by (intro mult_right_mono) simp_all
  then have "2 ^ 31 \<le> sint x * 2 ^ nat (k + 1)" unfolding power_split [OF b(1,2), symmetric] by simp
  moreover have "0 \<le> sint x * 2 ^ nat k" using True by simp
  ultimately show ?thesis using k by simp
qed

lemma headroom_neg:
  assumes False: "\<not> 0 \<le> sint x" and min: "sint x \<noteq> - (2 ^ 31)" and k_def: "k = CountLeadingSignBits x"
  shows "0 \<le> k \<and> k \<le> 31 \<and> - (2 ^ 31) \<le> sint x * 2 ^ nat k \<and> sint x * 2 ^ nat k < 2 ^ 31 \<and>
     (x = 0 \<or> sint x * 2 ^ nat (k + 1) < - (2 ^ 31) \<or> 2 ^ 31 \<le> sint x * 2 ^ nat (k + 1))"
proof -
  have r: "- (2 ^ 31) \<le> sint x" using sint_ge [of x] by simp
  define m where "m = - sint x"
  have m: "0 < m" "m < 2 ^ 31" using False r min by (simp_all add: m_def)
  have x: "x = word_of_int (- m)" by (simp add: m_def)
  have w: "2 * (- x) - 1 = (word_of_int (2 * m - 1) :: int32)" by (simp add: x)
  have "uint (2 * (- x) - 1) = 2 * m - 1" unfolding w by (rule uint_word_of_int32) (use m in simp_all)
  moreover from this have "2 * (- x) - 1 \<noteq> 0" using m by auto
  moreover have "CountLeadingZeros (2 * (- x) - 1) = k" using False min by (simp add: k_def CountLeadingSignBits_def)
  ultimately have b: "0 \<le> k" "k \<le> 31" "2 ^ nat (31 - k) \<le> 2 * m - 1" "2 * m - 1 < 2 ^ nat (32 - k)"
    using builtin_clz_spec [of "2 * (- x) - 1"] by (simp_all add: CountLeadingZeros_def)
  have "nat (32 - k) = Suc (nat (31 - k))" using b by simp
  then have "m \<le> 2 ^ nat (31 - k)" using b(4) by simp
  then have "m * 2 ^ nat k \<le> 2 ^ nat (31 - k) * 2 ^ nat k" by (intro mult_right_mono) simp_all
  then have hi: "m * 2 ^ nat k \<le> 2 ^ 31" unfolding power_split [OF b(1,2), symmetric] by simp
  have "2 ^ nat (31 - k) * 2 ^ nat k < (2 * m) * 2 ^ nat k" using b(3) by (intro mult_strict_right_mono) simp_all
  then have lo: "2 ^ 31 < (2 * m) * 2 ^ nat k" unfolding power_split [OF b(1,2), symmetric] by simp
  have "0 < m * 2 ^ nat k" using m by simp
  moreover have "sint x = - m" by (simp add: m_def)
  ultimately show ?thesis using b(1,2) hi lo by (simp add: nat_add_distrib)
qed

text \<open>
  \<open>CountLeadingSignBits\<close> is the headroom of a number.  A shift to the left by as many bits, as the
  division kernel does, does not overflow, and one bit more would overflow for any number but zero.
\<close>

theorem sign_bits_are_headroom:
  "let k = CountLeadingSignBits x in 0 \<le> k \<and> k \<le> 31 \<and>
     (\<exists>y. scale_up x k = Some y \<and> sint y = sint x * 2 ^ nat k) \<and>
     (x = 0 \<or> sint x * 2 ^ nat (k + 1) < - (2 ^ 31) \<or> 2 ^ 31 \<le> sint x * 2 ^ nat (k + 1))"
proof -
  define k where "k = CountLeadingSignBits x"
  have "0 \<le> k \<and> k \<le> 31 \<and> - (2 ^ 31) \<le> sint x * 2 ^ nat k \<and> sint x * 2 ^ nat k < 2 ^ 31 \<and>
     (x = 0 \<or> sint x * 2 ^ nat (k + 1) < - (2 ^ 31) \<or> 2 ^ 31 \<le> sint x * 2 ^ nat (k + 1))"
  proof (cases "x = 0 \<or> sint x = - (2 ^ 31)")
    case True
    then have "x = 0 \<or> k = 0" by (auto simp: k_def CountLeadingSignBits_def)
    with True show ?thesis by (auto simp: k_def CountLeadingSignBits_def CountLeadingZeros_def)
  next
    case False
    then show ?thesis using headroom_nonneg [OF _ _ k_def] headroom_neg [OF _ _ k_def] by blast
  qed
  moreover from this have "scale_up x k = Some (word_of_int (sint x * 2 ^ nat k))"
    by (simp add: scale_up_def push_bit_eq_mult)
  ultimately show ?thesis unfolding Let_def k_def [symmetric] using sint_word_of_int by blast
qed

end
