(* ===== verification/Lite_Broadcast.thy ===== *)
theory Lite_Broadcast
  imports Lite_Quant Lite_Slice
begin

text \<open>
  The arithmetic kernels of TensorFlow Lite on two inputs: \<open>reference_ops.h\<close>, \<open>add.h\<close>, \<open>comparisons.h\<close>,
  \<open>maximum_minimum.h\<close>, \<open>binary_function.h\<close> and \<open>process_broadcast_shapes.h\<close>, with the array descriptors of
  \<open>common.h\<close> they broadcast with.

  The element functions are separate definitions, so the loops of all elementwise kernels are
  \<open>elementwise_loop\<close> and those of all slow broadcasting kernels are \<open>broadcast_loops\<close>.  The kernels that
  are templates over the number type take its operations as a record.
\<close>

section \<open>Array descriptors\<close>

record NdArrayDesc =
  extents :: "int list"
  strides :: "int list"

definition SubscriptToIndex :: "NdArrayDesc \<Rightarrow> int \<Rightarrow> int \<Rightarrow> int \<Rightarrow> int \<Rightarrow> int option" where
  "SubscriptToIndex desc i0 i1 i2 i3 = do {
     e0 \<leftarrow> rd (extents desc) 0; _ \<leftarrow> check (i0 \<ge> 0 \<and> i0 < e0);
     e1 \<leftarrow> rd (extents desc) 1; _ \<leftarrow> check (i1 \<ge> 0 \<and> i1 < e1);
     e2 \<leftarrow> rd (extents desc) 2; _ \<leftarrow> check (i2 \<ge> 0 \<and> i2 < e2);
     e3 \<leftarrow> rd (extents desc) 3; _ \<leftarrow> check (i3 \<ge> 0 \<and> i3 < e3);
     s0 \<leftarrow> rd (strides desc) 0; s1 \<leftarrow> rd (strides desc) 1; s2 \<leftarrow> rd (strides desc) 2; s3 \<leftarrow> rd (strides desc) 3;
     Some (i0 * s0 + i1 * s1 + i2 * s2 + i3 * s3) }"

text \<open>The walk over the dimensions that makes the inputs match, shared by both overloads.\<close>

definition adjust_desc :: "int \<Rightarrow> int \<Rightarrow> int \<Rightarrow> NdArrayDesc \<times> NdArrayDesc \<Rightarrow> (NdArrayDesc \<times> NdArrayDesc) option" where
  "adjust_desc i extent0 extent1 = (\<lambda>(desc0, desc1).
     if extent0 \<noteq> extent1 then
       (if extent0 = 1 then do {
          s \<leftarrow> wr (strides desc0) i 0;
          e \<leftarrow> wr (extents desc0) i extent1;
          Some (desc0\<lparr>strides := s, extents := e\<rparr>, desc1) }
        else do {
          _ \<leftarrow> check (extent1 = 1);
          s \<leftarrow> wr (strides desc1) i 0;
          e \<leftarrow> wr (extents desc1) i extent0;
          Some (desc0, desc1\<lparr>strides := s, extents := e\<rparr>) })
     else Some (desc0, desc1))"

definition adjust_descs ::
    "int \<Rightarrow> (int \<Rightarrow> int option) \<Rightarrow> (int \<Rightarrow> int option) \<Rightarrow> NdArrayDesc \<times> NdArrayDesc \<Rightarrow> (NdArrayDesc \<times> NdArrayDesc) option" where
  "adjust_descs N extent0_of extent1_of = for_range 0 N (\<lambda>i descs. do {
     extent0 \<leftarrow> extent0_of i;
     extent1 \<leftarrow> extent1_of i;
     adjust_desc i extent0 extent1 descs })"

definition ld_NdArrayDescsForElementwiseBroadcast ::
    "int \<Rightarrow> legacy_dims \<Rightarrow> legacy_dims \<Rightarrow> NdArrayDesc \<times> NdArrayDesc \<Rightarrow> (NdArrayDesc \<times> NdArrayDesc) option" where
  "ld_NdArrayDescsForElementwiseBroadcast N input0_dims input1_dims descs = do {
     descs \<leftarrow> for_range 0 N (\<lambda>i (desc0, desc1). do {
       d0 \<leftarrow> rd (ld_sizes input0_dims) i; e0 \<leftarrow> wr (extents desc0) i d0;
       t0 \<leftarrow> rd (ld_strides input0_dims) i; s0 \<leftarrow> wr (strides desc0) i t0;
       d1 \<leftarrow> rd (ld_sizes input1_dims) i; e1 \<leftarrow> wr (extents desc1) i d1;
       t1 \<leftarrow> rd (ld_strides input1_dims) i; s1 \<leftarrow> wr (strides desc1) i t1;
       Some (\<lparr>extents = e0, strides = s0\<rparr>, \<lparr>extents = e1, strides = s1\<rparr>) }) descs;
     adjust_descs N (ArraySize input0_dims) (ArraySize input1_dims) descs }"

text \<open>The loop that copies the sizes and computes the strides, from the last dimension to the first.\<close>

definition fill_desc :: "int \<Rightarrow> shape \<Rightarrow> NdArrayDesc option" where
  "fill_desc N extended_shape = do {
     (desc, stride) \<leftarrow> foldM (\<lambda>i (desc, stride). do {
        d \<leftarrow> Dims extended_shape i;
        e \<leftarrow> wr (extents desc) i d;
        s \<leftarrow> wr (strides desc) i stride;
        Some (\<lparr>extents = e, strides = s\<rparr>, stride * d) }) (rev [0..N - 1])
        (\<lparr>extents = replicate (nat N) 0, strides = replicate (nat N) 0\<rparr>, 1);
     Some desc }"

definition NdArrayDescsForElementwiseBroadcast :: "int \<Rightarrow> shape \<Rightarrow> shape \<Rightarrow> (NdArrayDesc \<times> NdArrayDesc) option" where
  "NdArrayDescsForElementwiseBroadcast N input0_shape input1_shape = do {
     extended_input0_shape \<leftarrow> ExtendedShape (nat N) input0_shape;
     extended_input1_shape \<leftarrow> ExtendedShape (nat N) input1_shape;
     desc0 \<leftarrow> fill_desc N extended_input0_shape;
     desc1 \<leftarrow> fill_desc N extended_input1_shape;
     adjust_descs N (Dims extended_input0_shape) (Dims extended_input1_shape) (desc0, desc1) }"

section \<open>The loops\<close>

definition elementwise_loop :: "int \<Rightarrow> ('a \<Rightarrow> 'b \<Rightarrow> 'c option) \<Rightarrow> 'a list \<Rightarrow> 'b list \<Rightarrow> 'c list \<Rightarrow> 'c list option" where
  "elementwise_loop flat_size f input1_data input2_data output_data =
     for_range 0 flat_size (\<lambda>i output_data. do {
       v1 \<leftarrow> rd input1_data i; v2 \<leftarrow> rd input2_data i; r \<leftarrow> f v1 v2; wr output_data i r }) output_data"

definition broadcast_loops ::
    "('a \<Rightarrow> 'b \<Rightarrow> 'c option) \<Rightarrow> shape \<Rightarrow> 'a list \<Rightarrow> shape \<Rightarrow> 'b list \<Rightarrow> shape \<Rightarrow> 'c list \<Rightarrow> 'c list option" where
  "broadcast_loops f input1_shape input1_data input2_shape input2_data unextended_output_shape output_data = do {
     output_shape \<leftarrow> ExtendedShape 4 unextended_output_shape;
     (desc1, desc2) \<leftarrow> NdArrayDescsForElementwiseBroadcast 4 input1_shape input2_shape;
     d0 \<leftarrow> Dims output_shape 0; d1 \<leftarrow> Dims output_shape 1; d2 \<leftarrow> Dims output_shape 2; d3 \<leftarrow> Dims output_shape 3;
     for_range 0 d0 (\<lambda>b. for_range 0 d1 (\<lambda>y. for_range 0 d2 (\<lambda>x. for_range 0 d3 (\<lambda>c output_data. do {
       i1 \<leftarrow> SubscriptToIndex desc1 b y x c;
       i2 \<leftarrow> SubscriptToIndex desc2 b y x c;
       v1 \<leftarrow> rd input1_data i1;
       v2 \<leftarrow> rd input2_data i2;
       r \<leftarrow> f v1 v2;
       off \<leftarrow> Offset output_shape b y x c;
       wr output_data off r })))) output_data }"

definition ranks_at_most_4 :: "shape list \<Rightarrow> unit option" where
  "ranks_at_most_4 ss = check (\<forall>s\<in>set ss. length s \<le> 4)"

definition BroadcastBinaryFunction4DSlow ::
    "shape \<Rightarrow> 'a list \<Rightarrow> shape \<Rightarrow> 'b list \<Rightarrow> shape \<Rightarrow> 'c list \<Rightarrow> ('a \<Rightarrow> 'b \<Rightarrow> 'c option) \<Rightarrow> 'c list option" where
  "BroadcastBinaryFunction4DSlow s1 input1_data s2 input2_data output_shape output_data func = do {
     _ \<leftarrow> ranks_at_most_4 [s1, s2, output_shape];
     broadcast_loops func s1 input1_data s2 input2_data output_shape output_data }"

definition BinaryFunction ::
    "shape \<Rightarrow> 'a list \<Rightarrow> shape \<Rightarrow> 'b list \<Rightarrow> shape \<Rightarrow> 'c list \<Rightarrow> ('a \<Rightarrow> 'b \<Rightarrow> 'c option) \<Rightarrow> 'c list option" where
  "BinaryFunction s1 input1_data s2 input2_data output_shape output_data func = do {
     flat_size \<leftarrow> MatchingFlatSize2 s1 s2 output_shape;
     elementwise_loop flat_size func input1_data input2_data output_data }"

definition MaximumMinimumBroadcast4DSlow ::
    "shape \<Rightarrow> 'a list \<Rightarrow> shape \<Rightarrow> 'a list \<Rightarrow> shape \<Rightarrow> 'a list \<Rightarrow> ('a \<Rightarrow> 'a \<Rightarrow> 'a) \<Rightarrow> 'a list option" where
  "MaximumMinimumBroadcast4DSlow s1 input1_data s2 input2_data output_shape output_data opn = do {
     _ \<leftarrow> ranks_at_most_4 [s1, s2, output_shape];
     broadcast_loops (\<lambda>a b. Some (opn a b)) s1 input1_data s2 input2_data output_shape output_data }"

text \<open>\<open>std::pow\<close> is a parameter.\<close>

definition Pow :: "('a \<Rightarrow> 'a \<Rightarrow> 'a) \<Rightarrow> shape \<Rightarrow> 'a list \<Rightarrow> shape \<Rightarrow> 'a list \<Rightarrow> shape \<Rightarrow> 'a list \<Rightarrow> 'a list option" where
  "Pow std_pow s1 input1_data s2 input2_data output_shape output_data = do {
     flat_size \<leftarrow> MatchingFlatSize2 s1 s2 output_shape;
     elementwise_loop flat_size (\<lambda>a b. Some (std_pow a b)) input1_data input2_data output_data }"

definition BroadcastPow4DSlow ::
    "('a \<Rightarrow> 'a \<Rightarrow> 'a) \<Rightarrow> shape \<Rightarrow> 'a list \<Rightarrow> shape \<Rightarrow> 'a list \<Rightarrow> shape \<Rightarrow> 'a list \<Rightarrow> 'a list option" where
  "BroadcastPow4DSlow std_pow s1 input1_data s2 input2_data output_shape output_data = do {
     _ \<leftarrow> ranks_at_most_4 [s1, s2, output_shape];
     broadcast_loops (\<lambda>a b. Some (std_pow a b)) s1 input1_data s2 input2_data output_shape output_data }"

section \<open>What the descriptors address\<close>

text \<open>Extent and stride of an input of size \<open>a\<close> beside one of size \<open>b\<close>.\<close>

definition joint_extent :: "int \<Rightarrow> int \<Rightarrow> int" where
  "joint_extent a b = (if a = 1 then b else a)"

definition joint_stride :: "int \<Rightarrow> int \<Rightarrow> int \<Rightarrow> int" where
  "joint_stride a b s = (if a = 1 \<and> b \<noteq> 1 then 0 else s)"

definition compatible_dims :: "int \<Rightarrow> int \<Rightarrow> bool" where
  "compatible_dims a b \<longleftrightarrow> a = b \<or> a = 1 \<or> b = 1"

text \<open>The index an input is read at, numpy style.\<close>

definition broadcast_index :: "shape \<Rightarrow> int list \<Rightarrow> int list" where
  "broadcast_index s index = map2 (\<lambda>d i. if d = 1 then 0 else i) s index"

definition broadcast_to :: "shape \<Rightarrow> shape \<Rightarrow> 'a list \<Rightarrow> 'a list" where
  "broadcast_to s whole x = map (\<lambda>q. x ! nat (linear s (broadcast_index s (unravel whole q)))) [0..FlatSize whole - 1]"

definition broadcastable :: "shape \<Rightarrow> shape \<Rightarrow> shape \<Rightarrow> bool" where
  "broadcastable a b whole \<longleftrightarrow> list_all2 compatible_dims a b \<and> whole = map2 joint_extent a b"

lemma fill_desc_4:
  "fill_desc 4 [d0, d1, d2, d3] = Some \<lparr>extents = [d0, d1, d2, d3], strides = [d1 * d2 * d3, d2 * d3, d3, 1]\<rparr>"
proof -
  have "rev [0..3] = [3, 2, 1, 0 :: int]" by (simp add: upto_rec1)
  moreover have "replicate (nat 4) (0 :: int) = [0, 0, 0, 0]" by (simp add: numeral_eq_Suc)
  ultimately show ?thesis by (simp add: fill_desc_def Dims_def rd_def wr_def mult.commute mult.left_commute)
qed

lemma adjust_step:
  assumes i: "0 \<le> i" "nat i < length e" "nat i < length e'" "nat i < length s" "nat i < length s'"
    and a: "e ! nat i = a" "e' ! nat i = b" and ab: "compatible_dims a b"
  shows "adjust_desc i a b (\<lparr>extents = e, strides = s\<rparr>, \<lparr>extents = e', strides = s'\<rparr>) =
   Some (\<lparr>extents = e[nat i := joint_extent a b], strides = s[nat i := joint_stride a b (s ! nat i)]\<rparr>,
     \<lparr>extents = e'[nat i := joint_extent a b], strides = s'[nat i := joint_stride b a (s' ! nat i)]\<rparr>)"
proof -
  have "e[nat i := a] = e" "e'[nat i := b] = e'" using a by auto
  then show ?thesis using i ab
    by (auto simp: adjust_desc_def compatible_dims_def joint_extent_def joint_stride_def wr_def nat_less_iff)
qed

lemma descs_4:
  assumes "list_all2 compatible_dims [a0, a1, a2, a3] [b0, b1, b2, b3]"
  shows "adjust_descs 4 (Dims [a0, a1, a2, a3]) (Dims [b0, b1, b2, b3])
     (\<lparr>extents = [a0, a1, a2, a3], strides = [s0, s1, s2, s3]\<rparr>, \<lparr>extents = [b0, b1, b2, b3], strides = [t0, t1, t2, t3]\<rparr>) =
   Some (\<lparr>extents = map2 joint_extent [a0, a1, a2, a3] [b0, b1, b2, b3],
       strides = [joint_stride a0 b0 s0, joint_stride a1 b1 s1, joint_stride a2 b2 s2, joint_stride a3 b3 s3]\<rparr>,
     \<lparr>extents = map2 joint_extent [a0, a1, a2, a3] [b0, b1, b2, b3],
       strides = [joint_stride b0 a0 t0, joint_stride b1 a1 t1, joint_stride b2 a2 t2, joint_stride b3 a3 t3]\<rparr>)"
proof -
  have c: "compatible_dims a0 b0" "compatible_dims a1 b1" "compatible_dims a2 b2" "compatible_dims a3 b3"
    using assms by simp_all
  show ?thesis
    unfolding adjust_descs_def for_range_0_4
    by (simp add: Dims_def rd_def adjust_step c)
qed


lemma joint_index:
  "compatible_dims a b \<Longrightarrow> 0 \<le> i \<Longrightarrow> i < joint_extent a b \<Longrightarrow>
   i * joint_stride a b s = (if a = 1 then 0 else i) * s \<and> i * joint_stride b a s = (if b = 1 then 0 else i) * s \<and>
   0 \<le> (if a = 1 then 0 else i) \<and> (if a = 1 then 0 else i) < a \<and> 0 \<le> (if b = 1 then 0 else i) \<and> (if b = 1 then 0 else i) < b"
  by (auto simp: compatible_dims_def joint_extent_def joint_stride_def split: if_splits)

lemma valid_broadcast_index:
  "list_all2 compatible_dims a b \<Longrightarrow> valid_index (map2 joint_extent a b) index \<Longrightarrow>
   valid_index a (broadcast_index a index) \<and> valid_index b (broadcast_index b index)"
proof (induction a b arbitrary: index rule: list_all2_induct)
  case Nil
  then show ?case by (cases index) (simp_all add: broadcast_index_def)
next
  case (Cons x xs y ys)
  then obtain i "is" where i: "index = i # is" by (cases index) simp_all
  with Cons joint_index [of x y i 0] show ?case by (simp add: broadcast_index_def)
qed

lemma descs_address:
  assumes compat: "list_all2 compatible_dims [a0, a1, a2, a3] [b0, b1, b2, b3]"
    and v: "valid_index (map2 joint_extent [a0, a1, a2, a3] [b0, b1, b2, b3]) [i0, i1, i2, i3]"
  shows "SubscriptToIndex \<lparr>extents = map2 joint_extent [a0, a1, a2, a3] [b0, b1, b2, b3],
       strides = [joint_stride a0 b0 (a1 * a2 * a3), joint_stride a1 b1 (a2 * a3), joint_stride a2 b2 a3, joint_stride a3 b3 1]\<rparr> i0 i1 i2 i3 =
     Some (linear [a0, a1, a2, a3] (broadcast_index [a0, a1, a2, a3] [i0, i1, i2, i3])) \<and>
    SubscriptToIndex \<lparr>extents = map2 joint_extent [a0, a1, a2, a3] [b0, b1, b2, b3],
       strides = [joint_stride b0 a0 (b1 * b2 * b3), joint_stride b1 a1 (b2 * b3), joint_stride b2 a2 b3, joint_stride b3 a3 1]\<rparr> i0 i1 i2 i3 =
     Some (linear [b0, b1, b2, b3] (broadcast_index [b0, b1, b2, b3] [i0, i1, i2, i3]))"
proof -
  have c: "compatible_dims a0 b0" "compatible_dims a1 b1" "compatible_dims a2 b2" "compatible_dims a3 b3"
    using compat by simp_all
  have r: "0 \<le> i0" "i0 < joint_extent a0 b0" "0 \<le> i1" "i1 < joint_extent a1 b1" "0 \<le> i2" "i2 < joint_extent a2 b2"
    "0 \<le> i3" "i3 < joint_extent a3 b3" using v by simp_all
  note j = joint_index [OF c(1) r(1,2)] joint_index [OF c(2) r(3,4)] joint_index [OF c(3) r(5,6)] joint_index [OF c(4) r(7,8)]
  have la: "linear [a0, a1, a2, a3] [k0, k1, k2, k3] = k0 * (a1 * a2 * a3) + k1 * (a2 * a3) + k2 * a3 + k3 * 1" for k0 k1 k2 k3 a0 a1 a2 a3
    by (simp add: linear_def algebra_simps)
  have s: "SubscriptToIndex \<lparr>extents = map2 joint_extent [a0, a1, a2, a3] [b0, b1, b2, b3], strides = [s0, s1, s2, s3]\<rparr> i0 i1 i2 i3 =
      Some (i0 * s0 + i1 * s1 + i2 * s2 + i3 * s3)" for s0 s1 s2 s3
    using r by (simp add: SubscriptToIndex_def rd_def)
  have bi: "broadcast_index [a0, a1, a2, a3] [i0, i1, i2, i3] =
      [if a0 = 1 then 0 else i0, if a1 = 1 then 0 else i1, if a2 = 1 then 0 else i2, if a3 = 1 then 0 else i3]" for a0 a1 a2 a3
    by (simp add: broadcast_index_def)
  show ?thesis unfolding s la bi using j by (simp only: simp_thms)
qed


lemma rd_broadcast_to:
  "valid_index whole index \<Longrightarrow>
   rd (broadcast_to s whole x) (linear whole index) = Some (x ! nat (linear s (broadcast_index s index)))"
  using linear_range [of whole index] unravel_linear [of whole index]
  by (simp add: rd_def broadcast_to_def FlatSize_def foldl_times_eq)

text \<open>
  The broadcasting loops do at every position of the output what an elementwise loop does on the
  inputs broadcast to the shape of the output.
\<close>

lemma broadcast_loops_eq:
  assumes e: "ExtendedShape 4 s1 = Some e1" "ExtendedShape 4 s2 = Some e2" "ExtendedShape 4 os = Some whole"
    and bc: "broadcastable e1 e2 whole" and nn: "\<forall>d\<in>set whole. 0 \<le> d"
    and l: "int (length x1) = FlatSize e1" "int (length x2) = FlatSize e2"
  shows "broadcast_loops f s1 x1 s2 x2 os out =
     elementwise_loop (FlatSize whole) f (broadcast_to e1 whole x1) (broadcast_to e2 whole x2) out"
proof -
  have "length e1 = 4" "length e2 = 4" using e ExtendedShape4_len by blast+
  then obtain a0 a1 a2 a3 b0 b1 b2 b3 where ab: "e1 = [a0, a1, a2, a3]" "e2 = [b0, b1, b2, b3]"
    by (auto simp: numeral_eq_Suc length_Suc_conv)
  have c: "list_all2 compatible_dims [a0, a1, a2, a3] [b0, b1, b2, b3]" and w: "whole = map2 joint_extent [a0, a1, a2, a3] [b0, b1, b2, b3]"
    using bc unfolding broadcastable_def ab by blast+
  obtain d0 d1 d2 d3 where d: "whole = [d0, d1, d2, d3]" using w by simp
  have d0: "0 \<le> d0" "0 \<le> d1" "0 \<le> d2" "0 \<le> d3" using nn d by simp_all
  have F: "FlatSize s = prod_list s" for s by (simp add: FlatSize_def foldl_times_eq)
  define D1 where "D1 = \<lparr>extents = map2 joint_extent [a0, a1, a2, a3] [b0, b1, b2, b3],
       strides = [joint_stride a0 b0 (a1 * a2 * a3), joint_stride a1 b1 (a2 * a3), joint_stride a2 b2 a3, joint_stride a3 b3 1]\<rparr>"
  define D2 where "D2 = \<lparr>extents = map2 joint_extent [a0, a1, a2, a3] [b0, b1, b2, b3],
       strides = [joint_stride b0 a0 (b1 * b2 * b3), joint_stride b1 a1 (b2 * b3), joint_stride b2 a2 b3, joint_stride b3 a3 1]\<rparr>"
  have descs: "NdArrayDescsForElementwiseBroadcast 4 s1 s2 = Some (D1, D2)"
    using e unfolding NdArrayDescsForElementwiseBroadcast_def ab
    by (simp add: fill_desc_4 descs_4 [OF c] D1_def D2_def)
  let ?i = "\<lambda>(i0, i1, i2, i3). [i0, i1, i2, i3 :: int]"
  let ?body = "\<lambda>q out. do {
       v1 \<leftarrow> rd (broadcast_to e1 whole x1) q; v2 \<leftarrow> rd (broadcast_to e2 whole x2) q; r \<leftarrow> f v1 v2; wr out q r }"
  have "broadcast_loops f s1 x1 s2 x2 os out = foldM (\<lambda>(b, y, x, c) out. do {
       i1 \<leftarrow> SubscriptToIndex D1 b y x c;
       i2 \<leftarrow> SubscriptToIndex D2 b y x c;
       v1 \<leftarrow> rd x1 i1; v2 \<leftarrow> rd x2 i2; r \<leftarrow> f v1 v2;
       off \<leftarrow> Offset whole b y x c; wr out off r }) (idx4 d0 d1 d2 d3) out"
    unfolding broadcast_loops_def descs e(3) by (simp add: d Dims4 for_range4)
  also have "\<dots> = foldM (\<lambda>x. ?body (off4 d1 d2 d3 x)) (idx4 d0 d1 d2 d3) out"
  proof (rule foldM_cong [OF refl refl])
    fix x :: "int \<times> int \<times> int \<times> int" and u assume x: "x \<in> set (idx4 d0 d1 d2 d3)"
    obtain i0 i1 i2 i3 where i: "x = (i0, i1, i2, i3)" using prod_cases4 by blast
    let ?ix = "[i0, i1, i2, i3]"
    have v: "valid_index whole ?ix" using x by (simp add: i d)
    have lin: "linear whole ?ix = off4 d1 d2 d3 x" by (simp add: d i linear_def off4_def)
    have "valid_index e1 (broadcast_index e1 ?ix) \<and> valid_index e2 (broadcast_index e2 ?ix)"
      using valid_broadcast_index [OF c] v unfolding w ab by blast
    then have r: "rd x1 (linear e1 (broadcast_index e1 ?ix)) = Some (x1 ! nat (linear e1 (broadcast_index e1 ?ix)))"
      "rd x2 (linear e2 (broadcast_index e2 ?ix)) = Some (x2 ! nat (linear e2 (broadcast_index e2 ?ix)))"
      using linear_range l F by (simp_all add: rd_def)
    note b = rd_broadcast_to [OF v, unfolded lin, of e1 x1] rd_broadcast_to [OF v, unfolded lin, of e2 x2]
    have off: "Offset whole i0 i1 i2 i3 = Some (off4 d1 d2 d3 x)" using x unfolding d i by (simp add: Offset_eq)
    have addr: "SubscriptToIndex D1 i0 i1 i2 i3 = Some (linear e1 (broadcast_index e1 ?ix))"
      "SubscriptToIndex D2 i0 i1 i2 i3 = Some (linear e2 (broadcast_index e2 ?ix))"
      using descs_address [OF c v [unfolded w]] unfolding D1_def D2_def ab by blast+
    show "(case x of (b, y, x, c) \<Rightarrow> \<lambda>out. do {
       i1 \<leftarrow> SubscriptToIndex D1 b y x c;
       i2 \<leftarrow> SubscriptToIndex D2 b y x c;
       v1 \<leftarrow> rd x1 i1; v2 \<leftarrow> rd x2 i2; r \<leftarrow> f v1 v2;
       off \<leftarrow> Offset whole b y x c; wr out off r }) u = ?body (off4 d1 d2 d3 x) u"
      using addr r b off unfolding i by simp
  qed
  also have "\<dots> = foldM ?body [0..size4 d0 d1 d2 d3 - 1] out"
    unfolding offsets4 [OF d0, symmetric] foldM_map ..
  finally show ?thesis by (simp add: elementwise_loop_def for_range_def d FlatSize_4)
qed

end
