(* ===== verification/Lite_Arith.thy ===== *)
theory Lite_Arith
  imports Lite_Broadcast
begin

text \<open>
  The arithmetic and comparison kernels over the loops of \<open>Lite_Broadcast\<close>: \<open>Mul\<close>, \<open>Div\<close>, \<open>Sub\<close> of
  \<open>reference_ops.h\<close>, \<open>Add\<close> of \<open>add.h\<close>, \<open>comparisons.h\<close>, and \<open>process_broadcast_shapes.h\<close> with the fivefold
  kernels.  Overloads have the element type as a suffix; \<open>_T\<close> is a template over the number type.
\<close>

section \<open>Element functions\<close>

text \<open>
  The operations of a number type \<open>T\<close>.  \<open>ActivationFunctionWithMinMax\<close> works on \<open>float\<close>, so the
  templates convert to \<open>float\<close> and back.
\<close>

record ('a, 'f) number_type =
  t_add :: "'a \<Rightarrow> 'a \<Rightarrow> 'a"
  t_sub :: "'a \<Rightarrow> 'a \<Rightarrow> 'a"
  t_mul :: "'a \<Rightarrow> 'a \<Rightarrow> 'a"
  t_div :: "'a \<Rightarrow> 'a \<Rightarrow> 'a option"
  t_to_float :: "'a \<Rightarrow> 'f"
  t_of_float :: "'f \<Rightarrow> 'a"
  t_int32_to_float :: "int32 \<Rightarrow> 'f"
  t_activation :: "'f ArithmeticParams \<Rightarrow> 'a \<times> 'a"

definition activate :: "('a, 'f :: ord) number_type \<Rightarrow> 'f ArithmeticParams \<Rightarrow> 'a \<Rightarrow> 'a" where
  "activate T params x = (case t_activation T params of (amin, amax) \<Rightarrow>
     t_of_float T (ActivationFunctionWithMinMax (t_to_float T x) (t_to_float T amin) (t_to_float T amax)))"

definition activate_int32 :: "('a, 'f :: ord) number_type \<Rightarrow> 'f ArithmeticParams \<Rightarrow> 'a \<Rightarrow> 'a" where
  "activate_int32 T params x = t_of_float T (ActivationFunctionWithMinMax (t_to_float T x)
     (t_int32_to_float T (quantized_activation_min params)) (t_int32_to_float T (quantized_activation_max params)))"

definition activate_float :: "'f :: ord ArithmeticParams \<Rightarrow> 'f \<Rightarrow> 'f" where
  "activate_float params x = ActivationFunctionWithMinMax x (float_activation_min params) (float_activation_max params)"

definition clamp_uint8 :: "'f ArithmeticParams \<Rightarrow> int32 \<Rightarrow> uint8" where
  "clamp_uint8 params x = ucast (smin (quantized_activation_max params) (smax (quantized_activation_min params) x))"

definition mul_uint8 :: "gemmlowp \<Rightarrow> 'f ArithmeticParams \<Rightarrow> uint8 \<Rightarrow> uint8 \<Rightarrow> uint8 option" where
  "mul_uint8 gl params a b = do {
     let input1_val = input1_offset params + ucast a;
     let input2_val = input2_offset params + ucast b;
     r \<leftarrow> MultiplyByQuantizedMultiplier gl (input1_val * input2_val) (output_multiplier params) (output_shift params);
     Some (clamp_uint8 params (output_offset params + r)) }"

definition scaled_input1 :: "gemmlowp \<Rightarrow> 'f ArithmeticParams \<Rightarrow> uint8 \<Rightarrow> int32 option" where
  "scaled_input1 gl params a = do {
     let input1_val = input1_offset params + ucast a;
     shifted_input1_val \<leftarrow> scale_up input1_val (left_shift params);
     Some (MultiplyByQuantizedMultiplierSmallerThanOneExp gl shifted_input1_val (input1_multiplier params) (input1_shift params)) }"

definition scaled_input2 :: "gemmlowp \<Rightarrow> 'f ArithmeticParams \<Rightarrow> uint8 \<Rightarrow> int32 option" where
  "scaled_input2 gl params b = do {
     let input2_val = input2_offset params + ucast b;
     shifted_input2_val \<leftarrow> scale_up input2_val (left_shift params);
     Some (MultiplyByQuantizedMultiplierSmallerThanOneExp gl shifted_input2_val (input2_multiplier params) (input2_shift params)) }"

definition rescale_uint8 :: "gemmlowp \<Rightarrow> 'f ArithmeticParams \<Rightarrow> int32 \<Rightarrow> uint8" where
  "rescale_uint8 gl params raw = clamp_uint8 params
     (MultiplyByQuantizedMultiplierSmallerThanOneExp gl raw (output_multiplier params) (output_shift params) + output_offset params)"

definition add_uint8 :: "gemmlowp \<Rightarrow> 'f ArithmeticParams \<Rightarrow> uint8 \<Rightarrow> uint8 \<Rightarrow> uint8 option" where
  "add_uint8 gl params a b = do {
     scaled_input1_val \<leftarrow> scaled_input1 gl params a;
     scaled_input2_val \<leftarrow> scaled_input2 gl params b;
     Some (rescale_uint8 gl params (scaled_input1_val + scaled_input2_val)) }"

definition sub_uint8 :: "gemmlowp \<Rightarrow> 'f ArithmeticParams \<Rightarrow> uint8 \<Rightarrow> uint8 \<Rightarrow> uint8 option" where
  "sub_uint8 gl params a b = do {
     scaled_input1_val \<leftarrow> scaled_input1 gl params a;
     scaled_input2_val \<leftarrow> scaled_input2 gl params b;
     Some (rescale_uint8 gl params (scaled_input1_val - scaled_input2_val)) }"

definition div_uint8 :: "gemmlowp \<Rightarrow> 'f ArithmeticParams \<Rightarrow> uint8 \<Rightarrow> uint8 \<Rightarrow> uint8 option" where
  "div_uint8 gl params a b = do {
     let input1_val = input1_offset params + ucast a;
     let input2_val = input2_offset params + ucast b;
     _ \<leftarrow> check (input2_val \<noteq> 0);
     (input2_inv, recip_shift) \<leftarrow>
       (if 0 < sint input2_val then GetReciprocal gl input2_val 31
        else do { (r, recip_shift) \<leftarrow> GetReciprocal gl (- input2_val) 31; Some (- r, recip_shift) });
     let headroom = CountLeadingSignBits input1_val;
     unscaled_quotient \<leftarrow> MultiplyByQuantizedMultiplierGreaterThanOne gl input1_val input2_inv headroom;
     let total_shift = output_shift params - recip_shift - headroom;
     let unclamped_result = output_offset params +
       MultiplyByQuantizedMultiplierSmallerThanOneExp gl unscaled_quotient (output_multiplier params) total_shift;
     Some (clamp_uint8 params unclamped_result) }"

definition offset_in_range :: "int32 \<Rightarrow> bool" where
  "offset_in_range off \<longleftrightarrow> - 256 < sint off \<and> sint off < 256"

section \<open>Mul\<close>

definition Mul_T ::
    "('a, 'f :: ord) number_type \<Rightarrow> 'f ArithmeticParams \<Rightarrow> shape \<Rightarrow> 'a list \<Rightarrow> shape \<Rightarrow> 'a list \<Rightarrow> shape \<Rightarrow> 'a list \<Rightarrow> 'a list option" where
  "Mul_T T params s1 input1_data s2 input2_data output_shape output_data = do {
     flat_size \<leftarrow> MatchingFlatSize2 s1 s2 output_shape;
     elementwise_loop flat_size (\<lambda>a b. Some (activate T params (t_mul T a b))) input1_data input2_data output_data }"

definition BroadcastMul4DSlow_T ::
    "('a, 'f :: ord) number_type \<Rightarrow> 'f ArithmeticParams \<Rightarrow> shape \<Rightarrow> 'a list \<Rightarrow> shape \<Rightarrow> 'a list \<Rightarrow> shape \<Rightarrow> 'a list \<Rightarrow> 'a list option" where
  "BroadcastMul4DSlow_T T params s1 input1_data s2 input2_data output_shape output_data = do {
     _ \<leftarrow> ranks_at_most_4 [s1, s2, output_shape];
     broadcast_loops (\<lambda>a b. Some (activate T params (t_mul T a b))) s1 input1_data s2 input2_data output_shape output_data }"

text \<open>Pointers into buffers are a buffer with an offset.\<close>

definition elementwise_at ::
    "('a \<Rightarrow> 'b \<Rightarrow> 'c option) \<Rightarrow> int \<Rightarrow> 'a list \<Rightarrow> int \<Rightarrow> 'b list \<Rightarrow> int \<Rightarrow> 'c list \<Rightarrow> int \<Rightarrow> 'c list option" where
  "elementwise_at f n input1_data p1 input2_data p2 output_data q =
     for_range 0 n (\<lambda>i output_data. do {
       v1 \<leftarrow> rd input1_data (p1 + i); v2 \<leftarrow> rd input2_data (p2 + i); r \<leftarrow> f v1 v2; wr output_data (q + i) r }) output_data"

definition MulElementwise ::
    "gemmlowp \<Rightarrow> int \<Rightarrow> 'f ArithmeticParams \<Rightarrow> uint8 list \<Rightarrow> int \<Rightarrow> uint8 list \<Rightarrow> int \<Rightarrow> uint8 list \<Rightarrow> int \<Rightarrow> uint8 list option" where
  "MulElementwise gl n params input1_data p1 input2_data p2 output_data q =
     elementwise_at (mul_uint8 gl params) n input1_data p1 input2_data p2 output_data q"

definition Mul_uint8 ::
    "gemmlowp \<Rightarrow> 'f ArithmeticParams \<Rightarrow> shape \<Rightarrow> uint8 list \<Rightarrow> shape \<Rightarrow> uint8 list \<Rightarrow> shape \<Rightarrow> uint8 list \<Rightarrow> uint8 list option" where
  "Mul_uint8 gl params s1 input1_data s2 input2_data output_shape output_data = do {
     _ \<leftarrow> check (sint (quantized_activation_min params) \<le> sint (quantized_activation_max params));
     flat_size \<leftarrow> MatchingFlatSize2 s1 s2 output_shape;
     MulElementwise gl flat_size params input1_data 0 input2_data 0 output_data 0 }"

definition BroadcastMul4DSlow_uint8 ::
    "gemmlowp \<Rightarrow> 'f ArithmeticParams \<Rightarrow> shape \<Rightarrow> uint8 list \<Rightarrow> shape \<Rightarrow> uint8 list \<Rightarrow> shape \<Rightarrow> uint8 list \<Rightarrow> uint8 list option" where
  "BroadcastMul4DSlow_uint8 gl params s1 input1_data s2 input2_data output_shape output_data =
     broadcast_loops (mul_uint8 gl params) s1 input1_data s2 input2_data output_shape output_data"

definition Mul_int16 ::
    "gemmlowp \<Rightarrow> shape \<Rightarrow> int16 list \<Rightarrow> shape \<Rightarrow> int16 list \<Rightarrow> shape \<Rightarrow> int16 list \<Rightarrow> int16 list option" where
  "Mul_int16 gl s1 input1_data s2 input2_data output_shape output_data = do {
     flat_size \<leftarrow> MatchingFlatSize2 s1 s2 output_shape;
     elementwise_loop flat_size (\<lambda>a b. Some (F0_times gl a b)) input1_data input2_data output_data }"

definition Mul_int16_uint8 ::
    "gemmlowp \<Rightarrow> 'f ArithmeticParams \<Rightarrow> shape \<Rightarrow> int16 list \<Rightarrow> shape \<Rightarrow> int16 list \<Rightarrow> shape \<Rightarrow> uint8 list \<Rightarrow> uint8 list option" where
  "Mul_int16_uint8 gl params s1 input1_data s2 input2_data output_shape output_data = do {
     let off = output_offset params;
     let amin = quantized_activation_min params;
     let amax = quantized_activation_max params;
     _ \<leftarrow> check (sint amin \<le> sint amax);
     flat_size \<leftarrow> MatchingFlatSize2 s1 s2 output_shape;
     elementwise_loop flat_size (\<lambda>a b.
       let unclamped_result = F0_times gl a b;
           rescaled_result = RoundingDivideByPOT_int16 gl unclamped_result 8;
           clamped_result = smin (ucast (amax - off)) rescaled_result;
           clamped_result = smax (ucast (amin - off)) clamped_result
       in Some (ucast (off + scast clamped_result))) input1_data input2_data output_data }"

section \<open>Div\<close>

definition Div_T ::
    "('a, 'f :: ord) number_type \<Rightarrow> 'f ArithmeticParams \<Rightarrow> shape \<Rightarrow> 'a list \<Rightarrow> shape \<Rightarrow> 'a list \<Rightarrow> shape \<Rightarrow> 'a list \<Rightarrow> 'a list option" where
  "Div_T T params s1 input1_data s2 input2_data output_shape output_data = do {
     flat_size \<leftarrow> MatchingFlatSize2 s1 s2 output_shape;
     elementwise_loop flat_size (\<lambda>a b. map_option (activate T params) (t_div T a b)) input1_data input2_data output_data }"

definition BroadcastDiv4DSlow_T ::
    "('a, 'f :: ord) number_type \<Rightarrow> 'f ArithmeticParams \<Rightarrow> shape \<Rightarrow> 'a list \<Rightarrow> shape \<Rightarrow> 'a list \<Rightarrow> shape \<Rightarrow> 'a list \<Rightarrow> 'a list option" where
  "BroadcastDiv4DSlow_T T params s1 input1_data s2 input2_data output_shape output_data = do {
     _ \<leftarrow> ranks_at_most_4 [s1, s2, output_shape];
     broadcast_loops (\<lambda>a b. map_option (activate T params) (t_div T a b)) s1 input1_data s2 input2_data output_shape output_data }"

definition all_offsets_in_range :: "'f ArithmeticParams \<Rightarrow> bool" where
  "all_offsets_in_range params \<longleftrightarrow>
     offset_in_range (input1_offset params) \<and> offset_in_range (input2_offset params) \<and> offset_in_range (output_offset params)"

definition DivElementwise ::
    "gemmlowp \<Rightarrow> int \<Rightarrow> 'f ArithmeticParams \<Rightarrow> uint8 list \<Rightarrow> int \<Rightarrow> uint8 list \<Rightarrow> int \<Rightarrow> uint8 list \<Rightarrow> int \<Rightarrow> uint8 list option" where
  "DivElementwise gl n params input1_data p1 input2_data p2 output_data q = do {
     _ \<leftarrow> check (all_offsets_in_range params);
     elementwise_at (div_uint8 gl params) n input1_data p1 input2_data p2 output_data q }"

definition Div_uint8 ::
    "gemmlowp \<Rightarrow> 'f ArithmeticParams \<Rightarrow> shape \<Rightarrow> uint8 list \<Rightarrow> shape \<Rightarrow> uint8 list \<Rightarrow> shape \<Rightarrow> uint8 list \<Rightarrow> uint8 list option" where
  "Div_uint8 gl params s1 input1_data s2 input2_data output_shape output_data = do {
     _ \<leftarrow> check (sint (quantized_activation_min params) \<le> sint (quantized_activation_max params));
     flat_size \<leftarrow> MatchingFlatSize2 s1 s2 output_shape;
     DivElementwise gl flat_size params input1_data 0 input2_data 0 output_data 0 }"

definition BroadcastDiv4DSlow_uint8 ::
    "gemmlowp \<Rightarrow> 'f ArithmeticParams \<Rightarrow> shape \<Rightarrow> uint8 list \<Rightarrow> shape \<Rightarrow> uint8 list \<Rightarrow> shape \<Rightarrow> uint8 list \<Rightarrow> uint8 list option" where
  "BroadcastDiv4DSlow_uint8 gl params s1 input1_data s2 input2_data output_shape output_data = do {
     _ \<leftarrow> ranks_at_most_4 [s1, s2, output_shape];
     _ \<leftarrow> check (all_offsets_in_range params);
     broadcast_loops (div_uint8 gl params) s1 input1_data s2 input2_data output_shape output_data }"

section \<open>Sub\<close>

definition SubNonBroadcast_float ::
    "('f :: ord \<Rightarrow> 'f \<Rightarrow> 'f) \<Rightarrow> 'f ArithmeticParams \<Rightarrow> shape \<Rightarrow> 'f list \<Rightarrow> shape \<Rightarrow> 'f list \<Rightarrow> shape \<Rightarrow> 'f list \<Rightarrow> 'f list option" where
  "SubNonBroadcast_float fsub params s1 input1_data s2 input2_data output_shape output_data = do {
     flat_size \<leftarrow> MatchingFlatSize2 s1 s2 output_shape;
     elementwise_loop flat_size (\<lambda>a b. Some (activate_float params (fsub a b))) input1_data input2_data output_data }"

definition SubNonBroadcast_int32 ::
    "(int32, 'f :: ord) number_type \<Rightarrow> 'f ArithmeticParams \<Rightarrow> shape \<Rightarrow> int32 list \<Rightarrow> shape \<Rightarrow> int32 list \<Rightarrow> shape \<Rightarrow> int32 list \<Rightarrow> int32 list option" where
  "SubNonBroadcast_int32 T params s1 input1_data s2 input2_data output_shape output_data = do {
     flat_size \<leftarrow> MatchingFlatSize2 s1 s2 output_shape;
     elementwise_loop flat_size (\<lambda>a b. Some (activate_int32 T params (a - b))) input1_data input2_data output_data }"

definition BroadcastSub4DSlow_float ::
    "('f :: ord \<Rightarrow> 'f \<Rightarrow> 'f) \<Rightarrow> 'f ArithmeticParams \<Rightarrow> shape \<Rightarrow> 'f list \<Rightarrow> shape \<Rightarrow> 'f list \<Rightarrow> shape \<Rightarrow> 'f list \<Rightarrow> 'f list option" where
  "BroadcastSub4DSlow_float fsub params s1 input1_data s2 input2_data output_shape output_data =
     broadcast_loops (\<lambda>a b. Some (activate_float params (fsub a b))) s1 input1_data s2 input2_data output_shape output_data"

definition BroadcastSub4DSlow_uint8 ::
    "gemmlowp \<Rightarrow> 'f ArithmeticParams \<Rightarrow> shape \<Rightarrow> uint8 list \<Rightarrow> shape \<Rightarrow> uint8 list \<Rightarrow> shape \<Rightarrow> uint8 list \<Rightarrow> uint8 list option" where
  "BroadcastSub4DSlow_uint8 gl params s1 input1_data s2 input2_data output_shape output_data =
     broadcast_loops (sub_uint8 gl params) s1 input1_data s2 input2_data output_shape output_data"

definition BroadcastSub4DSlow_int32 ::
    "(int32, 'f :: ord) number_type \<Rightarrow> 'f ArithmeticParams \<Rightarrow> shape \<Rightarrow> int32 list \<Rightarrow> shape \<Rightarrow> int32 list \<Rightarrow> shape \<Rightarrow> int32 list \<Rightarrow> int32 list option" where
  "BroadcastSub4DSlow_int32 T params s1 input1_data s2 input2_data output_shape output_data =
     broadcast_loops (\<lambda>a b. Some (activate_int32 T params (a - b))) s1 input1_data s2 input2_data output_shape output_data"

definition BroadcastSub4DSlow_T ::
    "('a, 'f :: ord) number_type \<Rightarrow> 'f ArithmeticParams \<Rightarrow> shape \<Rightarrow> 'a list \<Rightarrow> shape \<Rightarrow> 'a list \<Rightarrow> shape \<Rightarrow> 'a list \<Rightarrow> 'a list option" where
  "BroadcastSub4DSlow_T T params s1 input1_data s2 input2_data output_shape output_data =
     broadcast_loops (\<lambda>a b. Some (activate_int32 T params (t_sub T a b))) s1 input1_data s2 input2_data output_shape output_data"

definition Sub_T ::
    "('a, 'f :: ord) number_type \<Rightarrow> shape \<Rightarrow> 'a list \<Rightarrow> shape \<Rightarrow> 'a list \<Rightarrow> shape \<Rightarrow> 'a list \<Rightarrow> 'a list option" where
  "Sub_T T s1 input1_data s2 input2_data output_shape output_data =
     broadcast_loops (\<lambda>a b. Some (t_sub T a b)) s1 input1_data s2 input2_data output_shape output_data"

definition SubWithActivation_int32 ::
    "(int32, 'f :: ord) number_type \<Rightarrow> 'f ArithmeticParams \<Rightarrow> shape \<Rightarrow> int32 list \<Rightarrow> shape \<Rightarrow> int32 list \<Rightarrow> shape \<Rightarrow> int32 list \<Rightarrow> int32 list option" where
  "SubWithActivation_int32 T params s1 input1_data s2 input2_data output_shape output_data = do {
     flat_size \<leftarrow> MatchingFlatSize2 s1 s2 s2;
     elementwise_loop flat_size (\<lambda>a b. Some (activate_int32 T params (a - b))) input1_data input2_data output_data }"

definition SubWithActivation_float ::
    "('f :: ord \<Rightarrow> 'f \<Rightarrow> 'f) \<Rightarrow> 'f ArithmeticParams \<Rightarrow> shape \<Rightarrow> 'f list \<Rightarrow> shape \<Rightarrow> 'f list \<Rightarrow> shape \<Rightarrow> 'f list \<Rightarrow> 'f list option" where
  "SubWithActivation_float fsub params s1 input1_data s2 input2_data output_shape output_data = do {
     flat_size \<leftarrow> MatchingFlatSize2 s1 s2 s2;
     elementwise_loop flat_size (\<lambda>a b. Some (activate_float params (fsub a b))) input1_data input2_data output_data }"

definition Sub16 ::
    "gemmlowp \<Rightarrow> 'f ArithmeticParams \<Rightarrow> shape \<Rightarrow> int16 list \<Rightarrow> shape \<Rightarrow> int16 list \<Rightarrow> shape \<Rightarrow> int16 list \<Rightarrow> int16 list option" where
  "Sub16 gl params s1 input1_data s2 input2_data output_shape output_data = do {
     flat_size \<leftarrow> MatchingFlatSize2 output_shape s1 s2;
     let amin = ucast (quantized_activation_min params);
     let amax = ucast (quantized_activation_max params);
     _ \<leftarrow> check (input1_shift params = 0 \<or> input2_shift params = 0);
     _ \<leftarrow> check (input1_shift params \<le> 0);
     _ \<leftarrow> check (input2_shift params \<le> 0);
     let not_shift_input = (if input1_shift params = 0 then input1_data else input2_data);
     let shift_input = (if input1_shift params = 0 then input2_data else input1_data);
     let input_right_shift = (if input1_shift params = 0 then - input2_shift params else - input1_shift params);
     if input1_shift params = 0 then
       elementwise_loop flat_size (\<lambda>a b.
         let scaled_input = RoundingDivideByPOT_int16 gl b input_right_shift
         in Some (smin amax (smax amin (SaturatingSub_int16 a scaled_input)))) not_shift_input shift_input output_data
     else
       elementwise_loop flat_size (\<lambda>a b.
         let scaled_input = RoundingDivideByPOT_int16 gl b input_right_shift
         in Some (smin amax (smax amin (SaturatingSub_int16 scaled_input a)))) not_shift_input shift_input output_data }"

section \<open>Add\<close>

definition Add_T ::
    "('a, 'f :: ord) number_type \<Rightarrow> 'f ArithmeticParams \<Rightarrow> shape \<Rightarrow> 'a list \<Rightarrow> shape \<Rightarrow> 'a list \<Rightarrow> shape \<Rightarrow> 'a list \<Rightarrow> 'a list option" where
  "Add_T T params s1 input1_data s2 input2_data output_shape output_data = do {
     flat_size \<leftarrow> MatchingFlatSize2 s1 s2 output_shape;
     elementwise_loop flat_size (\<lambda>a b. Some (activate_int32 T params (t_add T a b))) input1_data input2_data output_data }"

definition Add_float ::
    "('f :: ord \<Rightarrow> 'f \<Rightarrow> 'f) \<Rightarrow> 'f ArithmeticParams \<Rightarrow> shape \<Rightarrow> 'f list \<Rightarrow> shape \<Rightarrow> 'f list \<Rightarrow> shape \<Rightarrow> 'f list \<Rightarrow> 'f list option" where
  "Add_float fadd params s1 input1_data s2 input2_data output_shape output_data = do {
     flat_size \<leftarrow> MatchingFlatSize2 s1 s2 output_shape;
     elementwise_loop flat_size (\<lambda>a b. Some (activate_float params (fadd a b))) input1_data input2_data output_data }"

definition AddElementwise ::
    "gemmlowp \<Rightarrow> int \<Rightarrow> 'f ArithmeticParams \<Rightarrow> uint8 list \<Rightarrow> int \<Rightarrow> uint8 list \<Rightarrow> int \<Rightarrow> uint8 list \<Rightarrow> int \<Rightarrow> uint8 list option" where
  "AddElementwise gl n params input1_data p1 input2_data p2 output_data q = do {
     _ \<leftarrow> check (offset_in_range (input1_offset params) \<and> offset_in_range (input2_offset params));
     elementwise_at (add_uint8 gl params) n input1_data p1 input2_data p2 output_data q }"

text \<open>The first input is one element; its scaled value is computed before the loop.\<close>

definition AddScalarBroadcast ::
    "gemmlowp \<Rightarrow> int \<Rightarrow> 'f ArithmeticParams \<Rightarrow> uint8 \<Rightarrow> uint8 list \<Rightarrow> int \<Rightarrow> uint8 list \<Rightarrow> int \<Rightarrow> uint8 list option" where
  "AddScalarBroadcast gl n params input1_data input2_data p2 output_data q = do {
     _ \<leftarrow> check (offset_in_range (input1_offset params) \<and> offset_in_range (input2_offset params));
     scaled_input1_val \<leftarrow> scaled_input1 gl params input1_data;
     for_range 0 n (\<lambda>i output_data. do {
       b \<leftarrow> rd input2_data (p2 + i);
       scaled_input2_val \<leftarrow> scaled_input2 gl params b;
       wr output_data (q + i) (rescale_uint8 gl params (scaled_input1_val + scaled_input2_val)) }) output_data }"

definition Add_uint8 ::
    "gemmlowp \<Rightarrow> 'f ArithmeticParams \<Rightarrow> shape \<Rightarrow> uint8 list \<Rightarrow> shape \<Rightarrow> uint8 list \<Rightarrow> shape \<Rightarrow> uint8 list \<Rightarrow> uint8 list option" where
  "Add_uint8 gl params s1 input1_data s2 input2_data output_shape output_data = do {
     _ \<leftarrow> check (sint (quantized_activation_min params) \<le> sint (quantized_activation_max params));
     flat_size \<leftarrow> MatchingFlatSize2 s1 s2 output_shape;
     _ \<leftarrow> check (offset_in_range (input1_offset params) \<and> offset_in_range (input2_offset params));
     AddElementwise gl flat_size params input1_data 0 input2_data 0 output_data 0 }"

definition Add_int16 ::
    "gemmlowp \<Rightarrow> 'f ArithmeticParams \<Rightarrow> shape \<Rightarrow> int16 list \<Rightarrow> shape \<Rightarrow> int16 list \<Rightarrow> shape \<Rightarrow> int16 list \<Rightarrow> int16 list option" where
  "Add_int16 gl params s1 input1_data s2 input2_data output_shape output_data = do {
     _ \<leftarrow> check (sint (quantized_activation_min params) \<le> sint (quantized_activation_max params));
     flat_size \<leftarrow> MatchingFlatSize2 output_shape s1 s2;
     let amin = ucast (quantized_activation_min params);
     let amax = ucast (quantized_activation_max params);
     _ \<leftarrow> check (input1_shift params = 0 \<or> input2_shift params = 0);
     _ \<leftarrow> check (input1_shift params \<le> 0);
     _ \<leftarrow> check (input2_shift params \<le> 0);
     let not_shift_input = (if input1_shift params = 0 then input1_data else input2_data);
     let shift_input = (if input1_shift params = 0 then input2_data else input1_data);
     let input_right_shift = (if input1_shift params = 0 then - input2_shift params else - input1_shift params);
     elementwise_loop flat_size (\<lambda>a b.
       let scaled_input = RoundingDivideByPOT_int16 gl b input_right_shift
       in Some (smin amax (smax amin (SaturatingAdd_int16 gl scaled_input a)))) not_shift_input shift_input output_data }"

definition BroadcastAdd4DSlow_float ::
    "('f :: ord \<Rightarrow> 'f \<Rightarrow> 'f) \<Rightarrow> 'f ArithmeticParams \<Rightarrow> shape \<Rightarrow> 'f list \<Rightarrow> shape \<Rightarrow> 'f list \<Rightarrow> shape \<Rightarrow> 'f list \<Rightarrow> 'f list option" where
  "BroadcastAdd4DSlow_float fadd params s1 input1_data s2 input2_data output_shape output_data =
     broadcast_loops (\<lambda>a b. Some (activate_float params (fadd a b))) s1 input1_data s2 input2_data output_shape output_data"

definition BroadcastAdd4DSlow_int32 ::
    "(int32, 'f :: ord) number_type \<Rightarrow> 'f ArithmeticParams \<Rightarrow> shape \<Rightarrow> int32 list \<Rightarrow> shape \<Rightarrow> int32 list \<Rightarrow> shape \<Rightarrow> int32 list \<Rightarrow> int32 list option" where
  "BroadcastAdd4DSlow_int32 T params s1 input1_data s2 input2_data output_shape output_data =
     broadcast_loops (\<lambda>a b. Some (activate_int32 T params (a + b))) s1 input1_data s2 input2_data output_shape output_data"

definition BroadcastAdd4DSlow_uint8 ::
    "gemmlowp \<Rightarrow> 'f ArithmeticParams \<Rightarrow> shape \<Rightarrow> uint8 list \<Rightarrow> shape \<Rightarrow> uint8 list \<Rightarrow> shape \<Rightarrow> uint8 list \<Rightarrow> uint8 list option" where
  "BroadcastAdd4DSlow_uint8 gl params s1 input1_data s2 input2_data output_shape output_data =
     broadcast_loops (add_uint8 gl params) s1 input1_data s2 input2_data output_shape output_data"

section \<open>Comparisons\<close>

record ComparisonParams =
  cp_left_shift :: int
  cp_input1_offset :: int32
  cp_input1_multiplier :: int32
  cp_input1_shift :: int
  cp_input2_offset :: int32
  cp_input2_multiplier :: int32
  cp_input2_shift :: int
  cp_is_broadcast :: bool

definition EqualFn :: "'a :: ord \<Rightarrow> 'a \<Rightarrow> bool" where "EqualFn lhs rhs = (lhs = rhs)"
definition NotEqualFn :: "'a :: ord \<Rightarrow> 'a \<Rightarrow> bool" where "NotEqualFn lhs rhs = (lhs \<noteq> rhs)"
definition GreaterFn :: "'a :: ord \<Rightarrow> 'a \<Rightarrow> bool" where "GreaterFn lhs rhs = (lhs > rhs)"
definition GreaterEqualFn :: "'a :: ord \<Rightarrow> 'a \<Rightarrow> bool" where "GreaterEqualFn lhs rhs = (lhs \<ge> rhs)"
definition LessFn :: "'a :: ord \<Rightarrow> 'a \<Rightarrow> bool" where "LessFn lhs rhs = (lhs < rhs)"
definition LessEqualFn :: "'a :: ord \<Rightarrow> 'a \<Rightarrow> bool" where "LessEqualFn lhs rhs = (lhs \<le> rhs)"

definition ComparisonImpl ::
    "('a \<Rightarrow> 'a \<Rightarrow> bool) \<Rightarrow> ComparisonParams \<Rightarrow> shape \<Rightarrow> 'a list \<Rightarrow> shape \<Rightarrow> 'a list \<Rightarrow> shape \<Rightarrow> bool list \<Rightarrow> bool list option" where
  "ComparisonImpl F op_params s1 input1_data s2 input2_data output_shape output_data = do {
     flatsize \<leftarrow> MatchingFlatSize2 s1 s2 output_shape;
     elementwise_loop flatsize (\<lambda>a b. Some (F a b)) input1_data input2_data output_data }"

definition Comparison ::
    "('f \<Rightarrow> 'f \<Rightarrow> bool) \<Rightarrow> ComparisonParams \<Rightarrow> shape \<Rightarrow> 'f list \<Rightarrow> shape \<Rightarrow> 'f list \<Rightarrow> shape \<Rightarrow> bool list \<Rightarrow> bool list option" where
  "Comparison F op_params s1 input1_data s2 input2_data output_shape output_data =
     ComparisonImpl F op_params s1 input1_data s2 input2_data output_shape output_data"

text \<open>
  One element of a scaled comparison.  \<open>T\<close> is an integer type; \<open>to_int32\<close> is its promotion to \<open>int32\<close>.  The
  comparison of \<open>int32\<close> values is signed.
\<close>

definition compare_scaled ::
    "gemmlowp \<Rightarrow> ('a \<Rightarrow> int32) \<Rightarrow> (int \<Rightarrow> int \<Rightarrow> bool) \<Rightarrow> ComparisonParams \<Rightarrow> 'a \<Rightarrow> 'a \<Rightarrow> bool option" where
  "compare_scaled gl to_int32 F op_params a b = do {
     let input1_val = cp_input1_offset op_params + to_int32 a;
     let input2_val = cp_input2_offset op_params + to_int32 b;
     shifted_input1_val \<leftarrow> scale_up input1_val (cp_left_shift op_params);
     shifted_input2_val \<leftarrow> scale_up input2_val (cp_left_shift op_params);
     let scaled_input1_val = MultiplyByQuantizedMultiplierSmallerThanOneExp gl shifted_input1_val
           (cp_input1_multiplier op_params) (cp_input1_shift op_params);
     let scaled_input2_val = MultiplyByQuantizedMultiplierSmallerThanOneExp gl shifted_input2_val
           (cp_input2_multiplier op_params) (cp_input2_shift op_params);
     Some (F (sint scaled_input1_val) (sint scaled_input2_val)) }"

definition ComparisonWithScaling ::
    "gemmlowp \<Rightarrow> ('a \<Rightarrow> int32) \<Rightarrow> (int \<Rightarrow> int \<Rightarrow> bool) \<Rightarrow> ComparisonParams \<Rightarrow> shape \<Rightarrow> 'a list \<Rightarrow> shape \<Rightarrow> 'a list \<Rightarrow>
     shape \<Rightarrow> bool list \<Rightarrow> bool list option" where
  "ComparisonWithScaling gl to_int32 F op_params s1 input1_data s2 input2_data output_shape output_data = do {
     flatsize \<leftarrow> MatchingFlatSize2 s1 s2 output_shape;
     elementwise_loop flatsize (compare_scaled gl to_int32 F op_params) input1_data input2_data output_data }"

definition BroadcastComparison4DSlowImpl ::
    "('a \<Rightarrow> 'a \<Rightarrow> bool) \<Rightarrow> ComparisonParams \<Rightarrow> shape \<Rightarrow> 'a list \<Rightarrow> shape \<Rightarrow> 'a list \<Rightarrow> shape \<Rightarrow> bool list \<Rightarrow> bool list option" where
  "BroadcastComparison4DSlowImpl F op_params s1 input1_data s2 input2_data output_shape output_data = do {
     _ \<leftarrow> ranks_at_most_4 [s1, s2, output_shape];
     broadcast_loops (\<lambda>a b. Some (F a b)) s1 input1_data s2 input2_data output_shape output_data }"

definition BroadcastComparison4DSlow ::
    "('f \<Rightarrow> 'f \<Rightarrow> bool) \<Rightarrow> ComparisonParams \<Rightarrow> shape \<Rightarrow> 'f list \<Rightarrow> shape \<Rightarrow> 'f list \<Rightarrow> shape \<Rightarrow> bool list \<Rightarrow> bool list option" where
  "BroadcastComparison4DSlow F op_params s1 input1_data s2 input2_data output_shape output_data =
     BroadcastComparison4DSlowImpl F op_params s1 input1_data s2 input2_data output_shape output_data"

definition BroadcastComparison4DSlowWithScaling ::
    "gemmlowp \<Rightarrow> ('a \<Rightarrow> int32) \<Rightarrow> (int \<Rightarrow> int \<Rightarrow> bool) \<Rightarrow> ComparisonParams \<Rightarrow> shape \<Rightarrow> 'a list \<Rightarrow> shape \<Rightarrow> 'a list \<Rightarrow>
     shape \<Rightarrow> bool list \<Rightarrow> bool list option" where
  "BroadcastComparison4DSlowWithScaling gl to_int32 F op_params s1 input1_data s2 input2_data output_shape output_data = do {
     _ \<leftarrow> ranks_at_most_4 [s1, s2, output_shape];
     broadcast_loops (compare_scaled gl to_int32 F op_params) s1 input1_data s2 input2_data output_shape output_data }"

text \<open>
  The macro \<open>TFLITE_COMPARISON_OP\<close> instantiates the kernels above with each of the six functions; the
  functions it defines for a name are these, at the function of that name.
\<close>

datatype comparison_op = OpEqual | OpNotEqual | OpGreater | OpGreaterEqual | OpLess | OpLessEqual

fun comparison_fn :: "comparison_op \<Rightarrow> 'a :: ord \<Rightarrow> 'a \<Rightarrow> bool" where
  "comparison_fn OpEqual = EqualFn"
| "comparison_fn OpNotEqual = NotEqualFn"
| "comparison_fn OpGreater = GreaterFn"
| "comparison_fn OpGreaterEqual = GreaterEqualFn"
| "comparison_fn OpLess = LessFn"
| "comparison_fn OpLessEqual = LessEqualFn"

definition op_float where "op_float name = Comparison (comparison_fn name)"
definition op_NoScaling where "op_NoScaling name = ComparisonImpl (comparison_fn name)"
definition op_WithScaling where "op_WithScaling gl to_int32 name = ComparisonWithScaling gl to_int32 (comparison_fn name)"
definition Broadcast4DSlow_NoScaling where
  "Broadcast4DSlow_NoScaling name = BroadcastComparison4DSlowImpl (comparison_fn name)"
definition Broadcast4DSlow_float where "Broadcast4DSlow_float name = BroadcastComparison4DSlow (comparison_fn name)"
definition Broadcast4DSlow_WithScaling where
  "Broadcast4DSlow_WithScaling gl to_int32 name = BroadcastComparison4DSlowWithScaling gl to_int32 (comparison_fn name)"

section \<open>Broadcasting and elementwise kernels\<close>

lemma elementwise_at_0: "elementwise_at f n x1 0 x2 0 out 0 = elementwise_loop n f x1 x2 out"
  by (simp add: elementwise_at_def elementwise_loop_def)

lemma MatchingFlatSize2_refl: "MatchingFlatSize2 s s s = Some (FlatSize s)"
  by (simp add: MatchingFlatSize2_def dims_match_eq MatchingFlatSize_eq)

lemmas kernel_defs = BroadcastBinaryFunction4DSlow_def BinaryFunction_def BroadcastMul4DSlow_T_def Mul_T_def
  BroadcastDiv4DSlow_T_def Div_T_def BroadcastPow4DSlow_def Pow_def
  BroadcastComparison4DSlowImpl_def ComparisonImpl_def BroadcastComparison4DSlowWithScaling_def ComparisonWithScaling_def
  BroadcastMul4DSlow_uint8_def Mul_uint8_def MulElementwise_def BroadcastAdd4DSlow_uint8_def Add_uint8_def AddElementwise_def
  BroadcastDiv4DSlow_uint8_def Div_uint8_def DivElementwise_def

text \<open>
  C31: The slow broadcasting kernels are the elementwise kernels on broadcast inputs.  For shapes of
  at most four dimensions that are compatible, each gives, failures included, what its elementwise
  counterpart gives on the inputs repeated, as in numpy, to the shape of the output.
\<close>

theorem broadcast_kernels_agree:
  fixes u1 u2 :: "uint8 list" and params :: "'f :: ord ArithmeticParams"
  assumes "ExtendedShape 4 s1 = Some e1" "ExtendedShape 4 s2 = Some e2" "ExtendedShape 4 os = Some whole"
    and "broadcastable e1 e2 whole" and "\<forall>d\<in>set whole. 0 \<le> d"
    and "int (length x1) = FlatSize e1" "int (length x2) = FlatSize e2"
    and "int (length u1) = FlatSize e1" "int (length u2) = FlatSize e2"
    and "sint (quantized_activation_min params) \<le> sint (quantized_activation_max params)"
    and "all_offsets_in_range params"
  shows "BroadcastBinaryFunction4DSlow s1 x1 s2 x2 os out f =
       BinaryFunction whole (broadcast_to e1 whole x1) whole (broadcast_to e2 whole x2) whole out f \<and>
     BroadcastMul4DSlow_T T params s1 x1 s2 x2 os outT =
       Mul_T T params whole (broadcast_to e1 whole x1) whole (broadcast_to e2 whole x2) whole outT \<and>
     BroadcastDiv4DSlow_T T params s1 x1 s2 x2 os outT =
       Div_T T params whole (broadcast_to e1 whole x1) whole (broadcast_to e2 whole x2) whole outT \<and>
     BroadcastComparison4DSlowImpl F cp s1 x1 s2 x2 os outB =
       ComparisonImpl F cp whole (broadcast_to e1 whole x1) whole (broadcast_to e2 whole x2) whole outB \<and>
     BroadcastComparison4DSlowWithScaling gl to_int32 G cp s1 x1 s2 x2 os outB =
       ComparisonWithScaling gl to_int32 G cp whole (broadcast_to e1 whole x1) whole (broadcast_to e2 whole x2) whole outB \<and>
     BroadcastMul4DSlow_uint8 gl params s1 u1 s2 u2 os outU =
       Mul_uint8 gl params whole (broadcast_to e1 whole u1) whole (broadcast_to e2 whole u2) whole outU \<and>
     BroadcastAdd4DSlow_uint8 gl params s1 u1 s2 u2 os outU =
       Add_uint8 gl params whole (broadcast_to e1 whole u1) whole (broadcast_to e2 whole u2) whole outU \<and>
     BroadcastDiv4DSlow_uint8 gl params s1 u1 s2 u2 os outU =
       Div_uint8 gl params whole (broadcast_to e1 whole u1) whole (broadcast_to e2 whole u2) whole outU"
proof -
  have "length s1 \<le> 4" "length s2 \<le> 4" "length os \<le> 4" using assms(1-3) ExtendedShape4_len by blast+
  then have "ranks_at_most_4 [s1, s2, os] = Some ()" by (simp add: ranks_at_most_4_def)
  then show ?thesis
    using assms(10,11)
    by (simp add: kernel_defs MatchingFlatSize2_refl elementwise_at_0 all_offsets_in_range_def
        broadcast_loops_eq [OF assms(1-7)] broadcast_loops_eq [OF assms(1-5,8,9)])
qed

definition example_gemmlowp :: gemmlowp where
  "example_gemmlowp = \<lparr>SaturatingRoundingDoublingHighMul = (\<lambda>a b. a), RoundingDivideByPOT = (\<lambda>a k. a),
     RoundingDivideByPOT_int16 = (\<lambda>a k. a), one_over_one_plus_x_for_x_in_0_1 = (\<lambda>x. x), F0_times = (*),
     SaturatingAdd_int16 = (+)\<rparr>"

definition example_params :: "int ArithmeticParams" where
  "example_params = \<lparr>broadcast_category = kNone, input1_offset = 0, input2_offset = 0, output_offset = 0,
     output_multiplier = 1, output_shift = 0, left_shift = 0, input1_multiplier = 1, input1_shift = 0,
     input2_multiplier = 1, input2_shift = 0, quantized_activation_min = 0, quantized_activation_max = 255,
     float_activation_min = 0, float_activation_max = 255, broadcast_shape = replicate 5 0\<rparr>"

lemma broadcast_kernels_agree_witness:
  "let s1 = [2, 1]; s2 = [3]; e1 = [1, 1, 2, 1]; e2 = [1, 1, 1, 3]; whole = [1, 1, 2, 3] in
   BroadcastMul4DSlow_uint8 example_gemmlowp example_params s1 [10, 20] s2 [1, 2, 3] [2, 3] (replicate 6 0) =
     Mul_uint8 example_gemmlowp example_params whole (broadcast_to e1 whole [10, 20]) whole (broadcast_to e2 whole [1, 2, 3]) whole (replicate 6 0)"
proof -
  have e: "ExtendedShape 4 [2, 1] = Some [1, 1, 2, 1]" "ExtendedShape 4 [3] = Some [1, 1, 1, 3]" "ExtendedShape 4 [2, 3] = Some [1, 1, 2, 3]"
    by (simp_all add: ExtendedShape_def numeral_eq_Suc)
  have b: "broadcastable [1, 1, 2, 1] [1, 1, 1, 3] [1, 1, 2, 3]"
    by (simp add: broadcastable_def compatible_dims_def joint_extent_def)
  have n: "\<forall>d\<in>set [1, 1, 2, 3 :: int]. 0 \<le> d" by simp
  have l: "int (length [10, 20 :: uint8]) = FlatSize [1, 1, 2, 1]" "int (length [1, 2, 3 :: uint8]) = FlatSize [1, 1, 1, 3]"
    by (simp_all add: FlatSize_def)
  have p: "sint (quantized_activation_min example_params) \<le> sint (quantized_activation_max example_params)"
    "all_offsets_in_range example_params"
    by (simp_all add: example_params_def all_offsets_in_range_def offset_in_range_def)
  from broadcast_kernels_agree [OF e b n l l p] show ?thesis unfolding Let_def by blast
qed

end
