(* ===== verification/Lite_Fivefold.thy ===== *)
theory Lite_Fivefold
  imports Lite_Arith
begin

text \<open>
  \<open>process_broadcast_shapes.h\<close>, which coalesces the dimensions of two shapes into five blocks, and the
  kernels that loop over them: \<open>BroadcastMulFivefold\<close> and \<open>BroadcastAddFivefold\<close>.  They compute what the
  slow kernels compute.
\<close>

section \<open>Coalescing the dimensions\<close>

text \<open>The loop that looks for the last dimension in which the shapes differ, from dimension \<open>n - 1\<close> down.\<close>

fun broadcast_category_of :: "shape \<Rightarrow> shape \<Rightarrow> nat \<Rightarrow> BroadcastableOpCategory" where
  "broadcast_category_of s0 s1 0 = kGenericBroadcast"
| "broadcast_category_of s0 s1 (Suc i) =
     (if s0 ! i = s1 ! i then broadcast_category_of s0 s1 i
      else if s0 ! i = 1 then kFirstInputBroadcastsFast
      else if s1 ! i = 1 then kSecondInputBroadcastsFast
      else kGenericBroadcast)"

text \<open>
  \<open>while (i >= 0 && c(i)) { *block *= d(i); --i; }\<close>, where the argument is \<open>i + 1\<close>; it returns the
  product and the new \<open>i + 1\<close>.
\<close>

fun absorb :: "(nat \<Rightarrow> bool) \<Rightarrow> (nat \<Rightarrow> int) \<Rightarrow> nat \<Rightarrow> int \<Rightarrow> int \<times> nat" where
  "absorb c d 0 block = (block, 0)"
| "absorb c d (Suc i) block = (if c i then absorb c d i (block * d i) else (block, Suc i))"

definition five_blocks :: "shape \<Rightarrow> shape \<Rightarrow> nat \<Rightarrow> int list \<times> nat" where
  "five_blocks a b dims_count =
     (let (y4, i) = absorb (\<lambda>i. a ! i = b ! i) (\<lambda>i. b ! i) dims_count 1;
          (y3, i) = absorb (\<lambda>i. a ! i = 1) (\<lambda>i. b ! i) i 1;
          (y2, i) = absorb (\<lambda>i. a ! i = b ! i) (\<lambda>i. a ! i) i 1;
          (y1, i) = absorb (\<lambda>i. b ! i = 1) (\<lambda>i. a ! i) i 1;
          (y0, i) = absorb (\<lambda>i. a ! i = b ! i) (\<lambda>i. b ! i) i 1
      in ([y0, y1, y2, y3, y4], i))"

definition ProcessBroadcastShapes ::
    "shape \<Rightarrow> shape \<Rightarrow> 'f ArithmeticParams \<Rightarrow> ('f ArithmeticParams \<times> bool) option" where
  "ProcessBroadcastShapes shape0 shape1 params = do {
     let dims_count = max (length shape0) (length shape1);
     let params = params\<lparr>broadcast_category := kGenericBroadcast\<rparr>;
     extended_shape0 \<leftarrow> ExtendedShape dims_count shape0;
     extended_shape1 \<leftarrow> ExtendedShape dims_count shape1;
     if extended_shape0 = extended_shape1 then
       Some (params\<lparr>broadcast_category := kNonBroadcast\<rparr>, False)
     else do {
       let category = broadcast_category_of extended_shape0 extended_shape1 dims_count;
       let params = params\<lparr>broadcast_category := category\<rparr>;
       if category \<noteq> kFirstInputBroadcastsFast \<and> category \<noteq> kSecondInputBroadcastsFast then Some (params, False)
       else do {
         let swap_inputs = (category = kSecondInputBroadcastsFast);
         let shape_a = (if swap_inputs then extended_shape1 else extended_shape0);
         let shape_b = (if swap_inputs then extended_shape0 else extended_shape1);
         let (blocks, i) = five_blocks shape_a shape_b dims_count;
         let params = params\<lparr>broadcast_shape := blocks\<rparr>;
         Some (if i > 0 then params\<lparr>broadcast_category := kGenericBroadcast\<rparr> else params, True) } } }"

section \<open>The fivefold kernels\<close>

text \<open>
  The pointers are offsets into the buffers: the state of the loops is the output buffer, the
  output pointer, the first input pointer and the second input pointer, which is \<open>None\<close> as long as
  it is uninitialised; reading it then is an error.  \<open>fivefold_loops\<close> is the three outer loops, shared
  by the kernels; its argument is the body of the loop over \<open>i2\<close>.
\<close>

type_synonym 'c pointers = "'c list \<times> int \<times> int \<times> int"

definition fivefold_loops :: "int \<Rightarrow> int \<Rightarrow> int \<Rightarrow> ('c pointers \<Rightarrow> 'c pointers option) \<Rightarrow> 'c list \<Rightarrow> 'c list option" where
  "fivefold_loops y0 y1 y2 body output_data = do {
     (out, q, p1, reset) \<leftarrow> for_range 0 y0 (\<lambda>i0 (out, q, p1, reset). do {
       (out, q, p1, p2) \<leftarrow> for_range 0 y1 (\<lambda>i1 (out, q, p1, p2). do {
         (out, q, p1, p2) \<leftarrow> for_range 0 y2 (\<lambda>i2. body) (out, q, p1, reset);
         Some (out, q, p1, Some p2) }) (out, q, p1, None);
       reset \<leftarrow> p2;
       Some (out, q, p1, reset) }) (output_data, 0, 0, 0);
     Some out }"

definition BroadcastMulFivefold ::
    "gemmlowp \<Rightarrow> 'f ArithmeticParams \<Rightarrow> shape \<Rightarrow> uint8 list \<Rightarrow> shape \<Rightarrow> uint8 list \<Rightarrow> shape \<Rightarrow> uint8 list \<Rightarrow> uint8 list option" where
  "BroadcastMulFivefold gl unswitched_params unswitched_input1_shape unswitched_input1_data
      unswitched_input2_shape unswitched_input2_data output_shape output_data = do {
     let switched_params = unswitched_params
           \<lparr>input1_offset := input2_offset unswitched_params, input2_offset := input1_offset unswitched_params\<rparr>;
     let use_unswitched = (broadcast_category unswitched_params = kFirstInputBroadcastsFast);
     let params = (if use_unswitched then unswitched_params else switched_params);
     let input1_data = (if use_unswitched then unswitched_input1_data else unswitched_input2_data);
     let input2_data = (if use_unswitched then unswitched_input2_data else unswitched_input1_data);
     y0 \<leftarrow> rd (broadcast_shape params) 0; y1 \<leftarrow> rd (broadcast_shape params) 1; y2 \<leftarrow> rd (broadcast_shape params) 2;
     y3 \<leftarrow> rd (broadcast_shape params) 3; y4 \<leftarrow> rd (broadcast_shape params) 4;
     fivefold_loops y0 y1 y2 (\<lambda>(out, q, p1, p2). do {
       (out, q, p2) \<leftarrow> for_range 0 y3 (\<lambda>i3 (out, q, p2). do {
         out \<leftarrow> MulElementwise gl y4 params input1_data p1 input2_data p2 out q;
         Some (out, q + y4, p2 + y4) }) (out, q, p2);
       Some (out, q, p1 + y4, p2) }) output_data }"

definition BroadcastAddFivefold ::
    "gemmlowp \<Rightarrow> 'f ArithmeticParams \<Rightarrow> shape \<Rightarrow> uint8 list \<Rightarrow> shape \<Rightarrow> uint8 list \<Rightarrow> shape \<Rightarrow> uint8 list \<Rightarrow> uint8 list option" where
  "BroadcastAddFivefold gl unswitched_params unswitched_input1_shape unswitched_input1_data
      unswitched_input2_shape unswitched_input2_data output_shape output_data = do {
     let switched_params = unswitched_params
           \<lparr>input1_offset := input2_offset unswitched_params,
            input1_multiplier := input2_multiplier unswitched_params,
            input1_shift := input2_shift unswitched_params,
            input2_offset := input1_offset unswitched_params,
            input2_multiplier := input1_multiplier unswitched_params,
            input2_shift := input1_shift unswitched_params\<rparr>;
     let use_unswitched = (broadcast_category unswitched_params = kFirstInputBroadcastsFast);
     let params = (if use_unswitched then unswitched_params else switched_params);
     let input1_data = (if use_unswitched then unswitched_input1_data else unswitched_input2_data);
     let input2_data = (if use_unswitched then unswitched_input2_data else unswitched_input1_data);
     y0 \<leftarrow> rd (broadcast_shape params) 0; y1 \<leftarrow> rd (broadcast_shape params) 1; y2 \<leftarrow> rd (broadcast_shape params) 2;
     y3 \<leftarrow> rd (broadcast_shape params) 3; y4 \<leftarrow> rd (broadcast_shape params) 4;
     if y4 > 1 then
       fivefold_loops y0 y1 y2 (\<lambda>(out, q, p1, p2). do {
         (out, q, p2) \<leftarrow> for_range 0 y3 (\<lambda>i3 (out, q, p2). do {
           out \<leftarrow> AddElementwise gl y4 params input1_data p1 input2_data p2 out q;
           Some (out, q + y4, p2 + y4) }) (out, q, p2);
         Some (out, q, p1 + y4, p2) }) output_data
     else
       fivefold_loops y0 y1 y2 (\<lambda>(out, q, p1, p2). do {
         v \<leftarrow> rd input1_data p1;
         out \<leftarrow> AddScalarBroadcast gl y3 params v input2_data p2 out q;
         Some (out, q + y3, p1 + 1, p2 + y3) }) output_data }"

section \<open>The five blocks\<close>

definition segment :: "'a list \<Rightarrow> nat \<Rightarrow> nat \<Rightarrow> 'a list" where
  "segment xs m n = drop m (take n xs)"

lemma segment_split: "m \<le> n \<Longrightarrow> take n xs = take m xs @ segment xs m n"
  by (metis append_take_drop_id min.absorb1 segment_def take_take)

lemma length_segment_of [simp]: "n \<le> length xs \<Longrightarrow> length (segment xs m n) = n - m"
  by (simp add: segment_def)

lemma nth_segment_of: "n \<le> length xs \<Longrightarrow> k < n - m \<Longrightarrow> segment xs m n ! k = xs ! (m + k)"
  by (simp add: segment_def)

lemma segment_step: "n < length xs \<Longrightarrow> m \<le> n \<Longrightarrow> segment xs m (Suc n) = segment xs m n @ [xs ! n]"
  by (simp add: segment_def take_Suc_conv_app_nth)

lemma absorb_spec:
  "absorb c (\<lambda>i. xs ! i) n block = (p, m) \<Longrightarrow> n \<le> length xs \<Longrightarrow>
   m \<le> n \<and> (\<forall>k. m \<le> k \<and> k < n \<longrightarrow> c k) \<and> p = block * prod_list (segment xs m n)"
proof (induction n arbitrary: block)
  case 0
  then show ?case by (simp add: segment_def)
next
  case (Suc n)
  show ?case
  proof (cases "c n")
    case True
    with Suc.prems have "absorb c (\<lambda>i. xs ! i) n (block * xs ! n) = (p, m)" by simp
    from Suc.IH [OF this] Suc.prems(2) True show ?thesis
      by (auto simp: segment_step less_Suc_eq)
  next
    case False
    with Suc.prems show ?thesis by (simp add: segment_def) (auto simp: drop_take)
  qed
qed

lemma segment_eq_replicate:
  "n \<le> length xs \<Longrightarrow> \<forall>k. m \<le> k \<and> k < n \<longrightarrow> xs ! k = v \<Longrightarrow> segment xs m n = replicate (n - m) v"
  by (intro nth_equalityI) (simp_all add: nth_segment_of)

lemma segment_cong:
  "n \<le> length xs \<Longrightarrow> n \<le> length ys \<Longrightarrow> \<forall>k. m \<le> k \<and> k < n \<longrightarrow> xs ! k = ys ! k \<Longrightarrow> segment xs m n = segment ys m n"
  by (intro nth_equalityI) (simp_all add: nth_segment_of)

text \<open>The two shapes in five blocks: the first is one in the fourth block, the second in the second.\<close>

definition five_split :: "shape \<Rightarrow> shape \<Rightarrow> shape \<Rightarrow> shape \<Rightarrow> shape \<Rightarrow> shape \<Rightarrow> shape \<Rightarrow> bool" where
  "five_split a b A0 A1 A2 B3 A4 \<longleftrightarrow>
     a = A0 @ A1 @ A2 @ replicate (length B3) 1 @ A4 \<and> b = A0 @ replicate (length A1) 1 @ A2 @ B3 @ A4"

lemma five_blocks_split:
  assumes fb: "five_blocks a b n = (ys, 0)" and n: "length a = n" "length b = n"
  shows "\<exists>A0 A1 A2 B3 A4. five_split a b A0 A1 A2 B3 A4 \<and>
     ys = [prod_list A0, prod_list A1, prod_list A2, prod_list B3, prod_list A4]"
proof -
  obtain y4 m4 where f4: "absorb (\<lambda>i. a ! i = b ! i) (\<lambda>i. b ! i) n 1 = (y4, m4)" by fastforce
  obtain y3 m3 where f3: "absorb (\<lambda>i. a ! i = 1) (\<lambda>i. b ! i) m4 1 = (y3, m3)" by fastforce
  obtain y2 m2 where f2: "absorb (\<lambda>i. a ! i = b ! i) (\<lambda>i. a ! i) m3 1 = (y2, m2)" by fastforce
  obtain y1 m1 where f1: "absorb (\<lambda>i. b ! i = 1) (\<lambda>i. a ! i) m2 1 = (y1, m1)" by fastforce
  obtain y0 m0 where f0: "absorb (\<lambda>i. a ! i = b ! i) (\<lambda>i. b ! i) m1 1 = (y0, m0)" by fastforce
  have ys: "ys = [y0, y1, y2, y3, y4]" "m0 = 0"
    using fb by (simp_all add: five_blocks_def f4 f3 f2 f1 f0)
  note s4 = absorb_spec [OF f4]
  have m4: "m4 \<le> n" using s4 n by simp
  note s3 = absorb_spec [OF f3]
  have m3: "m3 \<le> m4" using s3 n m4 by simp
  note s2 = absorb_spec [OF f2]
  have m2: "m2 \<le> m3" using s2 n m4 m3 by simp
  note s1 = absorb_spec [OF f1]
  have m1: "m1 \<le> m2" using s1 n m4 m3 m2 by simp
  note s0 = absorb_spec [OF f0]
  have le: "m4 \<le> length a" "m4 \<le> length b" "m3 \<le> length a" "m3 \<le> length b" "m2 \<le> length a" "m2 \<le> length b"
    "m1 \<le> length a" "m1 \<le> length b" using n m4 m3 m2 m1 by linarith+
  have cut: "xs = segment xs 0 m1 @ segment xs m1 m2 @ segment xs m2 m3 @ segment xs m3 m4 @ segment xs m4 n" if "length xs = n" for xs :: shape
    using segment_split [OF m4, of xs] segment_split [OF m3, of xs] segment_split [OF m2, of xs] segment_split [OF m1, of xs]
      segment_split [of 0 m1 xs] that by simp
  have a4: "segment a m4 n = segment b m4 n" using s4 n by (intro segment_cong) auto
  have a3: "segment a m3 m4 = replicate (m4 - m3) 1" using s3 le by (intro segment_eq_replicate) auto
  have a2: "segment b m2 m3 = segment a m2 m3" using s2 le by (intro segment_cong) auto
  have b1: "segment b m1 m2 = replicate (m2 - m1) 1" using s1 le by (intro segment_eq_replicate) auto
  have a0: "segment b 0 m1 = segment a 0 m1" using s0 le ys(2) by (intro segment_cong) auto
  have "five_split a b (segment a 0 m1) (segment a m1 m2) (segment a m2 m3) (segment b m3 m4) (segment a m4 n)"
    unfolding five_split_def using cut [OF n(1)] cut [OF n(2)] a4 a3 a2 b1 a0 le by simp
  moreover have "ys = [prod_list (segment a 0 m1), prod_list (segment a m1 m2), prod_list (segment a m2 m3),
      prod_list (segment b m3 m4), prod_list (segment a m4 n)]"
    using s4 s3 s2 s1 s0 le n ys a4 a0 by simp
  ultimately show ?thesis by blast
qed


section \<open>Where the slow kernel reads\<close>

lemma valid_index_append:
  "length is = length ds \<Longrightarrow> valid_index (ds @ es) (is @ js) \<longleftrightarrow> valid_index ds is \<and> valid_index es js"
proof (induction ds arbitrary: "is")
  case (Cons d ds)
  then show ?case by (cases "is") auto
qed simp

lemma broadcast_index_append:
  "length is = length ds \<Longrightarrow> broadcast_index (ds @ es) (is @ js) = broadcast_index ds is @ broadcast_index es js"
  by (simp add: broadcast_index_def)

lemma broadcast_index_id: "valid_index ds is \<Longrightarrow> broadcast_index ds is = is"
  by (induction ds "is" rule: valid_index.induct) (auto simp: broadcast_index_def)

lemma broadcast_index_ones: "length is = k \<Longrightarrow> broadcast_index (replicate k 1) is = replicate k 0"
  by (rule nth_equalityI) (auto simp: broadcast_index_def)

lemma linear_ones: "linear (replicate k 1) (replicate k 0) = 0"
proof (induction k)
  case (Suc k)
  then show ?case using linear_append [of "[0]" "[1]" "replicate k 0" "replicate k 1"] by (simp add: linear_def)
qed (simp add: linear_def)

lemma prod_list_unit: "prod_list (replicate k (1 :: int)) = 1"
  by (induction k) simp_all

lemma length_broadcast_index [simp]: "length (broadcast_index ds is) = min (length ds) (length is)"
  by (simp add: broadcast_index_def)

lemma five_addresses:
  assumes split: "five_split a b A0 A1 A2 B3 A4" and whole: "whole = A0 @ A1 @ A2 @ B3 @ A4"
    and pos: "\<forall>d\<in>set whole. 0 < d"
    and r: "0 \<le> i0" "i0 < prod_list A0" "0 \<le> i1" "i1 < prod_list A1" "0 \<le> i2" "i2 < prod_list A2"
      "0 \<le> i3" "i3 < prod_list B3" "0 \<le> i4" "i4 < prod_list A4"
  shows "\<exists>index. valid_index whole index \<and>
     linear whole index = i0 * (prod_list A1 * (prod_list A2 * (prod_list B3 * prod_list A4))) +
       (i1 * (prod_list A2 * (prod_list B3 * prod_list A4)) + (i2 * (prod_list B3 * prod_list A4) + (i3 * prod_list A4 + i4))) \<and>
     linear a (broadcast_index a index) = ((i0 * prod_list A1 + i1) * prod_list A2 + i2) * prod_list A4 + i4 \<and>
     linear b (broadcast_index b index) = ((i0 * prod_list A2 + i2) * prod_list B3 + i3) * prod_list A4 + i4"
proof -
  have p: "\<forall>d\<in>set A0. 0 < d" "\<forall>d\<in>set A1. 0 < d" "\<forall>d\<in>set A2. 0 < d" "\<forall>d\<in>set B3. 0 < d" "\<forall>d\<in>set A4. 0 < d"
    using pos by (auto simp: whole)
  define I0 I1 I2 I3 I4 where I: "I0 = unravel A0 i0" "I1 = unravel A1 i1" "I2 = unravel A2 i2" "I3 = unravel B3 i3" "I4 = unravel A4 i4"
  have v: "valid_index A0 I0" "valid_index A1 I1" "valid_index A2 I2" "valid_index B3 I3" "valid_index A4 I4"
    and l: "linear A0 I0 = i0" "linear A1 I1 = i1" "linear A2 I2 = i2" "linear B3 I3 = i3" "linear A4 I4 = i4"
    unfolding I using unravel_correct [OF p(1) r(1,2)] unravel_correct [OF p(2) r(3,4)] unravel_correct [OF p(3) r(5,6)]
      unravel_correct [OF p(4) r(7,8)] unravel_correct [OF p(5) r(9,10)] by simp_all
  have len: "length I0 = length A0" "length I1 = length A1" "length I2 = length A2" "length I3 = length B3" "length I4 = length A4"
    by (simp_all add: I)
  let ?index = "I0 @ I1 @ I2 @ I3 @ I4"
  have "valid_index whole ?index" using v len by (simp add: whole valid_index_append)
  moreover have "linear whole ?index = i0 * (prod_list A1 * (prod_list A2 * (prod_list B3 * prod_list A4))) +
       (i1 * (prod_list A2 * (prod_list B3 * prod_list A4)) + (i2 * (prod_list B3 * prod_list A4) + (i3 * prod_list A4 + i4)))"
    using len l by (simp add: whole linear_append)
  moreover have "broadcast_index a ?index = I0 @ I1 @ I2 @ replicate (length B3) 0 @ I4"
    using split len v by (simp add: five_split_def broadcast_index_append broadcast_index_id broadcast_index_ones)
  moreover have "linear a (I0 @ I1 @ I2 @ replicate (length B3) 0 @ I4) =
      ((i0 * prod_list A1 + i1) * prod_list A2 + i2) * prod_list A4 + i4"
    using split len l by (simp add: five_split_def linear_append linear_ones prod_list_unit) (simp add: algebra_simps)
  moreover have "broadcast_index b ?index = I0 @ replicate (length A1) 0 @ I2 @ I3 @ I4"
    using split len v by (simp add: five_split_def broadcast_index_append broadcast_index_id broadcast_index_ones)
  moreover have "linear b (I0 @ replicate (length A1) 0 @ I2 @ I3 @ I4) =
      ((i0 * prod_list A2 + i2) * prod_list B3 + i3) * prod_list A4 + i4"
    using split len l by (simp add: five_split_def linear_append linear_ones prod_list_unit) (simp add: algebra_simps)
  ultimately show ?thesis by (intro exI [of _ ?index]) simp
qed

section \<open>Loops that fill the output from the front\<close>

definition filled :: "'c list \<Rightarrow> 'c list \<Rightarrow> 'c list" where
  "filled out P = P @ drop (length P) out"

lemma wr_filled:
  "length P < length out \<Longrightarrow> q = int (length P) \<Longrightarrow> wr (filled out P) q v = Some (filled out (P @ [v]))"
proof -
  assume l: "length P < length out" and q: "q = int (length P)"
  then have "drop (length P) out = out ! length P # drop (Suc (length P)) out" by (simp add: Cons_nth_drop_Suc)
  then have "(filled out P)[length P := v] = filled out (P @ [v])" by (simp add: filled_def)
  then show ?thesis using l q by (simp add: wr_def filled_def)
qed

text \<open>A loop whose body appends a piece of width \<open>w\<close>; \<open>st P i\<close> is the state when \<open>P\<close> has been written.\<close>

lemma filling_loop:
  assumes n: "0 \<le> n" and base: "int (length P) = base"
    and body: "\<And>i P. 0 \<le> i \<Longrightarrow> i < n \<Longrightarrow> int (length P) = base + i * w \<Longrightarrow> body i (st P i) = Some (st (P @ v i) (i + 1))"
    and w: "\<And>i. 0 \<le> i \<Longrightarrow> i < n \<Longrightarrow> int (length (v i)) = w"
  shows "for_range 0 n body (st P 0) = Some (st (P @ concat (map v [0..n - 1])) n)"
proof -
  let ?P = "\<lambda>i. P @ concat (map v [0..i - 1])"
  have "\<exists>t. for_range 0 n body (st P 0) = Some t \<and> t = st (?P n) n \<and> int (length (?P n)) = base + n * w"
  proof (rule for_range_rule [where P = "\<lambda>i t. t = st (?P i) i \<and> int (length (?P i)) = base + i * w"])
    fix i t assume i: "0 \<le> i" "i < n" and t: "t = st (?P i) i \<and> int (length (?P i)) = base + i * w"
    have "[0..i + 1 - 1] = [0..i - 1] @ [i]" using i(1) upto_rec2 [of 0 i] by simp
    then have e: "?P (i + 1) = ?P i @ v i" by simp
    show "\<exists>t'. body i t = Some t' \<and> t' = st (?P (i + 1)) (i + 1) \<and> int (length (?P (i + 1))) = base + (i + 1) * w"
      unfolding e using body [OF i, of "?P i"] w [OF i] t by (simp add: distrib_right)
  qed (use n base in simp_all)
  then show ?thesis by blast
qed

lemma fivefold_loops_eq:
  fixes T :: "int \<Rightarrow> 'c"
  assumes nn: "0 \<le> y0" "0 < y1" "0 \<le> y2" "0 \<le> c"
    and body: "\<And>i0 i1 i2 P. 0 \<le> i0 \<Longrightarrow> i0 < y0 \<Longrightarrow> 0 \<le> i1 \<Longrightarrow> i1 < y1 \<Longrightarrow> 0 \<le> i2 \<Longrightarrow> i2 < y2 \<Longrightarrow>
       int (length P) = i0 * (y1 * (y2 * c)) + (i1 * (y2 * c) + i2 * c) \<Longrightarrow>
       body (filled out P, int (length P), ((i0 * y1 + i1) * y2 + i2) * y4, (i0 * y2 + i2) * c) =
       Some (filled out (P @ map (\<lambda>r. T (i0 * (y1 * (y2 * c)) + (i1 * (y2 * c) + (i2 * c + r)))) [0..c - 1]),
         int (length P) + c, ((i0 * y1 + i1) * y2 + i2) * y4 + y4, (i0 * y2 + i2) * c + c)"
  shows "fivefold_loops y0 y1 y2 body out = Some (filled out (map T [0..y0 * (y1 * (y2 * c)) - 1]))"
proof -
  let ?V3 = "\<lambda>i0 i1 i2. map (\<lambda>r. T (i0 * (y1 * (y2 * c)) + (i1 * (y2 * c) + (i2 * c + r)))) [0..c - 1]"
  let ?V2 = "\<lambda>i0 i1. map (\<lambda>r. T (i0 * (y1 * (y2 * c)) + (i1 * (y2 * c) + r))) [0..y2 * c - 1]"
  let ?V1 = "\<lambda>i0. map (\<lambda>r. T (i0 * (y1 * (y2 * c)) + r)) [0..y1 * (y2 * c) - 1]"
  have n2: "0 \<le> y2 * c" "0 \<le> y1 * (y2 * c)" using nn by simp_all
  let ?st2 = "\<lambda>i0 i1 P i. (filled out P, int (length P), ((i0 * y1 + i1) * y2 + i) * y4, (i0 * y2 + i) * c)"
  have loop2: "for_range 0 y2 (\<lambda>i2. body) (?st2 i0 i1 P 0) = Some (?st2 i0 i1 (P @ ?V2 i0 i1) y2)"
    if r: "0 \<le> i0" "i0 < y0" "0 \<le> i1" "i1 < y1" and P: "int (length P) = i0 * (y1 * (y2 * c)) + i1 * (y2 * c)" for i0 i1 P
  proof -
    have "for_range 0 y2 (\<lambda>i2. body) (?st2 i0 i1 P 0) = Some (?st2 i0 i1 (P @ concat (map (?V3 i0 i1) [0..y2 - 1])) y2)"
    proof (rule filling_loop [where st = "?st2 i0 i1", OF nn(3) P])
      fix i and P' :: "'c list" assume i: "0 \<le> i" "i < y2" and P': "int (length P') = i0 * (y1 * (y2 * c)) + i1 * (y2 * c) + i * c"
      then have "int (length P') = i0 * (y1 * (y2 * c)) + (i1 * (y2 * c) + i * c)" by simp
      from body [OF r i this] nn(4) show "body (?st2 i0 i1 P' i) = Some (?st2 i0 i1 (P' @ ?V3 i0 i1 i) (i + 1))"
        by (simp add: distrib_right add.assoc)
    qed (use nn in simp)
    moreover have "concat (map (?V3 i0 i1) [0..y2 - 1]) = ?V2 i0 i1" by (rule upto_blocks_map [OF nn(3,4), symmetric])
    ultimately show ?thesis by simp
  qed
  let ?st1 = "\<lambda>i0 P i. (filled out P, int (length P), (i0 * y1 + i) * y2 * y4, if i = 0 then None else Some ((i0 * y2 + y2) * c))"
  have loop1: "for_range 0 y1 (\<lambda>i1 (out, q, p1, p2). do {
         (out, q, p1, p2) \<leftarrow> for_range 0 y2 (\<lambda>i2. body) (out, q, p1, i0 * (y2 * c));
         Some (out, q, p1, Some p2) }) (?st1 i0 P 0) = Some (?st1 i0 (P @ ?V1 i0) y1)"
    if r: "0 \<le> i0" "i0 < y0" and P: "int (length P) = i0 * (y1 * (y2 * c))" for i0 P
  proof -
    have "for_range 0 y1 (\<lambda>i1 (out, q, p1, p2). do {
         (out, q, p1, p2) \<leftarrow> for_range 0 y2 (\<lambda>i2. body) (out, q, p1, i0 * (y2 * c));
         Some (out, q, p1, Some p2) }) (?st1 i0 P 0) = Some (?st1 i0 (P @ concat (map (?V2 i0) [0..y1 - 1])) y1)"
    proof (rule filling_loop [where st = "?st1 i0", OF _ P])
      fix i and P' :: "'c list" assume i: "0 \<le> i" "i < y1" and P': "int (length P') = i0 * (y1 * (y2 * c)) + i * (y2 * c)"
      have e: "((i0 * y1 + i) * y2 + y2) * y4 = (i0 * y1 + (i + 1)) * y2 * y4" by (simp add: algebra_simps)
      have "i + 1 \<noteq> 0" using i by simp
      with loop2 [OF r i P'] show "(\<lambda>(out, q, p1, p2). do {
         (out, q, p1, p2) \<leftarrow> for_range 0 y2 (\<lambda>i2. body) (out, q, p1, i0 * (y2 * c));
         Some (out, q, p1, Some p2) }) (?st1 i0 P' i) = Some (?st1 i0 (P' @ ?V2 i0 i) (i + 1))"
        unfolding e by (simp add: mult.assoc)
    qed (use nn n2 in simp_all)
    moreover have "concat (map (?V2 i0) [0..y1 - 1]) = ?V1 i0" using upto_blocks_map [of y1 "y2 * c" "\<lambda>r. T (i0 * (y1 * (y2 * c)) + r)"] nn n2 by simp
    ultimately show ?thesis by simp
  qed
  let ?st0 = "\<lambda>P i. (filled out P, int (length P), i * y1 * y2 * y4, i * (y2 * c))"
  have "for_range 0 y0 (\<lambda>i0 (out, q, p1, reset). do {
       (out, q, p1, p2) \<leftarrow> for_range 0 y1 (\<lambda>i1 (out, q, p1, p2). do {
         (out, q, p1, p2) \<leftarrow> for_range 0 y2 (\<lambda>i2. body) (out, q, p1, reset);
         Some (out, q, p1, Some p2) }) (out, q, p1, None);
       reset \<leftarrow> p2;
       Some (out, q, p1, reset) }) (?st0 [] 0) = Some (?st0 ([] @ concat (map ?V1 [0..y0 - 1])) y0)"
  proof (rule filling_loop [where st = ?st0 and base = 0, OF nn(1)])
    fix i and P :: "'c list" assume i: "0 \<le> i" "i < y0" and P: "int (length P) = 0 + i * (y1 * (y2 * c))"
    have e: "(i * y1 + y1) * y2 * y4 = (i + 1) * y1 * y2 * y4" "(i * y2 + y2) * c = (i + 1) * (y2 * c)" by (simp_all add: algebra_simps)
    have "int (length P) = i * (y1 * (y2 * c))" using P by simp
    from loop1 [OF i this] show "(\<lambda>(out, q, p1, reset). do {
       (out, q, p1, p2) \<leftarrow> for_range 0 y1 (\<lambda>i1 (out, q, p1, p2). do {
         (out, q, p1, p2) \<leftarrow> for_range 0 y2 (\<lambda>i2. body) (out, q, p1, reset);
         Some (out, q, p1, Some p2) }) (out, q, p1, None);
       reset \<leftarrow> p2;
       Some (out, q, p1, reset) }) (?st0 P i) = Some (?st0 (P @ ?V1 i) (i + 1))"
      using nn(2) unfolding e by simp
  qed (use n2 in simp_all)
  moreover have "concat (map ?V1 [0..y0 - 1]) = map T [0..y0 * (y1 * (y2 * c)) - 1]"
    using upto_blocks_map [of y0 "y1 * (y2 * c)" T] nn n2 by simp
  ultimately show ?thesis by (simp add: fivefold_loops_def filled_def)
qed


section \<open>The bodies\<close>

lemma elementwise_at_filled:
  fixes out P :: "'c list"
  assumes f: "\<And>a b. f a b = Some (g a b)" and n: "0 \<le> n"
    and p: "0 \<le> p1" "p1 + n \<le> int (length x1)" "0 \<le> p2" "p2 + n \<le> int (length x2)"
    and q: "q = int (length P)" "q + n \<le> int (length out)"
  shows "elementwise_at f n x1 p1 x2 p2 (filled out P) q =
     Some (filled out (P @ map (\<lambda>i. g (x1 ! nat (p1 + i)) (x2 ! nat (p2 + i))) [0..n - 1]))"
proof -
  have "for_range 0 n (\<lambda>i output_data. do {
       v1 \<leftarrow> rd x1 (p1 + i); v2 \<leftarrow> rd x2 (p2 + i); r \<leftarrow> f v1 v2; wr output_data (q + i) r }) (filled out P) =
     Some (filled out (P @ concat (map (\<lambda>i. [g (x1 ! nat (p1 + i)) (x2 ! nat (p2 + i))]) [0..n - 1])))"
  proof (rule filling_loop [where st = "\<lambda>P i. filled out P", OF n q(1) [symmetric]])
    fix i and P' :: "'c list" assume i: "0 \<le> i" "i < n" and P': "int (length P') = q + i * 1"
    then have "length P' < length out" "q + i = int (length P')" using q by simp_all
    from wr_filled [OF this] i p show "(do { v1 \<leftarrow> rd x1 (p1 + i); v2 \<leftarrow> rd x2 (p2 + i); r \<leftarrow> f v1 v2; wr (filled out P') (q + i) r }) =
        Some (filled out (P' @ [g (x1 ! nat (p1 + i)) (x2 ! nat (p2 + i))]))"
      by (simp add: rd_def f)
  qed simp
  then show ?thesis by (simp add: elementwise_at_def)
qed

lemma fivefold_T:
  fixes g :: "'a \<Rightarrow> 'b \<Rightarrow> 'c"
  assumes split: "five_split a b A0 A1 A2 B3 A4" and whole: "whole = A0 @ A1 @ A2 @ B3 @ A4"
    and pos: "\<forall>d\<in>set whole. 0 < d"
    and l: "int (length x1) = FlatSize a" "int (length x2) = FlatSize b"
    and y: "y0 = prod_list A0" "y1 = prod_list A1" "y2 = prod_list A2" "y3 = prod_list B3" "y4 = prod_list A4"
    and r: "0 \<le> i0" "i0 < y0" "0 \<le> i1" "i1 < y1" "0 \<le> i2" "i2 < y2" "0 \<le> i3" "i3 < y3" "0 \<le> i4" "i4 < y4"
  shows "g (broadcast_to a whole x1 ! nat (i0 * (y1 * (y2 * (y3 * y4))) + (i1 * (y2 * (y3 * y4)) + (i2 * (y3 * y4) + (i3 * y4 + i4)))))
           (broadcast_to b whole x2 ! nat (i0 * (y1 * (y2 * (y3 * y4))) + (i1 * (y2 * (y3 * y4)) + (i2 * (y3 * y4) + (i3 * y4 + i4))))) =
     g (x1 ! nat (((i0 * y1 + i1) * y2 + i2) * y4 + i4)) (x2 ! nat ((i0 * y2 + i2) * (y3 * y4) + i3 * y4 + i4)) \<and>
     0 \<le> ((i0 * y1 + i1) * y2 + i2) * y4 \<and> ((i0 * y1 + i1) * y2 + i2) * y4 + y4 \<le> int (length x1) \<and>
     0 \<le> (i0 * y2 + i2) * (y3 * y4) + i3 * y4 \<and> (i0 * y2 + i2) * (y3 * y4) + i3 * y4 + y4 \<le> int (length x2) \<and>
     i0 * (y1 * (y2 * (y3 * y4))) + (i1 * (y2 * (y3 * y4)) + (i2 * (y3 * y4) + (i3 * y4))) + y4 \<le> FlatSize whole"
proof -
  let ?q = "i0 * (y1 * (y2 * (y3 * y4))) + (i1 * (y2 * (y3 * y4)) + (i2 * (y3 * y4) + (i3 * y4 + i4)))"
  obtain index where ix: "valid_index whole index" "linear whole index = ?q"
    "linear a (broadcast_index a index) = ((i0 * y1 + i1) * y2 + i2) * y4 + i4"
    "linear b (broadcast_index b index) = ((i0 * y2 + i2) * y3 + i3) * y4 + i4"
    using five_addresses [OF split whole pos r [unfolded y]] unfolding y by blast
  have e2: "((i0 * y2 + i2) * y3 + i3) * y4 + i4 = (i0 * y2 + i2) * (y3 * y4) + i3 * y4 + i4" by (simp add: algebra_simps)
  have fa: "FlatSize a = y0 * y1 * y2 * y4" "FlatSize b = y0 * y2 * y3 * y4" "FlatSize whole = y0 * y1 * y2 * y3 * y4"
    using split by (simp_all add: five_split_def FlatSize_def foldl_times_eq prod_list_unit y whole mult.assoc)
  have p4: "0 \<le> y4" using r by simp
  have k: "0 \<le> i0 * y1 + i1" "i0 * y1 + i1 < y0 * y1" using radix_range [OF r(1-4)] by simp_all
  have k1: "0 \<le> (i0 * y1 + i1) * y2 + i2" "(i0 * y1 + i1) * y2 + i2 < y0 * y1 * y2" using radix_range [OF k r(5,6)] by simp_all
  have k2: "0 \<le> i0 * y2 + i2" "i0 * y2 + i2 < y0 * y2" using radix_range [OF r(1,2,5,6)] by simp_all
  have k3: "0 \<le> (i0 * y2 + i2) * y3 + i3" "(i0 * y2 + i2) * y3 + i3 < y0 * y2 * y3" using radix_range [OF k2 r(7,8)] by simp_all
  have k4: "0 \<le> ((i0 * y1 + i1) * y2 + i2) * y3 + i3" "((i0 * y1 + i1) * y2 + i2) * y3 + i3 < y0 * y1 * y2 * y3"
    using radix_range [OF k1 r(7,8)] by simp_all
  have c3: "((i0 * y2 + i2) * y3 + i3) * y4 = (i0 * y2 + i2) * (y3 * y4) + i3 * y4" by (simp add: algebra_simps)
  have c4: "(((i0 * y1 + i1) * y2 + i2) * y3 + i3) * y4 =
      i0 * (y1 * (y2 * (y3 * y4))) + (i1 * (y2 * (y3 * y4)) + (i2 * (y3 * y4) + (i3 * y4)))" by (simp add: algebra_simps)
  have rd1: "rd (broadcast_to a whole x1) ?q = Some (x1 ! nat (((i0 * y1 + i1) * y2 + i2) * y4 + i4))"
    using rd_broadcast_to [OF ix(1), of a x1] unfolding ix(2,3) .
  have rd2: "rd (broadcast_to b whole x2) ?q = Some (x2 ! nat ((i0 * y2 + i2) * (y3 * y4) + i3 * y4 + i4))"
    using rd_broadcast_to [OF ix(1), of b x2] unfolding ix(2,4) e2 .
  show ?thesis using rd1 rd2 cell_fits [OF k1 p4] cell_fits [OF k3 p4] cell_fits [OF k4 p4]
    unfolding rd_Some_iff l fa c3 c4 by simp
qed


lemma filled_all: "length P = length out \<Longrightarrow> filled out P = P"
  by (simp add: filled_def)

lemma positive_blocks:
  assumes "whole = A0 @ A1 @ A2 @ B3 @ A4" "\<forall>d\<in>set whole. 0 < d"
  shows "0 < prod_list A0 \<and> 0 < prod_list A1 \<and> 0 < prod_list A2 \<and> 0 < prod_list B3 \<and> 0 < prod_list (A4 :: shape)"
  using assms by (auto intro!: prod_list_pos)

text \<open>With any body that appends \<open>y3 * y4\<close> elements the loops compute the elementwise result.\<close>

lemma fivefold_result:
  fixes g :: "'a \<Rightarrow> 'b \<Rightarrow> 'c"
  assumes split: "five_split a b A0 A1 A2 B3 A4" and whole: "whole = A0 @ A1 @ A2 @ B3 @ A4"
    and pos: "\<forall>d\<in>set whole. 0 < d"
    and y: "y0 = prod_list A0" "y1 = prod_list A1" "y2 = prod_list A2" "y3 = prod_list B3" "y4 = prod_list A4"
    and lo: "int (length out) = FlatSize whole"
    and T: "\<And>q. T q = g (broadcast_to a whole x1 ! nat q) (broadcast_to b whole x2 ! nat q)"
    and body: "\<And>i0 i1 i2 P. 0 \<le> i0 \<Longrightarrow> i0 < y0 \<Longrightarrow> 0 \<le> i1 \<Longrightarrow> i1 < y1 \<Longrightarrow> 0 \<le> i2 \<Longrightarrow> i2 < y2 \<Longrightarrow>
       int (length P) = i0 * (y1 * (y2 * (y3 * y4))) + (i1 * (y2 * (y3 * y4)) + i2 * (y3 * y4)) \<Longrightarrow>
       body (filled out P, int (length P), ((i0 * y1 + i1) * y2 + i2) * y4, (i0 * y2 + i2) * (y3 * y4)) =
       Some (filled out (P @ map (\<lambda>r. T (i0 * (y1 * (y2 * (y3 * y4))) + (i1 * (y2 * (y3 * y4)) + (i2 * (y3 * y4) + r)))) [0..y3 * y4 - 1]),
         int (length P) + y3 * y4, ((i0 * y1 + i1) * y2 + i2) * y4 + y4, (i0 * y2 + i2) * (y3 * y4) + y3 * y4)"
  shows "fivefold_loops y0 y1 y2 body out =
     Some (map (\<lambda>q. g (broadcast_to a whole x1 ! nat q) (broadcast_to b whole x2 ! nat q)) [0..FlatSize whole - 1])"
proof -
  have yp: "0 < y0" "0 < y1" "0 < y2" "0 < y3" "0 < y4" using positive_blocks [OF whole pos] y by simp_all
  have F: "FlatSize whole = y0 * (y1 * (y2 * (y3 * y4)))"
    by (simp add: FlatSize_def foldl_times_eq whole y)
  have "fivefold_loops y0 y1 y2 body out = Some (filled out (map T [0..y0 * (y1 * (y2 * (y3 * y4))) - 1]))"
    by (rule fivefold_loops_eq) (use yp body in \<open>simp_all add: less_imp_le\<close>)
  moreover have "filled out (map T [0..FlatSize whole - 1]) = map T [0..FlatSize whole - 1]"
    using lo by (intro filled_all) simp
  moreover have "T = (\<lambda>q. g (broadcast_to a whole x1 ! nat q) (broadcast_to b whole x2 ! nat q))"
    using T by blast
  ultimately show ?thesis unfolding F by simp
qed

lemma fivefold_elementwise:
  fixes g :: "'a \<Rightarrow> 'b \<Rightarrow> 'c"
  assumes split: "five_split a b A0 A1 A2 B3 A4" and whole: "whole = A0 @ A1 @ A2 @ B3 @ A4"
    and pos: "\<forall>d\<in>set whole. 0 < d"
    and l: "int (length x1) = FlatSize a" "int (length x2) = FlatSize b"
    and y: "y0 = prod_list A0" "y1 = prod_list A1" "y2 = prod_list A2" "y3 = prod_list B3" "y4 = prod_list A4"
    and lo: "int (length out) = FlatSize whole"
    and f: "\<And>u v. f u v = Some (g u v)"
  shows "fivefold_loops y0 y1 y2 (\<lambda>(out, q, p1, p2). do {
         (out, q, p2) \<leftarrow> for_range 0 y3 (\<lambda>i3 (out, q, p2). do {
           out \<leftarrow> elementwise_at f y4 x1 p1 x2 p2 out q;
           Some (out, q + y4, p2 + y4) }) (out, q, p2);
         Some (out, q, p1 + y4, p2) }) out =
     Some (map (\<lambda>q. g (broadcast_to a whole x1 ! nat q) (broadcast_to b whole x2 ! nat q)) [0..FlatSize whole - 1])"
proof (rule fivefold_result [OF split whole pos y lo refl])
  let ?T = "\<lambda>q. g (broadcast_to a whole x1 ! nat q) (broadcast_to b whole x2 ! nat q)"
  fix i0 i1 i2 and P :: "'c list"
  assume r: "0 \<le> i0" "i0 < y0" "0 \<le> i1" "i1 < y1" "0 \<le> i2" "i2 < y2"
  let ?base = "i0 * (y1 * (y2 * (y3 * y4))) + (i1 * (y2 * (y3 * y4)) + i2 * (y3 * y4))"
  let ?p1 = "((i0 * y1 + i1) * y2 + i2) * y4" and ?p2 = "(i0 * y2 + i2) * (y3 * y4)"
  assume P: "int (length P) = ?base"
  have yp: "0 < y3" "0 < y4" using positive_blocks [OF whole pos] y by simp_all
  let ?st = "\<lambda>P i. (filled out P, int (length P), ?p2 + i * y4)"
  let ?v = "\<lambda>i. map (\<lambda>i4. ?T (i0 * (y1 * (y2 * (y3 * y4))) + (i1 * (y2 * (y3 * y4)) + (i2 * (y3 * y4) + (i * y4 + i4))))) [0..y4 - 1]"
  have "for_range 0 y3 (\<lambda>i3 (out, q, p2). do {
           out \<leftarrow> elementwise_at f y4 x1 ?p1 x2 p2 out q;
           Some (out, q + y4, p2 + y4) }) (?st P 0) = Some (?st (P @ concat (map ?v [0..y3 - 1])) y3)"
  proof (rule filling_loop [where st = ?st, OF _ P])
    fix i and P' :: "'c list" assume i: "0 \<le> i" "i < y3" and P': "int (length P') = ?base + i * y4"
    note T = fivefold_T [OF split whole pos l y r i, of _ g]
    note T0 = T [OF order_refl yp(2)]
    have "elementwise_at f y4 x1 ?p1 x2 (?p2 + i * y4) (filled out P') (int (length P')) =
        Some (filled out (P' @ map (\<lambda>k. g (x1 ! nat (?p1 + k)) (x2 ! nat (?p2 + i * y4 + k))) [0..y4 - 1]))"
      by (rule elementwise_at_filled [OF f]) (use T0 yp P' lo in \<open>simp_all add: add.assoc\<close>)
    also have "map (\<lambda>k. g (x1 ! nat (?p1 + k)) (x2 ! nat (?p2 + i * y4 + k))) [0..y4 - 1] = ?v i"
      by (intro map_cong refl) (use T in simp)
    finally have E: "elementwise_at f y4 x1 ?p1 x2 (?p2 + i * y4) (filled out P') (int (length P')) = Some (filled out (P' @ ?v i))" .
    have len: "int (length P') + y4 = int (length (P' @ ?v i))" using yp by simp
    have e: "?p2 + i * y4 + y4 = ?p2 + (i + 1) * y4" by (simp add: distrib_right)
    show "(\<lambda>(out, q, p2). do {
           out \<leftarrow> elementwise_at f y4 x1 ?p1 x2 p2 out q;
           Some (out, q + y4, p2 + y4) }) (?st P' i) = Some (?st (P' @ ?v i) (i + 1))"
      by (simp only: prod.case E bind.bind_lunit len e)
  qed (use yp in simp_all)
  moreover have "concat (map ?v [0..y3 - 1]) =
      map (\<lambda>r. ?T (i0 * (y1 * (y2 * (y3 * y4))) + (i1 * (y2 * (y3 * y4)) + (i2 * (y3 * y4) + r)))) [0..y3 * y4 - 1]"
    using yp by (intro upto_blocks_map [symmetric]) simp_all
  ultimately show "(\<lambda>(out, q, p1, p2). do {
         (out, q, p2) \<leftarrow> for_range 0 y3 (\<lambda>i3 (out, q, p2). do {
           out \<leftarrow> elementwise_at f y4 x1 p1 x2 p2 out q;
           Some (out, q + y4, p2 + y4) }) (out, q, p2);
         Some (out, q, p1 + y4, p2) }) (filled out P, int (length P), ?p1, ?p2) =
       Some (filled out (P @ map (\<lambda>r. ?T (i0 * (y1 * (y2 * (y3 * y4))) + (i1 * (y2 * (y3 * y4)) + (i2 * (y3 * y4) + r)))) [0..y3 * y4 - 1]),
         int (length P) + y3 * y4, ?p1 + y4, ?p2 + y3 * y4)"
    using yp by simp
qed


lemma fivefold_scalar:
  fixes g :: "'a \<Rightarrow> 'b \<Rightarrow> 'c"
  assumes split: "five_split a b A0 A1 A2 B3 A4" and whole: "whole = A0 @ A1 @ A2 @ B3 @ A4"
    and pos: "\<forall>d\<in>set whole. 0 < d"
    and l: "int (length x1) = FlatSize a" "int (length x2) = FlatSize b"
    and y: "y0 = prod_list A0" "y1 = prod_list A1" "y2 = prod_list A2" "y3 = prod_list B3" "1 = prod_list A4"
    and lo: "int (length out) = FlatSize whole"
    and f: "\<And>u v. f u v = Some (g u v)"
  shows "fivefold_loops y0 y1 y2 (\<lambda>(out, q, p1, p2). do {
         v \<leftarrow> rd x1 p1;
         out \<leftarrow> elementwise_at (\<lambda>_. f v) y3 x2 p2 x2 p2 out q;
         Some (out, q + y3, p1 + 1, p2 + y3) }) out =
     Some (map (\<lambda>q. g (broadcast_to a whole x1 ! nat q) (broadcast_to b whole x2 ! nat q)) [0..FlatSize whole - 1])"
proof (rule fivefold_result [OF split whole pos y lo refl])
  let ?T = "\<lambda>q. g (broadcast_to a whole x1 ! nat q) (broadcast_to b whole x2 ! nat q)"
  fix i0 i1 i2 and P :: "'c list"
  assume r: "0 \<le> i0" "i0 < y0" "0 \<le> i1" "i1 < y1" "0 \<le> i2" "i2 < y2"
  let ?p1 = "((i0 * y1 + i1) * y2 + i2) * 1" and ?p2 = "(i0 * y2 + i2) * (y3 * 1)"
  assume P: "int (length P) = i0 * (y1 * (y2 * (y3 * 1))) + (i1 * (y2 * (y3 * 1)) + i2 * (y3 * 1))"
  have y3: "0 < y3" using positive_blocks [OF whole pos] y by simp
  note T = fivefold_T [OF split whole pos l y r, of _ 0 g]
  have T0: "0 \<le> ?p1" "?p1 + 1 \<le> int (length x1)" "0 \<le> ?p2" using T [of 0] y3 by simp_all
  have Tn: "?p2 + y3 \<le> int (length x2)" "int (length P) + y3 \<le> FlatSize whole" using T [of "y3 - 1"] y3 P by simp_all
  have rd1: "rd x1 ?p1 = Some (x1 ! nat ?p1)" using T0 by (simp add: rd_def)
  have "elementwise_at (\<lambda>_. f (x1 ! nat ?p1)) y3 x2 ?p2 x2 ?p2 (filled out P) (int (length P)) =
      Some (filled out (P @ map (\<lambda>k. g (x1 ! nat ?p1) (x2 ! nat (?p2 + k))) [0..y3 - 1]))"
    by (rule elementwise_at_filled) (use f T0 Tn y3 lo in simp_all)
  also have "map (\<lambda>k. g (x1 ! nat ?p1) (x2 ! nat (?p2 + k))) [0..y3 - 1] =
      map (\<lambda>r. ?T (i0 * (y1 * (y2 * (y3 * 1))) + (i1 * (y2 * (y3 * 1)) + (i2 * (y3 * 1) + r)))) [0..y3 * 1 - 1]"
    by (intro map_cong) (use T in simp_all)
  finally have E: "elementwise_at (\<lambda>_. f (x1 ! nat ?p1)) y3 x2 ?p2 x2 ?p2 (filled out P) (int (length P)) =
      Some (filled out (P @ map (\<lambda>r. ?T (i0 * (y1 * (y2 * (y3 * 1))) + (i1 * (y2 * (y3 * 1)) + (i2 * (y3 * 1) + r)))) [0..y3 * 1 - 1]))" .
  show "(\<lambda>(out, q, p1, p2). do {
         v \<leftarrow> rd x1 p1;
         out \<leftarrow> elementwise_at (\<lambda>_. f v) y3 x2 p2 x2 p2 out q;
         Some (out, q + y3, p1 + 1, p2 + y3) }) (filled out P, int (length P), ?p1, ?p2) =
       Some (filled out (P @ map (\<lambda>r. ?T (i0 * (y1 * (y2 * (y3 * 1))) + (i1 * (y2 * (y3 * 1)) + (i2 * (y3 * 1) + r)))) [0..y3 * 1 - 1]),
         int (length P) + y3 * 1, ?p1 + 1, ?p2 + y3 * 1)"
    unfolding prod.case rd1 bind.bind_lunit E by simp
qed

section \<open>The kernels on coalesced shapes\<close>

lemma joint_extent_same: "map2 joint_extent xs xs = xs"
  by (induction xs) (auto simp: joint_extent_def)

lemma joint_extent_ones: "map2 joint_extent (replicate (length xs) 1) xs = xs" "map2 joint_extent xs (replicate (length xs) 1) = xs"
  by (induction xs) (auto simp: joint_extent_def)

lemma joint_extent_split:
  assumes "five_split a b A0 A1 A2 B3 A4"
  shows "map2 joint_extent a b = A0 @ A1 @ A2 @ B3 @ A4 \<and> map2 joint_extent b a = A0 @ A1 @ A2 @ B3 @ A4"
  using assms by (simp add: five_split_def joint_extent_same joint_extent_ones)

lemma ExtendedShape_mono:
  assumes "ExtendedShape n s = Some t" and "n \<le> k"
  shows "ExtendedShape k s = Some (replicate (k - n) 1 @ t)"
proof -
  have "length s \<le> n" "t = replicate (n - length s) 1 @ s" using assms(1) by (auto simp: ExtendedShape_def split: if_splits)
  moreover have "k - length s = (k - n) + (n - length s)" using assms(2) \<open>length s \<le> n\<close> by simp
  ultimately show ?thesis using assms(2) by (simp add: ExtendedShape_def flip: replicate_add)
qed

lemma ProcessBroadcastShapes_blocks:
  assumes "ProcessBroadcastShapes s1 s2 params0 = Some (params, r)"
    and "broadcast_category params = kFirstInputBroadcastsFast \<or> broadcast_category params = kSecondInputBroadcastsFast"
    and e: "ExtendedShape 4 s1 = Some e1" "ExtendedShape 4 s2 = Some e2"
  shows "\<exists>A0 A1 A2 B3 A4. broadcast_shape params = [prod_list A0, prod_list A1, prod_list A2, prod_list B3, prod_list A4] \<and>
     (if broadcast_category params = kFirstInputBroadcastsFast then five_split e1 e2 A0 A1 A2 B3 A4
      else five_split e2 e1 A0 A1 A2 B3 A4)"
proof -
  let ?n = "max (length s1) (length s2)"
  have n: "?n \<le> 4" using e ExtendedShape4_len by simp
  obtain t1 t2 where t: "ExtendedShape ?n s1 = Some t1" "ExtendedShape ?n s2 = Some t2" by (simp add: ExtendedShape_def)
  have lt: "length t1 = ?n" "length t2 = ?n" using t by (auto simp: ExtendedShape_def split: if_splits)
  let ?z = "replicate (4 - ?n) (1 :: int)"
  have e12: "e1 = ?z @ t1" "e2 = ?z @ t2"
    using ExtendedShape_mono [OF t(1) n] ExtendedShape_mono [OF t(2) n] e by simp_all
  let ?cat = "broadcast_category_of t1 t2 ?n"
  let ?a = "if ?cat = kSecondInputBroadcastsFast then t2 else t1" and ?b = "if ?cat = kSecondInputBroadcastsFast then t1 else t2"
  obtain ys i where fb: "five_blocks ?a ?b ?n = (ys, i)" by fastforce
  have P: "i = 0 \<and> broadcast_shape params = ys \<and> broadcast_category params = ?cat"
    using assms(1,2) t fb by (auto simp: ProcessBroadcastShapes_def Let_def split: if_splits)
  have "length ?a = ?n" "length ?b = ?n" using lt by simp_all
  with five_blocks_split fb P obtain A0 A1 A2 B3 A4 where s: "five_split ?a ?b A0 A1 A2 B3 A4"
    and ys: "ys = [prod_list A0, prod_list A1, prod_list A2, prod_list B3, prod_list A4]" by metis
  have "five_split (?z @ ?a) (?z @ ?b) (?z @ A0) A1 A2 B3 A4" using s by (simp add: five_split_def)
  moreover have "?z @ ?a = (if broadcast_category params = kFirstInputBroadcastsFast then e1 else e2)"
    "?z @ ?b = (if broadcast_category params = kFirstInputBroadcastsFast then e2 else e1)"
    using P assms(2) unfolding e12 by (elim conjE disjE; simp)+
  ultimately have "if broadcast_category params = kFirstInputBroadcastsFast then five_split e1 e2 (?z @ A0) A1 A2 B3 A4
      else five_split e2 e1 (?z @ A0) A1 A2 B3 A4"
    by (simp split: if_splits)
  moreover have "broadcast_shape params = [prod_list (?z @ A0), prod_list A1, prod_list A2, prod_list B3, prod_list A4]"
    using P ys by (simp add: prod_list_unit)
  ultimately show ?thesis by blast
qed

lemma elementwise_loop_total:
  assumes "\<And>u v. f u v = Some (g u v)" and "int (length x1) = n" "int (length x2) = n" "int (length out) = n"
  shows "elementwise_loop n f x1 x2 out = Some (map (\<lambda>q. g (x1 ! nat q) (x2 ! nat q)) [0..n - 1])"
proof -
  have "elementwise_at f n x1 0 x2 0 (filled out []) 0 = Some (filled out ([] @ map (\<lambda>i. g (x1 ! nat (0 + i)) (x2 ! nat (0 + i))) [0..n - 1]))"
    by (rule elementwise_at_filled) (use assms in simp_all)
  moreover have "filled out [] = out" by (simp add: filled_def)
  moreover have "filled out (map (\<lambda>q. g (x1 ! nat q) (x2 ! nat q)) [0..n - 1]) = map (\<lambda>q. g (x1 ! nat q) (x2 ! nat q)) [0..n - 1]"
    using assms(4) by (intro filled_all) auto
  ultimately show ?thesis by (simp add: elementwise_at_0)
qed

lemma broadcast_loops_total:
  assumes e: "ExtendedShape 4 s1 = Some e1" "ExtendedShape 4 s2 = Some e2" "ExtendedShape 4 os = Some whole"
    and bc: "broadcastable e1 e2 whole" and pos: "\<forall>d\<in>set whole. 0 < d"
    and l: "int (length x1) = FlatSize e1" "int (length x2) = FlatSize e2" "int (length out) = FlatSize whole"
    and f: "\<And>u v. f u v = Some (g u v)"
  shows "broadcast_loops f s1 x1 s2 x2 os out =
     Some (map (\<lambda>q. g (broadcast_to e1 whole x1 ! nat q) (broadcast_to e2 whole x2 ! nat q)) [0..FlatSize whole - 1])"
proof -
  have "0 \<le> FlatSize whole" using prod_list_pos [OF pos] by (simp add: FlatSize_def foldl_times_eq)
  have nn: "\<forall>d\<in>set whole. 0 \<le> d" using pos by auto
  show ?thesis
    unfolding broadcast_loops_eq [OF e bc nn l(1,2)]
    by (rule elementwise_loop_total [OF f]) (use l(3) \<open>0 \<le> FlatSize whole\<close> in \<open>simp_all add: broadcast_to_def\<close>)
qed


lemma mul_uint8_total:
  "output_shift params < 32 \<Longrightarrow> mul_uint8 gl params u v = Some (the (mul_uint8 gl params u v))"
  by (simp add: mul_uint8_def MultiplyByQuantizedMultiplier_def scale_up_def)

lemma add_uint8_total:
  "0 \<le> left_shift params \<Longrightarrow> left_shift params < 32 \<Longrightarrow> add_uint8 gl params u v = Some (the (add_uint8 gl params u v))"
  by (simp add: add_uint8_def scaled_input1_def scaled_input2_def scale_up_def)

lemma AddScalarBroadcast_eq:
  assumes "offset_in_range (input1_offset params) \<and> offset_in_range (input2_offset params)"
    and "0 \<le> left_shift params" "left_shift params < 32"
  shows "AddScalarBroadcast gl n params v x2 p2 out q =
     elementwise_at (\<lambda>_. add_uint8 gl params v) n x2 p2 x2 p2 out q"
proof -
  obtain s where s: "scaled_input1 gl params v = Some s"
    using assms(2,3) by (simp add: scaled_input1_def scale_up_def)
  have "for_range 0 n (\<lambda>i output_data. do {
       b \<leftarrow> rd x2 (p2 + i);
       scaled_input2_val \<leftarrow> scaled_input2 gl params b;
       wr output_data (q + i) (rescale_uint8 gl params (s + scaled_input2_val)) }) out =
    for_range 0 n (\<lambda>i output_data. do {
       v1 \<leftarrow> rd x2 (p2 + i); v2 \<leftarrow> rd x2 (p2 + i); r \<leftarrow> add_uint8 gl params v v2; wr output_data (q + i) r }) out"
    by (intro for_range_cong refl) (simp add: add_uint8_def s split: Option.bind_splits)
  then show ?thesis using assms(1) s by (simp add: AddScalarBroadcast_def elementwise_at_def)
qed

text \<open>Exchanging the inputs with their parameters does not change a sum or a product.\<close>

lemma mul_uint8_switch:
  "mul_uint8 gl (params\<lparr>input1_offset := input2_offset params, input2_offset := input1_offset params\<rparr>) u v = mul_uint8 gl params v u"
  by (simp add: mul_uint8_def clamp_uint8_def mult.commute)

lemma add_uint8_switch:
  "0 \<le> left_shift params \<Longrightarrow> left_shift params < 32 \<Longrightarrow>
   add_uint8 gl (params\<lparr>input1_offset := input2_offset params, input1_multiplier := input2_multiplier params,
     input1_shift := input2_shift params, input2_offset := input1_offset params,
     input2_multiplier := input1_multiplier params, input2_shift := input1_shift params\<rparr>) u v = add_uint8 gl params v u"
  by (simp add: add_uint8_def scaled_input1_def scaled_input2_def scale_up_def rescale_uint8_def clamp_uint8_def add.commute)

lemma fivefold_mul:
  assumes sp: "five_split a b A0 A1 A2 B3 A4" "whole = A0 @ A1 @ A2 @ B3 @ A4" "\<forall>d\<in>set whole. 0 < d"
    and l: "int (length x1) = FlatSize a" "int (length x2) = FlatSize b" "int (length out) = FlatSize whole"
    and f: "\<And>u v. mul_uint8 gl params u v = Some (g u v)"
  shows "fivefold_loops (prod_list A0) (prod_list A1) (prod_list A2) (\<lambda>(out, q, p1, p2). do {
       (out, q, p2) \<leftarrow> for_range 0 (prod_list B3) (\<lambda>i3 (out, q, p2). do {
         out \<leftarrow> MulElementwise gl (prod_list A4) params x1 p1 x2 p2 out q;
         Some (out, q + prod_list A4, p2 + prod_list A4) }) (out, q, p2);
       Some (out, q, p1 + prod_list A4, p2) }) out =
     Some (map (\<lambda>q. g (broadcast_to a whole x1 ! nat q) (broadcast_to b whole x2 ! nat q)) [0..FlatSize whole - 1])"
  unfolding MulElementwise_def by (rule fivefold_elementwise [OF sp l(1,2) refl refl refl refl refl l(3) f])

lemma fivefold_add:
  assumes sp: "five_split a b A0 A1 A2 B3 A4" "whole = A0 @ A1 @ A2 @ B3 @ A4" "\<forall>d\<in>set whole. 0 < d"
    and l: "int (length x1) = FlatSize a" "int (length x2) = FlatSize b" "int (length out) = FlatSize whole"
    and f: "\<And>u v. add_uint8 gl params u v = Some (g u v)"
    and ok: "offset_in_range (input1_offset params) \<and> offset_in_range (input2_offset params)" "0 \<le> left_shift params" "left_shift params < 32"
  shows "(if prod_list A4 > 1 then
       fivefold_loops (prod_list A0) (prod_list A1) (prod_list A2) (\<lambda>(out, q, p1, p2). do {
         (out, q, p2) \<leftarrow> for_range 0 (prod_list B3) (\<lambda>i3 (out, q, p2). do {
           out \<leftarrow> AddElementwise gl (prod_list A4) params x1 p1 x2 p2 out q;
           Some (out, q + prod_list A4, p2 + prod_list A4) }) (out, q, p2);
         Some (out, q, p1 + prod_list A4, p2) }) out
     else
       fivefold_loops (prod_list A0) (prod_list A1) (prod_list A2) (\<lambda>(out, q, p1, p2). do {
         v \<leftarrow> rd x1 p1;
         out \<leftarrow> AddScalarBroadcast gl (prod_list B3) params v x2 p2 out q;
         Some (out, q + prod_list B3, p1 + 1, p2 + prod_list B3) }) out) =
     Some (map (\<lambda>q. g (broadcast_to a whole x1 ! nat q) (broadcast_to b whole x2 ! nat q)) [0..FlatSize whole - 1])"
proof (cases "prod_list A4 > 1")
  case True
  have A: "AddElementwise gl n params y1 p1 y2 p2 o' q = elementwise_at (add_uint8 gl params) n y1 p1 y2 p2 o' q" for n y1 p1 y2 p2 o' q
    using ok(1) by (simp add: AddElementwise_def)
  have "fivefold_loops (prod_list A0) (prod_list A1) (prod_list A2) (\<lambda>(out, q, p1, p2). do {
         (out, q, p2) \<leftarrow> for_range 0 (prod_list B3) (\<lambda>i3 (out, q, p2). do {
           out \<leftarrow> AddElementwise gl (prod_list A4) params x1 p1 x2 p2 out q;
           Some (out, q + prod_list A4, p2 + prod_list A4) }) (out, q, p2);
         Some (out, q, p1 + prod_list A4, p2) }) out =
     Some (map (\<lambda>q. g (broadcast_to a whole x1 ! nat q) (broadcast_to b whole x2 ! nat q)) [0..FlatSize whole - 1])"
    unfolding A by (rule fivefold_elementwise [OF sp l(1,2) refl refl refl refl refl l(3) f])
  with True show ?thesis by simp
next
  case False
  then have one: "1 = prod_list A4" using positive_blocks [OF sp(2,3)] by simp
  have "fivefold_loops (prod_list A0) (prod_list A1) (prod_list A2) (\<lambda>(out, q, p1, p2). do {
         v \<leftarrow> rd x1 p1;
         out \<leftarrow> AddScalarBroadcast gl (prod_list B3) params v x2 p2 out q;
         Some (out, q + prod_list B3, p1 + 1, p2 + prod_list B3) }) out =
     Some (map (\<lambda>q. g (broadcast_to a whole x1 ! nat q) (broadcast_to b whole x2 ! nat q)) [0..FlatSize whole - 1])"
    unfolding AddScalarBroadcast_eq [OF ok] by (rule fivefold_scalar [OF sp l(1,2) refl refl refl refl one l(3) f])
  with False show ?thesis by simp
qed


text \<open>Without loss of generality the first input is the one that broadcasts fastest.\<close>

lemma fivefold_both:
  assumes blocks: "broadcast_shape params = [prod_list A0, prod_list A1, prod_list A2, prod_list B3, prod_list A4]"
    and split: "if broadcast_category params = kFirstInputBroadcastsFast then five_split e1 e2 A0 A1 A2 B3 A4
      else five_split e2 e1 A0 A1 A2 B3 A4"
    and whole: "whole = map2 joint_extent e1 e2" and pos: "\<forall>d\<in>set whole. 0 < d"
    and l: "int (length x1) = FlatSize e1" "int (length x2) = FlatSize e2" "int (length out) = FlatSize whole"
    and ok: "output_shift params < 32" "0 \<le> left_shift params" "left_shift params < 32"
      "offset_in_range (input1_offset params)" "offset_in_range (input2_offset params)"
  shows "BroadcastMulFivefold gl params s1 x1 s2 x2 os out = Some (map (\<lambda>q. the (mul_uint8 gl params
       (broadcast_to e1 whole x1 ! nat q) (broadcast_to e2 whole x2 ! nat q))) [0..FlatSize whole - 1]) \<and>
     BroadcastAddFivefold gl params s1 x1 s2 x2 os out = Some (map (\<lambda>q. the (add_uint8 gl params
       (broadcast_to e1 whole x1 ! nat q) (broadcast_to e2 whole x2 ! nat q))) [0..FlatSize whole - 1])"
proof -
  have y: "rd (broadcast_shape params) 0 = Some (prod_list A0)" "rd (broadcast_shape params) 1 = Some (prod_list A1)"
    "rd (broadcast_shape params) 2 = Some (prod_list A2)" "rd (broadcast_shape params) 3 = Some (prod_list B3)"
    "rd (broadcast_shape params) 4 = Some (prod_list A4)" using blocks by (simp_all add: rd_def)
  let ?sm = "params\<lparr>input1_offset := input2_offset params, input2_offset := input1_offset params\<rparr>"
  let ?sa = "params\<lparr>input1_offset := input2_offset params, input1_multiplier := input2_multiplier params,
     input1_shift := input2_shift params, input2_offset := input1_offset params,
     input2_multiplier := input1_multiplier params, input2_shift := input1_shift params\<rparr>"
  have ys: "broadcast_shape ?sm = broadcast_shape params" "broadcast_shape ?sa = broadcast_shape params" by simp_all
  note mt = mul_uint8_total [OF ok(1), of gl] and at = add_uint8_total [OF ok(2,3), of gl]
  note okc = conjI [OF ok(4,5)]
  have w: "whole = A0 @ A1 @ A2 @ B3 @ A4" using split whole joint_extent_split by (metis (full_types))
  show ?thesis
  proof (cases "broadcast_category params = kFirstInputBroadcastsFast")
    case True
    then have sp: "five_split e1 e2 A0 A1 A2 B3 A4" using split by simp
    show ?thesis
      by (simp only: BroadcastMulFivefold_def BroadcastAddFivefold_def Let_def y True if_True bind.bind_lunit
        fivefold_mul [OF sp w pos l mt] fivefold_add [OF sp w pos l at okc ok(2,3)] simp_thms)
  next
    case False
    then have sp: "five_split e2 e1 A0 A1 A2 B3 A4" using split by simp
    have oks: "offset_in_range (input1_offset ?sa) \<and> offset_in_range (input2_offset ?sa)" "0 \<le> left_shift ?sa" "left_shift ?sa < 32"
      using ok by simp_all
    have mts: "mul_uint8 gl ?sm u v = Some (the (mul_uint8 gl params v u))" for u v unfolding mul_uint8_switch by (rule mt)
    have ats: "add_uint8 gl ?sa u v = Some (the (add_uint8 gl params v u))" for u v
      unfolding add_uint8_switch [OF ok(2,3)] by (rule at)
    show ?thesis
      by (simp only: BroadcastMulFivefold_def BroadcastAddFivefold_def Let_def ys y False if_False bind.bind_lunit
        fivefold_mul [OF sp w pos l(2,1,3) mts] fivefold_add [OF sp w pos l(2,1,3) ats oks] simp_thms)
  qed
qed

text \<open>
  C32: The fivefold kernels compute what the slow kernels compute.  When \<open>ProcessBroadcastShapes\<close> puts two
  shapes without an empty dimension into a fast category, \<open>BroadcastMulFivefold\<close> and
  \<open>BroadcastAddFivefold\<close> return on buffers of the right sizes, so they read and write inside them, and
  their outputs are those of \<open>BroadcastMul4DSlow\<close> and \<open>BroadcastAdd4DSlow\<close>, for any gemmlowp functions.
\<close>

theorem fivefold_agrees_with_slow:
  assumes "ProcessBroadcastShapes s1 s2 params0 = Some (params, r)"
    and "broadcast_category params = kFirstInputBroadcastsFast \<or> broadcast_category params = kSecondInputBroadcastsFast"
    and "ExtendedShape 4 s1 = Some e1" "ExtendedShape 4 s2 = Some e2" "ExtendedShape 4 os = Some whole"
    and "broadcastable e1 e2 whole" and "\<forall>d\<in>set whole. 0 < d"
    and "int (length x1) = FlatSize e1" "int (length x2) = FlatSize e2" "int (length out) = FlatSize whole"
    and "output_shift params < 32" "0 \<le> left_shift params" "left_shift params < 32"
    and "offset_in_range (input1_offset params)" "offset_in_range (input2_offset params)"
  shows "\<exists>products sums.
     BroadcastMulFivefold gl params s1 x1 s2 x2 os out = Some products \<and>
     BroadcastMul4DSlow_uint8 gl params s1 x1 s2 x2 os out = Some products \<and>
     BroadcastAddFivefold gl params s1 x1 s2 x2 os out = Some sums \<and>
     BroadcastAdd4DSlow_uint8 gl params s1 x1 s2 x2 os out = Some sums"
proof -
  obtain A0 A1 A2 B3 A4 where b: "broadcast_shape params = [prod_list A0, prod_list A1, prod_list A2, prod_list B3, prod_list A4]"
      "if broadcast_category params = kFirstInputBroadcastsFast then five_split e1 e2 A0 A1 A2 B3 A4
       else five_split e2 e1 A0 A1 A2 B3 A4"
    using ProcessBroadcastShapes_blocks [OF assms(1-4)] by blast
  have w: "whole = map2 joint_extent e1 e2" using assms(6) by (simp add: broadcastable_def)
  note fast = fivefold_both [OF b w assms(7-15), of gl]
  note slow = broadcast_loops_total [OF assms(3-10)]
  show ?thesis
    using fast slow [where f = "mul_uint8 gl params" and g = "\<lambda>u v. the (mul_uint8 gl params u v)", OF mul_uint8_total [OF assms(11)]]
      slow [where f = "add_uint8 gl params" and g = "\<lambda>u v. the (add_uint8 gl params u v)", OF add_uint8_total [OF assms(12,13)]]
    unfolding BroadcastMul4DSlow_uint8_def BroadcastAdd4DSlow_uint8_def by blast
qed

lemma fivefold_agrees_with_slow_witness:
  "let params = example_params\<lparr>broadcast_category := kFirstInputBroadcastsFast, broadcast_shape := [1, 1, 2, 3, 1]\<rparr> in
   \<exists>products sums.
     BroadcastMulFivefold example_gemmlowp params [2, 1] [10, 20] [2, 3] [1, 2, 3, 4, 5, 6] [2, 3] (replicate 6 0) = Some products \<and>
     BroadcastMul4DSlow_uint8 example_gemmlowp params [2, 1] [10, 20] [2, 3] [1, 2, 3, 4, 5, 6] [2, 3] (replicate 6 0) = Some products \<and>
     BroadcastAddFivefold example_gemmlowp params [2, 1] [10, 20] [2, 3] [1, 2, 3, 4, 5, 6] [2, 3] (replicate 6 0) = Some sums \<and>
     BroadcastAdd4DSlow_uint8 example_gemmlowp params [2, 1] [10, 20] [2, 3] [1, 2, 3, 4, 5, 6] [2, 3] (replicate 6 0) = Some sums"
proof -
  let ?params = "example_params\<lparr>broadcast_category := kFirstInputBroadcastsFast, broadcast_shape := [1, 1, 2, 3, 1]\<rparr>"
  have p: "ProcessBroadcastShapes [2, 1] [2, 3] example_params = Some (?params, True)"
    by (simp add: ProcessBroadcastShapes_def ExtendedShape_def five_blocks_def Let_def numeral_eq_Suc)
  have e: "ExtendedShape 4 [2, 1] = Some [1, 1, 2, 1]" "ExtendedShape 4 [2, 3] = Some [1, 1, 2, 3]"
    by (simp_all add: ExtendedShape_def numeral_eq_Suc)
  have b: "broadcastable [1, 1, 2, 1] [1, 1, 2, 3] [1, 1, 2, 3]"
    by (simp add: broadcastable_def compatible_dims_def joint_extent_def)
  show ?thesis unfolding Let_def
    by (rule fivefold_agrees_with_slow [OF p _ e e(2) b])
       (simp_all add: FlatSize_def example_params_def offset_in_range_def)
qed

text \<open>
  Without the hypothesis on empty dimensions it fails: \<open>BroadcastAddFivefold\<close> takes an empty block for
  a block of one element, and on a one by zero and a three by zero tensor it dereferences the empty first input.
\<close>

lemma fivefold_add_empty:
  "let params = example_params\<lparr>broadcast_category := kFirstInputBroadcastsFast, broadcast_shape := [1, 1, 1, 3, 0]\<rparr> in
   ProcessBroadcastShapes [1, 0] [3, 0] example_params = Some (params, True) \<and>
   BroadcastAdd4DSlow_uint8 gl params [1, 0] [] [3, 0] [] [3, 0] [] = Some [] \<and>
   BroadcastAddFivefold gl params [1, 0] [] [3, 0] [] [3, 0] [] = None"
proof -
  let ?params = "example_params\<lparr>broadcast_category := kFirstInputBroadcastsFast, broadcast_shape := [1, 1, 1, 3, 0]\<rparr>"
  have p: "ProcessBroadcastShapes [1, 0] [3, 0] example_params = Some (?params, True)"
    by (simp add: ProcessBroadcastShapes_def ExtendedShape_def five_blocks_def Let_def numeral_eq_Suc)
  have e: "ExtendedShape 4 [1, 0] = Some [1, 1, 1, 0]" "ExtendedShape 4 [3, 0] = Some [1, 1, 3, 0]"
    by (simp_all add: ExtendedShape_def numeral_eq_Suc)
  have b: "broadcastable [1, 1, 1, 0] [1, 1, 3, 0] [1, 1, 3, 0]"
    by (simp add: broadcastable_def compatible_dims_def joint_extent_def)
  have "BroadcastAdd4DSlow_uint8 gl ?params [1, 0] [] [3, 0] [] [3, 0] [] = Some []"
    unfolding BroadcastAdd4DSlow_uint8_def
    by (subst broadcast_loops_eq [OF e e(2) b]) (simp_all add: FlatSize_def elementwise_loop_def)
  moreover have "BroadcastAddFivefold gl ?params [1, 0] [] [3, 0] [] [3, 0] [] = None"
    by (simp add: BroadcastAddFivefold_def rd_def fivefold_loops_def for_range_step)
  ultimately show ?thesis using p by simp
qed

end
