(* ===== verification/Spec2Isabelle.thy ===== *)
theory Spec2Isabelle
  imports Client Flat_Iter Cuckoo_Spec Edit_Distance Tensor_Format Random_Dist Bfloat16 Batch_Drain Lite_Space Lite_Concat Lite_Slice Lite_Perm Lite_Select Lite_Fivefold
begin

text \<open>
  Verification development of the TensorIO TensorFlow library for Android.

  The repository wraps TensorFlow's C++ library for Java programs on Android and ships the C++
  headers it is built against.  The development models three layers.  Paths are relative to
  \<open>src/tensorflow/src/main/\<close> (the wrapper) and to
  \<open>src/distribution/tensorflow/include/tensorflow/\<close> (the headers).  C1 to C40 are the properties; each
  stands in the theory named here, behind a text with its number.

  1. The wrapper: \<open>Tensor\<close> and \<open>SavedModelBundle\<close> of \<open>java/ai/doc/tensorflow/\<close> and their native methods
  in \<open>cpp/\<close>.  A Java object keeps the address of its native object in \<open>handle\<close>.

    \<^item> \<open>Tf_Types\<close>: \<open>core/framework/types.h\<close> (type codes, reference types, \<open>DataTypeSet\<close>) and
      \<open>DataType.java\<close>.  C10: the iterator of a set visits its elements in order.
    \<^item> \<open>Jni_Vm\<close>: the state, Java objects, native heap, pending exception and log, with
      \<open>cpp/jni_utils.h\<close>, \<open>cpp/jni_utils.cpp\<close>, \<open>core/lib/core/refcount.h\<close> and the parts of
      \<open>core/framework/tensor.h\<close> the wrapper uses; the invariant \<open>wf_heap\<close> of the native heap.
    \<^item> \<open>Tensor_Jni\<close>: \<open>cpp/tensor_jni.cpp\<close>, \<open>Tensor.java\<close>.  C3: bytes set are bytes read; C9: string tensors
      crash.  Lemmas: what a closed tensor and a buffer that is not direct do.
    \<^item> \<open>Bundle_Jni\<close>: \<open>cpp/saved_model_bundle_jni.cpp\<close>, \<open>SavedModelBundle.java\<close>.  C4 and C5: a run that
      succeeds or fails; C6 and C7: a training step that succeeds or fails; C8: opening a model.
      Lemmas: exporting and closing.
    \<^item> \<open>Client\<close>: all public calls as a step relation.  C1: a call the documented rules allow returns,
      but for a training step whose session run fails; C2: no client at all can break the native heap
      with calls that return.

  2. The kernels of TensorFlow Lite that the headers contain as code, in \<open>lite/kernels/internal/\<close>.

    \<^item> \<open>Lite_Shape\<close>: \<open>types.h\<close>, \<open>RuntimeShape\<close> with its two storages, offsets, flat sizes, \<open>NextIndex\<close> and the
      legacy \<open>Dims\<close>.  C24: shapes implement lists of sizes.  Lemmas: \<open>NextIndex\<close> enumerates all
      indices, the legacy form agrees, sizes match or fail.
    \<^item> \<open>Lite_Space\<close>, \<open>Lite_Concat\<close>, \<open>Lite_Slice\<close>, \<open>Lite_Perm\<close>, \<open>Lite_Select\<close>: the kernels of
      \<open>reference/reference_ops.h\<close>, \<open>reference/strided_slice.h\<close>, \<open>reference/arg_min_max.h\<close>,
      \<open>strided_slice_logic.h\<close> and \<open>tensor.h\<close> that move, cut, join, permute and choose elements.  C25, C26,
      C28 and C30: pairs of kernels undo each other; C27 and C29: the output of \<open>Gather\<close> and of
      \<open>StridedSlice\<close>, element by element.  The specifications are independent of the kernels' index
      computations: \<open>axis_slice\<close> for the slice of an axis, \<open>front_fill\<close> for the parameters of \<open>Slice\<close>,
      \<open>inverse_of\<close> for the permutations of \<open>Transpose\<close>.
    \<^item> \<open>Lite_Quant\<close>: \<open>common.h\<close>, integer arithmetic of the quantized kernels on machine words.
    \<^item> \<open>Lite_Broadcast\<close>, \<open>Lite_Arith\<close>, \<open>Lite_Fivefold\<close>: the kernels on two inputs (\<open>reference/add.h\<close>,
      \<open>reference/comparisons.h\<close> and others) in their elementwise, broadcasting and fivefold forms, and
      \<open>reference/process_broadcast_shapes.h\<close>.  C31 and C32: the forms compute the same.

  3. Containers and utilities that the headers of \<open>core/\<close> contain as code.

    \<^item> \<open>Faults\<close>: the result type of this layer and the loops it shares.
    \<^item> \<open>Flat_Rep\<close>, \<open>Flat_Probe\<close>, \<open>Flat_Table\<close>, \<open>Flat_Map\<close>, \<open>Flat_Iter\<close>: \<open>lib/gtl/flatrep.h\<close>, \<open>lib/gtl/flatmap.h\<close>,
      \<open>lib/gtl/flatset.h\<close> and the pointer hash of \<open>lib/hash/hash.h\<close>.  The first has the operations of the
      table, the next two its invariant and what probing finds, the last two the map, the set and
      their iterators.  C17: the map implements a partial map; C18: a range loop visits every entry
      once; C19: a cleared set with deleted slots can loop for ever.
    \<^item> \<open>Cuckoo_Map\<close>, \<open>Cuckoo_Table\<close>, \<open>Cuckoo_Search\<close>, \<open>Cuckoo_Spec\<close>: \<open>util/presized_cuckoo_map.h\<close>, with its
      operations, the invariant, the breadth-first search and the promises.  C20: it implements a
      partial map; C21: an insertion finds space within the depth of the search; C22: the invariant;
      C23: what happens to the key that marks unused slots.
    \<^item> \<open>Edit_Distance\<close>: \<open>lib/gtl/edit_distance.h\<close>.  C39: the result is the least cost of an edit.
    \<^item> \<open>Tensor_Format\<close>: \<open>util/tensor_format.h\<close>.  C40: shapes of tensors and filters between formats.
    \<^item> \<open>Philox\<close>, \<open>Random_Dist\<close>: \<open>lib/random/philox_random.h\<close>, \<open>lib/random/random_distributions.h\<close> and
      \<open>lib/random/exact_uniform_int.h\<close>.  C33 and C34: the period of the stream, and where \<open>Skip\<close> loses a
      carry; C35 and C36: uniform integers; C37: samples one by one.
    \<^item> \<open>Bfloat16\<close>: \<open>lib/bfloat16/bfloat16.h\<close>.  C38: rounding to nearest, ties to even.
    \<^item> \<open>Batch_Queue\<close>, \<open>Batch_Sched\<close>, \<open>Batch_Safe\<close>, \<open>Batch_Round\<close>, \<open>Batch_Drain\<close>:
      \<open>kernels/batching_util/batch_scheduler.h\<close> and \<open>shared_batch_scheduler.h\<close>, a program of many threads.
      The operations on a batch and a queue, the scheduler as a transition system, its invariant, its
      properties in all interleavings, and a run that empties it.  C11: no event faults; C12: batches
      keep the order; C13: a destructor waits for its tasks; C14: a thread finds work; C15: a
      scheduler that is closed can drain; C16: the capacity is exact.

  \<open>Prelude\<close> and \<open>Blocks\<close> are shared: checked memory accesses, counted loops as folds, loops that write
  disjoint blocks of a buffer.  Four locales state interfaces, and all are interpreted on the model's
  own definitions: \<open>index_space\<close> of \<open>Lite_Shape\<close> between an index computation and a kernel that writes
  through it, \<open>hashing\<close> between the table and its hash functor (the mixed pointer hash),
  \<open>work_queue\<close> between a search and its queue (the ring buffer of the cuckoo map), and \<open>block_generator\<close>
  between an adapter and a generator of blocks (Philox).

  Conventions.
    \<^item> In the wrapper a call is a function from state to \<open>Inr\<close> of the next state, a pending Java
      exception included, or \<open>Inl\<close> of the way it ends the process.  The VM, the allocator, the loader
      and the session are the record \<open>env\<close>.  A session is its state and the functions \<open>session_run\<close>
      and \<open>session_close\<close>; \<open>session_contract\<close> (hypothesis of C1) is what TensorFlow documents of them:
      as many outputs as names on success.  It allows every run to fail.
    \<^item> In the kernels a buffer is a list and \<open>None\<close> is a failing \<open>TFLITE_DCHECK\<close>, an access outside
      a buffer, a division by zero or a read of an unset pointer: a result \<open>Some\<close> says that none of these
      happened.  The checks are those of a debug build.
    \<^item> Indices of the kernels are mathematical integers: the flat sizes of the buffers a process can
      hold fit the type \<open>int\<close> of the code.  Where wrap-around matters (data type sets, quantized
      arithmetic, the wrapper's sizes, the \<open>int16\<close> fields of \<open>StridedSliceParams\<close>, hashes, counters and
      random words) integers are words or truncated.
    \<^item> In the third layer \<open>size_t\<close> and \<open>uint64\<close> are 64-bit words and \<open>Inl\<close> is a fault: an access outside an
      array, a failing check, or \<open>NoReturn\<close> for a loop that never ends.  Products of sizes and load
      factors are computed in integers, the quotient of two doubles in the cuckoo map's \<open>Clear\<close> is a
      parameter, and allocation succeeds.  A \<open>FlatSet\<close> is a table with unit values.
    \<^item> The batch scheduler: a step is what a thread does in one critical section, and any thread may
      take the next one; the test for an empty queue, its removal from the list and its destruction are
      one step, since they happen under one mutex.  Queues have identities that are not used again.  A
      condition variable only shortens a wait.  The size of a task, the clock and the callback are
      parameters.  The model has only queues with \<open>max_batch_size\<close> below \<open>2 ^ 63\<close> (\<open>options_ok\<close>), which
      \<open>AddQueue\<close> of the code does not check: with a larger one the sizes it adds could wrap around.
    \<^item> Functions the headers declare and do not define are parameters: gemmlowp's fixed-point
      functions (record \<open>gemmlowp\<close>), \<open>std::pow\<close>, the arithmetic of the element types, the constructor of
      \<open>TensorShape\<close> (\<open>make_shape\<close>; C40 assumes that it takes sizes that are not negative and whose product
      fits an \<open>int64\<close>).  \<open>SkipFromGenerator\<close> is the generic loop of the header; the variant for Philox the
      comment mentions is in a source file that is not part of the repository.
    \<^item> Loops: counted loops are \<open>for_range\<close>, \<open>NextIndex\<close> loops are recursions with a measure, a loop whose end
      is not evident is \<open>while_option\<close> (\<open>CountLeadingZeros\<close>), a least fixed point (\<open>for_stride\<close>, where
      \<open>None\<close> also stands for a stride that never arrives) or \<open>forever\<close>, and that it returns is proved.
      No fuel is used; where a loop of the code does not end, that is a property (C19).

  Not modelled: the asset loader (file input and output), the headers of vendored libraries (Eigen,
  absl, protobuf, gemmlowp) and generated code, TensorFlow headers that only declare, kernels on
  floats whose result is rounding (softmax, convolution), float distributions, the optimised NEON
  kernels and CUDA variants, prefetching, default-constructed iterators, string hashes, and the batch
  schedulers other than the shared one.  Threads are modelled in the batch scheduler only: the other
  code takes no locks, and the wrapper is modelled for one thread at a time.
\<close>

end
